(* ===== verification/Prelude.thy ===== *)
theory Prelude
  imports Main "HOL-Library.Word" "HOL-Library.Char_ord" "HOL-Library.List_Lexorder"
begin

text \<open>
  What every component of the development shares: the C++ machine types, the exceptions as
  values of a sum type, \<^verbatim>\<open>memcpy\<close> between byte vectors, little-endian integers,
  \<^verbatim>\<open>std::string\<close> comparison, and the generic facts on lists that the component
  theories rely on.

  \<^item> \<^verbatim>\<open>uint8_t\<close>, \<^verbatim>\<open>uint16_t\<close>, \<^verbatim>\<open>uint32_t\<close>, \<^verbatim>\<open>uint64_t\<close> are words of that width;
    \<^verbatim>\<open>size_t\<close> is \<open>nat\<close> where it counts the elements of a container and a 64-bit word
    where the code relies on its wrap-around.
  \<^item> \<^verbatim>\<open>std::string\<close> is \<open>string\<close>; the order on strings is the library's lexicographic order
    over the unsigned value of the characters, which is what \<^verbatim>\<open>std::string::compare\<close> uses.
  \<^item> a thrown exception is \<open>Inl e\<close>; reading or writing outside a buffer, which C++ leaves
    undefined, is \<open>Inl Undefined_behaviour\<close>, so no theorem about a returned value rests on it;
    \<open>Inl No_return\<close> stands for a loop along pointers that visits more nodes than there are, that is
    one that runs in a circle.
\<close>

section \<open>Collections of facts\<close>

named_theorems result_simps \<open>evaluation of the exception monad\<close>
named_theorems codec_simps \<open>reading back what was written into a byte buffer\<close>

section \<open>Machine types and exceptions\<close>

type_synonym byte = "8 word"
type_synonym u16 = "16 word"
type_synonym u32 = "32 word"
type_synonym u64 = "64 word"
type_synonym bytes = "byte list"

datatype error =
    Runtime_error string
  | Out_of_range string
  | Invalid_argument string
  | Undefined_behaviour
  | No_return

type_synonym 'a result = "error + 'a"

definition bindE :: "'a result \<Rightarrow> ('a \<Rightarrow> 'b result) \<Rightarrow> 'b result" where
  "bindE m f = (case m of Inl e \<Rightarrow> Inl e | Inr x \<Rightarrow> f x)"

fun mapE :: "('a \<Rightarrow> 'b result) \<Rightarrow> 'a list \<Rightarrow> 'b list result" where
  "mapE f [] = Inr []"
| "mapE f (x # xs) = bindE (f x) (\<lambda>y. bindE (mapE f xs) (\<lambda>ys. Inr (y # ys)))"

lemma bindE_simps [simp, result_simps]:
  "bindE (Inl e) f = Inl e"
  "bindE (Inr x) f = f x"
  by (simp_all add: bindE_def)

lemma bindE_eq_Inr [result_simps]:
  "bindE m f = Inr y \<longleftrightarrow> (\<exists>x. m = Inr x \<and> f x = Inr y)"
  by (cases m) (auto simp: bindE_def)

lemma bindE_assoc: "bindE (bindE m f) g = bindE m (\<lambda>x. bindE (f x) g)"
  by (cases m) simp_all

lemma bindE_cong [fundef_cong]:
  "m = m' \<Longrightarrow> (\<And>x. m' = Inr x \<Longrightarrow> f x = g x) \<Longrightarrow> bindE m f = bindE m' g"
  by (cases m') simp_all

lemma mapE_Inr: "(\<And>x. x \<in> set xs \<Longrightarrow> f x = Inr (g x)) \<Longrightarrow> mapE f xs = Inr (map g xs)"
  by (induction xs) simp_all

section \<open>Strings as bytes\<close>

text \<open>\<^verbatim>\<open>reinterpret_cast<const char *>\<close> and back: a character is its byte.\<close>

definition byte_of_char :: "char \<Rightarrow> byte" where
  "byte_of_char c = of_char c"

definition char_of_byte :: "byte \<Rightarrow> char" where
  "char_of_byte b = char_of (unat b)"

definition str_bytes :: "string \<Rightarrow> bytes" where
  "str_bytes s = map byte_of_char s"

definition bytes_str :: "bytes \<Rightarrow> string" where
  "bytes_str bs = map char_of_byte bs"

lemma unat_byte_of_char: "unat (byte_of_char c) = of_char c"
proof -
  have "(of_char c :: nat) < 256"
    using nat_of_char_less_256 by blast
  moreover have "byte_of_char c = of_nat (of_char c)"
    by (simp add: byte_of_char_def of_char_def)
  ultimately show ?thesis
    by (simp add: unat_of_nat)
qed

lemma char_of_byte_of_char [simp]: "char_of_byte (byte_of_char c) = c"
  by (simp add: char_of_byte_def unat_byte_of_char)

lemma byte_of_char_of_byte [simp]: "byte_of_char (char_of_byte b) = b"
proof -
  have "unat b < 256"
    using unsigned_less [of b] by simp
  then have "unat (byte_of_char (char_of_byte b)) = unat b"
    by (simp add: unat_byte_of_char char_of_byte_def)
  then show ?thesis
    by (rule word_unat_eq_iff [THEN iffD2])
qed

lemma bytes_str_str_bytes [simp, codec_simps]: "bytes_str (str_bytes s) = s"
  by (simp add: bytes_str_def str_bytes_def comp_def)

lemma str_bytes_bytes_str [simp, codec_simps]: "str_bytes (bytes_str bs) = bs"
  by (simp add: bytes_str_def str_bytes_def comp_def)

lemma length_str_bytes [simp, codec_simps]: "length (str_bytes s) = length s"
  by (simp add: str_bytes_def)

lemma length_bytes_str [simp, codec_simps]: "length (bytes_str s) = length s"
  by (simp add: bytes_str_def)

lemma str_bytes_Nil [simp]: "str_bytes [] = []" and bytes_str_Nil [simp]: "bytes_str [] = []"
  by (simp_all add: str_bytes_def bytes_str_def)

lemma take_str_bytes: "take n (str_bytes s) = str_bytes (take n s)"
  by (simp add: str_bytes_def take_map)

lemma str_bytes_inject [simp]: "str_bytes a = str_bytes b \<longleftrightarrow> a = b"
  by (metis bytes_str_str_bytes)

text \<open>
  \<^verbatim>\<open>std::string::compare\<close>: the standard fixes the sign of the result only, so the model
  returns \<open>-1\<close>, \<open>0\<close> or \<open>1\<close>; every caller looks at the sign.
\<close>

definition str_compare :: "string \<Rightarrow> string \<Rightarrow> int" where
  "str_compare a b = (if a < b then -1 else if a = b then 0 else 1)"

lemma str_compare_sign [simp]:
  "str_compare a b < 0 \<longleftrightarrow> a < b"
  "str_compare a b = 0 \<longleftrightarrow> a = b"
  "0 < str_compare a b \<longleftrightarrow> b < a"
  by (auto simp: str_compare_def)

section \<open>Little-endian integers\<close>

primrec le_bytes :: "nat \<Rightarrow> nat \<Rightarrow> bytes" where
  "le_bytes 0 v = []"
| "le_bytes (Suc n) v = of_nat v # le_bytes n (v div 256)"

primrec of_le :: "bytes \<Rightarrow> nat" where
  "of_le [] = 0"
| "of_le (b # bs) = unat b + 256 * of_le bs"

lemma length_le_bytes [simp, codec_simps]: "length (le_bytes n v) = n"
  by (induction n arbitrary: v) simp_all

lemma of_le_le_bytes: "of_le (le_bytes n v) = v mod 256 ^ n"
proof (induction n arbitrary: v)
  case 0
  show ?case by simp
next
  case (Suc n)
  have "unat (of_nat v :: byte) = v mod 256"
    by (simp add: unat_of_nat)
  then show ?case
    using Suc by (simp add: mod_mult2_eq)
qed

lemma of_le_bound: "of_le bs < 256 ^ length bs"
proof (induction bs)
  case Nil
  show ?case by simp
next
  case (Cons b bs)
  have "unat b < 256"
    using unsigned_less [of b] by simp
  with Cons show ?case by simp
qed

definition u8_bytes :: "byte \<Rightarrow> bytes" where
  "u8_bytes w = [w]"

definition u16_bytes :: "u16 \<Rightarrow> bytes" where
  "u16_bytes w = le_bytes 2 (unat w)"

definition u32_bytes :: "u32 \<Rightarrow> bytes" where
  "u32_bytes w = le_bytes 4 (unat w)"

definition u64_bytes :: "u64 \<Rightarrow> bytes" where
  "u64_bytes w = le_bytes 8 (unat w)"

definition bytes_u16 :: "bytes \<Rightarrow> u16" where
  "bytes_u16 bs = of_nat (of_le bs)"

definition bytes_u32 :: "bytes \<Rightarrow> u32" where
  "bytes_u32 bs = of_nat (of_le bs)"

definition bytes_u64 :: "bytes \<Rightarrow> u64" where
  "bytes_u64 bs = of_nat (of_le bs)"

lemma length_word_bytes [simp, codec_simps]:
  "length (u8_bytes b) = 1"
  "length (u16_bytes w) = 2"
  "length (u32_bytes d) = 4"
  "length (u64_bytes q) = 8"
  by (simp_all add: u8_bytes_def u16_bytes_def u32_bytes_def u64_bytes_def)

lemma bytes_u16_u16_bytes [simp, codec_simps]: "bytes_u16 (u16_bytes w) = w"
proof -
  have "unat w < 256 ^ 2"
    using unsigned_less [of w] by simp
  then show ?thesis
    by (simp add: bytes_u16_def u16_bytes_def of_le_le_bytes)
qed

lemma bytes_u32_u32_bytes [simp, codec_simps]: "bytes_u32 (u32_bytes w) = w"
proof -
  have "unat w < 256 ^ 4"
    using unsigned_less [of w] by simp
  then show ?thesis
    by (simp add: bytes_u32_def u32_bytes_def of_le_le_bytes)
qed

lemma bytes_u64_u64_bytes [simp, codec_simps]: "bytes_u64 (u64_bytes w) = w"
proof -
  have "unat w < 256 ^ 8"
    using unsigned_less [of w] by simp
  then show ?thesis
    by (simp add: bytes_u64_def u64_bytes_def of_le_le_bytes)
qed

section \<open>Buffers and memcpy\<close>

text \<open>\<^verbatim>\<open>memcpy\<close> out of a buffer: \<open>n\<close> bytes from offset \<open>off\<close>.\<close>

definition memread :: "bytes \<Rightarrow> nat \<Rightarrow> nat \<Rightarrow> bytes result" where
  "memread buf off n =
     (if off + n \<le> length buf then Inr (take n (drop off buf)) else Inl Undefined_behaviour)"

text \<open>\<^verbatim>\<open>memcpy\<close> into a buffer of fixed size: the bytes \<open>src\<close> at offset \<open>off\<close>.\<close>

definition memwrite :: "bytes \<Rightarrow> nat \<Rightarrow> bytes \<Rightarrow> bytes result" where
  "memwrite buf off src =
     (if off + length src \<le> length buf
      then Inr (take off buf @ src @ drop (off + length src) buf)
      else Inl Undefined_behaviour)"

definition read_u8 :: "bytes \<Rightarrow> nat \<Rightarrow> byte result" where
  "read_u8 buf off = (if off < length buf then Inr (buf ! off) else Inl Undefined_behaviour)"

definition read_u16 :: "bytes \<Rightarrow> nat \<Rightarrow> u16 result" where
  "read_u16 buf off = bindE (memread buf off 2) (\<lambda>bs. Inr (bytes_u16 bs))"

definition read_u32 :: "bytes \<Rightarrow> nat \<Rightarrow> u32 result" where
  "read_u32 buf off = bindE (memread buf off 4) (\<lambda>bs. Inr (bytes_u32 bs))"

definition read_u64 :: "bytes \<Rightarrow> nat \<Rightarrow> u64 result" where
  "read_u64 buf off = bindE (memread buf off 8) (\<lambda>bs. Inr (bytes_u64 bs))"

definition read_str :: "bytes \<Rightarrow> nat \<Rightarrow> nat \<Rightarrow> string result" where
  "read_str buf off n = bindE (memread buf off n) (\<lambda>bs. Inr (bytes_str bs))"

text \<open>
  Reading at the start of the middle part of a buffer: the shape in which every decoder of the
  development meets what its encoder wrote.
\<close>

lemma memread_middle [codec_simps]:
  "off = length pre \<Longrightarrow> n = length xs \<Longrightarrow> memread (pre @ xs @ post) off n = Inr xs"
  by (simp add: memread_def)

lemma memread_append_left:
  "off + n \<le> length xs \<Longrightarrow> memread (xs @ ys) off n = memread xs off n"
  by (simp add: memread_def)

lemma memread_append_right:
  "length pre \<le> off \<Longrightarrow> memread (pre @ xs) off n = memread xs (off - length pre) n"
  by (auto simp: memread_def)

lemma memread_Inr_length: "memread buf off n = Inr bs \<Longrightarrow> length bs = n"
  by (auto simp: memread_def split: if_splits)

lemma memread_zero [simp]: "off \<le> length buf \<Longrightarrow> memread buf off 0 = Inr []"
  by (simp add: memread_def)

lemma read_u16_middle [codec_simps]:
  "off = length pre \<Longrightarrow> read_u16 (pre @ u16_bytes w @ post) off = Inr w"
  by (simp add: read_u16_def memread_middle)

lemma read_u32_middle [codec_simps]:
  "off = length pre \<Longrightarrow> read_u32 (pre @ u32_bytes w @ post) off = Inr w"
  by (simp add: read_u32_def memread_middle)

lemma read_u64_middle [codec_simps]:
  "off = length pre \<Longrightarrow> read_u64 (pre @ u64_bytes w @ post) off = Inr w"
  by (simp add: read_u64_def memread_middle)

lemma read_str_middle [codec_simps]:
  "off = length pre \<Longrightarrow> n = length s \<Longrightarrow> read_str (pre @ str_bytes s @ post) off n = Inr s"
  by (simp add: read_str_def memread_middle)

lemma read_u8_middle [codec_simps]:
  "off = length pre \<Longrightarrow> read_u8 (pre @ b # post) off = Inr b"
  by (simp add: read_u8_def)

lemma length_memwrite: "memwrite buf off src = Inr buf' \<Longrightarrow> length buf' = length buf"
  by (auto simp: memwrite_def split: if_splits)

lemma memwrite_here [codec_simps]:
  "off = length pre \<Longrightarrow> length src = n \<Longrightarrow>
   memwrite (pre @ replicate (n + m) z) off src = Inr (pre @ src @ replicate m z)"
  by (simp add: memwrite_def replicate_add)

lemma memwrite_append [codec_simps]:
  "off = length pre \<Longrightarrow> length src \<le> length rest \<Longrightarrow>
   memwrite (pre @ rest) off src = Inr (pre @ src @ drop (length src) rest)"
  by (simp add: memwrite_def)

text \<open>\<^verbatim>\<open>std::vector::resize\<close>: truncate, or extend with zeros.\<close>

definition resize :: "nat \<Rightarrow> bytes \<Rightarrow> bytes" where
  "resize n buf = take n buf @ replicate (n - length buf) 0"

lemma length_resize [simp]: "length (resize n buf) = n"
  by (simp add: resize_def)

section \<open>Associative containers\<close>

text \<open>
  \<^verbatim>\<open>std::map\<close> and \<^verbatim>\<open>std::unordered_map\<close> where the code asks for the number of elements: a list of
  pairs, at most one for each key. \<open>map_of\<close> is \<^verbatim>\<open>find\<close>.
\<close>

definition amap_put :: "'k \<Rightarrow> 'v \<Rightarrow> ('k \<times> 'v) list \<Rightarrow> ('k \<times> 'v) list" where
  "amap_put k v m = (k, v) # filter (\<lambda>p. fst p \<noteq> k) m"

definition amap_erase :: "'k \<Rightarrow> ('k \<times> 'v) list \<Rightarrow> ('k \<times> 'v) list" where
  "amap_erase k m = filter (\<lambda>p. fst p \<noteq> k) m"

lemma map_of_amap_erase [simp]: "map_of (amap_erase k m) = (map_of m)(k := None)"
  by (induction m) (auto simp: amap_erase_def)

lemma map_of_amap_put [simp]: "map_of (amap_put k v m) = (map_of m)(k \<mapsto> v)"
  using map_of_amap_erase [of k m] by (simp add: amap_put_def amap_erase_def)

lemma set_amap:
  "set (amap_erase k m) = {p \<in> set m. fst p \<noteq> k}"
  "set (amap_put k v m) = insert (k, v) {p \<in> set m. fst p \<noteq> k}"
  by (auto simp: amap_erase_def amap_put_def)

lemma distinct_amap:
  assumes "distinct (map fst m)"
  shows "distinct (map fst (amap_erase k m))" and "distinct (map fst (amap_put k v m))"
proof -
  show "distinct (map fst (amap_erase k m))"
    using assms by (simp add: amap_erase_def distinct_map_filter)
  then show "distinct (map fst (amap_put k v m))"
    by (auto simp: amap_erase_def amap_put_def)
qed

section \<open>The first position that satisfies a predicate\<close>

fun find_index :: "('a \<Rightarrow> bool) \<Rightarrow> 'a list \<Rightarrow> nat option" where
  "find_index P [] = None"
| "find_index P (x # xs) = (if P x then Some 0 else map_option Suc (find_index P xs))"

lemma find_index_eq_None: "find_index P xs = None \<longleftrightarrow> (\<forall>x \<in> set xs. \<not> P x)"
  by (induction xs) auto

lemma find_index_eq_Some:
  "find_index P xs = Some i \<longleftrightarrow> i < length xs \<and> P (xs ! i) \<and> (\<forall>j < i. \<not> P (xs ! j))"
proof (induction xs arbitrary: i)
  case Nil
  show ?case by simp
next
  case (Cons x xs)
  then show ?case
    by (cases i) (auto simp: All_less_Suc2)
qed

lemma find_index_someI:
  "i < length xs \<Longrightarrow> P (xs ! i) \<Longrightarrow> (\<And>j. j < i \<Longrightarrow> \<not> P (xs ! j)) \<Longrightarrow> find_index P xs = Some i"
  by (simp add: find_index_eq_Some)

lemma find_index_noneI:
  "(\<And>j. j < length xs \<Longrightarrow> \<not> P (xs ! j)) \<Longrightarrow> find_index P xs = None"
  by (metis find_index_eq_None in_set_conv_nth)

end
