(* ===== verification/FileIO.thy ===== *)
theory FileIO
  imports Prelude
begin

text \<open>
  Files: \<^verbatim>\<open>StdFile\<close> (\<^verbatim>\<open>src/utils/std_file.cpp\<close>, the POSIX branch), \<^verbatim>\<open>FileObj\<close>
  (\<^verbatim>\<open>src/utils/files.cpp\<close>) and \<^verbatim>\<open>Cursor\<close> (\<^verbatim>\<open>src/utils/cursor.cpp\<close>).

  The file system is a directory from path names to inodes and a store from inodes to bytes, so
  that a descriptor keeps referring to its inode after the path was unlinked, as POSIX has it.
  The retry loops around \<^verbatim>\<open>pread\<close> and \<^verbatim>\<open>pwrite\<close> take the kernel's answers as a list of
  events; everything above uses their net effect, and \<open>StdFile_read_loop_ok\<close> and
  \<open>StdFile_write_loop_ok\<close> show that the loops have that effect whatever way the kernel splits the
  transfers and however often it interrupts them. Device errors other than those the loops
  see (a full disk on \<^verbatim>\<open>open\<close>, a failing \<^verbatim>\<open>fsync\<close>) are outside the model.
\<close>

section \<open>The file system and descriptors\<close>

record filesys =
  dir :: "string \<Rightarrow> nat option"
  inodes :: "nat \<Rightarrow> bytes"
  next_ino :: nat

record std_file =
  fd :: "nat option"
  file_path :: string

definition empty_fs :: filesys where
  "empty_fs = \<lparr>dir = (\<lambda>_. None), inodes = (\<lambda>_. []), next_ino = 0\<rparr>"

definition StdFile_is_open :: "std_file \<Rightarrow> bool" where
  "StdFile_is_open f \<longleftrightarrow> fd f \<noteq> None"

definition StdFile_open :: "filesys \<Rightarrow> string \<Rightarrow> bool \<Rightarrow> filesys \<times> std_file \<times> bool" where
  "StdFile_open fs filename create =
     (case dir fs filename of
        Some i \<Rightarrow>
          (if create then fs\<lparr>inodes := (inodes fs)(i := [])\<rparr> else fs,
           \<lparr>fd = Some i, file_path = filename\<rparr>, True)
      | None \<Rightarrow>
          (if create then
             (let i = next_ino fs in
              (fs\<lparr>dir := (dir fs)(filename := Some i), inodes := (inodes fs)(i := []),
                 next_ino := Suc i\<rparr>,
               \<lparr>fd = Some i, file_path = filename\<rparr>, True))
           else (fs, \<lparr>fd = None, file_path = filename\<rparr>, False)))"

definition StdFile_size :: "filesys \<Rightarrow> std_file \<Rightarrow> nat" where
  "StdFile_size fs f = (case fd f of None \<Rightarrow> 0 | Some i \<Rightarrow> length (inodes fs i))"

section \<open>The transfer loops\<close>

text \<open>The kernel's answer to one \<^verbatim>\<open>pread\<close> or \<^verbatim>\<open>pwrite\<close> call.\<close>

datatype io_event = EINTR | IO_failure | Transferred nat

definition read_failed :: "'a result" where
  "read_failed = Inl (Runtime_error ''Failed to read from file'')"

text \<open>
  \<^verbatim>\<open>StdFile::read\<close>: \<open>buf\<close> is the part of the buffer filled so far (\<^verbatim>\<open>done\<close> is its
  length). \<open>None\<close>: the loop is still waiting for the kernel.
\<close>

fun StdFile_read_loop ::
  "bytes \<Rightarrow> nat \<Rightarrow> nat \<Rightarrow> io_event list \<Rightarrow> bytes \<Rightarrow> bytes result option" where
  "StdFile_read_loop file off len evs buf =
     (if length buf < len then
        (case evs of
           [] \<Rightarrow> None
         | EINTR # es \<Rightarrow> StdFile_read_loop file off len es buf
         | IO_failure # es \<Rightarrow> Some read_failed
         | Transferred n # es \<Rightarrow>
             (if n = 0 then Some read_failed
              else StdFile_read_loop file off len es
                     (buf @ take n (drop (off + length buf) file))))
      else Some (Inr buf))"

text \<open>What a write of \<open>data\<close> at \<open>off\<close> leaves in a file: a gap past the end reads as zeros.\<close>

definition pwrite_bytes :: "bytes \<Rightarrow> nat \<Rightarrow> bytes \<Rightarrow> bytes" where
  "pwrite_bytes file off data =
     (if data = [] then file
      else take off file @ replicate (off - length file) 0 @ data @ drop (off + length data) file)"

text \<open>\<^verbatim>\<open>StdFile::write\<close>: \<open>done\<close> bytes of \<open>data\<close> are in the file already.\<close>

fun StdFile_write_loop ::
  "bytes \<Rightarrow> nat \<Rightarrow> bytes \<Rightarrow> io_event list \<Rightarrow> nat \<Rightarrow> (bytes \<times> bool) option" where
  "StdFile_write_loop file off data evs done =
     (if done < length data then
        (case evs of
           [] \<Rightarrow> None
         | EINTR # es \<Rightarrow> StdFile_write_loop file off data es done
         | IO_failure # es \<Rightarrow> Some (file, False)
         | Transferred n # es \<Rightarrow>
             (if n = 0 then Some (file, False)
              else StdFile_write_loop
                     (pwrite_bytes file (off + done) (take n (drop done data)))
                     off data es (done + n)))
      else Some (file, True))"

declare StdFile_read_loop.simps [simp del] StdFile_write_loop.simps [simp del]

text \<open>
  What POSIX promises of a run of calls: a transfer moves at least one byte and at most what was
  asked for and, for a read, what the file holds past the offset; a read at the end of the file
  answers 0. Answers after the transfer is complete are not asked for.
\<close>

fun pread_events :: "bytes \<Rightarrow> nat \<Rightarrow> nat \<Rightarrow> io_event list \<Rightarrow> nat \<Rightarrow> bool" where
  "pread_events file off len [] done \<longleftrightarrow> True"
| "pread_events file off len (EINTR # es) done \<longleftrightarrow> pread_events file off len es done"
| "pread_events file off len (IO_failure # es) done \<longleftrightarrow> len \<le> done"
| "pread_events file off len (Transferred n # es) done \<longleftrightarrow>
     len \<le> done \<or>
     n \<le> len - done \<and> n \<le> length file - (off + done) \<and>
     (n = 0 \<longrightarrow> length file \<le> off + done) \<and> pread_events file off len es (done + n)"

fun pwrite_events :: "nat \<Rightarrow> io_event list \<Rightarrow> nat \<Rightarrow> bool" where
  "pwrite_events len [] done \<longleftrightarrow> True"
| "pwrite_events len (EINTR # es) done \<longleftrightarrow> pwrite_events len es done"
| "pwrite_events len (IO_failure # es) done \<longleftrightarrow> len \<le> done"
| "pwrite_events len (Transferred n # es) done \<longleftrightarrow>
     len \<le> done \<or> 0 < n \<and> n \<le> len - done \<and> pwrite_events len es (done + n)"

text \<open>The number of answers that are transfers: each makes progress.\<close>

definition n_transfers :: "io_event list \<Rightarrow> nat" where
  "n_transfers evs = length (filter (\<lambda>e. e \<noteq> EINTR) evs)"

section \<open>The remaining operations of StdFile\<close>

definition StdFile_read :: "filesys \<Rightarrow> std_file \<Rightarrow> nat \<Rightarrow> nat \<Rightarrow> bytes result" where
  "StdFile_read fs f off len =
     (if len = 0 then Inr []
      else case fd f of
        None \<Rightarrow> read_failed
      | Some i \<Rightarrow>
          (if off + len \<le> length (inodes fs i) then Inr (take len (drop off (inodes fs i)))
           else read_failed))"

definition StdFile_write :: "filesys \<Rightarrow> std_file \<Rightarrow> nat \<Rightarrow> bytes \<Rightarrow> filesys \<times> bool" where
  "StdFile_write fs f off data =
     (case fd f of
        None \<Rightarrow> (fs, False)
      | Some i \<Rightarrow> (fs\<lparr>inodes := (inodes fs)(i := pwrite_bytes (inodes fs i) off data)\<rparr>, True))"

definition StdFile_create :: "filesys \<Rightarrow> string \<Rightarrow> bytes \<Rightarrow> (filesys \<times> std_file \<times> bool) result" where
  "StdFile_create fs filename buf =
     (case StdFile_open fs filename True of
        (fs', f, ok) \<Rightarrow>
          (if \<not> ok then Inl (Runtime_error ''Failed to open file for writing'')
           else if buf \<noteq> [] then Inr (fst (StdFile_write fs' f 0 buf), f, True)
           else Inr (fs', f, True)))"

definition StdFile_sync :: "std_file \<Rightarrow> bool" where
  "StdFile_sync f \<longleftrightarrow> fd f \<noteq> None"

definition StdFile_close :: "std_file \<Rightarrow> std_file" where
  "StdFile_close f = (if fd f \<noteq> None then f\<lparr>fd := None\<rparr> else f)"

text \<open>\<^verbatim>\<open>std::remove\<close> unlinks the path; the inode stays with the descriptors that hold it.\<close>

definition StdFile_remove :: "filesys \<Rightarrow> std_file \<Rightarrow> filesys \<times> bool" where
  "StdFile_remove fs f =
     (case dir fs (file_path f) of
        None \<Rightarrow> (fs, False)
      | Some i \<Rightarrow> (fs\<lparr>dir := (dir fs)(file_path f := None)\<rparr>, True))"

definition StdFile_truncate :: "filesys \<Rightarrow> std_file \<Rightarrow> nat \<Rightarrow> filesys \<times> bool" where
  "StdFile_truncate fs f new_size =
     (case fd f of
        None \<Rightarrow> (fs, False)
      | Some i \<Rightarrow>
          (let c = inodes fs i in
           (fs\<lparr>inodes := (inodes fs)(i := take new_size c @ replicate (new_size - length c) 0)\<rparr>, True)))"

section \<open>FileObj\<close>

text \<open>
  \<^verbatim>\<open>FileObj\<close> owns one \<^verbatim>\<open>StdFile\<close>. Its bounds checks add in \<^verbatim>\<open>size_t\<close>, which wraps at
  \<open>2 ^ 64\<close>.
\<close>

definition beyond :: "filesys \<Rightarrow> std_file \<Rightarrow> nat \<Rightarrow> nat \<Rightarrow> bool" where
  "beyond fs f off n \<longleftrightarrow> StdFile_size fs f < (off + n) mod 2 ^ 64"

definition read_beyond :: "'a result" where
  "read_beyond = Inl (Out_of_range ''Read beyond file size'')"

definition FileObj_size :: "filesys \<Rightarrow> std_file \<Rightarrow> nat" where
  "FileObj_size fs f = StdFile_size fs f"

definition FileObj_del_file :: "filesys \<Rightarrow> std_file \<Rightarrow> filesys" where
  "FileObj_del_file fs f = fst (StdFile_remove fs f)"

definition FileObj_truncate :: "filesys \<Rightarrow> std_file \<Rightarrow> nat \<Rightarrow> (filesys \<times> bool) result" where
  "FileObj_truncate fs f off =
     (if StdFile_size fs f < off then Inl (Out_of_range ''Truncate offset beyond file size'')
      else Inr (StdFile_truncate fs f off))"

definition FileObj_create_and_write :: "filesys \<Rightarrow> string \<Rightarrow> bytes \<Rightarrow> (filesys \<times> std_file) result" where
  "FileObj_create_and_write fs path buf =
     bindE (StdFile_create fs path buf)
       (\<lambda>(fs', f, ok).
          if \<not> ok then Inl (Runtime_error (''Failed to create or write file: '' @ path))
          else Inr (fs', f))"

definition FileObj_open :: "filesys \<Rightarrow> string \<Rightarrow> bool \<Rightarrow> (filesys \<times> std_file) result" where
  "FileObj_open fs path create =
     (case StdFile_open fs path create of
        (fs', f, ok) \<Rightarrow>
          (if \<not> ok then Inl (Runtime_error (''Failed to open file: '' @ path))
           else Inr (fs', f)))"

definition FileObj_read_to_slice :: "filesys \<Rightarrow> std_file \<Rightarrow> nat \<Rightarrow> nat \<Rightarrow> bytes result" where
  "FileObj_read_to_slice fs f off len =
     (if beyond fs f off len then read_beyond else StdFile_read fs f off len)"

definition FileObj_read_uint8 :: "filesys \<Rightarrow> std_file \<Rightarrow> nat \<Rightarrow> byte result" where
  "FileObj_read_uint8 fs f off =
     (if beyond fs f off 1 then read_beyond
      else bindE (StdFile_read fs f off 1) (\<lambda>bs. read_u8 bs 0))"

definition FileObj_read_uint16 :: "filesys \<Rightarrow> std_file \<Rightarrow> nat \<Rightarrow> u16 result" where
  "FileObj_read_uint16 fs f off =
     (if beyond fs f off 2 then read_beyond
      else bindE (StdFile_read fs f off 2) (\<lambda>bs. read_u16 bs 0))"

definition FileObj_read_uint32 :: "filesys \<Rightarrow> std_file \<Rightarrow> nat \<Rightarrow> u32 result" where
  "FileObj_read_uint32 fs f off =
     (if beyond fs f off 4 then read_beyond
      else bindE (StdFile_read fs f off 4) (\<lambda>bs. read_u32 bs 0))"

definition FileObj_read_uint64 :: "filesys \<Rightarrow> std_file \<Rightarrow> nat \<Rightarrow> u64 result" where
  "FileObj_read_uint64 fs f off =
     (if beyond fs f off 8 then read_beyond
      else bindE (StdFile_read fs f off 8) (\<lambda>bs. read_u64 bs 0))"

definition FileObj_write :: "filesys \<Rightarrow> std_file \<Rightarrow> nat \<Rightarrow> bytes \<Rightarrow> filesys \<times> bool" where
  "FileObj_write fs f off buf = StdFile_write fs f off buf"

definition FileObj_append :: "filesys \<Rightarrow> std_file \<Rightarrow> bytes \<Rightarrow> filesys \<times> bool" where
  "FileObj_append fs f buf = StdFile_write fs f (StdFile_size fs f) buf"

definition FileObj_write_int :: "filesys \<Rightarrow> std_file \<Rightarrow> nat \<Rightarrow> u32 \<Rightarrow> filesys \<times> bool" where
  "FileObj_write_int fs f off v = StdFile_write fs f off (u32_bytes v)"

definition FileObj_write_uint8 :: "filesys \<Rightarrow> std_file \<Rightarrow> nat \<Rightarrow> byte \<Rightarrow> filesys \<times> bool" where
  "FileObj_write_uint8 fs f off v = StdFile_write fs f off (u8_bytes v)"

definition FileObj_write_uint16 :: "filesys \<Rightarrow> std_file \<Rightarrow> nat \<Rightarrow> u16 \<Rightarrow> filesys \<times> bool" where
  "FileObj_write_uint16 fs f off v = StdFile_write fs f off (u16_bytes v)"

definition FileObj_write_uint32 :: "filesys \<Rightarrow> std_file \<Rightarrow> nat \<Rightarrow> u32 \<Rightarrow> filesys \<times> bool" where
  "FileObj_write_uint32 fs f off v = StdFile_write fs f off (u32_bytes v)"

definition FileObj_write_uint64 :: "filesys \<Rightarrow> std_file \<Rightarrow> nat \<Rightarrow> u64 \<Rightarrow> filesys \<times> bool" where
  "FileObj_write_uint64 fs f off v = StdFile_write fs f off (u64_bytes v)"

definition FileObj_append_int :: "filesys \<Rightarrow> std_file \<Rightarrow> u32 \<Rightarrow> filesys \<times> bool" where
  "FileObj_append_int fs f v = StdFile_write fs f (StdFile_size fs f) (u32_bytes v)"

definition FileObj_append_uint8 :: "filesys \<Rightarrow> std_file \<Rightarrow> byte \<Rightarrow> filesys \<times> bool" where
  "FileObj_append_uint8 fs f v = StdFile_write fs f (StdFile_size fs f) (u8_bytes v)"

definition FileObj_append_uint16 :: "filesys \<Rightarrow> std_file \<Rightarrow> u16 \<Rightarrow> filesys \<times> bool" where
  "FileObj_append_uint16 fs f v = StdFile_write fs f (StdFile_size fs f) (u16_bytes v)"

definition FileObj_append_uint32 :: "filesys \<Rightarrow> std_file \<Rightarrow> u32 \<Rightarrow> filesys \<times> bool" where
  "FileObj_append_uint32 fs f v = StdFile_write fs f (StdFile_size fs f) (u32_bytes v)"

definition FileObj_append_uint64 :: "filesys \<Rightarrow> std_file \<Rightarrow> u64 \<Rightarrow> filesys \<times> bool" where
  "FileObj_append_uint64 fs f v = StdFile_write fs f (StdFile_size fs f) (u64_bytes v)"

definition FileObj_sync :: "std_file \<Rightarrow> bool" where
  "FileObj_sync f = StdFile_sync f"

definition FileObj_close :: "std_file \<Rightarrow> std_file" where
  "FileObj_close f = StdFile_close f"

section \<open>Cursor\<close>

record cursor =
  m_file_obj :: std_file
  m_offset :: nat

definition FileObj_get_cursor :: "std_file \<Rightarrow> cursor" where
  "FileObj_get_cursor f = \<lparr>m_file_obj = f, m_offset = 0\<rparr>"

text \<open>
  A read that throws leaves the offset where it was; a write moves it only when it succeeded.
\<close>

definition Cursor_read :: "filesys \<Rightarrow> cursor \<Rightarrow> nat \<Rightarrow> (bytes \<times> cursor) result" where
  "Cursor_read fs c len =
     bindE (FileObj_read_to_slice fs (m_file_obj c) (m_offset c) len)
       (\<lambda>d. Inr (d, c\<lparr>m_offset := m_offset c + len\<rparr>))"

definition Cursor_read_uint8 :: "filesys \<Rightarrow> cursor \<Rightarrow> (byte \<times> cursor) result" where
  "Cursor_read_uint8 fs c =
     bindE (FileObj_read_uint8 fs (m_file_obj c) (m_offset c))
       (\<lambda>v. Inr (v, c\<lparr>m_offset := m_offset c + 1\<rparr>))"

definition Cursor_read_uint16 :: "filesys \<Rightarrow> cursor \<Rightarrow> (u16 \<times> cursor) result" where
  "Cursor_read_uint16 fs c =
     bindE (FileObj_read_uint16 fs (m_file_obj c) (m_offset c))
       (\<lambda>v. Inr (v, c\<lparr>m_offset := m_offset c + 2\<rparr>))"

definition Cursor_read_uint32 :: "filesys \<Rightarrow> cursor \<Rightarrow> (u32 \<times> cursor) result" where
  "Cursor_read_uint32 fs c =
     bindE (FileObj_read_uint32 fs (m_file_obj c) (m_offset c))
       (\<lambda>v. Inr (v, c\<lparr>m_offset := m_offset c + 4\<rparr>))"

definition Cursor_read_uint64 :: "filesys \<Rightarrow> cursor \<Rightarrow> (u64 \<times> cursor) result" where
  "Cursor_read_uint64 fs c =
     bindE (FileObj_read_uint64 fs (m_file_obj c) (m_offset c))
       (\<lambda>v. Inr (v, c\<lparr>m_offset := m_offset c + 8\<rparr>))"

definition Cursor_advance :: "filesys \<times> bool \<Rightarrow> cursor \<Rightarrow> nat \<Rightarrow> filesys \<times> cursor \<times> bool" where
  "Cursor_advance r c n =
     (case r of (fs, ok) \<Rightarrow> (fs, if ok then c\<lparr>m_offset := m_offset c + n\<rparr> else c, ok))"

definition Cursor_write :: "filesys \<Rightarrow> cursor \<Rightarrow> bytes \<Rightarrow> filesys \<times> cursor \<times> bool" where
  "Cursor_write fs c buf =
     Cursor_advance (FileObj_write fs (m_file_obj c) (m_offset c) buf) c (length buf)"

definition Cursor_write_uint8 :: "filesys \<Rightarrow> cursor \<Rightarrow> byte \<Rightarrow> filesys \<times> cursor \<times> bool" where
  "Cursor_write_uint8 fs c v =
     Cursor_advance (FileObj_write_uint8 fs (m_file_obj c) (m_offset c) v) c 1"

definition Cursor_write_uint16 :: "filesys \<Rightarrow> cursor \<Rightarrow> u16 \<Rightarrow> filesys \<times> cursor \<times> bool" where
  "Cursor_write_uint16 fs c v =
     Cursor_advance (FileObj_write_uint16 fs (m_file_obj c) (m_offset c) v) c 2"

definition Cursor_write_uint32 :: "filesys \<Rightarrow> cursor \<Rightarrow> u32 \<Rightarrow> filesys \<times> cursor \<times> bool" where
  "Cursor_write_uint32 fs c v =
     Cursor_advance (FileObj_write_uint32 fs (m_file_obj c) (m_offset c) v) c 4"

definition Cursor_write_uint64 :: "filesys \<Rightarrow> cursor \<Rightarrow> u64 \<Rightarrow> filesys \<times> cursor \<times> bool" where
  "Cursor_write_uint64 fs c v =
     Cursor_advance (FileObj_write_uint64 fs (m_file_obj c) (m_offset c) v) c 8"

definition Cursor_set_offset :: "cursor \<Rightarrow> nat \<Rightarrow> cursor" where
  "Cursor_set_offset c off = c\<lparr>m_offset := off\<rparr>"


section \<open>The loops transfer everything\<close>

lemma read_loop_step:
  "length buf < len \<Longrightarrow> StdFile_read_loop file off len (EINTR # es) buf =
     StdFile_read_loop file off len es buf"
  "length buf < len \<Longrightarrow> StdFile_read_loop file off len (Transferred 0 # es) buf = Some read_failed"
  "length buf < len \<Longrightarrow> 0 < n \<Longrightarrow> StdFile_read_loop file off len (Transferred n # es) buf =
     StdFile_read_loop file off len es (buf @ take n (drop (off + length buf) file))"
  "\<not> length buf < len \<Longrightarrow> StdFile_read_loop file off len es buf = Some (Inr buf)"
  by (subst StdFile_read_loop.simps, simp)+

lemma take_drop_extend:
  "take k (drop off xs) @ take n (drop (off + k) xs) = take (k + n) (drop off xs)"
  by (simp add: take_add add.commute)

lemma StdFile_read_loop_run:
  assumes "pread_events file off len evs (length buf)"
    and "buf = take (length buf) (drop off file)" and "length buf \<le> len"
    and "len - length buf < n_transfers evs \<or> len \<le> length buf"
  shows "StdFile_read_loop file off len evs buf =
     Some (if off + len \<le> length file \<or> length buf = len
           then Inr (take len (drop off file)) else read_failed)"
  using assms
proof (induction evs arbitrary: buf)
  case Nil
  then show ?case by (simp add: read_loop_step n_transfers_def)
next
  case (Cons e es)
  show ?case
  proof (cases "length buf < len")
    case False
    with Cons.prems show ?thesis by (simp add: read_loop_step)
  next
    case True
    show ?thesis
    proof (cases e)
      case EINTR
      with True Cons.prems Cons.IH [of buf] show ?thesis
        by (simp add: read_loop_step n_transfers_def)
    next
      case IO_failure
      with True Cons.prems show ?thesis by simp
    next
      case (Transferred n)
      show ?thesis
      proof (cases "n = 0")
        case True
        with Transferred Cons.prems \<open>length buf < len\<close> show ?thesis
          by (auto simp: read_loop_step)
      next
        case False
        let ?b = "buf @ take n (drop (off + length buf) file)"
        have n: "n \<le> len - length buf" "n \<le> length file - (off + length buf)"
          using Cons.prems(1) Transferred True by simp_all
        then have len: "length ?b = length buf + n"
          by simp
        have pre: "?b = take (length ?b) (drop off file)"
          using Cons.prems(2) by (subst len) (metis take_drop_extend)
        have "StdFile_read_loop file off len es ?b =
           Some (if off + len \<le> length file \<or> length ?b = len
                 then Inr (take len (drop off file)) else read_failed)"
        proof (rule Cons.IH [OF _ pre])
          show "pread_events file off len es (length ?b)"
            using Cons.prems(1) Transferred True len by simp
          show "length ?b \<le> len"
            using n True len by simp
          show "len - length ?b < n_transfers es \<or> len \<le> length ?b"
            using Cons.prems(4) Transferred len True False n
            by (auto simp: n_transfers_def)
        qed
        moreover have "length ?b = len \<Longrightarrow> off + len \<le> length file"
          using n len False by simp
        ultimately show ?thesis
          using True False Transferred by (auto simp: read_loop_step)
      qed
    qed
  qed
qed


lemma write_loop_step:
  "k < length data \<Longrightarrow> StdFile_write_loop file off data (EINTR # es) k =
     StdFile_write_loop file off data es k"
  "k < length data \<Longrightarrow> 0 < n \<Longrightarrow> StdFile_write_loop file off data (Transferred n # es) k =
     StdFile_write_loop (pwrite_bytes file (off + k) (take n (drop k data))) off data es (k + n)"
  "\<not> k < length data \<Longrightarrow> StdFile_write_loop file off data es k = Some (file, True)"
  by (subst StdFile_write_loop.simps, simp)+

lemma length_pwrite_bytes:
  "length (pwrite_bytes file off data) =
     (if data = [] then length file else max (length file) (off + length data))"
  by (auto simp: pwrite_bytes_def)

text \<open>Two adjacent writes are one.\<close>

lemma pwrite_bytes_append:
  "pwrite_bytes (pwrite_bytes file off xs) (off + length xs) ys = pwrite_bytes file off (xs @ ys)"
proof (cases "xs = [] \<or> ys = []")
  case True
  then show ?thesis by (auto simp: pwrite_bytes_def)
next
  case False
  then show ?thesis
    by (auto simp: pwrite_bytes_def min_def ac_simps)
qed

lemma StdFile_write_loop_run:
  assumes "pwrite_events (length data) evs k" and "k \<le> length data"
    and "length data - k \<le> n_transfers evs"
  shows "StdFile_write_loop (pwrite_bytes file off (take k data)) off data evs k =
     Some (pwrite_bytes file off data, True)"
  using assms
proof (induction evs arbitrary: k)
  case Nil
  then show ?case by (simp add: write_loop_step n_transfers_def)
next
  case (Cons e es)
  show ?case
  proof (cases "k < length data")
    case False
    with Cons.prems show ?thesis by (simp add: write_loop_step)
  next
    case True
    show ?thesis
    proof (cases e)
      case EINTR
      with True Cons.prems Cons.IH [of k] show ?thesis
        by (simp add: write_loop_step n_transfers_def)
    next
      case IO_failure
      with True Cons.prems show ?thesis by simp
    next
      case (Transferred n)
      have n: "0 < n" "n \<le> length data - k"
        using Cons.prems(1) Transferred True by simp_all
      have "pwrite_bytes (pwrite_bytes file off (take k data)) (off + k) (take n (drop k data)) =
          pwrite_bytes file off (take (k + n) data)"
        using pwrite_bytes_append [of "file" off "take k data" "take n (drop k data)"] True
        by (simp add: take_add min_def)
      moreover have "StdFile_write_loop (pwrite_bytes file off (take (k + n) data)) off data es (k + n) =
          Some (pwrite_bytes file off data, True)"
        using Cons.prems Transferred n True
        by (intro Cons.IH) (auto simp: n_transfers_def)
      ultimately show ?thesis
        using True n(1) Transferred by (simp add: write_loop_step)
    qed
  qed
qed

text \<open>
  C37: whatever legal answers the kernel gives (short transfers, interruptions), the read loop of
  \<^verbatim>\<open>StdFile::read\<close> ends once there are more than \<open>len\<close> of them that are not interruptions, and
  returns exactly what the one-step operation returns: the requested bytes if the file
  holds them, the exception otherwise.
\<close>

theorem StdFile_read_loop_ok:
  assumes "fd f = Some i" and "pread_events (inodes fs i) off len evs 0" and "len < n_transfers evs"
  shows "StdFile_read_loop (inodes fs i) off len evs [] = Some (StdFile_read fs f off len)"
  using StdFile_read_loop_run [of "inodes fs i" off len evs "[]"] assms
  by (auto simp: StdFile_read_def)

text \<open>
  C38: the write loop of \<^verbatim>\<open>StdFile::write\<close>, driven by any legal answers, ends after at most
  one transfer per byte, succeeds, and leaves the file as one undivided write would.
\<close>

theorem StdFile_write_loop_ok:
  assumes "fd f = Some i" and "pwrite_events (length data) evs 0"
    and "length data \<le> n_transfers evs"
  shows "StdFile_write_loop (inodes fs i) off data evs 0 =
    Some (inodes (fst (StdFile_write fs f off data)) i, snd (StdFile_write fs f off data))"
  using StdFile_write_loop_run [of data evs 0 "inodes fs i" off] assms
  by (simp add: StdFile_write_def pwrite_bytes_def)

theorem StdFile_read_loop_ok_witness:
  "StdFile_read_loop [10, 11, 12, 13] 1 2 [EINTR, Transferred 1, EINTR, Transferred 1, EINTR, Transferred 5] [] =
     Some (Inr [11, 12])"
proof -
  define fs where "fs = \<lparr>dir = (\<lambda>_. None), inodes = (\<lambda>_. [10, 11, 12, 13 :: byte]), next_ino = 1\<rparr>"
  define f where "f = \<lparr>fd = Some 0, file_path = ''vlog.data''\<rparr>"
  have "StdFile_read_loop (inodes fs 0) 1 2
      [EINTR, Transferred 1, EINTR, Transferred 1, EINTR, Transferred 5] [] = Some (StdFile_read fs f 1 2)"
    by (rule StdFile_read_loop_ok) (simp_all add: f_def fs_def n_transfers_def)
  then show ?thesis
    by (simp add: fs_def f_def StdFile_read_def)
qed

theorem StdFile_write_loop_ok_witness:
  "StdFile_write_loop [1, 2] 1 [7, 8] [Transferred 1, EINTR, Transferred 1] 0 = Some ([1, 7, 8], True)"
proof -
  define fs where "fs = \<lparr>dir = (\<lambda>_. None), inodes = (\<lambda>_. [1, 2 :: byte]), next_ino = 1\<rparr>"
  define f where "f = \<lparr>fd = Some 0, file_path = ''vlog.data''\<rparr>"
  have "StdFile_write_loop (inodes fs 0) 1 [7, 8] [Transferred 1, EINTR, Transferred 1] 0 =
    Some (inodes (fst (StdFile_write fs f 1 [7, 8])) 0, snd (StdFile_write fs f 1 [7, 8]))"
    by (rule StdFile_write_loop_ok) (simp_all add: f_def n_transfers_def)
  then show ?thesis
    by (simp add: fs_def f_def StdFile_write_def pwrite_bytes_def)
qed

section \<open>Append-only files\<close>

text \<open>
  What the value log and the write-ahead log rely on: appending puts the new bytes after the
  bytes that were there, and a read inside the file returns the bytes it holds.
\<close>

locale append_log =
  fixes wf :: "'s \<Rightarrow> bool"
    and content :: "'s \<Rightarrow> bytes"
    and size_of :: "'s \<Rightarrow> nat"
    and read :: "'s \<Rightarrow> nat \<Rightarrow> nat \<Rightarrow> bytes result"
    and append :: "'s \<Rightarrow> bytes \<Rightarrow> 's"
  assumes wf_append: "wf s \<Longrightarrow> wf (append s bs)"
    and content_append: "wf s \<Longrightarrow> content (append s bs) = content s @ bs"
    and size_content: "wf s \<Longrightarrow> size_of s = length (content s)"
    and read_content: "wf s \<Longrightarrow> off + n \<le> length (content s) \<Longrightarrow> off + n < 2 ^ 64 \<Longrightarrow>
      read s off n = Inr (take n (drop off (content s)))"
begin

lemma wf_appends: "wf s \<Longrightarrow> wf (foldl append s bss)"
  by (induction bss arbitrary: s) (simp_all add: wf_append)

lemma content_appends: "wf s \<Longrightarrow> content (foldl append s bss) = content s @ concat bss"
  by (induction bss arbitrary: s) (simp_all add: wf_append content_append)

text \<open>A record stays readable at the offset its append returned, whatever is appended later.\<close>

lemma read_record:
  assumes "wf s" and "k + n \<le> length bs" and "size_of s + k + n < 2 ^ 64"
  shows "read (foldl append (append s bs) bss) (size_of s + k) n = Inr (take n (drop k bs))"
  using assms
  by (simp add: read_content wf_appends wf_append content_appends content_append size_content)

lemma read_whole:
  assumes "wf s" and "content s = []" and "length (concat bss) < 2 ^ 64"
  shows "read (foldl append s bss) 0 (size_of (foldl append s bss)) = Inr (concat bss)"
  using assms by (simp add: read_content wf_appends content_appends size_content)

end

text \<open>\<^verbatim>\<open>FileObj\<close> provides it, as long as the file is open and no other handle is used.\<close>

definition file_content :: "filesys \<times> std_file \<Rightarrow> bytes" where
  "file_content s = (case fd (snd s) of None \<Rightarrow> [] | Some i \<Rightarrow> inodes (fst s) i)"

definition append_file :: "filesys \<times> std_file \<Rightarrow> bytes \<Rightarrow> filesys \<times> std_file" where
  "append_file s bs = (fst (FileObj_append (fst s) (snd s) bs), snd s)"

lemma pwrite_at_end: "pwrite_bytes c (length c) bs = c @ bs"
  by (simp add: pwrite_bytes_def)

lemma read_to_slice_content:
  assumes "StdFile_is_open f" and "off + n \<le> length (file_content (fs, f))" and "off + n < 2 ^ 64"
  shows "FileObj_read_to_slice fs f off n = Inr (take n (drop off (file_content (fs, f))))"
  using assms
  by (auto simp: FileObj_read_to_slice_def beyond_def StdFile_size_def StdFile_read_def
      file_content_def StdFile_is_open_def)

lemma FileObj_size_content: "FileObj_size fs f = length (file_content (fs, f))"
  by (simp add: FileObj_size_def StdFile_size_def file_content_def split: option.split)

interpretation fo: append_log
  "\<lambda>s. StdFile_is_open (snd s)" file_content "\<lambda>s. FileObj_size (fst s) (snd s)"
  "\<lambda>s. FileObj_read_to_slice (fst s) (snd s)" append_file
  by unfold_locales
    (auto simp: append_file_def FileObj_append_def StdFile_write_def StdFile_size_def
      StdFile_is_open_def file_content_def pwrite_at_end FileObj_size_content
      read_to_slice_content [unfolded StdFile_is_open_def file_content_def])

lemma FileObj_append_Some:
  assumes "fd f = Some i"
  shows "FileObj_append fs f bs = (fs\<lparr>inodes := (inodes fs)(i := inodes fs i @ bs)\<rparr>, True)"
  using assms by (simp add: FileObj_append_def StdFile_write_def StdFile_size_def pwrite_at_end)

text \<open>
  A record appended earlier is not disturbed: after any list of later appends to an open
  file, \<^verbatim>\<open>FileObj::read_to_slice\<close> still returns every part of the bytes appended first, at
  the offset where the file ended before them.
\<close>

theorem append_then_read_back:
  assumes "StdFile_is_open f" and "k + n \<le> length bs" and "FileObj_size fs f + k + n < 2 ^ 64"
  shows "(let s = foldl append_file (append_file (fs, f) bs) later in
     FileObj_read_to_slice (fst s) (snd s) (FileObj_size fs f + k) n) = Inr (take n (drop k bs))"
  using fo.read_record [of "(fs, f)" k n bs later] assms by (simp add: Let_def)

theorem append_then_read_back_witness:
  "let f = \<lparr>fd = Some 0, file_path = ''vlog.data''\<rparr>;
       s = foldl append_file (append_file (empty_fs, f) [1, 2, 3]) [[4], [5, 6]]
   in FileObj_read_to_slice (fst s) (snd s) 1 2 = Inr [2, 3]"
proof -
  define f where "f = \<lparr>fd = Some (0::nat), file_path = ''vlog.data''\<rparr>"
  show ?thesis
    using append_then_read_back [of f 1 2 "[1, 2, 3]" empty_fs "[[4], [5, 6]]"]
    by (simp add: f_def Let_def StdFile_is_open_def FileObj_size_def StdFile_size_def empty_fs_def)
qed

end
