(* ===== verification/Block.thy ===== *)
theory Block
  imports Prelude
begin

text \<open>
  Data blocks: \<^verbatim>\<open>Block\<close> of \<^verbatim>\<open>src/block/block.cpp\<close>. A block is a byte vector holding the
  entries one after the other and the vector of their 16-bit offsets. The model keeps the
  byte layout: an entry is appended by \<^verbatim>\<open>memcpy\<close> into the resized vector and read back
  through its offset; lengths and offsets are truncated to 16 bits where the code stores
  them in a \<^verbatim>\<open>uint16_t\<close>.

  \<open>block_repr b es\<close> relates a block to the list of its entries. The lemmas show that
  \<^verbatim>\<open>add_entry\<close> extends that list, that \<^verbatim>\<open>decode\<close> inverts \<^verbatim>\<open>encode\<close> and rejects a wrong
  checksum, and that the binary search with the adjustment by transaction id finds, in a sorted
  block, the newest version of a key that the reader may see.
\<close>

section \<open>Blocks\<close>

record entry =
  ekey :: string
  evalue :: string
  etranc :: u64

record block =
  data :: bytes
  offsets :: "u16 list"
  capacity :: nat

text \<open>\<^verbatim>\<open>std::hash\<close> is a parameter; the code keeps its low 32 bits as a checksum.\<close>

definition hash32 :: "(string \<Rightarrow> u64) \<Rightarrow> bytes \<Rightarrow> u32" where
  "hash32 h bs = ucast (h (bytes_str bs))"

definition new_block :: "nat \<Rightarrow> block" where
  "new_block cap = \<lparr>data = [], offsets = [], capacity = cap\<rparr>"

definition Block_encode :: "(string \<Rightarrow> u64) \<Rightarrow> bool \<Rightarrow> block \<Rightarrow> bytes" where
  "Block_encode h with_hash b =
     (let encoded = data b @ concat (map u16_bytes (offsets b)) @
                    u16_bytes (of_nat (length (offsets b)))
      in if with_hash then encoded @ u32_bytes (hash32 h encoded) else encoded)"

fun u16s_of :: "bytes \<Rightarrow> u16 list" where
  "u16s_of (a # b # bs) = bytes_u16 [a, b] # u16s_of bs"
| "u16s_of _ = []"

definition Block_decode :: "(string \<Rightarrow> u64) \<Rightarrow> bytes \<Rightarrow> bool \<Rightarrow> block result" where
  "Block_decode h encoded with_hash =
     (if with_hash \<and> length encoded \<le> 2 + 4 then Inl (Runtime_error ''Encoded data too small'')
      else
        let num_elements_pos = length encoded - 2 - (if with_hash then 4 else 0);
            check =
              (if with_hash then
                 bindE (read_u32 encoded (length encoded - 4)) (\<lambda>hash_value.
                   if hash_value \<noteq> hash32 h (take (length encoded - 4) encoded)
                   then Inl (Runtime_error ''Block hash verification failed'') else Inr ())
               else Inr ())
        in bindE check (\<lambda>_.
             bindE (read_u16 encoded num_elements_pos) (\<lambda>num_elements.
               let n = unat num_elements in
               if length encoded < 2 + n * 2 then Inl (Runtime_error ''Invalid encoded data size'')
               else if num_elements_pos < n * 2 then Inl Undefined_behaviour
               else let offsets_section_start = num_elements_pos - n * 2 in
                 bindE (memread encoded offsets_section_start (n * 2)) (\<lambda>offs.
                   Inr \<lparr>data = take offsets_section_start encoded, offsets = u16s_of offs,
                        capacity = 0\<rparr>))))"

definition Block_get_first_key :: "block \<Rightarrow> string result" where
  "Block_get_first_key b =
     (if data b = [] \<or> offsets b = [] then Inr ''''
      else bindE (read_u16 (data b) 0) (\<lambda>key_len. read_str (data b) 2 (unat key_len)))"

text \<open>\<^verbatim>\<open>offsets[idx]\<close> without a bounds check.\<close>

definition offset_at :: "block \<Rightarrow> nat \<Rightarrow> nat result" where
  "offset_at b idx =
     (if idx < length (offsets b) then Inr (unat (offsets b ! idx)) else Inl Undefined_behaviour)"

definition Block_get_offset_at :: "block \<Rightarrow> nat \<Rightarrow> nat result" where
  "Block_get_offset_at b idx =
     (if length (offsets b) < idx then Inl (Runtime_error ''idx out of offsets range'')
      else offset_at b idx)"

definition Block_cur_size :: "block \<Rightarrow> nat" where
  "Block_cur_size b = length (data b) + length (offsets b) * 2 + 2"

definition Block_size :: "block \<Rightarrow> nat" where
  "Block_size b = length (offsets b)"

definition Block_is_empty :: "block \<Rightarrow> bool" where
  "Block_is_empty b \<longleftrightarrow> offsets b = []"

definition Block_add_entry ::
  "string \<Rightarrow> string \<Rightarrow> u64 \<Rightarrow> bool \<Rightarrow> block \<Rightarrow> (block \<times> bool) result" where
  "Block_add_entry key val tranc_id force_write b =
     (if \<not> force_write \<and>
         capacity b < Block_cur_size b + length key + length val + 3 * 2 + 8 \<and>
         offsets b \<noteq> []
      then Inr (b, False)
      else
        let entry_size = 2 + length key + 2 + length val + 8;
            old_size = length (data b);
            buf = data b @ replicate entry_size 0;
            key_len = of_nat (length key) :: u16;
            value_len = of_nat (length val) :: u16;
            kl = unat key_len; vl = unat value_len
        in bindE (memwrite buf old_size (u16_bytes key_len)) (\<lambda>buf.
           bindE (memwrite buf (old_size + 2) (str_bytes (take kl key))) (\<lambda>buf.
           bindE (memwrite buf (old_size + 2 + kl) (u16_bytes value_len)) (\<lambda>buf.
           bindE (memwrite buf (old_size + 2 + kl + 2) (str_bytes (take vl val))) (\<lambda>buf.
           bindE (memwrite buf (old_size + 2 + kl + 2 + vl) (u64_bytes tranc_id)) (\<lambda>buf.
             Inr (b\<lparr>data := buf, offsets := offsets b @ [of_nat old_size]\<rparr>, True)))))))"

definition Block_get_key_at :: "block \<Rightarrow> nat \<Rightarrow> string result" where
  "Block_get_key_at b off =
     bindE (read_u16 (data b) off) (\<lambda>key_len. read_str (data b) (off + 2) (unat key_len))"

definition Block_get_value_at :: "block \<Rightarrow> nat \<Rightarrow> string result" where
  "Block_get_value_at b off =
     bindE (read_u16 (data b) off) (\<lambda>key_len.
       let value_len_pos = off + 2 + unat key_len in
       bindE (read_u16 (data b) value_len_pos) (\<lambda>value_len.
         read_str (data b) (value_len_pos + 2) (unat value_len)))"

definition Block_get_tranc_id_at :: "block \<Rightarrow> nat \<Rightarrow> u64 result" where
  "Block_get_tranc_id_at b off =
     bindE (read_u16 (data b) off) (\<lambda>key_len.
       let value_len_pos = off + 2 + unat key_len in
       bindE (read_u16 (data b) value_len_pos) (\<lambda>value_len.
         read_u64 (data b) (value_len_pos + 2 + unat value_len)))"

definition Block_get_entry_at :: "block \<Rightarrow> nat \<Rightarrow> entry result" where
  "Block_get_entry_at b off =
     bindE (Block_get_key_at b off) (\<lambda>k.
     bindE (Block_get_value_at b off) (\<lambda>v.
     bindE (Block_get_tranc_id_at b off) (\<lambda>t. Inr \<lparr>ekey = k, evalue = v, etranc = t\<rparr>)))"

definition Block_compare_key_at :: "block \<Rightarrow> nat \<Rightarrow> string \<Rightarrow> int result" where
  "Block_compare_key_at b off target =
     bindE (Block_get_key_at b off) (\<lambda>key. Inr (str_compare key target))"

section \<open>Search by key\<close>

definition Block_is_same_key :: "block \<Rightarrow> nat \<Rightarrow> string \<Rightarrow> bool result" where
  "Block_is_same_key b idx target_key =
     (if length (offsets b) \<le> idx then Inr False
      else bindE (offset_at b idx) (\<lambda>off.
           bindE (Block_get_key_at b off) (\<lambda>k. Inr (k = target_key))))"

definition Block_tranc_id_of :: "block \<Rightarrow> nat \<Rightarrow> u64 result" where
  "Block_tranc_id_of b idx = bindE (offset_at b idx) (Block_get_tranc_id_at b)"

text \<open>The loop that walks towards newer versions of the key, and the one towards older ones.\<close>

fun adjust_back :: "block \<Rightarrow> string \<Rightarrow> u64 \<Rightarrow> nat \<Rightarrow> int result" where
  "adjust_back b target_key tranc_id 0 = Inr 0"
| "adjust_back b target_key tranc_id (Suc p) =
     bindE (Block_is_same_key b p target_key) (\<lambda>same.
       if same then
         bindE (Block_tranc_id_of b p) (\<lambda>new_tranc_id.
           if tranc_id < new_tranc_id then Inr (int p + 1)
           else adjust_back b target_key tranc_id p)
       else Inr (int (Suc p)))"

fun adjust_back_all :: "block \<Rightarrow> string \<Rightarrow> nat \<Rightarrow> int result" where
  "adjust_back_all b target_key 0 = Inr 0"
| "adjust_back_all b target_key (Suc p) =
     bindE (Block_is_same_key b p target_key) (\<lambda>same.
       if same then adjust_back_all b target_key p else Inr (int (Suc p)))"

function adjust_forward :: "block \<Rightarrow> string \<Rightarrow> u64 \<Rightarrow> nat \<Rightarrow> int result" where
  "adjust_forward b target_key tranc_id next =
     (if next < length (offsets b) then
        bindE (Block_is_same_key b next target_key) (\<lambda>same.
          if same then
            bindE (Block_tranc_id_of b next) (\<lambda>new_tranc_id.
              if new_tranc_id \<le> tranc_id then Inr (int next)
              else adjust_forward b target_key tranc_id (Suc next))
          else Inr (-1))
      else Inr (-1))"
  by pat_completeness auto
termination
  by (relation "measure (\<lambda>(b, k, t, i). length (offsets b) - i)") auto

definition Block_adjust_idx_by_tranc_id :: "block \<Rightarrow> nat \<Rightarrow> u64 \<Rightarrow> int result" where
  "Block_adjust_idx_by_tranc_id b idx tranc_id =
     (if length (offsets b) \<le> idx then Inr (-1)
      else
        bindE (offset_at b idx) (\<lambda>off.
        bindE (Block_get_key_at b off) (\<lambda>target_key.
          if tranc_id \<noteq> 0 then
            bindE (Block_get_tranc_id_at b off) (\<lambda>cur_tranc_id.
              if cur_tranc_id \<le> tranc_id then adjust_back b target_key tranc_id idx
              else adjust_forward b target_key tranc_id (idx + 1))
          else adjust_back_all b target_key idx)))"

function Block_search ::
  "block \<Rightarrow> string \<Rightarrow> u64 \<Rightarrow> int \<Rightarrow> int \<Rightarrow> nat option result" where
  "Block_search b key tranc_id left right =
     (if left \<le> right then
        let mid = left + (right - left) div 2 in
        bindE (offset_at b (nat mid)) (\<lambda>mid_offset.
        bindE (Block_compare_key_at b mid_offset key) (\<lambda>cmp.
          if cmp = 0 then
            bindE (Block_adjust_idx_by_tranc_id b (nat mid) tranc_id) (\<lambda>new_mid.
              if new_mid = -1 then Inr None else Inr (Some (nat new_mid)))
          else if cmp < 0 then Block_search b key tranc_id (mid + 1) right
          else Block_search b key tranc_id left (mid - 1)))
      else Inr None)"
  by pat_completeness auto
termination
  by (relation "measure (\<lambda>(b, k, t, l, r). nat (r - l + 1))") auto

definition Block_get_idx_binary :: "block \<Rightarrow> string \<Rightarrow> u64 \<Rightarrow> nat option result" where
  "Block_get_idx_binary b key tranc_id =
     (if offsets b = [] then Inr None
      else Block_search b key tranc_id 0 (int (length (offsets b)) - 1))"

definition Block_get_value_binary :: "block \<Rightarrow> string \<Rightarrow> u64 \<Rightarrow> string option result" where
  "Block_get_value_binary b key tranc_id =
     bindE (Block_get_idx_binary b key tranc_id) (\<lambda>idx.
       case idx of
         None \<Rightarrow> Inr None
       | Some i \<Rightarrow> bindE (offset_at b i) (\<lambda>off.
                   bindE (Block_get_value_at b off) (\<lambda>v. Inr (Some v))))"

section \<open>Search by a monotone predicate\<close>

text \<open>
  Both loops of \<^verbatim>\<open>get_monotony_predicate_iters\<close> have this shape; they differ in the directions
  that make them go left: \<open>direction \<le> 0\<close> in the first, \<open>direction < 0\<close> in the second.
\<close>

function Block_bound_search ::
  "block \<Rightarrow> (string \<Rightarrow> int) \<Rightarrow> (int \<Rightarrow> bool) \<Rightarrow> int \<Rightarrow> int \<Rightarrow> int result" where
  "Block_bound_search b predicate go_left left right =
     (if left \<le> right then
        let mid = left + (right - left) div 2 in
        bindE (offset_at b (nat mid)) (\<lambda>mid_offset.
        bindE (Block_get_key_at b mid_offset) (\<lambda>mid_key.
          if go_left (predicate mid_key)
          then Block_bound_search b predicate go_left left (mid - 1)
          else Block_bound_search b predicate go_left (mid + 1) right))
      else Inr left)"
  by pat_completeness auto
termination
  by (relation "measure (\<lambda>(b, p, g, l, r). nat (r - l + 1))") auto

text \<open>
  The range the two searches delimit: the positions the code hands to the two iterators it
  builds (\<open>None\<close> where it returns \<^verbatim>\<open>nullopt\<close>).
\<close>

definition Block_predicate_range :: "block \<Rightarrow> (string \<Rightarrow> int) \<Rightarrow> (nat \<times> nat) option result" where
  "Block_predicate_range b predicate =
     (if offsets b = [] then Inr None
      else
        let top = int (length (offsets b)) - 1 in
        bindE (Block_bound_search b predicate (\<lambda>d. d \<le> 0) 0 top) (\<lambda>first.
          if int (length (offsets b)) \<le> first then Inr None
          else
            bindE (offset_at b (nat first)) (\<lambda>off.
            bindE (Block_get_key_at b off) (\<lambda>k.
              if predicate k \<noteq> 0 then Inr None
              else
                bindE (Block_bound_search b predicate (\<lambda>d. d < 0) first top) (\<lambda>left.
                  let last = left - 1 in Inr (Some (nat first, nat (last + 1))))))))"

definition prefix_direction :: "string \<Rightarrow> string \<Rightarrow> int" where
  "prefix_direction preffix key = - str_compare (take (length preffix) key) preffix"

declare adjust_forward.simps [simp del] Block_search.simps [simp del]
  Block_bound_search.simps [simp del]


section \<open>Entries in a buffer\<close>

definition small_entry :: "entry \<Rightarrow> bool" where
  "small_entry e \<longleftrightarrow> length (ekey e) < 2 ^ 16 \<and> length (evalue e) < 2 ^ 16"

definition entry_bytes :: "entry \<Rightarrow> bytes" where
  "entry_bytes e =
     u16_bytes (of_nat (length (ekey e))) @ str_bytes (ekey e) @
     u16_bytes (of_nat (length (evalue e))) @ str_bytes (evalue e) @ u64_bytes (etranc e)"

definition entries_bytes :: "entry list \<Rightarrow> bytes" where
  "entries_bytes es = concat (map entry_bytes es)"

definition entry_off :: "entry list \<Rightarrow> nat \<Rightarrow> nat" where
  "entry_off es i = length (entries_bytes (take i es))"

lemma length_entry_bytes [simp]:
  "length (entry_bytes e) = 12 + length (ekey e) + length (evalue e)"
  by (simp add: entry_bytes_def)

lemma entries_bytes_simps [simp]:
  "entries_bytes [] = []"
  "entries_bytes (e # es) = entry_bytes e @ entries_bytes es"
  "entries_bytes (es @ fs) = entries_bytes es @ entries_bytes fs"
  by (simp_all add: entries_bytes_def)

lemma unat_u16_of_nat [simp]: "n < 65536 \<Longrightarrow> unat (of_nat n :: u16) = n"
  by (simp add: unat_of_nat)

lemma read_entry:
  assumes "data b = pre @ entry_bytes e @ post" and "small_entry e" and "off = length pre"
  shows "Block_get_key_at b off = Inr (ekey e)"
    and "Block_get_value_at b off = Inr (evalue e)"
    and "Block_get_tranc_id_at b off = Inr (etranc e)"
proof -
  let ?k = "u16_bytes (of_nat (length (ekey e)))" and ?v = "u16_bytes (of_nat (length (evalue e)))"
  let ?ks = "str_bytes (ekey e)" and ?vs = "str_bytes (evalue e)" and ?t = "u64_bytes (etranc e)"
  have kl: "read_u16 (data b) off = Inr (of_nat (length (ekey e)))"
    using assms by (simp add: entry_bytes_def codec_simps)
  have key: "read_str (data b) (off + 2) (length (ekey e)) = Inr (ekey e)"
    using read_str_middle [of "off + 2" "pre @ ?k" _ "ekey e" "?v @ ?vs @ ?t @ post"] assms
    by (simp add: entry_bytes_def)
  have vl: "read_u16 (data b) (off + 2 + length (ekey e)) = Inr (of_nat (length (evalue e)))"
    using read_u16_middle [of "off + 2 + length (ekey e)" "pre @ ?k @ ?ks" _ "?vs @ ?t @ post"] assms
    by (simp add: entry_bytes_def)
  have val: "read_str (data b) (off + 2 + length (ekey e) + 2) (length (evalue e)) = Inr (evalue e)"
    using read_str_middle [of "off + 2 + length (ekey e) + 2" "pre @ ?k @ ?ks @ ?v" _ "evalue e"
        "?t @ post"] assms
    by (simp add: entry_bytes_def)
  have tr: "read_u64 (data b) (off + 2 + length (ekey e) + 2 + length (evalue e)) = Inr (etranc e)"
    using read_u64_middle [of "off + 2 + length (ekey e) + 2 + length (evalue e)"
        "pre @ ?k @ ?ks @ ?v @ ?vs" "etranc e" post] assms
    by (simp add: entry_bytes_def add.assoc)
  show "Block_get_key_at b off = Inr (ekey e)"
    using kl key assms(2) by (simp add: Block_get_key_at_def small_entry_def)
  show "Block_get_value_at b off = Inr (evalue e)"
    using kl vl val assms(2) by (simp add: Block_get_value_at_def small_entry_def)
  show "Block_get_tranc_id_at b off = Inr (etranc e)"
    using kl vl tr assms(2) by (simp add: Block_get_tranc_id_at_def small_entry_def)
qed

section \<open>The entries of a block\<close>

definition block_repr :: "block \<Rightarrow> entry list \<Rightarrow> bool" where
  "block_repr b es \<longleftrightarrow>
     data b = entries_bytes es \<and> length (offsets b) = length es \<and>
     (\<forall>i < length es. unat (offsets b ! i) = entry_off es i) \<and> (\<forall>e \<in> set es. small_entry e)"

lemma block_repr_new [simp]: "block_repr (new_block cap) []"
  by (simp add: block_repr_def new_block_def)

lemma block_repr_length: "block_repr b es \<Longrightarrow> length (offsets b) = length es"
  by (simp add: block_repr_def)

lemma block_repr_split:
  assumes "block_repr b es" and "i < length es"
  shows "data b = entries_bytes (take i es) @ entry_bytes (es ! i) @ entries_bytes (drop (Suc i) es)"
proof -
  have "es = take i es @ es ! i # drop (Suc i) es"
    using assms(2) by (simp add: id_take_nth_drop)
  then have "entries_bytes es = entries_bytes (take i es @ es ! i # drop (Suc i) es)"
    by metis
  with assms show ?thesis by (simp add: block_repr_def)
qed

lemma offset_at_repr:
  "block_repr b es \<Longrightarrow> i < length es \<Longrightarrow> offset_at b i = Inr (entry_off es i)"
  by (simp add: block_repr_def offset_at_def)

lemma get_offset_at_repr:
  "block_repr b es \<Longrightarrow> i < length es \<Longrightarrow> Block_get_offset_at b i = Inr (entry_off es i)"
  by (simp add: Block_get_offset_at_def offset_at_repr block_repr_length)

lemma get_at_repr:
  assumes "block_repr b es" and "i < length es"
  shows "Block_get_key_at b (entry_off es i) = Inr (ekey (es ! i))"
    and "Block_get_value_at b (entry_off es i) = Inr (evalue (es ! i))"
    and "Block_get_tranc_id_at b (entry_off es i) = Inr (etranc (es ! i))"
    and "Block_get_entry_at b (entry_off es i) = Inr (es ! i)"
proof -
  have small: "small_entry (es ! i)"
    using assms by (simp add: block_repr_def)
  note read = read_entry [OF block_repr_split [OF assms] small]
  show "Block_get_key_at b (entry_off es i) = Inr (ekey (es ! i))"
    "Block_get_value_at b (entry_off es i) = Inr (evalue (es ! i))"
    "Block_get_tranc_id_at b (entry_off es i) = Inr (etranc (es ! i))"
    by (simp_all add: read entry_off_def)
  then show "Block_get_entry_at b (entry_off es i) = Inr (es ! i)"
    by (simp add: Block_get_entry_at_def)
qed

lemmas block_reads = offset_at_repr get_offset_at_repr get_at_repr block_repr_length

subsection \<open>Appending an entry\<close>

lemma add_entry_buffer:
  assumes "length key < 2 ^ 16" and "length val < 2 ^ 16"
    and "\<not> (\<not> force \<and> capacity b < Block_cur_size b + length key + length val + 14 \<and> offsets b \<noteq> [])"
  shows "Block_add_entry key val t force b =
    Inr (b\<lparr>data := data b @ entry_bytes \<lparr>ekey = key, evalue = val, etranc = t\<rparr>,
           offsets := offsets b @ [of_nat (length (data b))]\<rparr>, True)"
proof -
  let ?k = "u16_bytes (of_nat (length key))" and ?v = "u16_bytes (of_nat (length val))"
  let ?ks = "str_bytes key" and ?vs = "str_bytes val" and ?d = "data b"
  let ?nk = "length key" and ?nv = "length val"
  have w1: "memwrite (?d @ replicate (12 + ?nk + ?nv) 0) (length ?d) ?k =
      Inr (?d @ ?k @ replicate (10 + ?nk + ?nv) 0)"
    using memwrite_here [of "length ?d" ?d ?k 2 "10 + ?nk + ?nv" 0]
    by (simp add: ac_simps)
  have w2: "memwrite (?d @ ?k @ replicate (10 + ?nk + ?nv) 0) (length ?d + 2) ?ks =
      Inr (?d @ ?k @ ?ks @ replicate (10 + ?nv) 0)"
    using memwrite_here [of "length ?d + 2" "?d @ ?k" ?ks ?nk "10 + ?nv" 0]
    by (simp add: ac_simps)
  have w3: "memwrite (?d @ ?k @ ?ks @ replicate (10 + ?nv) 0) (length ?d + 2 + ?nk) ?v =
      Inr (?d @ ?k @ ?ks @ ?v @ replicate (8 + ?nv) 0)"
    using memwrite_here [of "length ?d + 2 + ?nk" "?d @ ?k @ ?ks" ?v 2 "8 + ?nv" 0]
    by (simp add: ac_simps)
  have w4: "memwrite (?d @ ?k @ ?ks @ ?v @ replicate (8 + ?nv) 0) (length ?d + 2 + ?nk + 2) ?vs =
      Inr (?d @ ?k @ ?ks @ ?v @ ?vs @ replicate 8 0)"
    using memwrite_here [of "length ?d + 2 + ?nk + 2" "?d @ ?k @ ?ks @ ?v" ?vs ?nv 8 0]
    by (simp add: ac_simps)
  have w5: "memwrite (?d @ ?k @ ?ks @ ?v @ ?vs @ replicate 8 0)
      (length ?d + 2 + ?nk + 2 + ?nv) (u64_bytes t) = Inr (?d @ ?k @ ?ks @ ?v @ ?vs @ u64_bytes t)"
    using memwrite_here [of "length ?d + 2 + ?nk + 2 + ?nv" "?d @ ?k @ ?ks @ ?v @ ?vs" "u64_bytes t" 8 0 0]
    by (simp add: ac_simps)
  have size: "2 + ?nk + 2 + ?nv + 8 = 12 + ?nk + ?nv"
    by simp
  show ?thesis
    using assms w1 w2 w3 w4 w5
    unfolding Block_add_entry_def Let_def size
    by (simp add: entry_bytes_def)
qed


lemma block_repr_add:
  assumes "block_repr b es" and "small_entry e" and "length (data b) < 2 ^ 16"
  shows "block_repr (b\<lparr>data := data b @ entry_bytes e,
      offsets := offsets b @ [of_nat (length (data b))]\<rparr>) (es @ [e])"
  using assms
  by (auto simp: block_repr_def entry_off_def nth_append less_Suc_eq_le)

lemma add_entry_repr:
  assumes "block_repr b es" and "small_entry e" and "length (data b) < 2 ^ 16"
  shows "case Block_add_entry (ekey e) (evalue e) (etranc e) force b of
      Inl err \<Rightarrow> False
    | Inr (b', ok) \<Rightarrow>
        (ok \<longleftrightarrow> force \<or> es = [] \<or>
           Block_cur_size b + length (ekey e) + length (evalue e) + 14 \<le> capacity b) \<and>
        capacity b' = capacity b \<and> block_repr b' (if ok then es @ [e] else es) \<and> (\<not> ok \<longrightarrow> b' = b)"
proof -
  let ?full = "\<not> force \<and> capacity b < Block_cur_size b + length (ekey e) + length (evalue e) + 14 \<and>
    offsets b \<noteq> []"
  have empty: "offsets b = [] \<longleftrightarrow> es = []"
    using assms(1) by (auto simp: block_repr_def)
  show ?thesis
  proof (cases ?full)
    case True
    then have "Block_add_entry (ekey e) (evalue e) (etranc e) force b = Inr (b, False)"
      by (simp add: Block_add_entry_def)
    with True assms(1) empty show ?thesis by auto
  next
    case False
    have "Block_add_entry (ekey e) (evalue e) (etranc e) force b =
        Inr (b\<lparr>data := data b @ entry_bytes e, offsets := offsets b @ [of_nat (length (data b))]\<rparr>, True)"
      using add_entry_buffer [of "ekey e" "evalue e" force b "etranc e"] False assms(2)
      by (cases e) (simp add: small_entry_def)
    with False empty block_repr_add [OF assms] show ?thesis by auto
  qed
qed

text \<open>
  C32: \<^verbatim>\<open>add_entry\<close> on a block that holds the entries \<open>es\<close>. A block that would exceed its capacity
  (and is not empty and not forced) is returned unchanged with \<open>false\<close>; otherwise the
  entry becomes the last entry of the block, provided its lengths and the offset it is stored
  at fit the 16 bits the format reserves. The copies never leave the buffer.
\<close>

theorem add_entry_correct:
  assumes "block_repr b es" and "small_entry e" and "length (data b) < 2 ^ 16"
  shows "case Block_add_entry (ekey e) (evalue e) (etranc e) force b of
      Inl err \<Rightarrow> False
    | Inr (b', ok) \<Rightarrow>
        (ok \<longleftrightarrow> force \<or> es = [] \<or>
           Block_cur_size b + length (ekey e) + length (evalue e) + 14 \<le> capacity b) \<and>
        capacity b' = capacity b \<and> block_repr b' (if ok then es @ [e] else es) \<and> (\<not> ok \<longrightarrow> b' = b)"
  by (rule add_entry_repr [OF assms])

theorem add_entry_correct_witness:
  "case Block_add_entry ''k'' ''v'' 3 False (new_block 100) of
     Inl err \<Rightarrow> False | Inr (b', ok) \<Rightarrow> ok \<and> block_repr b' [\<lparr>ekey = ''k'', evalue = ''v'', etranc = 3\<rparr>]"
proof -
  have "length (data (new_block 100)) < 2 ^ 16"
    by (simp add: new_block_def)
  then show ?thesis
    using add_entry_correct [of "new_block 100" "[]" "\<lparr>ekey = ''k'', evalue = ''v'', etranc = 3\<rparr>" False]
    by (auto simp: small_entry_def split: sum.splits prod.splits)
qed

subsection \<open>Encoding\<close>

lemma u16s_of_concat [simp]: "u16s_of (concat (map u16_bytes ws)) = ws"
proof (induction ws)
  case Nil
  show ?case by simp
next
  case (Cons w ws)
  obtain a c where "u16_bytes w = [a, c]"
    by (simp add: u16_bytes_def numeral_2_eq_2)
  with Cons bytes_u16_u16_bytes [of w] show ?case by simp
qed

lemma length_offset_section [simp]: "length (concat (map u16_bytes ws)) = 2 * length ws"
  by (induction ws) simp_all

lemma read_u32_last:
  "read_u32 (xs @ u32_bytes w) (length xs) = Inr w"
  using read_u32_middle [of "length xs" xs w "[]"] by simp

lemma decode_encode_repr:
  assumes "length (offsets b) < 2 ^ 16" and "with_hash \<longrightarrow> data b \<noteq> [] \<or> offsets b \<noteq> []"
  shows "Block_decode h (Block_encode h with_hash b) with_hash = Inr (b\<lparr>capacity := 0\<rparr>)"
proof -
  let ?os = "concat (map u16_bytes (offsets b))" and ?n = "u16_bytes (of_nat (length (offsets b)))"
  let ?body = "data b @ ?os @ ?n"
  have num: "read_u16 (?body @ rest) (length (data b) + 2 * length (offsets b)) =
      Inr (of_nat (length (offsets b)))" for rest
    using read_u16_middle [of "length (data b) + 2 * length (offsets b)" "data b @ ?os"
        "of_nat (length (offsets b))" rest] by simp
  have offs: "memread (?body @ rest) (length (data b)) (2 * length (offsets b)) = Inr ?os" for rest
    using memread_middle [of "length (data b)" "data b" "2 * length (offsets b)" ?os "?n @ rest"]
    by simp
  have n: "unat (of_nat (length (offsets b)) :: u16) = length (offsets b)"
    using assms by simp
  note facts = n num [of "[]", simplified] offs [of "[]", simplified]
  show ?thesis
  proof (cases with_hash)
    case False
    then show ?thesis
      using facts
      by (simp add: Block_encode_def Block_decode_def Let_def mult.commute)
  next
    case True
    let ?h = "u32_bytes (hash32 h ?body)"
    have "read_u32 (?body @ ?h) (length ?body) = Inr (hash32 h ?body)"
      by (rule read_u32_last)
    then show ?thesis
      using True n num [of ?h] offs [of ?h] assms(2)
      by (simp add: Block_encode_def Block_decode_def Let_def mult.commute)
  qed
qed

text \<open>
  C30: decoding an encoded block gives back its data and offsets, with and without the checksum, for
  every block of fewer than \<open>2 ^ 16\<close> entries, except that an empty block encoded with its
  checksum is six bytes long and \<^verbatim>\<open>decode\<close> refuses it. (A decoded block has no capacity: it is
  never written to.)
\<close>

theorem decode_encode:
  assumes "length (offsets b) < 2 ^ 16" and "with_hash \<longrightarrow> data b \<noteq> [] \<or> offsets b \<noteq> []"
  shows "Block_decode h (Block_encode h with_hash b) with_hash = Inr (b\<lparr>capacity := 0\<rparr>)"
  by (rule decode_encode_repr [OF assms])


theorem decode_encode_witness:
  "Block_decode (\<lambda>s. of_nat (length s)) (Block_encode (\<lambda>s. of_nat (length s)) True
     \<lparr>data = [1, 0, 65], offsets = [0], capacity = 9\<rparr>) True = Inr \<lparr>data = [1, 0, 65], offsets = [0], capacity = 0\<rparr>"
  using decode_encode [of "\<lparr>data = [1, 0, 65], offsets = [0], capacity = 9\<rparr>" True] by simp

text \<open>
  A block whose stored checksum differs from the checksum of the bytes before it is refused.
\<close>

theorem decode_wrong_hash:
  assumes "2 < length body" and "stored \<noteq> hash32 h body"
  shows "Block_decode h (body @ u32_bytes stored) True =
    Inl (Runtime_error ''Block hash verification failed'')"
  using assms by (simp add: Block_decode_def Let_def read_u32_last)

theorem decode_wrong_hash_witness:
  "Block_decode (\<lambda>s. of_nat (length s)) ([1, 2, 3] @ u32_bytes 7) True =
    Inl (Runtime_error ''Block hash verification failed'')"
proof -
  have "(7 :: u32) \<noteq> hash32 (\<lambda>s. of_nat (length s)) [1, 2, 3]"
    by (simp add: hash32_def)
  then show ?thesis
    by (intro decode_wrong_hash) simp_all
qed


section \<open>Searching a sorted block\<close>

text \<open>
  The order in which entries are written: by key, and the versions of a key from the newest to
  the oldest. A reader with transaction id \<open>tid\<close> sees the versions up to \<open>tid\<close>; \<open>0\<close> sees all.
\<close>

definition entry_le :: "entry \<Rightarrow> entry \<Rightarrow> bool" where
  "entry_le a b \<longleftrightarrow> ekey a < ekey b \<or> ekey a = ekey b \<and> etranc b \<le> etranc a"

definition sorted_entries :: "entry list \<Rightarrow> bool" where
  "sorted_entries es \<longleftrightarrow> sorted_wrt entry_le es"

definition visible :: "u64 \<Rightarrow> entry \<Rightarrow> bool" where
  "visible tid e \<longleftrightarrow> tid = 0 \<or> etranc e \<le> tid"

text \<open>The reference: scan the entries for the first visible version of the key.\<close>

definition newest_visible :: "entry list \<Rightarrow> string \<Rightarrow> u64 \<Rightarrow> nat option" where
  "newest_visible es key tid = find_index (\<lambda>e. ekey e = key \<and> visible tid e) es"

lemma sorted_entries_nth:
  "sorted_entries es \<Longrightarrow> i < j \<Longrightarrow> j < length es \<Longrightarrow> entry_le (es ! i) (es ! j)"
  by (simp add: sorted_entries_def sorted_wrt_nth_less)

lemma sorted_keys_nth:
  "sorted_entries es \<Longrightarrow> i \<le> j \<Longrightarrow> j < length es \<Longrightarrow> ekey (es ! i) \<le> ekey (es ! j)"
  using sorted_entries_nth [of es i j] by (cases "i = j") (auto simp: entry_le_def)

lemma is_same_key_repr:
  "block_repr b es \<Longrightarrow> i < length es \<Longrightarrow> Block_is_same_key b i k = Inr (ekey (es ! i) = k)"
  by (simp add: Block_is_same_key_def block_reads)

lemma tranc_id_of_repr:
  "block_repr b es \<Longrightarrow> i < length es \<Longrightarrow> Block_tranc_id_of b i = Inr (etranc (es ! i))"
  by (simp add: Block_tranc_id_of_def block_reads)

lemmas block_searches = block_reads is_same_key_repr tranc_id_of_repr

lemma adjust_back_walk:
  assumes "block_repr b es" and "p \<le> length es"
  shows "\<exists>q \<le> p. adjust_back b k t p = Inr (int q) \<and>
    (\<forall>j. q \<le> j \<and> j < p \<longrightarrow> ekey (es ! j) = k \<and> etranc (es ! j) \<le> t) \<and>
    (0 < q \<longrightarrow> \<not> (ekey (es ! (q - 1)) = k \<and> etranc (es ! (q - 1)) \<le> t))"
  using assms(2)
proof (induction p)
  case 0
  show ?case by simp
next
  case (Suc p)
  then have "p < length es" by simp
  show ?case
  proof (cases "ekey (es ! p) = k \<and> etranc (es ! p) \<le> t")
    case True
    from Suc obtain q where "q \<le> p" "adjust_back b k t p = Inr (int q)"
      "\<forall>j. q \<le> j \<and> j < p \<longrightarrow> ekey (es ! j) = k \<and> etranc (es ! j) \<le> t"
      "0 < q \<longrightarrow> \<not> (ekey (es ! (q - 1)) = k \<and> etranc (es ! (q - 1)) \<le> t)"
      by auto
    moreover have "adjust_back b k t (Suc p) = adjust_back b k t p"
      using True \<open>p < length es\<close> assms(1) by (simp add: block_searches leD)
    moreover have "\<forall>j. q \<le> j \<and> j < Suc p \<longrightarrow> ekey (es ! j) = k \<and> etranc (es ! j) \<le> t"
      using True calculation(3) by (auto simp only: less_Suc_eq)
    ultimately show ?thesis
      by (metis le_SucI)
  next
    case False
    then have "adjust_back b k t (Suc p) = Inr (int (Suc p))"
      using \<open>p < length es\<close> assms(1) by (auto simp: block_searches)
    with False show ?thesis
      by (intro exI [of _ "Suc p"]) (auto simp del: adjust_back.simps)
  qed
qed

lemma adjust_back_all_walk:
  assumes "block_repr b es" and "p \<le> length es"
  shows "\<exists>q \<le> p. adjust_back_all b k p = Inr (int q) \<and>
    (\<forall>j. q \<le> j \<and> j < p \<longrightarrow> ekey (es ! j) = k) \<and> (0 < q \<longrightarrow> ekey (es ! (q - 1)) \<noteq> k)"
  using assms(2)
proof (induction p)
  case 0
  show ?case by simp
next
  case (Suc p)
  then have "p < length es" by simp
  show ?case
  proof (cases "ekey (es ! p) = k")
    case True
    from Suc obtain q where "q \<le> p" "adjust_back_all b k p = Inr (int q)"
      "\<forall>j. q \<le> j \<and> j < p \<longrightarrow> ekey (es ! j) = k" "0 < q \<longrightarrow> ekey (es ! (q - 1)) \<noteq> k"
      by auto
    moreover have "adjust_back_all b k (Suc p) = adjust_back_all b k p"
      using True \<open>p < length es\<close> assms(1) by (simp add: block_searches)
    moreover have "\<forall>j. q \<le> j \<and> j < Suc p \<longrightarrow> ekey (es ! j) = k"
      using True calculation(3) by (auto simp only: less_Suc_eq)
    ultimately show ?thesis
      by (metis le_SucI)
  next
    case False
    then have "adjust_back_all b k (Suc p) = Inr (int (Suc p))"
      using \<open>p < length es\<close> assms(1) by (simp add: block_searches)
    with False show ?thesis
      by (intro exI [of _ "Suc p"]) (auto simp del: adjust_back_all.simps)
  qed
qed

lemma adjust_forward_walk:
  assumes "block_repr b es" and "n \<le> length es"
  shows "\<exists>q \<ge> n. q \<le> length es \<and> (\<forall>j. n \<le> j \<and> j < q \<longrightarrow> ekey (es ! j) = k \<and> t < etranc (es ! j)) \<and>
    (if q < length es \<and> ekey (es ! q) = k
     then adjust_forward b k t n = Inr (int q) \<and> etranc (es ! q) \<le> t
     else adjust_forward b k t n = Inr (-1))"
  using assms(2)
proof (induction "length es - n" arbitrary: n)
  case 0
  then show ?case
    using block_repr_length [OF assms(1)]
    by (intro exI [of _ n]) (auto simp: adjust_forward.simps)
next
  case (Suc d)
  then have n: "n < length es" by simp
  have step: "adjust_forward b k t n =
      (if ekey (es ! n) = k
       then if etranc (es ! n) \<le> t then Inr (int n) else adjust_forward b k t (Suc n)
       else Inr (-1))"
    using n assms(1) by (subst adjust_forward.simps) (simp add: block_searches)
  show ?case
  proof (cases "ekey (es ! n) = k \<and> t < etranc (es ! n)")
    case True
    have "d = length es - Suc n" "Suc n \<le> length es"
      using Suc.hyps n by simp_all
    from Suc.hyps(1) [OF this] obtain q where q: "Suc n \<le> q" "q \<le> length es"
      "\<forall>j. Suc n \<le> j \<and> j < q \<longrightarrow> ekey (es ! j) = k \<and> t < etranc (es ! j)"
      "if q < length es \<and> ekey (es ! q) = k
       then adjust_forward b k t (Suc n) = Inr (int q) \<and> etranc (es ! q) \<le> t
       else adjust_forward b k t (Suc n) = Inr (-1)"
      by blast
    then have "\<forall>j. n \<le> j \<and> j < q \<longrightarrow> ekey (es ! j) = k \<and> t < etranc (es ! j)"
      using True by (metis Suc_leI le_neq_implies_less)
    with q True step show ?thesis
      by (intro exI [of _ q]) (auto simp: not_le)
  next
    case False
    with n step show ?thesis
      by (intro exI [of _ n]) auto
  qed
qed

text \<open>
  Between two positions that hold the same key every entry has that key, and its versions do not
  get newer.
\<close>

lemma sorted_same_key:
  assumes "sorted_entries es" and "i \<le> j" and "j \<le> m" and "m < length es"
    and "ekey (es ! i) = k" and "ekey (es ! m) = k"
  shows "ekey (es ! j) = k"
proof -
  have "ekey (es ! i) \<le> ekey (es ! j)" "ekey (es ! j) \<le> ekey (es ! m)"
    using sorted_keys_nth [of es i j] sorted_keys_nth [of es j m] assms by linarith+
  with assms(5,6) show ?thesis by simp
qed

lemma sorted_versions:
  assumes "sorted_entries es" and "i \<le> j" and "j < length es" and "ekey (es ! i) = ekey (es ! j)"
  shows "etranc (es ! j) \<le> etranc (es ! i)"
  using sorted_entries_nth [of es i j] assms by (cases "i = j") (auto simp: entry_le_def)

lemma adjust_idx_visible:
  assumes repr: "block_repr b es" and sorted: "sorted_entries es" and m: "m < length es"
    and key: "ekey (es ! m) = k" and t: "tid \<noteq> 0" "etranc (es ! m) \<le> tid"
  shows "\<exists>q. adjust_back b k tid m = Inr (int q) \<and> newest_visible es k tid = Some q"
proof -
  obtain q where q: "q \<le> m" "adjust_back b k tid m = Inr (int q)"
    "\<forall>j. q \<le> j \<and> j < m \<longrightarrow> ekey (es ! j) = k \<and> etranc (es ! j) \<le> tid"
    "0 < q \<longrightarrow> \<not> (ekey (es ! (q - 1)) = k \<and> etranc (es ! (q - 1)) \<le> tid)"
    using adjust_back_walk [OF repr, of m k tid] m by auto
  have here: "ekey (es ! q) = k" "etranc (es ! q) \<le> tid"
    using q(1,3) key t(2) by (cases "q = m"; simp)+
  have "\<not> (ekey (es ! j) = k \<and> etranc (es ! j) \<le> tid)" if "j < q" for j
  proof
    assume "ekey (es ! j) = k \<and> etranc (es ! j) \<le> tid"
    moreover have "j \<le> q - 1" "q - 1 \<le> q" "q - 1 < length es" "q < length es"
      using that q(1) m by auto
    ultimately have "ekey (es ! (q - 1)) = k" "etranc (es ! (q - 1)) \<le> tid"
      using sorted_same_key [OF sorted, of j "q - 1" q k] sorted_versions [OF sorted, of j "q - 1"]
        here(1) by auto
    with q(4) that show False by simp
  qed
  then have "newest_visible es k tid = Some q"
    unfolding newest_visible_def
    using here q(1) m t(1) by (intro find_index_someI) (auto simp: visible_def)
  with q(2) show ?thesis by blast
qed

lemma adjust_idx_zero:
  assumes repr: "block_repr b es" and sorted: "sorted_entries es" and m: "m < length es"
    and key: "ekey (es ! m) = k"
  shows "\<exists>q. adjust_back_all b k m = Inr (int q) \<and> newest_visible es k 0 = Some q"
proof -
  obtain q where q: "q \<le> m" "adjust_back_all b k m = Inr (int q)"
    "\<forall>j. q \<le> j \<and> j < m \<longrightarrow> ekey (es ! j) = k" "0 < q \<longrightarrow> ekey (es ! (q - 1)) \<noteq> k"
    using adjust_back_all_walk [OF repr, of m k] m by auto
  have here: "ekey (es ! q) = k"
    using q(1,3) key by (cases "q = m") simp_all
  have "ekey (es ! j) \<noteq> k" if "j < q" for j
  proof
    assume "ekey (es ! j) = k"
    moreover have "j \<le> q - 1" "q - 1 \<le> q" "q < length es"
      using that q(1) m by auto
    ultimately have "ekey (es ! (q - 1)) = k"
      using sorted_same_key [OF sorted] here by blast
    with q(4) that show False by simp
  qed
  then have "newest_visible es k 0 = Some q"
    unfolding newest_visible_def
    using here q(1) m by (intro find_index_someI) (auto simp: visible_def)
  with q(2) show ?thesis by blast
qed

lemma adjust_idx_hidden:
  assumes repr: "block_repr b es" and sorted: "sorted_entries es" and m: "m < length es"
    and key: "ekey (es ! m) = k" and t: "tid \<noteq> 0" "tid < etranc (es ! m)"
  shows "\<exists>r. adjust_forward b k tid (m + 1) = Inr r \<and>
    newest_visible es k tid = (if r = -1 then None else Some (nat r))"
proof -
  obtain q where q: "m + 1 \<le> q" "q \<le> length es"
    "\<forall>j. m + 1 \<le> j \<and> j < q \<longrightarrow> ekey (es ! j) = k \<and> tid < etranc (es ! j)"
    "if q < length es \<and> ekey (es ! q) = k
     then adjust_forward b k tid (m + 1) = Inr (int q) \<and> etranc (es ! q) \<le> tid
     else adjust_forward b k tid (m + 1) = Inr (-1)"
    using adjust_forward_walk [OF repr, of "m + 1" k tid] m by auto
  have below: "\<not> (ekey (es ! j) = k \<and> visible tid (es ! j))" if "j < q" for j
  proof (cases "j \<le> m")
    case True
    then have "ekey (es ! j) = k \<Longrightarrow> etranc (es ! m) \<le> etranc (es ! j)"
      using sorted_versions [OF sorted True m] key by simp
    with t show ?thesis by (auto simp: visible_def)
  next
    case False
    with q(3) that have "tid < etranc (es ! j)" by simp
    with t(1) show ?thesis by (auto simp: visible_def)
  qed
  show ?thesis
  proof (cases "q < length es \<and> ekey (es ! q) = k")
    case True
    then have "newest_visible es k tid = Some q"
      unfolding newest_visible_def
      using q(4) below by (intro find_index_someI) (auto simp: visible_def)
    with True q(4) show ?thesis by simp
  next
    case False
    have "\<not> (ekey (es ! j) = k \<and> visible tid (es ! j))" if j: "j < length es" for j
    proof (cases "j < q")
      case False
      then have "ekey (es ! j) = k \<Longrightarrow> ekey (es ! q) = k"
        using sorted_same_key [OF sorted, of m q j k] q(1) j key by auto
      with \<open>\<not> (q < length es \<and> ekey (es ! q) = k)\<close> False j show ?thesis by auto
    qed (use below in auto)
    then have "newest_visible es k tid = None"
      unfolding newest_visible_def by (rule find_index_noneI)
    with False q(4) show ?thesis by (metis (full_types))
  qed
qed

lemma adjust_idx_repr:
  assumes "block_repr b es" and "sorted_entries es" and "m < length es"
  shows "\<exists>r. Block_adjust_idx_by_tranc_id b m tid = Inr r \<and>
    newest_visible es (ekey (es ! m)) tid = (if r = -1 then None else Some (nat r))"
proof -
  let ?k = "ekey (es ! m)"
  consider "tid = 0" | "tid \<noteq> 0" "etranc (es ! m) \<le> tid" | "tid \<noteq> 0" "tid < etranc (es ! m)"
    by fastforce
  then show ?thesis
  proof cases
    case 1
    then obtain q where "adjust_back_all b ?k m = Inr (int q)" "newest_visible es ?k tid = Some q"
      using adjust_idx_zero [OF assms refl] by auto
    with 1 assms show ?thesis
      by (intro exI [of _ "int q"]) (simp add: Block_adjust_idx_by_tranc_id_def block_reads)
  next
    case 2
    then obtain q where "adjust_back b ?k tid m = Inr (int q)" "newest_visible es ?k tid = Some q"
      using adjust_idx_visible [OF assms refl] by auto
    with 2 assms show ?thesis
      by (intro exI [of _ "int q"]) (simp add: Block_adjust_idx_by_tranc_id_def block_reads)
  next
    case 3
    with adjust_idx_hidden [OF assms refl 3] assms show ?thesis
      by (auto simp: Block_adjust_idx_by_tranc_id_def block_reads)
  qed
qed

text \<open>
  The window invariant of the binary search: everything left of it has a smaller key, everything
  right of it a larger one.
\<close>

lemma Block_search_repr:
  assumes "block_repr b es" and "sorted_entries es" and "0 \<le> l" and "r < int (length es)"
    and "\<forall>j < length es. int j < l \<longrightarrow> ekey (es ! j) < key"
    and "\<forall>j < length es. r < int j \<longrightarrow> key < ekey (es ! j)"
  shows "Block_search b key tid l r = Inr (newest_visible es key tid)"
  using assms
proof (induction b key tid l r rule: Block_search.induct)
  case (1 b key tid l r)
  note repr = "1.prems"(1) and sorted = "1.prems"(2)
  show ?case
  proof (cases "l \<le> r")
    case False
    have "ekey (es ! j) \<noteq> key" if "j < length es" for j
      using "1.prems"(5,6) False that by (cases "int j < l") auto
    then have "newest_visible es key tid = None"
      unfolding newest_visible_def by (intro find_index_noneI) simp
    with False show ?thesis by (simp add: Block_search.simps)
  next
    case True
    let ?m = "l + (r - l) div 2"
    have m: "nat ?m < length es" "0 \<le> ?m" "l \<le> ?m" "?m \<le> r"
      using True "1.prems"(3,4) by auto
    have cmp: "Block_compare_key_at b (entry_off es (nat ?m)) key =
        Inr (str_compare (ekey (es ! nat ?m)) key)"
      using repr m(1) by (simp add: Block_compare_key_at_def block_reads)
    have step: "Block_search b key tid l r =
      (if str_compare (ekey (es ! nat ?m)) key = 0 then
         bindE (Block_adjust_idx_by_tranc_id b (nat ?m) tid) (\<lambda>new_mid.
           if new_mid = -1 then Inr None else Inr (Some (nat new_mid)))
       else if str_compare (ekey (es ! nat ?m)) key < 0 then Block_search b key tid (?m + 1) r
       else Block_search b key tid l (?m - 1))"
      using True repr m(1)
      by (subst Block_search.simps) (simp add: Let_def block_reads cmp)
    note IH = "1.IH"(1) [OF True refl offset_at_repr [OF repr m(1)] cmp]
              "1.IH"(2) [OF True refl offset_at_repr [OF repr m(1)] cmp]
    consider "ekey (es ! nat ?m) = key" | "ekey (es ! nat ?m) < key" | "key < ekey (es ! nat ?m)"
      by fastforce
    then show ?thesis
    proof cases
      case 1
      with adjust_idx_repr [OF repr sorted m(1), of tid] step show ?thesis by auto
    next
      case 2
      have "ekey (es ! j) < key" if "j < length es" "int j < ?m + 1" for j
      proof -
        have "j \<le> nat ?m" using that(2) by linarith
        then have "ekey (es ! j) \<le> ekey (es ! nat ?m)"
          using sorted m(1) by (intro sorted_keys_nth)
        then show ?thesis using 2 by (rule le_less_trans)
      qed
      with IH(1) 2 less_imp_neq [OF 2] m step "1.prems" show ?thesis by simp
    next
      case 3
      have "key < ekey (es ! j)" if "j < length es" "?m - 1 < int j" for j
      proof -
        have "nat ?m \<le> j" using that(2) m(2) by linarith
        then have "ekey (es ! nat ?m) \<le> ekey (es ! j)"
          using sorted that(1) by (intro sorted_keys_nth)
        with 3 show ?thesis by (rule less_le_trans)
      qed
      with IH(2) 3 less_imp_neq [OF 3] less_not_sym [OF 3] m step "1.prems" show ?thesis by simp
    qed
  qed
qed

lemma get_idx_binary_repr:
  assumes "block_repr b es" and "sorted_entries es"
  shows "Block_get_idx_binary b key tid = Inr (newest_visible es key tid)"
proof (cases "es = []")
  case True
  with assms(1) show ?thesis
    by (simp add: Block_get_idx_binary_def block_repr_def newest_visible_def)
next
  case False
  have "Block_search b key tid 0 (int (length es) - 1) = Inr (newest_visible es key tid)"
    using assms by (intro Block_search_repr) auto
  with False assms(1) show ?thesis
    by (auto simp: Block_get_idx_binary_def block_repr_def)
qed

text \<open>
  C25: the binary search of a sorted block with the adjustment by transaction id returns the position
  of the newest version of the key that the reader may see, and \<^verbatim>\<open>nullopt\<close> exactly when
  there is none: what a linear scan of the entries returns.
\<close>

theorem get_idx_binary_correct:
  assumes "block_repr b es" and "sorted_entries es"
  shows "Block_get_idx_binary b key tid =
    Inr (find_index (\<lambda>e. ekey e = key \<and> (tid = 0 \<or> etranc e \<le> tid)) es)"
  using get_idx_binary_repr [OF assms] by (simp add: newest_visible_def visible_def)

theorem get_idx_binary_correct_witness:
  "case Block_add_entry ''k'' ''v'' 7 False (new_block 100) of
     Inl err \<Rightarrow> False
   | Inr (b, ok) \<Rightarrow> Block_get_idx_binary b ''k'' 9 = Inr (Some 0) \<and> Block_get_idx_binary b ''k'' 6 = Inr None"
proof -
  let ?e = "\<lparr>ekey = ''k'', evalue = ''v'', etranc = 7\<rparr>"
  let ?b = "(new_block 100)\<lparr>data := entry_bytes ?e, offsets := [0]\<rparr>"
  have "Block_add_entry ''k'' ''v'' 7 False (new_block 100) = Inr (?b, True)"
    by (subst add_entry_buffer) (simp_all add: new_block_def)
  moreover have "block_repr ?b [?e]"
    by (simp add: block_repr_def small_entry_def entry_off_def)
  moreover have "sorted_entries [?e]"
    by (simp add: sorted_entries_def)
  ultimately show ?thesis
    using get_idx_binary_correct [of ?b "[?e]" "''k''" 9] get_idx_binary_correct [of ?b "[?e]" "''k''" 6]
    by simp
qed

lemma newest_visible_nth:
  "newest_visible es key tid = Some i \<Longrightarrow> i < length es \<and> ekey (es ! i) = key \<and> visible tid (es ! i)"
  by (simp add: newest_visible_def find_index_eq_Some)

lemma get_value_binary_repr:
  assumes "block_repr b es" and "sorted_entries es"
  shows "Block_get_value_binary b key tid =
    Inr (map_option (\<lambda>i. evalue (es ! i)) (newest_visible es key tid))"
  using assms
  by (cases "newest_visible es key tid")
    (simp_all add: Block_get_value_binary_def get_idx_binary_repr newest_visible_nth block_reads)

subsection \<open>Ranges of a monotone predicate\<close>

text \<open>
  \<open>falling es p\<close>: along the entries the direction \<open>p\<close> gives does not increase, so the keys
  with direction \<open>0\<close> are consecutive.
\<close>

definition falling :: "entry list \<Rightarrow> (string \<Rightarrow> int) \<Rightarrow> bool" where
  "falling es p \<longleftrightarrow> (\<forall>j < length es. \<forall>i \<le> j. sgn (p (ekey (es ! j))) \<le> sgn (p (ekey (es ! i))))"

lemma bound_search_repr:
  assumes "block_repr b es" and "0 \<le> l" and "r < int (length es)" and "l \<le> r + 1"
    and "\<And>i j. i \<le> j \<Longrightarrow> j < length es \<Longrightarrow> g (p (ekey (es ! i))) \<Longrightarrow> g (p (ekey (es ! j)))"
    and "\<forall>j < length es. int j < l \<longrightarrow> \<not> g (p (ekey (es ! j)))"
    and "\<forall>j < length es. r < int j \<longrightarrow> g (p (ekey (es ! j)))"
  shows "\<exists>q. Block_bound_search b p g l r = Inr (int q) \<and> l \<le> int q \<and> int q \<le> r + 1 \<and>
    (\<forall>j < length es. g (p (ekey (es ! j))) \<longleftrightarrow> q \<le> j)"
  using assms
proof (induction b p g l r rule: Block_bound_search.induct)
  case (1 b p g l r)
  note repr = "1.prems"(1) and mono = "1.prems"(5)
  show ?case
  proof (cases "l \<le> r")
    case False
    then show ?thesis
      using "1.prems" by (intro exI [of _ "nat l"]) (auto simp: Block_bound_search.simps)
  next
    case True
    let ?m = "l + (r - l) div 2"
    have m: "nat ?m < length es" "0 \<le> ?m" "l \<le> ?m" "?m \<le> r"
      using True "1.prems"(2,3) by auto
    note reads = offset_at_repr [OF repr m(1)] get_at_repr(1) [OF repr m(1)]
    have step: "Block_bound_search b p g l r =
        (if g (p (ekey (es ! nat ?m))) then Block_bound_search b p g l (?m - 1)
         else Block_bound_search b p g (?m + 1) r)"
      using True by (subst Block_bound_search.simps) (simp add: Let_def reads)
    note IH = "1.IH" [OF True refl reads]
    show ?thesis
    proof (cases "g (p (ekey (es ! nat ?m)))")
      case T: True
      have "g (p (ekey (es ! j)))" if "j < length es" "?m - 1 < int j" for j
        using mono [of "nat ?m" j] T that m(2) by simp
      then have "\<exists>q. Block_bound_search b p g l (?m - 1) = Inr (int q) \<and> l \<le> int q \<and>
          int q \<le> (?m - 1) + 1 \<and> (\<forall>j < length es. g (p (ekey (es ! j))) \<longleftrightarrow> q \<le> j)"
        using m "1.prems" by (intro IH(1) [OF T]) (auto intro: mono)
      then obtain q where "Block_bound_search b p g l (?m - 1) = Inr (int q)" "l \<le> int q"
          "int q \<le> ?m" "\<forall>j < length es. g (p (ekey (es ! j))) \<longleftrightarrow> q \<le> j"
        by auto
      with T step m(4) show ?thesis
        by (intro exI [of _ q]) simp
    next
      case F: False
      have "\<not> g (p (ekey (es ! j)))" if "j < length es" "int j < ?m + 1" for j
      proof -
        have "j \<le> nat ?m" using that(2) by linarith
        with mono [of j "nat ?m"] m(1) F show ?thesis by blast
      qed
      then have "\<exists>q. Block_bound_search b p g (?m + 1) r = Inr (int q) \<and> ?m + 1 \<le> int q \<and>
          int q \<le> r + 1 \<and> (\<forall>j < length es. g (p (ekey (es ! j))) \<longleftrightarrow> q \<le> j)"
        using m "1.prems" by (intro IH(2) [OF F]) (auto intro: mono)
      then obtain q where "Block_bound_search b p g (?m + 1) r = Inr (int q)" "?m + 1 \<le> int q"
          "int q \<le> r + 1" "\<forall>j < length es. g (p (ekey (es ! j))) \<longleftrightarrow> q \<le> j"
        by auto
      with F step m(3) show ?thesis
        by (intro exI [of _ q]) simp
    qed
  qed
qed

lemma falling_le:
  assumes "falling es p" and "i \<le> j" and "j < length es" and "p (ekey (es ! i)) \<le> 0"
  shows "p (ekey (es ! j)) \<le> 0"
proof -
  have "sgn (p (ekey (es ! j))) \<le> sgn (p (ekey (es ! i)))"
    using assms(1-3) unfolding falling_def by blast
  with assms(4) show ?thesis by (auto simp: sgn_if split: if_splits)
qed

lemma falling_less:
  assumes "falling es p" and "i \<le> j" and "j < length es" and "p (ekey (es ! i)) < 0"
  shows "p (ekey (es ! j)) < 0"
proof -
  have "sgn (p (ekey (es ! j))) \<le> sgn (p (ekey (es ! i)))"
    using assms(1-3) unfolding falling_def by blast
  with assms(4) show ?thesis by (auto simp: sgn_if split: if_splits)
qed

lemma zero_range:
  assumes f: "\<forall>j < length es. p (ekey (es ! j)) \<le> (0 :: int) \<longleftrightarrow> f \<le> j" and l: "\<forall>j < length es. p (ekey (es ! j)) < 0 \<longleftrightarrow> l \<le> j"
    and "l \<le> length es"
  shows "{i. i < length es \<and> p (ekey (es ! i)) = 0} = {f..<l}"
proof (intro set_eqI iffI; simp)
  fix i
  show "f \<le> i \<and> i < l" if "i < length es \<and> p (ekey (es ! i)) = 0"
  proof -
    have "p (ekey (es ! i)) \<le> 0" "\<not> p (ekey (es ! i)) < 0" using that by simp_all
    with that f l show ?thesis by (meson not_le)
  qed
  show "i < length es \<and> p (ekey (es ! i)) = 0" if "f \<le> i \<and> i < l"
  proof -
    have "i < length es" using that assms(3) by simp
    with that f l have "p (ekey (es ! i)) \<le> 0" "\<not> p (ekey (es ! i)) < 0" by auto
    with \<open>i < length es\<close> show ?thesis by simp
  qed
qed

lemma no_zero:
  assumes "falling es p" and f: "\<forall>j < length es. p (ekey (es ! j)) \<le> 0 \<longleftrightarrow> f \<le> j" and no: "\<not> (f < length es \<and> p (ekey (es ! f)) = 0)"
  shows "{i. i < length es \<and> p (ekey (es ! i)) = 0} = {}"
proof -
  have "p (ekey (es ! i)) \<noteq> 0" if i: "i < length es" for i
  proof
    assume "p (ekey (es ! i)) = 0"
    then have "f \<le> i" using f i by auto
    then have "f < length es" using i by simp
    then have "p (ekey (es ! f)) < 0" using no f by force
    from falling_less [OF assms(1) \<open>f \<le> i\<close> i this] \<open>p (ekey (es ! i)) = 0\<close> show False by simp
  qed
  then show ?thesis by blast
qed

text \<open>
  C34: for a predicate that falls along the entries, the two binary searches of
  \<^verbatim>\<open>get_monotony_predicate_iters\<close> delimit exactly the entries it accepts: the range is
  \<^verbatim>\<open>nullopt\<close> when there are none and otherwise the half-open interval of all of them.
\<close>

theorem predicate_range_correct:
  assumes "block_repr b es" and "falling es p"
  shows "\<exists>range. Block_predicate_range b p = Inr range \<and>
    {i. i < length es \<and> p (ekey (es ! i)) = 0} =
      (case range of None \<Rightarrow> {} | Some (first, stop) \<Rightarrow> {first..<stop}) \<and>
    (\<forall>first stop. range = Some (first, stop) \<longrightarrow> first < stop)"
proof (cases "es = []")
  case True
  with assms(1) show ?thesis
    by (simp add: Block_predicate_range_def block_repr_def)
next
  case False
  then have "offsets b \<noteq> []"
    using assms(1) by (auto simp: block_repr_def)
  let ?top = "int (length es) - 1"
  obtain f where f: "Block_bound_search b p (\<lambda>d. d \<le> 0) 0 ?top = Inr (int f)" "int f \<le> ?top + 1"
    "\<forall>j < length es. p (ekey (es ! j)) \<le> 0 \<longleftrightarrow> f \<le> j"
    using bound_search_repr [OF assms(1), of 0 ?top "\<lambda>d. d \<le> 0" p] falling_le [OF assms(2)] by fastforce
  show ?thesis
  proof (cases "f < length es \<and> p (ekey (es ! f)) = 0")
    case True
    have low: "\<not> p (ekey (es ! j)) < 0" if "j < length es" "int j < int f" for j
      using f(3) that by force
    obtain l where l: "Block_bound_search b p (\<lambda>d. d < 0) (int f) ?top = Inr (int l)"
      "int f \<le> int l" "\<forall>j < length es. p (ekey (es ! j)) < 0 \<longleftrightarrow> l \<le> j" "int l \<le> ?top + 1"
      using bound_search_repr [OF assms(1), of "int f" ?top "\<lambda>d. d < 0" p]
        falling_less [OF assms(2)] low True by fastforce
    have "{i. i < length es \<and> p (ekey (es ! i)) = 0} = {f..<l}"
      using zero_range [OF f(3) l(3)] l(4) by simp
    moreover have "f < l"
      using l(2,3) True by (metis less_irrefl not_le)
    ultimately show ?thesis
      using f l True assms(1) \<open>offsets b \<noteq> []\<close>
      by (auto simp: Block_predicate_range_def block_reads Let_def)
  next
    case F: False
    have "{i. i < length es \<and> p (ekey (es ! i)) = 0} = {}" by (rule no_zero [OF assms(2) f(3) F])
    with F f \<open>offsets b \<noteq> []\<close> assms(1) show ?thesis
      by (auto simp: Block_predicate_range_def block_reads Let_def)
  qed
qed

lemma take_mono_lex: "(a :: string) \<le> b \<Longrightarrow> take n a \<le> take n b"
proof (induction n arbitrary: a b)
  case 0
  show ?case by simp
next
  case (Suc n)
  then show ?case
    by (cases a; cases b) auto
qed

lemma prefix_direction_zero: "prefix_direction p k = 0 \<longleftrightarrow> take (length p) k = p"
  by (simp add: prefix_direction_def)

lemma prefix_direction_falling:
  assumes "sorted_entries es"
  shows "falling es (prefix_direction p)"
proof -
  have "sgn (prefix_direction p (ekey (es ! j))) \<le> sgn (prefix_direction p (ekey (es ! i)))"
    if "j < length es" "i \<le> j" for i j
  proof -
    have "take (length p) (ekey (es ! i)) \<le> take (length p) (ekey (es ! j))"
      using that assms by (intro take_mono_lex sorted_keys_nth)
    then show ?thesis
      by (auto simp: prefix_direction_def str_compare_def)
  qed
  then show ?thesis by (simp add: falling_def)
qed

theorem predicate_range_correct_witness:
  "\<exists>range. Block_predicate_range \<lparr>data = entry_bytes \<lparr>ekey = ''ab'', evalue = ''v'', etranc = 7\<rparr>,
       offsets = [0], capacity = 99\<rparr> (prefix_direction ''a'') = Inr range \<and> range \<noteq> None"
proof -
  let ?e = "\<lparr>ekey = ''ab'', evalue = ''v'', etranc = 7\<rparr>"
  have "block_repr \<lparr>data = entry_bytes ?e, offsets = [0], capacity = 99\<rparr> [?e]"
    by (simp add: block_repr_def small_entry_def entry_off_def)
  moreover have "falling [?e] (prefix_direction ''a'')"
    by (intro prefix_direction_falling) (simp add: sorted_entries_def)
  moreover have "0 \<in> {i. i < length [?e] \<and> prefix_direction ''a'' (ekey ([?e] ! i)) = 0}"
    by (simp add: prefix_direction_zero)
  moreover obtain range where "Block_predicate_range \<lparr>data = entry_bytes ?e, offsets = [0], capacity = 99\<rparr>
      (prefix_direction ''a'') = Inr range"
    and "{i. i < length [?e] \<and> prefix_direction ''a'' (ekey ([?e] ! i)) = 0} =
      (case range of None \<Rightarrow> {} | Some (first, stop) \<Rightarrow> {first..<stop})"
    using predicate_range_correct [OF calculation(1,2)] by blast
  ultimately show ?thesis
    by (cases range) (auto dest: spec [of _ 0])
qed

end
