(* ===== verification/IteratorSpec.thy ===== *)
theory IteratorSpec
  imports Prelude
begin

text \<open>
  The contract of the iterators (\<^verbatim>\<open>BaseIterator\<close> of \<^verbatim>\<open>include/iterator/iterator.h\<close> and the
  iterator classes with the same operations): an iterator stands for the list of the elements it
  still has to deliver, \<^verbatim>\<open>is_end\<close> tells whether that list is empty, \<^verbatim>\<open>operator*\<close> delivers its head
  and \<^verbatim>\<open>operator++\<close> moves to its tail. The components interpret the locale for their iterators.
\<close>

text \<open>The loop of every client: read and advance until the end, at most \<open>n\<close> times.\<close>

primrec drain ::
  "('s \<Rightarrow> bool result) \<Rightarrow> ('s \<Rightarrow> ('e \<times> 's) result) \<Rightarrow> ('s \<Rightarrow> 's result) \<Rightarrow> nat \<Rightarrow> 's \<Rightarrow> 'e list result"
where
  "drain at_end deref advance 0 s = Inr []"
| "drain at_end deref advance (Suc n) s =
     bindE (at_end s) (\<lambda>e.
       if e then Inr []
       else bindE (deref s) (\<lambda>(x, s').
            bindE (advance s') (\<lambda>s''.
            bindE (drain at_end deref advance n s'') (\<lambda>xs. Inr (x # xs)))))"

locale list_iterator =
  fixes inv :: "'s \<Rightarrow> bool"
    and rest :: "'s \<Rightarrow> 'e list"
    and at_end :: "'s \<Rightarrow> bool result"
    and deref :: "'s \<Rightarrow> ('e \<times> 's) result"
    and advance :: "'s \<Rightarrow> 's result"
  assumes at_end: "inv s \<Longrightarrow> at_end s = Inr (rest s = [])"
    and deref: "inv s \<Longrightarrow> rest s \<noteq> [] \<Longrightarrow>
      \<exists>s'. deref s = Inr (hd (rest s), s') \<and> inv s' \<and> rest s' = rest s"
    and advance: "inv s \<Longrightarrow> rest s \<noteq> [] \<Longrightarrow>
      \<exists>s'. advance s = Inr s' \<and> inv s' \<and> rest s' = tl (rest s)"
begin

lemma drain_rest: "inv s \<Longrightarrow> drain at_end deref advance n s = Inr (take n (rest s))"
proof (induction n arbitrary: s)
  case 0
  show ?case by simp
next
  case (Suc n)
  show ?case
  proof (cases "rest s")
    case Nil
    with Suc.prems at_end [of s] show ?thesis by simp
  next
    case (Cons x xs)
    obtain s1 where "deref s = Inr (x, s1)" "inv s1" "rest s1 = rest s"
      using deref [of s] Suc.prems Cons by auto
    moreover obtain s2 where "advance s1 = Inr s2" "inv s2" "rest s2 = tl (rest s1)"
      using advance [of s1] calculation Cons by auto
    ultimately show ?thesis
      using Suc.IH [of s2] at_end [of s] Suc.prems Cons by simp
  qed
qed

lemma drain_all: "inv s \<Longrightarrow> length (rest s) \<le> n \<Longrightarrow> drain at_end deref advance n s = Inr (rest s)"
  by (simp add: drain_rest)

end

end
