(* ===== verification/BlockIterator.thy ===== *)
theory BlockIterator
  imports Block IteratorSpec
begin

text \<open>
  \<^verbatim>\<open>BlockIterator\<close> (\<^verbatim>\<open>src/block/block_iterator.cpp\<close>) and the operations of \<^verbatim>\<open>Block\<close> that return
  iterators. A \<^verbatim>\<open>shared_ptr<Block>\<close> is the address of the block with its (immutable) content; the
  cached key and value are part of the state, as \<^verbatim>\<open>operator*\<close> may return them instead of reading
  the block.

  The iterator delivers, for every key of a sorted block, the newest version the reader may see
  (or every visible version when \<^verbatim>\<open>keep_all_versions\<close> is set): \<open>block_versions\<close>.
\<close>

section \<open>The iterator\<close>

record block_iter =
  it_block :: "(nat \<times> block) option"
  current_index :: nat
  it_tranc_id :: u64
  cached_value :: "(string \<times> string) option"
  keep_all_versions :: bool

function skip_invisible :: "block \<Rightarrow> u64 \<Rightarrow> nat \<Rightarrow> nat result" where
  "skip_invisible b tid i =
     (if i < length (offsets b) then
        bindE (Block_get_offset_at b i) (\<lambda>offset.
        bindE (Block_get_tranc_id_at b offset) (\<lambda>tranc_id.
          if tranc_id \<le> tid then Inr i else skip_invisible b tid (Suc i)))
      else Inr i)"
  by pat_completeness auto
termination
  by (relation "measure (\<lambda>(b, t, i). length (offsets b) - i)") auto

definition BlockIterator_skip_by_tranc_id :: "block_iter \<Rightarrow> block_iter result" where
  "BlockIterator_skip_by_tranc_id it =
     (if it_tranc_id it = 0 then Inr (it\<lparr>cached_value := None\<rparr>)
      else case it_block it of
        None \<Rightarrow> Inl Undefined_behaviour
      | Some (ptr, b) \<Rightarrow>
          bindE (skip_invisible b (it_tranc_id it) (current_index it)) (\<lambda>i.
            Inr (it\<lparr>current_index := i, cached_value := None\<rparr>)))"

definition BlockIterator_new :: "nat \<times> block \<Rightarrow> nat \<Rightarrow> u64 \<Rightarrow> bool \<Rightarrow> block_iter result" where
  "BlockIterator_new b index tranc_id keep =
     BlockIterator_skip_by_tranc_id
       \<lparr>it_block = Some b, current_index = index, it_tranc_id = tranc_id, cached_value = None,
        keep_all_versions = keep\<rparr>"

definition BlockIterator_new_key :: "nat \<times> block \<Rightarrow> string \<Rightarrow> u64 \<Rightarrow> bool \<Rightarrow> block_iter result" where
  "BlockIterator_new_key b key tranc_id keep =
     bindE (Block_get_idx_binary (snd b) key tranc_id) (\<lambda>key_idx_ops.
       Inr \<lparr>it_block = Some b,
            current_index = (case key_idx_ops of Some i \<Rightarrow> i | None \<Rightarrow> length (offsets (snd b))),
            it_tranc_id = tranc_id, cached_value = None, keep_all_versions = keep\<rparr>)"

definition BlockIterator_default :: block_iter where
  "BlockIterator_default = \<lparr>it_block = None, current_index = 0, it_tranc_id = 0,
     cached_value = None, keep_all_versions = False\<rparr>"

function skip_same_key :: "block \<Rightarrow> string \<Rightarrow> nat \<Rightarrow> nat result" where
  "skip_same_key b prev_key i =
     (if i < Block_size b then
        bindE (Block_get_offset_at b i) (\<lambda>cur_offset.
        bindE (Block_get_entry_at b cur_offset) (\<lambda>cur_entry.
          if ekey cur_entry \<noteq> prev_key then Inr i else skip_same_key b prev_key (Suc i)))
      else Inr i)"
  by pat_completeness auto
termination
  by (relation "measure (\<lambda>(b, k, i). length (offsets b) - i)") (auto simp: Block_size_def)

definition BlockIterator_incr :: "block_iter \<Rightarrow> block_iter result" where
  "BlockIterator_incr it =
     (case it_block it of
        None \<Rightarrow> Inr it
      | Some (ptr, b) \<Rightarrow>
          if current_index it < Block_size b then
            bindE (Block_get_offset_at b (current_index it)) (\<lambda>prev_offset.
            bindE (Block_get_entry_at b prev_offset) (\<lambda>prev_entry.
            bindE (if keep_all_versions it then Inr (current_index it + 1)
                   else skip_same_key b (ekey prev_entry) (current_index it + 1)) (\<lambda>i.
              BlockIterator_skip_by_tranc_id (it\<lparr>current_index := i\<rparr>))))
          else Inr it)"

definition BlockIterator_eq :: "block_iter \<Rightarrow> block_iter \<Rightarrow> bool" where
  "BlockIterator_eq x y =
     (case (it_block x, it_block y) of
        (None, None) \<Rightarrow> True
      | (Some (p, _), Some (q, _)) \<Rightarrow> p = q \<and> current_index x = current_index y
      | _ \<Rightarrow> False)"

definition read_pair :: "block \<Rightarrow> nat \<Rightarrow> (string \<times> string) result" where
  "read_pair b i =
     bindE (Block_get_offset_at b i) (\<lambda>offset.
     bindE (Block_get_key_at b offset) (\<lambda>k.
     bindE (Block_get_value_at b offset) (\<lambda>v. Inr (k, v))))"

definition BlockIterator_deref :: "block_iter \<Rightarrow> ((string \<times> string) \<times> block_iter) result" where
  "BlockIterator_deref it =
     (case it_block it of
        None \<Rightarrow> Inl (Out_of_range ''Iterator out of range'')
      | Some (ptr, b) \<Rightarrow>
          if Block_size b \<le> current_index it then Inl (Out_of_range ''Iterator out of range'')
          else case cached_value it of
            Some kv \<Rightarrow> Inr (kv, it)
          | None \<Rightarrow> bindE (read_pair b (current_index it)) (\<lambda>kv.
                      Inr (kv, it\<lparr>cached_value := Some kv\<rparr>)))"

definition BlockIterator_update_current :: "block_iter \<Rightarrow> block_iter result" where
  "BlockIterator_update_current it =
     (case cached_value it of
        Some _ \<Rightarrow> Inr it
      | None \<Rightarrow>
          (case it_block it of
             None \<Rightarrow> Inl Undefined_behaviour
           | Some (ptr, b) \<Rightarrow>
               if current_index it < length (offsets b)
               then bindE (read_pair b (current_index it)) (\<lambda>kv. Inr (it\<lparr>cached_value := Some kv\<rparr>))
               else Inr it))"

definition BlockIterator_arrow :: "block_iter \<Rightarrow> ((string \<times> string) \<times> block_iter) result" where
  "BlockIterator_arrow it =
     bindE (BlockIterator_update_current it) (\<lambda>it'.
       case cached_value it' of None \<Rightarrow> Inl Undefined_behaviour | Some kv \<Rightarrow> Inr (kv, it'))"

definition BlockIterator_is_end :: "block_iter \<Rightarrow> bool result" where
  "BlockIterator_is_end it =
     (case it_block it of
        None \<Rightarrow> Inl Undefined_behaviour
      | Some (ptr, b) \<Rightarrow> Inr (current_index it = length (offsets b)))"

definition BlockIterator_get_cur_tranc_id :: "block_iter \<Rightarrow> u64 result" where
  "BlockIterator_get_cur_tranc_id it =
     (case it_block it of
        None \<Rightarrow> Inr 0
      | Some (ptr, b) \<Rightarrow>
          if length (offsets b) \<le> current_index it then Inr 0
          else bindE (Block_get_offset_at b (current_index it)) (Block_get_tranc_id_at b))"

section \<open>Blocks returning iterators\<close>

definition Block_begin :: "nat \<times> block \<Rightarrow> u64 \<Rightarrow> block_iter result" where
  "Block_begin b tranc_id = BlockIterator_new b 0 tranc_id False"

definition Block_end :: "nat \<times> block \<Rightarrow> block_iter result" where
  "Block_end b = BlockIterator_new b (length (offsets (snd b))) 0 False"

definition Block_get_monotony_predicate_iters ::
  "nat \<times> block \<Rightarrow> u64 \<Rightarrow> (string \<Rightarrow> int) \<Rightarrow> (block_iter \<times> block_iter) option result" where
  "Block_get_monotony_predicate_iters b tranc_id predicate =
     bindE (Block_predicate_range (snd b) predicate) (\<lambda>range.
       case range of
         None \<Rightarrow> Inr None
       | Some (first, stop) \<Rightarrow>
           bindE (BlockIterator_new b first tranc_id False) (\<lambda>it_begin.
           bindE (BlockIterator_new b stop tranc_id False) (\<lambda>it_end.
             Inr (Some (it_begin, it_end)))))"

definition Block_iters_preffix ::
  "nat \<times> block \<Rightarrow> u64 \<Rightarrow> string \<Rightarrow> (block_iter \<times> block_iter) option result" where
  "Block_iters_preffix b tranc_id preffix =
     Block_get_monotony_predicate_iters b tranc_id (prefix_direction preffix)"

declare skip_invisible.simps [simp del] skip_same_key.simps [simp del]

section \<open>What the iterator delivers\<close>

declare length_dropWhile_le [termination_simp]

fun first_versions :: "entry list \<Rightarrow> entry list" where
  "first_versions [] = []"
| "first_versions (e # es) = e # first_versions (dropWhile (\<lambda>x. ekey x = ekey e) es)"

definition block_versions :: "bool \<Rightarrow> u64 \<Rightarrow> entry list \<Rightarrow> entry list" where
  "block_versions keep tid es =
     (if keep then filter (visible tid) es else first_versions (filter (visible tid) es))"

lemma skip_invisible_repr:
  assumes "block_repr b es" and "i \<le> length es" and "tid \<noteq> 0"
  shows "\<exists>j. skip_invisible b tid i = Inr j \<and> i \<le> j \<and> j \<le> length es \<and>
    drop j es = dropWhile (\<lambda>e. \<not> visible tid e) (drop i es)"
  using assms(2)
proof (induction "length es - i" arbitrary: i)
  case 0
  then show ?case
    using assms(1) by (simp add: skip_invisible.simps block_reads)
next
  case (Suc d)
  then have i: "i < length es" by simp
  have step: "skip_invisible b tid i = (if etranc (es ! i) \<le> tid then Inr i else skip_invisible b tid (Suc i))"
    using i assms(1) by (subst skip_invisible.simps) (simp add: block_reads)
  note split = Cons_nth_drop_Suc [OF i, symmetric]
  show ?case
  proof (cases "etranc (es ! i) \<le> tid")
    case True
    with i step assms(3) show ?thesis
      by (intro exI [of _ i]) (simp add: split visible_def)
  next
    case False
    have "d = length es - Suc i" "Suc i \<le> length es"
      using Suc.hyps(2) i by simp_all
    from Suc.hyps(1) [OF this] obtain j where "skip_invisible b tid (Suc i) = Inr j" "Suc i \<le> j"
        "j \<le> length es" "drop j es = dropWhile (\<lambda>e. \<not> visible tid e) (drop (Suc i) es)"
      by blast
    with False assms(3) step show ?thesis
      by (intro exI [of _ j]) (simp add: split visible_def)
  qed
qed

lemma skip_same_key_repr:
  assumes "block_repr b es" and "i \<le> length es"
  shows "\<exists>j. skip_same_key b k i = Inr j \<and> i \<le> j \<and> j \<le> length es \<and>
    drop j es = dropWhile (\<lambda>e. ekey e = k) (drop i es)"
  using assms(2)
proof (induction "length es - i" arbitrary: i)
  case 0
  then show ?case
    using assms(1) by (simp add: skip_same_key.simps Block_size_def block_reads)
next
  case (Suc d)
  then have i: "i < length es" by simp
  have step: "skip_same_key b k i = (if ekey (es ! i) \<noteq> k then Inr i else skip_same_key b k (Suc i))"
    using i assms(1) by (subst skip_same_key.simps) (simp add: block_reads Block_size_def)
  note split = Cons_nth_drop_Suc [OF i, symmetric]
  show ?case
  proof (cases "ekey (es ! i) = k")
    case False
    with i step show ?thesis
      by (intro exI [of _ i]) (simp add: split)
  next
    case True
    have "d = length es - Suc i" "Suc i \<le> length es"
      using Suc.hyps(2) i by simp_all
    from Suc.hyps(1) [OF this] obtain j where "skip_same_key b k (Suc i) = Inr j" "Suc i \<le> j"
        "j \<le> length es" "drop j es = dropWhile (\<lambda>e. ekey e = k) (drop (Suc i) es)"
      by blast
    with True step show ?thesis
      by (intro exI [of _ j]) (simp add: split)
  qed
qed

lemma filter_dropWhile_not: "filter P (dropWhile (\<lambda>x. \<not> P x) xs) = filter P xs"
  by (induction xs) auto

lemma dropWhile_none: "(\<And>x. x \<in> set xs \<Longrightarrow> \<not> P x) \<Longrightarrow> dropWhile P xs = xs"
  by (cases xs) simp_all

lemma visible_zero [simp]: "visible 0 e"
  by (simp add: visible_def)

lemma dropWhile_same_filter:
  assumes "sorted_entries (e # es)"
  shows "dropWhile (\<lambda>x. ekey x = ekey e) (filter P es) = filter P (dropWhile (\<lambda>x. ekey x = ekey e) es)"
proof -
  let ?same = "\<lambda>x. ekey x = ekey e"
  have none: "\<not> ?same x" if "x \<in> set (dropWhile ?same es)" for x
  proof (cases "dropWhile ?same es")
    case (Cons y ys)
    have "sorted_wrt entry_le (dropWhile ?same es)"
      using assms by (simp add: sorted_entries_def sorted_wrt_dropWhile)
    then have "ekey y \<le> ekey x"
      using that Cons by (auto simp: entry_le_def)
    moreover have "\<not> ?same y"
      using hd_dropWhile [of ?same es] Cons by simp
    moreover have "y \<in> set es"
      using set_dropWhileD [of y ?same es] Cons by simp
    then have "ekey e \<le> ekey y"
      using assms by (auto simp: sorted_entries_def entry_le_def)
    ultimately show ?thesis by auto
  next
    case Nil
    with that show ?thesis by (simp only: list.set empty_iff)
  qed
  have "dropWhile ?same (filter P es) =
      dropWhile ?same (filter P (takeWhile ?same es) @ filter P (dropWhile ?same es))"
    by (metis filter_append takeWhile_dropWhile_id)
  also have "\<dots> = dropWhile ?same (filter P (dropWhile ?same es))"
    by (intro dropWhile_append2) (auto dest: set_takeWhileD)
  also have "\<dots> = filter P (dropWhile ?same es)"
    by (intro dropWhile_none) (metis none filter_is_subset subsetD)
  finally show ?thesis .
qed

lemma block_versions_Cons:
  assumes "sorted_entries (e # es)" and "visible tid e"
  shows "block_versions keep tid (e # es) =
    e # block_versions keep tid (if keep then es else dropWhile (\<lambda>x. ekey x = ekey e) es)"
  using assms by (simp add: block_versions_def dropWhile_same_filter)

lemma block_versions_skip:
  "block_versions keep tid (dropWhile (\<lambda>e. \<not> visible tid e) es) = block_versions keep tid es"
  by (simp add: block_versions_def filter_dropWhile_not)

lemma block_versions_Nil [simp]: "block_versions keep tid [] = []"
  by (simp add: block_versions_def)

definition pair_of :: "entry \<Rightarrow> string \<times> string" where
  "pair_of e = (ekey e, evalue e)"

definition block_iter_inv :: "nat \<times> block \<Rightarrow> entry list \<Rightarrow> block_iter \<Rightarrow> bool" where
  "block_iter_inv pb es it \<longleftrightarrow>
     block_repr (snd pb) es \<and> sorted_entries es \<and> it_block it = Some pb \<and>
     current_index it \<le> length es \<and>
     (current_index it < length es \<longrightarrow>
        visible (it_tranc_id it) (es ! current_index it) \<and>
        cached_value it \<in> {None, Some (pair_of (es ! current_index it))})"

definition block_iter_entries :: "entry list \<Rightarrow> block_iter \<Rightarrow> entry list" where
  "block_iter_entries es it =
     block_versions (keep_all_versions it) (it_tranc_id it) (drop (current_index it) es)"

definition block_iter_rest :: "entry list \<Rightarrow> block_iter \<Rightarrow> (string \<times> string) list" where
  "block_iter_rest es it =
     map pair_of (block_versions (keep_all_versions it) (it_tranc_id it) (drop (current_index it) es))"

lemma block_iter_rest_empty:
  assumes "block_iter_inv pb es it"
  shows "block_iter_rest es it = [] \<longleftrightarrow> current_index it = length es"
proof (cases "current_index it < length es")
  case True
  then have "drop (current_index it) es = es ! current_index it # drop (Suc (current_index it)) es"
    by (simp add: Cons_nth_drop_Suc)
  with assms True show ?thesis
    by (auto simp: block_iter_rest_def block_versions_def block_iter_inv_def)
next
  case False
  with assms show ?thesis
    by (simp add: block_iter_rest_def block_iter_inv_def)
qed

lemma dropWhile_drop_visible:
  assumes "drop j es = dropWhile (\<lambda>e. \<not> P e) xs" and "j < length es"
  shows "P (es ! j)"
  using assms by (metis Cons_nth_drop_Suc hd_dropWhile list.distinct(1) list.sel(1))

text \<open>\<^verbatim>\<open>skip_by_tranc_id\<close> moves to the next visible entry: it establishes the invariant.\<close>

lemma skip_by_tranc_id_inv:
  assumes "block_repr b es" and "sorted_entries es" and "it_block it = Some (ptr, b)"
    and "current_index it \<le> length es"
  shows "\<exists>it'. BlockIterator_skip_by_tranc_id it = Inr it' \<and> block_iter_inv (ptr, b) es it' \<and>
    keep_all_versions it' = keep_all_versions it \<and> it_tranc_id it' = it_tranc_id it \<and>
    cached_value it' = None \<and> block_iter_rest es it' = block_iter_rest es it \<and>
    block_iter_entries es it' = block_iter_entries es it \<and>
    drop (current_index it') es = dropWhile (\<lambda>e. \<not> visible (it_tranc_id it) e) (drop (current_index it) es)"
proof (cases "it_tranc_id it = 0")
  case True
  with assms show ?thesis
    by (auto simp: BlockIterator_skip_by_tranc_id_def block_iter_inv_def block_iter_rest_def block_iter_entries_def
        dropWhile_none)
next
  case False
  let ?t = "it_tranc_id it"
  obtain j where j: "skip_invisible b ?t (current_index it) = Inr j" "j \<le> length es"
    "drop j es = dropWhile (\<lambda>e. \<not> visible ?t e) (drop (current_index it) es)"
    using skip_invisible_repr [OF assms(1,4) False] by blast
  have "block_iter_inv (ptr, b) es (it\<lparr>current_index := j, cached_value := None\<rparr>)"
    using assms j dropWhile_drop_visible [OF j(3)] by (simp add: block_iter_inv_def)
  with False assms(3) j show ?thesis
    by (simp add: BlockIterator_skip_by_tranc_id_def block_iter_rest_def block_iter_entries_def block_versions_skip)
qed

lemma sorted_entries_drop: "sorted_entries es \<Longrightarrow> sorted_entries (drop n es)"
  by (simp add: sorted_entries_def sorted_wrt_drop)

lemma block_iter_incr:
  assumes "block_iter_inv pb es it" and "current_index it < length es"
  shows "\<exists>it'. BlockIterator_incr it = Inr it' \<and> block_iter_inv pb es it' \<and>
    block_iter_rest es it' = tl (block_iter_rest es it) \<and>
    block_iter_entries es it' = tl (block_iter_entries es it) \<and>
    keep_all_versions it' = keep_all_versions it \<and> it_tranc_id it' = it_tranc_id it"
proof -
  obtain ptr b where pb: "pb = (ptr, b)" by (cases pb)
  let ?i = "current_index it" and ?e = "es ! current_index it" and ?k = "keep_all_versions it"
  have repr: "block_repr b es" and sorted: "sorted_entries es" and blk: "it_block it = Some (ptr, b)"
    and vis: "visible (it_tranc_id it) ?e"
    using assms by (simp_all add: block_iter_inv_def pb)
  have drop_i: "drop ?i es = ?e # drop (Suc ?i) es"
    using assms(2) by (simp add: Cons_nth_drop_Suc)
  have rest: "block_versions ?k (it_tranc_id it) (drop ?i es) = ?e # block_versions ?k (it_tranc_id it)
      (if ?k then drop (Suc ?i) es else dropWhile (\<lambda>x. ekey x = ekey ?e) (drop (Suc ?i) es))"
    using block_versions_Cons [of ?e "drop (Suc ?i) es"] sorted_entries_drop [OF sorted, of ?i] vis
    by (simp add: drop_i)
  obtain j where j: "(if ?k then Inr (Suc ?i) else skip_same_key b (ekey ?e) (Suc ?i)) = Inr j"
    "j \<le> length es" "drop j es = (if ?k then drop (Suc ?i) es
       else dropWhile (\<lambda>x. ekey x = ekey ?e) (drop (Suc ?i) es))"
    using skip_same_key_repr [OF repr, of "Suc ?i" "ekey ?e"] assms(2) by (cases ?k) auto
  have "BlockIterator_incr it = BlockIterator_skip_by_tranc_id (it\<lparr>current_index := j\<rparr>)"
    using blk repr assms(2) j(1)
    by (simp add: BlockIterator_incr_def Block_size_def block_reads split: if_splits)
  moreover have "block_iter_rest es (it\<lparr>current_index := j\<rparr>) = tl (block_iter_rest es it)"
    "block_iter_entries es (it\<lparr>current_index := j\<rparr>) = tl (block_iter_entries es it)"
    using rest j(3) by (simp_all add: block_iter_rest_def block_iter_entries_def)
  ultimately show ?thesis
    using skip_by_tranc_id_inv [OF repr sorted, of "it\<lparr>current_index := j\<rparr>" ptr] blk j(2) pb by auto
qed

lemma read_pair_repr: "block_repr b es \<Longrightarrow> i < length es \<Longrightarrow> read_pair b i = Inr (pair_of (es ! i))"
  by (simp add: read_pair_def block_reads pair_of_def)

lemma block_iter_rest_hd:
  assumes "block_iter_inv pb es it" and "current_index it < length es"
  shows "hd (block_iter_rest es it) = pair_of (es ! current_index it)"
proof -
  have "drop (current_index it) es = es ! current_index it # drop (Suc (current_index it)) es"
    using assms(2) by (simp add: Cons_nth_drop_Suc)
  moreover have "sorted_entries (drop (current_index it) es)"
    using assms(1) by (simp add: block_iter_inv_def sorted_entries_drop)
  ultimately show ?thesis
    using assms by (simp add: block_iter_rest_def block_iter_inv_def block_versions_Cons)
qed

lemma block_iter_deref:
  assumes "block_iter_inv pb es it" and "current_index it < length es"
  shows "\<exists>it'. BlockIterator_deref it = Inr (pair_of (es ! current_index it), it') \<and>
    block_iter_inv pb es it' \<and> block_iter_rest es it' = block_iter_rest es it \<and>
    current_index it' = current_index it \<and> keep_all_versions it' = keep_all_versions it \<and>
    it_tranc_id it' = it_tranc_id it"
proof -
  have "Block_size (snd pb) = length es" "it_block it = Some pb"
    "read_pair (snd pb) (current_index it) = Inr (pair_of (es ! current_index it))"
    using assms by (auto simp: block_iter_inv_def Block_size_def block_reads intro: read_pair_repr)
  then show ?thesis
    using assms by (cases "cached_value it"; cases pb)
      (auto simp: BlockIterator_deref_def block_iter_inv_def block_iter_rest_def)
qed

interpretation bi: list_iterator "block_iter_inv pb es" "block_iter_rest es"
  BlockIterator_is_end BlockIterator_deref BlockIterator_incr for pb es
proof unfold_locales
  fix it assume inv: "block_iter_inv pb es it"
  then show "BlockIterator_is_end it = Inr (block_iter_rest es it = [])"
    using block_iter_rest_empty [OF inv]
    by (cases pb) (auto simp: BlockIterator_is_end_def block_iter_inv_def block_reads)
  assume "block_iter_rest es it \<noteq> []"
  then have i: "current_index it < length es"
    using block_iter_rest_empty [OF inv] inv by (simp add: block_iter_inv_def)
  show "\<exists>s'. BlockIterator_deref it = Inr (hd (block_iter_rest es it), s') \<and> block_iter_inv pb es s' \<and>
      block_iter_rest es s' = block_iter_rest es it"
    using block_iter_deref [OF inv i] block_iter_rest_hd [OF inv i] by auto
  show "\<exists>s'. BlockIterator_incr it = Inr s' \<and> block_iter_inv pb es s' \<and>
      block_iter_rest es s' = tl (block_iter_rest es it)"
    using block_iter_incr [OF inv i] by blast
qed

text \<open>
  C33: a loop over a sorted block from \<^verbatim>\<open>begin(tranc_id)\<close> to the end delivers, in key order, the newest
  visible version of every key and nothing else; it ends after at most as many steps as the block
  has entries.
\<close>

theorem block_iteration_correct:
  assumes "block_repr b es" and "sorted_entries es"
  shows "bindE (Block_begin (ptr, b) tid)
      (drain BlockIterator_is_end BlockIterator_deref BlockIterator_incr (length es)) =
    Inr (map pair_of (first_versions (filter (visible tid) es)))"
proof -
  let ?it = "\<lparr>it_block = Some (ptr, b), current_index = 0, it_tranc_id = tid, cached_value = None,
    keep_all_versions = False\<rparr>"
  obtain it where it: "Block_begin (ptr, b) tid = Inr it" "block_iter_inv (ptr, b) es it"
    "block_iter_rest es it = block_iter_rest es ?it"
    using skip_by_tranc_id_inv [OF assms, of ?it ptr]
    by (auto simp: Block_begin_def BlockIterator_new_def)
  have "length (first_versions xs) \<le> length xs" for xs
    by (induction xs rule: first_versions.induct) (auto intro: order_trans [OF _ length_dropWhile_le])
  then have "length (first_versions (filter (visible tid) es)) \<le> length es"
    by (meson length_filter_le order_trans)
  moreover have "block_iter_rest es it = map pair_of (first_versions (filter (visible tid) es))"
    using it(3) by (simp add: block_iter_rest_def block_versions_def)
  ultimately show ?thesis
    using bi.drain_all [OF it(2)] it(1) by simp
qed

theorem block_iteration_correct_witness:
  "bindE (Block_begin (5, \<lparr>data = entry_bytes \<lparr>ekey = ''a'', evalue = ''v'', etranc = 7\<rparr>,
       offsets = [0], capacity = 99\<rparr>) 9)
     (drain BlockIterator_is_end BlockIterator_deref BlockIterator_incr 1) = Inr [(''a'', ''v'')]"
proof -
  let ?e = "\<lparr>ekey = ''a'', evalue = ''v'', etranc = 7\<rparr>"
  have "block_repr \<lparr>data = entry_bytes ?e, offsets = [0], capacity = 99\<rparr> [?e]"
    by (simp add: block_repr_def small_entry_def entry_off_def)
  moreover have "sorted_entries [?e]"
    by (simp add: sorted_entries_def)
  ultimately show ?thesis
    using block_iteration_correct [of _ "[?e]" 5 9] by (simp add: visible_def pair_of_def)
qed

section \<open>Iterators over the matches of a predicate\<close>

lemma BlockIterator_new_inv:
  assumes "block_repr b es" and "sorted_entries es" and "i \<le> length es"
  shows "\<exists>it. BlockIterator_new (ptr, b) i tid keep = Inr it \<and> block_iter_inv (ptr, b) es it \<and>
    keep_all_versions it = keep \<and> it_tranc_id it = tid \<and>
    block_iter_rest es it = map pair_of (block_versions keep tid (drop i es)) \<and>
    drop (current_index it) es = dropWhile (\<lambda>e. \<not> visible tid e) (drop i es)"
proof -
  let ?it = "\<lparr>it_block = Some (ptr, b), current_index = i, it_tranc_id = tid, cached_value = None,
    keep_all_versions = keep\<rparr>"
  show ?thesis
    using skip_by_tranc_id_inv [OF assms(1,2), of ?it ptr] assms(3)
    by (auto simp: BlockIterator_new_def block_iter_rest_def)
qed

text \<open>The constructor by key stands on the newest visible version of the key, or at the end.\<close>

lemma BlockIterator_new_key_inv:
  assumes "block_repr b es" and "sorted_entries es"
  shows "\<exists>it. BlockIterator_new_key (ptr, b) key tid keep = Inr it \<and> block_iter_inv (ptr, b) es it \<and>
    keep_all_versions it = keep \<and> it_tranc_id it = tid \<and>
    current_index it = (case newest_visible es key tid of None \<Rightarrow> length es | Some i \<Rightarrow> i)"
  using assms newest_visible_nth [of es key tid]
  by (auto simp: BlockIterator_new_key_def get_idx_binary_repr block_iter_inv_def block_reads
      split: option.splits)

end
