(* ===== verification/BlockMeta.thy ===== *)
theory BlockMeta
  imports Block
begin

text \<open>
  The block index of an SST: \<^verbatim>\<open>BlockMeta\<close> of \<^verbatim>\<open>src/block/blockmeta.cpp\<close>. The encoder writes through
  a moving pointer into a vector it has resized; the decoder reads through a moving pointer and
  checks the hash at the end. Both are modelled on the buffer, the pointer being an offset into it.
  The lemmas show that the encoder never writes outside its buffer, fills it completely, and that
  the decoder inverts it and detects a hash that does not match.
\<close>

record block_meta =
  meta_offset :: nat
  first_key :: string
  last_key :: string

definition meta_size :: "block_meta \<Rightarrow> nat" where
  "meta_size m = 4 + 2 + length (first_key m) + 2 + length (last_key m)"

definition write_meta :: "block_meta \<Rightarrow> bytes \<times> nat \<Rightarrow> (bytes \<times> nat) result" where
  "write_meta m s =
     (let (buf, ptr) = s;
          first_key_len = of_nat (length (first_key m)) :: u16; fl = unat first_key_len;
          last_key_len = of_nat (length (last_key m)) :: u16; ll = unat last_key_len
      in bindE (memwrite buf ptr (u32_bytes (of_nat (meta_offset m)))) (\<lambda>buf.
         bindE (memwrite buf (ptr + 4) (u16_bytes first_key_len)) (\<lambda>buf.
         bindE (memwrite buf (ptr + 6) (str_bytes (take fl (first_key m)))) (\<lambda>buf.
         bindE (memwrite buf (ptr + 6 + fl) (u16_bytes last_key_len)) (\<lambda>buf.
         bindE (memwrite buf (ptr + 8 + fl) (str_bytes (take ll (last_key m)))) (\<lambda>buf.
           Inr (buf, ptr + 8 + fl + ll)))))))"

primrec write_metas :: "block_meta list \<Rightarrow> bytes \<times> nat \<Rightarrow> (bytes \<times> nat) result" where
  "write_metas [] s = Inr s"
| "write_metas (m # ms) s = bindE (write_meta m s) (write_metas ms)"

definition encode_meta_to_slice ::
  "(string \<Rightarrow> u64) \<Rightarrow> block_meta list \<Rightarrow> bytes \<Rightarrow> bytes result" where
  "encode_meta_to_slice h meta_entries metadata =
     (let num_entries = of_nat (length meta_entries) :: u32;
          total_size = 4 + sum_list (map meta_size meta_entries) + 4
      in bindE (memwrite (resize total_size metadata) 0 (u32_bytes num_entries)) (\<lambda>buf.
         bindE (write_metas meta_entries (buf, 4)) (\<lambda>(buf, ptr).
         bindE (memread buf 4 (ptr - 4)) (\<lambda>hashed.
           memwrite buf ptr (u32_bytes (hash32 h hashed))))))"

definition read_meta :: "bytes \<Rightarrow> nat \<Rightarrow> (block_meta \<times> nat) result" where
  "read_meta metadata ptr =
     bindE (read_u32 metadata ptr) (\<lambda>offset32.
     bindE (read_u16 metadata (ptr + 4)) (\<lambda>first_key_len.
     bindE (read_str metadata (ptr + 6) (unat first_key_len)) (\<lambda>fk.
     bindE (read_u16 metadata (ptr + 6 + unat first_key_len)) (\<lambda>last_key_len.
     bindE (read_str metadata (ptr + 8 + unat first_key_len) (unat last_key_len)) (\<lambda>lk.
       Inr (\<lparr>meta_offset = unat offset32, first_key = fk, last_key = lk\<rparr>,
            ptr + 8 + unat first_key_len + unat last_key_len))))))"

primrec read_metas :: "nat \<Rightarrow> bytes \<Rightarrow> nat \<Rightarrow> (block_meta list \<times> nat) result" where
  "read_metas 0 metadata ptr = Inr ([], ptr)"
| "read_metas (Suc n) metadata ptr =
     bindE (read_meta metadata ptr) (\<lambda>(m, ptr).
     bindE (read_metas n metadata ptr) (\<lambda>(ms, ptr). Inr (m # ms, ptr)))"

definition decode_meta_from_slice :: "(string \<Rightarrow> u64) \<Rightarrow> bytes \<Rightarrow> block_meta list result" where
  "decode_meta_from_slice h metadata =
     (if length metadata < 4 * 2 then Inl (Runtime_error ''Invalid metadata size'')
      else
        bindE (read_u32 metadata 0) (\<lambda>num_entries.
        bindE (read_metas (unat num_entries) metadata 4) (\<lambda>(meta_entries, ptr).
        bindE (read_u32 metadata ptr) (\<lambda>stored_hash.
        bindE (memread metadata 4 (ptr - 4)) (\<lambda>hashed.
          if stored_hash \<noteq> hash32 h hashed then Inl (Runtime_error ''Metadata hash mismatch'')
          else Inr meta_entries)))))"

section \<open>The format\<close>

definition small_meta :: "block_meta \<Rightarrow> bool" where
  "small_meta m \<longleftrightarrow> meta_offset m < 2 ^ 32 \<and> length (first_key m) < 2 ^ 16 \<and> length (last_key m) < 2 ^ 16"

definition meta_bytes :: "block_meta \<Rightarrow> bytes" where
  "meta_bytes m = u32_bytes (of_nat (meta_offset m)) @
     u16_bytes (of_nat (length (first_key m))) @ str_bytes (first_key m) @
     u16_bytes (of_nat (length (last_key m))) @ str_bytes (last_key m)"

definition metas_bytes :: "block_meta list \<Rightarrow> bytes" where
  "metas_bytes ms = concat (map meta_bytes ms)"

definition meta_format :: "(string \<Rightarrow> u64) \<Rightarrow> block_meta list \<Rightarrow> bytes" where
  "meta_format h ms = u32_bytes (of_nat (length ms)) @ metas_bytes ms @ u32_bytes (hash32 h (metas_bytes ms))"

lemma metas_bytes_simps [simp]:
  "metas_bytes [] = []" "metas_bytes (m # ms) = meta_bytes m @ metas_bytes ms"
  by (simp_all add: metas_bytes_def)

lemma length_meta_bytes [simp]: "length (meta_bytes m) = meta_size m"
  by (simp add: meta_bytes_def meta_size_def)

lemma length_metas_bytes [simp]: "length (metas_bytes ms) = sum_list (map meta_size ms)"
  by (induction ms) simp_all

lemma write_meta_here:
  assumes "small_meta m" and "meta_size m \<le> length rest" and "ptr = length pre"
  shows "write_meta m (pre @ rest, ptr) =
    Inr (pre @ meta_bytes m @ drop (meta_size m) rest, ptr + meta_size m)"
proof -
  let ?o = "u32_bytes (of_nat (meta_offset m))"
  let ?f = "u16_bytes (of_nat (length (first_key m)))" and ?fs = "str_bytes (first_key m)"
  let ?l = "u16_bytes (of_nat (length (last_key m)))" and ?ls = "str_bytes (last_key m)"
  let ?nf = "length (first_key m)"
  note w = memwrite_append
  have 1: "memwrite (pre @ rest) ptr ?o = Inr (pre @ ?o @ drop 4 rest)"
    using w [of ptr pre ?o rest] assms by (simp add: meta_size_def)
  have 2: "memwrite (pre @ ?o @ drop 4 rest) (ptr + 4) ?f = Inr (pre @ ?o @ ?f @ drop 6 rest)"
    using w [of "ptr + 4" "pre @ ?o" ?f "drop 4 rest"] assms by (simp add: meta_size_def)
  have 3: "memwrite (pre @ ?o @ ?f @ drop 6 rest) (ptr + 6) ?fs =
      Inr (pre @ ?o @ ?f @ ?fs @ drop (6 + ?nf) rest)"
    using w [of "ptr + 6" "pre @ ?o @ ?f" ?fs "drop 6 rest"] assms
    by (simp add: meta_size_def add.commute)
  have 4: "memwrite (pre @ ?o @ ?f @ ?fs @ drop (6 + ?nf) rest) (ptr + 6 + ?nf) ?l =
      Inr (pre @ ?o @ ?f @ ?fs @ ?l @ drop (8 + ?nf) rest)"
    using w [of "ptr + 6 + ?nf" "pre @ ?o @ ?f @ ?fs" ?l "drop (6 + ?nf) rest"] assms
    by (simp add: meta_size_def)
  have 5: "memwrite (pre @ ?o @ ?f @ ?fs @ ?l @ drop (8 + ?nf) rest) (ptr + 8 + ?nf) ?ls =
      Inr (pre @ ?o @ ?f @ ?fs @ ?l @ ?ls @ drop (meta_size m) rest)"
    using w [of "ptr + 8 + ?nf" "pre @ ?o @ ?f @ ?fs @ ?l" ?ls "drop (8 + ?nf) rest"] assms
    by (simp add: meta_size_def ac_simps)
  show ?thesis
    using 1 2 3 4 5 assms(1)
    by (simp add: write_meta_def Let_def small_meta_def meta_bytes_def) (simp add: meta_size_def)
qed

lemma write_metas_here:
  assumes "\<forall>m \<in> set ms. small_meta m" and "sum_list (map meta_size ms) \<le> length rest"
    and "ptr = length pre"
  shows "write_metas ms (pre @ rest, ptr) =
    Inr (pre @ metas_bytes ms @ drop (sum_list (map meta_size ms)) rest, ptr + sum_list (map meta_size ms))"
  using assms
proof (induction ms arbitrary: pre rest ptr)
  case Nil
  show ?case by simp
next
  case (Cons m ms)
  have "write_meta m (pre @ rest, ptr) =
      Inr ((pre @ meta_bytes m) @ drop (meta_size m) rest, ptr + meta_size m)"
    using Cons.prems by (subst write_meta_here) simp_all
  with Cons.IH [of "drop (meta_size m) rest" "ptr + meta_size m" "pre @ meta_bytes m"] Cons.prems
  show ?case by (simp add: ac_simps)
qed

lemma encode_meta_format:
  assumes "\<forall>m \<in> set ms. small_meta m"
  shows "encode_meta_to_slice h ms buf = Inr (meta_format h ms)"
proof -
  let ?n = "u32_bytes (of_nat (length ms))" and ?sz = "sum_list (map meta_size ms)"
  obtain rest where r: "memwrite (resize (4 + ?sz + 4) buf) 0 ?n = Inr (?n @ rest)" "length rest = ?sz + 4"
    using memwrite_append [of 0 "[]" ?n "resize (4 + ?sz + 4) buf"] by simp
  have m: "write_metas ms (?n @ rest, 4) = Inr (?n @ metas_bytes ms @ drop ?sz rest, 4 + ?sz)"
    using r assms by (intro write_metas_here) simp_all
  have h: "memread (?n @ metas_bytes ms @ drop ?sz rest) 4 ?sz = Inr (metas_bytes ms)"
    by (intro memread_middle) simp_all
  have "memwrite ((?n @ metas_bytes ms) @ drop ?sz rest) (4 + ?sz) (u32_bytes (hash32 h (metas_bytes ms))) =
      Inr ((?n @ metas_bytes ms) @ u32_bytes (hash32 h (metas_bytes ms)) @ drop 4 (drop ?sz rest))"
    using r(2) by (subst memwrite_append) simp_all
  then show ?thesis
    using r m h by (simp add: encode_meta_to_slice_def meta_format_def)
qed

lemma read_meta_here:
  assumes "small_meta m" and "buf = pre @ meta_bytes m @ post" and "ptr = length pre"
  shows "read_meta buf ptr = Inr (m, ptr + meta_size m)"
proof -
  let ?o = "u32_bytes (of_nat (meta_offset m))"
  let ?f = "u16_bytes (of_nat (length (first_key m)))" and ?fs = "str_bytes (first_key m)"
  let ?l = "u16_bytes (of_nat (length (last_key m)))" and ?ls = "str_bytes (last_key m)"
  let ?nf = "length (first_key m)"
  have 1: "read_u32 buf ptr = Inr (of_nat (meta_offset m))"
    using assms by (simp add: meta_bytes_def read_u32_middle)
  have 2: "read_u16 buf (ptr + 4) = Inr (of_nat ?nf)"
    using read_u16_middle [of "ptr + 4" "pre @ ?o" "of_nat ?nf" "?fs @ ?l @ ?ls @ post"] assms
    by (simp add: meta_bytes_def)
  have 3: "read_str buf (ptr + 6) ?nf = Inr (first_key m)"
    using read_str_middle [of "ptr + 6" "pre @ ?o @ ?f" ?nf "first_key m" "?l @ ?ls @ post"] assms
    by (simp add: meta_bytes_def)
  have 4: "read_u16 buf (ptr + 6 + ?nf) = Inr (of_nat (length (last_key m)))"
    using read_u16_middle [of "ptr + 6 + ?nf" "pre @ ?o @ ?f @ ?fs" _ "?ls @ post"] assms
    by (simp add: meta_bytes_def)
  have 5: "read_str buf (ptr + 8 + ?nf) (length (last_key m)) = Inr (last_key m)"
    using read_str_middle [of "ptr + 8 + ?nf" "pre @ ?o @ ?f @ ?fs @ ?l" _ "last_key m" post] assms
    by (simp add: meta_bytes_def)
  have "unat (of_nat (meta_offset m) :: u32) = meta_offset m"
    using assms(1) by (simp add: small_meta_def unat_of_nat)
  with 1 2 3 4 5 assms(1) show ?thesis
    by (simp add: read_meta_def small_meta_def meta_size_def)
qed

lemma read_metas_here:
  assumes "\<forall>m \<in> set ms. small_meta m" and "buf = pre @ metas_bytes ms @ post" and "ptr = length pre"
  shows "read_metas (length ms) buf ptr = Inr (ms, ptr + sum_list (map meta_size ms))"
  using assms
proof (induction ms arbitrary: pre ptr)
  case Nil
  then show ?case by simp
next
  case (Cons m ms)
  have "read_meta buf ptr = Inr (m, ptr + meta_size m)"
    using Cons.prems by (intro read_meta_here) auto
  moreover have "read_metas (length ms) buf (ptr + meta_size m) =
      Inr (ms, ptr + meta_size m + sum_list (map meta_size ms))"
    using Cons.prems by (intro Cons.IH [of "pre @ meta_bytes m"]) auto
  ultimately show ?case by simp
qed

lemma decode_meta_body:
  assumes "\<forall>m \<in> set ms. small_meta m" and "length ms < 2 ^ 32"
  shows "decode_meta_from_slice h (u32_bytes (of_nat (length ms)) @ metas_bytes ms @ u32_bytes stored) =
    (if stored = hash32 h (metas_bytes ms) then Inr ms else Inl (Runtime_error ''Metadata hash mismatch''))"
proof -
  let ?n = "u32_bytes (of_nat (length ms))" and ?sz = "sum_list (map meta_size ms)"
  let ?buf = "?n @ metas_bytes ms @ u32_bytes stored"
  have "read_u32 ?buf 0 = Inr (of_nat (length ms))"
    using read_u32_middle [of 0 "[]" "of_nat (length ms)" "metas_bytes ms @ u32_bytes stored"] by simp
  moreover have "unat (of_nat (length ms) :: u32) = length ms"
    using assms(2) by (simp add: unat_of_nat)
  moreover have "read_metas (length ms) ?buf 4 = Inr (ms, 4 + ?sz)"
    using assms(1) by (intro read_metas_here [where pre = ?n and post = "u32_bytes stored"]) simp_all
  moreover have "read_u32 ?buf (4 + ?sz) = Inr stored"
    using read_u32_middle [of "4 + ?sz" "?n @ metas_bytes ms" stored "[]"] by simp
  moreover have "memread ?buf 4 ?sz = Inr (metas_bytes ms)"
    by (intro memread_middle) simp_all
  ultimately show ?thesis
    by (simp add: decode_meta_from_slice_def)
qed

text \<open>
  The index of an SST survives encoding: for metadata within the widths of the format (32-bit
  offsets, 16-bit key lengths, fewer than \<open>2 ^ 32\<close> blocks) the encoder stays inside the buffer it
  allocates, whatever that buffer held before, and the decoder returns the same metadata.
\<close>

theorem decode_meta_encode:
  assumes "\<forall>m \<in> set ms. small_meta m" and "length ms < 2 ^ 32"
  shows "bindE (encode_meta_to_slice h ms buf) (decode_meta_from_slice h) = Inr ms"
  using encode_meta_format [OF assms(1)] decode_meta_body [OF assms, of h "hash32 h (metas_bytes ms)"]
  by (simp add: meta_format_def)

theorem decode_meta_encode_witness:
  "bindE (encode_meta_to_slice (\<lambda>s. of_nat (length s)) [\<lparr>meta_offset = 3, first_key = ''a'', last_key = ''b''\<rparr>] [9])
     (decode_meta_from_slice (\<lambda>s. of_nat (length s))) = Inr [\<lparr>meta_offset = 3, first_key = ''a'', last_key = ''b''\<rparr>]"
  by (intro decode_meta_encode) (simp_all add: small_meta_def)

text \<open>
  An index whose stored hash is not the hash of its entries is refused.
\<close>

theorem decode_meta_wrong_hash:
  assumes "\<forall>m \<in> set ms. small_meta m" and "length ms < 2 ^ 32" and "stored \<noteq> hash32 h (metas_bytes ms)"
  shows "decode_meta_from_slice h (u32_bytes (of_nat (length ms)) @ metas_bytes ms @ u32_bytes stored) =
    Inl (Runtime_error ''Metadata hash mismatch'')"
  using decode_meta_body [OF assms(1,2), of h stored] assms(3) by simp

theorem decode_meta_wrong_hash_witness:
  "decode_meta_from_slice (\<lambda>s. 5) (u32_bytes 0 @ [] @ u32_bytes 6) = Inl (Runtime_error ''Metadata hash mismatch'')"
  using decode_meta_wrong_hash [of "[]" 6 "\<lambda>s. 5"] by (simp add: hash32_def)

end
