(* ===== verification/BlockCache.thy ===== *)
theory BlockCache
  imports Block "HOL-Library.Multiset"
begin

text \<open>
  The LRU-K cache of blocks: \<^verbatim>\<open>BlockCache\<close> of \<^verbatim>\<open>src/block/block_cache.cpp\<close>. A \<^verbatim>\<open>std::list\<close> is the
  list of its nodes, each with the identity that its iterators keep when the node is spliced; the
  hash map sends a key to such an iterator. Splicing or erasing through an iterator into the
  other list is undefined in C++ and \<open>Undefined_behaviour\<close> here, so that the code only works
  because it keeps each item in the list its access count asks for: that is the invariant.

  For every sequence of calls, a cache with \<open>k \<ge> 2\<close> and a positive capacity never reaches undefined
  behaviour, never exceeds its capacity, and every hit returns the block that was last put under
  the key.
\<close>

record cache_item =
  item_sst_id :: int
  item_block_id :: int
  cache_block :: "nat \<times> block"
  access_count :: u64

type_synonym cache_key = "int \<times> int"
type_synonym cache_node = "nat \<times> cache_item"

record block_cache =
  cache_capacity :: nat
  lru_k :: u64
  cache_list_greater_k :: "cache_node list"
  cache_list_less_k :: "cache_node list"
  cache_map :: "(cache_key \<times> nat) list"
  next_node :: nat
  total_requests :: u64
  hit_requests :: u64

definition BlockCache_new :: "nat \<Rightarrow> u64 \<Rightarrow> block_cache" where
  "BlockCache_new cap k =
     \<lparr>cache_capacity = cap, lru_k = k, cache_list_greater_k = [], cache_list_less_k = [],
      cache_map = [], next_node = 0, total_requests = 0, hit_requests = 0\<rparr>"

definition item_key :: "cache_item \<Rightarrow> cache_key" where
  "item_key item = (item_sst_id item, item_block_id item)"

definition remove_node :: "nat \<Rightarrow> cache_node list \<Rightarrow> cache_node list" where
  "remove_node it xs = filter (\<lambda>n. fst n \<noteq> it) xs"

definition update_access_count :: "nat \<Rightarrow> block_cache \<Rightarrow> block_cache result" where
  "update_access_count it c =
     (let less = cache_list_less_k c; greater = cache_list_greater_k c in
      case (case map_of less it of Some i \<Rightarrow> Some i | None \<Rightarrow> map_of greater it) of
        None \<Rightarrow> Inl Undefined_behaviour
      | Some old \<Rightarrow>
          let item = old\<lparr>access_count := access_count old + 1\<rparr> in
          if access_count item < lru_k c then
            if map_of less it \<noteq> None
            then Inr (c\<lparr>cache_list_less_k := (it, item) # remove_node it less\<rparr>)
            else Inl Undefined_behaviour
          else if access_count item = lru_k c then
            if map_of less it \<noteq> None
            then Inr (c\<lparr>cache_list_less_k := remove_node it less,
                        cache_list_greater_k := (next_node c, item) # greater,
                        cache_map := amap_put (item_key item) (next_node c) (cache_map c),
                        next_node := next_node c + 1\<rparr>)
            else Inl Undefined_behaviour
          else
            if map_of greater it \<noteq> None
            then Inr (c\<lparr>cache_list_greater_k := (it, item) # remove_node it greater\<rparr>)
            else Inl Undefined_behaviour)"

text \<open>\<^verbatim>\<open>it->second->cache_block\<close>: through the iterator the hash map holds for the key.\<close>

definition block_of_key :: "cache_key \<Rightarrow> block_cache \<Rightarrow> (nat \<times> block) result" where
  "block_of_key key c =
     (case map_of (cache_map c) key of
        None \<Rightarrow> Inl Undefined_behaviour
      | Some it \<Rightarrow>
          (case map_of (cache_list_less_k c @ cache_list_greater_k c) it of
             None \<Rightarrow> Inl Undefined_behaviour
           | Some item \<Rightarrow> Inr (cache_block item)))"

definition BlockCache_get ::
  "int \<Rightarrow> int \<Rightarrow> block_cache \<Rightarrow> ((nat \<times> block) option \<times> block_cache) result" where
  "BlockCache_get sid bid c =
     (let c = c\<lparr>total_requests := total_requests c + 1\<rparr>; key = (sid, bid) in
      case map_of (cache_map c) key of
        None \<Rightarrow> Inr (None, c)
      | Some it \<Rightarrow>
          bindE (update_access_count it (c\<lparr>hit_requests := hit_requests c + 1\<rparr>)) (\<lambda>c.
          bindE (block_of_key key c) (\<lambda>b. Inr (Some b, c))))"

definition set_block :: "nat \<Rightarrow> nat \<times> block \<Rightarrow> cache_node list \<Rightarrow> cache_node list" where
  "set_block it b xs = map (\<lambda>(i, item). (i, if i = it then item\<lparr>cache_block := b\<rparr> else item)) xs"

definition evict :: "block_cache \<Rightarrow> block_cache result" where
  "evict c =
     (if cache_list_less_k c \<noteq> [] then
        Inr (c\<lparr>cache_map := amap_erase (item_key (snd (last (cache_list_less_k c)))) (cache_map c),
               cache_list_less_k := butlast (cache_list_less_k c)\<rparr>)
      else if cache_list_greater_k c \<noteq> [] then
        Inr (c\<lparr>cache_map := amap_erase (item_key (snd (last (cache_list_greater_k c)))) (cache_map c),
               cache_list_greater_k := butlast (cache_list_greater_k c)\<rparr>)
      else Inl Undefined_behaviour)"

definition BlockCache_put ::
  "int \<Rightarrow> int \<Rightarrow> nat \<times> block \<Rightarrow> block_cache \<Rightarrow> block_cache result" where
  "BlockCache_put sid bid b c =
     (let key = (sid, bid) in
      case map_of (cache_map c) key of
        Some it \<Rightarrow>
          update_access_count it
            (c\<lparr>cache_list_less_k := set_block it b (cache_list_less_k c),
               cache_list_greater_k := set_block it b (cache_list_greater_k c)\<rparr>)
      | None \<Rightarrow>
          bindE (if cache_capacity c \<le> length (cache_map c) then evict c else Inr c) (\<lambda>c.
            let item = \<lparr>item_sst_id = sid, item_block_id = bid, cache_block = b, access_count = 1\<rparr> in
            Inr (c\<lparr>cache_list_less_k := (next_node c, item) # cache_list_less_k c,
                   cache_map := amap_put key (next_node c) (cache_map c),
                   next_node := next_node c + 1\<rparr>)))"

section \<open>The nodes and the hash map agree\<close>

type_synonym view = "(nat \<times> cache_key \<times> (nat \<times> block)) list"

definition node_view :: "cache_node \<Rightarrow> nat \<times> cache_key \<times> (nat \<times> block)" where
  "node_view n = (fst n, item_key (snd n), cache_block (snd n))"

definition cview :: "block_cache \<Rightarrow> view" where
  "cview c = map node_view (cache_list_less_k c @ cache_list_greater_k c)"

definition view_ok :: "view \<Rightarrow> (cache_key \<times> nat) list \<Rightarrow> nat \<Rightarrow> bool" where
  "view_ok V m n \<longleftrightarrow>
     distinct (map fst V) \<and> distinct (map (fst \<circ> snd) V) \<and> distinct (map fst m) \<and>
     set m = (\<lambda>(i, k, b). (k, i)) ` set V \<and> (\<forall>v \<in> set V. fst v < n)"

lemma view_ok_perm:
  assumes "mset V' = mset V" and "view_ok V m n"
  shows "view_ok V' m n"
proof -
  have "mset (map f V') = mset (map f V)" for f :: "_ \<Rightarrow> 'z"
    using assms(1) by simp
  then have "distinct (map fst V') = distinct (map fst V)"
    "distinct (map (fst \<circ> snd) V') = distinct (map (fst \<circ> snd) V)"
    by (metis mset_eq_imp_distinct_iff assms(1) mset_map)+
  moreover have "set V' = set V"
    using assms(1) by (rule mset_eq_setD)
  ultimately show ?thesis
    using assms(2) by (simp add: view_ok_def)
qed

lemma view_ok_insert:
  assumes "view_ok V m n" and "k \<notin> fst ` set m"
  shows "view_ok ((n, k, b) # V) (amap_put k n m) (n + 1)"
proof -
  have "{p \<in> set m. fst p \<noteq> k} = set m"
    using assms(2) by (auto simp: image_def)
  then show ?thesis
    using assms distinct_amap(2) [of m k n]
    by (fastforce simp: view_ok_def set_amap image_def)
qed

lemma view_ok_erase:
  assumes "view_ok ((i, k, b) # V) m n"
  shows "view_ok V (amap_erase k m) n" and "k \<notin> fst ` set (amap_erase k m)"
proof -
  show "view_ok V (amap_erase k m) n"
    using assms distinct_amap(1) [of m k]
    by (auto simp: view_ok_def set_amap image_def) 
  show "k \<notin> fst ` set (amap_erase k m)"
    by (auto simp: set_amap)
qed

lemma view_ok_replace:
  assumes "view_ok ((i, k, b) # V) m n"
  shows "view_ok ((n, k, b) # V) (amap_put k n m) (n + 1)"
proof -
  have "amap_put k n (amap_erase k m) = amap_put k n m"
    by (simp add: amap_put_def amap_erase_def)
  with view_ok_insert [OF view_ok_erase [OF assms], of b] show ?thesis by simp
qed

lemma view_ok_length:
  assumes "view_ok V m n"
  shows "length m = length V"
proof -
  have "length m = card (set m)"
    using assms by (metis view_ok_def distinct_card distinct_map)
  also have "\<dots> = card ((\<lambda>(i, k, b). (k, i)) ` set V)"
    using assms by (simp add: view_ok_def)
  also have "\<dots> = card (set V)"
  proof (intro card_image inj_onI)
    fix x y assume "x \<in> set V" "y \<in> set V" "(\<lambda>(i, k, b). (k, i)) x = (\<lambda>(i, k, b). (k, i)) y"
    then show "x = y"
      using assms inj_onD [of fst "set V" x y] by (simp add: view_ok_def distinct_map split: prod.splits)
  qed
  also have "\<dots> = length V"
    using assms by (metis view_ok_def distinct_card distinct_map)
  finally show ?thesis .
qed

section \<open>The invariant\<close>

definition contents :: "block_cache \<Rightarrow> cache_key \<Rightarrow> (nat \<times> block) option" where
  "contents c = map_of (map snd (cview c))"

definition cache_ok :: "block_cache \<Rightarrow> bool" where
  "cache_ok c \<longleftrightarrow>
     view_ok (cview c) (cache_map c) (next_node c) \<and>
     length (cview c) \<le> cache_capacity c \<and> 0 < cache_capacity c \<and> 1 < lru_k c \<and>
     (\<forall>n \<in> set (cache_list_less_k c). access_count (snd n) < lru_k c) \<and>
     (\<forall>n \<in> set (cache_list_greater_k c). lru_k c \<le> access_count (snd n))"

definition counts_le :: "nat \<Rightarrow> block_cache \<Rightarrow> bool" where
  "counts_le N c \<longleftrightarrow>
     (\<forall>n \<in> set (cache_list_less_k c @ cache_list_greater_k c). unat (access_count (snd n)) \<le> N)"

lemma map_of_view_perm:
  assumes "mset (map snd V') = mset (map snd V)" and "distinct (map (fst \<circ> snd) V)"
  shows "map_of (map snd V') = map_of (map snd V)"
proof -
  have "distinct (map fst (map snd V))" using assms(2) by simp
  moreover have "mset (map fst (map snd V')) = mset (map fst (map snd V))"
    using assms(1) by (simp only: mset_map)
  then have "distinct (map fst (map snd V'))"
    using calculation by (metis mset_eq_imp_distinct_iff)
  ultimately show ?thesis
    using mset_eq_setD [OF assms(1)] by (simp only: map_of_inject_set)
qed

lemma remove_node_mset:
  assumes "distinct (map fst xs)" and "map_of xs it = Some item"
  shows "mset xs = add_mset (it, item) (mset (remove_node it xs))"
  using assms
proof (induction xs)
  case Nil
  then show ?case by simp
next
  case (Cons x xs)
  show ?case
  proof (cases "fst x = it")
    case True
    with Cons.prems(1) have "remove_node it xs = xs"
      by (auto simp: remove_node_def filter_id_conv intro: rev_image_eqI)
    with True Cons.prems show ?thesis
      by (cases x) (simp add: remove_node_def)
  next
    case False
    with Cons show ?thesis
      by (cases x) (auto simp: remove_node_def)
  qed
qed

lemma cview_distinct:
  assumes "view_ok (cview c) m n"
  shows "distinct (map fst (cache_list_less_k c))" "distinct (map fst (cache_list_greater_k c))"
proof -
  have "map fst (cview c) = map fst (cache_list_less_k c) @ map fst (cache_list_greater_k c)"
    by (simp add: cview_def node_view_def)
  then show "distinct (map fst (cache_list_less_k c))" "distinct (map fst (cache_list_greater_k c))"
    using assms by (simp_all add: view_ok_def)
qed

lemma cview_node:
  assumes "view_ok (cview c) m n" and "(it, k, b) \<in> set (cview c)"
  obtains item where "item_key item = k" "cache_block item = b"
    "map_of (cache_list_less_k c @ cache_list_greater_k c) it = Some item"
proof -
  obtain item where item: "(it, item) \<in> set (cache_list_less_k c @ cache_list_greater_k c)"
    "item_key item = k" "cache_block item = b"
    using assms(2) by (fastforce simp: cview_def node_view_def)
  have "distinct (map fst (cache_list_less_k c @ cache_list_greater_k c))"
    using assms(1) by (simp add: view_ok_def cview_def node_view_def comp_def)
  with item that show thesis by (metis map_of_is_SomeI)
qed

lemma word_count_up:
  assumes "unat (a :: u64) \<le> N" and "N + 1 < 2 ^ 64"
  shows "unat (a + 1) = unat a + 1" and "k \<le> a \<Longrightarrow> k < a + 1"
proof -
  show "unat (a + 1) = unat a + 1"
    using assms by (simp add: unat_word_ariths(1))
  then show "k < a + 1" if "k \<le> a"
    using that by (simp add: word_less_nat_alt word_le_nat_alt)
qed

lemma counts_le_up:
  assumes "counts_le N c" and "N + 1 < 2 ^ 64" and "unat (access_count item) \<le> N"
    and "set (cache_list_less_k c' @ cache_list_greater_k c') \<subseteq>
      insert (i, item\<lparr>access_count := access_count item + 1\<rparr>)
        (set (cache_list_less_k c @ cache_list_greater_k c))"
  shows "counts_le (N + 1) c'"
  unfolding counts_le_def
proof
  fix n assume "n \<in> set (cache_list_less_k c' @ cache_list_greater_k c')"
  with assms(4) consider "n = (i, item\<lparr>access_count := access_count item + 1\<rparr>)"
    | "n \<in> set (cache_list_less_k c @ cache_list_greater_k c)"
    by blast
  then show "unat (access_count (snd n)) \<le> N + 1"
  proof cases
    case 1
    with word_count_up(1) [OF assms(3,2)] assms(3) show ?thesis by simp
  next
    case 2
    with assms(1) show ?thesis unfolding counts_le_def by force
  qed
qed

lemma update_access_count_less:
  assumes ok: "cache_ok c" and cnt: "counts_le N c" "N + 1 < 2 ^ 64"
    and it: "map_of (cache_list_less_k c) it = Some item"
  shows "\<exists>c'. update_access_count it c = Inr c' \<and> cache_ok c' \<and> counts_le (N + 1) c' \<and>
    contents c' = contents c \<and> cache_capacity c' = cache_capacity c \<and> lru_k c' = lru_k c"
proof -
  let ?l = "cache_list_less_k c" and ?g = "cache_list_greater_k c"
  let ?item = "item\<lparr>access_count := access_count item + 1\<rparr>"
  have view: "view_ok (cview c) (cache_map c) (next_node c)"
    using ok by (simp add: cache_ok_def)
  have keys: "distinct (map (fst \<circ> snd) (cview c))"
    using view by (simp add: view_ok_def)
  have ms: "mset ?l = add_mset (it, item) (mset (remove_node it ?l))"
    using remove_node_mset [OF cview_distinct(1) [OF view] it] .
  have sub: "set (remove_node it ?l) \<subseteq> set ?l"
    by (auto simp: remove_node_def)
  have mem: "(it, item) \<in> set ?l"
    using it by (rule map_of_SomeD)
  then have small: "access_count item < lru_k c"
    using ok by (force simp: cache_ok_def)
  have n: "unat (access_count item) \<le> N"
    using mem cnt(1) by (force simp: counts_le_def)
  have le: "access_count item + 1 \<le> lru_k c"
    using small by (rule inc_le)
  have node: "node_view (i, ?item) = (i, snd (node_view (it, item)))" for i
    by (simp add: node_view_def item_key_def)
  show ?thesis
  proof (cases "access_count item + 1 < lru_k c")
    case True
    let ?c = "c\<lparr>cache_list_less_k := (it, ?item) # remove_node it ?l\<rparr>"
    have eq: "mset (cview ?c) = mset (cview c)"
      using ms by (simp add: cview_def node_view_def item_key_def)
    have "cache_ok ?c"
      using ok True sub view_ok_perm [OF eq view] mset_eq_length [OF eq]
      by (auto simp: cache_ok_def)
    moreover have "counts_le (N + 1) ?c"
      using sub by (intro counts_le_up [OF cnt n]) auto
    moreover have "contents ?c = contents c"
      unfolding contents_def using eq by (intro map_of_view_perm keys) (simp only: mset_map)
    moreover have "update_access_count it c = Inr ?c"
      using True it by (simp add: update_access_count_def Let_def)
    ultimately show ?thesis by simp
  next
    case False
    let ?c = "c\<lparr>cache_list_less_k := remove_node it ?l, cache_list_greater_k := (next_node c, ?item) # ?g,
      cache_map := amap_put (item_key item) (next_node c) (cache_map c), next_node := next_node c + 1\<rparr>"
    let ?V = "map node_view (remove_node it ?l @ ?g)"
    have old: "mset (cview c) = mset (node_view (it, item) # ?V)"
      using ms by (simp add: cview_def)
    have new: "mset (cview ?c) = mset ((next_node c, snd (node_view (it, item))) # ?V)"
      by (simp add: cview_def node)
    have eq: "access_count item + 1 = lru_k c"
      using False le by simp
    have "view_ok (node_view (it, item) # ?V) (cache_map c) (next_node c)"
      using view_ok_perm [OF old [symmetric] view] .
    then have "view_ok ((next_node c, snd (node_view (it, item))) # ?V) (cache_map ?c) (next_node ?c)"
      using view_ok_replace by (simp add: node_view_def)
    then have "view_ok (cview ?c) (cache_map ?c) (next_node ?c)"
      by (rule view_ok_perm [OF new])
    moreover have "length (cview ?c) = length (cview c)"
      using mset_eq_length [OF old] mset_eq_length [OF new] by simp
    ultimately have "cache_ok ?c"
      using ok sub eq by (auto simp: cache_ok_def)
    moreover have "counts_le (N + 1) ?c"
      using sub by (intro counts_le_up [OF cnt n]) auto
    moreover have "mset (map snd (cview ?c)) = mset (map snd (cview c))"
      using old new by simp
    then have "contents ?c = contents c"
      unfolding contents_def by (intro map_of_view_perm keys)
    moreover have "update_access_count it c = Inr ?c"
      using eq it by (simp add: update_access_count_def Let_def item_key_def)
    ultimately show ?thesis by simp
  qed
qed

lemma update_access_count_greater:
  assumes ok: "cache_ok c" and cnt: "counts_le N c" "N + 1 < 2 ^ 64"
    and it: "map_of (cache_list_less_k c) it = None" "map_of (cache_list_greater_k c) it = Some item"
  shows "\<exists>c'. update_access_count it c = Inr c' \<and> cache_ok c' \<and> counts_le (N + 1) c' \<and>
    contents c' = contents c \<and> cache_capacity c' = cache_capacity c \<and> lru_k c' = lru_k c"
proof -
  let ?l = "cache_list_less_k c" and ?g = "cache_list_greater_k c"
  let ?item = "item\<lparr>access_count := access_count item + 1\<rparr>"
  let ?c = "c\<lparr>cache_list_greater_k := (it, ?item) # remove_node it ?g\<rparr>"
  have view: "view_ok (cview c) (cache_map c) (next_node c)"
    using ok by (simp add: cache_ok_def)
  have keys: "distinct (map (fst \<circ> snd) (cview c))"
    using view by (simp add: view_ok_def)
  have ms: "mset ?g = add_mset (it, item) (mset (remove_node it ?g))"
    using remove_node_mset [OF cview_distinct(2) [OF view] it(2)] .
  have sub: "set (remove_node it ?g) \<subseteq> set ?g"
    by (auto simp: remove_node_def)
  have mem: "(it, item) \<in> set ?g"
    using it(2) by (rule map_of_SomeD)
  then have n: "unat (access_count item) \<le> N"
    using cnt(1) by (force simp: counts_le_def)
  have "lru_k c \<le> access_count item"
    using mem ok by (force simp: cache_ok_def)
  then have big: "lru_k c < access_count item + 1"
    using word_count_up(2) n cnt(2) by blast
  have eq: "mset (cview ?c) = mset (cview c)"
    using ms by (simp add: cview_def node_view_def item_key_def)
  have "cache_ok ?c"
    using ok big sub view_ok_perm [OF eq view] mset_eq_length [OF eq]
    by (auto simp: cache_ok_def)
  moreover have "counts_le (N + 1) ?c"
    using sub by (intro counts_le_up [OF cnt n]) auto
  moreover have "contents ?c = contents c"
    unfolding contents_def using eq by (intro map_of_view_perm keys) (simp only: mset_map)
  moreover have "update_access_count it c = Inr ?c"
    using it big less_not_sym [OF big] by (simp add: update_access_count_def Let_def)
  ultimately show ?thesis by simp
qed

lemma contents_view:
  assumes "view_ok (cview c) m n" and "(it, key, b) \<in> set (cview c)"
  shows "contents c key = Some b"
proof -
  have "(key, b) \<in> set (map snd (cview c))"
    using assms(2) by force
  with assms(1) show ?thesis
    by (auto simp: contents_def view_ok_def intro: map_of_is_SomeI)
qed

lemma contents_find:
  assumes "view_ok (cview c) (cache_map c) n" and "map_of (cache_map c) key = Some it"
  shows "\<exists>b. (it, key, b) \<in> set (cview c) \<and> contents c key = Some b"
proof -
  have "(key, it) \<in> (\<lambda>(i, k, b). (k, i)) ` set (cview c)"
    using assms map_of_SomeD [OF assms(2)] by (simp add: view_ok_def)
  then show ?thesis
    using contents_view [OF assms(1)] by auto
qed

lemma contents_Some:
  assumes "view_ok (cview c) (cache_map c) n" and "contents c key = Some b"
  shows "\<exists>it. map_of (cache_map c) key = Some it \<and> (it, key, b) \<in> set (cview c)"
proof -
  obtain it where b: "(it, key, b) \<in> set (cview c)"
    using map_of_SomeD [of "map snd (cview c)" key b] assms(2) by (auto simp: contents_def)
  then have "(key, it) \<in> (\<lambda>(i, k, b). (k, i)) ` set (cview c)" by force
  with assms(1) b show ?thesis
    by (auto simp: view_ok_def intro: map_of_is_SomeI)
qed

lemma contents_None:
  assumes "view_ok (cview c) (cache_map c) n" and "map_of (cache_map c) key = None"
  shows "contents c key = None"
  using contents_Some [OF assms(1), of key] assms(2) by (cases "contents c key") auto

lemma update_access_count_ok:
  assumes ok: "cache_ok c" and cnt: "counts_le N c" "N + 1 < 2 ^ 64"
    and it: "map_of (cache_map c) key = Some it"
  shows "\<exists>c'. update_access_count it c = Inr c' \<and> cache_ok c' \<and> counts_le (N + 1) c' \<and>
    contents c' = contents c \<and> cache_capacity c' = cache_capacity c \<and> lru_k c' = lru_k c"
proof -
  have view: "view_ok (cview c) (cache_map c) (next_node c)"
    using ok by (simp add: cache_ok_def)
  obtain b where "(it, key, b) \<in> set (cview c)"
    using contents_find [OF view it] by blast
  then obtain item where "map_of (cache_list_less_k c @ cache_list_greater_k c) it = Some item"
    using cview_node [OF view] by metis
  then consider "map_of (cache_list_less_k c) it = Some item"
    | "map_of (cache_list_less_k c) it = None" "map_of (cache_list_greater_k c) it = Some item"
    by (auto simp: map_add_Some_iff)
  then show ?thesis
    by cases (use update_access_count_less [OF ok cnt] update_access_count_greater [OF ok cnt] in blast)+
qed

lemma block_of_key_contents:
  assumes "cache_ok c" and "contents c key = Some b"
  shows "block_of_key key c = Inr b"
proof -
  have view: "view_ok (cview c) (cache_map c) (next_node c)"
    using assms(1) by (simp add: cache_ok_def)
  obtain it where it: "map_of (cache_map c) key = Some it" "(it, key, b) \<in> set (cview c)"
    using contents_Some [OF view assms(2)] by blast
  obtain item where "map_of (cache_list_less_k c @ cache_list_greater_k c) it = Some item" "cache_block item = b"
    using cview_node [OF view it(2)] by metis
  with it(1) show ?thesis by (simp add: block_of_key_def)
qed

section \<open>Reading and writing the cache\<close>

lemma cache_ok_cong:
  assumes "cache_ok c" and "cache_list_less_k c' = cache_list_less_k c"
    and "cache_list_greater_k c' = cache_list_greater_k c" and "cache_map c' = cache_map c"
    and "next_node c' = next_node c" and "cache_capacity c' = cache_capacity c" and "lru_k c' = lru_k c"
  shows "cache_ok c'" and "contents c' = contents c" and "counts_le N c' = counts_le N c"
  using assms by (simp_all add: cache_ok_def contents_def cview_def counts_le_def)

lemma get_ok:
  assumes "cache_ok c" and "counts_le N c" and "N + 1 < 2 ^ 64"
  shows "\<exists>c'. BlockCache_get sid bid c = Inr (contents c (sid, bid), c') \<and> cache_ok c' \<and>
    counts_le (N + 1) c' \<and> contents c' = contents c \<and> cache_capacity c' = cache_capacity c"
proof -
  let ?c = "c\<lparr>total_requests := total_requests c + 1\<rparr>"
  let ?h = "?c\<lparr>hit_requests := hit_requests ?c + 1\<rparr>"
  have view: "view_ok (cview c) (cache_map c) (next_node c)"
    using assms(1) by (simp add: cache_ok_def)
  show ?thesis
  proof (cases "map_of (cache_map c) (sid, bid)")
    case None
    moreover have "cache_ok ?c" "contents ?c = contents c" "counts_le N ?c"
      using cache_ok_cong [OF assms(1), of ?c] assms(2) by simp_all
    moreover have "counts_le (N + 1) ?c"
      using calculation(4) unfolding counts_le_def by force
    ultimately show ?thesis
      using contents_None [OF view None] by (simp add: BlockCache_get_def)
  next
    case (Some it)
    have h: "cache_ok ?h" "contents ?h = contents c" "counts_le N ?h"
      using cache_ok_cong [OF assms(1), of ?h] assms(2) by simp_all
    then obtain c' where c': "update_access_count it ?h = Inr c'" "cache_ok c'" "counts_le (N + 1) c'"
        "contents c' = contents c" "cache_capacity c' = cache_capacity c"
      using update_access_count_ok [OF h(1,3) assms(3), of "(sid, bid)" it] Some by auto
    obtain b where b: "contents c (sid, bid) = Some b"
      using contents_find [OF view Some] by blast
    then have "block_of_key (sid, bid) c' = Inr b"
      using block_of_key_contents c' by simp
    with c' b Some show ?thesis
      by (simp add: BlockCache_get_def Let_def)
  qed
qed

lemma view_ok_inj:
  assumes "view_ok V m n" and "(i, k, x) \<in> set V" and "(i, k', y) \<in> set V"
  shows "k = k'"
  using assms inj_onD [of fst "set V" "(i, k, x)" "(i, k', y)"]
  by (simp add: view_ok_def distinct_map)

lemma set_block_view:
  "map node_view (set_block it b xs) =
     map (\<lambda>(i, k, x). (i, k, if i = it then b else x)) (map node_view xs)"
  by (simp add: set_block_def node_view_def item_key_def split_beta)

lemma put_hit_ok:
  assumes ok: "cache_ok c" and cnt: "counts_le N c" "N + 1 < 2 ^ 64"
    and it: "map_of (cache_map c) (sid, bid) = Some it"
  shows "\<exists>c'. BlockCache_put sid bid b c = Inr c' \<and> cache_ok c' \<and> counts_le (N + 1) c' \<and>
    contents c' = (contents c)((sid, bid) \<mapsto> b) \<and> cache_capacity c' = cache_capacity c"
proof -
  let ?c = "c\<lparr>cache_list_less_k := set_block it b (cache_list_less_k c),
               cache_list_greater_k := set_block it b (cache_list_greater_k c)\<rparr>"
  let ?f = "\<lambda>(i, k, x). (i :: nat, k :: cache_key, if i = it then b else x)"
  have view: "view_ok (cview c) (cache_map c) (next_node c)"
    using ok by (simp add: cache_ok_def)
  have V: "cview ?c = map ?f (cview c)"
    by (simp add: cview_def set_block_view)
  have view': "view_ok (cview ?c) (cache_map ?c) (next_node ?c)"
    using view unfolding V view_ok_def
    by (auto simp: comp_def split_beta image_image)
  moreover have counts: "access_count (snd n) < lru_k c" if "n \<in> set (set_block it b (cache_list_less_k c))" for n
    using that ok by (fastforce simp: set_block_def cache_ok_def)
  moreover have "lru_k c \<le> access_count (snd n)" if "n \<in> set (set_block it b (cache_list_greater_k c))" for n
    using that ok by (fastforce simp: set_block_def cache_ok_def)
  moreover have "length (cview ?c) = length (cview c)"
    by (simp add: V)
  ultimately have ok': "cache_ok ?c"
    using ok by (simp add: cache_ok_def)
  have cnt': "counts_le N ?c"
    using cnt(1) by (auto simp: counts_le_def set_block_def split_beta) force+
  obtain x where x: "(it, (sid, bid), x) \<in> set (cview c)"
    using contents_find [OF view it] by blast
  have "contents ?c = (contents c)((sid, bid) \<mapsto> b)"
  proof
    fix key
    show "contents ?c key = ((contents c)((sid, bid) \<mapsto> b)) key"
    proof (cases "map_of (cache_map c) key")
      case None
      then show ?thesis
        using it contents_None [OF view None] contents_None [OF view', of key] by auto
    next
      case (Some i)
      obtain y where y: "(i, key, y) \<in> set (cview c)" "contents c key = Some y"
        using contents_find [OF view Some] by blast
      have "?f (i, key, y) \<in> set (cview ?c)"
        using imageI [OF y(1), of ?f] by (simp add: V)
      then have "contents ?c key = Some (if i = it then b else y)"
        by (intro contents_view [OF view']) simp
      moreover have "i = it \<longleftrightarrow> key = (sid, bid)"
        using view_ok_inj [OF view _ x, of key y] y(1) Some it by auto
      ultimately show ?thesis
        using y(2) by simp
    qed
  qed
  then show ?thesis
    using update_access_count_ok [OF ok' cnt' cnt(2), of "(sid, bid)" it] it
    by (auto simp: BlockCache_put_def)
qed

lemma evict_step:
  assumes view: "view_ok (cview c) (cache_map c) (next_node c)" and n: "n \<in> set (cache_list_less_k c @ cache_list_greater_k c)"
    and ms: "mset (cview c) = add_mset (node_view n) (mset (cview c'))"
    and m: "cache_map c' = amap_erase (item_key (snd n)) (cache_map c)" "next_node c' = next_node c"
  shows "view_ok (cview c') (cache_map c') (next_node c')"
    and "contents c' = (contents c)(item_key (snd n) := None)"
    and "length (cview c) = Suc (length (cview c'))"
proof -
  have eq: "mset (node_view n # cview c') = mset (cview c)"
    using ms by simp
  have v: "view_ok ((fst n, item_key (snd n), cache_block (snd n)) # cview c') (cache_map c) (next_node c)"
    using view_ok_perm [OF eq view] by (simp add: node_view_def)
  show "view_ok (cview c') (cache_map c') (next_node c')"
    using view_ok_erase(1) [OF v] m by simp
  have "item_key (snd n) \<notin> fst ` set (map snd (cview c'))"
    using v by (simp add: view_ok_def image_image comp_def)
  then have "map_of (map snd (cview c')) (item_key (snd n)) = None"
    by (metis map_of_eq_None_iff)
  moreover have "contents c = map_of (map snd (node_view n # cview c'))"
    unfolding contents_def
    by (rule sym, rule map_of_view_perm) (use eq view in \<open>simp_all only: mset_map, simp add: view_ok_def\<close>)
  ultimately show "contents c' = (contents c)(item_key (snd n) := None)"
    by (auto simp: contents_def node_view_def)
  show "length (cview c) = Suc (length (cview c'))"
    using mset_eq_length [OF eq] by simp
qed

text \<open>The item that a full cache gives up: the least recently used one of those accessed fewer than \<open>k\<close> times.\<close>

definition victim :: "block_cache \<Rightarrow> cache_key" where
  "victim c = item_key (snd (last (if cache_list_less_k c \<noteq> [] then cache_list_less_k c
                                   else cache_list_greater_k c)))"

lemma evict_ok:
  assumes ok: "cache_ok c" and cnt: "counts_le N c" and full: "cache_capacity c \<le> length (cache_map c)"
  shows "\<exists>c'. evict c = Inr c' \<and> cache_ok c' \<and> counts_le N c' \<and>
    contents c' = (contents c)(victim c := None) \<and> length (cview c') < cache_capacity c' \<and>
    cache_capacity c' = cache_capacity c \<and> dom (map_of (cache_map c')) \<subseteq> dom (map_of (cache_map c))"
proof -
  let ?l = "cache_list_less_k c" and ?g = "cache_list_greater_k c"
  have view: "view_ok (cview c) (cache_map c) (next_node c)"
    using ok by (simp add: cache_ok_def)
  have "cview c \<noteq> []"
    using view_ok_length [OF view] full ok by (auto simp: cache_ok_def)
  then have ne: "?l \<noteq> [] \<or> ?g \<noteq> []"
    by (auto simp: cview_def)
  have split: "xs \<noteq> [] \<Longrightarrow> mset xs = add_mset (last xs) (mset (butlast xs))" for xs :: "cache_node list"
    by (metis append_butlast_last_id mset.simps(2) mset_append union_mset_add_mset_right add.right_neutral mset.simps(1))
  show ?thesis
  proof (cases "?l = []")
    case False
    let ?c = "c\<lparr>cache_map := amap_erase (item_key (snd (last ?l))) (cache_map c), cache_list_less_k := butlast ?l\<rparr>"
    have ms: "mset (cview c) = add_mset (node_view (last ?l)) (mset (cview ?c))"
      using split [OF False] by (simp add: cview_def)
    note step = evict_step [OF view _ ms, simplified]
    have "cache_ok ?c"
      using ok False step(1,3) by (auto simp: cache_ok_def dest: in_set_butlastD)
    moreover have "counts_le N ?c"
      using cnt by (auto simp: counts_le_def dest: in_set_butlastD)
    ultimately show ?thesis
      using False step ok by (auto simp: evict_def victim_def cache_ok_def split: if_splits)
  next
    case True
    with ne have g: "?g \<noteq> []" by simp
    let ?c = "c\<lparr>cache_map := amap_erase (item_key (snd (last ?g))) (cache_map c), cache_list_greater_k := butlast ?g\<rparr>"
    have ms: "mset (cview c) = add_mset (node_view (last ?g)) (mset (cview ?c))"
      using split [OF g] by (simp add: cview_def)
    note step = evict_step [OF view _ ms, simplified]
    have "cache_ok ?c"
      using ok g step(1,3) by (auto simp: cache_ok_def dest: in_set_butlastD)
    moreover have "counts_le N ?c"
      using cnt by (auto simp: counts_le_def dest: in_set_butlastD)
    ultimately show ?thesis
      using True g step ok by (auto simp: evict_def victim_def cache_ok_def split: if_splits)
  qed
qed

lemma put_miss_ok:
  assumes ok: "cache_ok c" and cnt: "counts_le N c" and miss: "map_of (cache_map c) (sid, bid) = None"
  shows "\<exists>c'. BlockCache_put sid bid b c = Inr c' \<and> cache_ok c' \<and> counts_le (N + 1) c' \<and>
    contents c' = (if cache_capacity c \<le> length (cache_map c) then (contents c)(victim c := None)
                   else contents c)((sid, bid) \<mapsto> b) \<and> cache_capacity c' = cache_capacity c"
proof -
  let ?old = "if cache_capacity c \<le> length (cache_map c) then (contents c)(victim c := None) else contents c"
  obtain d where d: "(if cache_capacity c \<le> length (cache_map c) then evict c else Inr c) = Inr d"
      "cache_ok d" "counts_le N d" "contents d = ?old" "length (cview d) < cache_capacity d"
      "cache_capacity d = cache_capacity c" "map_of (cache_map d) (sid, bid) = None"
  proof (cases "cache_capacity c \<le> length (cache_map c)")
    case True
    obtain d where "evict c = Inr d" "cache_ok d" "counts_le N d" "contents d = (contents c)(victim c := None)"
      "length (cview d) < cache_capacity d" "cache_capacity d = cache_capacity c"
      "dom (map_of (cache_map d)) \<subseteq> dom (map_of (cache_map c))"
      using evict_ok [OF ok cnt True] by blast
    moreover from this(7) have "map_of (cache_map d) (sid, bid) = None"
      using miss by blast
    ultimately show thesis
      using that [of d] True by simp
  next
    case False
    then show thesis
      using that [of c] ok cnt miss view_ok_length [of "cview c" "cache_map c" "next_node c"]
      by (simp add: cache_ok_def)
  qed
  let ?item = "\<lparr>item_sst_id = sid, item_block_id = bid, cache_block = b, access_count = 1\<rparr>"
  let ?c = "d\<lparr>cache_list_less_k := (next_node d, ?item) # cache_list_less_k d,
       cache_map := amap_put (sid, bid) (next_node d) (cache_map d), next_node := next_node d + 1\<rparr>"
  have V: "cview ?c = (next_node d, (sid, bid), b) # cview d"
    by (simp add: cview_def node_view_def item_key_def)
  have "(sid, bid) \<notin> fst ` set (cache_map d)"
    using d(7) by (simp add: map_of_eq_None_iff)
  then have view: "view_ok (cview ?c) (cache_map ?c) (next_node ?c)"
    unfolding V using d(2) by (auto simp: cache_ok_def intro: view_ok_insert [simplified])
  then have "cache_ok ?c"
    using d(2,5) V by (simp add: cache_ok_def)
  moreover have "counts_le (N + 1) ?c"
    using d(3) unfolding counts_le_def by force
  moreover have "contents ?c = ?old((sid, bid) \<mapsto> b)"
    using d(4) unfolding contents_def V by simp
  moreover have "BlockCache_put sid bid b c = Inr ?c"
    using d(1) miss by (simp add: BlockCache_put_def Let_def)
  ultimately show ?thesis
    using d(6) by simp
qed

section \<open>Sequences of calls\<close>

datatype cache_op = Cache_get int int | Cache_put int int "nat \<times> block"

fun cache_step :: "cache_op \<Rightarrow> block_cache \<Rightarrow> block_cache result" where
  "cache_step (Cache_get sid bid) c = bindE (BlockCache_get sid bid c) (\<lambda>(_, c'). Inr c')"
| "cache_step (Cache_put sid bid b) c = BlockCache_put sid bid b c"

primrec cache_run :: "cache_op list \<Rightarrow> block_cache \<Rightarrow> block_cache result" where
  "cache_run [] c = Inr c"
| "cache_run (op # ops) c = bindE (cache_step op c) (cache_run ops)"

text \<open>The block the calls so far put last under a key.\<close>

fun last_put :: "cache_op list \<Rightarrow> (cache_key \<rightharpoonup> nat \<times> block) \<Rightarrow> cache_key \<rightharpoonup> nat \<times> block" where
  "last_put [] m = m"
| "last_put (Cache_get sid bid # ops) m = last_put ops m"
| "last_put (Cache_put sid bid b # ops) m = last_put ops (m((sid, bid) \<mapsto> b))"

lemma cache_run_ok:
  assumes "cache_ok c" and "counts_le N c" and "N + length ops < 2 ^ 64" and "contents c \<subseteq>\<^sub>m m"
  shows "\<exists>c'. cache_run ops c = Inr c' \<and> cache_ok c' \<and> counts_le (N + length ops) c' \<and>
    contents c' \<subseteq>\<^sub>m last_put ops m \<and> cache_capacity c' = cache_capacity c"
  using assms
proof (induction ops arbitrary: c N m)
  case Nil
  then show ?case by simp
next
  case (Cons op ops)
  have N: "N + 1 < 2 ^ 64" "(N + 1) + length ops < 2 ^ 64"
    using Cons.prems(3) by simp_all
  show ?case
  proof (cases op)
    case (Cache_get sid bid)
    obtain c' where c': "BlockCache_get sid bid c = Inr (contents c (sid, bid), c')" "cache_ok c'"
        "counts_le (N + 1) c'" "contents c' = contents c" "cache_capacity c' = cache_capacity c"
      using get_ok [OF Cons.prems(1,2) N(1)] by blast
    with Cons.IH [OF c'(2,3) N(2), of m] Cons.prems(4) Cache_get show ?thesis by simp
  next
    case (Cache_put sid bid b)
    obtain c' where c': "BlockCache_put sid bid b c = Inr c'" "cache_ok c'"
        "counts_le (N + 1) c'" "cache_capacity c' = cache_capacity c"
        "contents c' \<subseteq>\<^sub>m (contents c)((sid, bid) \<mapsto> b)"
    proof (cases "map_of (cache_map c) (sid, bid)")
      case None
      then show thesis
        using put_miss_ok [OF Cons.prems(1,2) None, of b] that
        by (fastforce simp: map_le_def)
    next
      case (Some it)
      then show thesis
        using put_hit_ok [OF Cons.prems(1,2) N(1) Some, of b] that by auto
    qed
    have "contents c' \<subseteq>\<^sub>m m((sid, bid) \<mapsto> b)"
      using c'(5) Cons.prems(4) by (meson map_le_trans map_le_upd)
    from Cons.IH [OF c'(2,3) N(2) this] c'(1,4) Cache_put show ?thesis
      by (simp add: fun_upd_def)
  qed
qed

lemma BlockCache_new_ok:
  assumes "0 < cap" and "1 < k"
  shows "cache_ok (BlockCache_new cap k)" and "counts_le 0 (BlockCache_new cap k)"
    and "contents (BlockCache_new cap k) = Map.empty"
  using assms
  by (simp_all add: cache_ok_def BlockCache_new_def cview_def view_ok_def counts_le_def contents_def)

text \<open>
  C26: from a new cache with a positive capacity and \<open>k \<ge> 2\<close>, no sequence of fewer than \<open>2 ^ 64 - 1\<close> calls
  reaches undefined behaviour; the cache never holds more than its capacity; and a lookup after
  them either misses or returns the block most recently put under that key.
\<close>

theorem cache_coherent:
  assumes "0 < cap" and "1 < k" and "length ops + 1 < 2 ^ 64"
  shows "\<exists>c r c'. cache_run ops (BlockCache_new cap k) = Inr c \<and> length (cache_map c) \<le> cap \<and>
    BlockCache_get sid bid c = Inr (r, c') \<and> (r = None \<or> r = last_put ops Map.empty (sid, bid))"
proof -
  obtain c where c: "cache_run ops (BlockCache_new cap k) = Inr c" "cache_ok c" "counts_le (length ops) c"
      "contents c \<subseteq>\<^sub>m last_put ops Map.empty" "cache_capacity c = cap"
    using cache_run_ok [OF BlockCache_new_ok(1,2) [OF assms(1,2)], of ops Map.empty] assms(3)
      BlockCache_new_ok(3) [OF assms(1,2)]
    by (auto simp: BlockCache_new_def)
  obtain c' where c': "BlockCache_get sid bid c = Inr (contents c (sid, bid), c')"
    using get_ok [OF c(2,3) assms(3)] by blast
  have "contents c (sid, bid) = None \<or> contents c (sid, bid) = last_put ops Map.empty (sid, bid)"
    using c(4) by (auto simp: map_le_def)
  moreover have "length (cache_map c) \<le> cap"
    using c(2,5) view_ok_length by (auto simp: cache_ok_def)
  ultimately show ?thesis
    using c(1) c' by blast
qed

theorem cache_coherent_witness:
  "\<exists>c r c'. cache_run [Cache_put 1 2 (7, new_block 5), Cache_get 1 2] (BlockCache_new 2 2) = Inr c \<and>
    length (cache_map c) \<le> 2 \<and> BlockCache_get 1 2 c = Inr (r, c') \<and> (r = None \<or> r = Some (7, new_block 5))"
  using cache_coherent [of 2 2 "[Cache_put 1 2 (7, new_block 5), Cache_get 1 2]" 1 2] by simp

lemma put_any_ok:
  assumes "cache_ok c" and "counts_le N c" and "N + 1 < 2 ^ 64"
  shows "\<exists>c'. BlockCache_put sid bid b c = Inr c' \<and> cache_ok c' \<and> counts_le (N + 1) c' \<and>
    contents c' = (if contents c (sid, bid) = None \<and> cache_capacity c \<le> length (cache_map c)
                   then (contents c)(victim c := None) else contents c)((sid, bid) \<mapsto> b)"
proof (cases "map_of (cache_map c) (sid, bid)")
  case None
  moreover have "contents c (sid, bid) = None"
    using assms(1) None by (auto simp: cache_ok_def intro: contents_None)
  ultimately show ?thesis
    using put_miss_ok [OF assms(1,2) None, of b] by auto
next
  case (Some it)
  moreover have "contents c (sid, bid) \<noteq> None"
    using assms(1) contents_find [of c "next_node c", OF _ Some] by (auto simp: cache_ok_def)
  ultimately show ?thesis
    using put_hit_ok [OF assms Some, of b] by auto
qed

text \<open>
  What a put does to the contents of a cache in a valid state: the block is stored under its key; if the
  key is new and the cache is full, exactly one other item leaves, the least recently used of the
  items accessed fewer than \<open>k\<close> times if there are any, else the least recently used of the others.
\<close>

theorem cache_put_contents:
  assumes "cache_ok c" and "counts_le N c" and "N + 1 < 2 ^ 64"
  shows "\<exists>c'. BlockCache_put sid bid b c = Inr c' \<and> cache_ok c' \<and>
    contents c' = (if contents c (sid, bid) = None \<and> cache_capacity c \<le> length (cache_map c)
                   then (contents c)(victim c := None) else contents c)((sid, bid) \<mapsto> b)"
  using put_any_ok [OF assms] by blast

theorem cache_put_contents_witness:
  "\<exists>c'. BlockCache_put 1 2 (7, new_block 5) (BlockCache_new 1 2) = Inr c' \<and> cache_ok c' \<and>
    contents c' = [(1, 2) \<mapsto> (7, new_block 5)]"
  using cache_put_contents [of "BlockCache_new 1 2" 0 1 2 "(7, new_block 5)"] BlockCache_new_ok [of 1 2]
  by (simp add: BlockCache_new_def)

end
