(* ===== verification/BloomFilter.thy ===== *)
theory BloomFilter
  imports Complex_Main Prelude
begin

unbundle bit_operations_syntax

text \<open>
  \<^verbatim>\<open>BloomFilter\<close> of \<^verbatim>\<open>src/utils/bloom_filter.cpp\<close>. The bit vector is a list of booleans; the double
  hash \<open>h1 + idx * h2\<close> wraps at 64 bits before the reduction modulo the number of bits, as in the code.
  \<^verbatim>\<open>std::hash\<close> is the parameter \<open>h\<close>. A \<^verbatim>\<open>double\<close> is stored as its 64-bit pattern; the constructor reads
  its value through the parameter \<open>dval\<close> and computes the dimensions over the reals, that is
  without the rounding of floating-point arithmetic.

  The filter has no false negatives, and encoding and decoding preserve it bit for bit.
\<close>

record bloom_filter =
  expected_elements :: u64
  false_positive_rate :: u64
  num_bits :: nat
  num_hashes :: nat
  bits :: "bool list"

definition bloom_m :: "u64 \<Rightarrow> real \<Rightarrow> real" where
  "bloom_m n p = - real (unat n) * ln p / (ln 2) ^ 2"

definition BloomFilter_new :: "(u64 \<Rightarrow> real) \<Rightarrow> u64 \<Rightarrow> u64 \<Rightarrow> bloom_filter" where
  "BloomFilter_new dval n p =
     (let m = bloom_m n (dval p); nb = nat \<lceil>m\<rceil> in
      \<lparr>expected_elements = n, false_positive_rate = p, num_bits = nb,
       num_hashes = nat \<lceil>m / real (unat n) * ln 2\<rceil>, bits = replicate nb False\<rparr>)"

definition hash1 :: "(string \<Rightarrow> u64) \<Rightarrow> string \<Rightarrow> u64" where
  "hash1 h key = h key"

definition hash2 :: "(string \<Rightarrow> u64) \<Rightarrow> string \<Rightarrow> u64" where
  "hash2 h key = h (key @ ''salt'')"

definition bloom_hash :: "(string \<Rightarrow> u64) \<Rightarrow> bloom_filter \<Rightarrow> string \<Rightarrow> nat \<Rightarrow> nat result" where
  "bloom_hash h bf key idx =
     (if num_bits bf = 0 then Inl Undefined_behaviour
      else Inr (unat (hash1 h key + of_nat idx * hash2 h key) mod num_bits bf))"

primrec bloom_add_loop :: "(string \<Rightarrow> u64) \<Rightarrow> string \<Rightarrow> nat list \<Rightarrow> bloom_filter \<Rightarrow> bloom_filter result" where
  "bloom_add_loop h key [] bf = Inr bf"
| "bloom_add_loop h key (i # is) bf =
     bindE (bloom_hash h bf key i) (\<lambda>p.
       if p < length (bits bf) then bloom_add_loop h key is (bf\<lparr>bits := (bits bf)[p := True]\<rparr>)
       else Inl Undefined_behaviour)"

definition BloomFilter_add :: "(string \<Rightarrow> u64) \<Rightarrow> string \<Rightarrow> bloom_filter \<Rightarrow> bloom_filter result" where
  "BloomFilter_add h key bf = bloom_add_loop h key [0..<num_hashes bf] bf"

primrec bloom_test_loop :: "(string \<Rightarrow> u64) \<Rightarrow> string \<Rightarrow> nat list \<Rightarrow> bloom_filter \<Rightarrow> bool result" where
  "bloom_test_loop h key [] bf = Inr True"
| "bloom_test_loop h key (i # is) bf =
     bindE (bloom_hash h bf key i) (\<lambda>bit_idx.
       if bit_idx < length (bits bf) then
         if \<not> bits bf ! bit_idx then Inr False else bloom_test_loop h key is bf
       else Inl Undefined_behaviour)"

definition possibly_contains :: "(string \<Rightarrow> u64) \<Rightarrow> string \<Rightarrow> bloom_filter \<Rightarrow> bool result" where
  "possibly_contains h key bf = bloom_test_loop h key [0..<num_hashes bf] bf"

definition BloomFilter_clear :: "bloom_filter \<Rightarrow> bloom_filter" where
  "BloomFilter_clear bf = bf\<lparr>bits := replicate (length (bits bf)) False\<rparr>"

primrec pack_byte :: "bool list \<Rightarrow> nat \<Rightarrow> nat \<Rightarrow> nat list \<Rightarrow> byte \<Rightarrow> byte result" where
  "pack_byte bs nb i [] b = Inr b"
| "pack_byte bs nb i (j # js) b =
     (if i * 8 + j < nb then
        if i * 8 + j < length bs
        then pack_byte bs nb i js (b OR push_bit j (of_bool (bs ! (i * 8 + j))))
        else Inl Undefined_behaviour
      else pack_byte bs nb i js b)"

definition BloomFilter_encode :: "bloom_filter \<Rightarrow> bytes result" where
  "BloomFilter_encode bf =
     bindE (mapE (\<lambda>i. pack_byte (bits bf) (num_bits bf) i [0..<8] 0) [0..<(num_bits bf + 7) div 8])
       (\<lambda>packed.
         Inr (u64_bytes (expected_elements bf) @ u64_bytes (false_positive_rate bf) @
              u64_bytes (of_nat (num_bits bf)) @ u64_bytes (of_nat (num_hashes bf)) @ packed))"

primrec unpack_byte :: "byte \<Rightarrow> nat \<Rightarrow> nat \<Rightarrow> nat list \<Rightarrow> bool list \<Rightarrow> bool list" where
  "unpack_byte b nb i [] bs = bs"
| "unpack_byte b nb i (j # js) bs =
     unpack_byte b nb i js
       (if i * 8 + j < nb then bs[i * 8 + j := (drop_bit j b AND 1 \<noteq> 0)] else bs)"

primrec unpack_loop :: "bytes \<Rightarrow> nat \<Rightarrow> nat \<Rightarrow> nat list \<Rightarrow> bool list \<Rightarrow> bool list result" where
  "unpack_loop dat nb index [] bs = Inr bs"
| "unpack_loop dat nb index (i # is) bs =
     bindE (read_u8 dat index) (\<lambda>b. unpack_loop dat nb (index + 1) is (unpack_byte b nb i [0..<8] bs))"

definition BloomFilter_decode :: "bytes \<Rightarrow> bloom_filter result" where
  "BloomFilter_decode dat =
     bindE (read_u64 dat 0) (\<lambda>ee.
     bindE (read_u64 dat 8) (\<lambda>fpr.
     bindE (read_u64 dat 16) (\<lambda>nb.
     bindE (read_u64 dat 24) (\<lambda>nh.
     bindE (unpack_loop dat (unat nb) 32 [0..<(unat nb + 7) div 8] (replicate (unat nb) False)) (\<lambda>bs.
       Inr \<lparr>expected_elements = ee, false_positive_rate = fpr, num_bits = unat nb,
            num_hashes = unat nh, bits = bs\<rparr>)))))"

section \<open>No false negatives\<close>

definition bloom_ok :: "bloom_filter \<Rightarrow> bool" where
  "bloom_ok bf \<longleftrightarrow> 0 < num_bits bf \<and> length (bits bf) = num_bits bf"

definition bit_pos :: "(string \<Rightarrow> u64) \<Rightarrow> nat \<Rightarrow> string \<Rightarrow> nat \<Rightarrow> nat" where
  "bit_pos h nb key i = unat (hash1 h key + of_nat i * hash2 h key) mod nb"

lemma bloom_hash_ok: "bloom_ok bf \<Longrightarrow> bloom_hash h bf key i = Inr (bit_pos h (num_bits bf) key i)"
  by (simp add: bloom_hash_def bloom_ok_def bit_pos_def)

lemma bit_pos_less: "bloom_ok bf \<Longrightarrow> bit_pos h (num_bits bf) key i < length (bits bf)"
  by (simp add: bloom_ok_def bit_pos_def)

lemma bloom_add_loop_ok:
  assumes "bloom_ok bf"
  shows "\<exists>bf'. bloom_add_loop h key is bf = Inr bf' \<and> bloom_ok bf' \<and> num_bits bf' = num_bits bf \<and>
    num_hashes bf' = num_hashes bf \<and>
    (\<forall>p < num_bits bf. bits bf' ! p \<longleftrightarrow> bits bf ! p \<or> p \<in> bit_pos h (num_bits bf) key ` set is)"
  using assms
proof (induction "is" arbitrary: bf)
  case Nil
  then show ?case by simp
next
  case (Cons i "is")
  let ?p = "bit_pos h (num_bits bf) key i"
  let ?bf = "bf\<lparr>bits := (bits bf)[?p := True]\<rparr>"
  have ok: "bloom_ok ?bf"
    using Cons.prems by (simp add: bloom_ok_def)
  obtain bf' where "bloom_add_loop h key is ?bf = Inr bf'" "bloom_ok bf'" "num_bits bf' = num_bits bf"
    "num_hashes bf' = num_hashes bf"
    "\<forall>p < num_bits bf. bits bf' ! p \<longleftrightarrow> bits ?bf ! p \<or> p \<in> bit_pos h (num_bits bf) key ` set is"
    using Cons.IH [OF ok] by auto
  moreover have "bits ?bf ! p \<longleftrightarrow> p = ?p \<or> bits bf ! p" if "p < num_bits bf" for p
    using that bit_pos_less [OF Cons.prems, of h key i] by (simp add: nth_list_update)
  ultimately show ?case
    using Cons.prems by (auto simp: bloom_hash_ok bit_pos_less)
qed

lemma bloom_test_loop_ok:
  "bloom_ok bf \<Longrightarrow> bloom_test_loop h key is bf =
     Inr (\<forall>i \<in> set is. bits bf ! bit_pos h (num_bits bf) key i)"
  by (induction "is") (simp_all add: bloom_hash_ok bit_pos_less)

text \<open>Adding several keys in order, as the SST builder does.\<close>

primrec bloom_add_all :: "(string \<Rightarrow> u64) \<Rightarrow> string list \<Rightarrow> bloom_filter \<Rightarrow> bloom_filter result" where
  "bloom_add_all h [] bf = Inr bf"
| "bloom_add_all h (k # ks) bf = bindE (BloomFilter_add h k bf) (bloom_add_all h ks)"

lemma bloom_add_all_ok:
  assumes "bloom_ok bf"
  shows "\<exists>bf'. bloom_add_all h ks bf = Inr bf' \<and> bloom_ok bf' \<and> num_bits bf' = num_bits bf \<and>
    num_hashes bf' = num_hashes bf \<and>
    (\<forall>p < num_bits bf. bits bf' ! p \<longleftrightarrow> bits bf ! p \<or>
       (\<exists>k \<in> set ks. p \<in> bit_pos h (num_bits bf) k ` {0..<num_hashes bf}))"
  using assms
proof (induction ks arbitrary: bf)
  case Nil
  then show ?case by simp
next
  case (Cons k ks)
  obtain bf1 where 1: "BloomFilter_add h k bf = Inr bf1" "bloom_ok bf1" "num_bits bf1 = num_bits bf"
    "num_hashes bf1 = num_hashes bf"
    "\<forall>p < num_bits bf. bits bf1 ! p \<longleftrightarrow> bits bf ! p \<or> p \<in> bit_pos h (num_bits bf) k ` {0..<num_hashes bf}"
    using bloom_add_loop_ok [OF Cons.prems, of h k "[0..<num_hashes bf]"] by (auto simp: BloomFilter_add_def)
  obtain bf2 where "bloom_add_all h ks bf1 = Inr bf2" "bloom_ok bf2" "num_bits bf2 = num_bits bf"
    "num_hashes bf2 = num_hashes bf"
    "\<forall>p < num_bits bf. bits bf2 ! p \<longleftrightarrow> bits bf1 ! p \<or>
       (\<exists>k \<in> set ks. p \<in> bit_pos h (num_bits bf) k ` {0..<num_hashes bf})"
    using Cons.IH [OF 1(2)] 1(3,4) by auto
  with 1 show ?case by auto
qed

lemma bloom_contains_all:
  assumes "bloom_ok bf" and "key \<in> set ks"
  shows "\<exists>bf'. bloom_add_all h ks bf = Inr bf' \<and> bloom_ok bf' \<and> possibly_contains h key bf' = Inr True"
proof -
  obtain bf' where b: "bloom_add_all h ks bf = Inr bf'" "bloom_ok bf'" "num_bits bf' = num_bits bf"
    "num_hashes bf' = num_hashes bf"
    "\<forall>p < num_bits bf. bits bf' ! p \<longleftrightarrow> bits bf ! p \<or>
       (\<exists>k \<in> set ks. p \<in> bit_pos h (num_bits bf) k ` {0..<num_hashes bf})"
    using bloom_add_all_ok [OF assms(1), of h ks] by blast
  have "bits bf' ! bit_pos h (num_bits bf') key i" if "i < num_hashes bf'" for i
  proof -
    have "bit_pos h (num_bits bf) key i \<in> bit_pos h (num_bits bf) key ` {0..<num_hashes bf}"
      using that b(4) by simp
    moreover have "bit_pos h (num_bits bf) key i < num_bits bf"
      using bit_pos_less [OF assms(1), of h key i] assms(1) by (simp add: bloom_ok_def)
    ultimately show ?thesis
      using b(3,5) assms(2) by auto
  qed
  then have "possibly_contains h key bf' = Inr True"
    using bloom_test_loop_ok [OF b(2)] by (simp add: possibly_contains_def)
  with b show ?thesis by blast
qed

text \<open>
  C36: the filter has no false negatives: after any keys were added, in any order, to a filter with at
  least one bit, the test of each of them answers true, and neither adding nor testing leaves
  the bit vector.
\<close>

theorem bloom_no_false_negative:
  assumes "0 < num_bits bf" and "length (bits bf) = num_bits bf" and "key \<in> set ks"
  shows "bindE (bloom_add_all h ks bf) (possibly_contains h key) = Inr True"
  using bloom_contains_all [of bf key ks h] assms by (auto simp: bloom_ok_def)

theorem bloom_no_false_negative_witness:
  "bindE (bloom_add_all (\<lambda>s. of_nat (length s)) [''a'', ''bb'']
       \<lparr>expected_elements = 2, false_positive_rate = 0, num_bits = 10, num_hashes = 3, bits = replicate 10 False\<rparr>)
     (possibly_contains (\<lambda>s. of_nat (length s)) ''a'') = Inr True"
  by (rule bloom_no_false_negative) simp_all

section \<open>The constructor\<close>

text \<open>
  A filter made for at least one element and a false positive rate strictly between 0 and 1 has at
  least one bit and at least one hash function, all bits clear: so the reduction modulo the
  number of bits is defined and the filter excludes every key until something is added.
\<close>

theorem bloom_new_ok:
  assumes "n \<noteq> 0" and "0 < dval p" and "dval p < 1"
  shows "bloom_ok (BloomFilter_new dval n p) \<and> 0 < num_hashes (BloomFilter_new dval n p) \<and>
    possibly_contains h key (BloomFilter_new dval n p) = Inr False"
proof (intro conjI)
  let ?bf = "BloomFilter_new dval n p"
  have "unat n \<noteq> 0"
    using assms(1) by (simp add: unsigned_eq_0_iff)
  then have "0 < real (unat n)"
    by linarith
  moreover have "ln (dval p) < 0"
    using assms by (simp add: ln_less_zero)
  ultimately have m: "0 < bloom_m n (dval p)"
    by (simp add: bloom_m_def mult_pos_neg divide_neg_pos)
  then show ok: "bloom_ok ?bf"
    by (simp add: BloomFilter_new_def Let_def bloom_ok_def)
  show hashes: "0 < num_hashes ?bf"
    using m \<open>0 < real (unat n)\<close> by (simp add: BloomFilter_new_def Let_def)
  have "\<not> bits ?bf ! bit_pos h (num_bits ?bf) key 0"
    using bit_pos_less [OF ok, of h key 0] by (simp add: BloomFilter_new_def Let_def)
  then show "possibly_contains h key ?bf = Inr False"
    using bloom_test_loop_ok [OF ok, of h key "[0..<num_hashes ?bf]"] hashes
    by (auto simp: possibly_contains_def)
qed

theorem bloom_new_ok_witness:
  "bloom_ok (BloomFilter_new (\<lambda>_. 1 / 2) 5 0) \<and> 0 < num_hashes (BloomFilter_new (\<lambda>_. 1 / 2) 5 0)"
  using bloom_new_ok [of 5 "\<lambda>_. 1 / 2" 0] by simp

section \<open>Encoding\<close>

lemma bit_set_byte:
  fixes b :: byte
  assumes "j < 8" and "k < 8"
  shows "bit (b OR push_bit j (of_bool x)) k \<longleftrightarrow> bit b k \<or> (k = j \<and> x)"
  using assms by (auto simp: bit_or_iff bit_push_bit_iff bit_of_bool_iff)

lemma drop_bit_and_one: "drop_bit j (b :: byte) AND 1 \<noteq> 0 \<longleftrightarrow> bit b j"
  by (simp add: bit_iff_odd_drop_bit and_one_eq odd_iff_mod_2_eq_one)

lemma pack_byte_bits:
  assumes "length bs = nb" and "\<forall>j \<in> set js. j < 8"
  shows "\<exists>B. pack_byte bs nb i js b = Inr B \<and>
    (\<forall>k < 8. bit B k \<longleftrightarrow> bit b k \<or> (k \<in> set js \<and> i * 8 + k < nb \<and> bs ! (i * 8 + k)))"
  using assms(2)
proof (induction js arbitrary: b)
  case Nil
  then show ?case by simp
next
  case (Cons j js)
  let ?b = "if i * 8 + j < nb then b OR push_bit j (of_bool (bs ! (i * 8 + j))) else b"
  obtain B where "pack_byte bs nb i js ?b = Inr B"
    "\<forall>k < 8. bit B k \<longleftrightarrow> bit ?b k \<or> (k \<in> set js \<and> i * 8 + k < nb \<and> bs ! (i * 8 + k))"
    using Cons.IH [of ?b] Cons.prems by auto
  moreover have "bit ?b k \<longleftrightarrow> bit b k \<or> (k = j \<and> i * 8 + k < nb \<and> bs ! (i * 8 + k))" if "k < 8" for k
    using bit_set_byte [of j k b] Cons.prems that by auto
  moreover have "pack_byte bs nb i (j # js) b = pack_byte bs nb i js ?b"
    using assms(1) by simp
  ultimately show ?case
    by (intro exI [of _ B]) (auto simp del: pack_byte.simps)
qed

lemma unpack_byte_nth:
  assumes "\<forall>j \<in> set js. j < 8" and "length bs = nb" and "p < nb"
  shows "unpack_byte b nb i js bs ! p \<longleftrightarrow> (if p div 8 = i \<and> p mod 8 \<in> set js then bit b (p mod 8) else bs ! p)"
  using assms
proof (induction js arbitrary: bs)
  case Nil
  then show ?case by simp
next
  case (Cons j js)
  have "p = i * 8 + j \<longleftrightarrow> p div 8 = i \<and> p mod 8 = j"
    using Cons.prems(1) by auto
  with Cons show ?case
    by (auto simp: nth_list_update drop_bit_and_one)
qed

lemma length_unpack_byte [simp]: "length (unpack_byte b nb i js bs) = length bs"
  by (induction js arbitrary: bs) simp_all

lemma unpack_loop_nth:
  assumes "length bs = nb" and "m \<le> length packed" and "n \<le> m" and "length hdr = 32"
  shows "\<exists>bs'. unpack_loop (hdr @ packed) nb (32 + n) [n..<m] bs = Inr bs' \<and> length bs' = nb \<and>
    (\<forall>p < nb. bs' ! p \<longleftrightarrow> (if n \<le> p div 8 \<and> p div 8 < m then bit (packed ! (p div 8)) (p mod 8) else bs ! p))"
  using assms
proof (induction "m - n" arbitrary: n bs)
  case 0
  then show ?case by auto
next
  case (Suc d)
  then have n: "n < m" by simp
  let ?bs = "unpack_byte (packed ! n) nb n [0..<8] bs"
  have "d = m - Suc n" "length ?bs = nb" "Suc n \<le> m"
    using Suc n by simp_all
  from Suc.hyps(1) [OF this(1,2) assms(2) this(3) assms(4)] obtain bs' where
    "unpack_loop (hdr @ packed) nb (32 + Suc n) [Suc n..<m] ?bs = Inr bs'" "length bs' = nb"
    "\<forall>p < nb. bs' ! p \<longleftrightarrow> (if Suc n \<le> p div 8 \<and> p div 8 < m then bit (packed ! (p div 8)) (p mod 8) else ?bs ! p)"
    by blast
  moreover have "read_u8 (hdr @ packed) (32 + n) = Inr (packed ! n)"
    using n assms(2,4) by (simp add: read_u8_def nth_append)
  moreover have "?bs ! p \<longleftrightarrow> (if p div 8 = n then bit (packed ! n) (p mod 8) else bs ! p)" if "p < nb" for p
    using unpack_byte_nth [of "[0..<8]" bs nb p] Suc.prems(1) that by simp
  ultimately show ?case
    using n by (intro exI [of _ bs']) (auto simp: upt_conv_Cons Suc_le_eq)
qed

lemma bloom_decode_encode_ok:
  assumes "length (bits bf) = num_bits bf" and "num_bits bf < 2 ^ 64" and "num_hashes bf < 2 ^ 64"
  shows "bindE (BloomFilter_encode bf) BloomFilter_decode = Inr bf"
proof -
  let ?nb = "num_bits bf" and ?n = "(num_bits bf + 7) div 8"
  have "\<forall>i. \<exists>B. pack_byte (bits bf) ?nb i [0..<8] 0 = Inr B \<and>
      (\<forall>k < 8. bit B k \<longleftrightarrow> i * 8 + k < ?nb \<and> bits bf ! (i * 8 + k))"
    using pack_byte_bits [OF assms(1), of "[0..<8]" _ 0] by simp
  from choice [OF this] obtain B where pack: "pack_byte (bits bf) ?nb i [0..<8] 0 = Inr (B i)"
      "\<forall>k < 8. bit (B i) k \<longleftrightarrow> i * 8 + k < ?nb \<and> bits bf ! (i * 8 + k)" for i
    by blast
  let ?packed = "map B [0..<?n]"
  let ?h1 = "u64_bytes (expected_elements bf)" and ?h2 = "u64_bytes (false_positive_rate bf)"
  let ?h3 = "u64_bytes (of_nat ?nb)" and ?h4 = "u64_bytes (of_nat (num_hashes bf))"
  let ?dat = "?h1 @ ?h2 @ ?h3 @ ?h4 @ ?packed"
  have enc: "BloomFilter_encode bf = Inr ?dat"
    using mapE_Inr [of "[0..<?n]" "\<lambda>i. pack_byte (bits bf) ?nb i [0..<8] 0" B] pack(1)
    by (simp add: BloomFilter_encode_def)
  have r: "read_u64 ?dat 0 = Inr (expected_elements bf)" "read_u64 ?dat 8 = Inr (false_positive_rate bf)"
    "read_u64 ?dat 16 = Inr (of_nat ?nb)" "read_u64 ?dat 24 = Inr (of_nat (num_hashes bf))"
    using read_u64_middle [of 0 "[]" "expected_elements bf" "?h2 @ ?h3 @ ?h4 @ ?packed"]
      read_u64_middle [of 8 ?h1 "false_positive_rate bf" "?h3 @ ?h4 @ ?packed"]
      read_u64_middle [of 16 "?h1 @ ?h2" "of_nat ?nb" "?h4 @ ?packed"]
      read_u64_middle [of 24 "?h1 @ ?h2 @ ?h3" "of_nat (num_hashes bf)" ?packed]
    by simp_all
  have u: "unat (of_nat ?nb :: u64) = ?nb" "unat (of_nat (num_hashes bf) :: u64) = num_hashes bf"
    using assms(2,3) by (simp_all add: unat_of_nat)
  obtain bs where bs: "unpack_loop ?dat ?nb 32 [0..<?n] (replicate ?nb False) = Inr bs" "length bs = ?nb"
    "\<forall>p < ?nb. bs ! p \<longleftrightarrow> (if p div 8 < ?n then bit (?packed ! (p div 8)) (p mod 8) else False)"
    using unpack_loop_nth [of "replicate ?nb False" ?nb ?n ?packed 0 "?h1 @ ?h2 @ ?h3 @ ?h4"] by auto
  have "bs = bits bf"
  proof (intro nth_equalityI)
    fix p assume "p < length bs"
    then have p: "p < ?nb" "p div 8 < ?n" "p mod 8 < 8" using bs(2) by auto
    have "bs ! p \<longleftrightarrow> bit (B (p div 8)) (p mod 8)"
      using bs(3) p by simp
    also have "\<dots> \<longleftrightarrow> bits bf ! p"
      using pack(2) [of "p div 8"] p by simp
    finally show "bs ! p = bits bf ! p" .
  qed (use bs(2) assms(1) in simp)
  with enc r u bs(1) show ?thesis
    by (simp add: BloomFilter_decode_def)
qed

text \<open>
  A decoded filter is the filter that was encoded, so it answers every query alike.
\<close>

theorem bloom_decode_encode:
  assumes "length (bits bf) = num_bits bf" and "num_bits bf < 2 ^ 64" and "num_hashes bf < 2 ^ 64"
  shows "bindE (BloomFilter_encode bf) BloomFilter_decode = Inr bf"
  by (rule bloom_decode_encode_ok [OF assms])

theorem bloom_decode_encode_witness:
  "bindE (BloomFilter_encode \<lparr>expected_elements = 2, false_positive_rate = 3, num_bits = 10, num_hashes = 3,
       bits = replicate 10 True\<rparr>) BloomFilter_decode =
     Inr \<lparr>expected_elements = 2, false_positive_rate = 3, num_bits = 10, num_hashes = 3, bits = replicate 10 True\<rparr>"
  by (rule bloom_decode_encode) simp_all

end
