(* ===== verification/VLog.thy ===== *)
theory VLog
  imports FileIO Block
begin

unbundle bit_operations_syntax

text \<open>
  The value log: \<^verbatim>\<open>VLog\<close> of \<^verbatim>\<open>src/vlog/vlog.cpp\<close>, where values above the threshold are kept
  outside the SSTs. The checksum is the bitwise CRC-32 loop of the code on 32-bit words; a
  record is assembled with \<^verbatim>\<open>memcpy\<close> and appended to the file of \<open>FileIO\<close>.

  Every value appended stays readable at the offset its append returned, however many records
  follow: a consequence of the contract \<open>append_log\<close> of the file layer.
\<close>

record vlog =
  vlog_file :: std_file
  vlog_path :: string

section \<open>CRC-32\<close>

primrec crc32_bits :: "nat \<Rightarrow> u32 \<Rightarrow> u32" where
  "crc32_bits 0 crc = crc"
| "crc32_bits (Suc j) crc =
     crc32_bits j (if crc AND 1 \<noteq> 0 then drop_bit 1 crc XOR 0xEDB88320 else drop_bit 1 crc)"

primrec crc32_loop :: "bytes \<Rightarrow> u32 \<Rightarrow> u32" where
  "crc32_loop [] crc = crc"
| "crc32_loop (b # bs) crc = crc32_loop bs (crc32_bits 8 (crc XOR ucast b))"

definition crc32_compute :: "bytes \<Rightarrow> u32" where
  "crc32_compute dat = crc32_loop dat 0xFFFFFFFF XOR 0xFFFFFFFF"

section \<open>Operations\<close>

definition VLog_open :: "filesys \<Rightarrow> string \<Rightarrow> (filesys \<times> vlog) result" where
  "VLog_open fs path =
     (let fs = (if dir fs path = None then fst (StdFile_open fs path True) else fs) in
      bindE (FileObj_open fs path False) (\<lambda>(fs, f). Inr (fs, \<lparr>vlog_file = f, vlog_path = path\<rparr>)))"

definition vlog_buffer :: "string \<Rightarrow> string \<Rightarrow> bytes result" where
  "vlog_buffer key val =
     (let key_len = of_nat (length key) :: u16; kl = unat key_len;
          val_len = of_nat (length val) :: u32; vl = unat val_len;
          buf = replicate (2 + kl + 4 + vl + 4) 0
      in bindE (memwrite buf 0 (u16_bytes key_len)) (\<lambda>buf.
         bindE (memwrite buf 2 (str_bytes (take kl key))) (\<lambda>buf.
         bindE (memwrite buf (2 + kl) (u32_bytes val_len)) (\<lambda>buf.
         bindE (memwrite buf (2 + kl + 4) (str_bytes (take vl val))) (\<lambda>buf.
         let pos = 2 + kl + 4 + vl; crc = crc32_compute (take pos buf) in
         memwrite buf pos (u32_bytes crc))))))"

definition VLog_append :: "filesys \<Rightarrow> vlog \<Rightarrow> string \<Rightarrow> string \<Rightarrow> (filesys \<times> u64) result" where
  "VLog_append fs v key val =
     (let offset = of_nat (FileObj_size fs (vlog_file v)) :: u64 in
      bindE (vlog_buffer key val) (\<lambda>buf.
        case FileObj_append fs (vlog_file v) buf of
          (fs', ok) \<Rightarrow>
            if \<not> ok then Inl (Runtime_error ''VLog::append: failed to write record'')
            else Inr (fs', offset)))"

definition VLog_read_value :: "filesys \<Rightarrow> vlog \<Rightarrow> u64 \<Rightarrow> u32 \<Rightarrow> string result" where
  "VLog_read_value fs v offset value_size =
     bindE (FileObj_read_to_slice fs (vlog_file v) (unat offset) 2) (\<lambda>key_len_bytes.
     bindE (read_u16 key_len_bytes 0) (\<lambda>key_len.
       let val_offset = offset + 2 + ucast key_len + 4 in
       bindE (FileObj_read_to_slice fs (vlog_file v) (unat val_offset) (unat value_size)) (\<lambda>val_bytes.
         Inr (bytes_str val_bytes))))"

definition VLog_tail_offset :: "filesys \<Rightarrow> vlog \<Rightarrow> u64" where
  "VLog_tail_offset fs v = of_nat (FileObj_size fs (vlog_file v))"

definition VLog_sync :: "vlog \<Rightarrow> bool" where
  "VLog_sync v = FileObj_sync (vlog_file v)"

definition VLog_del_vlog :: "filesys \<Rightarrow> vlog \<Rightarrow> filesys" where
  "VLog_del_vlog fs v = FileObj_del_file fs (vlog_file v)"

section \<open>Records\<close>

definition vlog_body :: "string \<Rightarrow> string \<Rightarrow> bytes" where
  "vlog_body key val = u16_bytes (of_nat (length key)) @ str_bytes key @
     u32_bytes (of_nat (length val)) @ str_bytes val"

definition vlog_record :: "string \<Rightarrow> string \<Rightarrow> bytes" where
  "vlog_record key val = vlog_body key val @ u32_bytes (crc32_compute (vlog_body key val))"

lemma length_vlog_record [simp]: "length (vlog_record key val) = 10 + length key + length val"
  by (simp add: vlog_record_def vlog_body_def)

lemma unat_u32_of_nat: "n < 4294967296 \<Longrightarrow> unat (of_nat n :: u32) = n"
  by (simp add: unat_of_nat)

lemma unat_u64_of_nat: "n < 2 ^ 64 \<Longrightarrow> unat (of_nat n :: u64) = n"
  by (simp add: unat_of_nat)

lemma vlog_buffer_record:
  assumes "length key < 2 ^ 16" and "length val < 2 ^ 32"
  shows "vlog_buffer key val = Inr (vlog_record key val)"
proof -
  let ?k = "u16_bytes (of_nat (length key))" and ?ks = "str_bytes key"
  let ?v = "u32_bytes (of_nat (length val))" and ?vs = "str_bytes val"
  let ?nk = "length key" and ?nv = "length val" and ?c = "u32_bytes (crc32_compute (vlog_body key val))"
  note w = memwrite_append
  have 1: "memwrite (replicate (2 + ?nk + 4 + ?nv + 4) 0) 0 ?k = Inr (?k @ replicate (8 + ?nk + ?nv) 0)"
    using w [of 0 "[]" ?k "replicate (2 + ?nk + 4 + ?nv + 4) 0"] by (simp add: ac_simps)
  have 2: "memwrite (?k @ replicate (8 + ?nk + ?nv) 0) 2 ?ks = Inr (?k @ ?ks @ replicate (8 + ?nv) 0)"
    using w [of 2 ?k ?ks "replicate (8 + ?nk + ?nv) 0"] by simp
  have 3: "memwrite (?k @ ?ks @ replicate (8 + ?nv) 0) (2 + ?nk) ?v = Inr (?k @ ?ks @ ?v @ replicate (4 + ?nv) 0)"
    using w [of "2 + ?nk" "?k @ ?ks" ?v "replicate (8 + ?nv) 0"] by simp
  have 4: "memwrite (?k @ ?ks @ ?v @ replicate (4 + ?nv) 0) (2 + ?nk + 4) ?vs =
      Inr (?k @ ?ks @ ?v @ ?vs @ replicate 4 0)"
    using w [of "2 + ?nk + 4" "?k @ ?ks @ ?v" ?vs "replicate (4 + ?nv) 0"] by simp
  have body: "take (2 + ?nk + 4 + ?nv) (?k @ ?ks @ ?v @ ?vs @ replicate 4 0) = vlog_body key val"
    by (simp add: vlog_body_def)
  have 5: "memwrite (?k @ ?ks @ ?v @ ?vs @ replicate 4 0) (2 + ?nk + 4 + ?nv) ?c =
      Inr (?k @ ?ks @ ?v @ ?vs @ ?c)"
    using w [of "2 + ?nk + 4 + ?nv" "?k @ ?ks @ ?v @ ?vs" ?c "replicate 4 0"] by simp
  have len: "unat (of_nat ?nk :: u16) = ?nk" "unat (of_nat ?nv :: u32) = ?nv"
    using assms by (simp_all add: unat_of_nat)
  show ?thesis
    unfolding vlog_buffer_def Let_def len
    using 1 2 3 4 5 body by (simp only: bindE_simps take_all order_refl) (simp add: vlog_record_def vlog_body_def)
qed

lemma VLog_append_ok:
  assumes "StdFile_is_open (vlog_file v)" and "length key < 2 ^ 16" and "length val < 2 ^ 32"
  shows "VLog_append fs v key val =
    Inr (fst (append_file (fs, vlog_file v) (vlog_record key val)), of_nat (FileObj_size fs (vlog_file v)))"
  using assms
  by (auto simp: VLog_append_def vlog_buffer_record append_file_def StdFile_is_open_def FileObj_append_Some)

primrec VLog_append_all ::
  "filesys \<Rightarrow> vlog \<Rightarrow> (string \<times> string) list \<Rightarrow> (filesys \<times> u64 list) result" where
  "VLog_append_all fs v [] = Inr (fs, [])"
| "VLog_append_all fs v (kv # kvs) =
     bindE (VLog_append fs v (fst kv) (snd kv)) (\<lambda>(fs, off).
     bindE (VLog_append_all fs v kvs) (\<lambda>(fs, offs). Inr (fs, off # offs)))"

definition small_kv :: "string \<times> string \<Rightarrow> bool" where
  "small_kv kv \<longleftrightarrow> length (fst kv) < 2 ^ 16 \<and> length (snd kv) < 2 ^ 32"

definition vlog_records :: "(string \<times> string) list \<Rightarrow> bytes list" where
  "vlog_records kvs = map (\<lambda>kv. vlog_record (fst kv) (snd kv)) kvs"

lemma append_file_handle [simp]: "snd (append_file s bs) = snd s"
  by (simp add: append_file_def)

lemma append_files_handle [simp]: "snd (foldl append_file s bss) = snd s"
  by (induction bss arbitrary: s) simp_all

lemma size_append_file:
  assumes "StdFile_is_open f"
  shows "FileObj_size (fst (append_file (fs, f) bs)) f = FileObj_size fs f + length bs"
  using fo.content_append [of "(fs, f)" bs] assms
  by (simp add: FileObj_size_content append_file_def)

lemma VLog_append_all_files:
  assumes "StdFile_is_open (vlog_file v)" and "\<forall>kv \<in> set kvs. small_kv kv"
  shows "VLog_append_all fs v kvs =
    Inr (fst (foldl append_file (fs, vlog_file v) (vlog_records kvs)),
         map (\<lambda>i. of_nat (FileObj_size fs (vlog_file v) + length (concat (take i (vlog_records kvs)))))
           [0..<length kvs])"
  using assms(2)
proof (induction kvs arbitrary: fs)
  case Nil
  then show ?case by (simp add: vlog_records_def)
next
  case (Cons kv kvs)
  let ?r = "vlog_record (fst kv) (snd kv)" and ?f = "vlog_file v"
  obtain fs1 where s: "append_file (fs, ?f) ?r = (fs1, ?f)"
    by (simp add: append_file_def)
  have "FileObj_size fs1 ?f = FileObj_size fs ?f + length ?r"
    using size_append_file [OF assms(1), of fs ?r] s by simp
  moreover have "VLog_append fs v (fst kv) (snd kv) = Inr (fs1, of_nat (FileObj_size fs ?f))"
    using VLog_append_ok [OF assms(1)] Cons.prems s by (simp add: small_kv_def)
  moreover have "[0..<length (kv # kvs)] = 0 # map Suc [0..<length kvs]"
    by (simp add: map_Suc_upt upt_conv_Cons del: upt_Suc)
  ultimately show ?case
    using Cons.IH [of fs1] Cons.prems s by (simp add: vlog_records_def add.assoc del: upt_Suc)
qed

lemma read_value_record:
  assumes "StdFile_is_open (vlog_file v)" and "small_kv (key, val)"
    and "FileObj_size fs (vlog_file v) + 10 + length key + length val < 2 ^ 64"
  shows "VLog_read_value (fst (foldl append_file (append_file (fs, vlog_file v) (vlog_record key val)) later)) v
      (of_nat (FileObj_size fs (vlog_file v))) (of_nat (length val)) = Inr val"
proof -
  let ?f = "vlog_file v" and ?n = "FileObj_size fs (vlog_file v)"
  let ?s = "foldl append_file (append_file (fs, ?f) (vlog_record key val)) later"
  have snd: "snd ?s = ?f"
    by simp
  have kl: "length key < 65536" and vl: "length val < 4294967296"
    using assms(2) by (simp_all add: small_kv_def)
  have "FileObj_read_to_slice (fst ?s) ?f (?n + 0) 2 = Inr (take 2 (drop 0 (vlog_record key val)))"
    using fo.read_record [of "(fs, ?f)" 0 2 "vlog_record key val" later] assms(1,3) by (simp add: snd)
  then have r1: "FileObj_read_to_slice (fst ?s) ?f ?n 2 = Inr (u16_bytes (of_nat (length key)))"
    by (simp add: vlog_record_def vlog_body_def)
  have "FileObj_read_to_slice (fst ?s) ?f (?n + (6 + length key)) (length val) =
      Inr (take (length val) (drop (6 + length key) (vlog_record key val)))"
    using fo.read_record [of "(fs, ?f)" "6 + length key" "length val" "vlog_record key val" later] assms(1,3)
    by (simp add: snd)
  then have r2: "FileObj_read_to_slice (fst ?s) ?f (?n + 6 + length key) (length val) = Inr (str_bytes val)"
    by (simp add: vlog_record_def vlog_body_def add.assoc)
  have off: "of_nat ?n + 2 + ucast (of_nat (length key) :: u16) + 4 = (of_nat (?n + 6 + length key) :: u64)"
  proof -
    have "ucast (of_nat (length key) :: u16) = (of_nat (length key) :: u64)"
      using kl by (simp add: unsigned_of_nat take_bit_nat_eq_self)
    then show ?thesis by simp
  qed
  have u: "unat (of_nat ?n :: u64) = ?n" "unat (of_nat (?n + 6 + length key) :: u64) = ?n + 6 + length key"
    "unat (of_nat (length val) :: u32) = length val"
    using assms(3) vl by (intro unat_u64_of_nat unat_u32_of_nat; simp)+
  have "read_u16 (u16_bytes (of_nat (length key))) 0 = Inr (of_nat (length key))"
    using read_u16_middle [of 0 "[]" "of_nat (length key)" "[]"] by simp
  then show ?thesis
    using r1 r2 u off by (simp only: VLog_read_value_def bindE_simps Let_def bytes_str_str_bytes)
qed

lemma size_append_files:
  assumes "StdFile_is_open f"
  shows "FileObj_size (fst (foldl append_file (fs, f) bss)) f = FileObj_size fs f + length (concat bss)"
  using fo.content_appends [of "(fs, f)" bss] assms append_files_handle [of "(fs, f)" bss]
  by (metis FileObj_size_content length_append prod.collapse snd_conv)

text \<open>
  C35: any list of keys and values appended to an open value log can be read back: every append returns
  an offset at which \<^verbatim>\<open>read_value\<close> with the length of the value returns exactly that value,
  after all the appends, whatever the log held before (as long as the file stays
  below \<open>2 ^ 64\<close> bytes, keys below 64 KB and values below 4 GB).
\<close>

theorem vlog_read_back:
  assumes "StdFile_is_open (vlog_file v)" and "\<forall>kv \<in> set kvs. small_kv kv"
    and "FileObj_size fs (vlog_file v) + length (concat (vlog_records kvs)) < 2 ^ 64"
  shows "\<exists>fs' offs. VLog_append_all fs v kvs = Inr (fs', offs) \<and> length offs = length kvs \<and>
    (\<forall>i < length kvs. VLog_read_value fs' v (offs ! i) (of_nat (length (snd (kvs ! i)))) = Inr (snd (kvs ! i)))"
proof -
  let ?f = "vlog_file v" and ?rs = "vlog_records kvs"
  let ?fs = "fst (foldl append_file (fs, ?f) ?rs)"
  let ?offs = "map (\<lambda>i. of_nat (FileObj_size fs ?f + length (concat (take i ?rs)))) [0..<length kvs] :: u64 list"
  have "VLog_read_value ?fs v (?offs ! i) (of_nat (length (snd (kvs ! i)))) = Inr (snd (kvs ! i))"
    if i: "i < length kvs" for i
  proof -
    obtain k x where kv: "kvs ! i = (k, x)" by (cases "kvs ! i")
    let ?fsi = "fst (foldl append_file (fs, ?f) (take i ?rs))"
    have split: "?rs = take i ?rs @ vlog_record k x # drop (Suc i) ?rs"
      using i kv id_take_nth_drop [of i ?rs] by (simp add: vlog_records_def)
    have "foldl append_file (fs, ?f) ?rs =
        foldl append_file (append_file (foldl append_file (fs, ?f) (take i ?rs)) (vlog_record k x)) (drop (Suc i) ?rs)"
      by (subst split) simp
    moreover have "foldl append_file (fs, ?f) (take i ?rs) = (?fsi, ?f)"
      by (metis append_files_handle prod.collapse snd_conv)
    ultimately have fs: "?fs = fst (foldl append_file (append_file (?fsi, ?f) (vlog_record k x)) (drop (Suc i) ?rs))"
      by simp
    have size: "FileObj_size ?fsi ?f = FileObj_size fs ?f + length (concat (take i ?rs))"
      using size_append_files [OF assms(1)] .
    have "length (concat ?rs) = length (concat (take i ?rs)) + length (vlog_record k x) +
        length (concat (drop (Suc i) ?rs))"
      by (subst split) simp
    then have "FileObj_size ?fsi ?f + 10 + length k + length x < 2 ^ 64"
      using assms(3) size by simp
    moreover have "small_kv (k, x)"
      using assms(2) i kv by (metis nth_mem)
    ultimately have "VLog_read_value ?fs v (of_nat (FileObj_size ?fsi ?f)) (of_nat (length x)) = Inr x"
      unfolding fs using read_value_record [OF assms(1)] by blast
    then show ?thesis
      using i kv size by simp
  qed
  then show ?thesis
    using VLog_append_all_files [OF assms(1,2), of fs] by auto
qed

theorem vlog_read_back_witness:
  "let f = \<lparr>fd = Some 0, file_path = ''v''\<rparr>; v = \<lparr>vlog_file = f, vlog_path = ''v''\<rparr>;
       kvs = [(''a'', ''xyz''), (''b'', '''')] in
   \<exists>fs' offs. VLog_append_all empty_fs v kvs = Inr (fs', offs) \<and> length offs = length kvs \<and>
    (\<forall>i < length kvs. VLog_read_value fs' v (offs ! i) (of_nat (length (snd (kvs ! i)))) = Inr (snd (kvs ! i)))"
  unfolding Let_def
  by (rule vlog_read_back)
    (simp_all add: StdFile_is_open_def small_kv_def FileObj_size_def StdFile_size_def empty_fs_def vlog_records_def)

text \<open>
  Opening a value log never loses it: on a path that exists the file is opened with its content, on a
  path that does not exist an empty file is created.
\<close>

theorem vlog_open_keeps:
  "\<exists>fs' v. VLog_open fs path = Inr (fs', v) \<and> StdFile_is_open (vlog_file v) \<and>
    file_content (fs', vlog_file v) = (case dir fs path of None \<Rightarrow> [] | Some i \<Rightarrow> inodes fs i)"
  by (cases "dir fs path")
    (simp_all add: VLog_open_def FileObj_open_def StdFile_open_def file_content_def StdFile_is_open_def Let_def)

end
