(* ===== verification/WalRecord.thy ===== *)
theory WalRecord
  imports Block
begin

text \<open>
  Records of the write-ahead log: \<^verbatim>\<open>Record\<close> of \<^verbatim>\<open>src/wal/record.cpp\<close>. The five factory functions
  compute the 16-bit record length (which wraps), \<^verbatim>\<open>encode\<close> copies the fields into a buffer of that
  length, \<^verbatim>\<open>decode\<close> walks a buffer of records. A copy outside the buffer is
  \<open>Undefined_behaviour\<close>.

  Decoding the concatenation of encoded records gives back the records; a put whose encoding does
  not fit the 16-bit length writes outside its buffer.
\<close>

text \<open>\<open>OP_UNKNOWN\<close>: the cast of a byte that is none of the enumerators.\<close>

datatype operation_type = OP_CREATE | OP_COMMIT | OP_ROLLBACK | OP_PUT | OP_DELETE | OP_UNKNOWN byte

record wal_record =
  r_tranc_id :: u64
  r_operation_type :: operation_type
  r_key :: string
  r_value :: string
  r_record_len :: u16

definition op_byte :: "operation_type \<Rightarrow> byte" where
  "op_byte t = (case t of OP_CREATE \<Rightarrow> 0 | OP_COMMIT \<Rightarrow> 1 | OP_ROLLBACK \<Rightarrow> 2 | OP_PUT \<Rightarrow> 3
     | OP_DELETE \<Rightarrow> 4 | OP_UNKNOWN b \<Rightarrow> b)"

definition op_of_byte :: "byte \<Rightarrow> operation_type" where
  "op_of_byte b = (if b = 0 then OP_CREATE else if b = 1 then OP_COMMIT else if b = 2 then OP_ROLLBACK
     else if b = 3 then OP_PUT else if b = 4 then OP_DELETE else OP_UNKNOWN b)"

definition createRecord :: "u64 \<Rightarrow> wal_record" where
  "createRecord t = \<lparr>r_tranc_id = t, r_operation_type = OP_CREATE, r_key = [], r_value = [],
     r_record_len = 2 + 8 + 1\<rparr>"

definition commitRecord :: "u64 \<Rightarrow> wal_record" where
  "commitRecord t = \<lparr>r_tranc_id = t, r_operation_type = OP_COMMIT, r_key = [], r_value = [],
     r_record_len = 2 + 8 + 1\<rparr>"

definition rollbackRecord :: "u64 \<Rightarrow> wal_record" where
  "rollbackRecord t = \<lparr>r_tranc_id = t, r_operation_type = OP_ROLLBACK, r_key = [], r_value = [],
     r_record_len = 2 + 8 + 1\<rparr>"

definition putRecord :: "u64 \<Rightarrow> string \<Rightarrow> string \<Rightarrow> wal_record" where
  "putRecord t key val = \<lparr>r_tranc_id = t, r_operation_type = OP_PUT, r_key = key, r_value = val,
     r_record_len = of_nat (2 + 8 + 1 + 2 + length key + 2 + length val)\<rparr>"

definition deleteRecord :: "u64 \<Rightarrow> string \<Rightarrow> wal_record" where
  "deleteRecord t key = \<lparr>r_tranc_id = t, r_operation_type = OP_DELETE, r_key = key, r_value = [],
     r_record_len = of_nat (2 + 8 + 1 + 2 + length key)\<rparr>"

definition Record_encode :: "wal_record \<Rightarrow> bytes result" where
  "Record_encode r =
     (let key_offset = 2 + 8 + 1; buf = resize (unat (r_record_len r)) [] in
      bindE (memwrite buf 0 (u16_bytes (r_record_len r))) (\<lambda>buf.
      bindE (memwrite buf 2 (u64_bytes (r_tranc_id r))) (\<lambda>buf.
      bindE (memwrite buf (2 + 8) [op_byte (r_operation_type r)]) (\<lambda>buf.
        if r_operation_type r = OP_PUT then
          bindE (memwrite buf key_offset (u16_bytes (of_nat (length (r_key r))))) (\<lambda>buf.
          bindE (memwrite buf (key_offset + 2) (str_bytes (r_key r))) (\<lambda>buf.
          let value_offset = key_offset + 2 + length (r_key r) in
          bindE (memwrite buf value_offset (u16_bytes (of_nat (length (r_value r))))) (\<lambda>buf.
            memwrite buf (value_offset + 2) (str_bytes (r_value r)))))
        else if r_operation_type r = OP_DELETE then
          bindE (memwrite buf key_offset (u16_bytes (of_nat (length (r_key r))))) (\<lambda>buf.
            memwrite buf (key_offset + 2) (str_bytes (r_key r)))
        else Inr buf))))"

text \<open>One round of the loop of \<^verbatim>\<open>decode\<close>: the record at \<open>pos\<close> and the position after it.\<close>

definition Record_decode_one :: "bytes \<Rightarrow> nat \<Rightarrow> (wal_record \<times> nat) result" where
  "Record_decode_one dat pos =
     bindE (read_u16 dat pos) (\<lambda>record_len.
       if length dat < unat record_len then
         Inl (Runtime_error ''Data length does not match record length'')
       else
         bindE (read_u64 dat (pos + 2)) (\<lambda>tranc_id.
         bindE (read_u8 dat (pos + 10)) (\<lambda>op_type.
         let operation_type = op_of_byte op_type;
             r = \<lparr>r_tranc_id = tranc_id, r_operation_type = operation_type, r_key = [], r_value = [],
                  r_record_len = record_len\<rparr>;
             pos = pos + 11
         in
         if operation_type = OP_PUT then
           bindE (read_u16 dat pos) (\<lambda>key_len.
           bindE (read_str dat (pos + 2) (unat key_len)) (\<lambda>key.
           let pos = pos + 2 + unat key_len in
           bindE (read_u16 dat pos) (\<lambda>value_len.
           bindE (read_str dat (pos + 2) (unat value_len)) (\<lambda>val.
             Inr (r\<lparr>r_key := key, r_value := val\<rparr>, pos + 2 + unat value_len)))))
         else if operation_type = OP_DELETE then
           bindE (read_u16 dat pos) (\<lambda>key_len.
           bindE (read_str dat (pos + 2) (unat key_len)) (\<lambda>key.
             Inr (r\<lparr>r_key := key\<rparr>, pos + 2 + unat key_len)))
         else Inr (r, pos))))"

lemma Record_decode_one_progress: "Record_decode_one dat pos = Inr (r, pos') \<Longrightarrow> pos < pos'"
  by (auto simp: Record_decode_one_def Let_def bindE_eq_Inr split: if_splits)

function Record_decode_loop :: "bytes \<Rightarrow> nat \<Rightarrow> wal_record list result" where
  "Record_decode_loop dat pos =
     (if pos < length dat then
        bindE (Record_decode_one dat pos) (\<lambda>rp.
        bindE (Record_decode_loop dat (snd rp)) (\<lambda>rs. Inr (fst rp # rs)))
      else Inr [])"
  by pat_completeness auto
termination
proof (relation "measure (\<lambda>(d, p). length d - p)")
  fix dat pos rp assume "pos < length dat" "Record_decode_one dat pos = Inr rp"
  then show "((dat, snd rp), dat, pos) \<in> measure (\<lambda>(d, p). length d - p)"
    using Record_decode_one_progress [of dat pos "fst rp" "snd rp"] by simp
qed simp

definition Record_decode :: "bytes \<Rightarrow> wal_record list result" where
  "Record_decode dat = (if length dat < 2 + 8 + 1 then Inr [] else Record_decode_loop dat 0)"

definition Record_eq :: "wal_record \<Rightarrow> wal_record \<Rightarrow> bool" where
  "Record_eq a b \<longleftrightarrow>
     (if r_tranc_id a \<noteq> r_tranc_id b \<or> r_operation_type a \<noteq> r_operation_type b then False
      else if r_operation_type a \<in> {OP_CREATE, OP_COMMIT, OP_ROLLBACK} then True
      else if r_operation_type a = OP_DELETE then r_key a = r_key b
      else r_key a = r_key b \<and> r_value a = r_value b)"

declare Record_decode_loop.simps [simp del]

section \<open>Well-formed records\<close>

text \<open>The records the factory functions make, when their length fits the 16 bits of the format.\<close>

definition record_ok :: "wal_record \<Rightarrow> bool" where
  "record_ok r \<longleftrightarrow>
     (case r_operation_type r of
        OP_PUT \<Rightarrow> 15 + length (r_key r) + length (r_value r) < 2 ^ 16 \<and>
          r = putRecord (r_tranc_id r) (r_key r) (r_value r)
      | OP_DELETE \<Rightarrow> 13 + length (r_key r) < 2 ^ 16 \<and> r = deleteRecord (r_tranc_id r) (r_key r)
      | OP_CREATE \<Rightarrow> r = createRecord (r_tranc_id r)
      | OP_COMMIT \<Rightarrow> r = commitRecord (r_tranc_id r)
      | OP_ROLLBACK \<Rightarrow> r = rollbackRecord (r_tranc_id r)
      | OP_UNKNOWN _ \<Rightarrow> False)"

lemma record_ok_factories [simp]:
  "record_ok (createRecord t)" "record_ok (commitRecord t)" "record_ok (rollbackRecord t)"
  "record_ok (putRecord t k v) \<longleftrightarrow> 15 + length k + length v < 2 ^ 16"
  "record_ok (deleteRecord t k) \<longleftrightarrow> 13 + length k < 2 ^ 16"
  by (simp_all add: record_ok_def createRecord_def commitRecord_def rollbackRecord_def putRecord_def
      deleteRecord_def)

definition record_bytes :: "wal_record \<Rightarrow> bytes" where
  "record_bytes r = u16_bytes (r_record_len r) @ u64_bytes (r_tranc_id r) @ [op_byte (r_operation_type r)] @
     (case r_operation_type r of
        OP_PUT \<Rightarrow> u16_bytes (of_nat (length (r_key r))) @ str_bytes (r_key r) @
                  u16_bytes (of_nat (length (r_value r))) @ str_bytes (r_value r)
      | OP_DELETE \<Rightarrow> u16_bytes (of_nat (length (r_key r))) @ str_bytes (r_key r)
      | _ \<Rightarrow> [])"

lemma length_record_bytes:
  assumes "record_ok r"
  shows "length (record_bytes r) = unat (r_record_len r)"
  using assms unat_u16_of_nat [of "15 + length (r_key r) + length (r_value r)"]
    unat_u16_of_nat [of "13 + length (r_key r)"]
  by (cases "r_operation_type r")
    (auto simp: record_bytes_def record_ok_def createRecord_def commitRecord_def rollbackRecord_def
      putRecord_def deleteRecord_def dest!: arg_cong [of r _ r_record_len])

lemma op_of_byte_op_byte [simp]: "record_ok r \<Longrightarrow> op_of_byte (op_byte (r_operation_type r)) = r_operation_type r"
  by (cases "r_operation_type r") (simp_all add: op_byte_def op_of_byte_def record_ok_def)

lemma read_u8_front: "off = length pre \<Longrightarrow> read_u8 (pre @ [b] @ post) off = Inr b"
  by (simp add: read_u8_def)

lemma Record_encode_header:
  assumes "11 \<le> n"
  shows "bindE (memwrite (replicate n 0) 0 (u16_bytes l)) (\<lambda>buf.
      bindE (memwrite buf 2 (u64_bytes t)) (\<lambda>buf. bindE (memwrite buf (2 + 8) [b]) f)) =
    f (u16_bytes l @ u64_bytes t @ [b] @ replicate (n - 11) 0)"
proof -
  let ?l = "u16_bytes l" and ?t = "u64_bytes t"
  have "memwrite (replicate n 0) 0 ?l = Inr (?l @ replicate (n - 2) 0)"
    using memwrite_append [of 0 "[]" ?l "replicate n 0"] assms by simp
  moreover have "memwrite (?l @ replicate (n - 2) 0) 2 ?t = Inr (?l @ ?t @ replicate (n - 10) 0)"
    using memwrite_append [of 2 ?l ?t "replicate (n - 2) 0"] assms by simp
  moreover have "memwrite (?l @ ?t @ replicate (n - 10) 0) (2 + 8) [b] =
      Inr (?l @ ?t @ [b] @ replicate (n - 11) 0)"
    using memwrite_append [of 10 "?l @ ?t" "[b]" "replicate (n - 10) 0"] assms by simp
  ultimately show ?thesis
    by (simp only: bindE_simps)
qed

lemma memwrite_zeros:
  "off = length pre \<Longrightarrow> n = length src + m \<Longrightarrow>
   memwrite (pre @ replicate n 0) off src = Inr ((pre @ src) @ replicate m 0)"
  using memwrite_here [of off pre src "length src" m 0] by simp

lemma Record_encode_ok:
  assumes "record_ok r"
  shows "Record_encode r = Inr (record_bytes r)"
proof -
  let ?hdr = "u16_bytes (r_record_len r) @ u64_bytes (r_tranc_id r) @ [op_byte (r_operation_type r)]"
  let ?k = "u16_bytes (of_nat (length (r_key r)))" and ?ks = "str_bytes (r_key r)"
  let ?v = "u16_bytes (of_nat (length (r_value r)))" and ?vs = "str_bytes (r_value r)"
  let ?nk = "length (r_key r)" and ?nv = "length (r_value r)"
  have len: "unat (r_record_len r) = length (record_bytes r)"
    using length_record_bytes [OF assms] by simp
  have n: "11 \<le> length (record_bytes r)"
    by (simp add: record_bytes_def)
  note head = Record_encode_header [OF n, of "r_record_len r" "r_tranc_id r" "op_byte (r_operation_type r)"]
  note start = Record_encode_def [of r, unfolded Let_def resize_def len take_Nil list.size append_Nil diff_zero]
  consider (put) "r_operation_type r = OP_PUT" | (del) "r_operation_type r = OP_DELETE"
    | (other) "r_operation_type r \<noteq> OP_PUT" "r_operation_type r \<noteq> OP_DELETE"
    by blast
  then show ?thesis
  proof cases
    case put
    have bytes: "record_bytes r = ?hdr @ ?k @ ?ks @ ?v @ ?vs"
      using put by (simp add: record_bytes_def)
    then have l: "length (record_bytes r) - 11 = 4 + ?nk + ?nv" by simp
    have 1: "memwrite (?hdr @ replicate (4 + ?nk + ?nv) 0) (2 + 8 + 1) ?k = Inr ((?hdr @ ?k) @ replicate (2 + ?nk + ?nv) 0)"
      by (rule memwrite_zeros) simp_all
    have 2: "memwrite ((?hdr @ ?k) @ replicate (2 + ?nk + ?nv) 0) (2 + 8 + 1 + 2) ?ks =
        Inr ((?hdr @ ?k @ ?ks) @ replicate (2 + ?nv) 0)"
      using memwrite_zeros [of 13 "?hdr @ ?k" "2 + ?nk + ?nv" ?ks "2 + ?nv"] by simp
    have 3: "memwrite ((?hdr @ ?k @ ?ks) @ replicate (2 + ?nv) 0) (2 + 8 + 1 + 2 + ?nk) ?v =
        Inr ((?hdr @ ?k @ ?ks @ ?v) @ replicate ?nv 0)"
      using memwrite_zeros [of "13 + ?nk" "?hdr @ ?k @ ?ks" "2 + ?nv" ?v ?nv] by simp
    have 4: "memwrite ((?hdr @ ?k @ ?ks @ ?v) @ replicate ?nv 0) (2 + 8 + 1 + 2 + ?nk + 2) ?vs = Inr (record_bytes r)"
      unfolding bytes by (subst memwrite_zeros [where m = 0]) simp_all
    have c: "(if r_operation_type r = OP_PUT then x else y) = x" for x y :: "bytes result"
      using put by simp
    show ?thesis
      unfolding start head l by (simp only: c append_assoc [symmetric] bindE_simps 1 [simplified append_assoc [symmetric]]
        2 [simplified append_assoc [symmetric]] 3 [simplified append_assoc [symmetric]] 4 [simplified append_assoc [symmetric]])
  next
    case del
    have bytes: "record_bytes r = ?hdr @ ?k @ ?ks"
      using del by (simp add: record_bytes_def)
    then have l: "length (record_bytes r) - 11 = 2 + ?nk" by simp
    have 1: "memwrite (?hdr @ replicate (2 + ?nk) 0) (2 + 8 + 1) ?k = Inr ((?hdr @ ?k) @ replicate ?nk 0)"
      by (rule memwrite_zeros) simp_all
    have 2: "memwrite ((?hdr @ ?k) @ replicate ?nk 0) (2 + 8 + 1 + 2) ?ks = Inr (record_bytes r)"
      unfolding bytes by (subst memwrite_zeros [where m = 0]) simp_all
    have c: "(if r_operation_type r = OP_PUT then x else if r_operation_type r = OP_DELETE then y else z) = y"
      for x y z :: "bytes result"
      using del by simp
    show ?thesis
      unfolding start head l by (simp only: c append_assoc [symmetric] bindE_simps 1 [simplified append_assoc [symmetric]]
        2 [simplified append_assoc [symmetric]])
  next
    case other
    then have "record_bytes r = ?hdr"
      by (cases "r_operation_type r") (simp_all add: record_bytes_def)
    with other show ?thesis
      unfolding start head by simp
  qed
qed

section \<open>Decoding\<close>

lemma Record_decode_one_ok:
  assumes "record_ok r" and "dat = pre @ record_bytes r @ post" and "pos = length pre"
  shows "Record_decode_one dat pos = Inr (r, pos + length (record_bytes r))"
proof -
  let ?l = "u16_bytes (r_record_len r)" and ?t = "u64_bytes (r_tranc_id r)"
  let ?b = "op_byte (r_operation_type r)"
  let ?k = "u16_bytes (of_nat (length (r_key r)))" and ?ks = "str_bytes (r_key r)"
  let ?v = "u16_bytes (of_nat (length (r_value r)))" and ?vs = "str_bytes (r_value r)"
  let ?nk = "length (r_key r)" and ?nv = "length (r_value r)"
  obtain body where body: "record_bytes r = ?l @ ?t @ [?b] @ body"
    by (simp add: record_bytes_def)
  have len: "\<not> length dat < unat (r_record_len r)"
    using length_record_bytes [OF assms(1)] assms(2) by simp
  have h1: "read_u16 dat pos = Inr (r_record_len r)"
    using read_u16_middle [of pos pre "r_record_len r" "?t @ [?b] @ body @ post"] assms(2,3) body by simp
  have h2: "read_u64 dat (pos + 2) = Inr (r_tranc_id r)"
    using read_u64_middle [of "pos + 2" "pre @ ?l" "r_tranc_id r" "[?b] @ body @ post"] assms(2,3) body by simp
  have h3: "read_u8 dat (pos + 10) = Inr ?b"
    using read_u8_middle [of "pos + 10" "pre @ ?l @ ?t" ?b "body @ post"] assms(2,3) body by simp
  note heads = h1 h2 h3 len op_of_byte_op_byte [OF assms(1)]
  let ?r = "\<lparr>r_tranc_id = r_tranc_id r, r_operation_type = r_operation_type r, r_key = [], r_value = [],
    r_record_len = r_record_len r\<rparr>"
  consider (put) "r_operation_type r = OP_PUT" | (del) "r_operation_type r = OP_DELETE"
    | (other) "r_operation_type r \<noteq> OP_PUT" "r_operation_type r \<noteq> OP_DELETE"
    by blast
  then show ?thesis
  proof cases
    case put
    have small: "?nk < 65536" "?nv < 65536" and r: "?r\<lparr>r_key := r_key r, r_value := r_value r\<rparr> = r"
      using assms(1) put by (auto simp: record_ok_def)
    have dat: "dat = pre @ ?l @ ?t @ [?b] @ ?k @ ?ks @ ?v @ ?vs @ post"
      using put assms(2) by (simp add: record_bytes_def)
    have 1: "read_u16 dat (pos + 11) = Inr (of_nat ?nk)"
      using read_u16_middle [of "pos + 11" "pre @ ?l @ ?t @ [?b]" _ "?ks @ ?v @ ?vs @ post"] dat assms(3) by simp
    have 2: "read_str dat (pos + 11 + 2) ?nk = Inr (r_key r)"
      using read_str_middle [of "pos + 11 + 2" "pre @ ?l @ ?t @ [?b] @ ?k" ?nk "r_key r" "?v @ ?vs @ post"] dat assms(3)
      by simp
    have 3: "read_u16 dat (pos + 11 + 2 + ?nk) = Inr (of_nat ?nv)"
      using read_u16_middle [of "pos + 11 + 2 + ?nk" "pre @ ?l @ ?t @ [?b] @ ?k @ ?ks" _ "?vs @ post"] dat assms(3) by simp
    have 4: "read_str dat (pos + 11 + 2 + ?nk + 2) ?nv = Inr (r_value r)"
      using read_str_middle [of "pos + 11 + 2 + ?nk + 2" "pre @ ?l @ ?t @ [?b] @ ?k @ ?ks @ ?v" ?nv "r_value r" post] dat assms(3)
      by simp
    have "length (record_bytes r) = 15 + ?nk + ?nv"
      using put by (simp add: record_bytes_def)
    then show ?thesis
      using heads 1 2 3 4 small r put by (simp add: Record_decode_one_def Let_def)
  next
    case del
    have small: "?nk < 65536" and r: "?r\<lparr>r_key := r_key r\<rparr> = r"
      using assms(1) del by (cases r; simp add: record_ok_def deleteRecord_def)+
    have dat: "dat = pre @ ?l @ ?t @ [?b] @ ?k @ ?ks @ post"
      using del assms(2) by (simp add: record_bytes_def)
    have 1: "read_u16 dat (pos + 11) = Inr (of_nat ?nk)"
      using read_u16_middle [of "pos + 11" "pre @ ?l @ ?t @ [?b]" _ "?ks @ post"] dat assms(3) by simp
    have 2: "read_str dat (pos + 11 + 2) ?nk = Inr (r_key r)"
      using read_str_middle [of "pos + 11 + 2" "pre @ ?l @ ?t @ [?b] @ ?k" ?nk "r_key r" post] dat assms(3) by simp
    have "length (record_bytes r) = 13 + ?nk"
      using del by (simp add: record_bytes_def)
    then show ?thesis
      using heads 1 2 small r del by (simp add: Record_decode_one_def Let_def)
  next
    case other
    then have "length (record_bytes r) = 11"
      by (cases "r_operation_type r") (simp_all add: record_bytes_def)
    moreover have "?r = r"
      using assms(1) other
      by (cases r) (simp add: record_ok_def createRecord_def commitRecord_def rollbackRecord_def
          split: operation_type.splits)
    ultimately show ?thesis
      using heads other by (simp add: Record_decode_one_def Let_def)
  qed
qed

definition records_bytes :: "wal_record list \<Rightarrow> bytes" where
  "records_bytes rs = concat (map record_bytes rs)"

lemma records_bytes_simps [simp]:
  "records_bytes [] = []" "records_bytes (r # rs) = record_bytes r @ records_bytes rs"
  "records_bytes (rs @ rs') = records_bytes rs @ records_bytes rs'"
  by (simp_all add: records_bytes_def)

lemma record_bytes_long: "11 \<le> length (record_bytes r)"
  by (simp add: record_bytes_def)

lemma Record_decode_loop_ok:
  assumes "\<forall>r \<in> set rs. record_ok r" and "dat = pre @ records_bytes rs" and "pos = length pre"
  shows "Record_decode_loop dat pos = Inr rs"
  using assms
proof (induction rs arbitrary: pre pos)
  case Nil
  then show ?case by (simp add: Record_decode_loop.simps)
next
  case (Cons r rs)
  have "Record_decode_one dat pos = Inr (r, pos + length (record_bytes r))"
    using Cons.prems by (intro Record_decode_one_ok) auto
  moreover have "Record_decode_loop dat (pos + length (record_bytes r)) = Inr rs"
    using Cons.prems by (intro Cons.IH [of "pre @ record_bytes r"]) auto
  moreover have "pos < length dat"
    using Cons.prems record_bytes_long [of r] by (cases "record_bytes r") auto
  ultimately show ?case
    by (subst Record_decode_loop.simps) simp
qed

lemma Record_decode_ok:
  assumes "\<forall>r \<in> set rs. record_ok r"
  shows "Record_decode (records_bytes rs) = Inr rs"
proof (cases rs)
  case Nil
  then show ?thesis by (simp add: Record_decode_def)
next
  case (Cons r rs')
  then have "\<not> length (records_bytes rs) < 2 + 8 + 1"
    using record_bytes_long [of r] by simp
  then show ?thesis
    using Record_decode_loop_ok [OF assms, of "records_bytes rs" "[]" 0] by (simp add: Record_decode_def)
qed

text \<open>
  A log of well-formed records is read back exactly: each record encodes without leaving its buffer,
  and decoding the concatenation of the encodings returns the records in order.
\<close>

theorem record_decode_encode:
  assumes "\<forall>r \<in> set rs. record_ok r"
  shows "bindE (mapE Record_encode rs) (\<lambda>bs. Record_decode (concat bs)) = Inr rs"
proof -
  have "mapE Record_encode rs = Inr (map record_bytes rs)"
    using assms by (intro mapE_Inr Record_encode_ok) blast
  with Record_decode_ok [OF assms] show ?thesis by (simp add: records_bytes_def)
qed

theorem record_decode_encode_witness:
  "bindE (mapE Record_encode [createRecord 5, putRecord 5 ''k'' ''v'', deleteRecord 5 ''k'', commitRecord 5])
     (\<lambda>bs. Record_decode (concat bs)) =
   Inr [createRecord 5, putRecord 5 ''k'' ''v'', deleteRecord 5 ''k'', commitRecord 5]"
  by (rule record_decode_encode) simp

end
