(* ===== verification/TextUtil.thy ===== *)
theory TextUtil
  imports Prelude
begin

text \<open>
  What the code uses of \<^verbatim>\<open>std::string\<close> and of the conversions between numbers and text to build and take apart
  file names: \<^verbatim>\<open>find_last_of\<close> with \<^verbatim>\<open>substr\<close>, \<^verbatim>\<open>std::to_string\<close>, \<^verbatim>\<open>std::stoi\<close> and
  \<^verbatim>\<open>std::stoull\<close>; and the part of \<^verbatim>\<open>std::map\<close> that keeps its keys in order.
\<close>

section \<open>Substrings\<close>

fun split_last :: "char \<Rightarrow> string \<Rightarrow> (string \<times> string) option" where
  "split_last c [] = None"
| "split_last c (x # xs) =
     (case split_last c xs of
        Some (a, b) \<Rightarrow> Some (x # a, b)
      | None \<Rightarrow> if x = c then Some ([], xs) else None)"

text \<open>
  \<^verbatim>\<open>s.substr(s.find_last_of(c) + 1)\<close> and \<^verbatim>\<open>s.substr(0, s.find_last_of(c))\<close>: both the whole string
  when \<open>c\<close> does not occur, since \<^verbatim>\<open>npos + 1\<close> is 0.
\<close>

definition after_last :: "char \<Rightarrow> string \<Rightarrow> string" where
  "after_last c s = (case split_last c s of Some (a, b) \<Rightarrow> b | None \<Rightarrow> s)"

definition before_last :: "char \<Rightarrow> string \<Rightarrow> string" where
  "before_last c s = (case split_last c s of Some (a, b) \<Rightarrow> a | None \<Rightarrow> s)"

lemma split_last_None: "c \<notin> set s \<Longrightarrow> split_last c s = None"
  by (induction s) auto

lemma split_last_append: "c \<notin> set b \<Longrightarrow> split_last c (a @ c # b) = Some (a, b)"
  by (induction a) (simp_all add: split_last_None)

lemma after_before_last [simp]:
  assumes "c \<notin> set b"
  shows "after_last c (a @ c # b) = b" and "before_last c (a @ c # b) = a"
  using assms by (simp_all add: after_last_def before_last_def split_last_append)

section \<open>Numbers as text\<close>

definition digit :: "nat \<Rightarrow> char" where
  "digit n = char_of (48 + n)"

definition is_digit :: "char \<Rightarrow> bool" where
  "is_digit c \<longleftrightarrow> 48 \<le> (of_char c :: nat) \<and> (of_char c :: nat) \<le> 57"

definition digit_value :: "char \<Rightarrow> nat" where
  "digit_value c = of_char c - 48"

fun to_string :: "nat \<Rightarrow> string" where
  "to_string n = (if n < 10 then [digit n] else to_string (n div 10) @ [digit (n mod 10)])"

definition is_space :: "char \<Rightarrow> bool" where
  "is_space c \<longleftrightarrow> (of_char c :: nat) \<in> {9, 10, 11, 12, 13, 32}"

definition parse_digits :: "string \<Rightarrow> nat" where
  "parse_digits s = foldl (\<lambda>acc c. acc * 10 + digit_value c) 0 (takeWhile is_digit s)"

text \<open>\<^verbatim>\<open>strtol\<close>: leading white space, an optional sign, then digits; \<open>None\<close> when there are none.\<close>

definition parse_int :: "string \<Rightarrow> int option" where
  "parse_int s =
     (let s = dropWhile is_space s;
          neg = (s \<noteq> [] \<and> hd s = CHR ''-'');
          s = (if s \<noteq> [] \<and> (hd s = CHR ''-'' \<or> hd s = CHR ''+'') then tl s else s)
      in if s = [] \<or> \<not> is_digit (hd s) then None
         else Some (if neg then - int (parse_digits s) else int (parse_digits s)))"

definition stoi :: "string \<Rightarrow> int result" where
  "stoi s = (case parse_int s of
     None \<Rightarrow> Inl (Invalid_argument ''stoi'')
   | Some v \<Rightarrow> if v < - (2 ^ 31) \<or> 2 ^ 31 \<le> v then Inl (Out_of_range ''stoi'') else Inr v)"

definition stoull :: "string \<Rightarrow> nat result" where
  "stoull s = (case parse_int s of
     None \<Rightarrow> Inl (Invalid_argument ''stoull'')
   | Some v \<Rightarrow> if 2 ^ 64 \<le> \<bar>v\<bar> then Inl (Out_of_range ''stoull'') else Inr (nat (v mod 2 ^ 64)))"

declare to_string.simps [simp del]

lemma of_char_digit: "n < 10 \<Longrightarrow> (of_char (digit n) :: nat) = 48 + n"
  by (simp add: digit_def)

lemma is_digit_digit [simp]: "n < 10 \<Longrightarrow> is_digit (digit n)"
  by (simp add: is_digit_def of_char_digit)

lemma digit_value_digit [simp]: "n < 10 \<Longrightarrow> digit_value (digit n) = n"
  by (simp add: digit_value_def of_char_digit)

lemma to_string_digits: "c \<in> set (to_string n) \<Longrightarrow> is_digit c"
proof (induction n rule: to_string.induct)
  case (1 n)
  then show ?case
    by (subst (asm) (2) to_string.simps) (auto split: if_splits)
qed

lemma to_string_not_Nil [simp]: "to_string n \<noteq> []"
  by (subst to_string.simps) simp

lemma takeWhile_to_string: "takeWhile is_digit (to_string n) = to_string n"
  by (simp add: takeWhile_eq_all_conv to_string_digits)

lemma foldl_to_string: "foldl (\<lambda>acc c. acc * 10 + digit_value c) 0 (to_string n) = n"
proof (induction n rule: to_string.induct)
  case (1 n)
  then show ?case
    by (subst to_string.simps) simp
qed

lemma parse_digits_to_string [simp]: "parse_digits (to_string n) = n"
  by (simp add: parse_digits_def takeWhile_to_string foldl_to_string)

lemma digit_not_special:
  assumes "is_digit c"
  shows "\<not> is_space c" "c \<noteq> CHR ''-''" "c \<noteq> CHR ''+''" "c \<noteq> CHR ''.''" "c \<noteq> CHR ''/''"
  using assms by (auto simp: is_digit_def is_space_def)

lemma parse_int_to_string [simp]: "parse_int (to_string n) = Some (int n)"
proof -
  obtain c cs where s: "to_string n = c # cs"
    using to_string_not_Nil [of n] by (cases "to_string n") auto
  then have "is_digit c"
    using to_string_digits [of c n] by simp
  then show ?thesis
    using s parse_digits_to_string [of n] digit_not_special [of c] by (simp add: parse_int_def Let_def)
qed

lemma stoi_to_string [simp]: "n < 2 ^ 31 \<Longrightarrow> stoi (to_string n) = Inr (int n)"
  by (simp add: stoi_def)

lemma stoull_to_string [simp]: "n < 2 ^ 64 \<Longrightarrow> stoull (to_string n) = Inr n"
  by (simp add: stoull_def nat_mod_distrib)

lemma to_string_no_separator:
  "CHR ''.'' \<notin> set (to_string n)" "CHR ''/'' \<notin> set (to_string n)"
  using to_string_digits digit_not_special by blast+

section \<open>Maps from keys to lists, in key order\<close>

text \<open>\<^verbatim>\<open>m[k].push_back(v)\<close> on a \<^verbatim>\<open>std::map\<close> to vectors.\<close>

fun omap_push :: "'k :: linorder \<Rightarrow> 'v \<Rightarrow> ('k \<times> 'v list) list \<Rightarrow> ('k \<times> 'v list) list" where
  "omap_push k v [] = [(k, [v])]"
| "omap_push k v ((k', vs) # m) =
     (if k < k' then (k, [v]) # (k', vs) # m
      else if k = k' then (k', vs @ [v]) # m
      else (k', vs) # omap_push k v m)"

definition omap_sorted :: "('k :: linorder \<times> 'v) list \<Rightarrow> bool" where
  "omap_sorted m \<longleftrightarrow> sorted_wrt (<) (map fst m)"

lemma omap_push_keys: "fst ` set (omap_push k v m) = insert k (fst ` set m)"
  by (induction k v m rule: omap_push.induct) auto

lemma omap_push_sorted: "omap_sorted m \<Longrightarrow> omap_sorted (omap_push k v m)"
proof (induction k v m rule: omap_push.induct)
  case (2 k v k' vs m)
  then show ?case
    using omap_push_keys [of k v m] by (auto simp: omap_sorted_def)
qed (simp add: omap_sorted_def)

definition lookup_list :: "('k \<times> 'v list) list \<Rightarrow> 'k \<Rightarrow> 'v list" where
  "lookup_list m k = (case map_of m k of None \<Rightarrow> [] | Some vs \<Rightarrow> vs)"

lemma map_of_omap_push:
  "omap_sorted m \<Longrightarrow> map_of (omap_push k v m) = (map_of m)(k \<mapsto> lookup_list m k @ [v])"
proof (induction k v m rule: omap_push.induct)
  case (1 k v)
  then show ?case by (simp add: lookup_list_def)
next
  case (2 k v k' vs m)
  have "map_of m k = None" if "k < k'"
    using 2(2) that by (auto simp: omap_sorted_def map_of_eq_None_iff dest: less_trans)
  with 2 show ?case
    by (auto simp: lookup_list_def omap_sorted_def fun_upd_twist)
qed

end
