(* ===== verification/WAL.thy ===== *)
theory WAL
  imports FileIO WalRecord TextUtil "HOL-Library.Multiset"
begin

text \<open>
  The write-ahead log: \<^verbatim>\<open>WAL\<close> of \<^verbatim>\<open>src/wal/wal.cpp\<close>. Records are collected in a buffer, written to
  the active file \<^verbatim>\<open>wal.<seq>\<close> when the buffer is full or the caller forces it, and the file is
  replaced by the next one when it exceeds its limit. \<^verbatim>\<open>recover\<close> reads all the files in the
  order of their numbers and groups the records by transaction; the cleaner removes the files
  that hold no record of a transaction after the checkpoint. The names a
  \<^verbatim>\<open>directory_iterator\<close> delivers are an argument; the mutex makes each call atomic, and
  the sleeping loop of the cleaner thread is its one step \<^verbatim>\<open>cleanWALFile\<close>.

  The theorems: every record logged before a forced flush is recovered from any listing of the
  directory, across any number of file switches, in order and grouped by transaction; and cleaning does not change what is recovered.
\<close>

record wal =
  active_log_path :: string
  log_file :: std_file
  file_size_limit :: nat
  log_buffer :: "wal_record list"
  buffer_size :: nat
  checkpoint_tranc_id :: u64
  stop_cleaner :: bool

definition WAL_new :: "filesys \<Rightarrow> string \<Rightarrow> nat \<Rightarrow> u64 \<Rightarrow> nat \<Rightarrow> (filesys \<times> wal) result" where
  "WAL_new fs log_dir bufsize ckpt limit =
     (let path = log_dir @ ''/wal.0'' in
      bindE (FileObj_open fs path True) (\<lambda>(fs, f).
        Inr (fs, \<lparr>active_log_path = path, log_file = f, file_size_limit = limit, log_buffer = [],
                  buffer_size = bufsize, checkpoint_tranc_id = ckpt, stop_cleaner = False\<rparr>)))"

definition WAL_reset_file :: "filesys \<Rightarrow> wal \<Rightarrow> (filesys \<times> wal) result" where
  "WAL_reset_file fs w =
     (let old_path = active_log_path w in
      bindE (stoi (after_last CHR ''.'' old_path)) (\<lambda>seq.
        if seq = 2 ^ 31 - 1 then Inl Undefined_behaviour
        else
          let seq = seq + 1;
              new_path = before_last CHR ''.'' old_path @ ''.'' @
                (if seq < 0 then ''-'' @ to_string (nat (- seq)) else to_string (nat seq))
          in bindE (FileObj_create_and_write fs new_path []) (\<lambda>(fs, f).
               Inr (fs, w\<lparr>active_log_path := new_path, log_file := f\<rparr>))))"

primrec wal_append_all :: "filesys \<Rightarrow> std_file \<Rightarrow> wal_record list \<Rightarrow> filesys result" where
  "wal_append_all fs f [] = Inr fs"
| "wal_append_all fs f (r # rs) =
     bindE (Record_encode r) (\<lambda>encoded_record.
       wal_append_all (fst (FileObj_append fs f encoded_record)) f rs)"

definition WAL_log :: "filesys \<Rightarrow> wal \<Rightarrow> wal_record list \<Rightarrow> bool \<Rightarrow> (filesys \<times> wal) result" where
  "WAL_log fs w records force_flush =
     (let w = w\<lparr>log_buffer := log_buffer w @ records\<rparr> in
      if length (log_buffer w) < buffer_size w \<and> \<not> force_flush then Inr (fs, w)
      else
        let pre_buffer = log_buffer w; w = w\<lparr>log_buffer := []\<rparr> in
        bindE (wal_append_all fs (log_file w) pre_buffer) (\<lambda>fs.
          if \<not> FileObj_sync (log_file w) then Inl (Runtime_error ''Failed to sync WAL file'')
          else if file_size_limit w < FileObj_size fs (log_file w) then WAL_reset_file fs w
          else Inr (fs, w)))"

definition WAL_flush :: "wal \<Rightarrow> wal" where
  "WAL_flush w = w"

definition WAL_set_checkpoint_tranc_id :: "wal \<Rightarrow> u64 \<Rightarrow> wal" where
  "WAL_set_checkpoint_tranc_id w ckpt = w\<lparr>checkpoint_tranc_id := ckpt\<rparr>"

definition WAL_destroy :: "filesys \<Rightarrow> wal \<Rightarrow> (filesys \<times> wal) result" where
  "WAL_destroy fs w =
     bindE (WAL_log fs w [] True) (\<lambda>(fs, w).
       Inr (fs, w\<lparr>stop_cleaner := True, log_file := FileObj_close (log_file w)\<rparr>))"

section \<open>Recovery\<close>

definition filename_of :: "string \<Rightarrow> string" where
  "filename_of path = after_last CHR ''/'' path"

definition is_wal_file :: "filesys \<Rightarrow> string \<Rightarrow> bool" where
  "is_wal_file fs path \<longleftrightarrow> dir fs path \<noteq> None \<and> take 4 (filename_of path) = ''wal.''"

primrec recover_records ::
  "u64 \<Rightarrow> wal_record list \<Rightarrow> (u64 \<times> wal_record list) list \<Rightarrow> (u64 \<times> wal_record list) list" where
  "recover_records ckpt [] m = m"
| "recover_records ckpt (r # rs) m =
     recover_records ckpt rs (if ckpt < r_tranc_id r then omap_push (r_tranc_id r) r m else m)"

primrec recover_files ::
  "filesys \<Rightarrow> u64 \<Rightarrow> string list \<Rightarrow> (u64 \<times> wal_record list) list \<Rightarrow> (u64 \<times> wal_record list) list result" where
  "recover_files fs ckpt [] m = Inr m"
| "recover_files fs ckpt (p # ps) m =
     bindE (FileObj_open fs p False) (\<lambda>(fs', f).
     bindE (FileObj_read_to_slice fs' f 0 (FileObj_size fs' f)) (\<lambda>slice.
     bindE (Record_decode slice) (\<lambda>records.
       recover_files fs ckpt ps (recover_records ckpt records m))))"

text \<open>
  Sorting by sequence number; \<^verbatim>\<open>std::sort\<close> calls the comparison, which may throw, only when there are two
  files or more.
\<close>

definition sort_by_seq :: "(string \<Rightarrow> int result) \<Rightarrow> string list \<Rightarrow> string list result" where
  "sort_by_seq seq paths =
     (if length paths < 2 then Inr paths
      else bindE (mapE seq paths) (\<lambda>seqs. Inr (map snd (sort_key fst (zip seqs paths)))))"

definition WAL_recover ::
  "filesys \<Rightarrow> bool \<Rightarrow> string list \<Rightarrow> u64 \<Rightarrow> (u64 \<times> wal_record list) list result" where
  "WAL_recover fs dir_exists entries ckpt =
     (if \<not> dir_exists then Inr []
      else
        bindE (sort_by_seq (\<lambda>a. stoi (after_last CHR ''.'' a)) (filter (is_wal_file fs) entries)) (\<lambda>wal_paths.
          recover_files fs ckpt wal_paths []))"

section \<open>Cleaning\<close>

partial_function (option) wal_has_unfinished ::
  "filesys \<Rightarrow> std_file \<Rightarrow> u64 \<Rightarrow> nat \<Rightarrow> bool result option" where
  "wal_has_unfinished fs f ckpt offset =
     (if offset + 2 < FileObj_size fs f then
        (case FileObj_read_uint16 fs f offset of
           Inl e \<Rightarrow> Some (Inl e)
         | Inr record_size \<Rightarrow>
             (case FileObj_read_uint64 fs f (offset + 2) of
                Inl e \<Rightarrow> Some (Inl e)
              | Inr tranc_id \<Rightarrow>
                  if ckpt < tranc_id then Some (Inr True)
                  else wal_has_unfinished fs f ckpt (offset + unat record_size)))
      else Some (Inr False))"

text \<open>The loop over all files but the last: the files to delete. \<open>None\<close>: the scan of a file does not end.\<close>

primrec clean_scan :: "filesys \<Rightarrow> u64 \<Rightarrow> string list \<Rightarrow> std_file list result option" where
  "clean_scan fs ckpt [] = Some (Inr [])"
| "clean_scan fs ckpt (p # ps) =
     (case FileObj_open fs p False of
        Inl e \<Rightarrow> Some (Inl e)
      | Inr (fs', f) \<Rightarrow>
          (case wal_has_unfinished fs f ckpt 0 of
             None \<Rightarrow> None
           | Some (Inl e) \<Rightarrow> Some (Inl e)
           | Some (Inr unfinished) \<Rightarrow>
               map_option (\<lambda>r. bindE r (\<lambda>fs. Inr (if unfinished then fs else f # fs)))
                 (clean_scan fs ckpt ps)))"

definition wal_dir_path :: "wal \<Rightarrow> string" where
  "wal_dir_path w =
     (if CHR ''/'' \<in> set (active_log_path w) then before_last CHR ''/'' (active_log_path w) @ ''/'' else ''./'')"

definition WAL_cleanWALFile :: "filesys \<Rightarrow> wal \<Rightarrow> string list \<Rightarrow> filesys result option" where
  "WAL_cleanWALFile fs w entries =
     (let paths = filter (is_wal_file fs) entries in
      case mapE (\<lambda>p. stoull (after_last CHR ''.'' (filename_of p))) paths of
        Inl e \<Rightarrow> Some (Inl e)
      | Inr seqs \<Rightarrow>
          let wal_paths = map snd (sort_key fst (zip seqs paths)) in
          if wal_paths = [] then Some (Inl Undefined_behaviour)
          else map_option (\<lambda>r. bindE r (\<lambda>del_paths. Inr (foldl FileObj_del_file fs del_paths)))
                 (clean_scan fs (checkpoint_tranc_id w) (butlast wal_paths)))"

section \<open>The files of a log\<close>

definition wal_path :: "string \<Rightarrow> nat \<Rightarrow> string" where
  "wal_path d n = d @ ''/wal.'' @ to_string n"

definition fs_wf :: "filesys \<Rightarrow> bool" where
  "fs_wf fs \<longleftrightarrow> (\<forall>p q i. dir fs p = Some i \<longrightarrow> dir fs q = Some i \<longrightarrow> p = q) \<and>
     (\<forall>p i. dir fs p = Some i \<longrightarrow> i < next_ino fs)"

definition path_content :: "filesys \<Rightarrow> string \<Rightarrow> bytes option" where
  "path_content fs p = map_option (inodes fs) (dir fs p)"

lemma wal_path_seq [simp]:
  "after_last CHR ''.'' (wal_path d n) = to_string n"
  "before_last CHR ''.'' (wal_path d n) = d @ ''/wal''"
  "filename_of (wal_path d n) = ''wal.'' @ to_string n"
proof -
  have 1: "wal_path d n = (d @ ''/wal'') @ CHR ''.'' # to_string n"
    by (simp add: wal_path_def)
  show "after_last CHR ''.'' (wal_path d n) = to_string n" "before_last CHR ''.'' (wal_path d n) = d @ ''/wal''"
    unfolding 1 by (intro after_before_last to_string_no_separator)+
  have 2: "wal_path d n = d @ CHR ''/'' # (''wal.'' @ to_string n)"
    by (simp add: wal_path_def)
  show "filename_of (wal_path d n) = ''wal.'' @ to_string n"
    unfolding 2 filename_of_def by (intro after_before_last) (simp add: to_string_no_separator)
qed

lemma wal_path_inj [simp]: "wal_path d i = wal_path d j \<longleftrightarrow> i = j"
  by (metis wal_path_seq(1) parse_digits_to_string)

lemma append_content:
  assumes "fs_wf fs" and "fd f = dir fs p" and "dir fs p = Some j"
  shows "path_content (fst (FileObj_append fs f bs)) q =
      (if q = p then map_option (\<lambda>c. c @ bs) (path_content fs p) else path_content fs q)"
    and "dir (fst (FileObj_append fs f bs)) = dir fs" and "fs_wf (fst (FileObj_append fs f bs))"
proof -
  have app: "FileObj_append fs f bs = (fs\<lparr>inodes := (inodes fs)(j := inodes fs j @ bs)\<rparr>, True)"
    using assms by (intro FileObj_append_Some) simp
  have only: "dir fs q = Some j \<Longrightarrow> q = p" for q
    using assms by (auto simp: fs_wf_def)
  show "path_content (fst (FileObj_append fs f bs)) q =
      (if q = p then map_option (\<lambda>c. c @ bs) (path_content fs p) else path_content fs q)"
    using only [of q] assms(3) by (cases "dir fs q") (auto simp: app path_content_def)
  show "dir (fst (FileObj_append fs f bs)) = dir fs" "fs_wf (fst (FileObj_append fs f bs))"
    using assms(1) by (simp_all add: app fs_wf_def)
qed

lemma wal_append_all_content:
  assumes "fs_wf fs" and "fd f = dir fs p" and "dir fs p = Some j" and "\<forall>r \<in> set rs. record_ok r"
  shows "\<exists>fs'. wal_append_all fs f rs = Inr fs' \<and> fs_wf fs' \<and> dir fs' = dir fs \<and>
    (\<forall>q. path_content fs' q =
       (if q = p then map_option (\<lambda>c. c @ records_bytes rs) (path_content fs p) else path_content fs q))"
  using assms
proof (induction rs arbitrary: fs)
  case Nil
  then show ?case by (simp add: option.map_ident)
next
  case (Cons r rs)
  let ?fs = "fst (FileObj_append fs f (record_bytes r))"
  note app = append_content [OF Cons.prems(1-3), of "record_bytes r"]
  obtain fs' where "wal_append_all ?fs f rs = Inr fs'" "fs_wf fs'" "dir fs' = dir ?fs"
    "\<forall>q. path_content fs' q =
       (if q = p then map_option (\<lambda>c. c @ records_bytes rs) (path_content ?fs p) else path_content ?fs q)"
    using Cons.IH [of ?fs] app Cons.prems by auto
  then show ?case
    using app Cons.prems by (auto simp: Record_encode_ok option.map_comp comp_def)
qed

lemma create_content:
  assumes "fs_wf fs"
  shows "\<exists>fs' f j. FileObj_create_and_write fs q [] = Inr (fs', f) \<and> fs_wf fs' \<and>
    fd f = dir fs' q \<and> dir fs' q = Some j \<and> (\<forall>p. path_content fs' p = (if p = q then Some [] else path_content fs p))"
proof (cases "dir fs q")
  case None
  let ?i = "next_ino fs"
  let ?fs = "fs\<lparr>dir := (dir fs)(q := Some ?i), inodes := (inodes fs)(?i := []), next_ino := Suc ?i\<rparr>"
  have fresh: "dir fs p \<noteq> Some ?i" for p
    using assms by (auto simp: fs_wf_def)
  have "fs_wf ?fs"
    using assms fresh by (auto simp: fs_wf_def less_Suc_eq)
  moreover have "path_content ?fs p = (if p = q then Some [] else path_content fs p)" for p
    using fresh [of p] by (cases "dir fs p") (auto simp: path_content_def)
  ultimately show ?thesis
    using None by (simp add: FileObj_create_and_write_def StdFile_create_def StdFile_open_def Let_def)
next
  case (Some i)
  let ?fs = "fs\<lparr>inodes := (inodes fs)(i := [])\<rparr>"
  have only: "dir fs p = Some i \<Longrightarrow> p = q" for p
    using assms Some by (auto simp: fs_wf_def)
  have "path_content ?fs p = (if p = q then Some [] else path_content fs p)" for p
    using only [of p] Some by (cases "dir fs p") (auto simp: path_content_def)
  moreover have "fs_wf ?fs"
    using assms by (simp add: fs_wf_def)
  ultimately show ?thesis
    using Some by (simp add: FileObj_create_and_write_def StdFile_create_def StdFile_open_def)
qed

text \<open>
  \<open>wal_inv fs w d n rss\<close>: the log has the files \<open>0 \<dots> n\<close>, file \<open>i\<close> holds exactly the encodings of \<open>rss ! i\<close>,
  and the handle of the log refers to the last one.
\<close>

definition wal_inv :: "filesys \<Rightarrow> wal \<Rightarrow> string \<Rightarrow> nat \<Rightarrow> wal_record list list \<Rightarrow> bool" where
  "wal_inv fs w d n rss \<longleftrightarrow>
     fs_wf fs \<and> active_log_path w = wal_path d n \<and> length rss = Suc n \<and>
     fd (log_file w) = dir fs (wal_path d n) \<and>
     (\<forall>i \<le> n. path_content fs (wal_path d i) = Some (records_bytes (rss ! i))) \<and>
     (\<forall>r \<in> set (concat rss @ log_buffer w). record_ok r)"

lemma WAL_reset_file_inv:
  assumes "wal_inv fs w d n rss" and "n + 1 < 2 ^ 31"
  shows "\<exists>fs' w'. WAL_reset_file fs w = Inr (fs', w') \<and> wal_inv fs' w' d (Suc n) (rss @ [[]]) \<and>
    log_buffer w' = log_buffer w \<and> (\<forall>p. p \<notin> wal_path d ` {..Suc n} \<longrightarrow> path_content fs' p = path_content fs p)"
proof -
  have path: "active_log_path w = wal_path d n" and wf: "fs_wf fs" and len: "length rss = Suc n"
    using assms(1) by (simp_all add: wal_inv_def)
  obtain fs' f j where c: "FileObj_create_and_write fs (wal_path d (Suc n)) [] = Inr (fs', f)" "fs_wf fs'"
    "fd f = dir fs' (wal_path d (Suc n))"
    "\<forall>p. path_content fs' p = (if p = wal_path d (Suc n) then Some [] else path_content fs p)"
    using create_content [OF wf] by blast
  have "stoi (after_last CHR ''.'' (active_log_path w)) = Inr (int n)"
    using assms(2) by (simp add: path)
  moreover have "nat (int n + 1) = Suc n" by simp
  ultimately have "WAL_reset_file fs w = Inr (fs', w\<lparr>active_log_path := wal_path d (Suc n), log_file := f\<rparr>)"
    using c(1) assms(2) by (simp add: WAL_reset_file_def path Let_def) (simp add: wal_path_def)
  moreover have "wal_inv fs' (w\<lparr>active_log_path := wal_path d (Suc n), log_file := f\<rparr>) d (Suc n) (rss @ [[]])"
    using assms(1) c len by (auto simp: wal_inv_def nth_append le_Suc_eq)
  moreover have "\<forall>p. p \<notin> wal_path d ` {..Suc n} \<longrightarrow> path_content fs' p = path_content fs p"
    using c(4) by simp
  ultimately show ?thesis by simp
qed

lemma WAL_log_inv:
  assumes inv: "wal_inv fs w d n rss" and "\<forall>r \<in> set recs. record_ok r" and "n + 1 < 2 ^ 31"
  shows "\<exists>fs' w' n' rss'. WAL_log fs w recs force = Inr (fs', w') \<and> wal_inv fs' w' d n' rss' \<and> n' \<le> n + 1 \<and>
    concat rss' @ log_buffer w' = concat rss @ log_buffer w @ recs \<and> (force \<longrightarrow> log_buffer w' = []) \<and>
    n \<le> n' \<and> (\<forall>p. p \<notin> wal_path d ` {..n'} \<longrightarrow> path_content fs' p = path_content fs p)"
proof (cases "length (log_buffer w @ recs) < buffer_size w \<and> \<not> force")
  case True
  have "wal_inv fs (w\<lparr>log_buffer := log_buffer w @ recs\<rparr>) d n rss"
    using inv assms(2) by (auto simp: wal_inv_def)
  with True show ?thesis
    by (intro exI [of _ fs] exI [of _ "w\<lparr>log_buffer := log_buffer w @ recs\<rparr>"] exI [of _ n] exI [of _ rss])
      (simp add: WAL_log_def)
next
  case False
  let ?w = "w\<lparr>log_buffer := []\<rparr>" and ?new = "log_buffer w @ recs" and ?p = "wal_path d n"
  let ?rss = "rss[n := rss ! n @ ?new]"
  have wf: "fs_wf fs" and fd: "fd (log_file w) = dir fs ?p" and len: "length rss = Suc n"
    and files: "\<forall>i \<le> n. path_content fs (wal_path d i) = Some (records_bytes (rss ! i))"
    using inv by (simp_all add: wal_inv_def)
  have "path_content fs ?p = Some (records_bytes (rss ! n))"
    using files by simp
  then obtain j where j: "dir fs ?p = Some j"
    by (auto simp: path_content_def)
  have new_ok: "\<forall>r \<in> set ?new. record_ok r"
    using inv assms(2) by (auto simp: wal_inv_def)
  obtain fs' where fs': "wal_append_all fs (log_file w) ?new = Inr fs'" "fs_wf fs'" "dir fs' = dir fs"
    "\<forall>q. path_content fs' q =
       (if q = ?p then map_option (\<lambda>c. c @ records_bytes ?new) (path_content fs ?p) else path_content fs q)"
    using wal_append_all_content [OF wf fd j new_ok] by blast
  have split: "concat ?rss = concat rss @ ?new"
  proof -
    have "rss = butlast rss @ [rss ! n]"
      using len by (metis append_butlast_last_id diff_Suc_1 last_conv_nth list.size(3) nat.distinct(1))
    then have "?rss = butlast rss @ [rss ! n @ ?new]"
      using len by (metis length_append_singleton list_update_length length_butlast diff_Suc_1)
    with \<open>rss = butlast rss @ [rss ! n]\<close> show ?thesis
      by (metis append.assoc append.right_neutral concat.simps concat_append)
  qed
  have inv': "wal_inv fs' ?w d n ?rss"
    using inv fs' len files new_ok split by (auto simp: wal_inv_def nth_list_update)
  have sync: "FileObj_sync (log_file w)"
    using fd j by (simp add: FileObj_sync_def StdFile_sync_def)
  have frame: "\<forall>p. p \<notin> wal_path d ` {..n} \<longrightarrow> path_content fs' p = path_content fs p"
    using fs'(4) by simp
  have run: "WAL_log fs w recs force =
      (if file_size_limit w < FileObj_size fs' (log_file w) then WAL_reset_file fs' ?w else Inr (fs', ?w))"
    using False fs'(1) sync by (auto simp: WAL_log_def Let_def)
  show ?thesis
  proof (cases "file_size_limit w < FileObj_size fs' (log_file w)")
    case True
    obtain fs2 w2 where r: "WAL_reset_file fs' ?w = Inr (fs2, w2)" "wal_inv fs2 w2 d (Suc n) (?rss @ [[]])"
      "log_buffer w2 = []" and frame2: "\<forall>p. p \<notin> wal_path d ` {..Suc n} \<longrightarrow> path_content fs2 p = path_content fs' p"
      using WAL_reset_file_inv [OF inv' assms(3)] by auto
    have "\<forall>p. p \<notin> wal_path d ` {..Suc n} \<longrightarrow> path_content fs2 p = path_content fs p"
      using frame frame2 by (auto simp: atMost_Suc)
    moreover have "concat (?rss @ [[]]) @ log_buffer w2 = concat rss @ log_buffer w @ recs"
      using split r(3) by simp
    ultimately show ?thesis
      using run True r by (intro exI [of _ fs2] exI [of _ w2] exI [of _ "Suc n"] exI [of _ "?rss @ [[]]"]) simp
  next
    case False
    with run inv' split frame show ?thesis
      by (intro exI [of _ fs'] exI [of _ ?w] exI [of _ n] exI [of _ ?rss]) simp
  qed
qed

section \<open>What recovery returns\<close>

lemma recover_records_sorted: "omap_sorted m \<Longrightarrow> omap_sorted (recover_records ckpt rs m)"
  by (induction rs arbitrary: m) (simp_all add: omap_push_sorted)

lemma recover_records_lookup:
  "omap_sorted m \<Longrightarrow> lookup_list (recover_records ckpt rs m) t =
     lookup_list m t @ filter (\<lambda>r. ckpt < r_tranc_id r \<and> r_tranc_id r = t) rs"
proof (induction rs arbitrary: m)
  case Nil
  then show ?case by simp
next
  case (Cons r rs)
  then show ?case
    by (auto simp: omap_push_sorted) (auto simp: lookup_list_def map_of_omap_push)
qed

lemma recover_records_append: "recover_records ckpt (rs @ rs') m = recover_records ckpt rs' (recover_records ckpt rs m)"
  by (induction rs arbitrary: m) simp_all

lemma read_whole_file:
  assumes "path_content fs p = Some c" and "length c < 2 ^ 64"
  shows "\<exists>f. FileObj_open fs p False = Inr (fs, f) \<and> FileObj_read_to_slice fs f 0 (FileObj_size fs f) = Inr c \<and>
    fd f = dir fs p"
  using assms
  by (auto simp: path_content_def FileObj_open_def StdFile_open_def FileObj_read_to_slice_def FileObj_size_def
      StdFile_size_def beyond_def StdFile_read_def)

lemma recover_files_ok:
  assumes "\<forall>(p, rs) \<in> set prs. path_content fs p = Some (records_bytes rs) \<and> length (records_bytes rs) < 2 ^ 64 \<and>
      (\<forall>r \<in> set rs. record_ok r)"
  shows "recover_files fs ckpt (map fst prs) m = Inr (recover_records ckpt (concat (map snd prs)) m)"
  using assms
proof (induction prs arbitrary: m)
  case Nil
  then show ?case by simp
next
  case (Cons pr prs)
  obtain p rs where pr: "pr = (p, rs)" by (cases pr)
  have c: "path_content fs p = Some (records_bytes rs)" "length (records_bytes rs) < 2 ^ 64"
    and ok: "\<forall>r \<in> set rs. record_ok r"
    using Cons.prems pr by auto
  obtain f where "FileObj_open fs p False = Inr (fs, f)"
    "FileObj_read_to_slice fs f 0 (FileObj_size fs f) = Inr (records_bytes rs)"
    using read_whole_file [OF c] by blast
  then show ?case
    using Cons.IH Cons.prems pr Record_decode_ok [OF ok] by (simp add: recover_records_append)
qed

lemma insort_key_map: "insort_key k (g x) (map g xs) = map g (insort_key (\<lambda>x. k (g x)) x xs)"
  by (induction xs) simp_all

lemma sort_key_map: "sort_key k (map g xs) = map g (sort_key (\<lambda>x. k (g x)) xs)"
  by (induction xs) (simp_all add: insort_key_map)

lemma insort_key_int: "insort_key int n ns = insort n ns"
  by (induction ns) simp_all

lemma sort_key_int: "sort_key int ns = sort ns"
  by (induction ns) (simp_all add: insort_key_int)

lemma sort_by_seq_map:
  assumes "\<And>n. n \<in> set ns \<Longrightarrow> seq (f n) = Inr (int n)"
  shows "sort_by_seq seq (map f ns) = Inr (map f (sort ns))"
proof (cases "length ns < 2")
  case True
  then have "ns = [] \<or> (\<exists>n. ns = [n])"
    by (cases ns; cases "tl ns") auto
  with True show ?thesis by (auto simp: sort_by_seq_def)
next
  case False
  have seqs: "mapE seq (map f ns) = Inr (map int ns)"
    using assms by (induction ns) simp_all
  have "sort_key fst (zip (map int ns) (map f ns)) = map (\<lambda>n. (int n, f n)) (sort_key int ns)"
    using sort_key_map [of fst "\<lambda>n. (int n, f n)" ns] by (simp add: zip_map_map zip_same_conv_map comp_def)
  then show ?thesis
    using False seqs by (simp add: sort_by_seq_def comp_def sort_key_int)
qed

primrec WAL_run :: "filesys \<Rightarrow> wal \<Rightarrow> (wal_record list \<times> bool) list \<Rightarrow> (filesys \<times> wal) result" where
  "WAL_run fs w [] = Inr (fs, w)"
| "WAL_run fs w (call # calls) =
     bindE (WAL_log fs w (fst call) (snd call)) (\<lambda>s. WAL_run (fst s) (snd s) calls)"

lemma WAL_run_inv:
  assumes "wal_inv fs w d n rss" and "\<forall>r \<in> set (concat (map fst calls)). record_ok r"
    and "n + length calls < 2 ^ 31"
  shows "\<exists>fs' w' n' rss'. WAL_run fs w calls = Inr (fs', w') \<and> wal_inv fs' w' d n' rss' \<and> n' \<le> n + length calls \<and>
    concat rss' @ log_buffer w' = concat rss @ log_buffer w @ concat (map fst calls) \<and>
    (calls \<noteq> [] \<and> snd (last calls) \<longrightarrow> log_buffer w' = []) \<and>
    n \<le> n' \<and> (\<forall>p. p \<notin> wal_path d ` {..n'} \<longrightarrow> path_content fs' p = path_content fs p)"
  using assms
proof (induction calls arbitrary: fs w n rss)
  case Nil
  then show ?case by fastforce
next
  case (Cons call calls)
  obtain fs1 w1 n1 rss1 where 1: "WAL_log fs w (fst call) (snd call) = Inr (fs1, w1)" "wal_inv fs1 w1 d n1 rss1"
    "n1 \<le> n + 1" "concat rss1 @ log_buffer w1 = concat rss @ log_buffer w @ fst call"
    "snd call \<longrightarrow> log_buffer w1 = []" "n \<le> n1"
    "\<forall>p. p \<notin> wal_path d ` {..n1} \<longrightarrow> path_content fs1 p = path_content fs p"
    using WAL_log_inv [OF Cons.prems(1), of "fst call" "snd call"] Cons.prems(2,3) by auto
  obtain fs2 w2 n2 rss2 where 2: "WAL_run fs1 w1 calls = Inr (fs2, w2)" "wal_inv fs2 w2 d n2 rss2"
    "n2 \<le> n1 + length calls" "concat rss2 @ log_buffer w2 = concat rss1 @ log_buffer w1 @ concat (map fst calls)"
    "calls \<noteq> [] \<and> snd (last calls) \<longrightarrow> log_buffer w2 = []" "n1 \<le> n2"
    "\<forall>p. p \<notin> wal_path d ` {..n2} \<longrightarrow> path_content fs2 p = path_content fs1 p"
    using Cons.IH [OF 1(2)] Cons.prems(2,3) 1(3) by auto
  have "concat rss2 @ log_buffer w2 = concat rss @ log_buffer w @ concat (map fst (call # calls))"
    using 1(4) 2(4) by (metis append.assoc concat.simps(2) list.simps(9))
  moreover have "snd (last (call # calls)) \<longrightarrow> log_buffer w2 = []"
    using 1(5) 2(1,5) by (cases calls) auto
  moreover have "\<forall>p. p \<notin> wal_path d ` {..n2} \<longrightarrow> path_content fs2 p = path_content fs p"
  proof (intro allI impI)
    fix p assume p: "p \<notin> wal_path d ` {..n2}"
    then have "p \<notin> wal_path d ` {..n1}"
      using 2(6) by auto
    then show "path_content fs2 p = path_content fs p"
      using 1(7) 2(7) p by simp
  qed
  ultimately show ?case
    using 1(1,3,6) 2(1-3,6) by (intro exI [of _ fs2] exI [of _ w2] exI [of _ n2] exI [of _ rss2]) simp
qed

lemma WAL_new_inv:
  assumes "fs_wf fs"
  shows "\<exists>fs' w. WAL_new fs d bs ck lim = Inr (fs', w) \<and> wal_inv fs' w d 0 [[]] \<and> log_buffer w = [] \<and>
    (\<forall>p. p \<notin> wal_path d ` {..0} \<longrightarrow> path_content fs' p = path_content fs p)"
proof -
  have "(of_char (CHR ''0'') :: nat) = 48" by simp
  then have "digit 0 = CHR ''0''"
    unfolding digit_def by (metis add.right_neutral char_of_char)
  then have path: "d @ ''/wal.0'' = wal_path d 0"
    by (subst wal_path_def, subst to_string.simps) simp
  obtain fs' f j where c: "FileObj_create_and_write fs (wal_path d 0) [] = Inr (fs', f)" "fs_wf fs'"
    "fd f = dir fs' (wal_path d 0)" "\<forall>p. path_content fs' p = (if p = wal_path d 0 then Some [] else path_content fs p)"
    using create_content [OF assms] by blast
  then have "FileObj_open fs (wal_path d 0) True = Inr (fs', f)"
    by (auto simp: FileObj_create_and_write_def StdFile_create_def FileObj_open_def split: prod.splits if_splits)
  with c show ?thesis
    by (simp add: WAL_new_def path wal_inv_def)
qed

lemma length_concat_nth: "i < length xss \<Longrightarrow> length (records_bytes (xss ! i)) \<le> length (records_bytes (concat xss))"
proof (induction xss arbitrary: i)
  case (Cons a xss)
  then show ?case
    by (cases i) (auto intro: trans_le_add2)
qed simp

lemma WAL_recover_inv:
  assumes inv: "wal_inv fs w d n rss" and n: "n < 2 ^ 31" and size: "length (records_bytes (concat rss)) < 2 ^ 64"
    and entries: "filter (is_wal_file fs) entries = map (wal_path d) ns" "mset ns = mset [0..<Suc n]"
  shows "WAL_recover fs True entries ckpt = Inr (recover_records ckpt (concat rss) [])"
proof -
  have set: "set ns = {0..<Suc n}"
    using mset_eq_setD [OF entries(2)] by (simp only: set_upt)
  have "sort_by_seq (\<lambda>a. stoi (after_last CHR ''.'' a)) (map (wal_path d) ns) = Inr (map (wal_path d) (sort ns))"
    using set n by (intro sort_by_seq_map) simp
  moreover have "sort ns = [0..<Suc n]"
    using entries(2) by (intro properties_for_sort) (simp_all del: upt_Suc)
  moreover have len: "length rss = Suc n"
    using inv by (simp add: wal_inv_def)
  have fst: "map (wal_path d) [0..<Suc n] = map fst (zip (map (wal_path d) [0..<Suc n]) rss)"
    and snd: "rss = map snd (zip (map (wal_path d) [0..<Suc n]) rss)"
    using len by (simp_all del: upt_Suc)
  have "recover_files fs ckpt (map fst (zip (map (wal_path d) [0..<Suc n]) rss)) [] =
      Inr (recover_records ckpt (concat (map snd (zip (map (wal_path d) [0..<Suc n]) rss))) [])"
  proof (rule recover_files_ok, clarify)
    fix p rs assume "(p, rs) \<in> set (zip (map (wal_path d) [0..<Suc n]) rss)"
    then obtain i where i: "i < length rss" "rs = rss ! i" "p = wal_path d i"
      using len by (auto simp: in_set_zip simp del: upt_Suc)
    then have "path_content fs p = Some (records_bytes rs)"
      using inv len by (simp add: wal_inv_def)
    moreover have "\<forall>r \<in> set rs. record_ok r"
      using inv nth_mem [OF i(1)] i(2) by (auto simp: wal_inv_def)
    moreover have "length (records_bytes rs) < 2 ^ 64"
      using length_concat_nth [OF i(1)] size i(2) by simp
    ultimately show "path_content fs p = Some (records_bytes rs) \<and> length (records_bytes rs) < 2 ^ 64 \<and>
        (\<forall>r \<in> set rs. record_ok r)" by blast
  qed
  ultimately show ?thesis
    using entries(1) fst [symmetric] snd [symmetric] by (simp add: WAL_recover_def del: upt_Suc)
qed

text \<open>
  \<open>lists_logs fs d entries\<close>: what is relied on of a \<^verbatim>\<open>directory_iterator\<close> over \<open>d\<close>. It delivers every log file
  of the directory once, in any order, among any other entries.
\<close>

definition in_directory :: "string \<Rightarrow> string \<Rightarrow> bool" where
  "in_directory d p \<longleftrightarrow> (\<exists>name. p = d @ CHR ''/'' # name \<and> CHR ''/'' \<notin> set name)"

definition lists_logs :: "filesys \<Rightarrow> string \<Rightarrow> string list \<Rightarrow> bool" where
  "lists_logs fs d entries \<longleftrightarrow>
     distinct (filter (is_wal_file fs) entries) \<and>
     set (filter (is_wal_file fs) entries) = {p. in_directory d p \<and> is_wal_file fs p}"

lemma is_wal_file_content: "is_wal_file fs p \<longleftrightarrow> path_content fs p \<noteq> None \<and> take 4 (filename_of p) = ''wal.''"
  by (simp add: is_wal_file_def path_content_def)

lemma wal_path_in_directory [simp]: "in_directory d (wal_path d i)"
  unfolding in_directory_def
  by (rule exI [of _ "''wal.'' @ to_string i"]) (simp add: wal_path_def to_string_no_separator)

lemma log_files:
  assumes inv: "wal_inv fs' w d n rss"
    and frame: "\<forall>p. p \<notin> wal_path d ` {..n} \<longrightarrow> path_content fs' p = path_content fs p"
    and new: "\<forall>p. in_directory d p \<longrightarrow> \<not> is_wal_file fs p"
  shows "{p. in_directory d p \<and> is_wal_file fs' p} = wal_path d ` {..n}"
proof (intro set_eqI iffI)
  fix p assume p: "p \<in> {p. in_directory d p \<and> is_wal_file fs' p}"
  show "p \<in> wal_path d ` {..n}"
  proof (rule ccontr)
    assume "p \<notin> wal_path d ` {..n}"
    then have "path_content fs' p = path_content fs p" using frame by blast
    then have "is_wal_file fs p" using p by (simp add: is_wal_file_content)
    with p new show False by blast
  qed
next
  fix p assume "p \<in> wal_path d ` {..n}"
  then obtain i where "i \<le> n" "p = wal_path d i" by blast
  with inv show "p \<in> {p. in_directory d p \<and> is_wal_file fs' p}"
    by (simp add: wal_inv_def is_wal_file_content)
qed

lemma lists_logs_numbers:
  assumes "lists_logs fs d entries" and "{p. in_directory d p \<and> is_wal_file fs p} = wal_path d ` {..n}"
  shows "\<exists>ns. filter (is_wal_file fs) entries = map (wal_path d) ns \<and> mset ns = mset [0..<Suc n]"
proof -
  let ?ps = "filter (is_wal_file fs) entries"
  have ps: "distinct ?ps" "set ?ps = wal_path d ` {..n}"
    using assms unfolding lists_logs_def by blast+
  then have "\<forall>p \<in> set ?ps. \<exists>i. p = wal_path d i" by blast
  then obtain ns where ns: "?ps = map (wal_path d) ns"
    unfolding ex_map_conv [symmetric] by blast
  then have "distinct ns" using ps(1) by (simp add: distinct_map)
  moreover have "set ns = set [0..<Suc n]"
  proof -
    have "wal_path d ` set ns = wal_path d ` {..n}" using ps(2) ns by simp
    then have "set ns = {..n}" by (simp add: inj_image_eq_iff inj_def)
    then show ?thesis by (simp only: set_upt atLeast0_lessThan_Suc_eq_insert_0 atLeast0LessThan lessThan_Suc_atMost)
  qed
  ultimately have "mset ns = mset [0..<Suc n]"
    by (simp only: set_eq_iff_mset_eq_distinct distinct_upt)
  with ns show ?thesis by blast
qed

lemma lists_logs_exists:
  assumes "{p. in_directory d p \<and> is_wal_file fs p} = wal_path d ` {..n}"
  shows "lists_logs fs d (map (wal_path d) [0..<Suc n])"
proof -
  have all: "filter (is_wal_file fs) (map (wal_path d) [0..<Suc n]) = map (wal_path d) [0..<Suc n]"
  proof (rule filter_True, rule ballI)
    fix p assume "p \<in> set (map (wal_path d) [0..<Suc n])"
    then have "p \<in> wal_path d ` {..n}" by (auto simp del: upt_Suc)
    then show "is_wal_file fs p" unfolding assms [symmetric] by blast
  qed
  have "distinct (map (wal_path d) [0..<Suc n])"
    by (simp add: distinct_map inj_on_def del: upt_Suc)
  moreover have "set (map (wal_path d) [0..<Suc n]) = wal_path d ` {..n}"
    by (simp only: set_map set_upt atLeast0LessThan lessThan_Suc_atMost)
  ultimately show ?thesis
    unfolding lists_logs_def all assms by blast
qed

text \<open>
  C24: durability of the log. A log is created in a directory that holds no log file, any calls of \<^verbatim>\<open>log\<close>
  follow (full or partial buffers, any file size limit, so any number of file switches), the last of
  them forced. None of the calls fails. The log files then present in the directory can be listed, and
  with every listing of them, in whatever order, recovery returns for every transaction after the
  checkpoint exactly the records logged for it, in the order they were logged, and nothing for the
  others.
\<close>

theorem wal_recover_logged:
  assumes "fs_wf fs" and "\<forall>p. in_directory d p \<longrightarrow> \<not> is_wal_file fs p"
    and "\<forall>r \<in> set (concat (map fst calls)). record_ok r" and "length calls < 2 ^ 31"
    and "calls \<noteq> []" and "snd (last calls)" and "length (records_bytes (concat (map fst calls))) < 2 ^ 64"
  shows "\<exists>fs' w. bindE (WAL_new fs d bs ck lim) (\<lambda>s. WAL_run (fst s) (snd s) calls) = Inr (fs', w) \<and>
    (\<exists>entries. lists_logs fs' d entries) \<and>
    (\<forall>entries. lists_logs fs' d entries \<longrightarrow> (\<exists>m. WAL_recover fs' True entries ckpt = Inr m \<and>
      (\<forall>t. lookup_list m t = (if ckpt < t then filter (\<lambda>r. r_tranc_id r = t) (concat (map fst calls)) else []))))"
proof -
  obtain fs0 w0 where 0: "WAL_new fs d bs ck lim = Inr (fs0, w0)" "wal_inv fs0 w0 d 0 [[]]" "log_buffer w0 = []"
    "\<forall>p. p \<notin> wal_path d ` {..0} \<longrightarrow> path_content fs0 p = path_content fs p"
    using WAL_new_inv [OF assms(1)] by blast
  obtain fs' w n rss where 1: "WAL_run fs0 w0 calls = Inr (fs', w)" "wal_inv fs' w d n rss" "n \<le> 0 + length calls"
    "concat rss @ log_buffer w = concat [[]] @ log_buffer w0 @ concat (map fst calls)"
    "calls \<noteq> [] \<and> snd (last calls) \<longrightarrow> log_buffer w = []"
    "\<forall>p. p \<notin> wal_path d ` {..n} \<longrightarrow> path_content fs' p = path_content fs0 p"
    using WAL_run_inv [OF 0(2) assms(3)] assms(4) by auto
  have logged: "concat rss = concat (map fst calls)"
    using 1(4,5) 0(3) assms(5,6) by simp
  have "\<forall>p. p \<notin> wal_path d ` {..n} \<longrightarrow> path_content fs' p = path_content fs p"
    using 1(6) 0(4) by auto
  note files = log_files [OF 1(2) this assms(2)]
  have "\<exists>m. WAL_recover fs' True entries ckpt = Inr m \<and> (\<forall>t. lookup_list m t =
      (if ckpt < t then filter (\<lambda>r. r_tranc_id r = t) (concat (map fst calls)) else []))"
    if listed: "lists_logs fs' d entries" for entries
  proof (intro exI conjI allI)
    obtain ns where "filter (is_wal_file fs') entries = map (wal_path d) ns" "mset ns = mset [0..<Suc n]"
      using lists_logs_numbers [OF listed files] by blast
    then show "WAL_recover fs' True entries ckpt = Inr (recover_records ckpt (concat rss) [])"
      using 1(3) logged assms(4,7) by (intro WAL_recover_inv [OF 1(2)]) auto
    show "lookup_list (recover_records ckpt (concat rss) []) t =
        (if ckpt < t then filter (\<lambda>r. r_tranc_id r = t) (concat (map fst calls)) else [])" for t
      using recover_records_lookup [of "[]" ckpt "concat rss" t] logged
      by (auto simp: omap_sorted_def lookup_list_def filter_empty_conv intro: filter_cong)
  qed
  with 0(1) 1(1) lists_logs_exists [OF files] show ?thesis
    by (intro exI [of _ fs'] exI [of _ w]) auto
qed

theorem wal_recover_logged_witness:
  "\<exists>fs' w. bindE (WAL_new empty_fs ''d'' 9 0 20) (\<lambda>s. WAL_run (fst s) (snd s)
       [([createRecord 5, putRecord 5 ''k'' ''v''], False), ([commitRecord 5], True)]) = Inr (fs', w) \<and>
    (\<exists>entries. lists_logs fs' ''d'' entries) \<and>
    (\<forall>entries. lists_logs fs' ''d'' entries \<longrightarrow> (\<exists>m. WAL_recover fs' True entries 3 = Inr m \<and>
        lookup_list m 5 = [createRecord 5, putRecord 5 ''k'' ''v'', commitRecord 5]))"
proof -
  define calls where "calls = [([createRecord 5, putRecord 5 ''k'' ''v''], False), ([commitRecord 5], True)]"
  define rs where "rs = [createRecord 5, putRecord 5 ''k'' ''v'', commitRecord 5]"
  define e where "e = empty_fs"
  have all: "concat (map fst calls) = rs"
    by (simp add: calls_def rs_def)
  have ids: "(if (3 :: u64) < 5 then filter (\<lambda>r. r_tranc_id r = 5) rs else []) = rs"
    by (simp add: rs_def createRecord_def putRecord_def commitRecord_def)
  have "length (records_bytes rs) < 2 ^ 64"
    by (simp add: rs_def records_bytes_def record_bytes_def createRecord_def putRecord_def commitRecord_def)
  moreover have "fs_wf e" "\<forall>p. in_directory ''d'' p \<longrightarrow> \<not> is_wal_file e p"
    "\<forall>r \<in> set rs. record_ok r" "length calls < 2 ^ 31" "calls \<noteq> []" "snd (last calls)"
    by (simp_all add: fs_wf_def empty_fs_def is_wal_file_def e_def rs_def calls_def)
  ultimately obtain fs' w where run: "bindE (WAL_new e ''d'' 9 0 20) (\<lambda>s. WAL_run (fst s) (snd s) calls) = Inr (fs', w)"
    and listed: "\<exists>entries. lists_logs fs' ''d'' entries"
    and rec: "\<And>entries. lists_logs fs' ''d'' entries \<Longrightarrow> \<exists>m. WAL_recover fs' True entries 3 = Inr m \<and>
        (\<forall>t. lookup_list m t = (if 3 < t then filter (\<lambda>r. r_tranc_id r = t) rs else []))"
    using wal_recover_logged [of e "''d''" calls 9 0 20 3] unfolding all by blast
  have "\<exists>m. WAL_recover fs' True entries 3 = Inr m \<and> lookup_list m 5 = rs"
    if listing: "lists_logs fs' ''d'' entries" for entries
  proof -
    obtain m where m: "WAL_recover fs' True entries 3 = Inr m"
      "\<And>t. lookup_list m t = (if 3 < t then filter (\<lambda>r. r_tranc_id r = t) rs else [])"
      using rec [OF listing] by blast
    show ?thesis
      using m(1) trans [OF m(2) [of 5] ids] by blast
  qed
  with run listed have "\<exists>fs' w. bindE (WAL_new e ''d'' 9 0 20) (\<lambda>s. WAL_run (fst s) (snd s) calls) = Inr (fs', w) \<and>
    (\<exists>entries. lists_logs fs' ''d'' entries) \<and>
    (\<forall>entries. lists_logs fs' ''d'' entries \<longrightarrow> (\<exists>m. WAL_recover fs' True entries 3 = Inr m \<and> lookup_list m 5 = rs))"
    by blast
  then show ?thesis
    unfolding calls_def rs_def e_def .
qed

section \<open>Cleaning does not change what is recovered\<close>

lemma WAL_recover_paths:
  assumes entries: "filter (is_wal_file fs) entries = map (wal_path d) ns"
    and files: "\<forall>i \<in> set ns. i < 2 ^ 31 \<and> path_content fs (wal_path d i) = Some (records_bytes (R i)) \<and>
      length (records_bytes (R i)) < 2 ^ 64 \<and> (\<forall>r \<in> set (R i). record_ok r)"
  shows "WAL_recover fs True entries ckpt = Inr (recover_records ckpt (concat (map R (sort ns))) [])"
proof -
  have "sort_by_seq (\<lambda>a. stoi (after_last CHR ''.'' a)) (map (wal_path d) ns) = Inr (map (wal_path d) (sort ns))"
    using files by (intro sort_by_seq_map) simp
  moreover have "recover_files fs ckpt (map fst (map (\<lambda>i. (wal_path d i, R i)) (sort ns))) [] =
      Inr (recover_records ckpt (concat (map snd (map (\<lambda>i. (wal_path d i, R i)) (sort ns)))) [])"
    using files by (intro recover_files_ok) auto
  ultimately show ?thesis
    using entries by (simp add: WAL_recover_def comp_def)
qed

lemma recover_records_filter:
  "recover_records ckpt rs m = recover_records ckpt (filter (\<lambda>r. ckpt < r_tranc_id r) rs) m"
  by (induction rs arbitrary: m) simp_all

lemma read_uints:
  assumes "fd f = Some j" and "inodes fs j = pre @ u16_bytes a @ u64_bytes b @ post"
    and "off = length pre" and "length (inodes fs j) < 2 ^ 64"
  shows "FileObj_read_uint16 fs f off = Inr a" and "FileObj_read_uint64 fs f (off + 2) = Inr b"
proof -
  have 1: "StdFile_read fs f off 2 = Inr (u16_bytes a)" and 2: "StdFile_read fs f (off + 2) 8 = Inr (u64_bytes b)"
    using assms(1-3) by (simp_all add: StdFile_read_def)
  have n: "\<not> beyond fs f off 2" "\<not> beyond fs f (off + 2) 8"
    using assms by (auto simp: beyond_def StdFile_size_def)
  show "FileObj_read_uint16 fs f off = Inr a"
    using 1 n read_u16_middle [of 0 "[]" a "[]"] by (simp add: FileObj_read_uint16_def)
  show "FileObj_read_uint64 fs f (off + 2) = Inr b"
    using 2 n read_u64_middle [of 0 "[]" b "[]"] by (simp add: FileObj_read_uint64_def)
qed

lemma wal_has_unfinished_ok:
  assumes "fd f = Some j" and "inodes fs j = pre @ records_bytes rs" and "length (inodes fs j) < 2 ^ 64"
    and "\<forall>r \<in> set rs. record_ok r"
  shows "wal_has_unfinished fs f ckpt (length pre) = Some (Inr (\<exists>r \<in> set rs. ckpt < r_tranc_id r))"
  using assms
proof (induction rs arbitrary: pre)
  case Nil
  then show ?case
    by (subst wal_has_unfinished.simps) (simp add: FileObj_size_def StdFile_size_def)
next
  case (Cons r rs)
  obtain body where b: "record_bytes r = u16_bytes (r_record_len r) @ u64_bytes (r_tranc_id r) @ body"
    by (simp add: record_bytes_def)
  have reads: "FileObj_read_uint16 fs f (length pre) = Inr (r_record_len r)"
    "FileObj_read_uint64 fs f (length pre + 2) = Inr (r_tranc_id r)"
    using read_uints [OF Cons.prems(1), of fs pre "r_record_len r" "r_tranc_id r" "body @ records_bytes rs"]
      Cons.prems(2,3) b by simp_all
  have more: "length pre + 2 < FileObj_size fs f"
    using Cons.prems(1,2) record_bytes_long [of r] by (simp add: FileObj_size_def StdFile_size_def)
  have "length pre + unat (r_record_len r) = length (pre @ record_bytes r)"
    using length_record_bytes [of r] Cons.prems(4) by simp
  then have "wal_has_unfinished fs f ckpt (length pre + unat (r_record_len r)) =
      Some (Inr (\<exists>r \<in> set rs. ckpt < r_tranc_id r))"
    using Cons.IH [of "pre @ record_bytes r"] Cons.prems by simp
  with reads more show ?case
    by (subst wal_has_unfinished.simps) simp
qed

lemma clean_scan_ok:
  assumes "\<forall>i \<in> set is. path_content fs (wal_path d i) = Some (records_bytes (R i)) \<and>
      length (records_bytes (R i)) < 2 ^ 64 \<and> (\<forall>r \<in> set (R i). record_ok r)"
  shows "\<exists>fls. clean_scan fs ckpt (map (wal_path d) is) = Some (Inr fls) \<and>
    map file_path fls = map (wal_path d) (filter (\<lambda>i. \<forall>r \<in> set (R i). r_tranc_id r \<le> ckpt) is)"
  using assms
proof (induction "is")
  case Nil
  then show ?case by simp
next
  case (Cons i "is")
  let ?p = "wal_path d i"
  obtain fls where fls: "clean_scan fs ckpt (map (wal_path d) is) = Some (Inr fls)"
    "map file_path fls = map (wal_path d) (filter (\<lambda>i. \<forall>r \<in> set (R i). r_tranc_id r \<le> ckpt) is)"
    using Cons by auto
  obtain j where j: "dir fs ?p = Some j" "inodes fs j = records_bytes (R i)"
    using Cons.prems by (auto simp: path_content_def)
  let ?f = "\<lparr>fd = Some j, file_path = ?p\<rparr>"
  have "FileObj_open fs ?p False = Inr (fs, ?f)"
    using j by (simp add: FileObj_open_def StdFile_open_def)
  moreover have "wal_has_unfinished fs ?f ckpt 0 = Some (Inr (\<exists>r \<in> set (R i). ckpt < r_tranc_id r))"
    using wal_has_unfinished_ok [of ?f j fs "[]" "R i" ckpt] j Cons.prems by simp
  ultimately show ?case
    using fls by (auto simp: not_le)
qed

lemma delete_content:
  "path_content (foldl FileObj_del_file fs fls) p =
     (if p \<in> file_path ` set fls then None else path_content fs p)"
proof (induction fls arbitrary: fs)
  case Nil
  then show ?case by simp
next
  case (Cons f fls)
  have "path_content (FileObj_del_file fs f) p = (if p = file_path f then None else path_content fs p)"
    by (cases "dir fs (file_path f)") (auto simp: FileObj_del_file_def StdFile_remove_def path_content_def)
  with Cons show ?case by auto
qed

lemma log_file_at:
  assumes inv: "wal_inv fs w d n rss" and n: "n < 2 ^ 31" and size: "length (records_bytes (concat rss)) < 2 ^ 64" and i: "i \<le> n"
  shows "i < 2 ^ 31 \<and> path_content fs (wal_path d i) = Some (records_bytes (rss ! i)) \<and>
    length (records_bytes (rss ! i)) < 2 ^ 64 \<and> (\<forall>r \<in> set (rss ! i). record_ok r)"
proof -
  have len: "i < length rss" using inv i by (simp add: wal_inv_def)
  have "set (rss ! i) \<subseteq> set (concat rss)"
    unfolding set_concat using nth_mem [OF len] by blast
  then have "\<forall>r \<in> set (rss ! i). record_ok r"
    using inv unfolding wal_inv_def by auto
  then show ?thesis
    using i n inv size length_concat_nth [OF len] by (simp add: wal_inv_def)
qed

text \<open>The files that a run of the cleaner removes.\<close>

lemma clean_run:
  assumes inv: "wal_inv fs w d n rss" and n: "n < 2 ^ 31" and size: "length (records_bytes (concat rss)) < 2 ^ 64"
    and listed: "filter (is_wal_file fs) entries = map (wal_path d) ns" "mset ns = mset [0..<Suc n]"
  shows "\<exists>fls. WAL_cleanWALFile fs w entries = Some (Inr (foldl FileObj_del_file fs fls)) \<and>
    file_path ` set fls = wal_path d ` {i. i < n \<and> (\<forall>r \<in> set (rss ! i). r_tranc_id r \<le> checkpoint_tranc_id w)}"
proof -
  let ?ck = "checkpoint_tranc_id w"
  let ?old = "\<lambda>i. \<forall>r \<in> set (rss ! i). r_tranc_id r \<le> ?ck"
  have set: "set ns = {0..<Suc n}"
    using mset_eq_setD [OF listed(2)] by (simp only: set_upt)
  have sort: "sort ns = [0..<Suc n]"
    using listed(2) by (intro properties_for_sort) (simp_all del: upt_Suc)
  have "\<forall>i \<in> set ns. i < 2 ^ 31" using set n by auto
  moreover have "after_last CHR ''.'' (''wal.'' @ to_string i) = to_string i" for i
    using after_before_last(1) [of "CHR ''.''" "to_string i" "''wal''"] to_string_no_separator(1) by simp
  ultimately have "mapE (\<lambda>p. stoull (after_last CHR ''.'' (filename_of p))) (map (wal_path d) ns) = Inr ns"
    by (induction ns) simp_all
  moreover have "map snd (sort_key fst (zip ns (map (wal_path d) ns))) = map (wal_path d) (sort ns)"
    using sort_key_map [of fst "\<lambda>n. (n, wal_path d n)" ns] by (simp add: zip_map2 zip_same_conv_map comp_def)
  moreover have "butlast (map (wal_path d) [0..<Suc n]) = map (wal_path d) [0..<n]"
    by simp
  moreover have "\<forall>i \<in> set [0..<n]. path_content fs (wal_path d i) = Some (records_bytes (rss ! i)) \<and>
      length (records_bytes (rss ! i)) < 2 ^ 64 \<and> (\<forall>r \<in> set (rss ! i). record_ok r)"
    using log_file_at [OF inv n size] by (metis atLeastLessThan_iff less_Suc_eq_le set_upt less_imp_le)
  from clean_scan_ok [OF this, of ?ck] obtain fls where fls: "clean_scan fs ?ck (map (wal_path d) [0..<n]) = Some (Inr fls)"
    "map file_path fls = map (wal_path d) (filter ?old [0..<n])" by blast
  ultimately have "WAL_cleanWALFile fs w entries = Some (Inr (foldl FileObj_del_file fs fls))"
    using listed(1) sort by (simp add: WAL_cleanWALFile_def Let_def)
  moreover have "file_path ` set fls = wal_path d ` {i. i < n \<and> ?old i}"
    using arg_cong [OF fls(2), of set] by (simp add: set_filter)
  ultimately show ?thesis by blast
qed

text \<open>Removing files without records above the checkpoint does not change what is recovered.\<close>

lemma clean_keeps_recovery:
  assumes inv: "wal_inv fs w d n rss" and n: "n < 2 ^ 31" and size: "length (records_bytes (concat rss)) < 2 ^ 64"
    and listed: "filter (is_wal_file fs) entries = map (wal_path d) ns" "mset ns = mset [0..<Suc n]"
    and content: "\<And>p. path_content fs' p =
      (if \<exists>i < n. p = wal_path d i \<and> (\<forall>r \<in> set (rss ! i). r_tranc_id r \<le> ck) then None else path_content fs p)"
  shows "WAL_recover fs' True entries ck = WAL_recover fs True entries ck"
proof -
  have "set ns = {0..<Suc n}"
    using mset_eq_setD [OF listed(2)] by (simp only: set_upt)
  then have files: "\<forall>i \<in> set ns. i < 2 ^ 31 \<and> path_content fs (wal_path d i) = Some (records_bytes (rss ! i)) \<and>
      length (records_bytes (rss ! i)) < 2 ^ 64 \<and> (\<forall>r \<in> set (rss ! i). record_ok r)"
    using log_file_at [OF inv n size] by (metis atLeastLessThan_iff less_Suc_eq_le set_upt less_imp_le)
  let ?keep = "\<lambda>i. \<not> (i < n \<and> (\<forall>r \<in> set (rss ! i). r_tranc_id r \<le> ck))"
  have sub: "is_wal_file fs' p \<Longrightarrow> is_wal_file fs p" for p
    unfolding is_wal_file_content content by (simp split: if_splits)
  have "filter (is_wal_file fs') entries = filter (\<lambda>p. is_wal_file fs' p) (filter (is_wal_file fs) entries)"
    unfolding filter_filter using sub by (intro filter_cong) auto
  also have "\<dots> = map (wal_path d) (filter ?keep ns)"
    unfolding listed(1) filter_map comp_def using files
    by (auto simp: is_wal_file_content content intro!: arg_cong [of _ _ "map (wal_path d)"] filter_cong)
  finally have r1: "WAL_recover fs' True entries ck =
      Inr (recover_records ck (concat (map (\<lambda>i. rss ! i) (sort (filter ?keep ns)))) [])"
    using files by (intro WAL_recover_paths) (auto simp: content)
  have r2: "WAL_recover fs True entries ck = Inr (recover_records ck (concat (map (\<lambda>i. rss ! i) (sort ns))) [])"
    using files by (intro WAL_recover_paths [OF listed(1)])
  have flt: "filter (\<lambda>r. ck < r_tranc_id r) (concat (map (\<lambda>i. rss ! i) (filter ?keep xs))) =
      filter (\<lambda>r. ck < r_tranc_id r) (concat (map (\<lambda>i. rss ! i) xs))" for xs
    by (induction xs) (auto simp: filter_empty_conv not_less)
  have srt: "sort (filter ?keep ns) = filter ?keep (sort ns)"
    by (simp add: filter_sort)
  show ?thesis
    unfolding r1 r2 srt by (subst (1 2) recover_records_filter) (simp only: flt)
qed

text \<open>
  C31: the cleaner terminates on every log, removes only files that are not the newest and whose records
  all belong to transactions up to the checkpoint, leaves the other files as they were, and does not
  change what recovery from that checkpoint returns.
\<close>

theorem wal_clean_safe:
  assumes inv: "wal_inv fs w d n rss" and n: "n < 2 ^ 31" and size: "length (records_bytes (concat rss)) < 2 ^ 64"
    and listed: "filter (is_wal_file fs) entries = map (wal_path d) ns" "mset ns = mset [0..<Suc n]"
  shows "\<exists>fs'. WAL_cleanWALFile fs w entries = Some (Inr fs') \<and>
    (\<forall>p. path_content fs' p =
      (if \<exists>i < n. p = wal_path d i \<and> (\<forall>r \<in> set (rss ! i). r_tranc_id r \<le> checkpoint_tranc_id w)
       then None else path_content fs p)) \<and>
    WAL_recover fs' True entries (checkpoint_tranc_id w) = WAL_recover fs True entries (checkpoint_tranc_id w)"
proof -
  obtain fls where run: "WAL_cleanWALFile fs w entries = Some (Inr (foldl FileObj_del_file fs fls))"
    and fls: "file_path ` set fls = wal_path d ` {i. i < n \<and> (\<forall>r \<in> set (rss ! i). r_tranc_id r \<le> checkpoint_tranc_id w)}"
    using clean_run [OF assms] by blast
  have content: "path_content (foldl FileObj_del_file fs fls) p =
      (if \<exists>i < n. p = wal_path d i \<and> (\<forall>r \<in> set (rss ! i). r_tranc_id r \<le> checkpoint_tranc_id w)
       then None else path_content fs p)" for p
    using fls by (auto simp: delete_content)
  with run clean_keeps_recovery [OF assms, of "foldl FileObj_del_file fs fls"] show ?thesis by blast
qed

theorem wal_clean_safe_witness:
  "let w = \<lparr>active_log_path = wal_path ''d'' 0, log_file = \<lparr>fd = Some 0, file_path = wal_path ''d'' 0\<rparr>,
          file_size_limit = 9, log_buffer = [], buffer_size = 1, checkpoint_tranc_id = 3, stop_cleaner = False\<rparr>;
       fs = \<lparr>dir = [wal_path ''d'' 0 \<mapsto> 0], inodes = (\<lambda>_. []), next_ino = 1\<rparr>
   in \<exists>fs'. WAL_cleanWALFile fs w [wal_path ''d'' 0] = Some (Inr fs') \<and>
        WAL_recover fs' True [wal_path ''d'' 0] 3 = WAL_recover fs True [wal_path ''d'' 0] 3"
proof -
  define w where "w = \<lparr>active_log_path = wal_path ''d'' 0, log_file = \<lparr>fd = Some 0, file_path = wal_path ''d'' 0\<rparr>,
    file_size_limit = 9, log_buffer = [], buffer_size = 1, checkpoint_tranc_id = 3, stop_cleaner = False\<rparr>"
  define fs where "fs = \<lparr>dir = [wal_path ''d'' 0 \<mapsto> 0], inodes = (\<lambda>_. [] :: bytes), next_ino = 1\<rparr>"
  have "wal_inv fs w ''d'' 0 [[]]"
    by (simp add: wal_inv_def fs_wf_def fs_def w_def path_content_def)
  moreover have "filter (is_wal_file fs) [wal_path ''d'' 0] = map (wal_path ''d'') [0]"
    by (simp add: is_wal_file_def fs_def)
  moreover have "checkpoint_tranc_id w = 3"
    by (simp add: w_def)
  ultimately have "\<exists>fs'. WAL_cleanWALFile fs w [wal_path ''d'' 0] = Some (Inr fs') \<and>
        WAL_recover fs' True [wal_path ''d'' 0] 3 = WAL_recover fs True [wal_path ''d'' 0] 3"
    using wal_clean_safe [of fs w "''d''" 0 "[[]]" "[wal_path ''d'' 0]" "[0]"] by auto
  then show ?thesis
    unfolding fs_def w_def Let_def .
qed

end
