(* ===== verification/SkipList.thy ===== *)
theory SkipList
  imports Block IteratorSpec
begin

unbundle bit_operations_syntax

text \<open>
  The skip list of the memtable: \<^verbatim>\<open>src/skiplist/skipList.cpp\<close> and \<^verbatim>\<open>include/skiplist/skiplist.h\<close>. The
  nodes live in a heap (the list of all nodes ever made; a \<^verbatim>\<open>shared_ptr\<close> is the index of its node),
  each with its vectors of forward and backward pointers, and the operations read and write these
  pointers level by level as the code does. The random numbers are arguments: the coin flips
  that choose the level of a node, and the bits that decide up to which level it is linked.

  A list \<open>as\<close> of addresses with linked heights \<open>h\<close> describes a skip list: on level \<open>i\<close> the forward pointers
  thread the nodes of height above \<open>i\<close>, the backward pointers the same nodes in reverse. For every
  choice of the random numbers the operations keep this invariant and act on the entries of the
  list as on a sorted list of versions.
\<close>

section \<open>Nodes and heap\<close>

record sl_node =
  nkey :: string
  nvalue :: string
  ntranc :: u64
  forward :: "nat option list"
  backward :: "nat option list"

record skiplist =
  sl_nodes :: "sl_node list"
  sl_head :: nat
  max_level :: nat
  current_level :: nat
  size_bytes :: u64

definition new_node :: "string \<Rightarrow> string \<Rightarrow> nat \<Rightarrow> u64 \<Rightarrow> sl_node" where
  "new_node k v level t = \<lparr>nkey = k, nvalue = v, ntranc = t, forward = replicate level None,
     backward = replicate level None\<rparr>"

definition node_less :: "string \<times> u64 \<Rightarrow> string \<times> u64 \<Rightarrow> bool" where
  "node_less a b = (if fst a = fst b then snd b < snd a else fst a < fst b)"

definition node_at :: "skiplist \<Rightarrow> nat \<Rightarrow> sl_node result" where
  "node_at s a = (if a < length (sl_nodes s) then Inr (sl_nodes s ! a) else Inl Undefined_behaviour)"

definition fwd :: "skiplist \<Rightarrow> nat \<Rightarrow> nat \<Rightarrow> nat option result" where
  "fwd s a i = bindE (node_at s a) (\<lambda>n.
     if i < length (forward n) then Inr (forward n ! i) else Inl Undefined_behaviour)"

definition bwd :: "skiplist \<Rightarrow> nat \<Rightarrow> nat \<Rightarrow> nat option result" where
  "bwd s a i = bindE (node_at s a) (\<lambda>n.
     if i < length (backward n) then Inr (backward n ! i) else Inl Undefined_behaviour)"

definition set_forward :: "nat \<Rightarrow> nat \<Rightarrow> nat option \<Rightarrow> skiplist \<Rightarrow> skiplist result" where
  "set_forward a i v s = bindE (node_at s a) (\<lambda>n.
     if i < length (forward n)
     then Inr (s\<lparr>sl_nodes := (sl_nodes s)[a := n\<lparr>forward := (forward n)[i := v]\<rparr>]\<rparr>)
     else Inl Undefined_behaviour)"

definition set_backward :: "nat \<Rightarrow> nat \<Rightarrow> nat \<Rightarrow> skiplist \<Rightarrow> skiplist result" where
  "set_backward a i v s = bindE (node_at s a) (\<lambda>n.
     if i < length (backward n)
     then Inr (s\<lparr>sl_nodes := (sl_nodes s)[a := n\<lparr>backward := (backward n)[i := Some v]\<rparr>]\<rparr>)
     else Inl Undefined_behaviour)"

definition SkipList_new :: "nat \<Rightarrow> skiplist" where
  "SkipList_new max_lvl = \<lparr>sl_nodes = [new_node [] [] max_lvl 0], sl_head = 0, max_level = max_lvl,
     current_level = 1, size_bytes = 0\<rparr>"

section \<open>Iterators\<close>

type_synonym sl_iter = "nat option"

definition SkipListIterator_incr :: "skiplist \<Rightarrow> sl_iter \<Rightarrow> sl_iter result" where
  "SkipListIterator_incr s it = (case it of None \<Rightarrow> Inr None | Some a \<Rightarrow> fwd s a 0)"

definition SkipListIterator_eq :: "sl_iter \<Rightarrow> sl_iter \<Rightarrow> bool" where
  "SkipListIterator_eq x y \<longleftrightarrow> x = y"

definition SkipListIterator_deref :: "skiplist \<Rightarrow> sl_iter \<Rightarrow> (string \<times> string) result" where
  "SkipListIterator_deref s it =
     (case it of
        None \<Rightarrow> Inl (Runtime_error ''Dereferencing invalid iterator'')
      | Some a \<Rightarrow> bindE (node_at s a) (\<lambda>n. Inr (nkey n, nvalue n)))"

definition SkipListIterator_is_end :: "sl_iter \<Rightarrow> bool" where
  "SkipListIterator_is_end it \<longleftrightarrow> it = None"

definition SkipListIterator_is_valid :: "skiplist \<Rightarrow> sl_iter \<Rightarrow> bool result" where
  "SkipListIterator_is_valid s it =
     (case it of None \<Rightarrow> Inr False | Some a \<Rightarrow> bindE (node_at s a) (\<lambda>n. Inr (nkey n \<noteq> [])))"

definition SkipListIterator_get_key :: "skiplist \<Rightarrow> sl_iter \<Rightarrow> string result" where
  "SkipListIterator_get_key s it =
     (case it of None \<Rightarrow> Inl Undefined_behaviour | Some a \<Rightarrow> bindE (node_at s a) (\<lambda>n. Inr (nkey n)))"

definition SkipListIterator_get_value :: "skiplist \<Rightarrow> sl_iter \<Rightarrow> string result" where
  "SkipListIterator_get_value s it =
     (case it of None \<Rightarrow> Inl Undefined_behaviour | Some a \<Rightarrow> bindE (node_at s a) (\<lambda>n. Inr (nvalue n)))"

definition SkipListIterator_get_tranc_id :: "skiplist \<Rightarrow> sl_iter \<Rightarrow> u64 result" where
  "SkipListIterator_get_tranc_id s it =
     (case it of None \<Rightarrow> Inl Undefined_behaviour | Some a \<Rightarrow> bindE (node_at s a) (\<lambda>n. Inr (ntranc n)))"

section \<open>Search\<close>

text \<open>
  The inner loop of every search: move along level \<open>i\<close> while the next node satisfies \<open>lt\<close>. A walk over more
  nodes than the heap has is a circle.
\<close>

primrec walk :: "nat \<Rightarrow> skiplist \<Rightarrow> (sl_node \<Rightarrow> bool) \<Rightarrow> nat \<Rightarrow> nat \<Rightarrow> nat result" where
  "walk 0 s lt i current = Inl No_return"
| "walk (Suc n) s lt i current =
     bindE (fwd s current i) (\<lambda>f.
       case f of
         None \<Rightarrow> Inr current
       | Some a \<Rightarrow> bindE (node_at s a) (\<lambda>x. if lt x then walk n s lt i a else Inr current))"

text \<open>The outer loop: levels \<open>i - 1, \<dots>, 0\<close>, recording where each level was left (\<^verbatim>\<open>update\<close>).\<close>

primrec descend :: "skiplist \<Rightarrow> (sl_node \<Rightarrow> bool) \<Rightarrow> nat \<Rightarrow> nat \<Rightarrow> (nat \<times> nat list) result" where
  "descend s lt 0 current = Inr (current, [])"
| "descend s lt (Suc i) current =
     bindE (walk (length (sl_nodes s) + 1) s lt i current) (\<lambda>current.
     bindE (descend s lt i current) (\<lambda>(final, update). Inr (final, update @ [current])))"

section \<open>Insertion\<close>

function random_level_loop :: "nat \<Rightarrow> (nat \<Rightarrow> bool) \<Rightarrow> nat \<Rightarrow> nat \<Rightarrow> nat" where
  "random_level_loop maxl coins k level =
     (if coins k \<and> level < maxl then random_level_loop maxl coins (k + 1) (level + 1) else level)"
  by pat_completeness auto
termination
  by (relation "measure (\<lambda>(m, c, k, l). m - l)") auto

definition random_level :: "nat \<Rightarrow> (nat \<Rightarrow> bool) \<Rightarrow> nat" where
  "random_level maxl coins = random_level_loop maxl coins 0 1"

definition link_level :: "nat \<Rightarrow> nat \<Rightarrow> nat \<Rightarrow> skiplist \<Rightarrow> skiplist result" where
  "link_level new i u s =
     bindE (fwd s u i) (\<lambda>f.
     bindE (set_forward new i f s) (\<lambda>s.
     bindE (case f of None \<Rightarrow> Inr s | Some b \<Rightarrow> set_backward b i new s) (\<lambda>s.
     bindE (set_forward u i (Some new) s) (\<lambda>s.
       set_backward new i u s))))"

fun link_loop :: "nat \<Rightarrow> bool \<Rightarrow> nat \<Rightarrow> nat \<Rightarrow> nat list \<Rightarrow> skiplist \<Rightarrow> skiplist result" where
  "link_loop new raised random_bits i [] s = Inr s"
| "link_loop new raised random_bits i (u # us) s =
     (if i = 0 \<or> raised \<or> bit random_bits i
      then bindE (link_level new i u s) (link_loop new raised random_bits (i + 1) us)
      else Inr s)"

definition SkipList_put ::
  "(nat \<Rightarrow> bool) \<Rightarrow> nat \<Rightarrow> string \<Rightarrow> string \<Rightarrow> u64 \<Rightarrow> skiplist \<Rightarrow> skiplist result" where
  "SkipList_put coins random_bits key val tranc_id s =
     (let new_level = max (random_level (max_level s) coins) (current_level s);
          lt = (\<lambda>n. node_less (nkey n, ntranc n) (key, tranc_id)) in
      bindE (descend s lt (current_level s) (sl_head s)) (\<lambda>(current, update).
      bindE (fwd s current 0) (\<lambda>next.
      bindE (case next of
               None \<Rightarrow> Inr None
             | Some a \<Rightarrow> bindE (node_at s a) (\<lambda>n.
                 Inr (if nkey n = key \<and> ntranc n = tranc_id then Some (a, n) else None))) (\<lambda>same.
        case same of
          Some (a, n) \<Rightarrow>
            Inr (s\<lparr>size_bytes := size_bytes s + (of_nat (length val) - of_nat (length (nvalue n))),
                   sl_nodes := (sl_nodes s)[a := n\<lparr>nvalue := val, ntranc := tranc_id\<rparr>]\<rparr>)
        | None \<Rightarrow>
            let update = update @ replicate (new_level - current_level s) (sl_head s);
                new = length (sl_nodes s);
                raised = (current_level s < new_level);
                s = s\<lparr>sl_nodes := sl_nodes s @ [new_node key val new_level tranc_id],
                      size_bytes := size_bytes s + of_nat (length key + length val + 8)\<rparr>
            in bindE (link_loop new raised random_bits 0 update s) (\<lambda>s.
                 Inr (s\<lparr>current_level := new_level\<rparr>))))))"

section \<open>Lookup\<close>

primrec get_loop :: "nat \<Rightarrow> skiplist \<Rightarrow> string \<Rightarrow> u64 \<Rightarrow> nat option \<Rightarrow> sl_iter result" where
  "get_loop 0 s key tranc_id current = Inl No_return"
| "get_loop (Suc n) s key tranc_id current =
     (case current of
        None \<Rightarrow> Inr None
      | Some a \<Rightarrow> bindE (node_at s a) (\<lambda>x.
          if nkey x = key then
            if ntranc x \<le> tranc_id then Inr (Some a)
            else bindE (fwd s a 0) (get_loop n s key tranc_id)
          else Inr None))"

definition SkipList_get :: "skiplist \<Rightarrow> string \<Rightarrow> u64 \<Rightarrow> sl_iter result" where
  "SkipList_get s key tranc_id =
     bindE (descend s (\<lambda>n. nkey n < key) (current_level s) (sl_head s)) (\<lambda>(current, _).
     bindE (fwd s current 0) (\<lambda>current.
       if tranc_id = 0 then
         (case current of
            None \<Rightarrow> Inr None
          | Some a \<Rightarrow> bindE (node_at s a) (\<lambda>x. Inr (if nkey x = key then Some a else None)))
       else get_loop (length (sl_nodes s) + 1) s key tranc_id current))"

section \<open>Removal\<close>

fun unlink_loop :: "nat \<Rightarrow> nat \<Rightarrow> nat list \<Rightarrow> skiplist \<Rightarrow> skiplist result" where
  "unlink_loop cur i [] s = Inr s"
| "unlink_loop cur i (u # us) s =
     bindE (fwd s u i) (\<lambda>f.
       if f \<noteq> Some cur then Inr s
       else bindE (fwd s cur i) (\<lambda>g.
            bindE (set_forward u i g s) (unlink_loop cur (i + 1) us)))"

fun backlink_loop :: "nat \<Rightarrow> nat \<Rightarrow> nat list \<Rightarrow> skiplist \<Rightarrow> skiplist result" where
  "backlink_loop cur i [] s = Inr s"
| "backlink_loop cur i (u # us) s =
     bindE (node_at s cur) (\<lambda>n.
       if i < length (backward n) then
         bindE (fwd s cur i) (\<lambda>f.
         bindE (case f of None \<Rightarrow> Inr s | Some b \<Rightarrow> set_backward b i u s) (backlink_loop cur (i + 1) us))
       else Inr s)"

primrec lower_level :: "nat \<Rightarrow> skiplist \<Rightarrow> nat result" where
  "lower_level 0 s = Inr 0"
| "lower_level (Suc l) s =
     (if 1 < Suc l then
        bindE (fwd s (sl_head s) l) (\<lambda>f. if f = None then lower_level l s else Inr (Suc l))
      else Inr (Suc l))"

definition SkipList_remove :: "string \<Rightarrow> skiplist \<Rightarrow> skiplist result" where
  "SkipList_remove key s =
     bindE (node_at s (sl_head s)) (\<lambda>hd.
     bindE (descend s (\<lambda>n. nkey n < key) (length (forward hd)) (sl_head s)) (\<lambda>(current, update).
     bindE (fwd s current 0) (\<lambda>next.
       case next of
         None \<Rightarrow> Inr s
       | Some cur \<Rightarrow>
           bindE (node_at s cur) (\<lambda>n.
             if nkey n = key then
               bindE (unlink_loop cur 0 (take (current_level s) update) s) (\<lambda>s.
               bindE (backlink_loop cur 0 (take (current_level s) update) s) (\<lambda>s.
               let s = s\<lparr>size_bytes := size_bytes s - of_nat (length key + length (nvalue n) + 8)\<rparr> in
               bindE (lower_level (current_level s) s) (\<lambda>l. Inr (s\<lparr>current_level := l\<rparr>))))
             else Inr s))))"

section \<open>The other operations\<close>

primrec flush_loop :: "nat \<Rightarrow> skiplist \<Rightarrow> nat option \<Rightarrow> entry list result" where
  "flush_loop 0 s node = Inl No_return"
| "flush_loop (Suc n) s node =
     (case node of
        None \<Rightarrow> Inr []
      | Some a \<Rightarrow> bindE (node_at s a) (\<lambda>x.
                  bindE (fwd s a 0) (\<lambda>next.
                  bindE (flush_loop n s next) (\<lambda>es.
                    Inr (\<lparr>ekey = nkey x, evalue = nvalue x, etranc = ntranc x\<rparr> # es)))))"

definition SkipList_flush :: "skiplist \<Rightarrow> entry list result" where
  "SkipList_flush s = bindE (fwd s (sl_head s) 0) (flush_loop (length (sl_nodes s) + 1) s)"

definition SkipList_get_size :: "skiplist \<Rightarrow> u64" where
  "SkipList_get_size s = size_bytes s"

definition SkipList_clear :: "skiplist \<Rightarrow> skiplist" where
  "SkipList_clear s = s\<lparr>sl_nodes := sl_nodes s @ [new_node [] [] (max_level s) 0],
     sl_head := length (sl_nodes s), size_bytes := 0\<rparr>"

definition SkipList_begin :: "skiplist \<Rightarrow> sl_iter result" where
  "SkipList_begin s = fwd s (sl_head s) 0"

definition SkipList_end :: sl_iter where
  "SkipList_end = None"

definition SkipList_begin_preffix :: "skiplist \<Rightarrow> string \<Rightarrow> sl_iter result" where
  "SkipList_begin_preffix s preffix =
     bindE (descend s (\<lambda>n. nkey n < preffix) (current_level s) (sl_head s)) (\<lambda>(current, _).
       fwd s current 0)"

primrec skip_prefix :: "nat \<Rightarrow> skiplist \<Rightarrow> string \<Rightarrow> nat option \<Rightarrow> sl_iter result" where
  "skip_prefix 0 s p current = Inl No_return"
| "skip_prefix (Suc n) s p current =
     (case current of
        None \<Rightarrow> Inr None
      | Some a \<Rightarrow> bindE (node_at s a) (\<lambda>x.
          if take (length p) (nkey x) = p then bindE (fwd s a 0) (skip_prefix n s p) else Inr (Some a)))"

definition SkipList_end_preffix :: "skiplist \<Rightarrow> string \<Rightarrow> sl_iter result" where
  "SkipList_end_preffix s prefix =
     bindE (descend s (\<lambda>n. nkey n < prefix) (current_level s) (sl_head s)) (\<lambda>(current, _).
     bindE (fwd s current 0) (skip_prefix (length (sl_nodes s) + 1) s prefix))"

section \<open>Ranges of a monotone predicate\<close>

primrec pred_walk :: "nat \<Rightarrow> skiplist \<Rightarrow> (string \<Rightarrow> int) \<Rightarrow> nat \<Rightarrow> nat \<Rightarrow> (bool \<times> nat) result" where
  "pred_walk 0 s p i current = Inl No_return"
| "pred_walk (Suc n) s p i current =
     bindE (fwd s current i) (\<lambda>f.
       case f of
         None \<Rightarrow> Inr (False, current)
       | Some a \<Rightarrow> bindE (node_at s a) (\<lambda>x.
           let direction = p (nkey x) in
           if direction = 0 then Inr (True, a)
           else if direction < 0 then Inr (False, current)
           else pred_walk n s p i a))"

primrec pred_descend :: "skiplist \<Rightarrow> (string \<Rightarrow> int) \<Rightarrow> nat \<Rightarrow> nat \<Rightarrow> (bool \<times> nat) result" where
  "pred_descend s p 0 current = Inr (False, current)"
| "pred_descend s p (Suc i) current =
     bindE (pred_walk (length (sl_nodes s) + 1) s p i current) (\<lambda>(find1, current).
       if find1 then Inr (True, current) else pred_descend s p i current)"

definition invalid_direction :: "'a result" where
  "invalid_direction = Inl (Runtime_error ''iters_predicate: invalid direction'')"

primrec back_walk :: "nat \<Rightarrow> skiplist \<Rightarrow> (string \<Rightarrow> int) \<Rightarrow> nat \<Rightarrow> nat \<Rightarrow> nat result" where
  "back_walk 0 s p i current = Inl No_return"
| "back_walk (Suc n) s p i current =
     bindE (bwd s current i) (\<lambda>b.
       case b of
         None \<Rightarrow> Inr current
       | Some a \<Rightarrow>
           if a = sl_head s then Inr current
           else bindE (node_at s a) (\<lambda>x.
             let direction = p (nkey x) in
             if direction = 0 then back_walk n s p i a
             else if 0 < direction then Inr current
             else invalid_direction))"

primrec back_descend :: "skiplist \<Rightarrow> (string \<Rightarrow> int) \<Rightarrow> nat \<Rightarrow> nat \<Rightarrow> nat result" where
  "back_descend s p 0 current = Inr current"
| "back_descend s p (Suc i) current =
     bindE (back_walk (length (sl_nodes s) + 1) s p i current) (back_descend s p i)"

primrec fore_walk :: "nat \<Rightarrow> skiplist \<Rightarrow> (string \<Rightarrow> int) \<Rightarrow> nat \<Rightarrow> nat \<Rightarrow> nat result" where
  "fore_walk 0 s p i current = Inl No_return"
| "fore_walk (Suc n) s p i current =
     bindE (fwd s current i) (\<lambda>f.
       case f of
         None \<Rightarrow> Inr current
       | Some a \<Rightarrow> bindE (node_at s a) (\<lambda>x.
             let direction = p (nkey x) in
             if direction = 0 then fore_walk n s p i a
             else if direction < 0 then Inr current
             else invalid_direction))"

primrec fore_descend :: "skiplist \<Rightarrow> (string \<Rightarrow> int) \<Rightarrow> nat \<Rightarrow> nat \<Rightarrow> nat result" where
  "fore_descend s p 0 current = Inr current"
| "fore_descend s p (Suc i) current =
     bindE (fore_walk (length (sl_nodes s) + 1) s p i current) (fore_descend s p i)"

definition SkipList_iters_monotony_predicate ::
  "skiplist \<Rightarrow> (string \<Rightarrow> int) \<Rightarrow> (sl_iter \<times> sl_iter) option result" where
  "SkipList_iters_monotony_predicate s p =
     bindE (pred_descend s p (current_level s) (sl_head s)) (\<lambda>(find1, current).
       if \<not> find1 then Inr None
       else
         bindE (node_at s current) (\<lambda>x.
         bindE (back_descend s p (length (backward x)) current) (\<lambda>first.
         bindE (fore_descend s p (length (forward x)) current) (\<lambda>last.
         bindE (SkipListIterator_incr s (Some last)) (\<lambda>end_iter.
           Inr (Some (Some first, end_iter)))))))"

section \<open>Reading and writing the pointers\<close>

declare random_level_loop.simps [simp del]

lemma random_level_range:
  assumes "1 \<le> maxl"
  shows "1 \<le> random_level maxl coins" and "random_level maxl coins \<le> maxl"
proof -
  have "1 \<le> l \<Longrightarrow> l \<le> maxl \<Longrightarrow> 1 \<le> random_level_loop maxl coins k l \<and> random_level_loop maxl coins k l \<le> maxl" for k l
  proof (induction maxl coins k l rule: random_level_loop.induct)
    case (1 maxl coins k l)
    then show ?case
      by (subst random_level_loop.simps, subst (2) random_level_loop.simps) simp
  qed
  with assms show "1 \<le> random_level maxl coins" "random_level maxl coins \<le> maxl"
    by (simp_all add: random_level_def)
qed

text \<open>What never changes about a node when pointers are written: its data and the number of its levels.\<close>

definition node_data :: "skiplist \<Rightarrow> nat \<Rightarrow> string \<times> string \<times> u64" where
  "node_data s a = (let n = sl_nodes s ! a in (nkey n, nvalue n, ntranc n))"

definition levels_of :: "skiplist \<Rightarrow> nat \<Rightarrow> nat \<times> nat" where
  "levels_of s a = (length (forward (sl_nodes s ! a)), length (backward (sl_nodes s ! a)))"

definition same_shape :: "skiplist \<Rightarrow> skiplist \<Rightarrow> bool" where
  "same_shape s s' \<longleftrightarrow> length (sl_nodes s') = length (sl_nodes s) \<and>
     (\<forall>a < length (sl_nodes s). node_data s' a = node_data s a \<and> levels_of s' a = levels_of s a) \<and>
     sl_head s' = sl_head s \<and> max_level s' = max_level s \<and> current_level s' = current_level s \<and>
     size_bytes s' = size_bytes s"

lemma same_shape_refl [simp]: "same_shape s s"
  by (simp add: same_shape_def)

lemma same_shape_trans: "same_shape s s' \<Longrightarrow> same_shape s' s'' \<Longrightarrow> same_shape s s''"
  by (simp add: same_shape_def)

lemma set_forward_ok:
  assumes "a < length (sl_nodes s)" and "i < fst (levels_of s a)"
  shows "\<exists>s'. set_forward a i v s = Inr s' \<and> same_shape s s' \<and>
    (\<forall>b j. fwd s' b j = (if b = a \<and> j = i then Inr v else fwd s b j)) \<and> (\<forall>b j. bwd s' b j = bwd s b j)"
  using assms
  by (auto simp: set_forward_def node_at_def levels_of_def same_shape_def node_data_def fwd_def bwd_def
      nth_list_update Let_def)

lemma set_backward_ok:
  assumes "a < length (sl_nodes s)" and "i < snd (levels_of s a)"
  shows "\<exists>s'. set_backward a i v s = Inr s' \<and> same_shape s s' \<and>
    (\<forall>b j. bwd s' b j = (if b = a \<and> j = i then Inr (Some v) else bwd s b j)) \<and> (\<forall>b j. fwd s' b j = fwd s b j)"
  using assms
  by (auto simp: set_backward_def node_at_def levels_of_def same_shape_def node_data_def fwd_def bwd_def
      nth_list_update Let_def)

section \<open>Chains of pointers\<close>

fun chain :: "skiplist \<Rightarrow> nat \<Rightarrow> nat \<Rightarrow> nat list \<Rightarrow> bool" where
  "chain s i a [] \<longleftrightarrow> fwd s a i = Inr None"
| "chain s i a (b # bs) \<longleftrightarrow> fwd s a i = Inr (Some b) \<and> bwd s b i = Inr (Some a) \<and> chain s i b bs"

lemma chain_suffix: "chain s i a (xs @ b # ys) \<Longrightarrow> chain s i b ys"
  by (induction xs arbitrary: a) auto

lemma chain_last: "chain s i a (xs @ ys) \<Longrightarrow> fwd s (last (a # xs)) i = Inr (case ys of [] \<Rightarrow> None | y # _ \<Rightarrow> Some y)"
  by (induction xs arbitrary: a) (auto split: list.split)

lemma chain_prefix_link:
  "chain s i a (xs @ b # ys) \<Longrightarrow> bwd s b i = Inr (Some (last (a # xs)))"
  by (induction xs arbitrary: a) auto

lemma chain_cong:
  assumes "\<And>x. x \<in> set (a # xs) \<Longrightarrow> fwd s' x i = fwd s x i" and "\<And>x. x \<in> set xs \<Longrightarrow> bwd s' x i = bwd s x i"
  shows "chain s' i a xs = chain s i a xs"
  using assms by (induction xs arbitrary: a) simp_all

text \<open>Inserting a node between two parts of a chain.\<close>

lemma chain_insert:
  assumes "chain s i a (P @ Q)" and "distinct (a # P @ Q)" and "new \<notin> set (a # P @ Q)"
    and "\<forall>x. fwd s' x i = (if x = last (a # P) then Inr (Some new) else if x = new then fwd s (last (a # P)) i else fwd s x i)"
    and "\<forall>x. bwd s' x i = (if x = new then Inr (Some (last (a # P))) else if Q \<noteq> [] \<and> x = hd Q then Inr (Some new) else bwd s x i)"
  shows "chain s' i a (P @ new # Q)"
  using assms
proof (induction P arbitrary: a)
  case Nil
  show ?case
  proof (cases Q)
    case Nil
    with \<open>chain s i a ([] @ Q)\<close> Nil.prems(3-5) show ?thesis by auto
  next
    case (Cons q qs)
    have "chain s' i q qs = chain s i q qs"
      using Nil.prems Cons by (intro chain_cong) auto
    with Nil.prems Cons show ?thesis by auto
  qed
next
  case (Cons p P)
  have "chain s' i p (P @ new # Q)"
    using Cons.prems by (intro Cons.IH) (auto split: if_splits)
  moreover have "fwd s' a i = Inr (Some p)" "bwd s' p i = Inr (Some a)"
    using Cons.prems by (auto split: if_splits)
  ultimately show ?case by simp
qed

text \<open>Removing a node from a chain.\<close>

lemma chain_delete:
  assumes "chain s i a (P @ cur # Q)" and "distinct (a # P @ cur # Q)"
    and "\<forall>x. fwd s' x i = (if x = last (a # P) then fwd s cur i else fwd s x i)"
    and "\<forall>x. bwd s' x i = (if Q \<noteq> [] \<and> x = hd Q then Inr (Some (last (a # P))) else bwd s x i)"
  shows "chain s' i a (P @ Q)"
  using assms
proof (induction P arbitrary: a)
  case Nil
  show ?case
  proof (cases Q)
    case Nil
    with \<open>chain s i a ([] @ cur # Q)\<close> Nil.prems(2-4) show ?thesis by auto
  next
    case (Cons q qs)
    have "chain s' i q qs = chain s i q qs"
      using Nil.prems Cons by (intro chain_cong) auto
    with Nil.prems Cons show ?thesis by auto
  qed
next
  case (Cons p P)
  have "chain s' i p (P @ Q)"
    using Cons.prems by (intro Cons.IH) (auto split: if_splits)
  moreover have "fwd s' a i = Inr (Some p)" "bwd s' p i = Inr (Some a)"
    using Cons.prems by (auto split: if_splits)
  ultimately show ?case by simp
qed

section \<open>The invariant\<close>

definition sl_entry :: "skiplist \<Rightarrow> nat \<Rightarrow> entry" where
  "sl_entry s a = (let n = sl_nodes s ! a in \<lparr>ekey = nkey n, evalue = nvalue n, etranc = ntranc n\<rparr>)"

definition version :: "entry \<Rightarrow> string \<times> u64" where
  "version e = (ekey e, etranc e)"

definition entry_bytes_used :: "entry \<Rightarrow> nat" where
  "entry_bytes_used e = length (ekey e) + length (evalue e) + 8"

text \<open>\<open>as\<close> lists the addresses of the linked nodes in order, \<open>h\<close> gives the number of levels each is linked on.\<close>

definition node_ok :: "skiplist \<Rightarrow> (nat \<Rightarrow> nat) \<Rightarrow> nat \<Rightarrow> bool" where
  "node_ok s h a \<longleftrightarrow>
     a < length (sl_nodes s) \<and> 1 \<le> h a \<and> h a \<le> current_level s \<and>
     h a \<le> fst (levels_of s a) \<and> snd (levels_of s a) = fst (levels_of s a) \<and> fst (levels_of s a) \<le> max_level s \<and>
     (\<forall>i. h a \<le> i \<and> i < fst (levels_of s a) \<longrightarrow> fwd s a i = Inr None \<and> bwd s a i = Inr None)"

definition sl_inv :: "skiplist \<Rightarrow> nat list \<Rightarrow> (nat \<Rightarrow> nat) \<Rightarrow> bool" where
  "sl_inv s as h \<longleftrightarrow>
     sl_head s < length (sl_nodes s) \<and> sl_head s \<notin> set as \<and> distinct as \<and>
     levels_of s (sl_head s) = (max_level s, max_level s) \<and>
     1 \<le> current_level s \<and> current_level s \<le> max_level s \<and>
     (\<forall>a \<in> set as. node_ok s h a) \<and>
     (\<forall>i < max_level s. chain s i (sl_head s) (filter (\<lambda>a. i < h a) as)) \<and>
     sorted_wrt (\<lambda>a b. node_less (version (sl_entry s a)) (version (sl_entry s b))) as \<and>
     size_bytes s = of_nat (sum_list (map (\<lambda>a. entry_bytes_used (sl_entry s a)) as))"

lemma sl_inv_node:
  assumes "sl_inv s as h" and "a \<in> set as"
  shows "a < length (sl_nodes s)" and "0 < h a" and "h a \<le> current_level s" and "h a \<le> max_level s"
    and "node_ok s h a"
proof -
  show ok: "node_ok s h a"
    using assms by (simp add: sl_inv_def)
  then show "a < length (sl_nodes s)" "0 < h a" "h a \<le> current_level s"
    by (simp_all add: node_ok_def)
  then show "h a \<le> max_level s"
    using assms(1) by (simp add: sl_inv_def)
qed

lemma sl_inv_chain: "sl_inv s as h \<Longrightarrow> i < max_level s \<Longrightarrow> chain s i (sl_head s) (filter (\<lambda>a. i < h a) as)"
  by (simp add: sl_inv_def)

lemma sl_inv_levels:
  "sl_inv s as h \<Longrightarrow> 1 \<le> current_level s \<and> current_level s \<le> max_level s \<and> sl_head s < length (sl_nodes s)"
  by (simp add: sl_inv_def)

lemma sl_inv_bottom:
  assumes "sl_inv s as h"
  shows "chain s 0 (sl_head s) as"
proof -
  have "filter (\<lambda>a. 0 < h a) as = as"
    using sl_inv_node(2) [OF assms] by (simp add: filter_id_conv)
  with sl_inv_chain [OF assms, of 0] sl_inv_levels [OF assms] show ?thesis by simp
qed

section \<open>Searching\<close>

lemma walk_chain:
  assumes "chain s i cur (v @ F)" and "\<forall>a \<in> set (v @ F). a < length (sl_nodes s)"
    and "\<forall>a \<in> set v. lt (sl_nodes s ! a)" and "F \<noteq> [] \<Longrightarrow> \<not> lt (sl_nodes s ! hd F)" and "length v < n"
  shows "walk n s lt i cur = Inr (last (cur # v))"
  using assms
proof (induction v arbitrary: cur n)
  case Nil
  then show ?case
    by (cases n; cases F) (auto simp: node_at_def)
next
  case (Cons a v)
  then show ?case
    by (cases n) (auto simp: node_at_def)
qed

text \<open>Where a search for the end of \<open>pre\<close> leaves level \<open>i\<close>.\<close>

definition left_at :: "skiplist \<Rightarrow> (nat \<Rightarrow> nat) \<Rightarrow> nat list \<Rightarrow> nat \<Rightarrow> nat" where
  "left_at s h pre i = last (sl_head s # filter (\<lambda>a. i < h a) pre)"

lemma filter_last_split:
  assumes "\<And>a. Q a \<Longrightarrow> P a" and "filter Q xs \<noteq> []"
  shows "\<exists>u v. filter P xs = u @ last (filter Q xs) # v"
  using assms(2)
proof (induction xs rule: rev_induct)
  case (snoc x xs)
  show ?case
  proof (cases "Q x")
    case True
    with assms(1) show ?thesis by auto
  next
    case False
    with snoc obtain u v where "filter P xs = u @ last (filter Q xs) # v" by auto
    with False show ?thesis by auto
  qed
qed simp

lemma length_filter_nodes:
  assumes "distinct as" and "\<forall>a \<in> set as. a < (n :: nat)"
  shows "length as \<le> n"
proof -
  have "card (set as) \<le> card {0..<n}"
    using assms(2) by (intro card_mono) auto
  with assms(1) show ?thesis by (simp add: distinct_card)
qed

text \<open>From where level \<open>i + 1\<close> was left, level \<open>i\<close> leads on through nodes of \<open>pre\<close> to where it is left.\<close>

lemma level_chain:
  assumes inv: "sl_inv s (pre @ post) h" and i: "i < max_level s"
    and cur: "cur = left_at s h pre (Suc i)"
  shows "\<exists>v. chain s i cur (v @ filter (\<lambda>a. i < h a) post) \<and> last (cur # v) = left_at s h pre i \<and>
    set v \<subseteq> set pre \<and> length v \<le> length pre"
proof -
  let ?P = "filter (\<lambda>a. i < h a) pre" and ?F = "filter (\<lambda>a. i < h a) post"
  have ch: "chain s i (sl_head s) (?P @ ?F)"
    using inv i by (simp add: sl_inv_def)
  show ?thesis
  proof (cases "filter (\<lambda>a. Suc i < h a) pre = []")
    case True
    then have "cur = sl_head s" by (simp add: cur left_at_def)
    with ch show ?thesis by (intro exI [of _ ?P]) (auto simp: left_at_def)
  next
    case False
    then obtain u v where uv: "?P = u @ last (filter (\<lambda>a. Suc i < h a) pre) # v"
      using filter_last_split [of "\<lambda>a. Suc i < h a" "\<lambda>a. i < h a" pre] by (auto dest: Suc_lessD)
    have c: "cur = last (filter (\<lambda>a. Suc i < h a) pre)"
      using False by (simp add: cur left_at_def)
    have "set (cur # v) \<subseteq> set ?P" "length v \<le> length ?P"
      using uv c by auto
    then have "set v \<subseteq> set pre" "length v \<le> length pre"
      by (auto intro: order_trans [OF _ length_filter_le])
    moreover have "chain s i cur (v @ ?F)"
      using ch uv c chain_suffix [of s i "sl_head s" u cur "v @ ?F"] by simp
    moreover have "last (cur # v) = left_at s h pre i"
      using uv c by (simp add: left_at_def)
    ultimately show ?thesis by blast
  qed
qed

lemma walk_level:
  assumes inv: "sl_inv s (pre @ post) h" and i: "i < max_level s"
    and lt: "\<forall>a \<in> set pre. lt (sl_nodes s ! a)" "\<forall>a \<in> set post. \<not> lt (sl_nodes s ! a)"
    and cur: "cur = left_at s h pre (Suc i)"
  shows "walk (length (sl_nodes s) + 1) s lt i cur = Inr (left_at s h pre i)"
proof -
  let ?F = "filter (\<lambda>a. i < h a) post"
  have nodes: "\<forall>a \<in> set (pre @ post). a < length (sl_nodes s)" and dist: "distinct (pre @ post)"
    using sl_inv_node(1) [OF inv] inv by (auto simp: sl_inv_def)
  have len: "length pre \<le> length (sl_nodes s)"
    using nodes dist by (intro length_filter_nodes) auto
  obtain v where v: "chain s i cur (v @ ?F)" "last (cur # v) = left_at s h pre i" "set v \<subseteq> set pre" "length v \<le> length pre"
    using level_chain [OF inv i cur] by blast
  have "walk (length (sl_nodes s) + 1) s lt i cur = Inr (last (cur # v))"
    using v(1)
  proof (rule walk_chain)
    show "\<forall>a \<in> set (v @ ?F). a < length (sl_nodes s)" using nodes v(3) by auto
    show "\<forall>a \<in> set v. lt (sl_nodes s ! a)" using lt(1) v(3) by auto
    show "?F \<noteq> [] \<Longrightarrow> \<not> lt (sl_nodes s ! hd ?F)" using lt(2) hd_in_set [of ?F] by auto
    show "length v < length (sl_nodes s) + 1" using v(4) len by simp
  qed
  with v(2) show ?thesis by simp
qed

lemma descend_level:
  assumes "sl_inv s (pre @ post) h" and "k \<le> max_level s"
    and "\<forall>a \<in> set pre. lt (sl_nodes s ! a)" and "\<forall>a \<in> set post. \<not> lt (sl_nodes s ! a)"
    and "cur = left_at s h pre k"
  shows "descend s lt k cur = Inr (left_at s h pre 0, map (left_at s h pre) [0..<k])"
  using assms(2,5)
proof (induction k arbitrary: cur)
  case 0
  then show ?case by simp
next
  case (Suc k)
  have "walk (length (sl_nodes s) + 1) s lt k cur = Inr (left_at s h pre k)"
    using Suc.prems assms(1,3,4) by (intro walk_level) auto
  with Suc.IH [of "left_at s h pre k"] Suc.prems show ?case by simp
qed

lemma left_at_top:
  assumes "sl_inv s (pre @ post) h" and "current_level s \<le> k"
  shows "left_at s h pre k = sl_head s"
proof -
  have "filter (\<lambda>a. k < h a) pre = []"
    using sl_inv_node(3) [OF assms(1)] assms(2) by (fastforce simp: filter_empty_conv)
  then show ?thesis by (simp add: left_at_def)
qed

lemma left_at_bottom:
  assumes "sl_inv s (pre @ post) h"
  shows "left_at s h pre 0 = last (sl_head s # pre)"
proof -
  have "filter (\<lambda>a. 0 < h a) pre = pre"
    using sl_inv_node(2) [OF assms] by (simp add: filter_id_conv)
  then show ?thesis by (simp add: left_at_def)
qed

lemma next_at_bottom:
  assumes "sl_inv s (pre @ post) h"
  shows "fwd s (left_at s h pre 0) 0 = Inr (case post of [] \<Rightarrow> None | a # _ \<Rightarrow> Some a)"
  using chain_last [OF sl_inv_bottom [OF assms]] left_at_bottom [OF assms] by simp

section \<open>The order of versions\<close>

lemma node_less_trans: "node_less a b \<Longrightarrow> node_less b c \<Longrightarrow> node_less a c"
  by (auto simp: node_less_def split: if_splits)

lemma node_less_irrefl [simp]: "\<not> node_less a a"
  by (simp add: node_less_def)

lemma node_less_total: "a \<noteq> b \<Longrightarrow> node_less a b \<or> node_less b a"
  by (cases a; cases b) (auto simp: node_less_def)

lemma node_less_key: "node_less a b \<Longrightarrow> fst a \<le> fst b"
  by (auto simp: node_less_def split: if_splits)

definition node_version :: "sl_node \<Rightarrow> string \<times> u64" where
  "node_version n = (nkey n, ntranc n)"

lemma version_sl_entry [simp]: "version (sl_entry s a) = node_version (sl_nodes s ! a)"
  by (simp add: version_def sl_entry_def node_version_def Let_def)

text \<open>A search predicate is decided by the version and holds on an initial part of the list.\<close>

definition initial_pred :: "(sl_node \<Rightarrow> bool) \<Rightarrow> bool" where
  "initial_pred lt \<longleftrightarrow> (\<forall>x y. node_less (node_version x) (node_version y) \<longrightarrow> lt y \<longrightarrow> lt x)"

lemma initial_pred_version: "initial_pred (\<lambda>n. node_less (nkey n, ntranc n) v)"
  by (auto simp: initial_pred_def node_version_def intro: node_less_trans)

lemma initial_pred_key: "initial_pred (\<lambda>n. nkey n < k)"
  by (auto simp: initial_pred_def node_version_def dest!: node_less_key intro: le_less_trans)

lemma initial_pred_split:
  assumes "sl_inv s as h" and "initial_pred lt"
  shows "\<exists>pre post. as = pre @ post \<and> (\<forall>a \<in> set pre. lt (sl_nodes s ! a)) \<and> (\<forall>a \<in> set post. \<not> lt (sl_nodes s ! a))"
proof -
  let ?P = "\<lambda>a. lt (sl_nodes s ! a)"
  have sorted: "sorted_wrt (\<lambda>a b. node_less (node_version (sl_nodes s ! a)) (node_version (sl_nodes s ! b))) as"
    using assms(1) by (simp add: sl_inv_def)
  have "\<forall>a \<in> set (dropWhile ?P as). \<not> ?P a"
  proof (cases "dropWhile ?P as")
    case (Cons x xs)
    have "\<not> ?P x"
      using hd_dropWhile [of ?P as] Cons by simp
    moreover have "sorted_wrt (\<lambda>a b. node_less (node_version (sl_nodes s ! a)) (node_version (sl_nodes s ! b))) (x # xs)"
      using sorted Cons by (metis sorted_wrt_dropWhile)
    ultimately show ?thesis
      unfolding Cons using assms(2) by (auto simp: initial_pred_def)
  next
    case Nil
    show ?thesis unfolding Nil by simp
  qed
  moreover have "\<forall>a \<in> set (takeWhile ?P as). ?P a"
    by (meson set_takeWhileD)
  moreover have "as = takeWhile ?P as @ dropWhile ?P as"
    by simp
  ultimately show ?thesis by blast
qed

lemma search:
  assumes "sl_inv s (pre @ post) h" and "\<forall>a \<in> set pre. lt (sl_nodes s ! a)" and "\<forall>a \<in> set post. \<not> lt (sl_nodes s ! a)"
    and "current_level s \<le> k" and "k \<le> max_level s"
  shows "descend s lt k (sl_head s) = Inr (left_at s h pre 0, map (left_at s h pre) [0..<k])"
    and "fwd s (left_at s h pre 0) 0 = Inr (case post of [] \<Rightarrow> None | a # _ \<Rightarrow> Some a)"
  using descend_level [OF assms(1,5,2,3)] left_at_top [OF assms(1,4)] next_at_bottom [OF assms(1)] by simp_all

section \<open>Linking a node\<close>

definition linked_at :: "skiplist \<Rightarrow> skiplist \<Rightarrow> nat \<Rightarrow> nat \<Rightarrow> nat \<Rightarrow> bool" where
  "linked_at s s' new i u \<longleftrightarrow>
     (\<forall>x. fwd s' x i = (if x = u then Inr (Some new) else if x = new then fwd s u i else fwd s x i)) \<and>
     (\<forall>x. bwd s' x i = (if x = new then Inr (Some u) else if fwd s u i = Inr (Some x) then Inr (Some new) else bwd s x i))"

definition untouched_at :: "skiplist \<Rightarrow> skiplist \<Rightarrow> nat \<Rightarrow> bool" where
  "untouched_at s s' i \<longleftrightarrow> (\<forall>x. fwd s' x i = fwd s x i \<and> bwd s' x i = bwd s x i)"

text \<open>What linking on level \<open>i\<close> after \<open>u\<close> needs.\<close>

definition can_link :: "skiplist \<Rightarrow> nat \<Rightarrow> nat \<Rightarrow> nat \<Rightarrow> bool" where
  "can_link s new i u \<longleftrightarrow>
     u \<noteq> new \<and> u < length (sl_nodes s) \<and> new < length (sl_nodes s) \<and> i < fst (levels_of s u) \<and>
     i < fst (levels_of s new) \<and> i < snd (levels_of s new) \<and>
     (\<exists>f. fwd s u i = Inr f \<and> (\<forall>b. f = Some b \<longrightarrow> b \<noteq> new \<and> b < length (sl_nodes s) \<and> i < snd (levels_of s b)))"

lemma same_shape_levels: "same_shape s s' \<Longrightarrow> a < length (sl_nodes s) \<Longrightarrow> levels_of s' a = levels_of s a"
  and same_shape_length: "same_shape s s' \<Longrightarrow> length (sl_nodes s') = length (sl_nodes s)"
  by (simp_all add: same_shape_def)

lemma link_level_ok:
  assumes "can_link s new i u"
  shows "\<exists>s'. link_level new i u s = Inr s' \<and> same_shape s s' \<and> linked_at s s' new i u \<and>
    (\<forall>j. j \<noteq> i \<longrightarrow> untouched_at s s' j)"
proof -
  obtain f where f: "fwd s u i = Inr f"
    "\<forall>b. f = Some b \<longrightarrow> b \<noteq> new \<and> b < length (sl_nodes s) \<and> i < snd (levels_of s b)"
    using assms by (auto simp: can_link_def)
  have c: "u \<noteq> new" "u < length (sl_nodes s)" "new < length (sl_nodes s)" "i < fst (levels_of s u)"
    "i < fst (levels_of s new)" "i < snd (levels_of s new)"
    using assms by (simp_all add: can_link_def)
  obtain s1 where s1: "set_forward new i f s = Inr s1" "same_shape s s1"
    "\<forall>b j. fwd s1 b j = (if b = new \<and> j = i then Inr f else fwd s b j)" "\<forall>b j. bwd s1 b j = bwd s b j"
    using set_forward_ok [OF c(3,5)] by blast
  obtain s2 where s2: "(case f of None \<Rightarrow> Inr s1 | Some b \<Rightarrow> set_backward b i new s1) = Inr s2" "same_shape s1 s2"
    "\<forall>b j. bwd s2 b j = (if f = Some b \<and> j = i then Inr (Some new) else bwd s1 b j)" "\<forall>b j. fwd s2 b j = fwd s1 b j"
  proof (cases f)
    case None
    then show thesis using that [of s1] by simp
  next
    case (Some b)
    then have "b < length (sl_nodes s1)" "i < snd (levels_of s1 b)"
      using f(2) s1(2) by (simp_all add: same_shape_def)
    from set_backward_ok [OF this, of new] Some that show thesis by auto
  qed
  have "u < length (sl_nodes s2)" "i < fst (levels_of s2 u)"
    using c s1(2) s2(2) by (simp_all add: same_shape_def)
  from set_forward_ok [OF this, of "Some new"] obtain s3 where
    s3: "set_forward u i (Some new) s2 = Inr s3" "same_shape s2 s3"
    "\<forall>b j. fwd s3 b j = (if b = u \<and> j = i then Inr (Some new) else fwd s2 b j)" "\<forall>b j. bwd s3 b j = bwd s2 b j"
    by blast
  have "new < length (sl_nodes s3)" "i < snd (levels_of s3 new)"
    using c s1(2) s2(2) s3(2) by (simp_all add: same_shape_def)
  from set_backward_ok [OF this, of u] obtain s4 where
    s4: "set_backward new i u s3 = Inr s4" "same_shape s3 s4"
    "\<forall>b j. bwd s4 b j = (if b = new \<and> j = i then Inr (Some u) else bwd s3 b j)" "\<forall>b j. fwd s4 b j = fwd s3 b j"
    by blast
  have "link_level new i u s = Inr s4"
    using f(1) s1(1) s2(1) s3(1) s4(1) by (simp add: link_level_def)
  moreover have "same_shape s s4"
    using s1(2) s2(2) s3(2) s4(2) by (blast intro: same_shape_trans)
  moreover have "linked_at s s4 new i u"
    using c(1) f(1) s1(3,4) s2(3,4) s3(3,4) s4(3,4) by (auto simp: linked_at_def)
  moreover have "untouched_at s s4 j" if "j \<noteq> i" for j
    using that s1(3,4) s2(3,4) s3(3,4) s4(3,4) by (simp add: untouched_at_def)
  ultimately show ?thesis by blast
qed

lemma can_link_other:
  assumes "can_link s new j v" and "same_shape s s'" and "untouched_at s s' j"
  shows "can_link s' new j v"
  using assms by (auto simp: can_link_def same_shape_def untouched_at_def)

lemma link_loop_ok:
  assumes "\<forall>j < length us. can_link s new (i + j) (us ! j)"
  shows "\<exists>s' k. link_loop new raised bits i us s = Inr s' \<and> same_shape s s' \<and> k \<le> length us \<and>
    (i = 0 \<and> us \<noteq> [] \<longrightarrow> 1 \<le> k) \<and>
    (\<forall>j. if i \<le> j \<and> j < i + k then linked_at s s' new j (us ! (j - i)) else untouched_at s s' j)"
  using assms
proof (induction us arbitrary: i s)
  case Nil
  then show ?case
    by (intro exI [of _ s] exI [of _ 0]) (auto simp: untouched_at_def)
next
  case (Cons u us)
  show ?case
  proof (cases "i = 0 \<or> raised \<or> bit bits i")
    case False
    then show ?thesis
      by (intro exI [of _ s] exI [of _ 0]) (auto simp: untouched_at_def)
  next
    case True
    obtain s1 where s1: "link_level new i u s = Inr s1" "same_shape s s1" "linked_at s s1 new i u"
      "\<forall>j. j \<noteq> i \<longrightarrow> untouched_at s s1 j"
      using link_level_ok [of s new i u] Cons.prems [rule_format, of 0] by auto
    have "\<forall>j < length us. can_link s1 new (Suc i + j) (us ! j)"
    proof (intro allI impI)
      fix j assume "j < length us"
      then have "can_link s new (Suc i + j) (us ! j)"
        using Cons.prems [rule_format, of "Suc j"] by simp
      then show "can_link s1 new (Suc i + j) (us ! j)"
        using s1(2,4) by (auto intro: can_link_other)
    qed
    then obtain s' k where s': "link_loop new raised bits (Suc i) us s1 = Inr s'" "same_shape s1 s'" "k \<le> length us"
      "\<forall>j. if Suc i \<le> j \<and> j < Suc i + k then linked_at s1 s' new j (us ! (j - Suc i)) else untouched_at s1 s' j"
      using Cons.IH [of s1 "Suc i"] by blast
    have "if i \<le> j \<and> j < i + Suc k then linked_at s s' new j ((u # us) ! (j - i)) else untouched_at s s' j" for j
    proof (cases "j = i")
      case True
      then have "untouched_at s1 s' i"
        using s'(4) [rule_format, of i] by simp
      with True s1(3) show ?thesis by (simp add: linked_at_def untouched_at_def)
    next
      case False
      then have "(u # us) ! (j - i) = us ! (j - Suc i)" if "i \<le> j"
        using that by (simp add: nth_Cons' Suc_diff_Suc)
      with False s1(4) s'(4) [rule_format, of j] show ?thesis
        by (auto simp: linked_at_def untouched_at_def split: if_splits)
    qed
    with True s1(1,2) s'(1-3) show ?thesis
      by (intro exI [of _ s'] exI [of _ "Suc k"]) (auto intro: same_shape_trans)
  qed
qed

section \<open>What an insertion does to the invariant\<close>

text \<open>The heap with the new node allocated and not yet linked.\<close>

definition alloc :: "sl_node \<Rightarrow> nat \<Rightarrow> skiplist \<Rightarrow> skiplist" where
  "alloc n bytes s = s\<lparr>sl_nodes := sl_nodes s @ [n], size_bytes := size_bytes s + of_nat bytes\<rparr>"

lemma alloc_reads:
  assumes "a < length (sl_nodes s)"
  shows "fwd (alloc n b s) a i = fwd s a i" and "bwd (alloc n b s) a i = bwd s a i"
    and "levels_of (alloc n b s) a = levels_of s a" and "sl_nodes (alloc n b s) ! a = sl_nodes s ! a"
  using assms by (simp_all add: alloc_def fwd_def bwd_def node_at_def levels_of_def nth_append)

lemma alloc_new:
  "i < l \<Longrightarrow> fwd (alloc (new_node k v l t) b s) (length (sl_nodes s)) i = Inr None"
  "i < l \<Longrightarrow> bwd (alloc (new_node k v l t) b s) (length (sl_nodes s)) i = Inr None"
  "levels_of (alloc (new_node k v l t) b s) (length (sl_nodes s)) = (l, l)"
  "sl_nodes (alloc (new_node k v l t) b s) ! length (sl_nodes s) = new_node k v l t"
  by (simp_all add: alloc_def fwd_def bwd_def node_at_def levels_of_def new_node_def)

lemma alloc_simps [simp]:
  "length (sl_nodes (alloc n b s)) = Suc (length (sl_nodes s))"
  "sl_head (alloc n b s) = sl_head s" "max_level (alloc n b s) = max_level s"
  "current_level (alloc n b s) = current_level s" "size_bytes (alloc n b s) = size_bytes s + of_nat b"
  by (simp_all add: alloc_def)

lemma left_at_member: "left_at s h pre i \<in> insert (sl_head s) {a \<in> set pre. i < h a}"
  using last_in_set [of "filter (\<lambda>a. i < h a) pre"] by (auto simp: left_at_def)

lemma left_at_ok:
  assumes "sl_inv s (pre @ post) h" and "i < max_level s"
  shows "left_at s h pre i < length (sl_nodes s)" and "i < fst (levels_of s (left_at s h pre i))"
proof -
  have "left_at s h pre i = sl_head s \<or> left_at s h pre i \<in> set pre \<and> i < h (left_at s h pre i)"
    using left_at_member [of s h pre i] by auto
  then consider "left_at s h pre i = sl_head s" | "node_ok s h (left_at s h pre i)" "i < h (left_at s h pre i)"
    using sl_inv_node(5) [OF assms(1), of "left_at s h pre i"] by auto
  then have "left_at s h pre i < length (sl_nodes s) \<and> i < fst (levels_of s (left_at s h pre i))"
  proof cases
    case 1
    with assms show ?thesis by (simp add: sl_inv_def)
  next
    case 2
    then show ?thesis by (simp add: node_ok_def)
  qed
  then show "left_at s h pre i < length (sl_nodes s)" "i < fst (levels_of s (left_at s h pre i))"
    by simp_all
qed

lemma level_next:
  assumes "sl_inv s (pre @ post) h" and "i < max_level s"
  shows "fwd s (left_at s h pre i) i = Inr (case filter (\<lambda>a. i < h a) post of [] \<Rightarrow> None | a # _ \<Rightarrow> Some a)"
  using sl_inv_chain [OF assms] chain_last [of s i "sl_head s" "filter (\<lambda>a. i < h a) pre" "filter (\<lambda>a. i < h a) post"]
  by (simp add: left_at_def)

lemma level_next_member:
  assumes "sl_inv s (pre @ post) h" and "i < max_level s" and "fwd s (left_at s h pre i) i = Inr (Some b)"
  shows "b \<in> set post" and "i < h b" and "filter (\<lambda>a. i < h a) post \<noteq> []" and "b = hd (filter (\<lambda>a. i < h a) post)"
proof -
  obtain bs where bs: "filter (\<lambda>a. i < h a) post = b # bs"
    using level_next [OF assms(1,2)] assms(3) by (auto split: list.splits)
  have "b \<in> set (filter (\<lambda>a. i < h a) post)"
    unfolding bs by simp
  then have "b \<in> set post \<and> i < h b" by simp
  with bs show "b \<in> set post" "i < h b" "filter (\<lambda>a. i < h a) post \<noteq> []" "b = hd (filter (\<lambda>a. i < h a) post)"
    by simp_all
qed

lemma alloc_can_link:
  assumes inv: "sl_inv s (pre @ post) h" and i: "i < l" "l \<le> max_level s"
  shows "can_link (alloc (new_node k v l t) b s) (length (sl_nodes s)) i (left_at s h pre i)"
proof -
  let ?u = "left_at s h pre i" and ?s = "alloc (new_node k v l t) b s"
  have im: "i < max_level s" using i by simp
  have u: "?u < length (sl_nodes s)" "i < fst (levels_of s ?u)"
    using left_at_ok [OF inv im] by auto
  have f: "fwd ?s ?u i = fwd s ?u i"
    using u(1) by (rule alloc_reads)
  have "\<forall>c. fwd s ?u i = Inr (Some c) \<longrightarrow> c \<noteq> length (sl_nodes s) \<and> c < Suc (length (sl_nodes s)) \<and> i < snd (levels_of ?s c)"
  proof (intro allI impI)
    fix c assume "fwd s ?u i = Inr (Some c)"
    then have c: "c \<in> set post" "i < h c"
      using level_next_member [OF inv im] by auto
    then have "node_ok s h c" "c < length (sl_nodes s)"
      using sl_inv_node [OF inv, of c] by simp_all
    then show "c \<noteq> length (sl_nodes s) \<and> c < Suc (length (sl_nodes s)) \<and> i < snd (levels_of ?s c)"
      using c(2) alloc_reads(3) [of c s "new_node k v l t" b] by (simp add: node_ok_def)
  qed
  then show ?thesis
    using u i level_next [OF inv im] f alloc_new(3) [of k v l t b s] alloc_reads(3) [OF u(1), of "new_node k v l t" b]
    by (auto simp: can_link_def split: list.splits)
qed

lemma same_shape_entry:
  assumes "same_shape s s'" and "a < length (sl_nodes s)"
  shows "sl_entry s' a = sl_entry s a"
  using assms by (simp add: same_shape_def node_data_def sl_entry_def Let_def)

lemma insert_chain:
  assumes inv: "sl_inv s (pre @ post) h" and i: "i < l" "l \<le> max_level s"
    and link: "linked_at (alloc (new_node k v l t) b s) s' (length (sl_nodes s)) i (left_at s h pre i)"
  shows "chain s' i (sl_head s) (filter (\<lambda>a. i < h a) pre @ length (sl_nodes s) # filter (\<lambda>a. i < h a) post)"
proof (rule chain_insert)
  let ?s = "alloc (new_node k v l t) b s" and ?P = "filter (\<lambda>a. i < h a) pre" and ?Q = "filter (\<lambda>a. i < h a) post"
  let ?new = "length (sl_nodes s)"
  have im: "i < max_level s" using i by simp
  have nodes: "\<forall>a \<in> set (sl_head s # ?P @ ?Q). a < ?new"
    using sl_inv_node(1) [OF inv] sl_inv_levels [OF inv] by auto
  have u: "left_at s h pre i < ?new"
    using left_at_ok [OF inv im] by simp
  have "chain s i (sl_head s) (?P @ ?Q)"
    using sl_inv_chain [OF inv im] by simp
  then show "chain ?s i (sl_head s) (?P @ ?Q)"
    using nodes by (subst chain_cong [of _ _ ?s i s]) (auto intro: alloc_reads)
  show "distinct (sl_head s # ?P @ ?Q)"
    using inv by (auto simp: sl_inv_def)
  show "?new \<notin> set (sl_head s # ?P @ ?Q)"
    using nodes by blast
  show "\<forall>x. fwd s' x i = (if x = last (sl_head s # ?P) then Inr (Some ?new) else if x = ?new
      then fwd ?s (last (sl_head s # ?P)) i else fwd ?s x i)"
    using link by (simp add: linked_at_def left_at_def)
  have "fwd ?s (left_at s h pre i) i = Inr (Some x) \<longleftrightarrow> ?Q \<noteq> [] \<and> x = hd ?Q" for x
    using level_next [OF inv im] alloc_reads(1) [OF u] by (auto split: list.split)
  then show "\<forall>x. bwd s' x i = (if x = ?new then Inr (Some (last (sl_head s # ?P))) else if ?Q \<noteq> [] \<and> x = hd ?Q
      then Inr (Some ?new) else bwd ?s x i)"
    using link by (simp add: linked_at_def) (simp add: left_at_def)
qed

lemma insert_untouched_chain:
  assumes inv: "sl_inv s (pre @ post) h" and i: "i < max_level s"
    and same: "untouched_at (alloc n b s) s' i"
  shows "chain s' i (sl_head s) (filter (\<lambda>a. i < h a) (pre @ post))"
proof -
  have "\<forall>a \<in> set (sl_head s # filter (\<lambda>a. i < h a) (pre @ post)). a < length (sl_nodes s)"
    using sl_inv_node(1) [OF inv] sl_inv_levels [OF inv] by auto
  then have "chain s' i (sl_head s) (filter (\<lambda>a. i < h a) (pre @ post)) =
      chain s i (sl_head s) (filter (\<lambda>a. i < h a) (pre @ post))"
    using same by (intro chain_cong) (auto simp: untouched_at_def alloc_reads)
  with sl_inv_chain [OF inv i] show ?thesis by simp
qed

lemma insert_node_ok:
  assumes inv: "sl_inv s (pre @ post) h" and a: "a \<in> set (pre @ post)" and l: "l \<le> max_level s" "current_level s \<le> l"
    and shape: "same_shape (alloc (new_node key v l t) b s) s'"
    and links: "\<And>i. i < k \<Longrightarrow> linked_at (alloc (new_node key v l t) b s) s' (length (sl_nodes s)) i (left_at s h pre i)"
      "\<And>i. k \<le> i \<Longrightarrow> untouched_at (alloc (new_node key v l t) b s) s' i" and k: "k \<le> l"
  shows "node_ok (s'\<lparr>current_level := l\<rparr>) (h(length (sl_nodes s) := k)) a"
proof -
  let ?s = "alloc (new_node key v l t) b s" and ?new = "length (sl_nodes s)"
  have ok: "node_ok s h a" and an: "a < ?new"
    using sl_inv_node [OF inv a] by auto
  have lev: "levels_of s' a = levels_of s a"
    using same_shape_levels [OF shape, of a] an alloc_reads(3) [OF an] by simp
  have "fwd s' a i = Inr None \<and> bwd s' a i = Inr None" if "h a \<le> i" "i < fst (levels_of s a)" for i
  proof -
    have im: "i < max_level s" using ok that(2) by (simp add: node_ok_def)
    have old: "fwd ?s a i = Inr None" "bwd ?s a i = Inr None"
      using ok that an by (simp_all add: node_ok_def alloc_reads)
    show ?thesis
    proof (cases "i < k")
      case False
      with links(2) [of i] old show ?thesis by (simp add: untouched_at_def)
    next
      case True
      have "left_at s h pre i \<noteq> a"
        using left_at_member [of s h pre i] that(1) inv a by (auto simp: sl_inv_def)
      moreover have "fwd ?s (left_at s h pre i) i \<noteq> Inr (Some a)"
        using level_next_member(2) [OF inv im, of a] that(1) alloc_reads(1) [OF left_at_ok(1) [OF inv im]] by auto
      ultimately show ?thesis
        using links(1) [OF True] old an by (auto simp: linked_at_def)
    qed
  qed
  with ok lev an l shape show ?thesis
    by (auto simp: node_ok_def same_shape_def fwd_def bwd_def node_at_def levels_of_def)
qed

lemma insert_inv:
  assumes inv: "sl_inv s (pre @ post) h" and l: "l \<le> max_level s" "current_level s \<le> l"
    and shape: "same_shape (alloc (new_node key v l t) b s) s'"
    and links: "\<And>i. i < k \<Longrightarrow> linked_at (alloc (new_node key v l t) b s) s' (length (sl_nodes s)) i (left_at s h pre i)"
      "\<And>i. k \<le> i \<Longrightarrow> untouched_at (alloc (new_node key v l t) b s) s' i" and k: "1 \<le> k" "k \<le> l"
    and b: "b = length key + length v + 8"
    and order: "\<forall>a \<in> set pre. node_less (node_version (sl_nodes s ! a)) (key, t)"
      "\<forall>a \<in> set post. node_less (key, t) (node_version (sl_nodes s ! a))"
  shows "sl_inv (s'\<lparr>current_level := l\<rparr>) (pre @ length (sl_nodes s) # post) (h(length (sl_nodes s) := k))"
proof -
  let ?s = "alloc (new_node key v l t) b s" and ?new = "length (sl_nodes s)" and ?h = "h(length (sl_nodes s) := k)"
  let ?s' = "s'\<lparr>current_level := l\<rparr>"
  have old: "a < ?new" if "a \<in> set (pre @ post)" for a
    using sl_inv_node(1) [OF inv that] .
  have shape': "length (sl_nodes s') = Suc ?new" "sl_head s' = sl_head s" "max_level s' = max_level s"
    "size_bytes s' = size_bytes s + of_nat b"
    using shape by (simp_all add: same_shape_def)
  have entry: "sl_entry s' a = sl_entry s a" if "a < ?new" for a
    using same_shape_entry [OF shape, of a] that alloc_reads(4) [OF that] by (simp add: sl_entry_def)
  have new_entry: "sl_entry s' ?new = \<lparr>ekey = key, evalue = v, etranc = t\<rparr>"
    using same_shape_entry [OF shape, of ?new] alloc_new(4) [of key v l t b s] by (simp add: sl_entry_def new_node_def)
  have fb: "fwd ?s' = fwd s'" "bwd ?s' = bwd s'" "levels_of ?s' = levels_of s'" "sl_entry ?s' = sl_entry s'"
    by (simp_all add: fun_eq_iff fwd_def bwd_def node_at_def levels_of_def sl_entry_def)
  have ch: "chain ?s' i a xs = chain s' i a xs" for i a xs
    by (rule chain_cong) (simp_all add: fb)
  have filt: "filter (\<lambda>a. i < ?h a) (pre @ ?new # post) = filter (\<lambda>a. i < h a) pre @
      (if i < k then [?new] else []) @ filter (\<lambda>a. i < h a) post" for i
  proof -
    have "filter (\<lambda>a. i < ?h a) xs = filter (\<lambda>a. i < h a) xs" if "set xs \<subseteq> set (pre @ post)" for xs
      using old that by (intro filter_cong) fastforce+
    then show ?thesis by simp
  qed
  have chains: "chain ?s' i (sl_head ?s') (filter (\<lambda>a. i < ?h a) (pre @ ?new # post))" if "i < max_level ?s'" for i
  proof (cases "i < k")
    case True
    then have "i < l" using k by simp
    with insert_chain [OF inv this l(1) links(1) [OF True]] True show ?thesis
      unfolding filt ch by (simp add: shape')
  next
    case False
    with insert_untouched_chain [OF inv _ links(2)] that show ?thesis
      unfolding filt ch by (simp add: shape')
  qed
  have head: "levels_of s' (sl_head s) = (max_level s, max_level s)"
    using same_shape_levels [OF shape, of "sl_head s"] sl_inv_levels [OF inv] alloc_reads(3) inv
    by (simp add: sl_inv_def)
  have node_new: "node_ok ?s' ?h ?new"
    using k l links(2) same_shape_levels [OF shape, of ?new] alloc_new [where k = key and v = v and l = l and t = t and b = b and s = s] shape'
    by (auto simp: node_ok_def fb untouched_at_def)
  have node_old: "node_ok ?s' ?h a" if "a \<in> set (pre @ post)" for a
    using insert_node_ok [OF inv that l shape links k(2)] .
  have sorted: "sorted_wrt (\<lambda>a b. node_less (version (sl_entry ?s' a)) (version (sl_entry ?s' b))) (pre @ ?new # post)"
  proof -
    have ver: "version (sl_entry ?s' a) = node_version (sl_nodes s ! a)" if "a \<in> set (pre @ post)" for a
      using entry [OF old [OF that]] fb(4) by (metis version_sl_entry)
    have new: "version (sl_entry ?s' ?new) = (key, t)"
      unfolding fb new_entry by (simp add: version_def)
    have base: "sorted_wrt (\<lambda>a b. node_less (node_version (sl_nodes s ! a)) (node_version (sl_nodes s ! b))) (pre @ post)"
      using inv by (simp add: sl_inv_def)
    then have "sorted_wrt (\<lambda>a b. node_less (version (sl_entry ?s' a)) (version (sl_entry ?s' b))) (pre @ post)"
      by (rule sorted_wrt_mono_rel [rotated]) (metis ver)
    with order ver new show ?thesis
      unfolding sorted_wrt_append by (auto simp del: version_sl_entry)
  qed
  have size: "size_bytes ?s' = of_nat (sum_list (map (\<lambda>a. entry_bytes_used (sl_entry ?s' a)) (pre @ ?new # post)))"
  proof -
    have "sum_list (map (\<lambda>a. entry_bytes_used (sl_entry ?s' a)) xs) =
        sum_list (map (\<lambda>a. entry_bytes_used (sl_entry s a)) xs)"
      if "set xs \<subseteq> set (pre @ post)" for xs
      using that old entry by (intro arg_cong [of _ _ sum_list] map_cong) (auto simp: fb)
    from this [of pre] this [of post]
    have "sum_list (map (\<lambda>a. entry_bytes_used (sl_entry ?s' a)) (pre @ ?new # post)) =
        sum_list (map (\<lambda>a. entry_bytes_used (sl_entry s a)) (pre @ post)) + b"
      using new_entry b by (simp add: fb entry_bytes_used_def [of "\<lparr>ekey = key, evalue = v, etranc = t\<rparr>"])
    moreover have "size_bytes s = of_nat (sum_list (map (\<lambda>a. entry_bytes_used (sl_entry s a)) (pre @ post)))"
      using inv by (simp add: sl_inv_def)
    ultimately show ?thesis
      using shape'(4) by (simp only: of_nat_add) simp
  qed
  have "?new \<notin> set (pre @ post)" using old by blast
  with inv node_new node_old chains sorted size head shape' l k sl_inv_levels [OF inv] show ?thesis
    unfolding sl_inv_def by (auto simp: fb)
qed

section \<open>Inserting, at the level of entries\<close>

definition sl_repr :: "skiplist \<Rightarrow> entry list \<Rightarrow> bool" where
  "sl_repr s es \<longleftrightarrow> (\<exists>as h. sl_inv s as h \<and> es = map (sl_entry s) as)"

text \<open>The specification: replace the version if it is there, else insert it in order.\<close>

fun put_entry :: "entry \<Rightarrow> entry list \<Rightarrow> entry list" where
  "put_entry e [] = [e]"
| "put_entry e (x # xs) =
     (if version x = version e then e # xs
      else if node_less (version x) (version e) then x # put_entry e xs
      else e # x # xs)"

lemma put_entry_split:
  assumes "\<forall>x \<in> set pre. node_less (version x) (version e)" and "\<forall>x \<in> set post. \<not> node_less (version x) (version e)"
  shows "put_entry e (pre @ post) =
    pre @ e # (case post of [] \<Rightarrow> [] | x # xs \<Rightarrow> if version x = version e then xs else post)"
  using assms
proof (induction pre)
  case Nil
  then show ?case by (cases post) auto
next
  case (Cons x pre)
  then show ?case by auto
qed

lemma put_new:
  assumes inv: "sl_inv s (pre @ post) h"
    and order: "\<forall>a \<in> set pre. node_less (node_version (sl_nodes s ! a)) (key, t)"
      "\<forall>a \<in> set post. node_less (key, t) (node_version (sl_nodes s ! a))"
    and l: "current_level s \<le> l" "l \<le> max_level s"
    and us: "us = map (left_at s h pre) [0..<current_level s] @ replicate (l - current_level s) (sl_head s)"
  shows "\<exists>s'. link_loop (length (sl_nodes s)) raised bits 0 us (alloc (new_node key v l t) (length key + length v + 8) s) = Inr s' \<and>
    sl_repr (s'\<lparr>current_level := l\<rparr>) (map (sl_entry s) pre @ \<lparr>ekey = key, evalue = v, etranc = t\<rparr> # map (sl_entry s) post)"
proof -
  let ?s = "alloc (new_node key v l t) (length key + length v + 8) s" and ?new = "length (sl_nodes s)"
  have us_eq: "us = map (left_at s h pre) [0..<l]"
  proof (intro nth_equalityI)
    show "length us = length (map (left_at s h pre) [0..<l])"
      using us l by simp
    fix i assume "i < length us"
    then show "us ! i = map (left_at s h pre) [0..<l] ! i"
      using us l left_at_top [OF inv, of i] by (auto simp: nth_append)
  qed
  have "\<forall>j < length us. can_link ?s ?new (0 + j) (us ! j)"
    using alloc_can_link [OF inv] l(2) us_eq by simp
  then obtain s' k where s': "link_loop ?new raised bits 0 us ?s = Inr s'" "same_shape ?s s'" "k \<le> length us"
    "us \<noteq> [] \<longrightarrow> 1 \<le> k" "\<forall>j. if 0 \<le> j \<and> j < 0 + k then linked_at ?s s' ?new j (us ! (j - 0)) else untouched_at ?s s' j"
    using link_loop_ok [of us ?s ?new 0 raised bits] by auto
  have ne: "1 \<le> k" "k \<le> l"
    using s'(3,4) us_eq l sl_inv_levels [OF inv] by auto
  have links: "i < k \<Longrightarrow> linked_at ?s s' ?new i (left_at s h pre i)" "k \<le> i \<Longrightarrow> untouched_at ?s s' i" for i
    using s'(5) [rule_format, of i] us_eq ne(2) by auto
  have final: "sl_inv (s'\<lparr>current_level := l\<rparr>) (pre @ ?new # post) (h(?new := k))"
    using insert_inv [OF inv l(2,1) s'(2) links ne refl order] .
  have "sl_entry (s'\<lparr>current_level := l\<rparr>) a = sl_entry s a" if "a \<in> set (pre @ post)" for a
    using same_shape_entry [OF s'(2), of a] sl_inv_node(1) [OF inv that] alloc_reads(4) by (simp add: sl_entry_def)
  moreover have "sl_entry (s'\<lparr>current_level := l\<rparr>) ?new = \<lparr>ekey = key, evalue = v, etranc = t\<rparr>"
    using same_shape_entry [OF s'(2), of ?new] alloc_new(4) [of key v l t _ s] by (simp add: sl_entry_def new_node_def)
  ultimately have "map (sl_entry (s'\<lparr>current_level := l\<rparr>)) (pre @ ?new # post) =
      map (sl_entry s) pre @ \<lparr>ekey = key, evalue = v, etranc = t\<rparr> # map (sl_entry s) post"
    by simp
  with final s'(1) show ?thesis
    unfolding sl_repr_def by metis
qed

text \<open>Overwriting the value of a node leaves everything but its entry and the size alone.\<close>

lemma update_inv:
  assumes inv: "sl_inv s as h" and a: "a \<in> set as" and t: "ntranc (sl_nodes s ! a) = t"
  shows "sl_repr (s\<lparr>size_bytes := size_bytes s + (of_nat (length v) - of_nat (length (nvalue (sl_nodes s ! a)))),
      sl_nodes := (sl_nodes s)[a := (sl_nodes s ! a)\<lparr>nvalue := v, ntranc := t\<rparr>]\<rparr>)
    (map (\<lambda>b. if b = a then (sl_entry s a)\<lparr>evalue := v\<rparr> else sl_entry s b) as)"
proof -
  define s2 where "s2 = s\<lparr>size_bytes := size_bytes s + (of_nat (length v) - of_nat (length (nvalue (sl_nodes s ! a)))),
    sl_nodes := (sl_nodes s)[a := (sl_nodes s ! a)\<lparr>nvalue := v, ntranc := t\<rparr>]\<rparr>"
  have fields: "size_bytes s2 = size_bytes s + (of_nat (length v) - of_nat (length (nvalue (sl_nodes s ! a))))"
    "length (sl_nodes s2) = length (sl_nodes s)" "sl_head s2 = sl_head s" "max_level s2 = max_level s"
    "current_level s2 = current_level s"
    by (simp_all add: s2_def)
  have al: "a < length (sl_nodes s)"
    using sl_inv_node(1) [OF inv a] .
  have fb: "fwd s2 = fwd s" "bwd s2 = bwd s" "levels_of s2 = levels_of s"
    using al by (auto simp: s2_def fun_eq_iff fwd_def bwd_def node_at_def levels_of_def nth_list_update)
  have entry: "sl_entry s2 b = (if b = a then (sl_entry s a)\<lparr>evalue := v\<rparr> else sl_entry s b)" for b
    using al t by (auto simp: s2_def sl_entry_def Let_def nth_list_update)
  have ver: "version (sl_entry s2 b) = version (sl_entry s b)" for b
    unfolding entry by (simp add: version_def)
  have ch: "chain s2 i b xs = chain s i b xs" for i b xs
    by (rule chain_cong) (simp_all add: fb)
  have ok: "node_ok s2 h b = node_ok s h b" for b
    by (simp add: node_ok_def fb fields)
  obtain xs ys where as: "as = xs @ a # ys"
    using a by (meson split_list)
  have "distinct as" using inv by (simp add: sl_inv_def)
  then have "a \<notin> set xs" "a \<notin> set ys" unfolding as by auto
  then have same: "sum_list (map (\<lambda>b. entry_bytes_used (sl_entry s2 b)) xs) = sum_list (map (\<lambda>b. entry_bytes_used (sl_entry s b)) xs)"
    "sum_list (map (\<lambda>b. entry_bytes_used (sl_entry s2 b)) ys) = sum_list (map (\<lambda>b. entry_bytes_used (sl_entry s b)) ys)"
    unfolding entry by (auto intro!: arg_cong [of _ _ sum_list])
  have "entry_bytes_used (sl_entry s2 a) = entry_bytes_used (sl_entry s a) + length v - length (nvalue (sl_nodes s ! a))"
    unfolding entry by (simp add: entry_bytes_used_def sl_entry_def Let_def)
  moreover have "length (nvalue (sl_nodes s ! a)) \<le> entry_bytes_used (sl_entry s a)"
    by (simp add: entry_bytes_used_def sl_entry_def Let_def)
  ultimately have one: "(of_nat (entry_bytes_used (sl_entry s2 a)) :: u64) =
      of_nat (entry_bytes_used (sl_entry s a)) + (of_nat (length v) - of_nat (length (nvalue (sl_nodes s ! a))))"
    by (simp only: of_nat_diff trans_le_add1 of_nat_add) simp
  have "size_bytes s = of_nat (sum_list (map (\<lambda>b. entry_bytes_used (sl_entry s b)) as))"
    using inv by (simp add: sl_inv_def)
  then have size: "size_bytes s2 = of_nat (sum_list (map (\<lambda>b. entry_bytes_used (sl_entry s2 b)) as))"
    unfolding as fields by (simp only: map_append list.map sum_list_append sum_list.Cons same of_nat_add one) simp
  have "sl_inv s2 as h"
    using inv size unfolding sl_inv_def ver ch ok fb fields(2-5) by (simp only: fields ok ch) simp
  moreover have "map (sl_entry s2) as = map (\<lambda>b. if b = a then (sl_entry s a)\<lparr>evalue := v\<rparr> else sl_entry s b) as"
    using entry by simp
  ultimately show ?thesis
    unfolding sl_repr_def s2_def [symmetric] by metis
qed

lemma put_repr:
  assumes "sl_repr s es"
  shows "\<exists>s'. SkipList_put coins bits key val tid s = Inr s' \<and>
    sl_repr s' (put_entry \<lparr>ekey = key, evalue = val, etranc = tid\<rparr> es)"
proof -
  let ?e = "\<lparr>ekey = key, evalue = val, etranc = tid\<rparr>"
  let ?lt = "\<lambda>n. node_less (nkey n, ntranc n) (key, tid)"
  obtain as h where as: "sl_inv s as h" "es = map (sl_entry s) as"
    using assms by (auto simp: sl_repr_def)
  obtain pre post where pp: "as = pre @ post" "\<forall>a \<in> set pre. ?lt (sl_nodes s ! a)" "\<forall>a \<in> set post. \<not> ?lt (sl_nodes s ! a)"
    using initial_pred_split [OF as(1) initial_pred_version] by blast
  have inv: "sl_inv s (pre @ post) h" using as(1) pp(1) by simp
  define l where "l = max (random_level (max_level s) coins) (current_level s)"
  have levels: "1 \<le> max_level s" "current_level s \<le> max_level s"
    using sl_inv_levels [OF inv] by auto
  then have l: "current_level s \<le> l" "l \<le> max_level s"
    using random_level_range(2) [of "max_level s" coins] by (simp_all add: l_def)
  note found = search [OF inv pp(2,3) order_refl levels(2)]
  have ve: "version ?e = (key, tid)"
    by (simp add: version_def)
  have versions: "\<forall>x \<in> set (map (sl_entry s) pre). node_less (version x) (version ?e)"
    "\<forall>x \<in> set (map (sl_entry s) post). \<not> node_less (version x) (version ?e)"
    using pp(2,3) ve by (auto simp: node_version_def)
  have spec: "put_entry ?e es = map (sl_entry s) pre @ ?e # (case post of [] \<Rightarrow> []
      | a # post' \<Rightarrow> if node_version (sl_nodes s ! a) = (key, tid) then map (sl_entry s) post' else map (sl_entry s) post)"
    using put_entry_split [OF versions] as(2) pp(1) ve by (cases post) simp_all
  show ?thesis
  proof (cases "\<exists>a post'. post = a # post' \<and> node_version (sl_nodes s ! a) = (key, tid)")
    case True
    then obtain a post' where a: "post = a # post'" "nkey (sl_nodes s ! a) = key" "ntranc (sl_nodes s ! a) = tid"
      by (auto simp: node_version_def)
    let ?s = "s\<lparr>size_bytes := size_bytes s + (of_nat (length val) - of_nat (length (nvalue (sl_nodes s ! a)))),
      sl_nodes := (sl_nodes s)[a := (sl_nodes s ! a)\<lparr>nvalue := val, ntranc := tid\<rparr>]\<rparr>"
    have al: "a < length (sl_nodes s)" and am: "a \<in> set as"
      using sl_inv_node(1) [OF inv, of a] a(1) pp(1) by simp_all
    have "SkipList_put coins bits key val tid s = Inr ?s"
      using found a al by (simp add: SkipList_put_def Let_def node_at_def)
    moreover have "a \<notin> set pre" "a \<notin> set post'"
      using inv a(1) by (auto simp: sl_inv_def)
    then have "map (\<lambda>b. if b = a then (sl_entry s a)\<lparr>evalue := val\<rparr> else sl_entry s b) as = put_entry ?e es"
      using a spec pp(1) by (auto simp: node_version_def sl_entry_def Let_def)
    ultimately show ?thesis
      using update_inv [OF as(1) am a(3), of val] by auto
  next
    case False
    have order: "\<forall>a \<in> set pre. node_less (node_version (sl_nodes s ! a)) (key, tid)"
      using pp(2) by (simp add: node_version_def)
    have order': "\<forall>a \<in> set post. node_less (key, tid) (node_version (sl_nodes s ! a))"
    proof (cases post)
      case (Cons x xs)
      have x: "node_less (key, tid) (node_version (sl_nodes s ! x))"
        using pp(3) Cons False node_less_total [of "node_version (sl_nodes s ! x)" "(key, tid)"]
        by (auto simp: node_version_def)
      have "sorted_wrt (\<lambda>a b. node_less (node_version (sl_nodes s ! a)) (node_version (sl_nodes s ! b))) (x # xs)"
        using inv Cons by (simp add: sl_inv_def sorted_wrt_append)
      with x show ?thesis
        unfolding Cons by (auto intro: node_less_trans)
    qed simp
    let ?us = "map (left_at s h pre) [0..<current_level s] @ replicate (l - current_level s) (sl_head s)"
    obtain s' where s': "link_loop (length (sl_nodes s)) (current_level s < l) bits 0 ?us
        (alloc (new_node key val l tid) (length key + length val + 8) s) = Inr s'"
      "sl_repr (s'\<lparr>current_level := l\<rparr>) (map (sl_entry s) pre @ ?e # map (sl_entry s) post)"
      using put_new [OF inv order order' l refl] by blast
    have nosame: "(case (case post of [] \<Rightarrow> None | a # _ \<Rightarrow> Some a) of None \<Rightarrow> Inr None
        | Some a \<Rightarrow> bindE (node_at s a) (\<lambda>n.
            Inr (if nkey n = key \<and> ntranc n = tid then Some (a, n) else None))) = Inr None"
      using False sl_inv_node(1) [OF inv] by (auto simp: node_at_def node_version_def split: list.splits)
    have "SkipList_put coins bits key val tid s = Inr (s'\<lparr>current_level := l\<rparr>)"
      using found nosame s'(1) by (simp add: SkipList_put_def Let_def alloc_def flip: l_def)
    moreover have "put_entry ?e es = map (sl_entry s) pre @ ?e # map (sl_entry s) post"
      using spec False by (auto split: list.splits)
    ultimately show ?thesis
      using s'(2) by simp
  qed
qed

section \<open>Reading the list\<close>

definition first_of :: "nat list \<Rightarrow> nat option" where
  "first_of xs = (case xs of [] \<Rightarrow> None | a # _ \<Rightarrow> Some a)"

lemma first_of_simps [simp]: "first_of [] = None" "first_of (a # xs) = Some a"
  by (simp_all add: first_of_def)

lemma chain_first: "chain s i a xs \<Longrightarrow> fwd s a i = Inr (first_of xs)"
  by (cases xs) simp_all

lemma chain_tail: "chain s i b (a # xs) \<Longrightarrow> chain s i a xs"
  by simp

lemma flush_loop_chain:
  assumes "chain s 0 b xs" and "\<forall>a \<in> set xs. a < length (sl_nodes s)" and "length xs < n"
  shows "flush_loop n s (first_of xs) = Inr (map (sl_entry s) xs)"
  using assms
proof (induction xs arbitrary: b n)
  case Nil
  then show ?case by (cases n) simp_all
next
  case (Cons a xs)
  then obtain m where n: "n = Suc m" by (cases n) simp_all
  have "fwd s a 0 = Inr (first_of xs)"
    using Cons.prems(1) chain_first by auto
  with Cons n show ?case
    by (auto simp: node_at_def sl_entry_def Let_def)
qed

lemma sl_inv_nodes: "sl_inv s as h \<Longrightarrow> \<forall>a \<in> set as. a < length (sl_nodes s)"
  using sl_inv_node(1) by blast

lemma sl_inv_length: "sl_inv s as h \<Longrightarrow> length as \<le> length (sl_nodes s)"
  using length_filter_nodes [of as] sl_inv_nodes by (auto simp: sl_inv_def)

text \<open>The entries an iterator still has to deliver.\<close>

definition entries_from :: "skiplist \<Rightarrow> sl_iter \<Rightarrow> entry list result" where
  "entries_from s it = flush_loop (length (sl_nodes s) + 1) s it"

text \<open>Two iterators that enclose the entries \<open>xs\<close>.\<close>

definition iter_range :: "skiplist \<Rightarrow> sl_iter \<Rightarrow> sl_iter \<Rightarrow> entry list \<Rightarrow> bool" where
  "iter_range s first stop xs \<longleftrightarrow>
     (\<exists>pre mid post h. sl_inv s (pre @ mid @ post) h \<and> first = first_of (mid @ post) \<and> stop = first_of post \<and>
        xs = map (sl_entry s) mid)"

lemma chain_suffix_first:
  assumes "sl_inv s (pre @ post) h"
  shows "\<exists>b. chain s 0 b post"
proof (cases pre rule: rev_cases)
  case Nil
  with sl_inv_bottom [OF assms] show ?thesis by auto
next
  case (snoc u a)
  with sl_inv_bottom [OF assms] chain_suffix [of s 0 "sl_head s" u a post] show ?thesis by auto
qed

lemma entries_from_suffix:
  assumes "sl_inv s (pre @ post) h"
  shows "entries_from s (first_of post) = Inr (map (sl_entry s) post)"
proof -
  obtain b where "chain s 0 b post"
    using chain_suffix_first [OF assms] by blast
  then show ?thesis
    unfolding entries_from_def using sl_inv_nodes [OF assms] sl_inv_length [OF assms]
    by (intro flush_loop_chain) auto
qed

lemma flush_repr:
  assumes "sl_repr s es"
  shows "SkipList_flush s = Inr es"
proof -
  obtain as h where as: "sl_inv s as h" "es = map (sl_entry s) as"
    using assms by (auto simp: sl_repr_def)
  have "fwd s (sl_head s) 0 = Inr (first_of as)"
    using sl_inv_bottom [OF as(1)] by (rule chain_first)
  with entries_from_suffix [of s "[]" as h] as show ?thesis
    by (simp add: SkipList_flush_def entries_from_def)
qed

lemma sl_repr_sorted:
  assumes "sl_repr s es"
  shows "sorted_wrt (\<lambda>x y. node_less (version x) (version y)) es" and "sorted_entries es"
    and "size_bytes s = of_nat (sum_list (map entry_bytes_used es))"
proof -
  obtain as h where as: "sl_inv s as h" "es = map (sl_entry s) as"
    using assms by (auto simp: sl_repr_def)
  then show sorted: "sorted_wrt (\<lambda>x y. node_less (version x) (version y)) es"
    by (simp add: sl_inv_def sorted_wrt_map)
  show "sorted_entries es"
    unfolding sorted_entries_def
    by (rule sorted_wrt_mono_rel [OF _ sorted]) (auto simp: node_less_def version_def entry_le_def split: if_splits)
  show "size_bytes s = of_nat (sum_list (map entry_bytes_used es))"
    using as by (simp add: sl_inv_def comp_def)
qed

lemma new_repr:
  assumes "1 \<le> m"
  shows "sl_repr (SkipList_new m) []"
proof -
  have "sl_inv (SkipList_new m) [] (\<lambda>_. 0)"
    using assms by (simp add: sl_inv_def SkipList_new_def levels_of_def new_node_def fwd_def node_at_def)
  then show ?thesis by (auto simp: sl_repr_def)
qed

lemma clear_repr:
  assumes "sl_repr s es"
  shows "sl_repr (SkipList_clear s) []"
proof -
  obtain as h where "sl_inv s as h"
    using assms by (auto simp: sl_repr_def)
  then have "sl_inv (SkipList_clear s) [] (\<lambda>_. 0)"
    by (simp add: sl_inv_def SkipList_clear_def levels_of_def new_node_def fwd_def node_at_def)
  then show ?thesis by (auto simp: sl_repr_def)
qed

subsection \<open>Lookup\<close>

lemma get_loop_chain:
  assumes "chain s 0 b xs" and "\<forall>a \<in> set xs. a < length (sl_nodes s)" and "length xs < n"
    and "\<forall>a \<in> set xs. key \<le> nkey (sl_nodes s ! a)"
    and "sorted_wrt (\<lambda>a c. nkey (sl_nodes s ! a) \<le> nkey (sl_nodes s ! c)) xs"
  shows "get_loop n s key tid (first_of xs) =
    Inr (find (\<lambda>a. nkey (sl_nodes s ! a) = key \<and> ntranc (sl_nodes s ! a) \<le> tid) xs)"
  using assms
proof (induction xs arbitrary: b n)
  case Nil
  then show ?case by (cases n) simp_all
next
  case (Cons a xs)
  then obtain m where n: "n = Suc m" by (cases n) simp_all
  have nxt: "fwd s a 0 = Inr (first_of xs)"
    using Cons.prems(1) chain_first by auto
  show ?case
  proof (cases "nkey (sl_nodes s ! a) = key")
    case True
    with Cons n nxt show ?thesis by (auto simp: node_at_def)
  next
    case False
    then have "\<forall>c \<in> set xs. nkey (sl_nodes s ! c) \<noteq> key"
      using Cons.prems(4,5) by fastforce
    then have "find (\<lambda>a. nkey (sl_nodes s ! a) = key \<and> ntranc (sl_nodes s ! a) \<le> tid) xs = None"
      by (auto simp: find_None_iff)
    with False Cons.prems(2) n show ?thesis by (auto simp: node_at_def)
  qed
qed

lemma sl_inv_keys_sorted:
  assumes "sl_inv s as h"
  shows "sorted_wrt (\<lambda>a c. nkey (sl_nodes s ! a) \<le> nkey (sl_nodes s ! c)) as"
proof -
  have "sorted_wrt (\<lambda>a c. node_less (node_version (sl_nodes s ! a)) (node_version (sl_nodes s ! c))) as"
    using assms by (simp add: sl_inv_def)
  then show ?thesis
    by (rule sorted_wrt_mono_rel [rotated]) (auto simp: node_version_def dest!: node_less_key)
qed

lemma get_addr:
  assumes inv: "sl_inv s as h"
  shows "SkipList_get s key tid = Inr (find (\<lambda>a. ekey (sl_entry s a) = key \<and> visible tid (sl_entry s a)) as)"
proof -
  let ?lt = "\<lambda>n. nkey n < key"
  obtain pre post where pp: "as = pre @ post" "\<forall>a \<in> set pre. ?lt (sl_nodes s ! a)" "\<forall>a \<in> set post. \<not> ?lt (sl_nodes s ! a)"
    using initial_pred_split [OF inv initial_pred_key] by blast
  have inv': "sl_inv s (pre @ post) h" using inv pp(1) by simp
  note found = search [OF inv' pp(2,3) order_refl] and lv = sl_inv_levels [OF inv']
  obtain b where ch: "chain s 0 b post"
    using chain_suffix_first [OF inv'] by blast
  have facts: "\<forall>a \<in> set post. a < length (sl_nodes s)" "length post < length (sl_nodes s) + 1"
    "\<forall>a \<in> set post. key \<le> nkey (sl_nodes s ! a)"
    "sorted_wrt (\<lambda>a c. nkey (sl_nodes s ! a) \<le> nkey (sl_nodes s ! c)) post"
    using sl_inv_nodes [OF inv'] sl_inv_length [OF inv'] pp(3) sl_inv_keys_sorted [OF inv']
    by (auto simp: not_less sorted_wrt_append)
  have skip: "find P as = find P post" if "\<And>a. a \<in> set pre \<Longrightarrow> \<not> P a" for P
    using that pp(1) by (induction pre arbitrary: as) auto
  have pre: "\<not> (ekey (sl_entry s a) = key \<and> visible tid (sl_entry s a))" if "a \<in> set pre" for a
    using pp(2) that by (auto simp: sl_entry_def Let_def)
  have sk: "find (\<lambda>a. ekey (sl_entry s a) = key \<and> visible tid (sl_entry s a)) as =
      find (\<lambda>a. ekey (sl_entry s a) = key \<and> visible tid (sl_entry s a)) post"
    by (rule skip) (rule pre)
  show ?thesis
  proof (cases "tid = 0")
    case False
    have "(\<lambda>a. ekey (sl_entry s a) = key \<and> visible tid (sl_entry s a)) =
        (\<lambda>a. nkey (sl_nodes s ! a) = key \<and> ntranc (sl_nodes s ! a) \<le> tid)"
      using False by (simp add: fun_eq_iff visible_def sl_entry_def Let_def)
    with False found lv get_loop_chain [OF ch facts, of tid] sk show ?thesis
      by (simp add: SkipList_get_def first_of_def del: get_loop.simps)
  next
    case True
    have "find (\<lambda>a. ekey (sl_entry s a) = key \<and> visible tid (sl_entry s a)) post =
        (case post of [] \<Rightarrow> None | a # _ \<Rightarrow> if nkey (sl_nodes s ! a) = key then Some a else None)"
    proof (cases post)
      case (Cons a xs)
      have "\<forall>c \<in> set xs. nkey (sl_nodes s ! c) \<noteq> key" if "nkey (sl_nodes s ! a) \<noteq> key"
        using facts(3,4) Cons that by fastforce
      then show ?thesis
        using Cons True by (auto simp: find_None_iff sl_entry_def Let_def visible_def)
    qed simp
    with True found lv sk facts(1) show ?thesis
      by (auto simp: SkipList_get_def node_at_def split: list.splits)
  qed
qed

text \<open>What a caller reads through an iterator.\<close>

definition read_iter :: "skiplist \<Rightarrow> sl_iter \<Rightarrow> entry option result" where
  "read_iter s it =
     (if SkipListIterator_is_end it then Inr None
      else bindE (SkipListIterator_get_key s it) (\<lambda>k.
           bindE (SkipListIterator_get_value s it) (\<lambda>v.
           bindE (SkipListIterator_get_tranc_id s it) (\<lambda>t.
             Inr (Some \<lparr>ekey = k, evalue = v, etranc = t\<rparr>)))))"

lemma read_iter_Some: "a < length (sl_nodes s) \<Longrightarrow> read_iter s (Some a) = Inr (Some (sl_entry s a))"
  by (simp add: read_iter_def SkipListIterator_is_end_def SkipListIterator_get_key_def
      SkipListIterator_get_value_def SkipListIterator_get_tranc_id_def node_at_def sl_entry_def Let_def)

lemma find_map: "find P (map f xs) = map_option f (find (\<lambda>x. P (f x)) xs)"
  by (induction xs) simp_all

lemma find_Some_mem: "find P xs = Some x \<Longrightarrow> x \<in> set xs"
  by (induction xs) (auto split: if_splits)

lemma get_repr:
  assumes "sl_repr s es"
  shows "\<exists>it. SkipList_get s key tid = Inr it \<and>
    read_iter s it = Inr (find (\<lambda>e. ekey e = key \<and> visible tid e) es)"
proof -
  obtain as h where as: "sl_inv s as h" "es = map (sl_entry s) as"
    using assms by (auto simp: sl_repr_def)
  let ?r = "find (\<lambda>a. ekey (sl_entry s a) = key \<and> visible tid (sl_entry s a)) as"
  have "read_iter s ?r = Inr (map_option (sl_entry s) ?r)"
  proof (cases ?r)
    case None
    then show ?thesis by (simp add: read_iter_def SkipListIterator_is_end_def)
  next
    case (Some a)
    with find_Some_mem [OF Some] sl_inv_nodes [OF as(1)] show ?thesis
      by (simp add: read_iter_Some)
  qed
  with get_addr [OF as(1)] as(2) show ?thesis by (simp add: find_map)
qed

subsection \<open>Prefix ranges\<close>

lemma bindE_Inr_right: "bindE x Inr = x"
  by (cases x) simp_all

lemma search_next:
  assumes inv: "sl_inv s (pre @ post) h"
    and "\<forall>a \<in> set pre. lt (sl_nodes s ! a)" and "\<forall>a \<in> set post. \<not> lt (sl_nodes s ! a)"
  shows "bindE (descend s lt (current_level s) (sl_head s)) (\<lambda>(current, _). bindE (fwd s current 0) f) = f (first_of post)"
  using search [OF assms order_refl] sl_inv_levels [OF inv] by (simp add: first_of_def)

lemma skip_prefix_chain:
  assumes "chain s 0 b xs" and "\<forall>a \<in> set xs. a < length (sl_nodes s)" and "length xs < n"
  shows "skip_prefix n s p (first_of xs) =
    Inr (first_of (dropWhile (\<lambda>a. take (length p) (nkey (sl_nodes s ! a)) = p) xs))"
  using assms
proof (induction xs arbitrary: b n)
  case Nil
  then show ?case by (cases n) simp_all
next
  case (Cons a xs)
  then obtain m where n: "n = Suc m" by (cases n) simp_all
  have nxt: "fwd s a 0 = Inr (first_of xs)"
    using Cons.prems(1) chain_first by auto
  from Cons n nxt show ?case by (auto simp: node_at_def)
qed

text \<open>In a sorted list the keys with a prefix directly follow the keys below the prefix.\<close>

lemma prefix_block:
  assumes "sorted_wrt (\<lambda>a c. f a \<le> f c) xs" and "\<forall>a \<in> set xs. (p :: string) \<le> f a"
  shows "takeWhile (\<lambda>a. take (length p) (f a) = p) xs = filter (\<lambda>a. take (length p) (f a) = p) xs"
  using assms
proof (induction xs)
  case (Cons a xs)
  show ?case
  proof (cases "take (length p) (f a) = p")
    case True
    with Cons show ?thesis by simp
  next
    case False
    have "take (length p) (f c) \<noteq> p" if "c \<in> set xs" for c
    proof
      assume "take (length p) (f c) = p"
      moreover have "take (length p) (f a) \<le> take (length p) (f c)"
        using Cons.prems that by (auto intro: take_mono_lex)
      moreover have "p \<le> take (length p) (f a)"
        using Cons.prems take_mono_lex [of p "f a" "length p"] by simp
      ultimately show False using False by simp
    qed
    then show ?thesis using False by simp
  qed
qed simp

lemma prefix_not_less: "take (length p) k = p \<Longrightarrow> \<not> k < (p :: string)"
proof
  assume p: "take (length p) k = p" and "k < p"
  then have "k = p @ drop (length p) k" by (metis append_take_drop_id)
  moreover have "p \<le> p @ ys" for ys :: string
    by (induction p) (simp_all add: Cons_le_Cons)
  ultimately show False
    using \<open>k < p\<close> by (metis not_le)
qed

lemma iter_rangeI:
  "sl_inv s (pre @ mid @ post) h \<Longrightarrow> first = first_of (mid @ post) \<Longrightarrow> stop = first_of post \<Longrightarrow>
   xs = map (sl_entry s) mid \<Longrightarrow> iter_range s first stop xs"
  unfolding iter_range_def by blast

lemma iter_range_entries:
  assumes "iter_range s first stop xs"
  shows "\<exists>rest. entries_from s first = Inr (xs @ rest) \<and> entries_from s stop = Inr rest"
proof -
  obtain pre mid post h where inv: "sl_inv s (pre @ mid @ post) h" "first = first_of (mid @ post)" "stop = first_of post"
    "xs = map (sl_entry s) mid"
    using assms by (auto simp: iter_range_def)
  then show ?thesis
    using entries_from_suffix [of s pre "mid @ post" h] entries_from_suffix [of s "pre @ mid" post h] by simp
qed

lemma iter_range_Nil: "iter_range s first stop [] \<Longrightarrow> first = stop"
  by (auto simp: iter_range_def)

lemma iter_range_Cons:
  assumes "iter_range s it stop (e # xs)"
  shows "it \<noteq> stop" and "SkipListIterator_get_key s it = Inr (ekey e)" and "SkipListIterator_get_value s it = Inr (evalue e)"
    and "SkipListIterator_get_tranc_id s it = Inr (etranc e)"
    and "\<exists>nxt. SkipListIterator_incr s it = Inr nxt \<and> iter_range s nxt stop xs"
proof -
  obtain pre a mid post h where inv: "sl_inv s (pre @ a # mid @ post) h" "it = Some a" "stop = first_of post"
    "e = sl_entry s a" "xs = map (sl_entry s) mid"
    using assms by (auto simp: iter_range_def Cons_eq_map_conv)
  have "distinct (pre @ a # mid @ post)" using inv(1) by (simp add: sl_inv_def)
  then show "it \<noteq> stop" using inv(2,3) by (cases post) auto
  have "a < length (sl_nodes s)" using sl_inv_nodes [OF inv(1)] by simp
  then show "SkipListIterator_get_key s it = Inr (ekey e)" "SkipListIterator_get_value s it = Inr (evalue e)"
    "SkipListIterator_get_tranc_id s it = Inr (etranc e)"
    using inv(2,4) by (simp_all add: SkipListIterator_get_key_def SkipListIterator_get_value_def
        SkipListIterator_get_tranc_id_def node_at_def sl_entry_def Let_def)
  have "fwd s a 0 = Inr (first_of (mid @ post))"
    using chain_first [OF chain_suffix [OF sl_inv_bottom [OF inv(1)]]] .
  moreover have "iter_range s (first_of (mid @ post)) stop xs"
    using inv by (intro iter_rangeI [of s "pre @ [a]" mid post h]) simp_all
  ultimately show "\<exists>nxt. SkipListIterator_incr s it = Inr nxt \<and> iter_range s nxt stop xs"
    using inv(2) by (simp add: SkipListIterator_incr_def)
qed

lemma begin_range:
  assumes "sl_repr s es"
  shows "\<exists>it. SkipList_begin s = Inr it \<and> iter_range s it SkipList_end es"
proof -
  obtain as h where as: "sl_inv s as h" "es = map (sl_entry s) as"
    using assms by (auto simp: sl_repr_def)
  then have "SkipList_begin s = Inr (first_of as)"
    using chain_first [OF sl_inv_bottom [OF as(1)]] by (simp add: SkipList_begin_def)
  moreover have "iter_range s (first_of as) SkipList_end es"
    using as by (intro iter_rangeI [of s "[]" as "[]" h]) (simp_all add: SkipList_end_def)
  ultimately show ?thesis by blast
qed

lemma iter_range_length: "iter_range s first stop xs \<Longrightarrow> length xs \<le> length (sl_nodes s)"
  using sl_inv_length by (fastforce simp: iter_range_def)

lemma prefix_range_repr:
  assumes "sl_repr s es"
  shows "\<exists>first stop. SkipList_begin_preffix s p = Inr first \<and> SkipList_end_preffix s p = Inr stop \<and>
    iter_range s first stop (filter (\<lambda>e. take (length p) (ekey e) = p) es)"
proof -
  obtain as h where as: "sl_inv s as h" "es = map (sl_entry s) as"
    using assms by (auto simp: sl_repr_def)
  let ?lt = "\<lambda>n. nkey n < p" and ?k = "\<lambda>a. nkey (sl_nodes s ! a)"
  let ?P = "\<lambda>a. take (length p) (?k a) = p"
  obtain pre post where pp: "as = pre @ post" "\<forall>a \<in> set pre. ?lt (sl_nodes s ! a)" "\<forall>a \<in> set post. \<not> ?lt (sl_nodes s ! a)"
    using initial_pred_split [OF as(1) initial_pred_key] by blast
  have inv: "sl_inv s (pre @ post) h" using as(1) pp(1) by simp
  obtain b where ch: "chain s 0 b post"
    using chain_suffix_first [OF inv] by blast
  have post: "\<forall>a \<in> set post. a < length (sl_nodes s)" "length post < length (sl_nodes s) + 1"
    using sl_inv_nodes [OF inv] sl_inv_length [OF inv] by auto
  have "takeWhile ?P post = filter ?P post"
    using pp(3) sl_inv_keys_sorted [OF inv] by (intro prefix_block) (auto simp: not_less sorted_wrt_append)
  moreover have "filter ?P pre = []"
    using pp(2) prefix_not_less by (fastforce simp: filter_empty_conv)
  ultimately have split: "post = filter ?P as @ dropWhile ?P post"
    using takeWhile_dropWhile_id [of ?P post] pp(1) by simp
  have "iter_range s (first_of post) (first_of (dropWhile ?P post)) (map (sl_entry s) (filter ?P as))"
    using inv split by (intro iter_rangeI [of s pre "filter ?P as" "dropWhile ?P post" h]) simp_all
  moreover have "map (sl_entry s) (filter ?P as) = filter (\<lambda>e. take (length p) (ekey e) = p) es"
    by (simp add: as(2) filter_map comp_def sl_entry_def Let_def)
  moreover have "SkipList_begin_preffix s p = Inr (first_of post)"
    using search_next [OF inv pp(2,3), of Inr] by (simp add: SkipList_begin_preffix_def bindE_Inr_right)
  moreover have "SkipList_end_preffix s p = Inr (first_of (dropWhile ?P post))"
    using search_next [OF inv pp(2,3), of "skip_prefix (length (sl_nodes s) + 1) s p"] skip_prefix_chain [OF ch post]
    by (simp add: SkipList_end_preffix_def del: skip_prefix.simps)
  ultimately show ?thesis by simp
qed

subsection \<open>Predicate ranges\<close>

text \<open>The neighbours of a linked node on one of its levels.\<close>

lemma level_neighbours:
  assumes inv: "sl_inv s (pre @ c # post) h" and i: "i < fst (levels_of s c)"
  shows "bwd s c i = Inr (if i < h c then Some (left_at s h pre i) else None)"
    and "fwd s c i = Inr (if i < h c then first_of (filter (\<lambda>a. i < h a) post) else None)"
proof -
  have ok: "node_ok s h c" and hc: "h c \<le> max_level s"
    using sl_inv_node(4,5) [OF inv] by auto
  have ch: "chain s i (sl_head s) (filter (\<lambda>a. i < h a) pre @ c # filter (\<lambda>a. i < h a) post)" if "i < h c"
    using sl_inv_chain [OF inv, of i] that hc by simp
  show "bwd s c i = Inr (if i < h c then Some (left_at s h pre i) else None)"
    using chain_prefix_link [OF ch] ok i by (auto simp: left_at_def node_ok_def)
  show "fwd s c i = Inr (if i < h c then first_of (filter (\<lambda>a. i < h a) post) else None)"
    using chain_first [OF chain_suffix [OF ch]] ok i by (auto simp: node_ok_def)
qed

abbreviation dir_at :: "(string \<Rightarrow> int) \<Rightarrow> skiplist \<Rightarrow> nat \<Rightarrow> int" where
  "dir_at p s a \<equiv> p (nkey (sl_nodes s ! a))"

definition falls :: "(nat \<Rightarrow> int) \<Rightarrow> nat list \<Rightarrow> bool" where
  "falls d as \<longleftrightarrow> sorted_wrt (\<lambda>a c. sgn (d c) \<le> sgn (d a)) as"

lemma falls_before:
  assumes "falls d (pre @ c # post)" and "a \<in> set pre"
  shows "d c = 0 \<Longrightarrow> 0 \<le> d a" and "0 < d c \<Longrightarrow> 0 < d a"
proof -
  have "sgn (d c) \<le> sgn (d a)"
    using assms by (auto simp: falls_def sorted_wrt_append)
  then show "d c = 0 \<Longrightarrow> 0 \<le> d a" "0 < d c \<Longrightarrow> 0 < d a"
    by (auto simp: sgn_if split: if_splits)
qed

lemma falls_after:
  assumes "falls d (pre @ c # post)" and "a \<in> set post"
  shows "d c = 0 \<Longrightarrow> d a \<le> 0" and "d c < 0 \<Longrightarrow> d a < 0"
proof -
  have "sgn (d a) \<le> sgn (d c)"
    using assms by (auto simp: falls_def sorted_wrt_append)
  then show "d c = 0 \<Longrightarrow> d a \<le> 0" "d c < 0 \<Longrightarrow> d a < 0"
    by (auto simp: sgn_if split: if_splits)
qed

lemma falls_split:
  assumes "falls d as"
  shows "filter (\<lambda>a. d a \<le> 0) as = filter (\<lambda>a. d a = 0) as @ filter (\<lambda>a. d a < 0) as"
  using assms
proof (induction as)
  case (Cons a as)
  have "\<forall>c \<in> set as. d c < 0" if "d a < 0"
    using Cons.prems falls_after(2) [of d "[]" a as] that by auto
  then have "filter (\<lambda>a. d a = 0) as = []" "filter (\<lambda>a. d a \<le> 0) as = as" "filter (\<lambda>a. d a < 0) as = as" if "d a < 0"
    using that by (auto simp: filter_empty_conv filter_id_conv)
  with Cons show ?case by (auto simp: falls_def)
qed simp

lemma back_walk_inv:
  assumes "sl_inv s as h" and "falls (dir_at p s) as"
    and "as = pre @ c # post" and "i < fst (levels_of s c)" and "dir_at p s c = 0" and "length pre < n"
  shows "\<exists>pre' c' post'. as = pre' @ c' # post' \<and> back_walk n s p i c = Inr c' \<and> dir_at p s c' = 0 \<and>
    i < fst (levels_of s c') \<and> (i = 0 \<longrightarrow> (\<forall>a \<in> set pre'. 0 < dir_at p s a))"
  using assms(3-)
proof (induction "length pre" arbitrary: pre c post n rule: less_induct)
  case less
  then obtain m where n: "n = Suc m" by (cases n) simp_all
  have inv: "sl_inv s (pre @ c # post) h" using assms(1) less.prems(1) by simp
  note nb = level_neighbours(1) [OF inv less.prems(2)]
  let ?F = "filter (\<lambda>a. i < h a) pre"
  show ?case
  proof (cases "i < h c \<and> ?F \<noteq> []")
    case False
    have "back_walk n s p i c = Inr c"
      using False nb n by (auto simp: left_at_def)
    moreover have "pre = []" if "i = 0"
      using False that sl_inv_node(2) [OF inv] by (auto simp: filter_empty_conv)
    ultimately show ?thesis using less.prems by (intro exI [of _ pre] exI [of _ c] exI [of _ post]) auto
  next
    case True
    define a where "a = last ?F"
    obtain u v where uv: "pre = u @ a # v" "i < h a"
      using True last_in_set [of ?F] split_list [of a pre] by (auto simp: a_def)
    have bw: "bwd s c i = Inr (Some a)"
      using nb True by (simp add: left_at_def a_def)
    have am: "a \<in> set (pre @ c # post)" using uv by simp
    have a: "a < length (sl_nodes s)" "a \<noteq> sl_head s" "i < fst (levels_of s a)"
      using sl_inv_node(1,5) [OF inv am] uv(2) inv am by (auto simp: node_ok_def sl_inv_def)
    have nonneg: "0 \<le> dir_at p s a"
      using falls_before(1) [of "dir_at p s" pre c post a] assms(2) less.prems(1,3) uv(1) by simp
    show ?thesis
    proof (cases "dir_at p s a = 0")
      case True
      have "back_walk n s p i c = back_walk m s p i a"
        using n bw a(1,2) True by (simp add: node_at_def)
      moreover have "as = u @ a # (v @ c # post)" "length u < length pre" "length u < m"
        using less.prems(1,4) uv(1) n by simp_all
      ultimately show ?thesis
        using less.hyps [of u a "v @ c # post" m] a(3) True by simp
    next
      case False
      have stop: "back_walk n s p i c = Inr c"
        using n bw a(1,2) False nonneg by (simp add: node_at_def)
      have "0 < dir_at p s x" if "i = 0" "x \<in> set pre" for x
      proof -
        have "?F = pre"
          using sl_inv_node(2) [OF inv] that(1) by (auto simp: filter_id_conv)
        then have "pre = butlast pre @ [a]"
          using True a_def by (metis append_butlast_last_id)
        then have "x \<in> set (butlast pre) \<or> x = a" "falls (dir_at p s) (butlast pre @ a # c # post)"
          using that(2) assms(2) less.prems(1) by (metis (no_types) Un_iff append.assoc append_Cons append_Nil empty_iff empty_set insert_iff list.simps(15) set_append)+
        with falls_before(2) [of "dir_at p s" "butlast pre" a "c # post" x] False nonneg show ?thesis by auto
      qed
      then show ?thesis
        using stop less.prems by (intro exI [of _ pre] exI [of _ c] exI [of _ post]) auto
    qed
  qed
qed

lemma fore_walk_inv:
  assumes "sl_inv s as h" and "falls (dir_at p s) as"
    and "as = pre @ c # post" and "i < fst (levels_of s c)" and "dir_at p s c = 0" and "length post < n"
  shows "\<exists>pre' c' post'. as = pre' @ c' # post' \<and> fore_walk n s p i c = Inr c' \<and> dir_at p s c' = 0 \<and>
    i < fst (levels_of s c') \<and> (i = 0 \<longrightarrow> (\<forall>a \<in> set post'. dir_at p s a < 0))"
  using assms(3-)
proof (induction "length post" arbitrary: pre c post n rule: less_induct)
  case less
  then obtain m where n: "n = Suc m" by (cases n) simp_all
  have inv: "sl_inv s (pre @ c # post) h" using assms(1) less.prems(1) by simp
  note nb = level_neighbours(2) [OF inv less.prems(2)]
  let ?F = "filter (\<lambda>a. i < h a) post"
  show ?case
  proof (cases "i < h c \<and> ?F \<noteq> []")
    case False
    have "fore_walk n s p i c = Inr c"
      using False nb n by auto
    moreover have "post = []" if "i = 0"
      using False that sl_inv_node(2) [OF inv] by (auto simp: filter_empty_conv)
    ultimately show ?thesis using less.prems by (intro exI [of _ pre] exI [of _ c] exI [of _ post]) auto
  next
    case True
    then obtain a xs where F: "?F = a # xs" by (cases ?F) auto
    then have "a \<in> set ?F" by simp
    then obtain u v where uv: "post = u @ a # v" "i < h a"
      using split_list [of a post] by auto
    have fw: "fwd s c i = Inr (Some a)"
      using nb True F by simp
    have am: "a \<in> set (pre @ c # post)" using uv by simp
    have a: "a < length (sl_nodes s)" "i < fst (levels_of s a)"
      using sl_inv_node(1,5) [OF inv am] uv(2) by (auto simp: node_ok_def)
    have nonpos: "dir_at p s a \<le> 0"
      using falls_after(1) [of "dir_at p s" pre c post a] assms(2) less.prems(1,3) uv(1) by simp
    show ?thesis
    proof (cases "dir_at p s a = 0")
      case True
      have "fore_walk n s p i c = fore_walk m s p i a"
        using n fw a(1) True by (simp add: node_at_def)
      moreover have "as = (pre @ c # u) @ a # v" "length v < length post" "length v < m"
        using less.prems(1,4) uv(1) n by simp_all
      ultimately show ?thesis
        using less.hyps [of v "pre @ c # u" a m] a(2) True by simp
    next
      case False
      have stop: "fore_walk n s p i c = Inr c"
        using n fw a(1) False nonpos by (simp add: node_at_def)
      have "dir_at p s x < 0" if "i = 0" "x \<in> set post" for x
      proof -
        have "?F = post"
          using sl_inv_node(2) [OF inv] that(1) by (auto simp: filter_id_conv)
        then have "falls (dir_at p s) ((pre @ [c]) @ a # xs)" "x = a \<or> x \<in> set xs"
          using F assms(2) less.prems(1) that(2) by auto
        with falls_after(2) [of "dir_at p s" "pre @ [c]" a xs x] False nonpos show ?thesis by auto
      qed
      then show ?thesis
        using stop less.prems by (intro exI [of _ pre] exI [of _ c] exI [of _ post]) auto
    qed
  qed
qed

lemma back_descend_inv:
  assumes "sl_inv s as h" and "falls (dir_at p s) as"
    and "as = pre @ c # post" and "k \<le> fst (levels_of s c)" and "dir_at p s c = 0"
  shows "\<exists>pre' c' post'. as = pre' @ c' # post' \<and> back_descend s p k c = Inr c' \<and> dir_at p s c' = 0 \<and>
    (0 < k \<longrightarrow> (\<forall>a \<in> set pre'. 0 < dir_at p s a))"
  using assms(3-)
proof (induction k arbitrary: pre c post)
  case 0
  then show ?case by auto
next
  case (Suc k)
  have "length pre < length (sl_nodes s) + 1"
    using sl_inv_length [OF assms(1)] Suc.prems(1) by simp
  then obtain pre1 c1 post1 where w: "as = pre1 @ c1 # post1" "back_walk (length (sl_nodes s) + 1) s p k c = Inr c1"
    "dir_at p s c1 = 0" "k < fst (levels_of s c1)" "k = 0 \<longrightarrow> (\<forall>a \<in> set pre1. 0 < dir_at p s a)"
    using back_walk_inv [OF assms(1,2) Suc.prems(1) Suc_le_lessD [OF Suc.prems(2)] Suc.prems(3)] by blast
  have eq: "back_descend s p (Suc k) c = back_descend s p k c1"
    using w(2) by simp
  show ?case
  proof (cases k)
    case 0
    with w eq show ?thesis by (intro exI [of _ pre1] exI [of _ c1] exI [of _ post1]) simp
  next
    case (Suc j)
    with Suc.IH [OF w(1)] w(3,4) eq show ?thesis by simp
  qed
qed

lemma fore_descend_inv:
  assumes "sl_inv s as h" and "falls (dir_at p s) as"
    and "as = pre @ c # post" and "k \<le> fst (levels_of s c)" and "dir_at p s c = 0"
  shows "\<exists>pre' c' post'. as = pre' @ c' # post' \<and> fore_descend s p k c = Inr c' \<and> dir_at p s c' = 0 \<and>
    (0 < k \<longrightarrow> (\<forall>a \<in> set post'. dir_at p s a < 0))"
  using assms(3-)
proof (induction k arbitrary: pre c post)
  case 0
  then show ?case by auto
next
  case (Suc k)
  have "length post < length (sl_nodes s) + 1"
    using sl_inv_length [OF assms(1)] Suc.prems(1) by simp
  then obtain pre1 c1 post1 where w: "as = pre1 @ c1 # post1" "fore_walk (length (sl_nodes s) + 1) s p k c = Inr c1"
    "dir_at p s c1 = 0" "k < fst (levels_of s c1)" "k = 0 \<longrightarrow> (\<forall>a \<in> set post1. dir_at p s a < 0)"
    using fore_walk_inv [OF assms(1,2) Suc.prems(1) Suc_le_lessD [OF Suc.prems(2)] Suc.prems(3)] by blast
  have eq: "fore_descend s p (Suc k) c = fore_descend s p k c1"
    using w(2) by simp
  show ?case
  proof (cases k)
    case 0
    with w eq show ?thesis by (intro exI [of _ pre1] exI [of _ c1] exI [of _ post1]) simp
  next
    case (Suc j)
    with Suc.IH [OF w(1)] w(3,4) eq show ?thesis by simp
  qed
qed

lemma pred_walk_chain:
  assumes "chain s i cur (v @ F)" and "\<forall>a \<in> set (v @ F). a < length (sl_nodes s)"
    and "\<forall>a \<in> set v. 0 < dir_at p s a" and "F \<noteq> [] \<Longrightarrow> dir_at p s (hd F) \<le> 0" and "length v < n"
  shows "pred_walk n s p i cur =
    Inr (if F \<noteq> [] \<and> dir_at p s (hd F) = 0 then (True, hd F) else (False, last (cur # v)))"
  using assms
proof (induction v arbitrary: cur n)
  case Nil
  then show ?case
    by (cases n; cases F) (auto simp: node_at_def Let_def)
next
  case (Cons a v)
  then show ?case
    by (cases n) (auto simp: node_at_def Let_def)
qed

lemma pred_descend_inv:
  assumes inv: "sl_inv s (pre @ post) h" and pre: "\<forall>a \<in> set pre. 0 < dir_at p s a"
    and post: "\<forall>a \<in> set post. dir_at p s a \<le> 0" and falls: "falls (dir_at p s) (pre @ post)"
    and k: "k \<le> max_level s" and cur: "cur = left_at s h pre k"
  shows "\<exists>found c. pred_descend s p k cur = Inr (found, c) \<and>
    (found \<longrightarrow> c \<in> set post \<and> dir_at p s c = 0) \<and> (\<not> found \<and> 0 < k \<longrightarrow> (\<forall>a \<in> set post. dir_at p s a < 0))"
  using k cur
proof (induction k arbitrary: cur)
  case 0
  then show ?case by (intro exI [of _ False] exI [of _ cur]) simp
next
  case (Suc k)
  let ?F = "filter (\<lambda>a. k < h a) post"
  obtain v where v: "chain s k cur (v @ ?F)" "last (cur # v) = left_at s h pre k" "set v \<subseteq> set pre" "length v \<le> length pre"
    using level_chain [OF inv, of k] Suc.prems by auto
  have hd: "?F \<noteq> [] \<Longrightarrow> hd ?F \<in> set post"
    using hd_in_set [of ?F] by auto
  have w: "pred_walk (length (sl_nodes s) + 1) s p k cur =
      Inr (if ?F \<noteq> [] \<and> dir_at p s (hd ?F) = 0 then (True, hd ?F) else (False, last (cur # v)))"
    using v(1)
  proof (rule pred_walk_chain)
    show "\<forall>a \<in> set (v @ ?F). a < length (sl_nodes s)" using sl_inv_nodes [OF inv] v(3) by auto
    show "\<forall>a \<in> set v. 0 < dir_at p s a" using pre v(3) by auto
    show "?F \<noteq> [] \<Longrightarrow> dir_at p s (hd ?F) \<le> 0" using hd post by auto
    show "length v < length (sl_nodes s) + 1" using v(4) sl_inv_length [OF inv] by simp
  qed
  show ?case
  proof (cases "?F \<noteq> [] \<and> dir_at p s (hd ?F) = 0")
    case True
    then have "pred_descend s p (Suc k) cur = Inr (True, hd ?F)"
      using w by simp
    with True hd show ?thesis by (intro exI [of _ True] exI [of _ "hd ?F"]) simp
  next
    case False
    have "pred_descend s p (Suc k) cur = pred_descend s p k (left_at s h pre k)"
      using w False v(2) by auto
    moreover have "\<forall>a \<in> set post. dir_at p s a < 0" if "k = 0"
    proof (cases post)
      case (Cons a xs)
      have "?F = post"
        using sl_inv_node(2) [OF inv] that by (auto simp: filter_id_conv)
      then have "dir_at p s a < 0"
        using False post Cons by fastforce
      with falls_after(2) [of "dir_at p s" pre a xs] falls Cons show ?thesis by auto
    qed simp
    ultimately show ?thesis
      using Suc.IH [OF _ refl] Suc.prems(1) by (cases k) auto
  qed
qed

lemma falls_parts:
  assumes "falls d as"
  shows "\<exists>pre post. as = pre @ post \<and> (\<forall>a \<in> set pre. 0 < d a) \<and> (\<forall>a \<in> set post. d a \<le> 0)"
proof (intro exI conjI)
  let ?post = "dropWhile (\<lambda>a. 0 < d a) as"
  show "as = takeWhile (\<lambda>a. 0 < d a) as @ ?post" by simp
  show "\<forall>a \<in> set (takeWhile (\<lambda>a. 0 < d a) as). 0 < d a" by (auto dest: set_takeWhileD)
  show "\<forall>a \<in> set ?post. d a \<le> 0"
  proof (cases ?post)
    case (Cons c xs)
    then have "\<not> 0 < d c" by (metis dropWhile_eq_Cons_conv)
    moreover have "falls d (takeWhile (\<lambda>a. 0 < d a) as @ c # xs)"
      using assms Cons takeWhile_dropWhile_id [of "\<lambda>a. 0 < d a" as] by simp
    ultimately show ?thesis
      unfolding Cons using falls_after [of d _ c xs] by fastforce
  next
    case Nil
    then show ?thesis by (simp only: list.set ball_empty)
  qed
qed

lemma predicate_range_repr:
  assumes "sl_repr s es" and fall: "falling es p"
  shows "\<exists>r. SkipList_iters_monotony_predicate s p = Inr r \<and>
    (case r of
       None \<Rightarrow> filter (\<lambda>e. p (ekey e) = 0) es = []
     | Some (first, stop) \<Rightarrow> filter (\<lambda>e. p (ekey e) = 0) es \<noteq> [] \<and>
         iter_range s first stop (filter (\<lambda>e. p (ekey e) = 0) es))"
proof -
  obtain as h where as: "sl_inv s as h" "es = map (sl_entry s) as"
    using assms by (auto simp: sl_repr_def)
  have falls: "falls (dir_at p s) as"
    using fall unfolding falling_def falls_def sorted_wrt_iff_nth_less
    by (simp add: as(2) sl_entry_def Let_def)
  have key: "filter (\<lambda>e. p (ekey e) = 0) es = map (sl_entry s) (filter (\<lambda>a. dir_at p s a = 0) as)"
    by (simp add: as(2) filter_map comp_def sl_entry_def Let_def)
  obtain pre post where pp: "as = pre @ post" "\<forall>a \<in> set pre. 0 < dir_at p s a" "\<forall>a \<in> set post. dir_at p s a \<le> 0"
    using falls_parts [OF falls] by blast
  have inv: "sl_inv s (pre @ post) h" using as(1) pp(1) by simp
  note lv = sl_inv_levels [OF inv]
  obtain found c where pd: "pred_descend s p (current_level s) (sl_head s) = Inr (found, c)"
    "found \<longrightarrow> c \<in> set post \<and> dir_at p s c = 0"
    "\<not> found \<and> 0 < current_level s \<longrightarrow> (\<forall>a \<in> set post. dir_at p s a < 0)"
    using pred_descend_inv [OF inv pp(2,3) _ _ left_at_top [OF inv order_refl, symmetric]] falls pp(1) lv by auto
  show ?thesis
  proof (cases found)
    case False
    then have "filter (\<lambda>a. dir_at p s a = 0) as = []"
      using pd(3) pp lv by (fastforce simp: filter_empty_conv)
    with False pd(1) key show ?thesis
      by (simp add: SkipList_iters_monotony_predicate_def)
  next
    case True
    then obtain u v where uv: "as = u @ c # v"
      using pd(2) pp(1) split_list [of c as] by auto
    have c: "dir_at p s c = 0" "node_ok s h c"
      using pd(2) True sl_inv_node(5) [OF as(1), of c] uv by auto
    then have lvc: "0 < fst (levels_of s c)" "length (forward (sl_nodes s ! c)) = fst (levels_of s c)"
      "length (backward (sl_nodes s ! c)) = fst (levels_of s c)" "c < length (sl_nodes s)"
      by (auto simp: node_ok_def levels_of_def)
    obtain pf f sf where f: "as = pf @ f # sf" "back_descend s p (fst (levels_of s c)) c = Inr f" "dir_at p s f = 0"
      "\<forall>a \<in> set pf. 0 < dir_at p s a"
      using back_descend_inv [OF as(1) falls uv order_refl c(1)] lvc(1) by blast
    obtain pl l sl where l: "as = pl @ l # sl" "fore_descend s p (fst (levels_of s c)) c = Inr l" "dir_at p s l = 0"
      "\<forall>a \<in> set sl. dir_at p s a < 0"
      using fore_descend_inv [OF as(1) falls uv order_refl c(1)] lvc(1) by blast
    have nxt: "fwd s l 0 = Inr (first_of sl)"
      using chain_first [OF chain_suffix] sl_inv_bottom [OF as(1)] l(1) by metis
    have le: "f # sf = filter (\<lambda>a. dir_at p s a \<le> 0) as"
    proof -
      have "\<forall>a \<in> set (f # sf). dir_at p s a \<le> 0"
        using falls_after(1) [of "dir_at p s" pf f sf] falls f(1,3) by auto
      moreover have "filter (\<lambda>a. dir_at p s a \<le> 0) pf = []" using f(4) by (auto simp: filter_empty_conv)
      ultimately show ?thesis using f(1) by (simp add: filter_id_conv)
    qed
    have lt: "sl = filter (\<lambda>a. dir_at p s a < 0) as"
    proof -
      have "filter (\<lambda>a. dir_at p s a < 0) pl = []"
        using falls_before(1) [of "dir_at p s" pl l sl] falls l(1,3) by (fastforce simp: filter_empty_conv)
      moreover have "filter (\<lambda>a. dir_at p s a < 0) sl = sl" using l(4) by (auto simp: filter_id_conv)
      ultimately show ?thesis using l(1,3) by simp
    qed
    have split: "f # sf = filter (\<lambda>a. dir_at p s a = 0) as @ sl"
      using falls_split [OF falls] le lt by simp
    have "SkipList_iters_monotony_predicate s p = Inr (Some (Some f, first_of sl))"
      using True pd(1) f(2) l(2) nxt lvc
      by (simp add: SkipList_iters_monotony_predicate_def node_at_def SkipListIterator_incr_def)
    moreover have "iter_range s (Some f) (first_of sl) (map (sl_entry s) (filter (\<lambda>a. dir_at p s a = 0) as))"
    proof (rule iter_rangeI [OF _ _ refl refl])
      show "sl_inv s (pf @ filter (\<lambda>a. dir_at p s a = 0) as @ sl) h" by (fold split f(1)) (rule as(1))
      show "Some f = first_of (filter (\<lambda>a. dir_at p s a = 0) as @ sl)" by (fold split) simp
    qed
    moreover have "l \<in> set as" using l(1) by simp
    then have "filter (\<lambda>a. dir_at p s a = 0) as \<noteq> []"
      using l(3) by (auto simp: filter_empty_conv)
    ultimately show ?thesis
      using key by simp
  qed
qed

section \<open>The iterator delivers the rest of the list\<close>

definition SkipListIterator_inv :: "skiplist \<times> sl_iter \<Rightarrow> bool" where
  "SkipListIterator_inv x \<longleftrightarrow>
     (\<exists>pre post h. sl_inv (fst x) (pre @ post) h \<and> snd x = first_of post)"

definition SkipListIterator_rest :: "skiplist \<times> sl_iter \<Rightarrow> (string \<times> string) list" where
  "SkipListIterator_rest x =
     (case entries_from (fst x) (snd x) of Inl _ \<Rightarrow> [] | Inr es \<Rightarrow> map (\<lambda>e. (ekey e, evalue e)) es)"

definition SkipListIterator_at_end :: "skiplist \<times> sl_iter \<Rightarrow> bool result" where
  "SkipListIterator_at_end x = Inr (SkipListIterator_is_end (snd x))"

definition SkipListIterator_read :: "skiplist \<times> sl_iter \<Rightarrow> ((string \<times> string) \<times> (skiplist \<times> sl_iter)) result" where
  "SkipListIterator_read x = bindE (SkipListIterator_deref (fst x) (snd x)) (\<lambda>kv. Inr (kv, x))"

definition SkipListIterator_next :: "skiplist \<times> sl_iter \<Rightarrow> (skiplist \<times> sl_iter) result" where
  "SkipListIterator_next x = bindE (SkipListIterator_incr (fst x) (snd x)) (\<lambda>it. Inr (fst x, it))"

lemma SkipListIterator_rest_suffix:
  assumes "sl_inv s (pre @ post) h"
  shows "SkipListIterator_rest (s, first_of post) = map (\<lambda>a. (nkey (sl_nodes s ! a), nvalue (sl_nodes s ! a))) post"
  using entries_from_suffix [OF assms] by (simp add: SkipListIterator_rest_def comp_def sl_entry_def Let_def)

interpretation sli: list_iterator SkipListIterator_inv SkipListIterator_rest
  SkipListIterator_at_end SkipListIterator_read SkipListIterator_next
proof
  fix x
  assume "SkipListIterator_inv x"
  then obtain s pre post h where inv: "sl_inv s (pre @ post) h" and x: "x = (s, first_of post)"
    by (cases x) (auto simp: SkipListIterator_inv_def)
  note rest = SkipListIterator_rest_suffix [OF inv]
  show "SkipListIterator_at_end x = Inr (SkipListIterator_rest x = [])"
    unfolding x rest by (cases post) (simp_all add: SkipListIterator_at_end_def SkipListIterator_is_end_def)
  assume "SkipListIterator_rest x \<noteq> []"
  then obtain a xs where post: "post = a # xs"
    unfolding x rest by (cases post) auto
  have a: "a < length (sl_nodes s)"
    using sl_inv_nodes [OF inv] post by simp
  have "SkipListIterator_read x = Inr (hd (SkipListIterator_rest x), x)"
    using a rest post by (simp add: x SkipListIterator_read_def SkipListIterator_deref_def node_at_def)
  then show "\<exists>x'. SkipListIterator_read x = Inr (hd (SkipListIterator_rest x), x') \<and>
      SkipListIterator_inv x' \<and> SkipListIterator_rest x' = SkipListIterator_rest x"
    using \<open>SkipListIterator_inv x\<close> by blast
  have inv': "sl_inv s ((pre @ [a]) @ xs) h"
    using inv post by simp
  have "fwd s a 0 = Inr (first_of xs)"
    using sl_inv_bottom [OF inv] post chain_first [OF chain_suffix] by blast
  then have "SkipListIterator_next x = Inr (s, first_of xs)"
    by (simp add: x post SkipListIterator_next_def SkipListIterator_incr_def)
  moreover have "SkipListIterator_inv (s, first_of xs)"
    unfolding SkipListIterator_inv_def using inv' by (metis fst_conv snd_conv)
  moreover have "SkipListIterator_rest (s, first_of xs) = tl (SkipListIterator_rest x)"
    using SkipListIterator_rest_suffix [OF inv'] rest post by (simp add: x)
  ultimately show "\<exists>x'. SkipListIterator_next x = Inr x' \<and> SkipListIterator_inv x' \<and>
      SkipListIterator_rest x' = tl (SkipListIterator_rest x)"
    by blast
qed

lemma begin_repr:
  assumes "sl_repr s es"
  shows "\<exists>it. SkipList_begin s = Inr it \<and> SkipListIterator_inv (s, it) \<and>
    SkipListIterator_rest (s, it) = map (\<lambda>e. (ekey e, evalue e)) es \<and> entries_from s it = Inr es"
proof -
  obtain as h where as: "sl_inv s ([] @ as) h" "es = map (sl_entry s) as"
    using assms by (auto simp: sl_repr_def)
  have "SkipList_begin s = Inr (first_of as)"
    using chain_first [OF sl_inv_bottom [OF as(1)]] by (simp add: SkipList_begin_def)
  moreover have "SkipListIterator_inv (s, first_of as)"
    unfolding SkipListIterator_inv_def using as(1) by (metis fst_conv snd_conv)
  ultimately show ?thesis
    using entries_from_suffix [OF as(1)] as(2) by (simp add: SkipListIterator_rest_def)
qed

section \<open>The properties\<close>

text \<open>
  C9: for every outcome of the coin flips and every set of random bits, inserting a version into a
  well-formed skip list succeeds and leaves a well-formed skip list that holds exactly the sorted
  list of versions with the new one put in its place (or with its value replaced when the same key and
  transaction id are there already); a flush then yields that list, strictly sorted by key and by
  descending transaction id, and the size counter is the number of bytes it takes, modulo \<open>2 ^ 64\<close>.
\<close>

theorem skiplist_put_correct:
  assumes "sl_repr s es"
  shows "\<exists>s'. SkipList_put coins random_bits key val tid s = Inr s' \<and>
    sl_repr s' (put_entry \<lparr>ekey = key, evalue = val, etranc = tid\<rparr> es) \<and>
    SkipList_flush s' = Inr (put_entry \<lparr>ekey = key, evalue = val, etranc = tid\<rparr> es) \<and>
    sorted_wrt (\<lambda>x y. node_less (version x) (version y)) (put_entry \<lparr>ekey = key, evalue = val, etranc = tid\<rparr> es) \<and>
    SkipList_get_size s' =
      of_nat (sum_list (map entry_bytes_used (put_entry \<lparr>ekey = key, evalue = val, etranc = tid\<rparr> es)))"
proof -
  obtain s' where s': "SkipList_put coins random_bits key val tid s = Inr s'"
    "sl_repr s' (put_entry \<lparr>ekey = key, evalue = val, etranc = tid\<rparr> es)"
    using put_repr [OF assms] by blast
  with flush_repr [OF s'(2)] sl_repr_sorted(1,3) [OF s'(2)] show ?thesis
    by (intro exI [of _ s'] conjI) (simp_all add: SkipList_get_size_def)
qed

theorem skiplist_put_correct_witness:
  "\<exists>s'. SkipList_put (\<lambda>_. True) 5 ''k'' ''v'' 3 (SkipList_new 4) = Inr s' \<and>
     SkipList_flush s' = Inr [\<lparr>ekey = ''k'', evalue = ''v'', etranc = 3\<rparr>] \<and> SkipList_get_size s' = 10"
  using skiplist_put_correct [OF new_repr, of 4 "\<lambda>_. True" 5 "''k''" "''v''" 3]
  by (auto simp: entry_bytes_used_def)

text \<open>
  C10: looking up a key finds the newest version of it that the reading transaction may see (transaction
  id 0 sees every version), and nothing when there is none.
\<close>

theorem skiplist_get_correct:
  assumes "sl_repr s es"
  shows "\<exists>it. SkipList_get s key tid = Inr it \<and>
    read_iter s it = Inr (find (\<lambda>e. ekey e = key \<and> visible tid e) es)"
  using get_repr [OF assms] .

theorem skiplist_get_correct_witness:
  "\<exists>it. SkipList_get (SkipList_new 4) ''k'' 3 = Inr it \<and> read_iter (SkipList_new 4) it = Inr None"
  using skiplist_get_correct [OF new_repr, of 4 "''k''" 3] by simp

text \<open>
  The iterators that \<^verbatim>\<open>begin_preffix\<close> and \<^verbatim>\<open>end_preffix\<close> return enclose exactly the versions whose
  key starts with the prefix, in their order.
\<close>

theorem skiplist_prefix_range:
  assumes "sl_repr s es"
  shows "\<exists>first last rest. SkipList_begin_preffix s p = Inr first \<and> SkipList_end_preffix s p = Inr last \<and>
    entries_from s first = Inr (filter (\<lambda>e. take (length p) (ekey e) = p) es @ rest) \<and>
    entries_from s last = Inr rest"
  using prefix_range_repr [OF assms, of p] iter_range_entries by blast

theorem skiplist_prefix_range_witness:
  "\<exists>first last. SkipList_begin_preffix (SkipList_new 4) ''k'' = Inr first \<and>
     SkipList_end_preffix (SkipList_new 4) ''k'' = Inr last \<and>
     entries_from (SkipList_new 4) first = entries_from (SkipList_new 4) last"
  using skiplist_prefix_range [OF new_repr, of 4 "''k''"] by auto

text \<open>
  C29: for a predicate whose direction never rises along the list, the search for the range of a predicate
  does not raise, answers no range exactly when no key satisfies the predicate, and otherwise returns
  iterators that enclose exactly the versions whose key satisfies it.
\<close>

theorem skiplist_predicate_range:
  assumes "sl_repr s es" and "falling es p"
  shows "\<exists>r. SkipList_iters_monotony_predicate s p = Inr r \<and>
    (case r of
       None \<Rightarrow> filter (\<lambda>e. p (ekey e) = 0) es = []
     | Some (first, stop) \<Rightarrow> \<exists>rest. filter (\<lambda>e. p (ekey e) = 0) es \<noteq> [] \<and>
         entries_from s first = Inr (filter (\<lambda>e. p (ekey e) = 0) es @ rest) \<and> entries_from s stop = Inr rest)"
proof -
  obtain r where r: "SkipList_iters_monotony_predicate s p = Inr r"
    "case r of None \<Rightarrow> filter (\<lambda>e. p (ekey e) = 0) es = []
     | Some (first, stop) \<Rightarrow> filter (\<lambda>e. p (ekey e) = 0) es \<noteq> [] \<and>
         iter_range s first stop (filter (\<lambda>e. p (ekey e) = 0) es)"
    using predicate_range_repr [OF assms] by blast
  then show ?thesis
    using iter_range_entries by (intro exI [of _ r]) (auto split: option.splits)
qed

theorem skiplist_predicate_range_witness:
  "\<exists>s' r. SkipList_put (\<lambda>_. True) 5 ''k'' ''v'' 3 (SkipList_new 4) = Inr s' \<and>
     SkipList_iters_monotony_predicate s' (prefix_direction ''k'') = Inr (Some r)"
proof -
  let ?e = "\<lparr>ekey = ''k'', evalue = ''v'', etranc = 3 :: u64\<rparr>"
  obtain s' where s': "SkipList_put (\<lambda>_. True) 5 ''k'' ''v'' 3 (SkipList_new 4) = Inr s'" "sl_repr s' [?e]"
    using put_repr [OF new_repr, of 4 "\<lambda>_. True" 5 "''k''" "''v''" 3] by auto
  have "falling [?e] (prefix_direction ''k'')"
    by (intro prefix_direction_falling) (simp add: sorted_entries_def)
  from skiplist_predicate_range [OF s'(2) this] s'(1) show ?thesis
    by (auto simp: prefix_direction_zero split: option.splits)
qed

text \<open>
  Reading and advancing an iterator from \<^verbatim>\<open>begin\<close> until it is at its end delivers every version of
  the list once, in order.
\<close>

theorem skiplist_iteration:
  assumes "sl_repr s es"
  shows "\<exists>it. SkipList_begin s = Inr it \<and>
    drain SkipListIterator_at_end SkipListIterator_read SkipListIterator_next (length es) (s, it) =
      Inr (map (\<lambda>e. (ekey e, evalue e)) es)"
proof -
  obtain it where it: "SkipList_begin s = Inr it" "SkipListIterator_inv (s, it)"
    "SkipListIterator_rest (s, it) = map (\<lambda>e. (ekey e, evalue e)) es"
    using begin_repr [OF assms] by blast
  with sli.drain_all [of "(s, it)" "length es"] show ?thesis by simp
qed

theorem skiplist_iteration_witness:
  "\<exists>s' it. SkipList_put (\<lambda>_. True) 5 ''k'' ''v'' 3 (SkipList_new 4) = Inr s' \<and> SkipList_begin s' = Inr it \<and>
     drain SkipListIterator_at_end SkipListIterator_read SkipListIterator_next 1 (s', it) = Inr [(''k'', ''v'')]"
proof -
  obtain s' where s': "SkipList_put (\<lambda>_. True) 5 ''k'' ''v'' 3 (SkipList_new 4) = Inr s'"
    "sl_repr s' [\<lparr>ekey = ''k'', evalue = ''v'', etranc = 3\<rparr>]"
    using put_repr [OF new_repr, of 4 "\<lambda>_. True" 5 "''k''" "''v''" 3] by auto
  from skiplist_iteration [OF s'(2)] s'(1) show ?thesis by simp
qed

end
