(* ===== verification/HeapIterator.thy ===== *)
theory HeapIterator
  imports BlockIterator "HOL-Library.Multiset"
begin

text \<open>
  \<^verbatim>\<open>SearchItem\<close> and \<^verbatim>\<open>HeapIterator\<close> (\<^verbatim>\<open>src/iterator/iterator.cpp\<close>): the iterator over the items of several
  sources, ordered by a \<^verbatim>\<open>std::priority_queue\<close>. A priority queue is the list of its items in the order
  in which it pops them. The standard defines that order only for a comparison that is a strict
  weak order on the items, and leaves the order of equivalent items open; \<open>queue_of\<close> therefore
  answers \<open>Undefined_behaviour\<close> when the comparison does not order the items strictly and totally.
  The comparison \<^verbatim>\<open>operator>\<close> of the code is not a strict order in general; it is one when, for every
  key, items of a larger index do not have a larger transaction id (\<open>coherent\<close>).

  The iterator delivers the first item of every key, without the keys whose first item is a deletion:
  \<open>heap_versions\<close>.
\<close>

section \<open>Items and their order\<close>

record search_item =
  si_key :: string
  si_value :: string
  si_tranc_id :: u64
  si_idx :: int
  si_level :: int

definition SearchItem_less :: "search_item \<Rightarrow> search_item \<Rightarrow> bool" where
  "SearchItem_less a b =
     (if si_key a \<noteq> si_key b then si_key a < si_key b
      else if si_tranc_id b < si_tranc_id a then True
      else if si_level a < si_level b then True
      else si_idx a < si_idx b)"

definition SearchItem_greater :: "search_item \<Rightarrow> search_item \<Rightarrow> bool" where
  "SearchItem_greater a b =
     (if si_key a \<noteq> si_key b then si_key b < si_key a
      else if si_tranc_id a < si_tranc_id b then True
      else if si_level a < si_level b then True
      else si_idx b < si_idx a)"

definition SearchItem_eq :: "search_item \<Rightarrow> search_item \<Rightarrow> bool" where
  "SearchItem_eq a b \<longleftrightarrow> si_idx a = si_idx b \<and> si_key a = si_key b"

section \<open>The priority queue\<close>

definition strictly_ordered :: "search_item list \<Rightarrow> bool" where
  "strictly_ordered xs \<longleftrightarrow>
     distinct xs \<and>
     (\<forall>a \<in> set xs. \<forall>b \<in> set xs. a \<noteq> b \<longrightarrow> SearchItem_greater a b \<noteq> SearchItem_greater b a) \<and>
     (\<forall>a \<in> set xs. \<forall>b \<in> set xs. \<forall>c \<in> set xs.
        SearchItem_greater a b \<and> SearchItem_greater b c \<longrightarrow> SearchItem_greater a c)"

primrec queue_insert :: "search_item \<Rightarrow> search_item list \<Rightarrow> search_item list" where
  "queue_insert x [] = [x]"
| "queue_insert x (y # ys) = (if SearchItem_greater y x then x # y # ys else y # queue_insert x ys)"

definition queue_of :: "search_item list \<Rightarrow> search_item list result" where
  "queue_of xs = (if strictly_ordered xs then Inr (foldr queue_insert xs []) else Inl Undefined_behaviour)"

section \<open>The iterator\<close>

record heap_iter =
  hi_items :: "search_item list"
  hi_max_tranc_id :: u64
  hi_skip_delete :: bool
  hi_keep_all_versions :: bool

definition HeapIterator_default :: "bool \<Rightarrow> bool \<Rightarrow> heap_iter" where
  "HeapIterator_default skip_delete keep =
     \<lparr>hi_items = [], hi_max_tranc_id = 0, hi_skip_delete = skip_delete, hi_keep_all_versions = keep\<rparr>"

definition top_value_legal :: "heap_iter \<Rightarrow> bool" where
  "top_value_legal it =
     (case hi_items it of
        [] \<Rightarrow> True
      | x # _ \<Rightarrow>
          if hi_max_tranc_id it = 0 then (if hi_skip_delete it then si_value x \<noteq> [] else True)
          else if si_tranc_id x \<le> hi_max_tranc_id it
               then (if hi_skip_delete it then si_value x \<noteq> [] else True)
               else False)"

definition heap_skip_by_tranc_id :: "heap_iter \<Rightarrow> heap_iter" where
  "heap_skip_by_tranc_id it =
     (if hi_max_tranc_id it = 0 then it
      else it\<lparr>hi_items := dropWhile (\<lambda>x. hi_max_tranc_id it < si_tranc_id x) (hi_items it)\<rparr>)"

function skip_deleted :: "bool \<Rightarrow> search_item list \<Rightarrow> search_item list" where
  "skip_deleted keep [] = []"
| "skip_deleted keep (x # items) =
     (if si_value x = [] then
        skip_deleted keep (if keep then items else dropWhile (\<lambda>y. si_key y = si_key x) items)
      else x # items)"
  by pat_completeness auto
termination
  by (relation "measure (\<lambda>(k, q). length q)") (auto simp: le_imp_less_Suc length_dropWhile_le)

text \<open>The body of the loop \<^verbatim>\<open>while (!top_value_legal())\<close> that the constructor and \<^verbatim>\<open>operator++\<close> share.\<close>

definition skip_round :: "heap_iter \<Rightarrow> heap_iter" where
  "skip_round it =
     (let it = heap_skip_by_tranc_id it in
      if \<not> hi_skip_delete it then it
      else it\<lparr>hi_items := skip_deleted (hi_keep_all_versions it) (hi_items it)\<rparr>)"

lemma length_skip_deleted: "length (skip_deleted keep q) \<le> length q"
proof (induction keep q rule: skip_deleted.induct)
  case (2 keep x items)
  have "length (dropWhile (\<lambda>y. si_key y = si_key x) items) \<le> length items"
    by (rule length_dropWhile_le)
  with 2 show ?case by auto
qed simp

lemma skip_round_shrinks:
  assumes "\<not> top_value_legal it"
  shows "length (hi_items (skip_round it)) < length (hi_items it)"
proof -
  obtain x xs where q: "hi_items it = x # xs"
    using assms by (cases "hi_items it") (auto simp: top_value_legal_def)
  have dw: "length (dropWhile P xs) \<le> length xs" for P :: "search_item \<Rightarrow> bool"
    by (rule length_dropWhile_le)
  show ?thesis
  proof (cases "hi_max_tranc_id it \<noteq> 0 \<and> hi_max_tranc_id it < si_tranc_id x")
    case True
    then show ?thesis
      using q dw order_trans [OF length_skip_deleted dw]
      by (auto simp: skip_round_def heap_skip_by_tranc_id_def Let_def le_imp_less_Suc)
  next
    case False
    then have "hi_skip_delete it" "si_value x = []" "hi_items (heap_skip_by_tranc_id it) = x # xs"
      using assms q by (auto simp: top_value_legal_def heap_skip_by_tranc_id_def split: if_splits)
    moreover have "hi_skip_delete (heap_skip_by_tranc_id it) = hi_skip_delete it"
      by (simp add: heap_skip_by_tranc_id_def)
    ultimately show ?thesis
      using q order_trans [OF length_skip_deleted dw] length_skip_deleted
      by (auto simp: skip_round_def Let_def le_imp_less_Suc)
  qed
qed

function skip_loop :: "heap_iter \<Rightarrow> heap_iter" where
  "skip_loop it = (if top_value_legal it then it else skip_loop (skip_round it))"
  by pat_completeness auto
termination
  by (relation "measure (\<lambda>it. length (hi_items it))") (auto simp: skip_round_shrinks)

definition HeapIterator_new :: "search_item list \<Rightarrow> u64 \<Rightarrow> bool \<Rightarrow> bool \<Rightarrow> heap_iter result" where
  "HeapIterator_new item_vec max_tranc_id skip_delete keep =
     bindE (queue_of item_vec) (\<lambda>q.
       Inr (skip_loop \<lparr>hi_items = q, hi_max_tranc_id = max_tranc_id, hi_skip_delete = skip_delete,
                       hi_keep_all_versions = keep\<rparr>))"

definition HeapIterator_deref :: "heap_iter \<Rightarrow> (string \<times> string) result" where
  "HeapIterator_deref it =
     (case hi_items it of [] \<Rightarrow> Inl Undefined_behaviour | x # _ \<Rightarrow> Inr (si_key x, si_value x))"

definition HeapIterator_incr :: "heap_iter \<Rightarrow> heap_iter" where
  "HeapIterator_incr it =
     (case hi_items it of
        [] \<Rightarrow> it
      | old # items \<Rightarrow>
          skip_loop (it\<lparr>hi_items :=
            if hi_keep_all_versions it then items
            else dropWhile (\<lambda>x. si_key x = si_key old) items\<rparr>))"

definition HeapIterator_eq :: "heap_iter \<Rightarrow> heap_iter \<Rightarrow> bool" where
  "HeapIterator_eq a b =
     (case (hi_items a, hi_items b) of
        ([], []) \<Rightarrow> True
      | (x # _, y # _) \<Rightarrow> si_key x = si_key y \<and> si_value x = si_value y
      | _ \<Rightarrow> False)"

definition HeapIterator_is_end :: "heap_iter \<Rightarrow> bool" where
  "HeapIterator_is_end it \<longleftrightarrow> hi_items it = []"

definition HeapIterator_is_valid :: "heap_iter \<Rightarrow> bool" where
  "HeapIterator_is_valid it \<longleftrightarrow> hi_items it \<noteq> []"

definition HeapIterator_get_tranc_id :: "heap_iter \<Rightarrow> u64" where
  "HeapIterator_get_tranc_id it =
     (case hi_items it of
        x # _ \<Rightarrow> if hi_keep_all_versions it then si_tranc_id x else hi_max_tranc_id it
      | [] \<Rightarrow> hi_max_tranc_id it)"

text \<open>\<^verbatim>\<open>operator->\<close> refreshes the cached pair with the top of the queue and returns a pointer to it.\<close>

definition HeapIterator_arrow :: "heap_iter \<Rightarrow> (string \<times> string) option" where
  "HeapIterator_arrow it = (case hi_items it of [] \<Rightarrow> None | x # _ \<Rightarrow> Some (si_key x, si_value x))"

declare skip_loop.simps [simp del] skip_deleted.simps [simp del]

section \<open>What the iterator delivers\<close>

fun heads :: "('a \<Rightarrow> 'k) \<Rightarrow> 'a list \<Rightarrow> 'a list" where
  "heads f [] = []"
| "heads f (x # xs) = x # heads f (dropWhile (\<lambda>y. f y = f x) xs)"

definition heap_versions :: "bool \<Rightarrow> bool \<Rightarrow> search_item list \<Rightarrow> search_item list" where
  "heap_versions skip keep q =
     (let r = (if keep then q else heads si_key q) in if skip then filter (\<lambda>x. si_value x \<noteq> []) r else r)"

definition item_pair :: "search_item \<Rightarrow> string \<times> string" where
  "item_pair x = (si_key x, si_value x)"

definition item_visible :: "u64 \<Rightarrow> search_item \<Rightarrow> bool" where
  "item_visible tid x \<longleftrightarrow> tid = 0 \<or> si_tranc_id x \<le> tid"

definition heap_inv :: "heap_iter \<Rightarrow> bool" where
  "heap_inv it \<longleftrightarrow> top_value_legal it \<and> (\<forall>x \<in> set (hi_items it). item_visible (hi_max_tranc_id it) x)"

definition heap_rest :: "heap_iter \<Rightarrow> (string \<times> string) list" where
  "heap_rest it = map item_pair (heap_versions (hi_skip_delete it) (hi_keep_all_versions it) (hi_items it))"

lemma set_skip_deleted: "set (skip_deleted keep q) \<subseteq> set q"
proof (induction keep q rule: skip_deleted.induct)
  case (2 keep x items)
  have "set (dropWhile (\<lambda>y. si_key y = si_key x) items) \<subseteq> set items"
    by (auto dest: set_dropWhileD)
  then have "set (skip_deleted keep (if keep then items else dropWhile (\<lambda>y. si_key y = si_key x) items)) \<subseteq> set items"
    if "si_value x = []"
    using subset_trans [OF 2 [OF that]] by simp
  then show ?case by (auto simp: skip_deleted.simps)
qed (simp add: skip_deleted.simps)

lemma skip_deleted_live: "skip_deleted keep q = [] \<or> si_value (hd (skip_deleted keep q)) \<noteq> []"
  by (induction keep q rule: skip_deleted.induct) (simp_all add: skip_deleted.simps)

lemma skip_deleted_legal: "q = [] \<or> si_value (hd q) \<noteq> [] \<Longrightarrow> skip_deleted keep q = q"
  by (cases q) (auto simp: skip_deleted.simps)

lemma heap_versions_skip_deleted: "heap_versions True keep (skip_deleted keep q) = heap_versions True keep q"
  by (induction keep q rule: skip_deleted.induct) (auto simp: skip_deleted.simps heap_versions_def)

text \<open>When every item is visible, the loop over illegal items is the loop over deleted ones.\<close>

lemma skip_loop_visible:
  assumes "\<forall>x \<in> set (hi_items it). item_visible (hi_max_tranc_id it) x"
  shows "skip_loop it =
    (if hi_skip_delete it then it\<lparr>hi_items := skip_deleted (hi_keep_all_versions it) (hi_items it)\<rparr> else it)"
proof -
  have stays: "heap_skip_by_tranc_id it = it"
    using assms by (cases "hi_items it") (auto simp: heap_skip_by_tranc_id_def item_visible_def)
  have legal: "top_value_legal it \<longleftrightarrow> \<not> hi_skip_delete it \<or> hi_items it = [] \<or> si_value (hd (hi_items it)) \<noteq> []"
    using assms by (auto simp: top_value_legal_def item_visible_def split: list.split)
  show ?thesis
  proof (cases "top_value_legal it")
    case True
    then show ?thesis
      using legal skip_deleted_legal by (subst skip_loop.simps) auto
  next
    case False
    let ?it = "it\<lparr>hi_items := skip_deleted (hi_keep_all_versions it) (hi_items it)\<rparr>"
    have "top_value_legal ?it"
    proof (cases "skip_deleted (hi_keep_all_versions it) (hi_items it)")
      case (Cons x q)
      have "x \<in> set (hi_items it)"
        using subsetD [OF set_skip_deleted, of x "hi_keep_all_versions it" "hi_items it"] Cons by simp
      then have "item_visible (hi_max_tranc_id it) x" using assms by blast
      moreover have "si_value x \<noteq> []"
        using skip_deleted_live [of "hi_keep_all_versions it" "hi_items it"] Cons by simp
      ultimately show ?thesis using Cons by (auto simp: top_value_legal_def item_visible_def)
    qed (simp add: top_value_legal_def)
    with False legal stays show ?thesis
      by (subst skip_loop.simps, subst skip_loop.simps) (simp add: skip_round_def)
  qed
qed

lemma skip_loop_inv:
  assumes "\<forall>x \<in> set (hi_items it). item_visible (hi_max_tranc_id it) x"
  shows "heap_inv (skip_loop it)" and "heap_rest (skip_loop it) = heap_rest it"
proof -
  have "set (hi_items (skip_loop it)) \<subseteq> set (hi_items it)"
    using set_skip_deleted by (simp add: skip_loop_visible [OF assms])
  moreover have "top_value_legal (skip_loop it)"
    by (induction it rule: skip_loop.induct) (subst skip_loop.simps, simp)
  moreover have "hi_max_tranc_id (skip_loop it) = hi_max_tranc_id it"
    by (simp add: skip_loop_visible [OF assms])
  ultimately show "heap_inv (skip_loop it)"
    using assms by (auto simp: heap_inv_def)
  show "heap_rest (skip_loop it) = heap_rest it"
    by (simp add: skip_loop_visible [OF assms] heap_rest_def heap_versions_skip_deleted)
qed

definition HeapIterator_at_end :: "heap_iter \<Rightarrow> bool result" where
  "HeapIterator_at_end it = Inr (HeapIterator_is_end it)"

definition HeapIterator_read :: "heap_iter \<Rightarrow> ((string \<times> string) \<times> heap_iter) result" where
  "HeapIterator_read it = bindE (HeapIterator_deref it) (\<lambda>kv. Inr (kv, it))"

definition HeapIterator_next :: "heap_iter \<Rightarrow> heap_iter result" where
  "HeapIterator_next it = Inr (HeapIterator_incr it)"

lemma heap_versions_Cons:
  assumes "skip \<longrightarrow> si_value x \<noteq> []"
  shows "heap_versions skip keep (x # q) =
    x # heap_versions skip keep (if keep then q else dropWhile (\<lambda>y. si_key y = si_key x) q)"
  using assms by (simp add: heap_versions_def Let_def)

lemma heap_inv_Cons:
  assumes "heap_inv it" and "hi_items it = x # q"
  shows "hi_skip_delete it \<longrightarrow> si_value x \<noteq> []"
  using assms by (auto simp: heap_inv_def top_value_legal_def split: if_splits)

interpretation hp: list_iterator heap_inv heap_rest HeapIterator_at_end HeapIterator_read HeapIterator_next
proof
  fix it
  assume inv: "heap_inv it"
  show "HeapIterator_at_end it = Inr (heap_rest it = [])"
    using heap_inv_Cons [OF inv]
    by (cases "hi_items it") (auto simp: HeapIterator_at_end_def HeapIterator_is_end_def heap_rest_def
        heap_versions_Cons heap_versions_def [of _ _ "[]"])
  assume ne: "heap_rest it \<noteq> []"
  then obtain x q where q: "hi_items it = x # q"
    by (cases "hi_items it") (auto simp: heap_rest_def heap_versions_def Let_def split: if_splits)
  note rest = heap_versions_Cons [OF heap_inv_Cons [OF inv q]]
  show "\<exists>it'. HeapIterator_read it = Inr (hd (heap_rest it), it') \<and> heap_inv it' \<and> heap_rest it' = heap_rest it"
    using inv q by (simp add: HeapIterator_read_def HeapIterator_deref_def heap_rest_def rest item_pair_def)
  let ?it = "it\<lparr>hi_items := if hi_keep_all_versions it then q else dropWhile (\<lambda>y. si_key y = si_key x) q\<rparr>"
  have "\<forall>y \<in> set (hi_items ?it). item_visible (hi_max_tranc_id ?it) y"
    using inv q by (auto simp: heap_inv_def dest: set_dropWhileD)
  from skip_loop_inv [OF this]
  show "\<exists>it'. HeapIterator_next it = Inr it' \<and> heap_inv it' \<and> heap_rest it' = tl (heap_rest it)"
    using q by (simp add: HeapIterator_next_def HeapIterator_incr_def) (simp add: heap_rest_def q rest)
qed

section \<open>The order of the queue\<close>

definition item_before :: "search_item \<Rightarrow> search_item \<Rightarrow> bool" where
  "item_before a b \<longleftrightarrow>
     si_key a < si_key b \<or>
     si_key a = si_key b \<and>
       (si_tranc_id b < si_tranc_id a \<or> si_tranc_id a = si_tranc_id b \<and> si_idx a < si_idx b)"

text \<open>
  The items come from numbered sources of one level, each with at most one item per key and transaction
  id, and a source with a larger index does not have newer versions of a key.
\<close>

definition coherent :: "search_item list \<Rightarrow> bool" where
  "coherent xs \<longleftrightarrow>
     distinct (map (\<lambda>x. (si_key x, si_tranc_id x, si_idx x)) xs) \<and>
     (\<forall>a \<in> set xs. \<forall>b \<in> set xs. si_level a = si_level b \<and>
        (si_key a = si_key b \<and> si_idx a < si_idx b \<longrightarrow> si_tranc_id b \<le> si_tranc_id a))"

lemma coherent_greater:
  assumes "coherent xs" and "a \<in> set xs" and "b \<in> set xs"
  shows "SearchItem_greater b a \<longleftrightarrow> item_before a b"
proof -
  have "si_level a = si_level b" "si_key a = si_key b \<and> si_idx a < si_idx b \<Longrightarrow> si_tranc_id b \<le> si_tranc_id a"
    using assms unfolding coherent_def by blast+
  then show ?thesis
    by (auto simp: SearchItem_greater_def item_before_def)
qed

lemma item_before_trans: "item_before a b \<Longrightarrow> item_before b c \<Longrightarrow> item_before a c"
  by (auto simp: item_before_def)

lemma item_before_asym: "item_before a b \<Longrightarrow> \<not> item_before b a"
  by (auto simp: item_before_def)

lemma coherent_total:
  assumes "coherent xs" and "a \<in> set xs" and "b \<in> set xs" and "a \<noteq> b"
  shows "item_before a b \<or> item_before b a"
proof -
  have "inj_on (\<lambda>x. (si_key x, si_tranc_id x, si_idx x)) (set xs)"
    using assms(1) by (simp add: coherent_def distinct_map)
  then have "(si_key a, si_tranc_id a, si_idx a) \<noteq> (si_key b, si_tranc_id b, si_idx b)"
    using assms(2-4) unfolding inj_on_def by blast
  then show ?thesis
    by (auto simp: item_before_def)
qed

lemma coherent_strict: "coherent xs \<Longrightarrow> strictly_ordered xs"
  unfolding strictly_ordered_def
proof (intro conjI ballI impI)
  assume co: "coherent xs"
  then show "distinct xs" by (simp add: coherent_def distinct_map)
  fix a b
  assume ab: "a \<in> set xs" "b \<in> set xs"
  show "SearchItem_greater a b \<noteq> SearchItem_greater b a" if "a \<noteq> b"
    using coherent_total [OF co ab that] item_before_asym coherent_greater [OF co] ab by blast
  fix c
  assume "c \<in> set xs" "SearchItem_greater a b \<and> SearchItem_greater b c"
  then show "SearchItem_greater a c"
    using item_before_trans coherent_greater [OF co] ab by blast
qed

lemma mset_queue_insert: "mset (queue_insert x q) = add_mset x (mset q)"
  by (induction q) simp_all

lemma queue_insert_sorted:
  assumes "sorted_wrt item_before q" and "coherent xs" and "set q \<subseteq> set xs" and "x \<in> set xs" and "x \<notin> set q"
  shows "sorted_wrt item_before (queue_insert x q)"
  using assms(1,3,5)
proof (induction q)
  case (Cons y ys)
  have mem: "set (queue_insert x ys) = insert x (set ys)"
    using arg_cong [OF mset_queue_insert, of set_mset x ys] by simp
  have y: "y \<in> set xs" "y \<noteq> x" using Cons.prems by auto
  show ?case
  proof (cases "item_before x y")
    case True
    then show ?thesis
      using Cons.prems coherent_greater [OF assms(2,4) y(1)] by (auto intro: item_before_trans)
  next
    case False
    then have "item_before y x"
      using coherent_total [OF assms(2,4) y(1)] y(2) by auto
    with False show ?thesis
      using Cons coherent_greater [OF assms(2,4) y(1)] by (simp add: mem)
  qed
qed simp

lemma queue_of_coherent:
  assumes "coherent xs"
  shows "\<exists>q. queue_of xs = Inr q \<and> mset q = mset xs \<and> sorted_wrt item_before q"
proof -
  have "mset (foldr queue_insert ys []) = mset ys" for ys
    by (induction ys) (simp_all add: mset_queue_insert)
  note ms = this
  have "set ys \<subseteq> set xs \<Longrightarrow> distinct ys \<Longrightarrow> sorted_wrt item_before (foldr queue_insert ys [])" for ys
  proof (induction ys)
    case (Cons y ys)
    have "set (foldr queue_insert ys []) = set ys"
      using arg_cong [OF ms, of set_mset ys] by simp
    with Cons queue_insert_sorted [OF _ assms, of "foldr queue_insert ys []" y] show ?case by simp
  qed simp
  moreover have "distinct xs"
    using assms by (simp add: coherent_def distinct_map)
  ultimately show ?thesis
    using coherent_strict [OF assms] ms by (simp add: queue_of_def)
qed

lemma HeapIterator_new_inv:
  assumes "coherent xs" and "\<forall>x \<in> set xs. item_visible tid x"
  shows "\<exists>it q. HeapIterator_new xs tid skip keep = Inr it \<and> heap_inv it \<and>
    mset q = mset xs \<and> sorted_wrt item_before q \<and> heap_rest it = map item_pair (heap_versions skip keep q) \<and>
    hi_keep_all_versions it = keep \<and> hi_max_tranc_id it = tid"
proof -
  obtain q where q: "queue_of xs = Inr q" "mset q = mset xs" "sorted_wrt item_before q"
    using queue_of_coherent [OF assms(1)] by blast
  let ?it = "\<lparr>hi_items = q, hi_max_tranc_id = tid, hi_skip_delete = skip, hi_keep_all_versions = keep\<rparr>"
  have "set q = set xs"
    using arg_cong [OF q(2), of set_mset] by simp
  then have vis: "\<forall>x \<in> set (hi_items ?it). item_visible (hi_max_tranc_id ?it) x"
    using assms(2) by simp
  have "heap_rest ?it = map item_pair (heap_versions skip keep q)"
    by (simp add: heap_rest_def)
  moreover have "hi_keep_all_versions (skip_loop ?it) = keep" "hi_max_tranc_id (skip_loop ?it) = tid"
    by (simp_all add: skip_loop_visible [OF vis])
  ultimately show ?thesis
    using skip_loop_inv [OF vis] q by (intro exI [of _ "skip_loop ?it"] exI [of _ q]) (simp add: HeapIterator_new_def)
qed

text \<open>
  C27: over coherent sources whose items the reader may see, the heap iterator can be built (the comparison
  orders the items), and reading it to its end delivers the pairs of the first item of every key in
  the order of the queue (keys ascending, then newest transaction first), leaving out the keys whose
  first item is a deletion.
\<close>

theorem heap_iteration_correct:
  assumes "coherent xs" and "\<forall>x \<in> set xs. item_visible tid x"
  shows "\<exists>it q. HeapIterator_new xs tid True False = Inr it \<and> mset q = mset xs \<and> sorted_wrt item_before q \<and>
    drain HeapIterator_at_end HeapIterator_read HeapIterator_next (length xs) it =
      Inr (map item_pair (filter (\<lambda>x. si_value x \<noteq> []) (heads si_key q)))"
proof -
  obtain it q where it: "HeapIterator_new xs tid True False = Inr it" "heap_inv it" "mset q = mset xs"
    "sorted_wrt item_before q" "heap_rest it = map item_pair (heap_versions True False q)"
    using HeapIterator_new_inv [OF assms] by blast
  have "length (heads f ys) \<le> length ys" for f :: "search_item \<Rightarrow> string" and ys
    by (induction f ys rule: heads.induct) (auto intro: le_SucI order_trans [OF _ length_dropWhile_le])
  from this [of si_key q] have "length (heap_rest it) \<le> length xs"
    using it(5) mset_eq_length [OF it(3)] order_trans [OF length_filter_le, of "heads si_key q" "length q"]
    by (simp add: heap_versions_def)
  with it hp.drain_all [of it "length xs"] show ?thesis
    by (auto simp: heap_versions_def)
qed

theorem heap_iteration_correct_witness:
  "let a = \<lparr>si_key = ''k'', si_value = ''v2'', si_tranc_id = 5, si_idx = 0, si_level = 0\<rparr>;
       b = \<lparr>si_key = ''k'', si_value = ''v1'', si_tranc_id = 3, si_idx = 1, si_level = 0\<rparr> in
   \<exists>it q. HeapIterator_new [b, a] 0 True False = Inr it \<and> mset q = mset [b, a] \<and> sorted_wrt item_before q \<and>
    drain HeapIterator_at_end HeapIterator_read HeapIterator_next (length [b, a]) it =
      Inr (map item_pair (filter (\<lambda>x. si_value x \<noteq> []) (heads si_key q)))"
  unfolding Let_def
  by (rule heap_iteration_correct) (simp_all add: coherent_def item_visible_def)

text \<open>
  The loop over deleted items does not look at the visibility of the item: when a deleted key is
  followed by a key whose newest version is a deletion the reader must not see, the older visible
  version of that key is lost.
\<close>

theorem heap_hidden_deletion_lost:
  "let a = \<lparr>si_key = ''a'', si_value = '''', si_tranc_id = 1, si_idx = 0, si_level = 0\<rparr>;
       b = \<lparr>si_key = ''b'', si_value = '''', si_tranc_id = 9, si_idx = 0, si_level = 0\<rparr>;
       c = \<lparr>si_key = ''b'', si_value = ''v'', si_tranc_id = 2, si_idx = 0, si_level = 0\<rparr> in
   bindE (HeapIterator_new [a, b, c] 5 True False) HeapIterator_at_end = Inr True \<and>
   bindE (HeapIterator_new [b, c] 5 True False) HeapIterator_deref = Inr (''b'', ''v'')"
  by (simp add: HeapIterator_new_def queue_of_def strictly_ordered_def SearchItem_greater_def
      skip_loop.simps top_value_legal_def skip_round_def heap_skip_by_tranc_id_def skip_deleted.simps
      HeapIterator_at_end_def HeapIterator_is_end_def HeapIterator_deref_def)

end
