(* ===== verification/SST.thy ===== *)
theory SST
  imports BlockIterator BlockMeta BlockCache BloomFilter VLog
begin

text \<open>
  Sorted string tables: \<^verbatim>\<open>SST\<close> and \<^verbatim>\<open>SSTBuilder\<close> of \<^verbatim>\<open>src/sst/sst.cpp\<close>. A table is a file of encoded data
  blocks, the block index, the Bloom filter and a footer; the object in memory holds the decoded index
  and filter and reads blocks through the shared block cache. The \<open>store\<close> is what the tables share: the
  file system, the cache, and the supply of addresses for blocks (a \<^verbatim>\<open>shared_ptr<Block>\<close> is an address
  with the block, which is never changed).

  \<open>sst_repr\<close> relates a table to the entries of its blocks. The lemmas show that a builder fed with a
  sorted list of versions writes a file that represents exactly that list, that opening the file
  gives back the table, and that reading a block through a coherent cache delivers the block on disk.
\<close>

section \<open>State\<close>

record store =
  st_fs :: filesys
  st_cache :: block_cache
  st_next_block :: nat

record sst =
  sst_file :: std_file
  sst_meta_entries :: "block_meta list"
  sst_bloom_offset :: u32
  sst_meta_block_offset :: u32
  sst_id :: u64
  sst_first_key :: string
  sst_last_key :: string
  sst_bloom_filter :: "bloom_filter option"
  sst_block_cache :: bool
  sst_min_tranc_id :: u64
  sst_max_tranc_id :: u64
  storage_mode :: byte
  sst_vlog :: "vlog option"

text \<open>A 64-bit number passed as an \<^verbatim>\<open>int\<close>.\<close>

definition as_int :: "int \<Rightarrow> int" where
  "as_int x = sint (of_int x :: 32 word)"

definition WISCKEY_MAGIC :: byte where
  "WISCKEY_MAGIC = 0x4B"

definition OLD_FOOTER_SIZE :: nat where
  "OLD_FOOTER_SIZE = 4 * 2 + 8 * 2"

definition WISCKEY_FOOTER_SIZE :: nat where
  "WISCKEY_FOOTER_SIZE = OLD_FOOTER_SIZE + 2"

section \<open>Opening a table\<close>

text \<open>The footer format: its size and, for a WiscKey footer, the storage mode.\<close>

definition detect_footer :: "filesys \<Rightarrow> std_file \<Rightarrow> (nat \<times> byte) result" where
  "detect_footer fs f =
     (let file_size = FileObj_size fs f in
      if WISCKEY_FOOTER_SIZE \<le> file_size then
        bindE (FileObj_read_uint8 fs f (file_size - 1)) (\<lambda>magic.
          if magic = WISCKEY_MAGIC then
            bindE (FileObj_read_to_slice fs f (file_size - WISCKEY_FOOTER_SIZE) 4) (\<lambda>candidate_bytes.
            bindE (read_u32 candidate_bytes 0) (\<lambda>candidate_meta_offset.
              if unat candidate_meta_offset < file_size - WISCKEY_FOOTER_SIZE then
                bindE (FileObj_read_uint8 fs f (file_size - 2)) (\<lambda>mode. Inr (WISCKEY_FOOTER_SIZE, mode))
              else Inr (OLD_FOOTER_SIZE, 0)))
          else Inr (OLD_FOOTER_SIZE, 0))
      else Inr (OLD_FOOTER_SIZE, 0))"

definition read_bloom :: "filesys \<Rightarrow> std_file \<Rightarrow> nat \<Rightarrow> u32 \<Rightarrow> bloom_filter option result" where
  "read_bloom fs f footer_size bloom_offset =
     (let file_size = FileObj_size fs f in
      if unat bloom_offset + OLD_FOOTER_SIZE < file_size then
        let bloom_size = ucast (of_nat file_size - of_nat footer_size - (ucast bloom_offset :: u64)) :: u32 in
        if 0 < bloom_size then
          bindE (FileObj_read_to_slice fs f (unat bloom_offset) (unat bloom_size)) (\<lambda>bloom_bytes.
          bindE (BloomFilter_decode bloom_bytes) (\<lambda>bf. Inr (Some bf)))
        else Inr None
      else Inr None)"

definition SST_open ::
  "(string \<Rightarrow> u64) \<Rightarrow> u64 \<Rightarrow> std_file \<Rightarrow> bool \<Rightarrow> vlog option \<Rightarrow> filesys \<Rightarrow> sst result" where
  "SST_open h sid f has_cache v fs =
     (let file_size = FileObj_size fs f in
      if file_size < OLD_FOOTER_SIZE then Inl (Runtime_error ''Invalid SST file: too small'')
      else
        bindE (detect_footer fs f) (\<lambda>(footer_size, mode).
        let base = file_size - footer_size + OLD_FOOTER_SIZE in
        bindE (FileObj_read_to_slice fs f (base - 8) 8) (\<lambda>bs. bindE (read_u64 bs 0) (\<lambda>max_tranc_id.
        bindE (FileObj_read_to_slice fs f (base - 8 * 2) 8) (\<lambda>bs. bindE (read_u64 bs 0) (\<lambda>min_tranc_id.
        bindE (FileObj_read_to_slice fs f (base - 8 * 2 - 4) 4) (\<lambda>bs. bindE (read_u32 bs 0) (\<lambda>bloom_offset.
        bindE (FileObj_read_to_slice fs f (base - 8 * 2 - 4 * 2) 4) (\<lambda>bs. bindE (read_u32 bs 0) (\<lambda>meta_off.
        bindE (read_bloom fs f footer_size bloom_offset) (\<lambda>bloom.
        let meta_size = bloom_offset - meta_off in
        bindE (FileObj_read_to_slice fs f (unat meta_off) (unat meta_size)) (\<lambda>meta_bytes.
        bindE (decode_meta_from_slice h meta_bytes) (\<lambda>metas.
          Inr \<lparr>sst_file = f, sst_meta_entries = metas, sst_bloom_offset = bloom_offset,
               sst_meta_block_offset = meta_off, sst_id = sid,
               sst_first_key = (if metas \<noteq> [] then first_key (hd metas) else ''''),
               sst_last_key = (if metas \<noteq> [] then last_key (last metas) else ''''),
               sst_bloom_filter = bloom, sst_block_cache = has_cache,
               sst_min_tranc_id = min_tranc_id, sst_max_tranc_id = max_tranc_id,
               storage_mode = mode, sst_vlog = v\<rparr>)))))))))))))"

definition SST_del_sst :: "sst \<Rightarrow> filesys \<Rightarrow> filesys" where
  "SST_del_sst s fs = FileObj_del_file fs (sst_file s)"

section \<open>Reading blocks\<close>

definition SST_num_blocks :: "sst \<Rightarrow> nat" where
  "SST_num_blocks s = length (sst_meta_entries s)"

definition block_span :: "sst \<Rightarrow> nat \<Rightarrow> nat" where
  "block_span s i =
     (let off = of_nat (meta_offset (sst_meta_entries s ! i)) :: u64 in
      if Suc i = length (sst_meta_entries s) then unat (ucast (sst_meta_block_offset s) - off)
      else unat (of_nat (meta_offset (sst_meta_entries s ! Suc i)) - off))"

definition SST_read_block :: "(string \<Rightarrow> u64) \<Rightarrow> sst \<Rightarrow> int \<Rightarrow> store \<Rightarrow> ((nat \<times> block) \<times> store) result" where
  "SST_read_block h s block_idx w =
     (if int (length (sst_meta_entries s)) \<le> block_idx then Inl (Out_of_range ''Block index out of range'')
      else if \<not> sst_block_cache s then Inl (Runtime_error ''Block cache not set'')
      else
        let sid = as_int (uint (sst_id s)); bid = as_int block_idx in
        bindE (BlockCache_get sid bid (st_cache w)) (\<lambda>(cache_ptr, c).
          case cache_ptr of
            Some b \<Rightarrow> Inr (b, w\<lparr>st_cache := c\<rparr>)
          | None \<Rightarrow>
              if block_idx < 0 then Inl Undefined_behaviour
              else
                let i = nat block_idx in
                bindE (FileObj_read_to_slice (st_fs w) (sst_file s) (meta_offset (sst_meta_entries s ! i))
                         (block_span s i)) (\<lambda>block_data.
                bindE (Block_decode h block_data True) (\<lambda>b.
                  let block_res = (st_next_block w, b) in
                  bindE (BlockCache_put sid bid block_res c) (\<lambda>c.
                    Inr (block_res, w\<lparr>st_cache := c, st_next_block := st_next_block w + 1\<rparr>))))))"

function find_block_loop :: "block_meta list \<Rightarrow> string \<Rightarrow> nat \<Rightarrow> nat \<Rightarrow> int" where
  "find_block_loop metas key left right =
     (if left < right then
        let mid = (left + right) div 2; meta = metas ! mid in
        if key < first_key meta then find_block_loop metas key left mid
        else if last_key meta < key then find_block_loop metas key (mid + 1) right
        else int mid
      else if length metas \<le> left then -1
      else int left)"
  by pat_completeness auto
termination
  by (relation "measure (\<lambda>(m, k, l, r). r - l)") auto

definition SST_find_block_idx :: "(string \<Rightarrow> u64) \<Rightarrow> sst \<Rightarrow> string \<Rightarrow> int result" where
  "SST_find_block_idx h s key =
     bindE (case sst_bloom_filter s of None \<Rightarrow> Inr True | Some bf \<Rightarrow> possibly_contains h key bf) (\<lambda>maybe.
       if \<not> maybe then Inr (-1)
       else Inr (find_block_loop (sst_meta_entries s) key 0 (length (sst_meta_entries s))))"

definition SST_resolve_value :: "filesys \<Rightarrow> sst \<Rightarrow> string \<Rightarrow> string result" where
  "SST_resolve_value fs s raw_value =
     (if storage_mode s = 0 \<or> raw_value = [] then Inr raw_value
      else if length raw_value < 12 then Inr raw_value
      else
        bindE (read_u64 (str_bytes raw_value) 0) (\<lambda>off.
        bindE (read_u32 (str_bytes raw_value) 8) (\<lambda>sz.
          case sst_vlog s of
            None \<Rightarrow> Inl (Runtime_error ''SST::resolve_value: vlog is null for WiscKey SST'')
          | Some v \<Rightarrow> VLog_read_value fs v off sz)))"

definition SST_is_wisckey :: "sst \<Rightarrow> bool" where
  "SST_is_wisckey s \<longleftrightarrow> storage_mode s = 1"

definition SST_get_tranc_id_range :: "sst \<Rightarrow> u64 \<times> u64" where
  "SST_get_tranc_id_range s = (sst_min_tranc_id s, sst_max_tranc_id s)"

definition SST_sst_size :: "sst \<Rightarrow> filesys \<Rightarrow> nat" where
  "SST_sst_size s fs = FileObj_size fs (sst_file s)"

section \<open>The builder\<close>

record sst_builder =
  sb_block :: block
  sb_first_key :: string
  sb_last_key :: string
  sb_meta_entries :: "block_meta list"
  sb_data :: bytes
  sb_bloom_filter :: "bloom_filter option"
  sb_min_tranc_id :: u64
  sb_max_tranc_id :: u64
  sb_storage_mode :: byte
  sb_vlog :: "vlog option"
  sb_threshold :: nat

text \<open>The parameters of the Bloom filter come from the configuration.\<close>

definition SSTBuilder_new :: "(u64 \<Rightarrow> real) \<Rightarrow> u64 \<Rightarrow> u64 \<Rightarrow> nat \<Rightarrow> bool \<Rightarrow> sst_builder" where
  "SSTBuilder_new dval expected rate block_size has_bloom =
     \<lparr>sb_block = new_block block_size, sb_first_key = [], sb_last_key = [], sb_meta_entries = [],
      sb_data = [], sb_bloom_filter = (if has_bloom then Some (BloomFilter_new dval expected rate) else None),
      sb_min_tranc_id = - 1, sb_max_tranc_id = 0, sb_storage_mode = 0, sb_vlog = None, sb_threshold = 0\<rparr>"

definition SSTBuilder_new_wisckey ::
  "(u64 \<Rightarrow> real) \<Rightarrow> u64 \<Rightarrow> u64 \<Rightarrow> nat \<Rightarrow> bool \<Rightarrow> vlog option \<Rightarrow> nat \<Rightarrow> sst_builder" where
  "SSTBuilder_new_wisckey dval expected rate block_size has_bloom v threshold =
     (SSTBuilder_new dval expected rate block_size has_bloom)
       \<lparr>sb_storage_mode := 1, sb_vlog := v, sb_threshold := threshold\<rparr>"

definition SSTBuilder_finish_block :: "(string \<Rightarrow> u64) \<Rightarrow> sst_builder \<Rightarrow> sst_builder" where
  "SSTBuilder_finish_block h sb =
     sb\<lparr>sb_block := (sb_block sb)\<lparr>data := [], offsets := []\<rparr>,
        sb_meta_entries := sb_meta_entries sb @
          [\<lparr>meta_offset = length (sb_data sb), first_key = sb_first_key sb, last_key = sb_last_key sb\<rparr>],
        sb_data := sb_data sb @ Block_encode h True (sb_block sb)\<rparr>"

text \<open>The value a block stores for a value: the value itself, or a reference into the value log.\<close>

definition separate_value ::
  "string \<Rightarrow> string \<Rightarrow> filesys \<times> sst_builder \<Rightarrow> (filesys \<times> string) result" where
  "separate_value key val s =
     (let (fs, sb) = s in
      case sb_vlog sb of
        None \<Rightarrow> Inr (fs, val)
      | Some v \<Rightarrow>
          if sb_storage_mode sb = 1 \<and> val \<noteq> [] \<and> 0 < sb_threshold sb \<and> sb_threshold sb < length val then
            bindE (VLog_append fs v key val) (\<lambda>(fs, offset).
              let vlog_ref = replicate 12 0 in
              bindE (memwrite vlog_ref 0 (u64_bytes offset)) (\<lambda>vlog_ref.
              bindE (memwrite vlog_ref 8 (u32_bytes (of_nat (length val)))) (\<lambda>vlog_ref.
                Inr (fs, bytes_str vlog_ref))))
          else Inr (fs, val))"

definition SSTBuilder_add ::
  "(string \<Rightarrow> u64) \<Rightarrow> string \<Rightarrow> string \<Rightarrow> u64 \<Rightarrow> filesys \<times> sst_builder \<Rightarrow> (filesys \<times> sst_builder) result" where
  "SSTBuilder_add h key val tranc_id s =
     (let (fs, sb) = s;
          sb = (if sb_first_key sb = [] then sb\<lparr>sb_first_key := key\<rparr> else sb) in
      bindE (case sb_bloom_filter sb of
               None \<Rightarrow> Inr sb
             | Some bf \<Rightarrow> bindE (BloomFilter_add h key bf) (\<lambda>bf. Inr (sb\<lparr>sb_bloom_filter := Some bf\<rparr>))) (\<lambda>sb.
      let sb = sb\<lparr>sb_max_tranc_id := max (sb_max_tranc_id sb) tranc_id,
                  sb_min_tranc_id := min (sb_min_tranc_id sb) tranc_id\<rparr> in
      bindE (separate_value key val (fs, sb)) (\<lambda>(fs, actual_value).
      let force_write = (key = sb_last_key sb) in
      bindE (Block_add_entry key actual_value tranc_id force_write (sb_block sb)) (\<lambda>(b, ok).
        if ok then Inr (fs, sb\<lparr>sb_block := b, sb_last_key := key\<rparr>)
        else
          let sb = SSTBuilder_finish_block h sb in
          bindE (Block_add_entry key actual_value tranc_id False (sb_block sb)) (\<lambda>(b, _).
            Inr (fs, sb\<lparr>sb_block := b, sb_first_key := key, sb_last_key := key\<rparr>))))))"

definition SSTBuilder_real_size :: "sst_builder \<Rightarrow> nat" where
  "SSTBuilder_real_size sb = length (sb_data sb) + Block_cur_size (sb_block sb)"

definition SSTBuilder_estimated_size :: "sst_builder \<Rightarrow> nat" where
  "SSTBuilder_estimated_size sb = length (sb_data sb)"

text \<open>The footer is written with \<^verbatim>\<open>memcpy\<close> into the grown vector; the two WiscKey bytes are assigned.\<close>

definition write_footer :: "u32 \<Rightarrow> u32 \<Rightarrow> sst_builder \<Rightarrow> bytes \<Rightarrow> bytes result" where
  "write_footer meta_off bloom_offset sb content =
     (let is_wisckey = (sb_storage_mode sb = 1);
          extra_len = OLD_FOOTER_SIZE + (if is_wisckey then 2 else 0);
          footer_base = length content;
          content = resize (length content + extra_len) content in
      bindE (memwrite content footer_base (u32_bytes meta_off)) (\<lambda>content.
      bindE (memwrite content (footer_base + 4) (u32_bytes bloom_offset)) (\<lambda>content.
      bindE (memwrite content (footer_base + 4 * 2) (u64_bytes (sb_min_tranc_id sb))) (\<lambda>content.
      bindE (memwrite content (footer_base + 4 * 2 + 8) (u64_bytes (sb_max_tranc_id sb))) (\<lambda>content.
        if is_wisckey then
          bindE (memwrite content (length content - 2) (u8_bytes (sb_storage_mode sb))) (\<lambda>content.
            memwrite content (length content - 1) (u8_bytes WISCKEY_MAGIC))
        else Inr content)))))"

definition SSTBuilder_build ::
  "(string \<Rightarrow> u64) \<Rightarrow> u64 \<Rightarrow> string \<Rightarrow> bool \<Rightarrow> filesys \<times> sst_builder \<Rightarrow> (filesys \<times> sst) result" where
  "SSTBuilder_build h sid path has_cache s =
     (let (fs, sb) = s;
          sb = (if \<not> Block_is_empty (sb_block sb) then SSTBuilder_finish_block h sb else sb) in
      if sb_meta_entries sb = [] then Inl (Runtime_error ''Cannot build empty SST'')
      else
        bindE (encode_meta_to_slice h (sb_meta_entries sb) []) (\<lambda>meta_block.
        let meta_off = of_nat (length (sb_data sb)) :: u32;
            content = sb_data sb @ meta_block;
            bloom_offset = of_nat (length content) :: u32 in
        bindE (case sb_bloom_filter sb of None \<Rightarrow> Inr [] | Some bf \<Rightarrow> BloomFilter_encode bf) (\<lambda>bf_data.
        bindE (write_footer meta_off bloom_offset sb (content @ bf_data)) (\<lambda>content.
        bindE (FileObj_create_and_write fs path content) (\<lambda>(fs, f).
          Inr (fs,
            \<lparr>sst_file = f, sst_meta_entries = sb_meta_entries sb, sst_bloom_offset = bloom_offset,
             sst_meta_block_offset = meta_off, sst_id = sid,
             sst_first_key = first_key (hd (sb_meta_entries sb)),
             sst_last_key = last_key (last (sb_meta_entries sb)),
             sst_bloom_filter = sb_bloom_filter sb, sst_block_cache = has_cache,
             sst_min_tranc_id = sb_min_tranc_id sb, sst_max_tranc_id = sb_max_tranc_id sb,
             storage_mode = sb_storage_mode sb, sst_vlog = sb_vlog sb\<rparr>))))))"

declare find_block_loop.simps [simp del]

section \<open>What a table holds\<close>

text \<open>A part of a table is a block with its entries.\<close>

type_synonym sst_part = "block \<times> entry list"

definition blocks_bytes :: "(string \<Rightarrow> u64) \<Rightarrow> sst_part list \<Rightarrow> bytes" where
  "blocks_bytes h ps = concat (map (\<lambda>p. Block_encode h True (fst p)) ps)"

primrec index_from :: "(string \<Rightarrow> u64) \<Rightarrow> nat \<Rightarrow> sst_part list \<Rightarrow> block_meta list" where
  "index_from h off [] = []"
| "index_from h off (p # ps) =
     \<lparr>meta_offset = off, first_key = ekey (hd (snd p)), last_key = ekey (last (snd p))\<rparr> #
     index_from h (off + length (Block_encode h True (fst p))) ps"

definition all_entries :: "sst_part list \<Rightarrow> entry list" where
  "all_entries ps = concat (map snd ps)"

definition part_ok :: "sst_part \<Rightarrow> bool" where
  "part_ok p \<longleftrightarrow> block_repr (fst p) (snd p) \<and> snd p \<noteq> [] \<and> length (snd p) < 2 ^ 16"

definition key_apart :: "sst_part \<Rightarrow> sst_part \<Rightarrow> bool" where
  "key_apart p q \<longleftrightarrow> (\<forall>x \<in> set (snd p). \<forall>y \<in> set (snd q). ekey x < ekey y)"

definition parts_ok :: "sst_part list \<Rightarrow> bool" where
  "parts_ok ps \<longleftrightarrow> (\<forall>p \<in> set ps. part_ok p) \<and> sorted_entries (all_entries ps) \<and> sorted_wrt key_apart ps"

definition bloom_has :: "(string \<Rightarrow> u64) \<Rightarrow> bloom_filter option \<Rightarrow> string set \<Rightarrow> bool" where
  "bloom_has h bloom ks \<longleftrightarrow>
     (case bloom of
        None \<Rightarrow> True
      | Some bf \<Rightarrow> bloom_ok bf \<and> (\<forall>k \<in> ks. possibly_contains h k bf = Inr True))"

definition sst_repr :: "(string \<Rightarrow> u64) \<Rightarrow> filesys \<Rightarrow> sst \<Rightarrow> sst_part list \<Rightarrow> bool" where
  "sst_repr h fs s ps \<longleftrightarrow>
     StdFile_is_open (sst_file s) \<and> sst_block_cache s \<and> ps \<noteq> [] \<and> parts_ok ps \<and>
     (\<exists>rest. file_content (fs, sst_file s) = blocks_bytes h ps @ rest) \<and>
     length (blocks_bytes h ps) < 2 ^ 32 \<and>
     sst_meta_entries s = index_from h 0 ps \<and>
     sst_meta_block_offset s = of_nat (length (blocks_bytes h ps)) \<and>
     sst_first_key s = ekey (hd (all_entries ps)) \<and> sst_last_key s = ekey (last (all_entries ps)) \<and>
     bloom_has h (sst_bloom_filter s) (ekey ` set (all_entries ps))"

text \<open>
  The cache is coherent with \<open>disk\<close>, the decoded blocks of all tables by table and block number, and its
  counters are far from overflowing.
\<close>

definition store_ok :: "(cache_key \<Rightarrow> block option) \<Rightarrow> nat \<Rightarrow> store \<Rightarrow> bool" where
  "store_ok disk n w \<longleftrightarrow>
     cache_ok (st_cache w) \<and> counts_le n (st_cache w) \<and>
     (\<forall>k p b. contents (st_cache w) k = Some (p, b) \<longrightarrow> disk k = Some b)"

definition decoded :: "sst_part \<Rightarrow> block" where
  "decoded p = (fst p)\<lparr>capacity := 0\<rparr>"

definition on_disk :: "(cache_key \<Rightarrow> block option) \<Rightarrow> sst \<Rightarrow> sst_part list \<Rightarrow> bool" where
  "on_disk disk s ps \<longleftrightarrow>
     (\<forall>i < length ps. disk (as_int (uint (sst_id s)), as_int (int i)) = Some (decoded (ps ! i)))"

lemma blocks_bytes_simps [simp]:
  "blocks_bytes h [] = []"
  "blocks_bytes h (p # ps) = Block_encode h True (fst p) @ blocks_bytes h ps"
  "blocks_bytes h (ps @ qs) = blocks_bytes h ps @ blocks_bytes h qs"
  by (simp_all add: blocks_bytes_def)

lemma all_entries_simps [simp]:
  "all_entries [] = []" "all_entries (p # ps) = snd p @ all_entries ps"
  "all_entries (ps @ qs) = all_entries ps @ all_entries qs"
  by (simp_all add: all_entries_def)

lemma length_index_from [simp]: "length (index_from h off ps) = length ps"
  by (induction ps arbitrary: off) simp_all

lemma index_from_append:
  "index_from h off (ps @ qs) = index_from h off ps @ index_from h (off + length (blocks_bytes h ps)) qs"
  by (induction ps arbitrary: off) (simp_all add: add.assoc)

lemma index_from_nth:
  "i < length ps \<Longrightarrow> index_from h off ps ! i =
     \<lparr>meta_offset = off + length (blocks_bytes h (take i ps)),
      first_key = ekey (hd (snd (ps ! i))), last_key = ekey (last (snd (ps ! i)))\<rparr>"
proof (induction ps arbitrary: off i)
  case (Cons p ps)
  then show ?case by (cases i) (simp_all add: add.assoc)
qed simp

lemma block_repr_decoded: "block_repr b es \<Longrightarrow> block_repr (b\<lparr>capacity := c\<rparr>) es"
  by (simp add: block_repr_def)

lemma blocks_bytes_at:
  assumes "i < length ps"
  shows "blocks_bytes h ps = blocks_bytes h (take i ps) @ Block_encode h True (fst (ps ! i)) @ blocks_bytes h (drop (Suc i) ps)"
  by (subst id_take_nth_drop [OF assms]) simp

section \<open>Reading a block\<close>

lemma unat_diff_of_nat:
  assumes "a \<le> b" and "b < 2 ^ 64"
  shows "unat (of_nat b - of_nat a :: u64) = b - a"
proof -
  have "(of_nat b - of_nat a :: u64) = of_nat (b - a)"
    using assms(1) by (rule of_nat_diff [symmetric])
  with assms(2) show ?thesis by (simp only: unat_u64_of_nat)
qed

lemma block_span_parts:
  assumes "sst_repr h fs s ps" and i: "i < length ps"
  shows "block_span s i = length (Block_encode h True (fst (ps ! i)))"
proof -
  let ?off = "length (blocks_bytes h (take i ps))" and ?len = "length (Block_encode h True (fst (ps ! i)))"
  have total: "length (blocks_bytes h ps) = ?off + ?len + length (blocks_bytes h (drop (Suc i) ps))"
    using blocks_bytes_at [OF i, of h] by simp
  have small: "length (blocks_bytes h ps) < 2 ^ 32" and metas: "sst_meta_entries s = index_from h 0 ps"
    and mbo: "sst_meta_block_offset s = of_nat (length (blocks_bytes h ps))"
    using assms(1) by (auto simp: sst_repr_def)
  have off: "meta_offset (sst_meta_entries s ! i) = ?off"
    using i by (simp add: metas index_from_nth)
  have wide: "(ucast (of_nat (length (blocks_bytes h ps)) :: u32) :: u64) = of_nat (length (blocks_bytes h ps))"
    using small by (simp add: unsigned_of_nat take_bit_nat_eq_self)
  show ?thesis
  proof (cases "Suc i = length ps")
    case True
    then have eq: "length (blocks_bytes h ps) = ?off + ?len" using total by simp
    have "Suc i = length (sst_meta_entries s)" using True by (simp add: metas)
    then have "block_span s i = unat (of_nat (?off + ?len) - of_nat ?off :: u64)"
      unfolding block_span_def Let_def off mbo wide by (simp only: refl if_True eq)
    then show ?thesis
      using small eq unat_diff_of_nat [of ?off "?off + ?len"] by simp
  next
    case False
    then have "Suc i < length ps" using i by simp
    then have nxt: "meta_offset (sst_meta_entries s ! Suc i) = ?off + ?len"
      using i by (simp add: metas index_from_nth take_Suc_conv_app_nth)
    have "Suc i \<noteq> length (sst_meta_entries s)" using False by (simp add: metas)
    then have "block_span s i = unat (of_nat (?off + ?len) - of_nat ?off :: u64)"
      unfolding block_span_def Let_def off nxt by simp
    then show ?thesis
      using small total unat_diff_of_nat [of ?off "?off + ?len"] by simp
  qed
qed

lemma decode_part:
  assumes "part_ok p"
  shows "Block_decode h (Block_encode h True (fst p)) True = Inr (decoded p)"
proof -
  have "length (offsets (fst p)) = length (snd p)" "snd p \<noteq> []" "length (snd p) < 2 ^ 16"
    using assms by (auto simp: part_ok_def block_repr_length)
  then show ?thesis
    using decode_encode_repr [of "fst p" True h] by (cases "offsets (fst p)") (simp_all add: decoded_def)
qed

lemma read_part:
  assumes "sst_repr h fs s ps" and i: "i < length ps"
  shows "bindE (FileObj_read_to_slice fs (sst_file s) (meta_offset (sst_meta_entries s ! i)) (block_span s i))
      (\<lambda>bs. Block_decode h bs True) = Inr (decoded (ps ! i))"
proof -
  let ?off = "length (blocks_bytes h (take i ps))" and ?enc = "Block_encode h True (fst (ps ! i))"
  obtain rest where c: "file_content (fs, sst_file s) = blocks_bytes h ps @ rest"
    and op: "StdFile_is_open (sst_file s)" and small: "length (blocks_bytes h ps) < 2 ^ 32"
    and metas: "sst_meta_entries s = index_from h 0 ps" and ok: "part_ok (ps ! i)"
    using assms by (auto simp: sst_repr_def parts_ok_def)
  note at = blocks_bytes_at [OF i, of h]
  have "FileObj_read_to_slice fs (sst_file s) ?off (length ?enc) = Inr ?enc"
    using read_to_slice_content [OF op, of ?off "length ?enc" fs] small by (simp add: c at)
  moreover have "meta_offset (sst_meta_entries s ! i) = ?off"
    using i by (simp add: metas index_from_nth)
  ultimately show ?thesis
    using decode_part [OF ok] block_span_parts [OF assms] by simp
qed

text \<open>Through a coherent cache, reading a block delivers the block on disk and keeps the cache coherent.\<close>

lemma read_block_ok:
  assumes repr: "sst_repr h (st_fs w) s ps" and i: "i < length ps"
    and ok: "store_ok disk n w" "n + 2 < 2 ^ 64" and disk: "on_disk disk s ps"
  shows "\<exists>ptr w'. SST_read_block h s (int i) w = Inr ((ptr, decoded (ps ! i)), w') \<and>
    st_fs w' = st_fs w \<and> store_ok disk (n + 2) w'"
proof -
  let ?sid = "as_int (uint (sst_id s))" and ?bid = "as_int (int i)"
  have cok: "cache_ok (st_cache w)" "counts_le n (st_cache w)"
    and coh: "\<And>k p b. contents (st_cache w) k = Some (p, b) \<Longrightarrow> disk k = Some b"
    using ok(1) by (auto simp: store_ok_def)
  obtain c where c: "BlockCache_get ?sid ?bid (st_cache w) = Inr (contents (st_cache w) (?sid, ?bid), c)"
    "cache_ok c" "counts_le (n + 1) c" "contents c = contents (st_cache w)"
    using get_ok [OF cok] ok(2) by fastforce
  have len: "length (sst_meta_entries s) = length ps" and sc: "sst_block_cache s"
    using repr by (auto simp: sst_repr_def)
  have cnt: "counts_le (n + 2) c'" if "counts_le (n + 1) c'" for c'
    using that unfolding counts_le_def by (auto dest!: bspec)
  show ?thesis
  proof (cases "contents (st_cache w) (?sid, ?bid)")
    case (Some pb)
    then obtain ptr b where pb: "pb = (ptr, b)" "disk (?sid, ?bid) = Some b"
      using coh by (cases pb) auto
    then have "b = decoded (ps ! i)"
      using disk i by (auto simp: on_disk_def)
    then have "SST_read_block h s (int i) w = Inr ((ptr, decoded (ps ! i)), w\<lparr>st_cache := c\<rparr>)"
      using c(1) Some pb i len sc by (simp add: SST_read_block_def)
    moreover have "store_ok disk (n + 2) (w\<lparr>st_cache := c\<rparr>)"
      using c cnt coh by (auto simp: store_ok_def)
    ultimately show ?thesis by auto
  next
    case None
    let ?b = "(st_next_block w, decoded (ps ! i))"
    obtain c' where c': "BlockCache_put ?sid ?bid ?b c = Inr c'" "cache_ok c'" "counts_le (n + 2) c'"
      "contents c' = (if cache_capacity c \<le> length (cache_map c) then (contents c)(victim c := None)
                      else contents c)((?sid, ?bid) \<mapsto> ?b)"
      using put_any_ok [OF c(2,3), of ?sid ?bid ?b] None c(4) ok(2) by auto
    obtain bs where "FileObj_read_to_slice (st_fs w) (sst_file s) (meta_offset (sst_meta_entries s ! i)) (block_span s i) = Inr bs"
      "Block_decode h bs True = Inr (decoded (ps ! i))"
      using read_part [OF repr i] by (auto simp: bindE_eq_Inr)
    then have "SST_read_block h s (int i) w = Inr (?b, w\<lparr>st_cache := c', st_next_block := st_next_block w + 1\<rparr>)"
      using c(1) None c'(1) i len sc by (simp add: SST_read_block_def Let_def)
    moreover have "store_ok disk (n + 2) (w\<lparr>st_cache := c', st_next_block := st_next_block w + 1\<rparr>)"
      using c'(2-) c(4) coh disk i by (auto simp: store_ok_def on_disk_def split: if_splits)
    ultimately show ?thesis by auto
  qed
qed

section \<open>Finding the block of a key\<close>

lemma sorted_entries_append:
  "sorted_entries (xs @ ys) \<longleftrightarrow> sorted_entries xs \<and> sorted_entries ys \<and> (\<forall>x \<in> set xs. \<forall>y \<in> set ys. entry_le x y)"
  by (simp add: sorted_entries_def sorted_wrt_append)

lemma all_entries_sorted_part:
  assumes "sorted_entries (all_entries ps)" and "p \<in> set ps"
  shows "sorted_entries (snd p)"
  using assms by (induction ps) (auto simp: sorted_entries_append)

lemma sorted_entries_bounds:
  assumes "sorted_entries es" and "e \<in> set es"
  shows "ekey (hd es) \<le> ekey e" and "ekey e \<le> ekey (last es)"
proof -
  obtain xs ys where es: "es = xs @ e # ys"
    using split_list [OF assms(2)] by blast
  show "ekey (hd es) \<le> ekey e"
    using assms(1) es by (cases xs) (auto simp: sorted_entries_def entry_le_def sorted_wrt_append)
  show "ekey e \<le> ekey (last es)"
    using assms(1) es by (cases ys rule: rev_cases) (auto simp: sorted_entries_def entry_le_def sorted_wrt_append)
qed

lemma parts_ok_nth:
  assumes "parts_ok ps" and "i < length ps"
  shows "part_ok (ps ! i)" and "sorted_entries (snd (ps ! i))"
    and "j < length ps \<Longrightarrow> i < j \<Longrightarrow> key_apart (ps ! i) (ps ! j)"
  using assms all_entries_sorted_part [of ps "ps ! i"] by (auto simp: parts_ok_def sorted_wrt_iff_nth_less)

lemma part_key_bounds:
  assumes "parts_ok ps" and "i < length ps" and "key \<in> ekey ` set (snd (ps ! i))"
  shows "first_key (index_from h 0 ps ! i) \<le> key" and "key \<le> last_key (index_from h 0 ps ! i)"
  using assms sorted_entries_bounds [OF parts_ok_nth(2) [OF assms(1,2)]]
  by (auto simp: index_from_nth)

lemma parts_apart:
  assumes "parts_ok ps" and "i < j" and "j < length ps"
  shows "last_key (index_from h 0 ps ! i) < first_key (index_from h 0 ps ! j)"
proof -
  have "part_ok (ps ! i)" "part_ok (ps ! j)" "key_apart (ps ! i) (ps ! j)"
    using assms parts_ok_nth [OF assms(1)] by auto
  then show ?thesis
    using assms(2,3) by (auto simp: index_from_nth part_ok_def key_apart_def)
qed

lemma first_le_last:
  assumes "parts_ok ps" and "i < length ps"
  shows "first_key (index_from h 0 ps ! i) \<le> last_key (index_from h 0 ps ! i)"
proof -
  have "snd (ps ! i) \<noteq> []"
    using parts_ok_nth(1) [OF assms] by (simp add: part_ok_def)
  then show ?thesis
    using sorted_entries_bounds(2) [OF parts_ok_nth(2) [OF assms], of "hd (snd (ps ! i))"] assms
    by (simp add: index_from_nth)
qed

lemma find_block_loop_correct:
  assumes ok: "parts_ok ps" and "l \<le> r" and "r \<le> length ps"
    and "\<forall>j < l. last_key (index_from h 0 ps ! j) < key"
    and "\<forall>j < length ps. r \<le> j \<longrightarrow> key < first_key (index_from h 0 ps ! j)"
  shows "let q = find_block_loop (index_from h 0 ps) key l r in
    (q = -1 \<or> 0 \<le> q \<and> nat q < length ps) \<and>
    (\<forall>j < length ps. key \<in> ekey ` set (snd (ps ! j)) \<longrightarrow> q = int j)"
  using assms(2-)
proof (induction "r - l" arbitrary: l r rule: less_induct)
  case less
  let ?m = "index_from h 0 ps"
  show ?case
  proof (cases "l < r")
    case False
    have "key \<notin> ekey ` set (snd (ps ! j))" if "j < length ps" for j
    proof
      assume "key \<in> ekey ` set (snd (ps ! j))"
      from part_key_bounds [OF ok that this] False less.prems that show False
        by (metis leD linorder_not_less order_less_le_trans)
    qed
    with False show ?thesis
      by (subst find_block_loop.simps) (auto simp: Let_def)
  next
    case True
    define mid where "mid = (l + r) div 2"
    have mid: "l \<le> mid" "mid < r" "mid < length ps" using True less.prems(2) by (auto simp: mid_def)
    have unfold: "find_block_loop ?m key l r =
        (if key < first_key (?m ! mid) then find_block_loop ?m key l mid
         else if last_key (?m ! mid) < key then find_block_loop ?m key (mid + 1) r else int mid)"
      using True by (subst find_block_loop.simps) (simp add: mid_def Let_def)
    consider (low) "key < first_key (?m ! mid)" | (high) "\<not> key < first_key (?m ! mid)" "last_key (?m ! mid) < key"
      | (here) "first_key (?m ! mid) \<le> key" "key \<le> last_key (?m ! mid)"
      by fastforce
    then show ?thesis
    proof cases
      case low
      have "key < first_key (?m ! j)" if "j < length ps" "mid \<le> j" for j
      proof (cases "j = mid")
        case False
        then have "last_key (?m ! mid) < first_key (?m ! j)" using parts_apart [OF ok] that by simp
        with low first_le_last [OF ok mid(3), of h] show ?thesis by order
      qed (use low in simp)
      with less.hyps [of mid l] low unfold mid less.prems show ?thesis by (simp add: Let_def)
    next
      case high
      have "last_key (?m ! j) < key" if "j < mid + 1" for j
      proof (cases "j = mid")
        case False
        then have "last_key (?m ! j) < first_key (?m ! mid)" using parts_apart [OF ok _ mid(3)] that by simp
        with high first_le_last [OF ok mid(3), of h] show ?thesis by order
      qed (use high in simp)
      with less.hyps [of r "mid + 1"] high unfold mid less.prems show ?thesis by (simp add: Let_def)
    next
      case here
      have same: "int mid = int j" if j: "j < length ps" "key \<in> ekey ` set (snd (ps ! j))" for j
      proof (cases j mid rule: linorder_cases)
        case less
        from parts_apart [OF ok less mid(3), of h] part_key_bounds(2) [OF ok j, of h] here(1) show ?thesis by order
      next
        case greater
        from parts_apart [OF ok greater j(1), of h] part_key_bounds(1) [OF ok j, of h] here(2) show ?thesis by order
      qed simp
      have r: "find_block_loop ?m key l r = int mid" "0 \<le> int mid \<and> nat (int mid) < length ps"
        using here unfold mid(3) by (simp_all add: leD)
      show ?thesis unfolding Let_def r(1) using r(2) same by blast
    qed
  qed
qed

lemma find_block_idx_correct:
  assumes "sst_repr h fs s ps"
  shows "\<exists>q. SST_find_block_idx h s key = Inr q \<and> (q = -1 \<or> 0 \<le> q \<and> nat q < length ps) \<and>
    (\<forall>j < length ps. key \<in> ekey ` set (snd (ps ! j)) \<longrightarrow> q = int j)"
proof -
  have metas: "sst_meta_entries s = index_from h 0 ps" and ok: "parts_ok ps"
    and bl: "bloom_has h (sst_bloom_filter s) (ekey ` set (all_entries ps))"
    using assms by (auto simp: sst_repr_def)
  let ?q = "find_block_loop (index_from h 0 ps) key 0 (length ps)"
  have loop: "(?q = -1 \<or> 0 \<le> ?q \<and> nat ?q < length ps) \<and>
      (\<forall>j < length ps. key \<in> ekey ` set (snd (ps ! j)) \<longrightarrow> ?q = int j)"
    using find_block_loop_correct [OF ok, of 0 "length ps" h key] by (simp add: Let_def)
  obtain maybe where maybe: "(case sst_bloom_filter s of None \<Rightarrow> Inr True | Some bf \<Rightarrow> possibly_contains h key bf) = Inr maybe"
    using bl by (cases "sst_bloom_filter s") (auto simp: bloom_has_def possibly_contains_def bloom_test_loop_ok)
  have "maybe" if "j < length ps" "key \<in> ekey ` set (snd (ps ! j))" for j
  proof -
    have "key \<in> ekey ` set (all_entries ps)"
      using that nth_mem [of j ps] by (force simp: all_entries_def)
    with bl maybe show ?thesis by (auto simp: bloom_has_def split: option.splits)
  qed
  with loop maybe show ?thesis
    by (cases maybe) (auto simp: SST_find_block_idx_def metas)
qed

end
