(* ===== verification/SstIterator.thy ===== *)
theory SstIterator
  imports SST HeapIterator
begin

text \<open>
  Iterators over tables: \<^verbatim>\<open>SstIterator\<close> (\<^verbatim>\<open>src/sst/sst_iterator.cpp\<close>), the operations of \<^verbatim>\<open>SST\<close> that return
  them, and \<^verbatim>\<open>ConcactIterator\<close> (\<^verbatim>\<open>src/sst/concact_iterator.cpp\<close>), which runs over the tables of a level.
  Reading blocks threads the store. An iterator holds its block iterator by value: the code shares
  it between copies of an iterator, but never advances two copies. The exceptions that \<^verbatim>\<open>seek\<close> catches
  leave the store as it was (the request counter of the cache apart).

  A lookup returns the newest visible version of the key; a scan delivers the versions of all blocks,
  as long as every block has a version the reader may see: the iterator stops at a block without one.
\<close>

section \<open>The iterator\<close>

record sst_iter =
  m_sst :: "sst option"
  m_block_idx :: int
  m_block_it :: "block_iter option"
  m_max_tranc_id :: u64
  m_keep_all_versions :: bool
  m_cached_value :: "(string \<times> string) option"

definition SstIterator_empty :: "sst option \<Rightarrow> u64 \<Rightarrow> bool \<Rightarrow> sst_iter" where
  "SstIterator_empty s tid keep =
     \<lparr>m_sst = s, m_block_idx = 0, m_block_it = None, m_max_tranc_id = tid, m_keep_all_versions = keep,
      m_cached_value = None\<rparr>"

definition SstIterator_seek_first :: "(string \<Rightarrow> u64) \<Rightarrow> sst_iter \<Rightarrow> store \<Rightarrow> (sst_iter \<times> store) result" where
  "SstIterator_seek_first h it w =
     (case m_sst it of
        None \<Rightarrow> Inr (it\<lparr>m_block_it := None\<rparr>, w)
      | Some s \<Rightarrow>
          if SST_num_blocks s = 0 then Inr (it\<lparr>m_block_it := None\<rparr>, w)
          else
            bindE (SST_read_block h s 0 w) (\<lambda>(b, w).
            bindE (BlockIterator_new b 0 (m_max_tranc_id it) (m_keep_all_versions it)) (\<lambda>bi.
              Inr (it\<lparr>m_block_idx := 0, m_block_it := Some bi\<rparr>, w))))"

definition SstIterator_new ::
  "(string \<Rightarrow> u64) \<Rightarrow> sst option \<Rightarrow> u64 \<Rightarrow> bool \<Rightarrow> store \<Rightarrow> (sst_iter \<times> store) result" where
  "SstIterator_new h s tid keep w =
     (if s = None then Inr (SstIterator_empty s tid keep, w)
      else SstIterator_seek_first h (SstIterator_empty s tid keep) w)"

text \<open>\<^verbatim>\<open>catch (const std::exception &)\<close>: undefined behaviour is not an exception.\<close>

definition catchE :: "'a result \<Rightarrow> 'a \<Rightarrow> 'a result" where
  "catchE m x =
     (case m of
        Inr y \<Rightarrow> Inr y
      | Inl Undefined_behaviour \<Rightarrow> Inl Undefined_behaviour
      | Inl No_return \<Rightarrow> Inl No_return
      | Inl _ \<Rightarrow> Inr x)"

definition SstIterator_seek_block ::
  "(string \<Rightarrow> u64) \<Rightarrow> sst \<Rightarrow> string \<Rightarrow> sst_iter \<Rightarrow> store \<Rightarrow> (sst_iter \<times> store) result" where
  "SstIterator_seek_block h s key it w =
     bindE (SST_read_block h s (m_block_idx it) w) (\<lambda>(b, w).
     bindE (BlockIterator_new_key b key (m_max_tranc_id it) (m_keep_all_versions it)) (\<lambda>bi.
     bindE (BlockIterator_is_end bi) (\<lambda>e.
       if e then Inr (it\<lparr>m_block_idx := int (SST_num_blocks s), m_block_it := None\<rparr>, w)
       else Inr (it\<lparr>m_block_it := Some bi\<rparr>, w))))"

definition SstIterator_seek :: "(string \<Rightarrow> u64) \<Rightarrow> string \<Rightarrow> sst_iter \<Rightarrow> store \<Rightarrow> (sst_iter \<times> store) result" where
  "SstIterator_seek h key it w =
     (case m_sst it of
        None \<Rightarrow> Inr (it\<lparr>m_block_it := None\<rparr>, w)
      | Some s \<Rightarrow>
          catchE (bindE (SST_find_block_idx h s key) (\<lambda>idx.
              let it = it\<lparr>m_block_idx := idx\<rparr> in
              if idx = -1 \<or> int (SST_num_blocks s) \<le> idx
              then Inr (it\<lparr>m_block_it := None, m_block_idx := int (SST_num_blocks s)\<rparr>, w)
              else catchE (SstIterator_seek_block h s key it w) (it\<lparr>m_block_it := None\<rparr>, w)))
            (it\<lparr>m_block_it := None\<rparr>, w))"

definition SstIterator_new_key ::
  "(string \<Rightarrow> u64) \<Rightarrow> sst option \<Rightarrow> string \<Rightarrow> u64 \<Rightarrow> bool \<Rightarrow> store \<Rightarrow> (sst_iter \<times> store) result" where
  "SstIterator_new_key h s key tid keep w =
     (if s = None then Inr (SstIterator_empty s tid keep, w)
      else SstIterator_seek h key (SstIterator_empty s tid keep) w)"

definition invalid_iterator :: "'a result" where
  "invalid_iterator = Inl (Runtime_error ''Iterator is invalid'')"

definition SstIterator_deref :: "sst_iter \<Rightarrow> store \<Rightarrow> ((string \<times> string) \<times> sst_iter) result" where
  "SstIterator_deref it w =
     (case (m_block_it it, m_sst it) of
        (None, _) \<Rightarrow> invalid_iterator
      | (Some bi, None) \<Rightarrow> Inl Undefined_behaviour
      | (Some bi, Some s) \<Rightarrow>
          bindE (BlockIterator_deref bi) (\<lambda>(raw, bi).
          bindE (SST_resolve_value (st_fs w) s (snd raw)) (\<lambda>v.
            Inr ((fst raw, v), it\<lparr>m_block_it := Some bi\<rparr>))))"

definition SstIterator_key :: "sst_iter \<Rightarrow> (string \<times> sst_iter) result" where
  "SstIterator_key it =
     (case m_block_it it of
        None \<Rightarrow> invalid_iterator
      | Some bi \<Rightarrow> bindE (BlockIterator_arrow bi) (\<lambda>(kv, bi). Inr (fst kv, it\<lparr>m_block_it := Some bi\<rparr>)))"

definition SstIterator_value :: "sst_iter \<Rightarrow> store \<Rightarrow> (string \<times> sst_iter) result" where
  "SstIterator_value it w =
     (case (m_block_it it, m_sst it) of
        (None, _) \<Rightarrow> invalid_iterator
      | (Some bi, None) \<Rightarrow> Inl Undefined_behaviour
      | (Some bi, Some s) \<Rightarrow>
          bindE (BlockIterator_arrow bi) (\<lambda>(kv, bi).
          bindE (SST_resolve_value (st_fs w) s (snd kv)) (\<lambda>v. Inr (v, it\<lparr>m_block_it := Some bi\<rparr>))))"

definition SstIterator_incr :: "(string \<Rightarrow> u64) \<Rightarrow> sst_iter \<Rightarrow> store \<Rightarrow> (sst_iter \<times> store) result" where
  "SstIterator_incr h it w =
     (case m_block_it it of
        None \<Rightarrow> Inr (it, w)
      | Some bi \<Rightarrow>
          bindE (BlockIterator_incr bi) (\<lambda>bi.
          bindE (BlockIterator_is_end bi) (\<lambda>e.
            if e then
              let idx = m_block_idx it + 1 in
              case m_sst it of
                None \<Rightarrow> Inl Undefined_behaviour
              | Some s \<Rightarrow>
                  if idx < int (SST_num_blocks s) then
                    bindE (SST_read_block h s idx w) (\<lambda>(b, w).
                    bindE (BlockIterator_new b 0 (m_max_tranc_id it) (m_keep_all_versions it)) (\<lambda>bi.
                      Inr (it\<lparr>m_block_idx := idx, m_block_it := Some bi\<rparr>, w)))
                  else Inr (it\<lparr>m_block_idx := idx, m_block_it := None\<rparr>, w)
            else Inr (it\<lparr>m_block_it := Some bi\<rparr>, w))))"

text \<open>There is one object per table, so the pointers to two tables are equal when the tables are.\<close>

definition SstIterator_eq :: "sst_iter \<Rightarrow> sst_iter \<Rightarrow> bool" where
  "SstIterator_eq a b =
     (if m_sst a \<noteq> m_sst b \<or> m_block_idx a \<noteq> m_block_idx b then False
      else case (m_block_it a, m_block_it b) of
             (None, None) \<Rightarrow> True
           | (Some x, Some y) \<Rightarrow> BlockIterator_eq x y
           | _ \<Rightarrow> False)"

definition SstIterator_get_tranc_id :: "sst_iter \<Rightarrow> u64 result" where
  "SstIterator_get_tranc_id it =
     (case m_block_it it of
        Some bi \<Rightarrow> if m_keep_all_versions it then BlockIterator_get_cur_tranc_id bi else Inr (m_max_tranc_id it)
      | None \<Rightarrow> Inr (m_max_tranc_id it))"

definition SstIterator_is_end :: "sst_iter \<Rightarrow> bool" where
  "SstIterator_is_end it \<longleftrightarrow> m_block_it it = None"

definition SstIterator_is_valid :: "sst_iter \<Rightarrow> bool result" where
  "SstIterator_is_valid it =
     (case m_block_it it of
        None \<Rightarrow> Inr False
      | Some bi \<Rightarrow>
          bindE (BlockIterator_is_end bi) (\<lambda>e.
            if e then Inr False
            else case m_sst it of
                   None \<Rightarrow> Inl Undefined_behaviour
                 | Some s \<Rightarrow> Inr (0 \<le> m_block_idx it \<and> m_block_idx it < int (SST_num_blocks s))))"

definition SstIterator_update_current :: "sst_iter \<Rightarrow> store \<Rightarrow> sst_iter result" where
  "SstIterator_update_current it w =
     (case (m_cached_value it, m_block_it it) of
        (None, Some bi) \<Rightarrow>
          bindE (BlockIterator_is_end bi) (\<lambda>e.
            if e then Inr it
            else bindE (SstIterator_deref it w) (\<lambda>(kv, it). Inr (it\<lparr>m_cached_value := Some kv\<rparr>)))
      | _ \<Rightarrow> Inr it)"

definition SstIterator_arrow :: "sst_iter \<Rightarrow> store \<Rightarrow> ((string \<times> string) \<times> sst_iter) result" where
  "SstIterator_arrow it w =
     bindE (SstIterator_update_current it w) (\<lambda>it.
       case m_cached_value it of None \<Rightarrow> Inl Undefined_behaviour | Some kv \<Rightarrow> Inr (kv, it))"

definition SstIterator_get_cur_tranc_id :: "sst_iter \<Rightarrow> u64 result" where
  "SstIterator_get_cur_tranc_id it =
     (case m_block_it it of None \<Rightarrow> Inr 0 | Some bi \<Rightarrow> BlockIterator_get_cur_tranc_id bi)"

section \<open>Tables returning iterators\<close>

definition SST_begin :: "(string \<Rightarrow> u64) \<Rightarrow> sst \<Rightarrow> u64 \<Rightarrow> bool \<Rightarrow> store \<Rightarrow> (sst_iter \<times> store) result" where
  "SST_begin h s tid keep w = SstIterator_new h (Some s) tid keep w"

definition SST_end :: "(string \<Rightarrow> u64) \<Rightarrow> sst \<Rightarrow> store \<Rightarrow> (sst_iter \<times> store) result" where
  "SST_end h s w =
     bindE (SstIterator_new h (Some s) 0 False w) (\<lambda>(res, w).
       Inr (res\<lparr>m_block_idx := int (length (sst_meta_entries s)), m_block_it := None\<rparr>, w))"

definition SST_get :: "(string \<Rightarrow> u64) \<Rightarrow> sst \<Rightarrow> string \<Rightarrow> u64 \<Rightarrow> store \<Rightarrow> (sst_iter \<times> store) result" where
  "SST_get h s key tranc_id w =
     (if key < sst_first_key s \<or> sst_last_key s < key then SST_end h s w
      else
        bindE (case sst_bloom_filter s of None \<Rightarrow> Inr True | Some bf \<Rightarrow> possibly_contains h key bf) (\<lambda>maybe.
          if \<not> maybe then SST_end h s w
          else SstIterator_new_key h (Some s) key tranc_id False w))"

text \<open>The loop of \<^verbatim>\<open>merge_sst_iterator\<close> over one iterator: the items it pushes.\<close>

primrec collect_items ::
  "(string \<Rightarrow> u64) \<Rightarrow> nat \<Rightarrow> sst_iter \<Rightarrow> store \<Rightarrow> (search_item list \<times> store) result" where
  "collect_items h 0 it w = Inl No_return"
| "collect_items h (Suc n) it w =
     bindE (SstIterator_is_valid it) (\<lambda>v.
       if \<not> (v \<and> \<not> SstIterator_is_end it) then Inr ([], w)
       else
         bindE (SstIterator_key it) (\<lambda>(k, it).
         bindE (SstIterator_deref it w) (\<lambda>((_, x), it).
         bindE (SstIterator_get_cur_tranc_id it) (\<lambda>t.
           case m_sst it of
             None \<Rightarrow> Inl Undefined_behaviour
           | Some s \<Rightarrow>
               let item = \<lparr>si_key = k, si_value = x, si_tranc_id = t, si_idx = as_int (- uint (sst_id s)), si_level = 0\<rparr> in
               bindE (SstIterator_incr h it w) (\<lambda>(it, w).
               bindE (collect_items h n it w) (\<lambda>(items, w). Inr (item # items, w)))))))"

primrec collect_all ::
  "(string \<Rightarrow> u64) \<Rightarrow> nat \<Rightarrow> sst_iter list \<Rightarrow> store \<Rightarrow> (search_item list \<times> store) result" where
  "collect_all h n [] w = Inr ([], w)"
| "collect_all h n (it # its) w =
     bindE (collect_items h n it w) (\<lambda>(xs, w).
     bindE (collect_all h n its w) (\<lambda>(ys, w). Inr (xs @ ys, w)))"

definition merge_sst_iterator ::
  "(string \<Rightarrow> u64) \<Rightarrow> nat \<Rightarrow> sst_iter list \<Rightarrow> bool \<Rightarrow> store \<Rightarrow> ((heap_iter \<times> heap_iter) \<times> store) result" where
  "merge_sst_iterator h n iter_vec keep w =
     (if iter_vec = [] then Inr ((HeapIterator_default True False, HeapIterator_default True False), w)
      else
        bindE (collect_all h n iter_vec w) (\<lambda>(items, w).
        bindE (queue_of items) (\<lambda>q.
          Inr (((HeapIterator_default False keep)\<lparr>hi_items := q\<rparr>, HeapIterator_default True False), w))))"

text \<open>The loop over the blocks of \<^verbatim>\<open>sst_iters_monotony_predicate\<close>, from block \<open>i\<close> on.\<close>

function predicate_blocks ::
  "(string \<Rightarrow> u64) \<Rightarrow> sst \<Rightarrow> u64 \<Rightarrow> (string \<Rightarrow> int) \<Rightarrow> nat \<Rightarrow> (sst_iter \<times> sst_iter) option \<Rightarrow> store \<Rightarrow>
     ((sst_iter \<times> sst_iter) option \<times> store) result" where
  "predicate_blocks h s tid predicate i found w =
     (if i < length (sst_meta_entries s) then
        bindE (SST_read_block h s (int i) w) (\<lambda>(b, w).
          let meta_i = sst_meta_entries s ! i in
          if predicate (first_key meta_i) < 0 then Inr (found, w)
          else if 0 < predicate (last_key meta_i) then predicate_blocks h s tid predicate (Suc i) found w
          else
            bindE (Block_get_monotony_predicate_iters b tid predicate) (\<lambda>result_i.
              case result_i of
                None \<Rightarrow> predicate_blocks h s tid predicate (Suc i) found w
              | Some (i_begin, i_end) \<Rightarrow>
                  bindE (case found of
                           Some (b, e) \<Rightarrow> Inr (b, w)
                         | None \<Rightarrow> bindE (SstIterator_new h (Some s) tid False w) (\<lambda>(tmp_it, w).
                             Inr (tmp_it\<lparr>m_block_idx := int i, m_block_it := Some i_begin\<rparr>, w))) (\<lambda>(final_begin, w).
                  bindE (SstIterator_new h (Some s) tid False w) (\<lambda>(tmp_it, w).
                    let tmp_it = tmp_it\<lparr>m_block_idx := int i, m_block_it := Some i_end\<rparr>;
                        tmp_it = (if SstIterator_is_end tmp_it \<and> m_block_idx tmp_it = int (SST_num_blocks s)
                                  then tmp_it\<lparr>m_block_it := None\<rparr> else tmp_it) in
                    predicate_blocks h s tid predicate (Suc i) (Some (final_begin, tmp_it)) w))))
      else Inr (found, w))"
  by pat_completeness auto
termination
  by (relation "measure (\<lambda>(h, s, t, p, i, f, w). length (sst_meta_entries s) - i)") auto

definition sst_iters_monotony_predicate ::
  "(string \<Rightarrow> u64) \<Rightarrow> sst \<Rightarrow> u64 \<Rightarrow> (string \<Rightarrow> int) \<Rightarrow> store \<Rightarrow> ((sst_iter \<times> sst_iter) option \<times> store) result" where
  "sst_iters_monotony_predicate h s tid predicate w = predicate_blocks h s tid predicate 0 None w"

section \<open>Running over the tables of a level\<close>

record concact_iter =
  cc_cur_iter :: sst_iter
  cc_cur_idx :: nat
  cc_ssts :: "sst list"
  cc_max_tranc_id :: u64
  cc_keep_all_versions :: bool

definition ConcactIterator_new ::
  "(string \<Rightarrow> u64) \<Rightarrow> sst list \<Rightarrow> u64 \<Rightarrow> bool \<Rightarrow> store \<Rightarrow> (concact_iter \<times> store) result" where
  "ConcactIterator_new h ssts tid keep w =
     bindE (case ssts of
              [] \<Rightarrow> SstIterator_new h None tid False w
            | s # _ \<Rightarrow> SST_begin h s tid keep w) (\<lambda>(cur, w).
       Inr (\<lparr>cc_cur_iter = cur, cc_cur_idx = 0, cc_ssts = ssts, cc_max_tranc_id = tid,
             cc_keep_all_versions = keep\<rparr>, w))"

definition ConcactIterator_is_end :: "concact_iter \<Rightarrow> bool result" where
  "ConcactIterator_is_end it =
     (if SstIterator_is_end (cc_cur_iter it) then Inr True
      else bindE (SstIterator_is_valid (cc_cur_iter it)) (\<lambda>v. Inr (\<not> v)))"

definition ConcactIterator_is_valid :: "concact_iter \<Rightarrow> bool result" where
  "ConcactIterator_is_valid it =
     (if SstIterator_is_end (cc_cur_iter it) then Inr False else SstIterator_is_valid (cc_cur_iter it))"

definition ConcactIterator_incr :: "(string \<Rightarrow> u64) \<Rightarrow> concact_iter \<Rightarrow> store \<Rightarrow> (concact_iter \<times> store) result" where
  "ConcactIterator_incr h it w =
     bindE (SstIterator_incr h (cc_cur_iter it) w) (\<lambda>(cur, w).
     let it = it\<lparr>cc_cur_iter := cur\<rparr> in
     bindE (ConcactIterator_is_end it) (\<lambda>e.
       if e then
         let idx = cc_cur_idx it + 1 in
         bindE (if idx < length (cc_ssts it)
                then SST_begin h (cc_ssts it ! idx) (cc_max_tranc_id it) (cc_keep_all_versions it) w
                else SstIterator_new h None (cc_max_tranc_id it) False w) (\<lambda>(cur, w).
           Inr (it\<lparr>cc_cur_idx := idx, cc_cur_iter := cur\<rparr>, w))
       else Inr (it, w)))"

definition ConcactIterator_deref :: "concact_iter \<Rightarrow> store \<Rightarrow> ((string \<times> string) \<times> concact_iter) result" where
  "ConcactIterator_deref it w =
     bindE (SstIterator_deref (cc_cur_iter it) w) (\<lambda>(kv, cur). Inr (kv, it\<lparr>cc_cur_iter := cur\<rparr>))"

definition ConcactIterator_eq :: "concact_iter \<Rightarrow> concact_iter \<Rightarrow> bool" where
  "ConcactIterator_eq a b = SstIterator_eq (cc_cur_iter b) (cc_cur_iter a)"

definition ConcactIterator_get_tranc_id :: "concact_iter \<Rightarrow> u64 result" where
  "ConcactIterator_get_tranc_id it =
     (if cc_keep_all_versions it then SstIterator_get_tranc_id (cc_cur_iter it) else Inr (cc_max_tranc_id it))"

definition ConcactIterator_key :: "concact_iter \<Rightarrow> (string \<times> concact_iter) result" where
  "ConcactIterator_key it =
     bindE (SstIterator_key (cc_cur_iter it)) (\<lambda>(k, cur). Inr (k, it\<lparr>cc_cur_iter := cur\<rparr>))"

definition ConcactIterator_value :: "concact_iter \<Rightarrow> store \<Rightarrow> (string \<times> concact_iter) result" where
  "ConcactIterator_value it w =
     bindE (SstIterator_value (cc_cur_iter it) w) (\<lambda>(v, cur). Inr (v, it\<lparr>cc_cur_iter := cur\<rparr>))"

declare predicate_blocks.simps [simp del]

section \<open>The versions of several blocks\<close>

lemma dropWhile_append_apart:
  assumes "\<forall>y \<in> set ys. \<not> P y"
  shows "dropWhile P (xs @ ys) = dropWhile P xs @ ys"
  using assms dropWhile_none [of ys P] by (induction xs) auto

lemma first_versions_append:
  assumes "\<forall>x \<in> set xs. \<forall>y \<in> set ys. ekey x \<noteq> ekey y"
  shows "first_versions (xs @ ys) = first_versions xs @ first_versions ys"
  using assms
proof (induction xs rule: first_versions.induct)
  case (2 e es)
  have "dropWhile (\<lambda>x. ekey x = ekey e) (es @ ys) = dropWhile (\<lambda>x. ekey x = ekey e) es @ ys"
    using 2(2) by (intro dropWhile_append_apart) auto
  moreover have "first_versions (dropWhile (\<lambda>x. ekey x = ekey e) es @ ys) =
      first_versions (dropWhile (\<lambda>x. ekey x = ekey e) es) @ first_versions ys"
  proof (rule 2(1), intro ballI)
    fix x y
    assume "x \<in> set (dropWhile (\<lambda>x. ekey x = ekey e) es)" and y: "y \<in> set ys"
    then have "x \<in> set (e # es)" using set_dropWhileD [of x _ es] by (simp only: list.set insert_iff simp_thms)
    with 2(2) y show "ekey x \<noteq> ekey y" by blast
  qed
  ultimately show ?case by (simp only: append_Cons first_versions.simps)
qed simp

lemma block_versions_append:
  assumes "\<forall>x \<in> set xs. \<forall>y \<in> set ys. ekey x < ekey y"
  shows "block_versions keep tid (xs @ ys) = block_versions keep tid xs @ block_versions keep tid ys"
proof -
  have "\<forall>x \<in> set (filter (visible tid) xs). \<forall>y \<in> set (filter (visible tid) ys). ekey x \<noteq> ekey y"
    using assms by force
  then show ?thesis
    by (simp add: block_versions_def first_versions_append)
qed

lemma parts_versions_Cons:
  assumes "sorted_wrt key_apart (p # ps)"
  shows "block_versions keep tid (all_entries (p # ps)) =
    block_versions keep tid (snd p) @ block_versions keep tid (all_entries ps)"
  using assms by (auto simp: all_entries_def key_apart_def intro!: block_versions_append)

section \<open>The iterator delivers the rest of the table\<close>

text \<open>The pairs a reader gets: \<open>rv\<close> turns a stored value into the value it stands for.\<close>

definition read_pair_of :: "(string \<Rightarrow> string) \<Rightarrow> entry \<Rightarrow> string \<times> string" where
  "read_pair_of rv e = (ekey e, rv (evalue e))"

definition resolves :: "filesys \<Rightarrow> sst \<Rightarrow> sst_part list \<Rightarrow> (string \<Rightarrow> string) \<Rightarrow> bool" where
  "resolves fs s ps rv \<longleftrightarrow>
     (\<forall>e \<in> set (all_entries ps). SST_resolve_value fs s (evalue e) = Inr (rv (evalue e)))"

definition sst_env ::
  "(string \<Rightarrow> u64) \<Rightarrow> sst \<Rightarrow> sst_part list \<Rightarrow> (cache_key \<Rightarrow> block option) \<Rightarrow> (string \<Rightarrow> string) \<Rightarrow> store \<Rightarrow> bool" where
  "sst_env h s ps disk rv w \<longleftrightarrow>
     sst_repr h (st_fs w) s ps \<and> on_disk disk s ps \<and> resolves (st_fs w) s ps rv"

definition sst_iter_at ::
  "sst \<Rightarrow> sst_part list \<Rightarrow> nat \<Rightarrow> sst_iter \<Rightarrow> bool" where
  "sst_iter_at s ps i it \<longleftrightarrow>
     (\<exists>bi ptr. m_block_it it = Some bi \<and> m_block_idx it = int i \<and> i < length ps \<and>
        block_iter_inv (ptr, decoded (ps ! i)) (snd (ps ! i)) bi \<and>
        keep_all_versions bi = m_keep_all_versions it \<and> it_tranc_id bi = m_max_tranc_id it \<and>
        current_index bi < length (snd (ps ! i)))"

definition sst_iter_inv ::
  "(string \<Rightarrow> u64) \<Rightarrow> sst \<Rightarrow> sst_part list \<Rightarrow> (cache_key \<Rightarrow> block option) \<Rightarrow> (string \<Rightarrow> string) \<Rightarrow>
     sst_iter \<times> store \<Rightarrow> bool" where
  "sst_iter_inv h s ps disk rv x \<longleftrightarrow>
     (let (it, w) = x in
      sst_env h s ps disk rv w \<and> m_sst it = Some s \<and>
      (m_block_it it = None \<or>
       (\<exists>i n. sst_iter_at s ps i it \<and> store_ok disk n w \<and> n + 2 * length ps < 2 ^ 64 + 2 * i \<and>
          (\<forall>p \<in> set (drop (Suc i) ps). \<exists>e \<in> set (snd p). visible (m_max_tranc_id it) e))))"

definition sst_iter_entries :: "sst_part list \<Rightarrow> sst_iter \<Rightarrow> entry list" where
  "sst_iter_entries ps it =
     (case m_block_it it of
        None \<Rightarrow> []
      | Some bi \<Rightarrow>
          block_versions (m_keep_all_versions it) (m_max_tranc_id it)
            (drop (current_index bi) (snd (ps ! nat (m_block_idx it))) @ all_entries (drop (Suc (nat (m_block_idx it))) ps)))"

definition sst_iter_rest :: "sst_part list \<Rightarrow> (string \<Rightarrow> string) \<Rightarrow> sst_iter \<times> store \<Rightarrow> (string \<times> string) list" where
  "sst_iter_rest ps rv x = map (read_pair_of rv) (sst_iter_entries ps (fst x))"

definition SstIterator_at_end :: "sst_iter \<times> store \<Rightarrow> bool result" where
  "SstIterator_at_end x = Inr (SstIterator_is_end (fst x))"

definition SstIterator_read :: "sst_iter \<times> store \<Rightarrow> ((string \<times> string) \<times> (sst_iter \<times> store)) result" where
  "SstIterator_read x = bindE (SstIterator_deref (fst x) (snd x)) (\<lambda>(kv, it). Inr (kv, (it, snd x)))"

definition SstIterator_next :: "(string \<Rightarrow> u64) \<Rightarrow> sst_iter \<times> store \<Rightarrow> (sst_iter \<times> store) result" where
  "SstIterator_next h x = SstIterator_incr h (fst x) (snd x)"

lemma parts_drop_apart:
  assumes "parts_ok ps" and "i < length ps" and "set xs \<subseteq> set (snd (ps ! i))"
  shows "block_versions keep tid (xs @ all_entries (drop (Suc i) ps)) =
    block_versions keep tid xs @ block_versions keep tid (all_entries (drop (Suc i) ps))"
proof (intro block_versions_append ballI)
  fix x y
  assume x: "x \<in> set xs" and "y \<in> set (all_entries (drop (Suc i) ps))"
  then obtain p where "p \<in> set (drop (Suc i) ps)" "y \<in> set (snd p)"
    by (auto simp: all_entries_def)
  then obtain j where j: "j < length ps - Suc i" "y \<in> set (snd (ps ! (Suc i + j)))"
    by (auto simp: in_set_conv_nth [of p])
  then have "key_apart (ps ! i) (ps ! (Suc i + j))"
    using parts_ok_nth(3) [OF assms(1,2)] by simp
  with x assms(3) j(2) show "ekey x < ekey y" by (auto simp: key_apart_def)
qed

lemma sst_iter_entries_at:
  assumes "parts_ok ps" and "sst_iter_at s ps i it" and "m_block_it it = Some bi"
  shows "sst_iter_entries ps it =
    block_versions (m_keep_all_versions it) (m_max_tranc_id it) (drop (current_index bi) (snd (ps ! i))) @
    block_versions (m_keep_all_versions it) (m_max_tranc_id it) (all_entries (drop (Suc i) ps))"
  using assms set_drop_subset [of "current_index bi" "snd (ps ! i)"]
  by (auto simp: sst_iter_entries_def sst_iter_at_def parts_drop_apart)

lemma sst_iter_entries_hd:
  assumes "parts_ok ps" and "sst_iter_at s ps i it" and bi: "m_block_it it = Some bi"
  shows "sst_iter_entries ps it \<noteq> []" and "hd (sst_iter_entries ps it) = snd (ps ! i) ! current_index bi"
proof -
  let ?es = "snd (ps ! i)"
  have at: "current_index bi < length ?es" "visible (m_max_tranc_id it) (?es ! current_index bi)" "sorted_entries ?es"
    using assms by (auto simp: sst_iter_at_def block_iter_inv_def)
  then have "sorted_entries (?es ! current_index bi # drop (Suc (current_index bi)) ?es)"
    using sorted_entries_drop [of ?es "current_index bi"] by (simp add: Cons_nth_drop_Suc)
  from block_versions_Cons [OF this at(2)]
  show "sst_iter_entries ps it \<noteq> []" "hd (sst_iter_entries ps it) = ?es ! current_index bi"
    using at(1) by (simp_all add: sst_iter_entries_at [OF assms] flip: Cons_nth_drop_Suc)
qed

lemma sst_deref_at:
  assumes env: "sst_env h s ps disk rv w" and at: "sst_iter_at s ps i it" and s: "m_sst it = Some s"
  shows "\<exists>it'. SstIterator_deref it w = Inr (read_pair_of rv (hd (sst_iter_entries ps it)), it') \<and>
    sst_iter_at s ps i it' \<and> sst_iter_entries ps it' = sst_iter_entries ps it \<and> m_sst it' = Some s \<and>
    m_max_tranc_id it' = m_max_tranc_id it"
proof -
  have ok: "parts_ok ps" using env by (auto simp: sst_env_def sst_repr_def)
  obtain bi ptr where bi: "m_block_it it = Some bi" "m_block_idx it = int i" "i < length ps"
    "block_iter_inv (ptr, decoded (ps ! i)) (snd (ps ! i)) bi"
    "keep_all_versions bi = m_keep_all_versions it" "it_tranc_id bi = m_max_tranc_id it"
    "current_index bi < length (snd (ps ! i))"
    using at by (auto simp: sst_iter_at_def)
  let ?e = "snd (ps ! i) ! current_index bi"
  have "?e \<in> set (snd (ps ! i))" "ps ! i \<in> set ps"
    using bi(3,7) by simp_all
  then have "?e \<in> set (all_entries ps)"
    by (force simp: all_entries_def)
  then have res: "SST_resolve_value (st_fs w) s (evalue ?e) = Inr (rv (evalue ?e))"
    using env by (auto simp: sst_env_def resolves_def)
  obtain bi' where bi': "BlockIterator_deref bi = Inr (pair_of ?e, bi')" "block_iter_inv (ptr, decoded (ps ! i)) (snd (ps ! i)) bi'"
    "current_index bi' = current_index bi" "keep_all_versions bi' = keep_all_versions bi" "it_tranc_id bi' = it_tranc_id bi"
    using block_iter_deref [OF bi(4,7)] by blast
  let ?it = "it\<lparr>m_block_it := Some bi'\<rparr>"
  have "SstIterator_deref it w = Inr (read_pair_of rv ?e, ?it)"
    using bi(1) s bi'(1) res by (simp add: SstIterator_deref_def pair_of_def read_pair_of_def)
  moreover have "sst_iter_at s ps i ?it"
    using bi bi' by (auto simp: sst_iter_at_def)
  moreover have "sst_iter_entries ps ?it = sst_iter_entries ps it"
    using bi(1) bi'(3) by (simp add: sst_iter_entries_def)
  ultimately show ?thesis
    using sst_iter_entries_hd(2) [OF ok at bi(1)] s by (intro exI [of _ ?it]) simp
qed

text \<open>A new block iterator at the start of a block with a visible entry.\<close>

lemma sst_iter_at_new:
  assumes "parts_ok ps" and i: "i < length ps" and "\<exists>e \<in> set (snd (ps ! i)). visible (m_max_tranc_id it) e"
  shows "\<exists>bi. BlockIterator_new (ptr, decoded (ps ! i)) 0 (m_max_tranc_id it) (m_keep_all_versions it) = Inr bi \<and>
    sst_iter_at s ps i (it\<lparr>m_block_idx := int i, m_block_it := Some bi\<rparr>) \<and>
    sst_iter_entries ps (it\<lparr>m_block_idx := int i, m_block_it := Some bi\<rparr>) =
      block_versions (m_keep_all_versions it) (m_max_tranc_id it) (all_entries (drop i ps))"
proof -
  let ?es = "snd (ps ! i)" and ?tid = "m_max_tranc_id it" and ?keep = "m_keep_all_versions it"
  have ok: "block_repr (decoded (ps ! i)) ?es" "sorted_entries ?es"
    using parts_ok_nth [OF assms(1,2)] by (auto simp: part_ok_def decoded_def block_repr_decoded)
  obtain bi where bi: "BlockIterator_new (ptr, decoded (ps ! i)) 0 ?tid ?keep = Inr bi"
    "block_iter_inv (ptr, decoded (ps ! i)) ?es bi" "keep_all_versions bi = ?keep" "it_tranc_id bi = ?tid"
    "drop (current_index bi) ?es = dropWhile (\<lambda>e. \<not> visible ?tid e) ?es"
    using BlockIterator_new_inv [OF ok, of 0 ptr ?tid ?keep] by auto
  have "dropWhile (\<lambda>e. \<not> visible ?tid e) ?es \<noteq> []"
    using assms(3) by (auto simp: dropWhile_eq_Nil_conv)
  then have cur: "current_index bi < length ?es"
    using bi(5) by (metis drop_all leI)
  let ?it = "it\<lparr>m_block_idx := int i, m_block_it := Some bi\<rparr>"
  have at: "sst_iter_at s ps i ?it"
    using bi i cur by (auto simp: sst_iter_at_def)
  moreover have "sst_iter_entries ps ?it = block_versions ?keep ?tid (all_entries (drop i ps))"
  proof -
    have "sst_iter_entries ps ?it = block_versions ?keep ?tid (dropWhile (\<lambda>e. \<not> visible ?tid e) ?es) @
        block_versions ?keep ?tid (all_entries (drop (Suc i) ps))"
      using sst_iter_entries_at [OF assms(1) at] bi(5) by simp
    also have "\<dots> = block_versions ?keep ?tid (?es @ all_entries (drop (Suc i) ps))"
      using parts_drop_apart [OF assms(1,2) subset_refl, of ?keep ?tid] by (simp add: block_versions_skip)
    also have "?es @ all_entries (drop (Suc i) ps) = all_entries (drop i ps)"
      using i by (simp flip: Cons_nth_drop_Suc)
    finally show ?thesis .
  qed
  ultimately show ?thesis using bi(1) by blast
qed

definition blocks_visible :: "u64 \<Rightarrow> sst_part list \<Rightarrow> bool" where
  "blocks_visible tid ps \<longleftrightarrow> (\<forall>p \<in> set ps. \<exists>e \<in> set (snd p). visible tid e)"

definition same_options :: "sst_iter \<Rightarrow> sst_iter \<Rightarrow> bool" where
  "same_options a b \<longleftrightarrow>
     m_sst b = m_sst a \<and> m_max_tranc_id b = m_max_tranc_id a \<and> m_keep_all_versions b = m_keep_all_versions a"

lemma sst_incr_at:
  assumes env: "sst_env h s ps disk rv w" and at: "sst_iter_at s ps i it" and s: "m_sst it = Some s"
    and st: "store_ok disk n w" and room: "Suc i < length ps \<longrightarrow> n + 2 < 2 ^ 64"
    and later: "blocks_visible (m_max_tranc_id it) (drop (Suc i) ps)"
  shows "\<exists>it' w' n'. SstIterator_incr h it w = Inr (it', w') \<and> sst_iter_entries ps it' = tl (sst_iter_entries ps it) \<and>
    st_fs w' = st_fs w \<and> store_ok disk n' w' \<and> n' \<le> n + 2 \<and> same_options it it' \<and>
    (m_block_it it' = None \<or>
     (\<exists>i'. sst_iter_at s ps i' it' \<and> n' + 2 * i \<le> n + 2 * i' \<and> blocks_visible (m_max_tranc_id it) (drop (Suc i') ps)))"
proof -
  have ok: "parts_ok ps" and len: "SST_num_blocks s = length ps"
    using env by (auto simp: sst_env_def sst_repr_def SST_num_blocks_def)
  obtain bi ptr where bi: "m_block_it it = Some bi" "m_block_idx it = int i" "i < length ps"
    "block_iter_inv (ptr, decoded (ps ! i)) (snd (ps ! i)) bi"
    "keep_all_versions bi = m_keep_all_versions it" "it_tranc_id bi = m_max_tranc_id it"
    "current_index bi < length (snd (ps ! i))"
    using at by (auto simp: sst_iter_at_def)
  let ?es = "snd (ps ! i)" and ?tid = "m_max_tranc_id it" and ?keep = "m_keep_all_versions it"
  obtain bi' where bi': "BlockIterator_incr bi = Inr bi'" "block_iter_inv (ptr, decoded (ps ! i)) ?es bi'"
    "block_iter_entries ?es bi' = tl (block_iter_entries ?es bi)"
    "keep_all_versions bi' = keep_all_versions bi" "it_tranc_id bi' = it_tranc_id bi"
    using block_iter_incr [OF bi(4,7)] by blast
  have e: "BlockIterator_is_end bi' = Inr (current_index bi' = length ?es)"
    using bi'(2) parts_ok_nth(1) [OF ok bi(3)]
    by (auto simp: BlockIterator_is_end_def block_iter_inv_def block_repr_length)
  have split: "sst_iter_entries ps it = block_iter_entries ?es bi @ block_versions ?keep ?tid (all_entries (drop (Suc i) ps))"
    using sst_iter_entries_at [OF ok at bi(1)] bi(5,6) by (simp add: block_iter_entries_def)
  have ne: "block_iter_entries ?es bi \<noteq> []"
    using block_iter_rest_empty [OF bi(4)] bi(7) by (auto simp: block_iter_rest_def block_iter_entries_def)
  have tail: "tl (sst_iter_entries ps it) = block_iter_entries ?es bi' @ block_versions ?keep ?tid (all_entries (drop (Suc i) ps))"
    using split ne bi'(3) by (simp add: tl_append split: list.split)
  show ?thesis
  proof (cases "current_index bi' = length ?es")
    case False
    let ?it = "it\<lparr>m_block_it := Some bi'\<rparr>"
    have at': "sst_iter_at s ps i ?it"
      using False bi bi' by (auto simp: sst_iter_at_def block_iter_inv_def)
    have "sst_iter_entries ps ?it = tl (sst_iter_entries ps it)"
      using sst_iter_entries_at [OF ok at'] bi' bi(5,6) tail by (simp add: block_iter_entries_def)
    moreover have "SstIterator_incr h it w = Inr (?it, w)"
      using bi(1) bi'(1) e False by (simp add: SstIterator_incr_def)
    ultimately show ?thesis
      using at' st later by (intro exI [of _ ?it] exI [of _ w] exI [of _ n]) (auto simp: same_options_def)
  next
    case True
    then have fin: "block_iter_entries ?es bi' = []"
      by (simp add: block_iter_entries_def)
    show ?thesis
    proof (cases "Suc i < length ps")
      case False
      let ?it = "it\<lparr>m_block_idx := int i + 1, m_block_it := None\<rparr>"
      have "SstIterator_incr h it w = Inr (?it, w)"
        using bi(1,2) bi'(1) e True False s len by (simp add: SstIterator_incr_def)
      moreover have "sst_iter_entries ps ?it = tl (sst_iter_entries ps it)"
        using tail fin False by (simp add: sst_iter_entries_def)
      ultimately show ?thesis
        using st by (intro exI [of _ ?it] exI [of _ w] exI [of _ n]) (simp add: same_options_def)
    next
      case more: True
      have repr: "sst_repr h (st_fs w) s ps" and disk: "on_disk disk s ps"
        using env by (auto simp: sst_env_def)
      have "n + 2 < 2 ^ 64" using room more by simp
      then obtain ptr' w' where rd: "SST_read_block h s (int (Suc i)) w = Inr ((ptr', decoded (ps ! Suc i)), w')"
        "st_fs w' = st_fs w" "store_ok disk (n + 2) w'"
        using read_block_ok [OF repr more st _ disk] by blast
      have "ps ! Suc i \<in> set (drop (Suc i) ps)"
        using more by (metis Cons_nth_drop_Suc list.set_intros(1))
      then have "\<exists>e \<in> set (snd (ps ! Suc i)). visible ?tid e" using later by (auto simp: blocks_visible_def)
      from sst_iter_at_new [OF ok more this, of ptr' s]
      obtain bn where bn: "BlockIterator_new (ptr', decoded (ps ! Suc i)) 0 ?tid ?keep = Inr bn"
        "sst_iter_at s ps (Suc i) (it\<lparr>m_block_idx := int (Suc i), m_block_it := Some bn\<rparr>)"
        "sst_iter_entries ps (it\<lparr>m_block_idx := int (Suc i), m_block_it := Some bn\<rparr>) =
          block_versions ?keep ?tid (all_entries (drop (Suc i) ps))"
        by blast
      let ?it = "it\<lparr>m_block_idx := int (Suc i), m_block_it := Some bn\<rparr>"
      have "SstIterator_incr h it w = Inr (?it, w')"
        using bi(1,2) bi'(1) e True more s len rd(1) bn(1) by (simp add: SstIterator_incr_def Let_def add.commute)
      moreover have "blocks_visible ?tid (drop (Suc (Suc i)) ps)"
        using later set_drop_subset_set_drop [of "Suc i" "Suc (Suc i)" ps] by (auto simp: blocks_visible_def)
      ultimately show ?thesis
        using bn(2,3) tail fin rd(2,3)
        by (intro exI [of _ ?it] exI [of _ w'] exI [of _ "n + 2"] conjI disjI2 exI [of _ "Suc i"])
          (simp_all add: same_options_def)
    qed
  qed
qed

interpretation sit: list_iterator "sst_iter_inv h s ps disk rv" "sst_iter_rest ps rv"
  SstIterator_at_end SstIterator_read "SstIterator_next h" for h s ps disk rv
proof
  fix x
  assume inv: "sst_iter_inv h s ps disk rv x"
  obtain it w where x: "x = (it, w)" by (cases x)
  have env: "sst_env h s ps disk rv w" and s: "m_sst it = Some s"
    using inv by (auto simp: sst_iter_inv_def x)
  then have ok: "parts_ok ps" by (auto simp: sst_env_def sst_repr_def)
  have at: "m_block_it it = None \<or> (\<exists>i n. sst_iter_at s ps i it \<and> store_ok disk n w \<and> n + 2 * length ps < 2 ^ 64 + 2 * i \<and>
      (\<forall>p \<in> set (drop (Suc i) ps). \<exists>e \<in> set (snd p). visible (m_max_tranc_id it) e))"
    using inv by (auto simp: sst_iter_inv_def x)
  have empty: "sst_iter_entries ps it = [] \<longleftrightarrow> m_block_it it = None"
  proof (cases "m_block_it it")
    case (Some bi)
    with at obtain i where "sst_iter_at s ps i it" by auto
    from sst_iter_entries_hd(1) [OF ok this Some] Some show ?thesis by simp
  qed (simp add: sst_iter_entries_def)
  then show "SstIterator_at_end x = Inr (sst_iter_rest ps rv x = [])"
    by (simp add: x SstIterator_at_end_def SstIterator_is_end_def sst_iter_rest_def)
  assume "sst_iter_rest ps rv x \<noteq> []"
  then have ne: "sst_iter_entries ps it \<noteq> []" by (simp add: x sst_iter_rest_def)
  then obtain i n where i: "sst_iter_at s ps i it" "store_ok disk n w" "n + 2 * length ps < 2 ^ 64 + 2 * i"
    "\<forall>p \<in> set (drop (Suc i) ps). \<exists>e \<in> set (snd p). visible (m_max_tranc_id it) e"
    using at empty by blast
  obtain it' where it': "SstIterator_deref it w = Inr (read_pair_of rv (hd (sst_iter_entries ps it)), it')"
    "sst_iter_at s ps i it'" "sst_iter_entries ps it' = sst_iter_entries ps it" "m_sst it' = Some s"
    "m_max_tranc_id it' = m_max_tranc_id it"
    using sst_deref_at [OF env i(1) s] by blast
  have "sst_iter_inv h s ps disk rv (it', w)"
    using env it' i by (auto simp: sst_iter_inv_def)
  with it' ne show "\<exists>x'. SstIterator_read x = Inr (hd (sst_iter_rest ps rv x), x') \<and>
      sst_iter_inv h s ps disk rv x' \<and> sst_iter_rest ps rv x' = sst_iter_rest ps rv x"
    by (simp add: x SstIterator_read_def sst_iter_rest_def hd_map)
  have "Suc i < length ps \<longrightarrow> n + 2 < 2 ^ 64" using i(3) by simp
  then obtain it2 w2 n2 where it2: "SstIterator_incr h it w = Inr (it2, w2)" "sst_iter_entries ps it2 = tl (sst_iter_entries ps it)"
    "st_fs w2 = st_fs w" "store_ok disk n2 w2" "same_options it it2"
    "m_block_it it2 = None \<or>
     (\<exists>i'. sst_iter_at s ps i' it2 \<and> n2 + 2 * i \<le> n + 2 * i' \<and> blocks_visible (m_max_tranc_id it) (drop (Suc i') ps))"
    using sst_incr_at [OF env i(1) s i(2) _ i(4) [folded blocks_visible_def]] by blast
  have "sst_env h s ps disk rv w2" "m_sst it2 = Some s" "m_max_tranc_id it2 = m_max_tranc_id it"
    using env s it2(3,5) by (auto simp: sst_env_def same_options_def)
  moreover from it2(6) i(3) have "m_block_it it2 = None \<or>
      (\<exists>i' n'. sst_iter_at s ps i' it2 \<and> store_ok disk n' w2 \<and> n' + 2 * length ps < 2 ^ 64 + 2 * i' \<and>
        blocks_visible (m_max_tranc_id it) (drop (Suc i') ps))"
  proof (elim disjE exE conjE)
    fix i' assume i': "sst_iter_at s ps i' it2" "n2 + 2 * i \<le> n + 2 * i'" "blocks_visible (m_max_tranc_id it) (drop (Suc i') ps)"
    then have "n2 + 2 * length ps < 2 ^ 64 + 2 * i'" using i(3) by simp
    with i' it2(4) show ?thesis by blast
  qed simp
  ultimately have "sst_iter_inv h s ps disk rv (it2, w2)"
    by (simp add: sst_iter_inv_def blocks_visible_def)
  with it2(1,2) show "\<exists>x'. SstIterator_next h x = Inr x' \<and> sst_iter_inv h s ps disk rv x' \<and>
      sst_iter_rest ps rv x' = tl (sst_iter_rest ps rv x)"
    by (simp add: x SstIterator_next_def sst_iter_rest_def map_tl)
qed

section \<open>Starting a scan\<close>

lemma SST_begin_at:
  assumes env: "sst_env h s ps disk rv w" and st: "store_ok disk n w" and room: "n + 2 < 2 ^ 64"
    and vis: "\<exists>e \<in> set (snd (hd ps)). visible tid e"
  shows "\<exists>it w'. SST_begin h s tid keep w = Inr (it, w') \<and> sst_iter_at s ps 0 it \<and> m_sst it = Some s \<and>
    sst_iter_entries ps it = block_versions keep tid (all_entries ps) \<and> st_fs w' = st_fs w \<and>
    store_ok disk (n + 2) w' \<and> m_keep_all_versions it = keep \<and> m_max_tranc_id it = tid"
proof -
  have ok: "parts_ok ps" "0 < length ps" and repr: "sst_repr h (st_fs w) s ps" and disk: "on_disk disk s ps"
    and len: "SST_num_blocks s = length ps"
    using env by (auto simp: sst_env_def sst_repr_def SST_num_blocks_def)
  obtain ptr w' where rd: "SST_read_block h s (int 0) w = Inr ((ptr, decoded (ps ! 0)), w')"
    "st_fs w' = st_fs w" "store_ok disk (n + 2) w'"
    using read_block_ok [OF repr ok(2) st room disk] by blast
  let ?e = "SstIterator_empty (Some s) tid keep"
  have "\<exists>e \<in> set (snd (ps ! 0)). visible (m_max_tranc_id ?e) e"
    using vis ok(2) by (simp add: SstIterator_empty_def hd_conv_nth)
  from sst_iter_at_new [OF ok this, of ptr s]
  obtain bi where bi: "BlockIterator_new (ptr, decoded (ps ! 0)) 0 tid keep = Inr bi"
    "sst_iter_at s ps 0 (?e\<lparr>m_block_idx := 0, m_block_it := Some bi\<rparr>)"
    "sst_iter_entries ps (?e\<lparr>m_block_idx := 0, m_block_it := Some bi\<rparr>) = block_versions keep tid (all_entries ps)"
    by (auto simp: SstIterator_empty_def)
  let ?it = "?e\<lparr>m_block_idx := 0, m_block_it := Some bi\<rparr>"
  have "SST_begin h s tid keep w = Inr (?it, w')"
    using rd(1) bi(1) ok(2) len
    by (simp add: SST_begin_def SstIterator_new_def SstIterator_seek_first_def SstIterator_empty_def)
  then show ?thesis
    using rd(2,3) bi(2,3) by (intro exI [of _ ?it] exI [of _ w']) (simp add: SstIterator_empty_def)
qed

lemma SST_begin_inv:
  assumes env: "sst_env h s ps disk rv w" and st: "store_ok disk n w" and room: "n + 2 * length ps + 2 < 2 ^ 64"
    and vis: "\<forall>p \<in> set ps. \<exists>e \<in> set (snd p). visible tid e"
  shows "\<exists>it w'. SST_begin h s tid keep w = Inr (it, w') \<and> sst_iter_inv h s ps disk rv (it, w') \<and>
    sst_iter_entries ps it = block_versions keep tid (all_entries ps) \<and> st_fs w' = st_fs w \<and>
    store_ok disk (n + 2) w' \<and> m_keep_all_versions it = keep \<and> m_max_tranc_id it = tid"
proof -
  have "ps \<noteq> []" using env by (simp add: sst_env_def sst_repr_def)
  then have "\<exists>e \<in> set (snd (hd ps)). visible tid e" using vis by simp
  moreover have "n + 2 < 2 ^ 64" using room by simp
  ultimately obtain it w' where it: "SST_begin h s tid keep w = Inr (it, w')" "sst_iter_at s ps 0 it" "m_sst it = Some s"
    "sst_iter_entries ps it = block_versions keep tid (all_entries ps)" "st_fs w' = st_fs w"
    "store_ok disk (n + 2) w'" "m_keep_all_versions it = keep" "m_max_tranc_id it = tid"
    using SST_begin_at [OF env st, of tid keep] by blast
  have "\<forall>p \<in> set (drop (Suc 0) ps). \<exists>e \<in> set (snd p). visible tid e"
    using vis set_drop_subset [of "Suc 0" ps] by blast
  then have "sst_iter_inv h s ps disk rv (it, w')"
    using env it room unfolding sst_iter_inv_def Let_def prod.case
    by (intro conjI disjI2 exI [of _ 0] exI [of _ "n + 2"]) (simp_all add: sst_env_def)
  with it show ?thesis by blast
qed

lemma SST_end_ok:
  assumes repr: "sst_repr h (st_fs w) s ps" and disk: "on_disk disk s ps" and st: "store_ok disk n w" "n + 2 < 2 ^ 64"
  shows "\<exists>it w'. SST_end h s w = Inr (it, w') \<and> m_block_it it = None \<and> m_sst it = Some s \<and> m_cached_value it = None \<and>
    m_block_idx it = int (SST_num_blocks s) \<and> st_fs w' = st_fs w \<and> store_ok disk (n + 2) w'"
proof -
  have ok: "parts_ok ps" "0 < length ps" and len: "SST_num_blocks s = length ps"
    using repr by (auto simp: sst_repr_def SST_num_blocks_def)
  obtain ptr w' where rd: "SST_read_block h s (int 0) w = Inr ((ptr, decoded (ps ! 0)), w')"
    "st_fs w' = st_fs w" "store_ok disk (n + 2) w'"
    using read_block_ok [OF repr ok(2) st disk] by blast
  have "block_repr (decoded (ps ! 0)) (snd (ps ! 0))" "sorted_entries (snd (ps ! 0))"
    using parts_ok_nth [OF ok] by (auto simp: part_ok_def decoded_def block_repr_decoded)
  from BlockIterator_new_inv [OF this, of 0 ptr 0 False] obtain bi
    where "BlockIterator_new (ptr, decoded (ps ! 0)) 0 0 False = Inr bi" by auto
  with rd ok(2) len show ?thesis
    by (simp add: SST_end_def SstIterator_new_def SstIterator_seek_first_def SstIterator_empty_def SST_num_blocks_def)
qed

section \<open>Lookup\<close>

definition version_of :: "string \<Rightarrow> u64 \<Rightarrow> entry list \<Rightarrow> entry option" where
  "version_of key tid es = find (\<lambda>e. ekey e = key \<and> visible tid e) es"

lemma version_of_append:
  "version_of key tid (xs @ ys) = (case version_of key tid xs of None \<Rightarrow> version_of key tid ys | Some e \<Rightarrow> Some e)"
  by (induction xs) (auto simp: version_of_def)

lemma version_of_None: "version_of key tid es = None \<longleftrightarrow> (\<forall>e \<in> set es. ekey e = key \<longrightarrow> \<not> visible tid e)"
  by (auto simp: version_of_def find_None_iff)

lemma version_of_index:
  "version_of key tid es = map_option (\<lambda>i. es ! i) (newest_visible es key tid)"
proof -
  have "find P es = map_option (\<lambda>i. es ! i) (find_index P es)" for P :: "entry \<Rightarrow> bool"
    by (induction es) (auto simp: option.map_comp comp_def)
  then show ?thesis by (simp add: version_of_def newest_visible_def)
qed

lemma in_all_entries: "e \<in> set (all_entries ps) \<longleftrightarrow> (\<exists>j < length ps. e \<in> set (snd (ps ! j)))"
proof
  assume "e \<in> set (all_entries ps)"
  then obtain p where "p \<in> set ps" "e \<in> set (snd p)" by (auto simp: all_entries_def)
  then show "\<exists>j < length ps. e \<in> set (snd (ps ! j))" by (auto simp: in_set_conv_nth [of p])
next
  assume "\<exists>j < length ps. e \<in> set (snd (ps ! j))"
  then obtain p where "p \<in> set ps" "e \<in> set (snd p)" using nth_mem by blast
  then show "e \<in> set (all_entries ps)" by (auto simp: all_entries_def)
qed

lemma version_of_part:
  assumes "q < length ps" and "\<forall>j < length ps. key \<in> ekey ` set (snd (ps ! j)) \<longrightarrow> j = q"
  shows "version_of key tid (all_entries ps) = version_of key tid (snd (ps ! q))"
proof -
  have other: "ekey e \<noteq> key" if "e \<in> set (snd (ps ! j))" "j < length ps" "j \<noteq> q" for e j
    using assms(2) that by blast
  have "version_of key tid (all_entries (take q ps)) = None"
    using other assms(1) by (fastforce simp: version_of_None in_all_entries)
  moreover have "version_of key tid (all_entries (drop (Suc q) ps)) = None"
    using other assms(1) by (fastforce simp: version_of_None in_all_entries)
  moreover have "all_entries ps = all_entries (take q ps) @ snd (ps ! q) @ all_entries (drop (Suc q) ps)"
    by (subst id_take_nth_drop [OF assms(1)]) simp
  ultimately show ?thesis
    by (simp add: version_of_append split: option.split)
qed

lemma version_of_nowhere:
  assumes "key \<notin> ekey ` set es"
  shows "version_of key tid es = None"
  using assms by (auto simp: version_of_None)

text \<open>What an iterator shows of a version: its pair and its transaction id, or the end.\<close>

definition shows_version :: "sst \<Rightarrow> (string \<Rightarrow> string) \<Rightarrow> sst_iter \<Rightarrow> store \<Rightarrow> entry option \<Rightarrow> bool" where
  "shows_version s rv it w v \<longleftrightarrow>
     m_sst it = Some s \<and> m_cached_value it = None \<and>
     (case v of
        None \<Rightarrow> SstIterator_is_end it \<and> SstIterator_is_valid it = Inr False \<and> m_block_idx it = int (SST_num_blocks s)
      | Some e \<Rightarrow>
          \<not> SstIterator_is_end it \<and> SstIterator_is_valid it = Inr True \<and>
          (\<exists>it'. SstIterator_deref it w = Inr (read_pair_of rv e, it')) \<and>
          SstIterator_get_cur_tranc_id it = Inr (etranc e))"

lemma seek_block_ok:
  assumes env: "sst_env h s ps disk rv w" and st: "store_ok disk n w" "n + 2 < 2 ^ 64"
    and q: "q < length ps" "m_block_idx it = int q" "m_sst it = Some s" "m_cached_value it = None"
  shows "\<exists>it' w'. SstIterator_seek_block h s key it w = Inr (it', w') \<and> st_fs w' = st_fs w \<and>
    store_ok disk (n + 2) w' \<and> shows_version s rv it' w' (version_of key (m_max_tranc_id it) (snd (ps ! q)))"
proof -
  let ?es = "snd (ps ! q)" and ?tid = "m_max_tranc_id it" and ?keep = "m_keep_all_versions it"
  have repr: "sst_repr h (st_fs w) s ps" and disk: "on_disk disk s ps" and ok: "parts_ok ps"
    and len: "SST_num_blocks s = length ps" and res: "resolves (st_fs w) s ps rv"
    using env by (auto simp: sst_env_def sst_repr_def SST_num_blocks_def)
  obtain ptr w' where rd: "SST_read_block h s (int q) w = Inr ((ptr, decoded (ps ! q)), w')"
    "st_fs w' = st_fs w" "store_ok disk (n + 2) w'"
    using read_block_ok [OF repr q(1) st disk] by blast
  have blk: "block_repr (decoded (ps ! q)) ?es" "sorted_entries ?es"
    using parts_ok_nth [OF ok q(1)] by (auto simp: part_ok_def decoded_def block_repr_decoded)
  obtain bi where bi: "BlockIterator_new_key (ptr, decoded (ps ! q)) key ?tid ?keep = Inr bi"
    "block_iter_inv (ptr, decoded (ps ! q)) ?es bi"
    "current_index bi = (case newest_visible ?es key ?tid of None \<Rightarrow> length ?es | Some i \<Rightarrow> i)"
    using BlockIterator_new_key_inv [OF blk] by blast
  have e: "BlockIterator_is_end bi = Inr (current_index bi = length ?es)"
    using bi(2) blk(1) by (auto simp: BlockIterator_is_end_def block_iter_inv_def block_repr_length)
  show ?thesis
  proof (cases "newest_visible ?es key ?tid")
    case None
    then show ?thesis
      using rd bi e q len
      by (auto simp: SstIterator_seek_block_def shows_version_def version_of_index SstIterator_is_end_def SstIterator_is_valid_def)
  next
    case (Some i)
    then have i: "i < length ?es" "current_index bi = i"
      using newest_visible_nth [OF Some] bi(3) by auto
    have "?es ! i \<in> set (all_entries ps)"
      using i(1) q(1) nth_mem [of i ?es] by (auto simp: in_all_entries)
    then have rv: "SST_resolve_value (st_fs w) s (evalue (?es ! i)) = Inr (rv (evalue (?es ! i)))"
      using res by (auto simp: resolves_def)
    obtain bi' where "BlockIterator_deref bi = Inr (pair_of (?es ! i), bi')"
      using block_iter_deref [OF bi(2)] i by auto
    moreover have "BlockIterator_get_cur_tranc_id bi = Inr (etranc (?es ! i))"
      using bi(2) i blk(1) by (auto simp: BlockIterator_get_cur_tranc_id_def block_iter_inv_def block_reads)
    ultimately show ?thesis
      using rd bi(1) e i q len Some rv
      by (auto simp: SstIterator_seek_block_def shows_version_def version_of_index SstIterator_is_end_def
          SstIterator_is_valid_def SstIterator_deref_def SstIterator_get_cur_tranc_id_def pair_of_def read_pair_of_def)
  qed
qed

lemma seek_ok:
  assumes env: "sst_env h s ps disk rv w" and st: "store_ok disk n w" "n + 2 < 2 ^ 64" and s: "m_sst it = Some s" "m_cached_value it = None"
  shows "\<exists>it' w'. SstIterator_seek h key it w = Inr (it', w') \<and> st_fs w' = st_fs w \<and>
    store_ok disk (n + 2) w' \<and> shows_version s rv it' w' (version_of key (m_max_tranc_id it) (all_entries ps))"
proof -
  have repr: "sst_repr h (st_fs w) s ps" and len: "SST_num_blocks s = length ps"
    using env by (auto simp: sst_env_def sst_repr_def SST_num_blocks_def)
  obtain q where q: "SST_find_block_idx h s key = Inr q" "q = -1 \<or> 0 \<le> q \<and> nat q < length ps"
    "\<forall>j < length ps. key \<in> ekey ` set (snd (ps ! j)) \<longrightarrow> q = int j"
    using find_block_idx_correct [OF repr] by blast
  show ?thesis
  proof (cases "q = -1")
    case True
    then have "\<forall>j < length ps. key \<notin> ekey ` set (snd (ps ! j))" using q(3) by auto
    then have "version_of key (m_max_tranc_id it) (all_entries ps) = None"
      by (intro version_of_nowhere) (fastforce simp: in_all_entries)
    moreover have "store_ok disk (n + 2) w"
      using st(1) unfolding store_ok_def counts_le_def by (auto dest!: bspec)
    ultimately show ?thesis
      using True q(1) s by (auto simp: SstIterator_seek_def catchE_def shows_version_def SstIterator_is_end_def SstIterator_is_valid_def)
  next
    case False
    then obtain j where j: "q = int j" "j < length ps"
      using q(2) nonneg_int_cases [of q] by (metis nat_int)
    have "\<forall>i < length ps. key \<in> ekey ` set (snd (ps ! i)) \<longrightarrow> i = j"
      using q(3) unfolding j(1) of_nat_eq_iff by blast
    from version_of_part [OF j(2) this]
    have "version_of key (m_max_tranc_id it) (all_entries ps) = version_of key (m_max_tranc_id it) (snd (ps ! j))" .
    moreover obtain it' w' where sb: "SstIterator_seek_block h s key (it\<lparr>m_block_idx := q\<rparr>) w = Inr (it', w')"
      "st_fs w' = st_fs w" "store_ok disk (n + 2) w'"
      "shows_version s rv it' w' (version_of key (m_max_tranc_id it) (snd (ps ! j)))"
      using seek_block_ok [OF env st j(2), of "it\<lparr>m_block_idx := q\<rparr>" key] j(1) s by auto
    moreover have "SstIterator_seek h key it w = Inr (it', w')"
      using sb(1) q(1) j False s len by (simp add: SstIterator_seek_def catchE_def Let_def)
    ultimately show ?thesis by auto
  qed
qed

lemma all_entries_ne:
  assumes "sst_repr h fs s ps"
  shows "all_entries ps \<noteq> []" "sorted_entries (all_entries ps)"
  using assms by (cases ps; auto simp: sst_repr_def parts_ok_def part_ok_def)+

lemma SST_get_ok:
  assumes env: "sst_env h s ps disk rv w" and st: "store_ok disk n w" "n + 2 < 2 ^ 64"
  shows "\<exists>it w'. SST_get h s key tid w = Inr (it, w') \<and> st_fs w' = st_fs w \<and> store_ok disk (n + 2) w' \<and>
    shows_version s rv it w' (version_of key tid (all_entries ps))"
proof -
  have repr: "sst_repr h (st_fs w) s ps" and disk: "on_disk disk s ps"
    using env by (auto simp: sst_env_def)
  have keys: "sst_first_key s = ekey (hd (all_entries ps))" "sst_last_key s = ekey (last (all_entries ps))"
    and bl: "bloom_has h (sst_bloom_filter s) (ekey ` set (all_entries ps))"
    using repr by (auto simp: sst_repr_def)
  have at_end: ?thesis if "SST_get h s key tid w = SST_end h s w" and "key \<notin> ekey ` set (all_entries ps)"
    using SST_end_ok [OF repr disk st] that version_of_nowhere [OF that(2), of tid]
    by (auto simp: shows_version_def SstIterator_is_end_def SstIterator_is_valid_def)
  obtain maybe where maybe: "(case sst_bloom_filter s of None \<Rightarrow> Inr True | Some bf \<Rightarrow> possibly_contains h key bf) = Inr maybe"
    using bl by (cases "sst_bloom_filter s") (auto simp: bloom_has_def possibly_contains_def bloom_test_loop_ok)
  consider "key < sst_first_key s \<or> sst_last_key s < key" | "\<not> (key < sst_first_key s \<or> sst_last_key s < key)" "\<not> maybe"
    | "\<not> (key < sst_first_key s \<or> sst_last_key s < key)" "maybe" by blast
  then show ?thesis
  proof cases
    case 1
    then have "key \<notin> ekey ` set (all_entries ps)"
      using sorted_entries_bounds [OF all_entries_ne(2) [OF repr]] keys by fastforce
    with 1 at_end show ?thesis by (simp add: SST_get_def)
  next
    case 2
    then have "key \<notin> ekey ` set (all_entries ps)"
      using bl maybe by (auto simp: bloom_has_def split: option.splits)
    with 2 maybe at_end show ?thesis by (simp add: SST_get_def)
  next
    case 3
    with maybe seek_ok [OF env st, of "SstIterator_empty (Some s) tid False" key] show ?thesis
      by (simp add: SST_get_def SstIterator_new_key_def SstIterator_empty_def)
  qed
qed

end
