(* ===== verification/SSTBuild.thy ===== *)
theory SSTBuild
  imports SstIterator
begin

text \<open>
  What the builder of \<^verbatim>\<open>src/sst/sst.cpp\<close> writes: fed with a sorted list of versions, it closes a block when the
  next key does not fit (versions of one key stay in one block) and the finished file represents
  exactly that list; opening the file gives back the table the builder returned. In the WiscKey
  mode the value log gives back the separated values, and a value that was stored inline although it
  is at least 12 bytes long is misread as a reference.
\<close>

section \<open>The Bloom filter of the builder\<close>

lemma bloom_has_add:
  assumes "bloom_has h (Some bf) ks"
  shows "\<exists>bf'. BloomFilter_add h key bf = Inr bf' \<and> bloom_has h (Some bf') (insert key ks) \<and>
    num_bits bf' = num_bits bf \<and> num_hashes bf' = num_hashes bf"
proof -
  have ok: "bloom_ok bf" and ks: "\<And>k. k \<in> ks \<Longrightarrow> possibly_contains h k bf = Inr True"
    using assms by (auto simp: bloom_has_def)
  obtain bf' where bf': "BloomFilter_add h key bf = Inr bf'" "bloom_ok bf'" "num_bits bf' = num_bits bf"
    "num_hashes bf' = num_hashes bf"
    "\<forall>p < num_bits bf. bits bf' ! p \<longleftrightarrow> bits bf ! p \<or> p \<in> bit_pos h (num_bits bf) key ` set [0..<num_hashes bf]"
    using bloom_add_loop_ok [OF ok, of h key "[0..<num_hashes bf]"] by (auto simp: BloomFilter_add_def)
  have pos: "bit_pos h (num_bits bf) k i < num_bits bf" for k i
    using bit_pos_less [OF ok] ok by (simp add: bloom_ok_def)
  have "possibly_contains h k bf' = Inr True" if "k \<in> insert key ks" for k
  proof -
    have "bits bf' ! bit_pos h (num_bits bf) k i" if i: "i < num_hashes bf" for i
    proof (cases "k = key")
      case True
      then show ?thesis using bf'(5) pos i by auto
    next
      case False
      then have "possibly_contains h k bf = Inr True" using ks \<open>k \<in> insert key ks\<close> by auto
      then have "bits bf ! bit_pos h (num_bits bf) k i"
        using i bloom_test_loop_ok [OF ok, of h k "[0..<num_hashes bf]"] by (simp add: possibly_contains_def)
      then show ?thesis using bf'(5) pos by auto
    qed
    then show ?thesis
      using bloom_test_loop_ok [OF bf'(2), of h k "[0..<num_hashes bf]"] bf'(3,4) by (simp add: possibly_contains_def)
  qed
  with bf' show ?thesis by (auto simp: bloom_has_def)
qed

lemma bloom_has_add_option:
  assumes "bloom_has h (sb_bloom_filter sb) ks"
  shows "\<exists>bloom'. (case sb_bloom_filter sb of None \<Rightarrow> Inr sb
      | Some bf \<Rightarrow> bindE (BloomFilter_add h key bf) (\<lambda>bf. Inr (sb\<lparr>sb_bloom_filter := Some bf\<rparr>))) =
        Inr (sb\<lparr>sb_bloom_filter := bloom'\<rparr>) \<and> bloom_has h bloom' (insert key ks) \<and>
    map_option num_bits bloom' = map_option num_bits (sb_bloom_filter sb) \<and>
    map_option num_hashes bloom' = map_option num_hashes (sb_bloom_filter sb)"
proof (cases "sb_bloom_filter sb")
  case None
  then have "sb\<lparr>sb_bloom_filter := None\<rparr> = sb" by (cases sb) simp
  with None show ?thesis by (simp add: bloom_has_def)
next
  case (Some bf)
  with bloom_has_add [of h bf ks key] assms show ?thesis by auto
qed

section \<open>The invariant of the builder\<close>

definition key_bytes :: "string \<Rightarrow> entry list \<Rightarrow> nat" where
  "key_bytes k es = length (entries_bytes (filter (\<lambda>e. ekey e = k) es))"

definition builder_inv :: "(string \<Rightarrow> u64) \<Rightarrow> sst_builder \<Rightarrow> sst_part list \<Rightarrow> entry list \<Rightarrow> bool" where
  "builder_inv h sb ps cs \<longleftrightarrow>
     parts_ok ps \<and> block_repr (sb_block sb) cs \<and> sorted_entries (all_entries ps @ cs) \<and>
     (\<forall>p \<in> set ps. \<forall>x \<in> set (snd p). \<forall>y \<in> set cs. ekey x < ekey y) \<and>
     sb_data sb = blocks_bytes h ps \<and> sb_meta_entries sb = index_from h 0 ps \<and>
     (if cs = [] then ps = [] \<and> sb_first_key sb = [] \<and> sb_last_key sb = []
      else sb_first_key sb = ekey (hd cs) \<and> sb_last_key sb = ekey (last cs)) \<and>
     (\<forall>e \<in> set (all_entries ps @ cs). ekey e \<noteq> []) \<and>
     length (data (sb_block sb)) \<le> capacity (sb_block sb) + key_bytes (sb_last_key sb) cs \<and>
     bloom_has h (sb_bloom_filter sb) (ekey ` set (all_entries ps @ cs))"

text \<open>An entry that may be added after the entries \<open>es\<close>.\<close>

definition may_add :: "nat \<Rightarrow> entry list \<Rightarrow> entry \<Rightarrow> bool" where
  "may_add cap es e \<longleftrightarrow>
     small_entry e \<and> ekey e \<noteq> [] \<and> (\<forall>x \<in> set es. entry_le x e) \<and>
     (\<forall>k. cap + key_bytes k (es @ [e]) < 2 ^ 16)"

lemma key_bytes_simps [simp]:
  "key_bytes k [] = 0"
  "key_bytes k (e # es) = (if ekey e = k then length (entry_bytes e) else 0) + key_bytes k es"
  "key_bytes k (es @ fs) = key_bytes k es + key_bytes k fs"
  by (simp_all add: key_bytes_def)

lemma entries_bytes_length: "12 * length es \<le> length (entries_bytes es)"
  by (induction es) simp_all

lemma current_part_ok:
  assumes inv: "builder_inv h sb ps cs" and "cs \<noteq> []" and small: "\<forall>k. capacity (sb_block sb) + key_bytes k cs < 2 ^ 16"
  shows "part_ok (sb_block sb, cs)" and "length (data (sb_block sb)) < 2 ^ 16"
proof -
  have repr: "block_repr (sb_block sb) cs"
    and "length (data (sb_block sb)) \<le> capacity (sb_block sb) + key_bytes (sb_last_key sb) cs"
    using inv by (auto simp: builder_inv_def)
  with small show len: "length (data (sb_block sb)) < 2 ^ 16"
    using le_less_trans by blast
  have "data (sb_block sb) = entries_bytes cs" using repr by (simp add: block_repr_def)
  then have "length cs < 2 ^ 16" using len entries_bytes_length [of cs] by simp
  with repr assms(2) show "part_ok (sb_block sb, cs)" by (simp add: part_ok_def)
qed

lemma finish_parts_ok:
  assumes inv: "builder_inv h sb ps cs" and "cs \<noteq> []" and small: "\<forall>k. capacity (sb_block sb) + key_bytes k cs < 2 ^ 16"
  shows "parts_ok (ps @ [(sb_block sb, cs)])"
proof -
  have "parts_ok ps" "sorted_entries (all_entries ps @ cs)"
    "\<forall>p \<in> set ps. \<forall>x \<in> set (snd p). \<forall>y \<in> set cs. ekey x < ekey y"
    using inv by (auto simp: builder_inv_def)
  with current_part_ok(1) [OF assms] show ?thesis
    by (auto simp: parts_ok_def sorted_wrt_append key_apart_def)
qed

lemma finish_index:
  assumes inv: "builder_inv h sb ps cs" and "cs \<noteq> []"
  shows "sb_meta_entries (SSTBuilder_finish_block h sb) = index_from h 0 (ps @ [(sb_block sb, cs)])"
    and "sb_data (SSTBuilder_finish_block h sb) = blocks_bytes h (ps @ [(sb_block sb, cs)])"
  using assms by (auto simp: builder_inv_def SSTBuilder_finish_block_def index_from_append)

section \<open>Adding an entry\<close>

text \<open>The builder after the first part of \<^verbatim>\<open>add\<close>: first key, filter and range of transaction ids updated.\<close>

definition prepared :: "string \<Rightarrow> u64 \<Rightarrow> bloom_filter option \<Rightarrow> sst_builder \<Rightarrow> sst_builder" where
  "prepared key tid bloom sb =
     sb\<lparr>sb_first_key := (if sb_first_key sb = [] then key else sb_first_key sb), sb_bloom_filter := bloom,
        sb_max_tranc_id := max (sb_max_tranc_id sb) tid, sb_min_tranc_id := min (sb_min_tranc_id sb) tid\<rparr>"

definition same_config :: "sst_builder \<Rightarrow> sst_builder \<Rightarrow> bool" where
  "same_config sb sb' \<longleftrightarrow>
     capacity (sb_block sb') = capacity (sb_block sb) \<and> sb_storage_mode sb' = sb_storage_mode sb \<and>
     sb_vlog sb' = sb_vlog sb \<and> sb_threshold sb' = sb_threshold sb \<and>
     map_option num_bits (sb_bloom_filter sb') = map_option num_bits (sb_bloom_filter sb) \<and>
     map_option num_hashes (sb_bloom_filter sb') = map_option num_hashes (sb_bloom_filter sb)"

lemma separate_value_cong:
  assumes "sb_vlog sb' = sb_vlog sb" "sb_storage_mode sb' = sb_storage_mode sb" "sb_threshold sb' = sb_threshold sb"
  shows "separate_value key val (fs, sb') = separate_value key val (fs, sb)"
  unfolding separate_value_def prod.case Let_def assms by (rule refl)

lemma builder_add_unfold:
  assumes "bloom_has h (sb_bloom_filter sb) ks" and "separate_value key val (fs, sb) = Inr (fs', v)"
  shows "\<exists>bloom. bloom_has h bloom (insert key ks) \<and>
    map_option num_bits bloom = map_option num_bits (sb_bloom_filter sb) \<and>
    map_option num_hashes bloom = map_option num_hashes (sb_bloom_filter sb) \<and>
    SSTBuilder_add h key val tid (fs, sb) =
      (let sb1 = prepared key tid bloom sb in
       bindE (Block_add_entry key v tid (key = sb_last_key sb) (sb_block sb)) (\<lambda>(b, ok).
         if ok then Inr (fs', sb1\<lparr>sb_block := b, sb_last_key := key\<rparr>)
         else
           let sb2 = SSTBuilder_finish_block h sb1 in
           bindE (Block_add_entry key v tid False (sb_block sb2)) (\<lambda>(b, _).
             Inr (fs', sb2\<lparr>sb_block := b, sb_first_key := key, sb_last_key := key\<rparr>))))"
proof -
  let ?sb = "if sb_first_key sb = [] then sb\<lparr>sb_first_key := key\<rparr> else sb"
  have same: "sb_bloom_filter ?sb = sb_bloom_filter sb" "sb_last_key ?sb = sb_last_key sb" "sb_block ?sb = sb_block sb"
    by simp_all
  obtain bloom where bloom: "(case sb_bloom_filter ?sb of None \<Rightarrow> Inr ?sb
      | Some bf \<Rightarrow> bindE (BloomFilter_add h key bf) (\<lambda>bf. Inr (?sb\<lparr>sb_bloom_filter := Some bf\<rparr>))) =
        Inr (?sb\<lparr>sb_bloom_filter := bloom\<rparr>)" "bloom_has h bloom (insert key ks)"
    "map_option num_bits bloom = map_option num_bits (sb_bloom_filter sb)"
    "map_option num_hashes bloom = map_option num_hashes (sb_bloom_filter sb)"
    using bloom_has_add_option [of h ?sb ks key] assms(1) unfolding same by blast
  let ?sb1 = "?sb\<lparr>sb_bloom_filter := bloom\<rparr>"
  have prep: "?sb1\<lparr>sb_max_tranc_id := max (sb_max_tranc_id ?sb1) tid, sb_min_tranc_id := min (sb_min_tranc_id ?sb1) tid\<rparr> =
      prepared key tid bloom sb"
    by (cases sb) (simp add: prepared_def)
  have sep: "separate_value key val (fs, prepared key tid bloom sb) = Inr (fs', v)"
    using assms(2) separate_value_cong [of "prepared key tid bloom sb" sb] by (simp add: prepared_def)
  have keys: "sb_last_key (prepared key tid bloom sb) = sb_last_key sb" "sb_block (prepared key tid bloom sb) = sb_block sb"
    by (simp_all add: prepared_def)
  show ?thesis
    by (intro exI [of _ bloom] conjI bloom(2-4), unfold SSTBuilder_add_def Let_def prod.case bloom(1) bindE_simps prep sep keys,
        rule refl)
qed

lemma builder_add_fits:
  assumes inv: "builder_inv h sb ps cs" and add: "may_add (capacity (sb_block sb)) (all_entries ps @ cs) e"
    and bl: "bloom_has h bloom (insert (ekey e) (ekey ` set (all_entries ps @ cs)))"
    and b: "block_repr b (cs @ [e])" "capacity b = capacity (sb_block sb)"
    and fits: "ekey e = sb_last_key sb \<or> cs = [] \<or> Block_cur_size (sb_block sb) + length (ekey e) + length (evalue e) + 14 \<le> capacity (sb_block sb)"
    and apart: "\<forall>p \<in> set ps. \<forall>x \<in> set (snd p). ekey x < ekey e"
  shows "builder_inv h ((prepared (ekey e) (etranc e) bloom sb)\<lparr>sb_block := b, sb_last_key := ekey e\<rparr>) ps (cs @ [e])"
proof -
  have repr: "block_repr (sb_block sb) cs" and bound: "length (data (sb_block sb)) \<le> capacity (sb_block sb) + key_bytes (sb_last_key sb) cs"
    using inv by (auto simp: builder_inv_def)
  have dat: "data b = data (sb_block sb) @ entry_bytes e" and dat0: "data (sb_block sb) = entries_bytes cs"
    using b(1) repr by (simp_all add: block_repr_def)
  have "length (data b) \<le> capacity b + key_bytes (ekey e) (cs @ [e])"
    using fits
  proof (elim disjE)
    assume "ekey e = sb_last_key sb"
    with bound show ?thesis by (simp add: dat b(2))
  next
    assume "cs = []"
    then show ?thesis by (simp add: dat dat0)
  next
    assume "Block_cur_size (sb_block sb) + length (ekey e) + length (evalue e) + 14 \<le> capacity (sb_block sb)"
    then show ?thesis by (simp add: dat b(2) Block_cur_size_def)
  qed
  moreover have "sorted_entries ((all_entries ps @ cs) @ [e])"
    using inv add by (simp add: builder_inv_def may_add_def sorted_entries_def sorted_wrt_append)
  ultimately show ?thesis
    using inv add bl b(1) apart by (auto simp: builder_inv_def prepared_def may_add_def hd_append)
qed

lemma may_add_small:
  assumes "may_add cap es e"
  shows "cap + key_bytes k es < 2 ^ 16"
proof -
  have "cap + key_bytes k (es @ [e]) < 2 ^ 16" using assms by (simp add: may_add_def del: key_bytes_simps)
  then show ?thesis by simp
qed

lemma key_bytes_le: "key_bytes k cs \<le> key_bytes k (xs @ cs)"
  by simp

lemma builder_parts_below:
  assumes inv: "builder_inv h sb ps cs" and add: "may_add (capacity (sb_block sb)) (all_entries ps @ cs) e"
  shows "\<forall>p \<in> set ps. \<forall>x \<in> set (snd p). ekey x < ekey e"
proof (cases cs)
  case Nil
  with inv show ?thesis by (simp add: builder_inv_def)
next
  case (Cons c cs')
  have "ekey c \<le> ekey e"
    using add Cons by (auto simp: may_add_def entry_le_def)
  with inv Cons show ?thesis
    by (fastforce simp: builder_inv_def)
qed

lemma builder_add_closes:
  assumes inv: "builder_inv h sb ps cs" and add: "may_add (capacity (sb_block sb)) (all_entries ps @ cs) e"
    and bl: "bloom_has h bloom (insert (ekey e) (ekey ` set (all_entries ps @ cs)))"
    and ne: "cs \<noteq> []" "ekey e \<noteq> sb_last_key sb"
    and b: "block_repr b [e]" "capacity b = capacity (sb_block sb)"
  shows "builder_inv h ((SSTBuilder_finish_block h (prepared (ekey e) (etranc e) bloom sb))
      \<lparr>sb_block := b, sb_first_key := ekey e, sb_last_key := ekey e\<rparr>) (ps @ [(sb_block sb, cs)]) [e]"
proof -
  have small: "\<forall>k. capacity (sb_block sb) + key_bytes k cs < 2 ^ 16"
    using may_add_small [OF add] key_bytes_le [of _ cs "all_entries ps"] by (metis add_le_cancel_left order_le_less_trans)
  note parts = finish_parts_ok [OF inv ne(1) small]
  have fk: "sb_first_key sb = ekey (hd cs)" "sb_last_key sb = ekey (last cs)" "ekey (hd cs) \<noteq> []"
    using inv ne(1) by (auto simp: builder_inv_def)
  have sorted: "sorted_entries (all_entries ps @ cs @ [e])" "sorted_entries cs"
    using inv add by (auto simp: builder_inv_def may_add_def sorted_entries_def sorted_wrt_append)
  have "ekey (last cs) < ekey e"
    using sorted(1) ne fk(2) last_in_set [OF ne(1)] by (auto simp: sorted_entries_def sorted_wrt_append entry_le_def)
  then have cs_lt: "ekey x < ekey e" if "x \<in> set cs" for x
    using sorted_entries_bounds(2) [OF sorted(2) that] by (rule le_less_trans [rotated])
  have ps_lt: "ekey x < ekey e" if "p \<in> set ps" "x \<in> set (snd p)" for p x
    using inv that ne(1) cs_lt [OF hd_in_set [OF ne(1)]] hd_in_set [OF ne(1)] less_trans
    unfolding builder_inv_def by blast
  have dat: "data b = entry_bytes e" using b(1) by (simp add: block_repr_def)
  have idx: "sb_meta_entries (SSTBuilder_finish_block h (prepared (ekey e) (etranc e) bloom sb)) = index_from h 0 (ps @ [(sb_block sb, cs)])"
    "sb_data (SSTBuilder_finish_block h (prepared (ekey e) (etranc e) bloom sb)) = blocks_bytes h (ps @ [(sb_block sb, cs)])"
    using finish_index [OF inv ne(1)] fk by (simp_all add: SSTBuilder_finish_block_def prepared_def)
  show ?thesis
    unfolding builder_inv_def
  proof (intro conjI)
    show "parts_ok (ps @ [(sb_block sb, cs)])" by (rule parts)
    show "sorted_entries (all_entries (ps @ [(sb_block sb, cs)]) @ [e])" using sorted(1) by simp
    show "\<forall>p \<in> set (ps @ [(sb_block sb, cs)]). \<forall>x \<in> set (snd p). \<forall>y \<in> set [e]. ekey x < ekey y"
      using cs_lt ps_lt by auto
    show "\<forall>x \<in> set (all_entries (ps @ [(sb_block sb, cs)]) @ [e]). ekey x \<noteq> []"
      using inv add by (auto simp: builder_inv_def may_add_def)
  qed (use b idx bl in \<open>simp_all add: dat SSTBuilder_finish_block_def prepared_def Un_commute\<close>)
qed

lemma builder_add_ok:
  assumes inv: "builder_inv h sb ps cs" and sep: "separate_value key val (fs, sb) = Inr (fs', v)"
    and add: "may_add (capacity (sb_block sb)) (all_entries ps @ cs) \<lparr>ekey = key, evalue = v, etranc = tid\<rparr>"
  shows "\<exists>sb' ps' cs'. SSTBuilder_add h key val tid (fs, sb) = Inr (fs', sb') \<and> builder_inv h sb' ps' cs' \<and>
    all_entries ps' @ cs' = all_entries ps @ cs @ [\<lparr>ekey = key, evalue = v, etranc = tid\<rparr>] \<and> cs' \<noteq> [] \<and> same_config sb sb' \<and>
    sb_max_tranc_id sb' = max (sb_max_tranc_id sb) tid \<and> sb_min_tranc_id sb' = min (sb_min_tranc_id sb) tid"
proof -
  let ?e = "\<lparr>ekey = key, evalue = v, etranc = tid\<rparr>"
  have repr: "block_repr (sb_block sb) cs" and small: "small_entry ?e" and key: "key \<noteq> []"
    using inv add by (auto simp: builder_inv_def may_add_def)
  have len: "length (data (sb_block sb)) < 2 ^ 16"
  proof (cases "cs = []")
    case True
    with repr show ?thesis by (simp add: block_repr_def)
  next
    case False
    show ?thesis
      using current_part_ok(2) [OF inv False] may_add_small [OF add] key_bytes_le [of _ cs "all_entries ps"]
      by (metis add_le_cancel_left order_le_less_trans)
  qed
  obtain bloom where bl: "bloom_has h bloom (insert key (ekey ` set (all_entries ps @ cs)))"
    "map_option num_bits bloom = map_option num_bits (sb_bloom_filter sb)"
    "map_option num_hashes bloom = map_option num_hashes (sb_bloom_filter sb)"
    "SSTBuilder_add h key val tid (fs, sb) =
      (let sb1 = prepared key tid bloom sb in
       bindE (Block_add_entry key v tid (key = sb_last_key sb) (sb_block sb)) (\<lambda>(b, ok).
         if ok then Inr (fs', sb1\<lparr>sb_block := b, sb_last_key := key\<rparr>)
         else
           let sb2 = SSTBuilder_finish_block h sb1 in
           bindE (Block_add_entry key v tid False (sb_block sb2)) (\<lambda>(b, _).
             Inr (fs', sb2\<lparr>sb_block := b, sb_first_key := key, sb_last_key := key\<rparr>))))"
    using builder_add_unfold [OF _ sep, of h "ekey ` set (all_entries ps @ cs)" tid] inv
    unfolding builder_inv_def by blast
  obtain b ok where b: "Block_add_entry key v tid (key = sb_last_key sb) (sb_block sb) = Inr (b, ok)"
    "ok \<longleftrightarrow> key = sb_last_key sb \<or> cs = [] \<or> Block_cur_size (sb_block sb) + length key + length v + 14 \<le> capacity (sb_block sb)"
    "capacity b = capacity (sb_block sb)" "block_repr b (if ok then cs @ [?e] else cs)"
    using add_entry_repr [OF repr small len, of "key = sb_last_key sb"] by (auto split: sum.splits)
  show ?thesis
  proof (cases ok)
    case True
    let ?sb = "(prepared key tid bloom sb)\<lparr>sb_block := b, sb_last_key := key\<rparr>"
    have "\<forall>p \<in> set ps. \<forall>x \<in> set (snd p). ekey x < key"
      using builder_parts_below [OF inv add] by simp
    then have "builder_inv h ?sb ps (cs @ [?e])"
      using builder_add_fits [OF inv add, of bloom b] bl(1) b True by simp
    moreover have "SSTBuilder_add h key val tid (fs, sb) = Inr (fs', ?sb)"
      using bl(4) b(1) True by (simp add: Let_def)
    ultimately show ?thesis
      using bl(2,3) b(3) by (intro exI [of _ ?sb] exI [of _ ps] exI [of _ "cs @ [?e]"])
        (simp add: same_config_def prepared_def)
  next
    case False
    let ?sb2 = "SSTBuilder_finish_block h (prepared key tid bloom sb)"
    have nb: "sb_block ?sb2 = (sb_block sb)\<lparr>data := [], offsets := []\<rparr>"
      by (simp add: SSTBuilder_finish_block_def prepared_def)
    have "block_repr (sb_block ?sb2) []" "length (data (sb_block ?sb2)) < 2 ^ 16"
      by (simp_all add: nb block_repr_def)
    from add_entry_repr [OF this(1) small this(2), of False]
    obtain b2 where b2: "Block_add_entry key v tid False (sb_block ?sb2) = Inr (b2, True)"
      "capacity b2 = capacity (sb_block sb)" "block_repr b2 [?e]"
      by (auto simp: nb split: sum.splits)
    let ?sb = "?sb2\<lparr>sb_block := b2, sb_first_key := key, sb_last_key := key\<rparr>"
    have "builder_inv h ?sb (ps @ [(sb_block sb, cs)]) [?e]"
      using builder_add_closes [OF inv add, of bloom b2] bl(1) b(2) False b2 by simp
    moreover have "SSTBuilder_add h key val tid (fs, sb) = Inr (fs', ?sb)"
      using bl(4) b(1) False b2(1) by (simp add: Let_def)
    ultimately show ?thesis
      using bl(2,3) b2(2) by (intro exI [of _ ?sb] exI [of _ "ps @ [(sb_block sb, cs)]"] exI [of _ "[?e]"])
        (simp add: same_config_def prepared_def SSTBuilder_finish_block_def)
  qed
qed

section \<open>Adding a sorted list\<close>

text \<open>The loop of \<^verbatim>\<open>flush_last\<close> and of the compaction: \<^verbatim>\<open>builder.add\<close> for every entry.\<close>

primrec SSTBuilder_adds ::
  "(string \<Rightarrow> u64) \<Rightarrow> entry list \<Rightarrow> filesys \<times> sst_builder \<Rightarrow> (filesys \<times> sst_builder) result" where
  "SSTBuilder_adds h [] s = Inr s"
| "SSTBuilder_adds h (e # es) s = bindE (SSTBuilder_add h (ekey e) (evalue e) (etranc e) s) (SSTBuilder_adds h es)"

definition buildable :: "nat \<Rightarrow> entry list \<Rightarrow> bool" where
  "buildable cap es \<longleftrightarrow>
     sorted_entries es \<and> (\<forall>e \<in> set es. small_entry e \<and> ekey e \<noteq> []) \<and>
     (\<forall>k. cap + key_bytes k es < 2 ^ 16)"

lemma buildable_may_add:
  assumes "buildable cap (xs @ e # ys)"
  shows "may_add cap xs e"
proof -
  have "cap + key_bytes k (xs @ [e]) < 2 ^ 16" for k
    using assms by (auto simp: buildable_def elim: allE [of _ k])
  with assms show ?thesis
    by (auto simp: buildable_def may_add_def sorted_entries_def sorted_wrt_append simp del: key_bytes_simps)
qed

lemma same_config_refl [simp]: "same_config sb sb"
  by (simp add: same_config_def)

lemma same_config_trans: "same_config a b \<Longrightarrow> same_config b c \<Longrightarrow> same_config a c"
  by (simp add: same_config_def)

lemma separate_inline:
  assumes "sb_storage_mode sb \<noteq> 1 \<or> sb_vlog sb = None"
  shows "separate_value key val (fs, sb) = Inr (fs, val)"
  using assms by (auto simp: separate_value_def split: option.split)

lemma builder_adds_ok:
  assumes "builder_inv h sb ps cs" and "buildable (capacity (sb_block sb)) (all_entries ps @ cs @ es)"
    and "sb_storage_mode sb \<noteq> 1 \<or> sb_vlog sb = None"
  shows "\<exists>sb' ps' cs'. SSTBuilder_adds h es (fs, sb) = Inr (fs, sb') \<and> builder_inv h sb' ps' cs' \<and>
    all_entries ps' @ cs' = all_entries ps @ cs @ es \<and> same_config sb sb' \<and> (cs \<noteq> [] \<or> es \<noteq> [] \<longrightarrow> cs' \<noteq> []) \<and>
    sb_max_tranc_id sb' = foldl max (sb_max_tranc_id sb) (map etranc es) \<and>
    sb_min_tranc_id sb' = foldl min (sb_min_tranc_id sb) (map etranc es)"
  using assms
proof (induction es arbitrary: sb ps cs)
  case Nil
  then show ?case by auto
next
  case (Cons e es)
  have "may_add (capacity (sb_block sb)) (all_entries ps @ cs) \<lparr>ekey = ekey e, evalue = evalue e, etranc = etranc e\<rparr>"
    using buildable_may_add [of _ "all_entries ps @ cs" e es] Cons.prems(2) by (cases e) simp
  then obtain sb1 ps1 cs1 where s1: "SSTBuilder_add h (ekey e) (evalue e) (etranc e) (fs, sb) = Inr (fs, sb1)"
    "builder_inv h sb1 ps1 cs1" "all_entries ps1 @ cs1 = all_entries ps @ cs @ [e]" "cs1 \<noteq> []" "same_config sb sb1"
    "sb_max_tranc_id sb1 = max (sb_max_tranc_id sb) (etranc e)" "sb_min_tranc_id sb1 = min (sb_min_tranc_id sb) (etranc e)"
    using builder_add_ok [OF Cons.prems(1) separate_inline [OF Cons.prems(3), of "ekey e" "evalue e" fs], of "etranc e"]
    by (cases e) auto
  have eq: "all_entries ps1 @ cs1 @ es = all_entries ps @ cs @ e # es"
    using s1(3) by (metis append.assoc append_Cons append_Nil)
  have b1: "buildable (capacity (sb_block sb1)) (all_entries ps1 @ cs1 @ es)"
    unfolding eq using Cons.prems(2) s1(5) by (simp add: same_config_def)
  have "sb_storage_mode sb1 \<noteq> 1 \<or> sb_vlog sb1 = None"
    using Cons.prems(3) s1(5) by (simp add: same_config_def)
  from Cons.IH [OF s1(2) b1 this] obtain sb' ps' cs' where
    "SSTBuilder_adds h es (fs, sb1) = Inr (fs, sb')" "builder_inv h sb' ps' cs'"
    "all_entries ps' @ cs' = all_entries ps1 @ cs1 @ es" "same_config sb1 sb'" "cs' \<noteq> []"
    "sb_max_tranc_id sb' = foldl max (sb_max_tranc_id sb1) (map etranc es)"
    "sb_min_tranc_id sb' = foldl min (sb_min_tranc_id sb1) (map etranc es)"
    using s1(4) by blast
  with s1 eq show ?case
    by (intro exI [of _ sb'] exI [of _ ps'] exI [of _ cs']) (auto intro: same_config_trans)
qed

definition fresh_bloom :: "(string \<Rightarrow> u64) \<Rightarrow> bloom_filter option \<Rightarrow> bool" where
  "fresh_bloom h bloom \<longleftrightarrow> bloom_has h bloom {}"

lemma new_block_simps [simp]: "data (new_block cap) = []" "capacity (new_block cap) = cap" "offsets (new_block cap) = []"
  by (simp_all add: new_block_def)

lemma builder_new_inv:
  assumes "has_bloom \<Longrightarrow> bloom_ok (BloomFilter_new dval expected rate)"
  shows "builder_inv h (SSTBuilder_new dval expected rate block_size has_bloom) [] []"
  using assms by (auto simp: builder_inv_def SSTBuilder_new_def parts_ok_def sorted_entries_def bloom_has_def)

section \<open>Writing the file\<close>

definition footer_bytes :: "u32 \<Rightarrow> u32 \<Rightarrow> sst_builder \<Rightarrow> bytes" where
  "footer_bytes meta_off bloom_offset sb =
     u32_bytes meta_off @ u32_bytes bloom_offset @ u64_bytes (sb_min_tranc_id sb) @ u64_bytes (sb_max_tranc_id sb) @
     (if sb_storage_mode sb = 1 then [sb_storage_mode sb, WISCKEY_MAGIC] else [])"

lemma resize_grow: "resize (length xs + n) xs = xs @ replicate n 0"
  by (simp add: resize_def)

lemma memwrite_zero_tail:
  "off = length pre \<Longrightarrow> length src \<le> n \<Longrightarrow>
   memwrite (pre @ replicate n z) off src = Inr ((pre @ src) @ replicate (n - length src) z)"
  by (simp add: memwrite_append)

lemma footer_writes:
  fixes content :: bytes
  assumes "24 \<le> n" and "length m = 4" "length b = 4" "length i = 8" "length a = 8"
  shows "bindE (memwrite (content @ replicate n 0) (length content) m) (\<lambda>c.
      bindE (memwrite c (length content + 4) b) (\<lambda>c.
      bindE (memwrite c (length content + 4 * 2) i) (\<lambda>c.
      bindE (memwrite c (length content + 4 * 2 + 8) a) k))) = k ((content @ m @ b @ i @ a) @ replicate (n - 24) 0)"
proof -
  note w = memwrite_zero_tail [where z = "0 :: byte"]
  have "memwrite (content @ replicate n 0) (length content) m = Inr ((content @ m) @ replicate (n - 4) 0)"
    using w [of "length content" content m n] assms by simp
  moreover have "memwrite ((content @ m) @ replicate (n - 4) 0) (length content + 4) b =
      Inr ((content @ m @ b) @ replicate (n - 8) 0)"
    using w [of "length content + 4" "content @ m" b "n - 4"] assms by simp
  moreover have "memwrite ((content @ m @ b) @ replicate (n - 8) 0) (length content + 4 * 2) i =
      Inr ((content @ m @ b @ i) @ replicate (n - 16) 0)"
    using w [of "length content + 8" "content @ m @ b" i "n - 8"] assms by simp
  moreover have "memwrite ((content @ m @ b @ i) @ replicate (n - 16) 0) (length content + 4 * 2 + 8) a =
      Inr ((content @ m @ b @ i @ a) @ replicate (n - 24) 0)"
    using w [of "16 + length content" "content @ m @ b @ i" a "n - 16"] assms by simp
  ultimately show ?thesis by (simp only: bindE_simps)
qed

lemma memwrite_last_two:
  "memwrite (c @ [0, 0]) (length (c @ [0, 0]) - 2) [x] = Inr (c @ [x, 0])"
  "memwrite (c @ [x, 0]) (length (c @ [x, 0]) - 1) [y] = Inr (c @ [x, y])"
  using memwrite_append [of "length c" c "[x]" "[0, 0]"] memwrite_append [of "length c + 1" "c @ [x]" "[y]" "[0]"]
  by simp_all

lemma write_footer_bytes:
  "write_footer meta_off bloom_offset sb content = Inr (content @ footer_bytes meta_off bloom_offset sb)"
proof -
  let ?n = "OLD_FOOTER_SIZE + (if sb_storage_mode sb = 1 then 2 else 0)"
  let ?m = "u32_bytes meta_off" and ?b = "u32_bytes bloom_offset"
    and ?i = "u64_bytes (sb_min_tranc_id sb)" and ?a = "u64_bytes (sb_max_tranc_id sb)"
  have n: "24 \<le> ?n" and rest: "replicate (?n - 24) (0 :: byte) = (if sb_storage_mode sb = 1 then [0, 0] else [])"
    by (simp_all add: OLD_FOOTER_SIZE_def numeral_2_eq_2)
  note run = footer_writes [OF n, of ?m ?b ?i ?a content]
  show ?thesis
    unfolding write_footer_def Let_def resize_grow
    by (subst run; (simp; fail)?)
      (use memwrite_last_two [of "content @ ?m @ ?b @ ?i @ ?a"] in
        \<open>unfold rest, cases "sb_storage_mode sb = 1", simp_all add: footer_bytes_def u8_bytes_def\<close>)
qed

lemma create_and_write_content:
  assumes "buf \<noteq> []"
  shows "\<exists>fs' f. FileObj_create_and_write fs path buf = Inr (fs', f) \<and> StdFile_is_open f \<and>
    file_content (fs', f) = buf \<and> dir fs' path = fd f"
  using assms
  by (cases "dir fs path") (auto simp: FileObj_create_and_write_def StdFile_create_def StdFile_open_def Let_def
      StdFile_write_def StdFile_is_open_def file_content_def pwrite_bytes_def)

section \<open>Sizes\<close>

lemma length_u16s [simp]: "length (concat (map u16_bytes ws)) = 2 * length ws"
  by (induction ws) simp_all

lemma part_size:
  assumes "part_ok p"
  shows "length (Block_encode h True (fst p)) \<le> length (entries_bytes (snd p)) + 8 * length (snd p)"
    and "length (ekey (hd (snd p))) + length (ekey (last (snd p))) + 24 \<le> 2 * length (entries_bytes (snd p))"
proof -
  have ne: "snd p \<noteq> []" and data: "data (fst p) = entries_bytes (snd p)" "length (offsets (fst p)) = length (snd p)"
    using assms by (auto simp: part_ok_def block_repr_def)
  have "Suc 0 \<le> length (snd p)" using ne by (simp add: Suc_le_eq)
  then show "length (Block_encode h True (fst p)) \<le> length (entries_bytes (snd p)) + 8 * length (snd p)"
    unfolding Block_encode_def Let_def data by (simp add: data)
  have one: "length (ekey e) + 12 \<le> length (entries_bytes es)" if "e \<in> set es" for e es
    using that by (induction es) auto
  show "length (ekey (hd (snd p))) + length (ekey (last (snd p))) + 24 \<le> 2 * length (entries_bytes (snd p))"
    using one [OF hd_in_set [OF ne]] one [OF last_in_set [OF ne]] by simp
qed

lemma file_size_bound:
  assumes "\<forall>p \<in> set ps. part_ok p"
  shows "length (blocks_bytes h ps) + length (metas_bytes (index_from h off ps)) \<le> 4 * length (entries_bytes (all_entries ps))"
  using assms
proof (induction ps arbitrary: off)
  case Nil
  then show ?case by simp
next
  case (Cons p ps)
  have "part_ok p" using Cons.prems by simp
  note sz = part_size [OF this] entries_bytes_length [of "snd p"]
  have len: "length (blocks_bytes h (p # ps)) + length (metas_bytes (index_from h off (p # ps))) =
      length (Block_encode h True (fst p)) + (length (ekey (hd (snd p))) + length (ekey (last (snd p))) + 8) +
      (length (blocks_bytes h ps) + length (metas_bytes (index_from h (off + length (Block_encode h True (fst p))) ps)))"
    by (simp add: meta_size_def)
  have "length (Block_encode h True (fst p)) + (length (ekey (hd (snd p))) + length (ekey (last (snd p))) + 8) \<le>
      4 * length (entries_bytes (snd p))"
    using sz(1) [of h] sz(2,3) by linarith
  then show ?case
    unfolding len using Cons.IH [of "off + length (Block_encode h True (fst p))"] Cons.prems by simp
qed

lemma index_small:
  assumes "\<forall>p \<in> set ps. part_ok p" and "length (blocks_bytes h ps) < 2 ^ 32"
  shows "\<forall>m \<in> set (index_from h 0 ps). small_meta m"
proof
  fix m assume "m \<in> set (index_from h 0 ps)"
  then obtain i where i: "i < length ps" "m = index_from h 0 ps ! i"
    by (auto simp: in_set_conv_nth)
  let ?p = "ps ! i"
  have "part_ok ?p" using assms(1) i(1) by simp
  then have "snd ?p \<noteq> []" "\<forall>e \<in> set (snd ?p). small_entry e"
    by (auto simp: part_ok_def block_repr_def)
  then have "small_entry (hd (snd ?p))" "small_entry (last (snd ?p))"
    by (blast intro: hd_in_set last_in_set)+
  moreover have "length (blocks_bytes h (take i ps)) < 2 ^ 32"
    using assms(2) blocks_bytes_at [OF i(1), of h] by simp
  ultimately show "small_meta m"
    using i by (simp add: index_from_nth small_meta_def small_entry_def)
qed

section \<open>Building the table\<close>

definition bloom_bytes :: "bloom_filter option \<Rightarrow> bytes result" where
  "bloom_bytes bloom = (case bloom of None \<Rightarrow> Inr [] | Some bf \<Rightarrow> BloomFilter_encode bf)"

lemma mapE_length: "mapE f xs = Inr ys \<Longrightarrow> length ys = length xs"
  by (induction xs arbitrary: ys) (auto simp: bindE_eq_Inr)

lemma bloom_bytes_ok:
  assumes "bloom_has h bloom ks" and "\<forall>bf. bloom = Some bf \<longrightarrow> num_bits bf < 2 ^ 34 \<and> num_hashes bf < 2 ^ 64"
  shows "\<exists>bs. bloom_bytes bloom = Inr bs \<and> length bs < 2 ^ 32 \<and>
    (case bloom of None \<Rightarrow> bs = [] | Some bf \<Rightarrow> bs \<noteq> [] \<and> BloomFilter_decode bs = Inr bf)"
proof (cases bloom)
  case None
  then show ?thesis by (simp add: bloom_bytes_def)
next
  case (Some bf)
  then have "length (bits bf) = num_bits bf" "num_bits bf < 2 ^ 64" "num_hashes bf < 2 ^ 64"
    using assms by (auto simp: bloom_has_def bloom_ok_def)
  from bloom_decode_encode_ok [OF this] obtain bs where bs: "BloomFilter_encode bf = Inr bs" "BloomFilter_decode bs = Inr bf"
    by (auto simp: bindE_eq_Inr)
  then have "length bs = 32 + (num_bits bf + 7) div 8"
    by (auto simp: BloomFilter_encode_def bindE_eq_Inr dest: mapE_length)
  moreover have "num_bits bf < 2 ^ 34" using assms(2) Some by simp
  ultimately have "length bs < 2 ^ 32" "bs \<noteq> []" by auto
  with bs Some show ?thesis by (simp add: bloom_bytes_def)
qed

text \<open>What the builder leaves behind: the file and the table object.\<close>

definition built ::
  "(string \<Rightarrow> u64) \<Rightarrow> u64 \<Rightarrow> bool \<Rightarrow> sst_builder \<Rightarrow> sst_part list \<Rightarrow> bytes \<Rightarrow> std_file \<Rightarrow> sst" where
  "built h sid has_cache sb ps bloom f =
     \<lparr>sst_file = f, sst_meta_entries = index_from h 0 ps,
      sst_bloom_offset = of_nat (length (blocks_bytes h ps @ meta_format h (index_from h 0 ps))),
      sst_meta_block_offset = of_nat (length (blocks_bytes h ps)), sst_id = sid,
      sst_first_key = ekey (hd (all_entries ps)), sst_last_key = ekey (last (all_entries ps)),
      sst_bloom_filter = sb_bloom_filter sb, sst_block_cache = has_cache,
      sst_min_tranc_id = sb_min_tranc_id sb, sst_max_tranc_id = sb_max_tranc_id sb,
      storage_mode = sb_storage_mode sb, sst_vlog = sb_vlog sb\<rparr>"

definition built_bytes :: "(string \<Rightarrow> u64) \<Rightarrow> sst_builder \<Rightarrow> sst_part list \<Rightarrow> bytes \<Rightarrow> bytes" where
  "built_bytes h sb ps bloom =
     (let dat = blocks_bytes h ps; index = meta_format h (index_from h 0 ps) in
      dat @ index @ bloom @ footer_bytes (of_nat (length dat)) (of_nat (length (dat @ index))) sb)"

lemma index_ends:
  assumes "ps \<noteq> []" and "\<forall>p \<in> set ps. part_ok p"
  shows "first_key (hd (index_from h off ps)) = ekey (hd (all_entries ps))"
    and "last_key (last (index_from h off ps)) = ekey (last (all_entries ps))"
proof -
  show "first_key (hd (index_from h off ps)) = ekey (hd (all_entries ps))"
    using assms by (cases ps) (auto simp: part_ok_def)
  obtain qs q where "ps = qs @ [q]" using assms(1) by (cases ps rule: rev_cases) auto
  then show "last_key (last (index_from h off ps)) = ekey (last (all_entries ps))"
    using assms(2) by (auto simp: index_from_append part_ok_def)
qed

lemma build_run:
  assumes inv: "builder_inv h sb ps0 cs" and cs: "cs \<noteq> []"
    and small: "\<forall>k. capacity (sb_block sb) + key_bytes k cs < 2 ^ 16"
    and size: "4 * length (entries_bytes (all_entries ps0 @ cs)) + 8 < 2 ^ 32"
    and bloom: "bloom_bytes (sb_bloom_filter sb) = Inr bs"
    and ps: "ps = ps0 @ [(sb_block sb, cs)]"
  shows "\<exists>fs' f. SSTBuilder_build h sid path has_cache (fs, sb) = Inr (fs', built h sid has_cache sb ps bs f) \<and>
    StdFile_is_open f \<and> file_content (fs', f) = built_bytes h sb ps bs \<and> dir fs' path = fd f"
proof -
  let ?sb = "SSTBuilder_finish_block h sb"
  note meta = finish_index [OF inv cs, folded ps]
  have ok: "parts_ok ps" using finish_parts_ok [OF inv cs small] ps by simp
  have "\<not> Block_is_empty (sb_block sb)"
    using inv cs by (auto simp: Block_is_empty_def builder_inv_def dest!: block_repr_length)
  moreover have "sb_meta_entries ?sb \<noteq> []"
    using meta(1) ps by (cases ps0) auto
  moreover have rest: "sb_bloom_filter ?sb = sb_bloom_filter sb" "sb_min_tranc_id ?sb = sb_min_tranc_id sb"
    "sb_max_tranc_id ?sb = sb_max_tranc_id sb" "sb_storage_mode ?sb = sb_storage_mode sb" "sb_vlog ?sb = sb_vlog sb"
    by (simp_all add: SSTBuilder_finish_block_def)
  moreover have pok: "\<forall>p \<in> set ps. part_ok p" using ok by (simp add: parts_ok_def)
  have "length (blocks_bytes h ps) < 2 ^ 32"
    using file_size_bound [OF pok, of h 0] size ps by simp
  from encode_meta_format [OF index_small [OF pok this]]
  have enc: "encode_meta_to_slice h (index_from h 0 ps) [] = Inr (meta_format h (index_from h 0 ps))" by simp
  have foot: "footer_bytes m b ?sb = footer_bytes m b sb" for m b
    by (simp add: footer_bytes_def rest)
  have "footer_bytes m b sb \<noteq> []" for m b
    using length_word_bytes(3) [of m] by (cases "u32_bytes m") (simp_all add: footer_bytes_def)
  then have "built_bytes h sb ps bs \<noteq> []" by (simp add: built_bytes_def Let_def)
  from create_and_write_content [OF this, of fs path] obtain fs' f where
    f: "FileObj_create_and_write fs path (built_bytes h sb ps bs) = Inr (fs', f)" "StdFile_is_open f"
      "file_content (fs', f) = built_bytes h sb ps bs" "dir fs' path = fd f"
    by blast
  have "ps \<noteq> []" using ps by simp
  note ends = index_ends [OF this pok, of h 0]
  have "SSTBuilder_build h sid path has_cache (fs, sb) = Inr (fs', built h sid has_cache sb ps bs f)"
    using f(1) calculation bloom
    by (simp add: SSTBuilder_build_def Let_def meta enc bloom_bytes_def rest write_footer_bytes foot
        built_bytes_def built_def ends)
  with f show ?thesis by blast
qed

lemma built_repr:
  assumes ok: "parts_ok ps" "ps \<noteq> []" and size: "4 * length (entries_bytes (all_entries ps)) + 8 < 2 ^ 32"
    and bl: "bloom_has h (sb_bloom_filter sb) (ekey ` set (all_entries ps))"
    and f: "StdFile_is_open f" "file_content (fs, f) = built_bytes h sb ps bs"
  shows "sst_repr h fs (built h sid True sb ps bs f) ps"
proof -
  have "\<forall>p \<in> set ps. part_ok p" using ok(1) by (simp add: parts_ok_def)
  from file_size_bound [OF this, of h 0] size have "length (blocks_bytes h ps) < 2 ^ 32" by simp
  with assms show ?thesis
    by (auto simp: sst_repr_def built_def built_bytes_def Let_def)
qed

lemma index_length_le: "length ps \<le> length (metas_bytes (index_from h off ps))"
  by (induction ps arbitrary: off) (simp_all add: meta_size_def trans_le_add2)

section \<open>Opening the file\<close>

lemma read_at:
  assumes "StdFile_is_open f" and "file_content (fs, f) = pre @ mid @ post" and "off = length pre" and "n = length mid"
    and "length pre + length mid < 2 ^ 64"
  shows "FileObj_read_to_slice fs f off n = Inr mid"
  using read_to_slice_content [OF assms(1), of off n fs] assms(2-) by simp

lemma read_byte_at:
  assumes "StdFile_is_open f" and "file_content (fs, f) = pre @ [b] @ post" and "off = length pre" and "length pre < 2 ^ 63"
  shows "FileObj_read_uint8 fs f off = Inr b"
  using assms
  by (auto simp: FileObj_read_uint8_def beyond_def StdFile_size_def StdFile_read_def read_u8_def
      file_content_def StdFile_is_open_def)

lemma read_word32_at:
  assumes "StdFile_is_open f" and "file_content (fs, f) = pre @ u32_bytes w @ post" and "off = length pre"
    and "length pre < 2 ^ 63"
  shows "bindE (FileObj_read_to_slice fs f off 4) (\<lambda>bs. bindE (read_u32 bs 0) k) = k w"
  using read_at [OF assms(1-3), of 4] assms(4) read_u32_middle [of 0 "[]" w "[]"] by simp

lemma read_word64_at:
  assumes "StdFile_is_open f" and "file_content (fs, f) = pre @ u64_bytes w @ post" and "off = length pre"
    and "length pre < 2 ^ 63"
  shows "bindE (FileObj_read_to_slice fs f off 8) (\<lambda>bs. bindE (read_u64 bs 0) k) = k w"
  using read_at [OF assms(1-3), of 8] assms(4) read_u64_middle [of 0 "[]" w "[]"] by simp

definition footer_len :: "sst_builder \<Rightarrow> nat" where
  "footer_len sb = (if sb_storage_mode sb = 1 then WISCKEY_FOOTER_SIZE else OLD_FOOTER_SIZE)"

lemma length_footer_bytes [simp]: "length (footer_bytes m b sb) = footer_len sb"
  by (simp add: footer_bytes_def footer_len_def WISCKEY_FOOTER_SIZE_def OLD_FOOTER_SIZE_def)

lemma detect_footer_ok:
  assumes f: "StdFile_is_open f" "file_content (fs, f) = body @ footer_bytes m b sb"
    and size: "length body < 2 ^ 62" and m: "unat m < length body"
    and mode: "sb_storage_mode sb = 1 \<or> sb_storage_mode sb = 0 \<and> last (u64_bytes (sb_max_tranc_id sb)) \<noteq> WISCKEY_MAGIC"
  shows "detect_footer fs f = Inr (footer_len sb, sb_storage_mode sb)"
proof (cases "sb_storage_mode sb = 1")
  case True
  let ?r = "u32_bytes b @ u64_bytes (sb_min_tranc_id sb) @ u64_bytes (sb_max_tranc_id sb)"
  let ?pre = "body @ u32_bytes m @ ?r"
  have c: "file_content (fs, f) = ?pre @ [1, WISCKEY_MAGIC]" using f(2) True by (simp add: footer_bytes_def)
  have sz: "FileObj_size fs f = 26 + length body" by (simp add: FileObj_size_content c)
  have "FileObj_read_uint8 fs f (25 + length body) = Inr WISCKEY_MAGIC"
    using read_byte_at [OF f(1), of fs "?pre @ [1]" WISCKEY_MAGIC "[]" "25 + length body"] c size by simp
  moreover have "FileObj_read_uint8 fs f (24 + length body) = Inr 1"
    using read_byte_at [OF f(1), of fs ?pre 1 "[WISCKEY_MAGIC]" "24 + length body"] c size by simp
  moreover have "bindE (FileObj_read_to_slice fs f (length body) 4) (\<lambda>bs. bindE (read_u32 bs 0) k) = k m" for k :: "u32 \<Rightarrow> (nat \<times> byte) result"
    using read_word32_at [OF f(1), of fs body m "?r @ [1, WISCKEY_MAGIC]" "length body" k] c size by simp
  ultimately show ?thesis
    using True m by (simp add: detect_footer_def Let_def sz footer_len_def WISCKEY_FOOTER_SIZE_def OLD_FOOTER_SIZE_def)
next
  case False
  then have mode: "sb_storage_mode sb = 0" "last (u64_bytes (sb_max_tranc_id sb)) \<noteq> WISCKEY_MAGIC" using mode by auto
  obtain us u where us: "u64_bytes (sb_max_tranc_id sb) = us @ [u]" "length us = 7"
    using length_word_bytes(4) [of "sb_max_tranc_id sb"]
    by (cases "u64_bytes (sb_max_tranc_id sb)" rule: rev_cases) auto
  let ?pre = "body @ u32_bytes m @ u32_bytes b @ u64_bytes (sb_min_tranc_id sb) @ us"
  have c: "file_content (fs, f) = ?pre @ [u]" using f(2) mode us by (simp add: footer_bytes_def)
  have sz: "FileObj_size fs f = 24 + length body" by (simp add: FileObj_size_content c us)
  have "FileObj_read_uint8 fs f (23 + length body) = Inr u"
    using read_byte_at [OF f(1), of fs ?pre u "[]" "23 + length body"] c size us(2) by simp
  then show ?thesis
    using mode us by (simp add: detect_footer_def Let_def sz footer_len_def WISCKEY_FOOTER_SIZE_def OLD_FOOTER_SIZE_def)
qed

lemma read_bloom_ok:
  assumes f: "StdFile_is_open f" "file_content (fs, f) = pre @ bs @ footer_bytes m b sb"
    and size: "length pre < 2 ^ 32" "length bs < 2 ^ 32" and b: "b = of_nat (length pre)"
    and bs: "case bloom of None \<Rightarrow> bs = [] | Some bf \<Rightarrow> bs \<noteq> [] \<and> BloomFilter_decode bs = Inr bf"
  shows "read_bloom fs f (footer_len sb) b = Inr bloom"
proof -
  have ub: "unat b = length pre" using size(1) b by (simp add: unsigned_of_nat take_bit_nat_eq_self)
  have sz: "FileObj_size fs f = length pre + length bs + footer_len sb"
    by (simp add: FileObj_size_content f)
  have "(ucast b :: u64) = of_nat (length pre)"
    using size(1) b by (simp add: unsigned_of_nat take_bit_nat_eq_self)
  then have "ucast (of_nat (length pre + length bs + footer_len sb) - of_nat (footer_len sb) - (ucast b :: u64)) =
      (ucast (of_nat (length bs) :: u64) :: u32)"
    by simp
  also have "\<dots> = of_nat (length bs)"
    using size(2) by (simp add: unsigned_of_nat take_bit_nat_eq_self)
  finally have bsz: "ucast (of_nat (length pre + length bs + footer_len sb) - of_nat (footer_len sb) - (ucast b :: u64)) =
      (of_nat (length bs) :: u32)" .
  have ubs: "unat (of_nat (length bs) :: u32) = length bs" using size(2) by (simp add: unsigned_of_nat take_bit_nat_eq_self)
  then have pos: "0 < (of_nat (length bs) :: u32) \<longleftrightarrow> bs \<noteq> []"
    by (metis length_greater_0_conv unat_0 unat_gt_0 word_gt_0)
  have rd: "FileObj_read_to_slice fs f (length pre) (length bs) = Inr bs"
    using read_at [OF f refl refl] size by simp
  have "footer_len sb \<ge> OLD_FOOTER_SIZE" by (simp add: footer_len_def WISCKEY_FOOTER_SIZE_def)
  then have "bs \<noteq> [] \<Longrightarrow> length pre + OLD_FOOTER_SIZE < length pre + length bs + footer_len sb"
    by (cases bs) simp_all
  then show ?thesis
    unfolding read_bloom_def Let_def sz bsz ub pos ubs rd using bs by (auto split: option.splits)
qed

lemma SST_open_ok:
  assumes f: "StdFile_is_open f" "file_content (fs, f) = built_bytes h sb ps bs"
    and ps: "ps \<noteq> []" "\<forall>p \<in> set ps. part_ok p"
    and size: "4 * length (entries_bytes (all_entries ps)) + 8 < 2 ^ 32" "length bs < 2 ^ 32"
    and bs: "case sb_bloom_filter sb of None \<Rightarrow> bs = [] | Some bf \<Rightarrow> bs \<noteq> [] \<and> BloomFilter_decode bs = Inr bf"
    and mode: "sb_storage_mode sb = 1 \<or> sb_storage_mode sb = 0 \<and> last (u64_bytes (sb_max_tranc_id sb)) \<noteq> WISCKEY_MAGIC"
  shows "SST_open h sid f has_cache (sb_vlog sb) fs = Inr (built h sid has_cache sb ps bs f)"
proof -
  define dat where "dat = blocks_bytes h ps"
  define index where "index = meta_format h (index_from h 0 ps)"
  define m :: u32 where "m = of_nat (length dat)"
  define b :: u32 where "b = of_nat (length (dat @ index))"
  have li: "length index = length (metas_bytes (index_from h 0 ps)) + 8" by (simp add: index_def meta_format_def)
  have small: "length dat + length index < 2 ^ 32"
    using file_size_bound [OF ps(2), of h 0] size(1) li by (simp add: dat_def)
  have c: "file_content (fs, f) = (dat @ index @ bs) @ footer_bytes m b sb"
    using f(2) by (simp add: built_bytes_def Let_def dat_def index_def m_def b_def)
  have um: "unat m = length dat" unfolding m_def using small by (simp add: unsigned_of_nat take_bit_nat_eq_self)
  have df: "detect_footer fs f = Inr (footer_len sb, sb_storage_mode sb)"
    using detect_footer_ok [OF f(1) c _ _ mode] small size(2) li um by simp
  have rb: "read_bloom fs f (footer_len sb) b = Inr (sb_bloom_filter sb)"
    by (rule read_bloom_ok [OF f(1) _ _ size(2) _ bs, of _ "dat @ index" m]) (use c small in \<open>simp_all add: b_def\<close>)
  have sz: "FileObj_size fs f = length (dat @ index @ bs) + footer_len sb"
    by (simp add: FileObj_size_content c)
  let ?B = "length (dat @ index @ bs)"
  have base: "?B + footer_len sb - footer_len sb + OLD_FOOTER_SIZE - 8 = ?B + 16"
    "?B + footer_len sb - footer_len sb + OLD_FOOTER_SIZE - 8 * 2 = ?B + 8"
    "?B + 8 - 4 = ?B + 4" "?B + 8 - 4 * 2 = ?B"
    by (simp_all add: OLD_FOOTER_SIZE_def)
  let ?i = "u64_bytes (sb_min_tranc_id sb)" and ?a = "u64_bytes (sb_max_tranc_id sb)"
    and ?t = "if sb_storage_mode sb = 1 then [sb_storage_mode sb, WISCKEY_MAGIC] else []"
  have c': "file_content (fs, f) = (dat @ index @ bs) @ u32_bytes m @ u32_bytes b @ ?i @ ?a @ ?t"
    using c by (simp add: footer_bytes_def)
  have big: "?B + 24 < 2 ^ 63" using small size(2) by simp
  note w64 = read_word64_at [OF f(1)] and w32 = read_word32_at [OF f(1)]
  have r4: "bindE (FileObj_read_to_slice fs f ?B 4) (\<lambda>bs. bindE (read_u32 bs 0) k) = k m" for k :: "u32 \<Rightarrow> sst result"
    by (rule w32 [OF c']) (use big in simp_all)
  have r3: "bindE (FileObj_read_to_slice fs f (?B + 4) 4) (\<lambda>bs. bindE (read_u32 bs 0) k) = k b" for k :: "u32 \<Rightarrow> sst result"
    by (rule w32 [of _ "(dat @ index @ bs) @ u32_bytes m" _ "?i @ ?a @ ?t"]) (use big c' in simp_all)
  have r2: "bindE (FileObj_read_to_slice fs f (?B + 8) 8) (\<lambda>bs. bindE (read_u64 bs 0) k) = k (sb_min_tranc_id sb)" for k :: "u64 \<Rightarrow> sst result"
    by (rule w64 [of _ "(dat @ index @ bs) @ u32_bytes m @ u32_bytes b" _ "?a @ ?t"]) (use big c' in simp_all)
  have r1: "bindE (FileObj_read_to_slice fs f (?B + 16) 8) (\<lambda>bs. bindE (read_u64 bs 0) k) = k (sb_max_tranc_id sb)" for k :: "u64 \<Rightarrow> sst result"
    by (rule w64 [of _ "(dat @ index @ bs) @ u32_bytes m @ u32_bytes b @ ?i" _ ?t]) (use big c' in simp_all)
  have "b - m = of_nat (length index)" by (simp add: b_def m_def)
  then have ms: "unat (b - m) = length index" using small by (simp add: unsigned_of_nat take_bit_nat_eq_self)
  have ri: "FileObj_read_to_slice fs f (length dat) (length index) = Inr index"
    using read_at [OF f(1), of fs dat index "bs @ footer_bytes m b sb"] c small by simp
  have len: "length ps < 2 ^ 32"
    using index_length_le [of ps h 0] li small by simp
  have dm: "decode_meta_from_slice h index = Inr (index_from h 0 ps)"
    using decode_meta_body [of "index_from h 0 ps" h "hash32 h (metas_bytes (index_from h 0 ps))"]
      index_small [OF ps(2), of h] small len by (simp add: index_def meta_format_def dat_def)
  have "index_from h 0 ps \<noteq> []" using ps(1) by (cases ps) auto
  moreover have "\<not> FileObj_size fs f < OLD_FOOTER_SIZE"
    by (simp add: sz footer_len_def WISCKEY_FOOTER_SIZE_def)
  ultimately show ?thesis
    unfolding SST_open_def Let_def df bindE_simps prod.case sz base r1 r2 r3 r4 rb um ms ri dm
    using index_ends [OF ps, of h 0] by (simp add: sz built_def dat_def index_def m_def b_def)
qed

section \<open>From a list of versions to a table\<close>

text \<open>How a flush uses the builder: a new builder, one \<^verbatim>\<open>add\<close> per version, \<^verbatim>\<open>build\<close>.\<close>

definition build_table ::
  "(string \<Rightarrow> u64) \<Rightarrow> sst_builder \<Rightarrow> u64 \<Rightarrow> string \<Rightarrow> entry list \<Rightarrow> filesys \<Rightarrow> (filesys \<times> sst) result" where
  "build_table h sb sid path es fs = bindE (SSTBuilder_adds h es (fs, sb)) (SSTBuilder_build h sid path True)"

definition fine_bloom :: "bloom_filter \<Rightarrow> bool" where
  "fine_bloom bf \<longleftrightarrow> bloom_ok bf \<and> num_bits bf < 2 ^ 34 \<and> num_hashes bf < 2 ^ 64"

text \<open>The lists of versions a table can hold: the file offsets stay below \<open>2 ^ 32\<close>.\<close>

definition fits_table :: "nat \<Rightarrow> entry list \<Rightarrow> bool" where
  "fits_table cap es \<longleftrightarrow> es \<noteq> [] \<and> buildable cap es \<and> 4 * length (entries_bytes es) + 8 < 2 ^ 32"

lemma le_bytes_last: "last (le_bytes (Suc n) v) = of_nat (v div 256 ^ n)"
proof (induction n arbitrary: v)
  case (Suc n)
  have "last (le_bytes (Suc (Suc n)) v) = last (le_bytes (Suc n) (v div 256))" by simp
  also have "\<dots> = of_nat (v div 256 ^ Suc n)" unfolding Suc.IH by (simp add: div_mult2_eq [symmetric])
  finally show ?case .
qed simp

lemma last_u64_bytes:
  assumes "w < 2 ^ 56"
  shows "last (u64_bytes w) = 0"
proof -
  have "unat w < 2 ^ 56" using assms by (simp add: word_less_nat_alt)
  then have "unat w div 256 ^ 7 = 0" by simp
  then show ?thesis
    using le_bytes_last [of 7 "unat w"] by (simp only: u64_bytes_def numeral_eq_Suc) simp
qed

lemma foldl_max_less: "a < c \<Longrightarrow> \<forall>x \<in> set xs. x < c \<Longrightarrow> foldl max a xs < (c :: u64)"
  by (induction xs arbitrary: a) simp_all

lemma build_table_ok:
  assumes fits: "fits_table cap es" and bl: "has_bloom \<Longrightarrow> fine_bloom (BloomFilter_new dval expected rate)"
  shows "\<exists>fs' s ps. build_table h (SSTBuilder_new dval expected rate cap has_bloom) sid path es fs = Inr (fs', s) \<and>
    sst_repr h fs' s ps \<and> all_entries ps = es \<and> sst_id s = sid \<and> storage_mode s = 0 \<and> dir fs' path = fd (sst_file s) \<and>
    sst_max_tranc_id s = foldl max 0 (map etranc es) \<and> sst_min_tranc_id s = foldl min (- 1) (map etranc es) \<and>
    ((\<forall>e \<in> set es. etranc e < 2 ^ 56) \<longrightarrow> SST_open h sid (sst_file s) True None fs' = Inr s)"
proof -
  let ?sb = "SSTBuilder_new dval expected rate cap has_bloom"
  have es: "es \<noteq> []" "buildable cap es" "4 * length (entries_bytes es) + 8 < 2 ^ 32"
    using fits by (auto simp: fits_table_def)
  have cfg: "capacity (sb_block ?sb) = cap" "sb_storage_mode ?sb = 0" "sb_vlog ?sb = None"
    "sb_max_tranc_id ?sb = 0" "sb_min_tranc_id ?sb = - 1"
    by (simp_all add: SSTBuilder_new_def)
  have inv: "builder_inv h ?sb [] []"
    using bl by (intro builder_new_inv) (simp add: fine_bloom_def)
  obtain sb ps0 cs where sb: "SSTBuilder_adds h es (fs, ?sb) = Inr (fs, sb)" "builder_inv h sb ps0 cs"
    "all_entries ps0 @ cs = es" "same_config ?sb sb" "cs \<noteq> []" "sb_max_tranc_id sb = foldl max 0 (map etranc es)"
    "sb_min_tranc_id sb = foldl min (- 1) (map etranc es)"
    using builder_adds_ok [OF inv, of es fs] es cfg by auto
  have cfg': "capacity (sb_block sb) = cap" "sb_storage_mode sb = 0" "sb_vlog sb = None"
    using sb(4) cfg by (auto simp: same_config_def)
  have "cap + key_bytes k (all_entries ps0 @ cs) < 2 ^ 16" for k
    using es(2) unfolding buildable_def sb(3) by blast
  moreover have "key_bytes k cs \<le> key_bytes k (all_entries ps0 @ cs)" for k by simp
  ultimately have small: "\<forall>k. capacity (sb_block sb) + key_bytes k cs < 2 ^ 16"
    unfolding cfg'(1) by (meson add_le_mono order_refl le_less_trans)
  define ps where "ps = ps0 @ [(sb_block sb, cs)]"
  have ae: "all_entries ps = es" using sb(3) by (simp add: ps_def)
  have has: "bloom_has h (sb_bloom_filter sb) (ekey ` set es)"
    using sb(2,3) by (auto simp: builder_inv_def)
  have "\<forall>bf. sb_bloom_filter sb = Some bf \<longrightarrow> num_bits bf < 2 ^ 34 \<and> num_hashes bf < 2 ^ 64"
    using sb(4) bl by (auto simp: same_config_def SSTBuilder_new_def fine_bloom_def split: if_splits)
  from bloom_bytes_ok [OF has this] obtain bs where bs: "bloom_bytes (sb_bloom_filter sb) = Inr bs" "length bs < 2 ^ 32"
    "case sb_bloom_filter sb of None \<Rightarrow> bs = [] | Some bf \<Rightarrow> bs \<noteq> [] \<and> BloomFilter_decode bs = Inr bf"
    by blast
  have size: "4 * length (entries_bytes (all_entries ps0 @ cs)) + 8 < 2 ^ 32" unfolding sb(3) by (rule es(3))
  obtain fs' f where f: "SSTBuilder_build h sid path True (fs, sb) = Inr (fs', built h sid True sb ps bs f)"
    "StdFile_is_open f" "file_content (fs', f) = built_bytes h sb ps bs" "dir fs' path = fd f"
    using build_run [OF sb(2,5) small size bs(1) ps_def, of sid path True fs] by blast
  have ok: "parts_ok ps" "ps \<noteq> []" using finish_parts_ok [OF sb(2,5) small] by (simp_all add: ps_def)
  have repr: "sst_repr h fs' (built h sid True sb ps bs f) ps"
    using built_repr [OF ok _ _ f(2,3)] es(3) has by (simp add: ae)
  have "SST_open h sid f True None fs' = Inr (built h sid True sb ps bs f)" if "\<forall>e \<in> set es. etranc e < 2 ^ 56"
  proof -
    have "last (u64_bytes (sb_max_tranc_id sb)) = 0"
      using that sb(6) foldl_max_less [of 0 "2 ^ 56" "map etranc es"] by (intro last_u64_bytes) simp
    then show ?thesis
      using SST_open_ok [OF f(2,3) ok(2) _ _ bs(2,3), of sid True] ok(1) es(3) cfg'(2,3)
      by (simp add: parts_ok_def ae WISCKEY_MAGIC_def)
  qed
  moreover have "build_table h ?sb sid path es fs = Inr (fs', built h sid True sb ps bs f)"
    using sb(1) f(1) by (simp add: build_table_def)
  moreover have "sst_id (built h sid True sb ps bs f) = sid" "storage_mode (built h sid True sb ps bs f) = 0"
    "sst_file (built h sid True sb ps bs f) = f"
    "sst_max_tranc_id (built h sid True sb ps bs f) = foldl max 0 (map etranc es)"
    "sst_min_tranc_id (built h sid True sb ps bs f) = foldl min (- 1) (map etranc es)"
    using cfg' sb(6,7) by (simp_all add: built_def)
  ultimately show ?thesis
    using repr ae f(4) by (intro exI [of _ fs'] exI [of _ "built h sid True sb ps bs f"] exI [of _ ps]) simp
qed

section \<open>Reading a table with a fresh cache\<close>

definition disk_of :: "u64 \<Rightarrow> sst_part list \<Rightarrow> cache_key \<Rightarrow> block option" where
  "disk_of sid ps k =
     (if fst k = as_int (uint sid) \<and> 0 \<le> snd k \<and> nat (snd k) < length ps then Some (decoded (ps ! nat (snd k))) else None)"

lemma as_int_small: "i < 2 ^ 31 \<Longrightarrow> as_int (int i) = int i"
  by (simp add: as_int_def signed_of_nat take_bit_nat_eq_self signed_take_bit_int_eq_self)

lemma on_disk_of:
  assumes "length ps \<le> 2 ^ 31"
  shows "on_disk (disk_of (sst_id s) ps) s ps"
proof -
  have "as_int (int i) = int i" if "i < length ps" for i
    using that assms by (intro as_int_small) simp
  then show ?thesis by (simp add: on_disk_def disk_of_def)
qed

lemma parts_count:
  assumes "sst_repr h fs s ps" and "4 * length (entries_bytes (all_entries ps)) + 8 < 2 ^ 32"
  shows "length ps \<le> 2 ^ 31"
proof -
  have "\<forall>p \<in> set ps. part_ok p" using assms(1) by (simp add: sst_repr_def parts_ok_def)
  then have "length ps \<le> length (all_entries ps)"
  proof (induction ps)
    case (Cons p ps)
    then have "snd p \<noteq> []" by (simp add: part_ok_def)
    with Cons show ?case by (cases "snd p") simp_all
  qed simp
  with entries_bytes_length [of "all_entries ps"] assms(2) show ?thesis by simp
qed

definition fresh_store :: "filesys \<Rightarrow> nat \<Rightarrow> u64 \<Rightarrow> store" where
  "fresh_store fs cap k = \<lparr>st_fs = fs, st_cache = BlockCache_new cap k, st_next_block = 0\<rparr>"

lemma fresh_store_ok: "0 < cap \<Longrightarrow> 1 < k \<Longrightarrow> store_ok disk 0 (fresh_store fs cap k)"
  by (simp add: fresh_store_def store_ok_def BlockCache_new_ok)

lemma built_env:
  assumes "sst_repr h fs s ps" and "fits_table bcap (all_entries ps)" and "storage_mode s = 0"
  shows "sst_env h s ps (disk_of (sst_id s) ps) (\<lambda>v. v) (fresh_store fs cap k)"
  using assms on_disk_of [OF parts_count [OF assms(1)]]
  by (simp add: sst_env_def fresh_store_def resolves_def SST_resolve_value_def fits_table_def)

lemma first_versions_length: "length (first_versions es) \<le> length es"
  by (induction es rule: first_versions.induct) (auto intro: order_trans [OF _ length_dropWhile_le])

lemma sample_versions_fit:
  "fits_table 20 [\<lparr>ekey = ''a'', evalue = ''1'', etranc = 5\<rparr>, \<lparr>ekey = ''a'', evalue = '''', etranc = 3\<rparr>,
     \<lparr>ekey = ''b'', evalue = ''2'', etranc = 4\<rparr>]"
  by (auto simp: fits_table_def buildable_def sorted_entries_def entry_le_def small_entry_def)

section \<open>Properties\<close>

text \<open>
  C20: a builder fed with any list of versions sorted by key and newest transaction first whose blocks stay
  within their 16-bit offsets writes a file that represents exactly this list, in blocks that do not
  share a key; the range of transaction ids of the table is that of the list; and opening the file
  again gives back the table the builder returned.
\<close>

theorem sst_build_open:
  assumes "fits_table cap es" and "has_bloom \<longrightarrow> fine_bloom (BloomFilter_new dval expected rate)"
    and "\<forall>e \<in> set es. etranc e < 2 ^ 56"
  shows "\<exists>fs' s ps. build_table h (SSTBuilder_new dval expected rate cap has_bloom) sid path es fs = Inr (fs', s) \<and>
    sst_repr h fs' s ps \<and> all_entries ps = es \<and>
    SST_get_tranc_id_range s = (foldl min (- 1) (map etranc es), foldl max 0 (map etranc es)) \<and>
    SST_open h sid (sst_file s) True None fs' = Inr s"
  using build_table_ok [OF assms(1), of has_bloom dval expected rate h sid path fs] assms(2,3)
  by (auto simp: SST_get_tranc_id_range_def)

theorem sst_build_open_witness:
  "let es = [\<lparr>ekey = ''a'', evalue = ''1'', etranc = 5\<rparr>, \<lparr>ekey = ''a'', evalue = '''', etranc = 3\<rparr>,
             \<lparr>ekey = ''b'', evalue = ''2'', etranc = 4\<rparr>] in
   \<exists>fs' s ps. build_table (\<lambda>_. 7) (SSTBuilder_new (\<lambda>_. 0) 0 0 20 False) 9 ''t'' es empty_fs = Inr (fs', s) \<and>
    sst_repr (\<lambda>_. 7) fs' s ps \<and> all_entries ps = es \<and>
    SST_get_tranc_id_range s = (foldl min (- 1) (map etranc es), foldl max 0 (map etranc es)) \<and>
    SST_open (\<lambda>_. 7) 9 (sst_file s) True None fs' = Inr s"
  unfolding Let_def
  by (rule sst_build_open)
    (simp_all add: sample_versions_fit)

text \<open>
  C21: a point lookup in the table built from a sorted list of versions, with a fresh cache, finds the first
  version of the key that the transaction may see, and the end iterator when there is none.
\<close>

theorem sst_build_get:
  assumes "fits_table bcap es" and "has_bloom \<longrightarrow> fine_bloom (BloomFilter_new dval expected rate)"
    and "0 < cap" and "1 < k"
  shows "\<exists>fs' s it w. build_table h (SSTBuilder_new dval expected rate bcap has_bloom) sid path es fs = Inr (fs', s) \<and>
    SST_get h s key tid (fresh_store fs' cap k) = Inr (it, w) \<and>
    shows_version s (\<lambda>v. v) it w (find (\<lambda>e. ekey e = key \<and> visible tid e) es)"
proof -
  obtain fs' s ps where b: "build_table h (SSTBuilder_new dval expected rate bcap has_bloom) sid path es fs = Inr (fs', s)"
    "sst_repr h fs' s ps" "all_entries ps = es" "storage_mode s = 0"
    using build_table_ok [OF assms(1), of has_bloom dval expected rate h sid path fs] assms(2) by blast
  have env: "sst_env h s ps (disk_of (sst_id s) ps) (\<lambda>v. v) (fresh_store fs' cap k)"
    using built_env [OF b(2) _ b(4)] assms(1) b(3) by blast
  from SST_get_ok [OF env fresh_store_ok [OF assms(3,4)], of key tid] b(1,3) show ?thesis
    by (auto simp: version_of_def)
qed

theorem sst_build_get_witness:
  "let es = [\<lparr>ekey = ''a'', evalue = ''1'', etranc = 5\<rparr>, \<lparr>ekey = ''a'', evalue = '''', etranc = 3\<rparr>,
             \<lparr>ekey = ''b'', evalue = ''2'', etranc = 4\<rparr>] in
   \<exists>fs' s it w. build_table (\<lambda>_. 7) (SSTBuilder_new (\<lambda>_. 0) 0 0 20 False) 9 ''t'' es empty_fs = Inr (fs', s) \<and>
    SST_get (\<lambda>_. 7) s ''a'' 4 (fresh_store fs' 2 2) = Inr (it, w) \<and>
    shows_version s (\<lambda>v. v) it w (find (\<lambda>e. ekey e = ''a'' \<and> visible 4 e) es)"
  unfolding Let_def
  by (rule sst_build_get)
    (simp_all add: sample_versions_fit)

text \<open>
  C22: reading the table built from a sorted list of versions to its end delivers the list itself, or, when only
  the newest version of every key is wanted, the first version of every key in order.
\<close>

theorem sst_build_scan:
  assumes "fits_table bcap es" and "has_bloom \<longrightarrow> fine_bloom (BloomFilter_new dval expected rate)"
    and "0 < cap" and "1 < k"
  shows "\<exists>fs' s x. build_table h (SSTBuilder_new dval expected rate bcap has_bloom) sid path es fs = Inr (fs', s) \<and>
    SST_begin h s 0 keep (fresh_store fs' cap k) = Inr x \<and>
    drain SstIterator_at_end SstIterator_read (SstIterator_next h) (length es) x =
      Inr (map (\<lambda>e. (ekey e, evalue e)) (if keep then es else first_versions es))"
proof -
  obtain fs' s ps where b: "build_table h (SSTBuilder_new dval expected rate bcap has_bloom) sid path es fs = Inr (fs', s)"
    "sst_repr h fs' s ps" "all_entries ps = es" "storage_mode s = 0"
    using build_table_ok [OF assms(1), of has_bloom dval expected rate h sid path fs] assms(2) by blast
  have env: "sst_env h s ps (disk_of (sst_id s) ps) (\<lambda>v. v) (fresh_store fs' cap k)"
    using built_env [OF b(2) _ b(4)] assms(1) b(3) by blast
  have all: "visible 0 = (\<lambda>e. True)" by (simp add: visible_def fun_eq_iff)
  have vis: "\<forall>p \<in> set ps. \<exists>e \<in> set (snd p). visible 0 e"
    using b(2) unfolding all sst_repr_def parts_ok_def part_ok_def by (blast intro: hd_in_set)
  have "length ps \<le> 2 ^ 31" using parts_count [OF b(2)] assms(1) b(3) by (simp add: fits_table_def)
  then obtain it w where it: "SST_begin h s 0 keep (fresh_store fs' cap k) = Inr (it, w)"
    "sst_iter_inv h s ps (disk_of (sst_id s) ps) (\<lambda>v. v) (it, w)"
    "sst_iter_entries ps it = block_versions keep 0 es"
    using SST_begin_inv [OF env fresh_store_ok [OF assms(3,4)] _ vis, of keep] b(3) by auto
  have "length (block_versions keep 0 es) \<le> length es"
    by (simp add: block_versions_def all first_versions_length)
  then have "drain SstIterator_at_end SstIterator_read (SstIterator_next h) (length es) (it, w) =
      Inr (map (read_pair_of (\<lambda>v. v)) (block_versions keep 0 es))"
    using sit.drain_all [OF it(2), of "length es"] it(3) by (simp add: sst_iter_rest_def)
  then show ?thesis
    using b(1) it(1) by (auto simp: block_versions_def all read_pair_of_def cong: map_cong)
qed

theorem sst_build_scan_witness:
  "let es = [\<lparr>ekey = ''a'', evalue = ''1'', etranc = 5\<rparr>, \<lparr>ekey = ''a'', evalue = '''', etranc = 3\<rparr>,
             \<lparr>ekey = ''b'', evalue = ''2'', etranc = 4\<rparr>] in
   \<exists>fs' s x. build_table (\<lambda>_. 7) (SSTBuilder_new (\<lambda>_. 0) 0 0 20 False) 9 ''t'' es empty_fs = Inr (fs', s) \<and>
    SST_begin (\<lambda>_. 7) s 0 False (fresh_store fs' 2 2) = Inr x \<and>
    drain SstIterator_at_end SstIterator_read (SstIterator_next (\<lambda>_. 7)) (length es) x =
      Inr (map (\<lambda>e. (ekey e, evalue e)) (if False then es else first_versions es))"
  unfolding Let_def
  by (rule sst_build_scan)
    (simp_all add: sample_versions_fit)

section \<open>Separated values\<close>

lemma reference_bytes:
  "bindE (memwrite (replicate 12 0) 0 (u64_bytes offset)) (\<lambda>r. memwrite r 8 (u32_bytes sz)) =
     Inr (u64_bytes offset @ u32_bytes sz)"
proof -
  have "memwrite (replicate 12 (0 :: byte)) 0 (u64_bytes offset) = Inr (u64_bytes offset @ replicate 4 0)"
    using memwrite_append [of 0 "[]" "u64_bytes offset" "replicate 12 0"] by simp
  moreover have "memwrite (u64_bytes offset @ replicate 4 0) 8 (u32_bytes sz) = Inr (u64_bytes offset @ u32_bytes sz)"
    using memwrite_append [of 8 "u64_bytes offset" "u32_bytes sz" "replicate 4 0"] by simp
  ultimately show ?thesis by simp
qed

lemma separate_reference:
  assumes "sb_vlog sb = Some v" "sb_storage_mode sb = 1" "0 < sb_threshold sb" "sb_threshold sb < length val"
    and "VLog_append fs v key val = Inr (fs', offset)"
  shows "separate_value key val (fs, sb) =
    Inr (fs', bytes_str (u64_bytes offset @ u32_bytes (of_nat (length val))))"
  using assms reference_bytes [of offset "of_nat (length val)"]
  by (auto simp: separate_value_def bindE_eq_Inr Let_def)

lemma resolve_reference:
  assumes "storage_mode s = 1" "sst_vlog s = Some v"
  shows "SST_resolve_value fs s (bytes_str (u64_bytes offset @ u32_bytes sz)) = VLog_read_value fs v offset sz"
proof -
  let ?r = "u64_bytes offset @ u32_bytes sz"
  have "length (bytes_str ?r) = 12" by (simp add: bytes_str_def)
  moreover from this have "bytes_str ?r \<noteq> []" by (metis list.size(3) zero_neq_numeral)
  ultimately have "SST_resolve_value fs s (bytes_str ?r) = bindE (read_u64 ?r 0) (\<lambda>off. bindE (read_u32 ?r 8) (\<lambda>sz. VLog_read_value fs v off sz))"
    using assms by (simp add: SST_resolve_value_def)
  then show ?thesis
    using read_u64_middle [of 0 "[]" offset "u32_bytes sz"] read_u32_middle [of 8 "u64_bytes offset" sz "[]"] by simp
qed

text \<open>
  C28: in the WiscKey mode, the value the builder stores for a value (itself, or a reference into the value log)
  is resolved to that value by the table, whatever is appended to the log later, when the value is
  shorter than a reference or longer than the threshold.
\<close>

theorem wisckey_value_roundtrip:
  assumes "StdFile_is_open (vlog_file v)" and "small_kv (key, val)"
    and "FileObj_size fs (vlog_file v) + 10 + length key + length val < 2 ^ 64"
    and "sb_vlog sb = Some v" "sb_storage_mode sb = 1" "0 < sb_threshold sb"
    and "storage_mode s = 1" "sst_vlog s = Some v"
    and "length val < 12 \<or> sb_threshold sb < length val"
  shows "\<exists>fs' r. separate_value key val (fs, sb) = Inr (fs', r) \<and> length r \<le> max 12 (sb_threshold sb) \<and>
    SST_resolve_value (fst (foldl append_file (fs', vlog_file v) later)) s r = Inr val"
proof (cases "sb_threshold sb < length val")
  case True
  let ?fs' = "fst (append_file (fs, vlog_file v) (vlog_record key val))"
    and ?off = "of_nat (FileObj_size fs (vlog_file v)) :: u64"
  have app: "VLog_append fs v key val = Inr (?fs', ?off)"
    using assms(1,2) by (intro VLog_append_ok) (simp_all add: small_kv_def)
  have "append_file (fs, vlog_file v) (vlog_record key val) = (?fs', vlog_file v)"
    by (simp add: append_file_def)
  then show ?thesis
    using separate_reference [OF assms(4-6) True app] resolve_reference [OF assms(7,8)]
      read_value_record [OF assms(1-3), of later]
    by (simp add: bytes_str_def)
next
  case False
  then show ?thesis
    using assms(4,9) by (auto simp: separate_value_def SST_resolve_value_def)
qed

theorem wisckey_value_roundtrip_witness:
  "let f = \<lparr>fd = Some 0, file_path = ''v''\<rparr>; v = \<lparr>vlog_file = f, vlog_path = ''v''\<rparr>;
       sb = SSTBuilder_new_wisckey (\<lambda>_. 0) 0 0 20 False (Some v) 3;
       s = \<lparr>sst_file = f, sst_meta_entries = [], sst_bloom_offset = 0, sst_meta_block_offset = 0, sst_id = 1,
            sst_first_key = '''', sst_last_key = '''', sst_bloom_filter = None, sst_block_cache = True,
            sst_min_tranc_id = 0, sst_max_tranc_id = 0, storage_mode = 1, sst_vlog = Some v\<rparr> in
   \<exists>fs' r. separate_value ''k'' ''value'' (empty_fs, sb) = Inr (fs', r) \<and> length r \<le> max 12 (sb_threshold sb) \<and>
    SST_resolve_value (fst (foldl append_file (fs', vlog_file v) [[1, 2]])) s r = Inr ''value''"
  unfolding Let_def
  by (rule wisckey_value_roundtrip)
    (simp_all add: StdFile_is_open_def small_kv_def FileObj_size_def StdFile_size_def empty_fs_def
      SSTBuilder_new_wisckey_def)

text \<open>The reference that the first twelve bytes of a value spell.\<close>

definition spelled_offset :: "string \<Rightarrow> u64" where
  "spelled_offset val = bytes_u64 (take 8 (str_bytes val))"

definition spelled_size :: "string \<Rightarrow> u32" where
  "spelled_size val = bytes_u32 (take 4 (drop 8 (str_bytes val)))"

lemma resolve_spelled:
  assumes "storage_mode s = 1" "sst_vlog s = Some v" and "12 \<le> length val"
  shows "SST_resolve_value fs s val = VLog_read_value fs v (spelled_offset val) (spelled_size val)"
proof -
  have "val \<noteq> []" using assms(3) by auto
  then show ?thesis
    using assms by (simp add: SST_resolve_value_def read_u64_def read_u32_def memread_def spelled_offset_def spelled_size_def)
qed

lemma of_le_append: "of_le (as @ bs) = of_le as + 256 ^ length as * of_le bs"
  by (induction as) (simp_all add: algebra_simps)

text \<open>An offset with a last byte between 1 and 254 lies behind every log of less than 2^56 bytes.\<close>

lemma spelled_offset_bounds:
  assumes "12 \<le> length val" and "byte_of_char (val ! 7) \<noteq> 0" "byte_of_char (val ! 7) \<noteq> 255"
  shows "2 ^ 56 \<le> unat (spelled_offset val)" "unat (spelled_offset val) + 2 < 2 ^ 64"
proof -
  let ?b = "byte_of_char (val ! 7)"
  have "take 8 (str_bytes val) = take 7 (str_bytes val) @ [?b]"
    using assms(1) take_Suc_conv_app_nth [of 7 "str_bytes val"] by (simp add: str_bytes_def)
  then have le: "of_le (take 8 (str_bytes val)) = of_le (take 7 (str_bytes val)) + 256 ^ 7 * unat ?b"
    using assms(1) by (simp add: of_le_append)
  have low: "of_le (take 7 (str_bytes val)) < 256 ^ 7"
    using of_le_bound [of "take 7 (str_bytes val)"] assms(1) by simp
  have "unat ?b \<noteq> 0" "unat ?b \<noteq> 255" "unat ?b < 256"
    using assms(2,3) unsigned_less [of ?b] by (auto simp: word_unat_eq_iff)
  then have b: "1 \<le> unat ?b" "unat ?b \<le> 254" by simp_all
  then have "of_le (take 8 (str_bytes val)) < 255 * 256 ^ 7" "256 ^ 7 \<le> of_le (take 8 (str_bytes val))"
    using le low by simp_all
  moreover from this have "unat (spelled_offset val) = of_le (take 8 (str_bytes val))"
    by (simp add: spelled_offset_def bytes_u64_def unat_of_nat)
  ultimately show "2 ^ 56 \<le> unat (spelled_offset val)" "unat (spelled_offset val) + 2 < 2 ^ 64"
    by simp_all
qed

text \<open>
  C39: a value of at least 12 bytes that the threshold keeps inline is not resolved to itself. The builder stores
  it as it is and leaves the log alone, but whatever the file system later holds, the table reads the
  log at the reference that the first twelve bytes of the value spell; and when the eighth byte is
  neither 0 nor 255, as in any text, and the log has less than 2^56 bytes, the lookup throws.
\<close>

theorem wisckey_inline_value_misread:
  assumes "sb_vlog sb = Some v" and "storage_mode s = 1" "sst_vlog s = Some v"
    and "12 \<le> length val" "length val \<le> sb_threshold sb"
  shows "separate_value key val (fs, sb) = Inr (fs, val) \<and>
    SST_resolve_value fs' s val = VLog_read_value fs' v (spelled_offset val) (spelled_size val) \<and>
    (byte_of_char (val ! 7) \<noteq> 0 \<and> byte_of_char (val ! 7) \<noteq> 255 \<and> FileObj_size fs' (vlog_file v) < 2 ^ 56 \<longrightarrow>
      SST_resolve_value fs' s val = Inl (Out_of_range ''Read beyond file size''))"
proof (intro conjI impI)
  show "separate_value key val (fs, sb) = Inr (fs, val)"
    using assms(1,5) by (simp add: separate_value_def)
  note spelled = resolve_spelled [OF assms(2-4), of fs']
  then show "SST_resolve_value fs' s val = VLog_read_value fs' v (spelled_offset val) (spelled_size val)" .
  assume high: "byte_of_char (val ! 7) \<noteq> 0 \<and> byte_of_char (val ! 7) \<noteq> 255 \<and> FileObj_size fs' (vlog_file v) < 2 ^ 56"
  have "beyond fs' (vlog_file v) (unat (spelled_offset val)) 2"
    using spelled_offset_bounds [OF assms(4)] high by (simp add: beyond_def FileObj_size_def)
  with spelled show "SST_resolve_value fs' s val = Inl (Out_of_range ''Read beyond file size'')"
    by (simp add: VLog_read_value_def FileObj_read_to_slice_def read_beyond_def)
qed

theorem wisckey_inline_value_misread_witness:
  "let f = \<lparr>fd = Some 0, file_path = ''v''\<rparr>; v = \<lparr>vlog_file = f, vlog_path = ''v''\<rparr>; val = ''hello, world'';
       sb = SSTBuilder_new_wisckey (\<lambda>_. 0) 0 0 20 False (Some v) 12;
       s = \<lparr>sst_file = f, sst_meta_entries = [], sst_bloom_offset = 0, sst_meta_block_offset = 0, sst_id = 1,
            sst_first_key = [], sst_last_key = [], sst_bloom_filter = None, sst_block_cache = True,
            sst_min_tranc_id = 0, sst_max_tranc_id = 0, storage_mode = 1, sst_vlog = Some v\<rparr>;
       fs = fst (append_file (empty_fs, f) (vlog_record ''k'' ''a long value, kept in the log'')) in
   separate_value ''k'' val (fs, sb) = Inr (fs, val) \<and>
   SST_resolve_value fs s val = Inl (Out_of_range ''Read beyond file size'')"
proof -
  let ?f = "\<lparr>fd = Some 0, file_path = ''v''\<rparr>" and ?val = "''hello, world''"
  let ?v = "\<lparr>vlog_file = ?f, vlog_path = ''v''\<rparr>"
  let ?sb = "SSTBuilder_new_wisckey (\<lambda>_. 0) 0 0 20 False (Some ?v) 12"
  let ?s = "\<lparr>sst_file = ?f, sst_meta_entries = [], sst_bloom_offset = 0, sst_meta_block_offset = 0, sst_id = 1,
            sst_first_key = [], sst_last_key = [], sst_bloom_filter = None, sst_block_cache = True,
            sst_min_tranc_id = 0, sst_max_tranc_id = 0, storage_mode = 1, sst_vlog = Some ?v\<rparr>"
  let ?fs = "fst (append_file (empty_fs, ?f) (vlog_record ''k'' ''a long value, kept in the log''))"
  have "byte_of_char (?val ! 7) \<noteq> 0 \<and> byte_of_char (?val ! 7) \<noteq> 255 \<and> FileObj_size ?fs (vlog_file ?v) < 2 ^ 56"
    by (simp add: byte_of_char_def append_file_def FileObj_append_Some FileObj_size_def StdFile_size_def empty_fs_def)
  moreover have "separate_value ''k'' ?val (?fs, ?sb) = Inr (?fs, ?val) \<and>
    SST_resolve_value ?fs ?s ?val = VLog_read_value ?fs ?v (spelled_offset ?val) (spelled_size ?val) \<and>
    (byte_of_char (?val ! 7) \<noteq> 0 \<and> byte_of_char (?val ! 7) \<noteq> 255 \<and> FileObj_size ?fs (vlog_file ?v) < 2 ^ 56 \<longrightarrow>
      SST_resolve_value ?fs ?s ?val = Inl (Out_of_range ''Read beyond file size''))"
    by (rule wisckey_inline_value_misread) (simp_all add: SSTBuilder_new_wisckey_def)
  ultimately show ?thesis
    unfolding Let_def by blast
qed

end
