(* ===== verification/MemTable.thy ===== *)
theory MemTable
  imports SkipList HeapIterator SSTBuild "HOL-Library.Sublist"
begin

text \<open>
  The in-memory table, \<^verbatim>\<open>MemTable\<close> of \<^verbatim>\<open>src/memtable/memtable.cpp\<close>: a skip list that takes the writes and the
  list of frozen skip lists, newest first, that wait to be flushed. Every operation takes the locks it
  needs for its whole duration, so it is one step; the size limit comes from the configuration and the
  random numbers of the skip lists are arguments.

  \<open>mt_repr\<close> relates the table to the lists of versions of its skip lists. The lemmas show that a lookup
  finds the newest visible version in the newest table that has one, that writes and freezing keep the
  table well-formed and its byte counter right, that scans deliver the newest visible version of every
  key that is not deleted, and that flushing the oldest table writes exactly its versions.
\<close>

section \<open>State and writes\<close>

record memtable =
  current_table :: skiplist
  frozen_tables :: "skiplist list"
  frozen_bytes :: u64

text \<open>The random numbers of one insertion: the coin flips of the level and the bits of the links.\<close>

type_synonym sl_random = "(nat \<Rightarrow> bool) \<times> nat"

definition new_table :: skiplist where
  "new_table = SkipList_new 16"

definition MemTable_new :: memtable where
  "MemTable_new = \<lparr>current_table = new_table, frozen_tables = [], frozen_bytes = 0\<rparr>"

definition MemTable_put_unlocked :: "sl_random \<Rightarrow> string \<Rightarrow> string \<Rightarrow> u64 \<Rightarrow> memtable \<Rightarrow> memtable result" where
  "MemTable_put_unlocked r key val tranc_id m =
     bindE (SkipList_put (fst r) (snd r) key val tranc_id (current_table m)) (\<lambda>t. Inr (m\<lparr>current_table := t\<rparr>))"

definition MemTable_frozen_cur_table_unlocked :: "memtable \<Rightarrow> memtable" where
  "MemTable_frozen_cur_table_unlocked m =
     m\<lparr>frozen_bytes := frozen_bytes m + SkipList_get_size (current_table m),
       frozen_tables := current_table m # frozen_tables m,
       current_table := new_table\<rparr>"

definition MemTable_frozen_cur_table :: "memtable \<Rightarrow> memtable" where
  "MemTable_frozen_cur_table m = MemTable_frozen_cur_table_unlocked m"

definition freeze_if_full :: "u64 \<Rightarrow> memtable \<Rightarrow> memtable" where
  "freeze_if_full limit m =
     (if limit < SkipList_get_size (current_table m) then MemTable_frozen_cur_table_unlocked m else m)"

definition MemTable_put :: "u64 \<Rightarrow> sl_random \<Rightarrow> string \<Rightarrow> string \<Rightarrow> u64 \<Rightarrow> memtable \<Rightarrow> memtable result" where
  "MemTable_put limit r key val tranc_id m =
     bindE (MemTable_put_unlocked r key val tranc_id m) (\<lambda>m. Inr (freeze_if_full limit m))"

primrec put_all :: "(nat \<Rightarrow> sl_random) \<Rightarrow> (string \<times> string) list \<Rightarrow> u64 \<Rightarrow> memtable \<Rightarrow> memtable result" where
  "put_all r [] tranc_id m = Inr m"
| "put_all r (kv # kvs) tranc_id m =
     bindE (MemTable_put_unlocked (r 0) (fst kv) (snd kv) tranc_id m) (put_all (\<lambda>n. r (Suc n)) kvs tranc_id)"

definition MemTable_put_batch ::
  "u64 \<Rightarrow> (nat \<Rightarrow> sl_random) \<Rightarrow> (string \<times> string) list \<Rightarrow> u64 \<Rightarrow> memtable \<Rightarrow> memtable result" where
  "MemTable_put_batch limit r kvs tranc_id m =
     bindE (put_all r kvs tranc_id m) (\<lambda>m. Inr (freeze_if_full limit m))"

definition MemTable_remove_unlocked :: "sl_random \<Rightarrow> string \<Rightarrow> u64 \<Rightarrow> memtable \<Rightarrow> memtable result" where
  "MemTable_remove_unlocked r key tranc_id m =
     bindE (SkipList_put (fst r) (snd r) key [] tranc_id (current_table m)) (\<lambda>t. Inr (m\<lparr>current_table := t\<rparr>))"

definition MemTable_remove :: "u64 \<Rightarrow> sl_random \<Rightarrow> string \<Rightarrow> u64 \<Rightarrow> memtable \<Rightarrow> memtable result" where
  "MemTable_remove limit r key tranc_id m =
     bindE (MemTable_remove_unlocked r key tranc_id m) (\<lambda>m. Inr (freeze_if_full limit m))"

primrec remove_all :: "(nat \<Rightarrow> sl_random) \<Rightarrow> string list \<Rightarrow> u64 \<Rightarrow> memtable \<Rightarrow> memtable result" where
  "remove_all r [] tranc_id m = Inr m"
| "remove_all r (k # ks) tranc_id m =
     bindE (MemTable_remove_unlocked (r 0) k tranc_id m) (remove_all (\<lambda>n. r (Suc n)) ks tranc_id)"

definition MemTable_remove_batch ::
  "u64 \<Rightarrow> (nat \<Rightarrow> sl_random) \<Rightarrow> string list \<Rightarrow> u64 \<Rightarrow> memtable \<Rightarrow> memtable result" where
  "MemTable_remove_batch limit r keys tranc_id m =
     bindE (remove_all r keys tranc_id m) (\<lambda>m. Inr (freeze_if_full limit m))"

definition MemTable_clear :: "memtable \<Rightarrow> memtable" where
  "MemTable_clear m = m\<lparr>frozen_tables := [], current_table := SkipList_clear (current_table m)\<rparr>"

definition MemTable_get_cur_size :: "memtable \<Rightarrow> u64" where
  "MemTable_get_cur_size m = SkipList_get_size (current_table m)"

definition MemTable_get_frozen_size :: "memtable \<Rightarrow> u64" where
  "MemTable_get_frozen_size m = frozen_bytes m"

definition MemTable_get_total_size :: "memtable \<Rightarrow> u64" where
  "MemTable_get_total_size m = MemTable_get_frozen_size m + MemTable_get_cur_size m"

section \<open>Lookups\<close>

text \<open>
  An iterator into one of the tables: the table and the node, or \<open>None\<close> for the default iterator. Its node
  is the one \<^verbatim>\<open>get\<close> found, so it is valid when its key is not empty.
\<close>

type_synonym mt_iter = "(skiplist \<times> nat) option"

definition mt_iter_valid :: "mt_iter \<Rightarrow> bool result" where
  "mt_iter_valid it =
     (case it of None \<Rightarrow> Inr False | Some (t, a) \<Rightarrow> SkipListIterator_is_valid t (Some a))"

definition mt_iter_value :: "mt_iter \<Rightarrow> (string \<times> u64) result" where
  "mt_iter_value it =
     (case it of
        None \<Rightarrow> Inl Undefined_behaviour
      | Some (t, a) \<Rightarrow>
          bindE (SkipListIterator_get_value t (Some a)) (\<lambda>v.
          bindE (SkipListIterator_get_tranc_id t (Some a)) (\<lambda>tid. Inr (v, tid))))"

definition table_get :: "skiplist \<Rightarrow> string \<Rightarrow> u64 \<Rightarrow> mt_iter result" where
  "table_get t key tranc_id =
     bindE (SkipList_get t key tranc_id) (\<lambda>it. Inr (map_option (\<lambda>a. (t, a)) it))"

definition MemTable_cur_get_unlocked :: "memtable \<Rightarrow> string \<Rightarrow> u64 \<Rightarrow> mt_iter result" where
  "MemTable_cur_get_unlocked m key tranc_id =
     bindE (table_get (current_table m) key tranc_id) (\<lambda>res.
     bindE (mt_iter_valid res) (\<lambda>ok. Inr (if ok then res else None)))"

text \<open>The loop over the frozen tables: the first valid answer.\<close>

primrec first_valid :: "('t \<Rightarrow> 'i result) \<Rightarrow> ('i \<Rightarrow> bool result) \<Rightarrow> 'i \<Rightarrow> 't list \<Rightarrow> 'i result" where
  "first_valid lookup valid none [] = Inr none"
| "first_valid lookup valid none (t # ts) =
     bindE (lookup t) (\<lambda>res. bindE (valid res) (\<lambda>ok. if ok then Inr res else first_valid lookup valid none ts))"

definition MemTable_frozen_get_unlocked :: "memtable \<Rightarrow> string \<Rightarrow> u64 \<Rightarrow> mt_iter result" where
  "MemTable_frozen_get_unlocked m key tranc_id =
     first_valid (\<lambda>t. table_get t key tranc_id) mt_iter_valid None (frozen_tables m)"

definition MemTable_get_unlocked :: "memtable \<Rightarrow> string \<Rightarrow> u64 \<Rightarrow> mt_iter result" where
  "MemTable_get_unlocked m key tranc_id =
     bindE (MemTable_cur_get_unlocked m key tranc_id) (\<lambda>cur_res.
     bindE (mt_iter_valid cur_res) (\<lambda>ok.
       if ok then Inr cur_res
       else
         bindE (MemTable_frozen_get_unlocked m key tranc_id) (\<lambda>frozen_result.
         bindE (mt_iter_valid frozen_result) (\<lambda>ok. Inr (if ok then frozen_result else None)))))"

definition MemTable_get :: "memtable \<Rightarrow> string \<Rightarrow> u64 \<Rightarrow> mt_iter result" where
  "MemTable_get m key tranc_id =
     bindE (MemTable_cur_get_unlocked m key tranc_id) (\<lambda>cur_res.
     bindE (mt_iter_valid cur_res) (\<lambda>ok.
       if ok then Inr cur_res
       else
         bindE (MemTable_frozen_get_unlocked m key tranc_id) (\<lambda>frozen_result.
         bindE (mt_iter_valid frozen_result) (\<lambda>ok. Inr (if ok then frozen_result else None)))))"

type_synonym batch_result = "(string \<times> (string \<times> u64) option) list"

definition result_of :: "mt_iter \<Rightarrow> (string \<times> u64) option result" where
  "result_of it =
     bindE (mt_iter_valid it) (\<lambda>ok. if ok then bindE (mt_iter_value it) (\<lambda>v. Inr (Some v)) else Inr None)"

definition MemTable_get_batch :: "memtable \<Rightarrow> string list \<Rightarrow> u64 \<Rightarrow> batch_result result" where
  "MemTable_get_batch m keys tranc_id =
     bindE (mapE (\<lambda>key.
        bindE (MemTable_cur_get_unlocked m key tranc_id) (\<lambda>cur_res.
        bindE (result_of cur_res) (\<lambda>r. Inr (key, r)))) keys) (\<lambda>results.
     if \<not> list_ex (\<lambda>r. snd r = None) results then Inr results
     else
       mapE (\<lambda>(key, r).
         if r \<noteq> None then Inr (key, r)
         else
           bindE (MemTable_frozen_get_unlocked m key tranc_id) (\<lambda>frozen_result.
           bindE (result_of frozen_result) (\<lambda>r. Inr (key, r)))) results)"

section \<open>Flushing\<close>

text \<open>
  The builder and the list of finished transactions are the caller's; the smallest and largest
  transaction ids the loop computes are not used.
\<close>

fun flush_loop_add ::
  "(string \<Rightarrow> u64) \<Rightarrow> entry list \<Rightarrow> u64 list \<Rightarrow> filesys \<times> sst_builder \<Rightarrow> (u64 list \<times> filesys \<times> sst_builder) result" where
  "flush_loop_add h [] ids s = Inr (ids, s)"
| "flush_loop_add h (e # es) ids s =
     (let ids = (if ekey e = [] \<and> evalue e = [] then ids @ [etranc e] else ids) in
      bindE (SSTBuilder_add h (ekey e) (evalue e) (etranc e) s) (flush_loop_add h es ids))"

definition take_oldest :: "memtable \<Rightarrow> (skiplist \<times> memtable) option" where
  "take_oldest m =
     (if frozen_tables m = [] \<and> SkipList_get_size (current_table m) = 0 then None
      else
        let m = (if frozen_tables m = [] then MemTable_frozen_cur_table_unlocked m else m);
            table = last (frozen_tables m) in
        Some (table, m\<lparr>frozen_tables := butlast (frozen_tables m),
                        frozen_bytes := frozen_bytes m - SkipList_get_size table\<rparr>))"

definition MemTable_flush_last ::
  "(string \<Rightarrow> u64) \<Rightarrow> sst_builder \<Rightarrow> string \<Rightarrow> u64 \<Rightarrow> u64 list \<Rightarrow> bool \<Rightarrow> filesys \<times> memtable \<Rightarrow>
     (sst option \<times> u64 list \<times> filesys \<times> memtable) result" where
  "MemTable_flush_last h builder sst_path sid flushed_tranc_ids has_cache s =
     (let (fs, m) = s in
      case take_oldest m of
        None \<Rightarrow> Inr (None, flushed_tranc_ids, fs, m)
      | Some (table, m) \<Rightarrow>
          bindE (SkipList_flush table) (\<lambda>flush_data.
          bindE (flush_loop_add h flush_data flushed_tranc_ids (fs, builder)) (\<lambda>(ids, fs, builder).
          bindE (SSTBuilder_build h sid sst_path has_cache (fs, builder)) (\<lambda>(fs, s).
            Inr (Some s, ids, fs, m)))))"

section \<open>Scans\<close>

text \<open>
  The loop \<^verbatim>\<open>for (iter = first; iter != stop; ++iter)\<close> over one table; \<open>once\<close> is the check of the range
  scans that the key is not the one last collected.
\<close>

definition collect_one ::
  "bool \<Rightarrow> u64 \<Rightarrow> int \<Rightarrow> skiplist \<Rightarrow> sl_iter \<Rightarrow> search_item list \<Rightarrow> search_item list result" where
  "collect_one once tranc_id table_idx t iter item_vec =
     bindE (SkipListIterator_get_tranc_id t iter) (\<lambda>tid.
       if tranc_id \<noteq> 0 \<and> tranc_id < tid then Inr item_vec
       else
         bindE (SkipListIterator_get_key t iter) (\<lambda>key.
           if once \<and> item_vec \<noteq> [] \<and> si_key (last item_vec) = key then Inr item_vec
           else
             bindE (SkipListIterator_get_value t iter) (\<lambda>val.
               Inr (item_vec @ [\<lparr>si_key = key, si_value = val, si_tranc_id = tid, si_idx = table_idx, si_level = 0\<rparr>]))))"

primrec collect_range ::
  "nat \<Rightarrow> bool \<Rightarrow> u64 \<Rightarrow> int \<Rightarrow> skiplist \<Rightarrow> sl_iter \<Rightarrow> sl_iter \<Rightarrow> search_item list \<Rightarrow> search_item list result" where
  "collect_range 0 once tranc_id idx t stop iter item_vec = Inl No_return"
| "collect_range (Suc n) once tranc_id idx t stop iter item_vec =
     (if SkipListIterator_eq iter stop then Inr item_vec
      else
        bindE (collect_one once tranc_id idx t iter item_vec) (\<lambda>item_vec.
        bindE (SkipListIterator_incr t iter) (\<lambda>iter. collect_range n once tranc_id idx t stop iter item_vec)))"

text \<open>The range of each table: a pair of iterators, or \<open>None\<close> when the table has nothing in it.\<close>

primrec collect_tables ::
  "(skiplist \<Rightarrow> (sl_iter \<times> sl_iter) option result) \<Rightarrow> bool \<Rightarrow> u64 \<Rightarrow> int \<Rightarrow> skiplist list \<Rightarrow> search_item list \<Rightarrow>
     search_item list result" where
  "collect_tables rng once tranc_id idx [] item_vec = Inr item_vec"
| "collect_tables rng once tranc_id idx (t # ts) item_vec =
     bindE (rng t) (\<lambda>r.
     bindE (case r of
              None \<Rightarrow> Inr item_vec
            | Some (first, stop) \<Rightarrow>
                collect_range (length (sl_nodes t) + 1) once tranc_id idx t stop first item_vec) (\<lambda>item_vec.
       collect_tables rng once tranc_id (idx + 1) ts item_vec))"

definition whole_range :: "skiplist \<Rightarrow> (sl_iter \<times> sl_iter) option result" where
  "whole_range t = bindE (SkipList_begin t) (\<lambda>first. Inr (Some (first, SkipList_end)))"

definition prefix_range :: "string \<Rightarrow> skiplist \<Rightarrow> (sl_iter \<times> sl_iter) option result" where
  "prefix_range p t =
     bindE (SkipList_begin_preffix t p) (\<lambda>first.
     bindE (SkipList_end_preffix t p) (\<lambda>stop. Inr (Some (first, stop))))"

definition MemTable_begin :: "memtable \<Rightarrow> u64 \<Rightarrow> heap_iter result" where
  "MemTable_begin m tranc_id =
     bindE (collect_tables whole_range False tranc_id 0 (current_table m # frozen_tables m) []) (\<lambda>item_vec.
       HeapIterator_new item_vec tranc_id True False)"

definition MemTable_end :: heap_iter where
  "MemTable_end = HeapIterator_default True False"

definition MemTable_iters_preffix :: "memtable \<Rightarrow> string \<Rightarrow> u64 \<Rightarrow> heap_iter result" where
  "MemTable_iters_preffix m preffix tranc_id =
     bindE (collect_tables (prefix_range preffix) True tranc_id 0 (current_table m # frozen_tables m) []) (\<lambda>item_vec.
       HeapIterator_new item_vec tranc_id True False)"

definition MemTable_iters_monotony_predicate ::
  "memtable \<Rightarrow> u64 \<Rightarrow> (string \<Rightarrow> int) \<Rightarrow> (heap_iter \<times> heap_iter) option result" where
  "MemTable_iters_monotony_predicate m tranc_id predicate =
     bindE (collect_tables (\<lambda>t. SkipList_iters_monotony_predicate t predicate) True tranc_id 0
              (current_table m # frozen_tables m) []) (\<lambda>item_vec.
       if item_vec = [] then Inr None
       else bindE (HeapIterator_new item_vec tranc_id True False) (\<lambda>it.
              Inr (Some (it, HeapIterator_default True False))))"

section \<open>What the table holds\<close>

definition mt_repr :: "memtable \<Rightarrow> entry list list \<Rightarrow> bool" where
  "mt_repr m ess \<longleftrightarrow>
     list_all2 sl_repr (current_table m # frozen_tables m) ess \<and>
     frozen_bytes m = sum_list (map SkipList_get_size (frozen_tables m))"

lemma mt_repr_Cons:
  "mt_repr m ess \<longleftrightarrow> (\<exists>es fss. ess = es # fss \<and> sl_repr (current_table m) es \<and> list_all2 sl_repr (frozen_tables m) fss \<and>
     frozen_bytes m = sum_list (map SkipList_get_size (frozen_tables m)))"
  by (auto simp: mt_repr_def list_all2_Cons1)

lemma new_table_repr: "sl_repr new_table []"
  by (simp add: new_table_def new_repr)

lemma MemTable_new_repr: "mt_repr MemTable_new [[]]"
  by (simp add: mt_repr_def MemTable_new_def new_table_repr)

section \<open>Looking up a key in a list of tables\<close>

text \<open>
  What the lookup relies on: each table answers with the newest visible version it has, and an answer is
  valid when it shows a version.
\<close>

locale version_tables =
  fixes holds :: "'t \<Rightarrow> entry list \<Rightarrow> bool"
    and lookup :: "'t \<Rightarrow> string \<Rightarrow> u64 \<Rightarrow> 'i result"
    and valid :: "'i \<Rightarrow> bool result"
    and none :: 'i
    and shown :: "'i \<Rightarrow> entry option \<Rightarrow> bool"
  assumes lookup: "holds t es \<Longrightarrow> key \<noteq> [] \<Longrightarrow> \<exists>i. lookup t key tid = Inr i \<and> shown i (version_of key tid es)"
    and valid: "shown i v \<Longrightarrow> valid i = Inr (v \<noteq> None)"
    and none: "shown none None"
begin

lemma search_tables:
  assumes "list_all2 holds ts ess" and "key \<noteq> []"
  shows "\<exists>i. first_valid (\<lambda>t. lookup t key tid) valid none ts = Inr i \<and> shown i (version_of key tid (concat ess))"
  using assms(1)
proof (induction ts ess rule: list_all2_induct)
  case Nil
  show ?case using none by (simp add: version_of_def)
next
  case (Cons t ts es ess)
  obtain i where i: "lookup t key tid = Inr i" "shown i (version_of key tid es)"
    using lookup [OF Cons.hyps(1) assms(2)] by blast
  show ?case
    using i Cons.IH valid [OF i(2)] by (auto simp: version_of_append split: option.split)
qed

end

definition mt_shown :: "mt_iter \<Rightarrow> entry option \<Rightarrow> bool" where
  "mt_shown it v =
     (case v of
        None \<Rightarrow> it = None
      | Some e \<Rightarrow> ekey e \<noteq> [] \<and> (\<exists>t a. it = Some (t, a) \<and> a < length (sl_nodes t) \<and> sl_entry t a = e))"

lemma mt_shown_valid: "mt_shown it v \<Longrightarrow> mt_iter_valid it = Inr (v \<noteq> None)"
  by (auto simp: mt_shown_def mt_iter_valid_def SkipListIterator_is_valid_def node_at_def sl_entry_def Let_def split: option.splits)

lemma mt_shown_value: "mt_shown it (Some e) \<Longrightarrow> mt_iter_value it = Inr (evalue e, etranc e)"
  by (auto simp: mt_shown_def mt_iter_value_def SkipListIterator_get_value_def SkipListIterator_get_tranc_id_def
      node_at_def sl_entry_def Let_def)

lemma table_get_repr:
  assumes "sl_repr t es" and "key \<noteq> []"
  shows "\<exists>i. table_get t key tid = Inr i \<and> mt_shown i (version_of key tid es)"
proof -
  obtain it where it: "SkipList_get t key tid = Inr it" "read_iter t it = Inr (version_of key tid es)"
    using get_repr [OF assms(1), of key tid] by (auto simp: version_of_def)
  have "mt_shown (map_option (\<lambda>a. (t, a)) it) (version_of key tid es)"
  proof (cases it)
    case None
    then show ?thesis using it(2) by (simp add: read_iter_def SkipListIterator_is_end_def mt_shown_def)
  next
    case (Some a)
    with it(2) have a: "a < length (sl_nodes t)"
      by (auto simp: read_iter_def SkipListIterator_is_end_def SkipListIterator_get_key_def node_at_def bindE_eq_Inr split: if_splits)
    then have v: "version_of key tid es = Some (sl_entry t a)"
      using it(2) Some by (simp add: read_iter_Some)
    then have "ekey (sl_entry t a) = key"
      by (auto simp: version_of_def find_Some_iff)
    with a v Some assms(2) show ?thesis by (simp add: mt_shown_def)
  qed
  with it(1) show ?thesis by (simp add: table_get_def)
qed

interpretation mt: version_tables sl_repr table_get mt_iter_valid None mt_shown
  using table_get_repr mt_shown_valid by unfold_locales (auto simp: mt_shown_def)

lemma cur_get_repr:
  assumes "mt_repr m (es # ess)" and "key \<noteq> []"
  shows "\<exists>i. MemTable_cur_get_unlocked m key tid = Inr i \<and> mt_shown i (version_of key tid es)"
proof -
  obtain i where "table_get (current_table m) key tid = Inr i" "mt_shown i (version_of key tid es)"
    using assms mt.lookup [of "current_table m" es key tid] by (auto simp: mt_repr_Cons)
  then show ?thesis
    using mt.valid [of i "version_of key tid es"]
    by (cases "version_of key tid es") (auto simp: MemTable_cur_get_unlocked_def mt_shown_def)
qed

lemma frozen_get_repr:
  assumes "mt_repr m (es # ess)" and "key \<noteq> []"
  shows "\<exists>i. MemTable_frozen_get_unlocked m key tid = Inr i \<and> mt_shown i (version_of key tid (concat ess))"
  using assms mt.search_tables [of "frozen_tables m" ess key tid]
  by (auto simp: mt_repr_Cons MemTable_frozen_get_unlocked_def)

lemma get_unlocked_eq: "MemTable_get m key tid = MemTable_get_unlocked m key tid"
  by (simp add: MemTable_get_def MemTable_get_unlocked_def)

lemma memtable_get_repr:
  assumes "mt_repr m ess" and "key \<noteq> []"
  shows "\<exists>i. MemTable_get m key tid = Inr i \<and> mt_shown i (version_of key tid (concat ess))"
proof -
  obtain es fss where ess: "ess = es # fss" using assms(1) by (auto simp: mt_repr_Cons)
  obtain i where i: "MemTable_cur_get_unlocked m key tid = Inr i" "mt_shown i (version_of key tid es)"
    using cur_get_repr [of m es fss] assms ess by blast
  obtain j where j: "MemTable_frozen_get_unlocked m key tid = Inr j" "mt_shown j (version_of key tid (concat fss))"
    using frozen_get_repr [of m es fss] assms ess by blast
  show ?thesis
    using i j mt.valid [OF i(2)] mt.valid [OF j(2)]
    by (cases "version_of key tid es"; cases "version_of key tid (concat fss)")
      (auto simp: MemTable_get_def version_of_append ess mt_shown_def)
qed

lemma result_of_shown:
  assumes "mt_shown i v"
  shows "result_of i = Inr (map_option (\<lambda>e. (evalue e, etranc e)) v)"
  using mt_shown_valid [OF assms] mt_shown_value [of i] assms by (cases v) (simp_all add: result_of_def)

lemma get_batch_repr:
  assumes "mt_repr m ess" and "\<forall>k \<in> set keys. k \<noteq> []"
  shows "MemTable_get_batch m keys tid =
    Inr (map (\<lambda>k. (k, map_option (\<lambda>e. (evalue e, etranc e)) (version_of k tid (concat ess)))) keys)"
proof -
  obtain es fss where ess: "ess = es # fss" using assms(1) by (auto simp: mt_repr_Cons)
  let ?r = "\<lambda>v. map_option (\<lambda>e. (evalue e, etranc e)) v"
  let ?cur = "\<lambda>k. (k, ?r (version_of k tid es))" and ?all = "\<lambda>k. (k, ?r (version_of k tid (concat ess)))"
  have 1: "mapE (\<lambda>key. bindE (MemTable_cur_get_unlocked m key tid) (\<lambda>i. bindE (result_of i) (\<lambda>r. Inr (key, r)))) keys =
      Inr (map ?cur keys)"
  proof (rule mapE_Inr)
    fix k assume "k \<in> set keys"
    then obtain i where i: "MemTable_cur_get_unlocked m k tid = Inr i" "mt_shown i (version_of k tid es)"
      using cur_get_repr [of m es fss k tid] assms ess by blast
    then show "bindE (MemTable_cur_get_unlocked m k tid) (\<lambda>i. bindE (result_of i) (\<lambda>r. Inr (k, r))) = Inr (?cur k)"
      using result_of_shown [OF i(2)] by simp
  qed
  have none: "?all k = ?cur k" if "version_of k tid es \<noteq> None" for k
    using that by (auto simp: ess version_of_append)
  have 2: "mapE (\<lambda>(key, r). if r \<noteq> None then Inr (key, r)
      else bindE (MemTable_frozen_get_unlocked m key tid) (\<lambda>i. bindE (result_of i) (\<lambda>r. Inr (key, r)))) (map ?cur ks) =
    Inr (map ?all ks)" if "set ks \<subseteq> set keys" for ks
    using that
  proof (induction ks)
    case (Cons k ks)
    obtain j where j: "MemTable_frozen_get_unlocked m k tid = Inr j" "mt_shown j (version_of k tid (concat fss))"
      using frozen_get_repr [of m es fss k tid] assms ess Cons.prems by auto
    then show ?case
      using Cons result_of_shown [OF j(2)] by (cases "version_of k tid es") (simp_all add: ess version_of_append)
  qed simp
  show ?thesis
  proof (cases "list_ex (\<lambda>r. snd r = None) (map ?cur keys)")
    case True
    with 1 2 [of keys] show ?thesis by (simp add: MemTable_get_batch_def)
  next
    case False
    then have "map ?cur keys = map ?all keys"
      using none by (auto simp: list_ex_iff)
    with 1 False show ?thesis by (simp add: MemTable_get_batch_def)
  qed
qed

section \<open>Writes\<close>

text \<open>The specification of the writes on the lists of versions, newest table first.\<close>

abbreviation entry_of :: "string \<Rightarrow> string \<Rightarrow> u64 \<Rightarrow> entry" where
  "entry_of k v t \<equiv> \<lparr>ekey = k, evalue = v, etranc = t\<rparr>"

definition table_bytes :: "entry list \<Rightarrow> u64" where
  "table_bytes es = of_nat (sum_list (map entry_bytes_used es))"

fun spec_write :: "entry list \<Rightarrow> entry list list \<Rightarrow> entry list list" where
  "spec_write es (t # ts) = fold put_entry es t # ts"
| "spec_write es [] = []"

fun spec_freeze :: "u64 \<Rightarrow> entry list list \<Rightarrow> entry list list" where
  "spec_freeze limit (t # ts) = (if limit < table_bytes t then [] # t # ts else t # ts)"
| "spec_freeze limit [] = []"

datatype mt_op =
    Put string string u64
  | Put_batch "(string \<times> string) list" u64
  | Remove string u64
  | Remove_batch "string list" u64
  | Freeze

primrec mt_op_entries :: "mt_op \<Rightarrow> entry list" where
  "mt_op_entries (Put k v t) = [entry_of k v t]"
| "mt_op_entries (Put_batch kvs t) = map (\<lambda>(k, v). entry_of k v t) kvs"
| "mt_op_entries (Remove k t) = [entry_of k [] t]"
| "mt_op_entries (Remove_batch ks t) = map (\<lambda>k. entry_of k [] t) ks"
| "mt_op_entries Freeze = []"

definition spec_step :: "u64 \<Rightarrow> mt_op \<Rightarrow> entry list list \<Rightarrow> entry list list" where
  "spec_step limit w ess =
     (if w = Freeze then [] # ess else spec_freeze limit (spec_write (mt_op_entries w) ess))"

primrec MemTable_step :: "u64 \<Rightarrow> (nat \<Rightarrow> sl_random) \<Rightarrow> mt_op \<Rightarrow> memtable \<Rightarrow> memtable result" where
  "MemTable_step limit r (Put k v t) m = MemTable_put limit (r 0) k v t m"
| "MemTable_step limit r (Put_batch kvs t) m = MemTable_put_batch limit r kvs t m"
| "MemTable_step limit r (Remove k t) m = MemTable_remove limit (r 0) k t m"
| "MemTable_step limit r (Remove_batch ks t) m = MemTable_remove_batch limit r ks t m"
| "MemTable_step limit r Freeze m = Inr (MemTable_frozen_cur_table m)"

primrec MemTable_run :: "u64 \<Rightarrow> (mt_op \<times> (nat \<Rightarrow> sl_random)) list \<Rightarrow> memtable \<Rightarrow> memtable result" where
  "MemTable_run limit [] m = Inr m"
| "MemTable_run limit (x # xs) m = bindE (MemTable_step limit (snd x) (fst x) m) (MemTable_run limit xs)"

lemma put_unlocked_repr:
  assumes "mt_repr m (es # ess)"
  shows "\<exists>m'. MemTable_put_unlocked r k v t m = Inr m' \<and> mt_repr m' (put_entry (entry_of k v t) es # ess)"
proof -
  have "sl_repr (current_table m) es" using assms by (simp add: mt_repr_def)
  from put_repr [OF this, of "fst r" "snd r" k v t] assms show ?thesis
    by (auto simp: MemTable_put_unlocked_def mt_repr_def)
qed

lemma put_all_repr:
  "mt_repr m (es # ess) \<Longrightarrow> \<exists>m'. put_all r kvs t m = Inr m' \<and>
     mt_repr m' (fold put_entry (map (\<lambda>(k, v). entry_of k v t) kvs) es # ess)"
proof (induction kvs arbitrary: m es r)
  case (Cons kv kvs)
  obtain m1 where "MemTable_put_unlocked (r 0) (fst kv) (snd kv) t m = Inr m1"
    "mt_repr m1 (put_entry (entry_of (fst kv) (snd kv) t) es # ess)"
    using put_unlocked_repr [OF Cons.prems] by blast
  with Cons.IH [of m1] show ?case by (simp add: case_prod_beta)
qed simp

lemma remove_is_put: "MemTable_remove_unlocked r k t m = MemTable_put_unlocked r k [] t m"
  by (simp add: MemTable_remove_unlocked_def MemTable_put_unlocked_def)

lemma remove_all_is_put: "remove_all r ks t m = put_all r (map (\<lambda>k. (k, [])) ks) t m"
proof (induction ks arbitrary: r m)
  case (Cons k ks)
  have "remove_all (\<lambda>n. r (Suc n)) ks t = put_all (\<lambda>n. r (Suc n)) (map (\<lambda>k. (k, [])) ks) t"
    using Cons.IH by (intro ext)
  then show ?case by (simp add: remove_is_put)
qed simp

lemma table_bytes_repr: "sl_repr t es \<Longrightarrow> SkipList_get_size t = table_bytes es"
  by (simp add: SkipList_get_size_def table_bytes_def sl_repr_sorted(3))

lemma frozen_repr:
  assumes "mt_repr m ess"
  shows "mt_repr (MemTable_frozen_cur_table_unlocked m) ([] # ess)"
  using assms by (auto simp: mt_repr_Cons MemTable_frozen_cur_table_unlocked_def new_table_repr add.commute)

lemma freeze_if_full_repr:
  assumes "mt_repr m ess"
  shows "mt_repr (freeze_if_full limit m) (spec_freeze limit ess)"
proof -
  obtain es fss where "ess = es # fss" "SkipList_get_size (current_table m) = table_bytes es"
    using assms table_bytes_repr by (auto simp: mt_repr_Cons)
  then show ?thesis
    using assms frozen_repr [OF assms] by (simp add: freeze_if_full_def)
qed

lemma MemTable_step_repr:
  assumes "mt_repr m ess"
  shows "\<exists>m'. MemTable_step limit r w m = Inr m' \<and> mt_repr m' (spec_step limit w ess)"
proof (cases "w = Freeze")
  case True
  then show ?thesis
    using frozen_repr [OF assms] by (simp add: spec_step_def MemTable_frozen_cur_table_def)
next
  case False
  obtain es fss where ess: "ess = es # fss" using assms by (auto simp: mt_repr_Cons)
  have "\<exists>m1. MemTable_step limit r w m = Inr (freeze_if_full limit m1) \<and> mt_repr m1 (spec_write (mt_op_entries w) ess)"
  proof (cases w)
    case (Put k v t)
    with put_unlocked_repr [of m es fss "r 0" k v t] assms ess show ?thesis by (auto simp: MemTable_put_def)
  next
    case (Put_batch kvs t)
    with put_all_repr [of m es fss r kvs t] assms ess show ?thesis by (auto simp: MemTable_put_batch_def)
  next
    case (Remove k t)
    with put_unlocked_repr [of m es fss "r 0" k "[]" t] assms ess show ?thesis
      by (auto simp: MemTable_remove_def remove_is_put)
  next
    case (Remove_batch ks t)
    with put_all_repr [of m es fss r "map (\<lambda>k. (k, [])) ks" t] assms ess show ?thesis
      by (auto simp: MemTable_remove_batch_def remove_all_is_put comp_def)
  qed (use False in simp)
  with freeze_if_full_repr False show ?thesis by (auto simp: spec_step_def)
qed

lemma MemTable_run_repr:
  "mt_repr m ess \<Longrightarrow> \<exists>m'. MemTable_run limit xs m = Inr m' \<and> mt_repr m' (fold (\<lambda>x. spec_step limit (fst x)) xs ess)"
proof (induction xs arbitrary: m ess)
  case (Cons x xs)
  obtain m1 where "MemTable_step limit (snd x) (fst x) m = Inr m1" "mt_repr m1 (spec_step limit (fst x) ess)"
    using MemTable_step_repr [OF Cons.prems] by blast
  with Cons.IH [of m1] show ?case by simp
qed simp

lemma mt_repr_sizes:
  assumes "mt_repr m (es # ess)"
  shows "MemTable_get_total_size m = sum_list (map table_bytes (es # ess))"
proof -
  have "map SkipList_get_size ts = map table_bytes fss" if "list_all2 sl_repr ts fss" for ts fss
    using that by (induction rule: list_all2_induct) (simp_all add: table_bytes_repr)
  then show ?thesis
    using assms table_bytes_repr
    by (auto simp: mt_repr_Cons MemTable_get_total_size_def MemTable_get_frozen_size_def MemTable_get_cur_size_def add.commute)
qed

section \<open>Collecting the items of a scan\<close>

definition item_of :: "int \<Rightarrow> entry \<Rightarrow> search_item" where
  "item_of idx e = \<lparr>si_key = ekey e, si_value = evalue e, si_tranc_id = etranc e, si_idx = idx, si_level = 0\<rparr>"

lemma item_of_simps [simp]:
  "si_key (item_of i e) = ekey e" "si_value (item_of i e) = evalue e" "si_tranc_id (item_of i e) = etranc e"
  "si_idx (item_of i e) = i" "si_level (item_of i e) = 0"
  by (simp_all add: item_of_def)

definition add_spec :: "bool \<Rightarrow> u64 \<Rightarrow> int \<Rightarrow> entry \<Rightarrow> search_item list \<Rightarrow> search_item list" where
  "add_spec once tid idx e items =
     (if \<not> visible tid e \<or> once \<and> items \<noteq> [] \<and> si_key (last items) = ekey e then items else items @ [item_of idx e])"

primrec tables_spec :: "bool \<Rightarrow> u64 \<Rightarrow> int \<Rightarrow> entry list list \<Rightarrow> search_item list \<Rightarrow> search_item list" where
  "tables_spec once tid idx [] items = items"
| "tables_spec once tid idx (es # ess) items =
     tables_spec once tid (idx + 1) ess (fold (add_spec once tid idx) es items)"

lemma collect_range_ok:
  assumes "iter_range t first stop xs" and "length xs < n"
  shows "collect_range n once tid idx t stop first items = Inr (fold (add_spec once tid idx) xs items)"
  using assms
proof (induction xs arbitrary: first n items)
  case Nil
  then obtain k where "n = Suc k" by (cases n) auto
  with iter_range_Nil [OF Nil.prems(1)] show ?case by (simp add: SkipListIterator_eq_def)
next
  case (Cons e xs)
  then obtain k where n: "n = Suc k" by (cases n) auto
  note r = iter_range_Cons [OF Cons.prems(1)]
  obtain nxt where nxt: "SkipListIterator_incr t first = Inr nxt" "iter_range t nxt stop xs" using r(5) by blast
  have "collect_one once tid idx t first items = Inr (add_spec once tid idx e items)"
    by (auto simp: collect_one_def r(2-4) add_spec_def visible_def item_of_def)
  with Cons.IH [OF nxt(2), of k] Cons.prems(2) n nxt(1) r(1) show ?case
    by (simp add: SkipListIterator_eq_def)
qed

lemma collect_tables_ok:
  assumes "list_all2 (\<lambda>t xs. \<exists>r. rng t = Inr r \<and>
      (case r of None \<Rightarrow> xs = [] | Some (first, stop) \<Rightarrow> iter_range t first stop xs)) ts ess"
  shows "collect_tables rng once tid idx ts items = Inr (tables_spec once tid idx ess items)"
  using assms
proof (induction ts ess arbitrary: idx items rule: list_all2_induct)
  case (Cons t ts xs ess)
  obtain r where r: "rng t = Inr r" "case r of None \<Rightarrow> xs = [] | Some (first, stop) \<Rightarrow> iter_range t first stop xs"
    using Cons.hyps(1) by blast
  have "(case r of None \<Rightarrow> Inr items
      | Some (first, stop) \<Rightarrow> collect_range (length (sl_nodes t) + 1) once tid idx t stop first items) =
      Inr (fold (add_spec once tid idx) xs items)"
    using r(2) collect_range_ok [of t _ _ xs "length (sl_nodes t) + 1"] iter_range_length [of t _ _ xs]
    by (auto split: option.splits simp: less_Suc_eq_le simp del: collect_range.simps)
  with Cons.IH r(1) show ?case by simp
qed simp

section \<open>The newest version of every key\<close>

lemma sorted_dropWhile_key:
  assumes "sorted_wrt item_before (x # xs)"
  shows "dropWhile (\<lambda>y. si_key y = si_key x) xs = filter (\<lambda>y. si_key y \<noteq> si_key x) xs"
  using assms
proof (induction xs)
  case (Cons y ys)
  show ?case
  proof (cases "si_key y = si_key x")
    case True
    then show ?thesis using Cons by simp
  next
    case False
    then have "si_key x < si_key y" using Cons.prems by (auto simp: item_before_def)
    moreover have "si_key y \<le> si_key z" if "z \<in> set ys" for z
      using Cons.prems that by (auto simp: item_before_def)
    ultimately have "\<forall>z \<in> set ys. si_key z \<noteq> si_key x" by fastforce
    then show ?thesis using False by (simp add: filter_id_conv)
  qed
qed simp

lemma find_filter_other: "(\<And>y. P y \<Longrightarrow> Q y) \<Longrightarrow> find P (filter Q xs) = find P xs"
  by (induction xs) auto

lemma heads_first:
  assumes "sorted_wrt item_before q"
  shows "sorted_wrt (\<lambda>x y. si_key x < si_key y) (heads si_key q)"
    and "x \<in> set (heads si_key q) \<longleftrightarrow> find (\<lambda>y. si_key y = si_key x) q = Some x"
    and "set (heads si_key q) \<subseteq> set q"
proof -
  have "sorted_wrt (\<lambda>x y. si_key x < si_key y) (heads si_key q) \<and> set (heads si_key q) \<subseteq> set q \<and>
      (\<forall>x. x \<in> set (heads si_key q) \<longleftrightarrow> find (\<lambda>y. si_key y = si_key x) q = Some x)"
    using assms
  proof (induction "si_key :: search_item \<Rightarrow> string" q rule: heads.induct)
    case (2 x xs)
    let ?f = "filter (\<lambda>y. si_key y \<noteq> si_key x) xs"
    note dw = sorted_dropWhile_key [OF "2.prems"]
    have srt: "sorted_wrt item_before ?f" using "2.prems" by (simp add: sorted_wrt_filter)
    note IH = "2.hyps" [unfolded dw, OF srt]
    have up: "si_key x < si_key y" if "y \<in> set ?f" for y
      using that "2.prems" by (auto simp: item_before_def)
    note srt_f = IH [THEN conjunct1] and sub = IH [THEN conjunct2, THEN conjunct1]
      and mem = IH [THEN conjunct2, THEN conjunct2, rule_format]
    have key: "si_key z \<noteq> si_key x" if "z \<in> set (heads si_key ?f)" for z
      using up [OF subsetD [OF sub that]] by simp
    have hd: "heads si_key (x # xs) = x # heads si_key ?f" by (simp add: dw)
    have iff: "z \<in> set (heads si_key (x # xs)) \<longleftrightarrow> find (\<lambda>y. si_key y = si_key z) (x # xs) = Some z" for z
    proof (cases "si_key z = si_key x")
      case True
      then have "z \<notin> set (heads si_key ?f)" using key by blast
      with True show ?thesis unfolding hd by (simp add: eq_commute)
    next
      case False
      then have "z \<in> set (heads si_key (x # xs)) \<longleftrightarrow> find (\<lambda>y. si_key y = si_key z) ?f = Some z"
        unfolding hd using mem [of z] by auto
      also have "find (\<lambda>y. si_key y = si_key z) ?f = find (\<lambda>y. si_key y = si_key z) xs"
        using False by (intro find_filter_other) simp
      finally show ?thesis using False by simp
    qed
    have "\<forall>y \<in> set (heads si_key ?f). si_key x < si_key y" using sub up by blast
    with srt_f have "sorted_wrt (\<lambda>x y. si_key x < si_key y) (heads si_key (x # xs))" unfolding hd by simp
    moreover have "set (heads si_key (x # xs)) \<subseteq> set (x # xs)" unfolding hd using sub by auto
    ultimately show ?case using iff by blast
  qed simp
  then show "sorted_wrt (\<lambda>x y. si_key x < si_key y) (heads si_key q)"
    "x \<in> set (heads si_key q) \<longleftrightarrow> find (\<lambda>y. si_key y = si_key x) q = Some x" "set (heads si_key q) \<subseteq> set q"
    by auto
qed

lemma sorted_item_before_unique:
  assumes "sorted_wrt item_before xs" and "sorted_wrt item_before ys" and "mset xs = mset ys"
  shows "xs = ys"
  using assms
proof (induction xs arbitrary: ys)
  case (Cons x xs)
  then obtain y zs where ys: "ys = y # zs" by (cases ys) auto
  have "x = y"
  proof (rule ccontr)
    assume "x \<noteq> y"
    then have "y \<in> set xs" "x \<in> set zs"
      using mset_eq_setD [OF Cons.prems(3)] ys by auto
    then have "item_before x y" "item_before y x" using Cons.prems ys by auto
    then show False using item_before_asym by blast
  qed
  with Cons ys show ?case by simp
qed simp

section \<open>Scans deliver the newest versions\<close>

text \<open>The tables keep the order of the writes: an older table has no newer version of a key than a newer table.\<close>

definition tables_coherent :: "entry list list \<Rightarrow> bool" where
  "tables_coherent ess \<longleftrightarrow>
     sorted_wrt (\<lambda>xs ys. \<forall>x \<in> set xs. \<forall>y \<in> set ys. ekey x = ekey y \<longrightarrow> etranc y \<le> etranc x) ess"

definition strict_versions :: "entry list \<Rightarrow> bool" where
  "strict_versions es \<longleftrightarrow> sorted_wrt (\<lambda>x y. node_less (version x) (version y)) es"

primrec items_from :: "u64 \<Rightarrow> int \<Rightarrow> entry list list \<Rightarrow> search_item list" where
  "items_from tid idx [] = []"
| "items_from tid idx (es # ess) = map (item_of idx) (filter (visible tid) es) @ items_from tid (idx + 1) ess"

lemma add_spec_all: "fold (add_spec False tid idx) es items = items @ map (item_of idx) (filter (visible tid) es)"
  by (induction es arbitrary: items) (simp_all add: add_spec_def)

lemma tables_spec_all: "tables_spec False tid idx ess items = items @ items_from tid idx ess"
  by (induction ess arbitrary: idx items) (simp_all add: add_spec_all)

lemma items_from_member:
  "x \<in> set (items_from tid idx ess) \<Longrightarrow>
     \<exists>i < length ess. \<exists>e \<in> set (ess ! i). visible tid e \<and> x = item_of (idx + int i) e"
proof (induction ess arbitrary: idx)
  case (Cons es ess)
  show ?case
  proof (cases "x \<in> set (items_from tid (idx + 1) ess)")
    case True
    with Cons.IH [of "idx + 1"] obtain i e where
      "i < length ess" "e \<in> set (ess ! i)" "visible tid e" "x = item_of (idx + 1 + int i) e" by blast
    then show ?thesis by (intro exI [of _ "Suc i"]) (auto simp: add.assoc)
  next
    case False
    with Cons.prems show ?thesis by (intro exI [of _ 0]) auto
  qed
qed simp

lemma items_below:
  assumes "tables_coherent (es # ess)" and "e \<in> set es" and "y \<in> set (items_from tid (idx + 1) ess)" and "si_key y = ekey e"
  shows "item_before (item_of idx e) y"
proof -
  obtain i d where d: "i < length ess" "d \<in> set (ess ! i)" "y = item_of (idx + 1 + int i) d"
    using items_from_member [OF assms(3)] by blast
  moreover have "\<forall>xs \<in> set ess. \<forall>x \<in> set es. \<forall>y \<in> set xs. ekey x = ekey y \<longrightarrow> etranc y \<le> etranc x"
    using assms(1) by (simp add: tables_coherent_def)
  ultimately have "etranc d \<le> etranc e" using assms(2,4) by (metis nth_mem item_of_simps(1))
  with d assms(4) show ?thesis by (auto simp: item_before_def)
qed

lemma items_key_sorted:
  assumes "tables_coherent ess" and "\<forall>es \<in> set ess. strict_versions es"
  shows "sorted_wrt item_before (filter (\<lambda>x. si_key x = k) (items_from tid idx ess))"
  using assms
proof (induction ess arbitrary: idx)
  case (Cons es ess)
  let ?here = "map (item_of idx) (filter (\<lambda>e. ekey e = k) (filter (visible tid) es))"
  have "sorted_wrt (\<lambda>x y. node_less (version x) (version y)) (filter (\<lambda>e. ekey e = k) (filter (visible tid) es))"
    using Cons.prems(2) by (simp add: strict_versions_def sorted_wrt_filter)
  then have "sorted_wrt item_before ?here"
    unfolding sorted_wrt_map
    by (rule sorted_wrt_mono_rel [rotated]) (auto simp: item_before_def node_less_def version_def split: if_splits)
  moreover have "sorted_wrt item_before (filter (\<lambda>x. si_key x = k) (items_from tid (idx + 1) ess))"
    using Cons by (simp add: tables_coherent_def)
  moreover have "filter (\<lambda>x. si_key x = k) (items_from tid idx (es # ess)) =
      ?here @ filter (\<lambda>x. si_key x = k) (items_from tid (idx + 1) ess)"
    by (simp add: filter_map comp_def)
  ultimately show ?case
    using items_below [OF Cons.prems(1)] by (auto simp: sorted_wrt_append)
qed simp

lemma items_coherent:
  assumes "tables_coherent ess" and "\<forall>es \<in> set ess. strict_versions es"
  shows "coherent (items_from tid idx ess)"
proof -
  have "distinct (map (\<lambda>x. (si_key x, si_tranc_id x, si_idx x)) (items_from tid idx ess))"
    using assms
  proof (induction ess arbitrary: idx)
    case (Cons es ess)
    have "distinct (map version es)"
      using Cons.prems(2) by (auto simp: strict_versions_def distinct_conv_nth sorted_wrt_iff_nth_less)
        (metis node_less_irrefl linorder_neqE_nat)
    then have "distinct (map (\<lambda>e. (ekey e, etranc e, idx)) (filter (visible tid) es))"
      by (auto simp: distinct_map version_def inj_on_def)
    moreover have "idx < si_idx y" if "y \<in> set (items_from tid (idx + 1) ess)" for y
      using items_from_member [OF that] by auto
    then have "(ekey e, etranc e, idx) \<notin> (\<lambda>x. (si_key x, si_tranc_id x, si_idx x)) ` set (items_from tid (idx + 1) ess)" for e
      by force
    ultimately show ?case
      using Cons by (auto simp: tables_coherent_def comp_def)
  qed simp
  moreover have "si_level x = 0" if "x \<in> set (items_from tid idx ess)" for x
    using items_from_member [OF that] by auto
  moreover have "si_tranc_id b \<le> si_tranc_id a"
    if ab: "a \<in> set (items_from tid idx ess)" "b \<in> set (items_from tid idx ess)" "si_key a = si_key b" "si_idx a < si_idx b" for a b
  proof -
    obtain i d where d: "i < length ess" "d \<in> set (ess ! i)" "a = item_of (idx + int i) d"
      using items_from_member [OF ab(1)] by blast
    obtain j e where e: "j < length ess" "e \<in> set (ess ! j)" "b = item_of (idx + int j) e"
      using items_from_member [OF ab(2)] by blast
    have "i < j" using ab(4) d(3) e(3) by simp
    then show ?thesis
      using assms(1) d e ab(3) by (auto simp: tables_coherent_def sorted_wrt_iff_nth_less)
  qed
  ultimately show ?thesis by (auto simp: coherent_def)
qed

lemma find_items:
  "map_option item_pair (find (\<lambda>x. si_key x = k) (items_from tid idx ess)) =
   map_option (\<lambda>e. (ekey e, evalue e)) (version_of k tid (concat ess))"
proof (induction ess arbitrary: idx)
  case (Cons es ess)
  have "find (\<lambda>x. si_key x = k) (map (item_of idx) (filter (visible tid) es) @ ys) =
      (case version_of k tid es of None \<Rightarrow> find (\<lambda>x. si_key x = k) ys | Some e \<Rightarrow> Some (item_of idx e))" for ys
    by (induction es) (auto simp: version_of_def)
  then show ?case
    using Cons.IH [of "idx + 1"] by (auto simp: version_of_append item_pair_def split: option.split)
qed (simp add: version_of_def)

text \<open>Collecting each key once leaves out only items that a newer item of their key precedes.\<close>

definition thinned :: "search_item list \<Rightarrow> search_item list \<Rightarrow> bool" where
  "thinned xs ys \<longleftrightarrow> subseq xs ys \<and> (\<forall>k. find (\<lambda>x. si_key x = k) xs = find (\<lambda>x. si_key x = k) ys)"

lemma find_append: "find P (xs @ ys) = (case find P xs of None \<Rightarrow> find P ys | Some x \<Rightarrow> Some x)"
  by (induction xs) simp_all

lemma thinned_add:
  assumes "thinned xs ys"
  shows "thinned (add_spec True tid idx e xs) (add_spec False tid idx e ys)"
proof -
  have "find (\<lambda>x. si_key x = k) (ys @ [item_of idx e]) = find (\<lambda>x. si_key x = k) ys"
    if skip: "xs \<noteq> []" "si_key (last xs) = ekey e" for k
  proof -
    have "find (\<lambda>x. si_key x = ekey e) xs \<noteq> None"
      using last_in_set [OF skip(1)] skip(2) by (auto simp: find_None_iff)
    then show ?thesis
      using assms by (auto simp: thinned_def find_append split: option.split)
  qed
  with assms show ?thesis
    by (auto simp: thinned_def add_spec_def find_append intro: list_emb_append_mono subseq_rev_drop_many split: option.split)
qed

lemma thinned_fold:
  "thinned xs ys \<Longrightarrow> thinned (fold (add_spec True tid idx) es xs) (fold (add_spec False tid idx) es ys)"
proof (induction es arbitrary: xs ys)
  case (Cons e es)
  show ?case using Cons.IH [OF thinned_add [OF Cons.prems]] by simp
qed simp

lemma thinned_tables:
  "thinned xs ys \<Longrightarrow> thinned (tables_spec True tid idx ess xs) (tables_spec False tid idx ess ys)"
proof (induction ess arbitrary: idx xs ys)
  case (Cons es ess)
  show ?case using Cons.IH [OF thinned_fold [OF Cons.prems]] by simp
qed simp

lemma thinned_refl: "thinned xs xs"
  by (simp add: thinned_def)

lemma subseq_set: "subseq xs ys \<Longrightarrow> set xs \<subseteq> set ys"
  by (induction rule: list_emb.induct) auto

lemma subseq_sorted_wrt: "subseq xs ys \<Longrightarrow> sorted_wrt R ys \<Longrightarrow> sorted_wrt R xs"
  by (induction rule: list_emb.induct) (auto dest: subseq_set)

lemma subseq_keeps_distinct: "subseq xs ys \<Longrightarrow> distinct ys \<Longrightarrow> distinct xs"
  by (induction rule: list_emb.induct) (auto dest: subseq_set)

lemma coherent_subseq:
  assumes "subseq xs ys" and "coherent ys"
  shows "coherent xs"
proof -
  let ?f = "\<lambda>x. (si_key x, si_tranc_id x, si_idx x)"
  have "subseq (map ?f xs) (map ?f ys)" using assms(1) by (rule subseq_map)
  then have "distinct (map ?f xs)"
    using assms(2) subseq_keeps_distinct by (auto simp: coherent_def)
  with assms subseq_set [OF assms(1)] show ?thesis
    unfolding coherent_def by blast
qed

lemma find_filter_self: "find P (filter P xs) = find P xs"
  by (induction xs) auto

text \<open>The heap over the collected items delivers the first item of every key, in order, without deletions.\<close>

lemma scan_delivers:
  assumes thin: "thinned xs ys" and coh: "coherent ys" and vis: "\<forall>y \<in> set ys. item_visible tid y"
    and srt: "\<And>k. sorted_wrt item_before (filter (\<lambda>x. si_key x = k) ys)"
  shows "\<exists>it kvs. HeapIterator_new xs tid True False = Inr it \<and>
    (\<forall>n \<ge> length ys. drain HeapIterator_at_end HeapIterator_read HeapIterator_next n it = Inr kvs) \<and>
    sorted_wrt (\<lambda>x y. fst x < fst y) kvs \<and>
    (\<forall>k v. (k, v) \<in> set kvs \<longleftrightarrow> v \<noteq> [] \<and> map_option item_pair (find (\<lambda>x. si_key x = k) ys) = Some (k, v))"
proof -
  have sub: "subseq xs ys" and eq: "\<And>k. find (\<lambda>x. si_key x = k) xs = find (\<lambda>x. si_key x = k) ys"
    using thin by (auto simp: thinned_def)
  have "\<forall>x \<in> set xs. item_visible tid x" using vis subseq_set [OF sub] by blast
  from HeapIterator_new_inv [OF coherent_subseq [OF sub coh] this, of True False] obtain it q where
    it: "HeapIterator_new xs tid True False = Inr it" "heap_inv it" and q: "mset q = mset xs" "sorted_wrt item_before q"
    and rest: "heap_rest it = map item_pair (heap_versions True False q)"
    by blast
  have fq: "find (\<lambda>x. si_key x = k) q = find (\<lambda>x. si_key x = k) ys" for k
  proof -
    have "subseq (filter (\<lambda>x. si_key x = k) xs) (filter (\<lambda>x. si_key x = k) ys)"
      using sub by simp
    then have "filter (\<lambda>x. si_key x = k) q = filter (\<lambda>x. si_key x = k) xs"
      using q srt subseq_sorted_wrt by (intro sorted_item_before_unique) (auto simp: sorted_wrt_filter mset_filter)
    then show ?thesis
      using find_filter_self [of "\<lambda>x. si_key x = k" q] find_filter_self [of "\<lambda>x. si_key x = k" xs] eq by simp
  qed
  let ?live = "filter (\<lambda>x. si_value x \<noteq> []) (heads si_key q)"
  have kvs: "heap_rest it = map item_pair ?live"
    using rest by (simp add: heap_versions_def)
  have "length (heads si_key q) \<le> length q"
    by (induction "si_key :: search_item \<Rightarrow> string" q rule: heads.induct) (auto intro: order_trans [OF _ length_dropWhile_le])
  then have "length (heap_rest it) \<le> length ys"
    unfolding kvs using mset_eq_length [OF q(1)] list_emb_length [OF sub] order_trans [OF length_filter_le]
    by (simp add: order_trans [OF length_filter_le])
  then have "\<forall>n \<ge> length ys. drain HeapIterator_at_end HeapIterator_read HeapIterator_next n it = Inr (heap_rest it)"
    using hp.drain_all [OF it(2)] by simp
  moreover have "sorted_wrt (\<lambda>x y. fst x < fst y) (heap_rest it)"
    unfolding kvs sorted_wrt_map using heads_first(1) [OF q(2)] by (simp add: item_pair_def sorted_wrt_filter)
  moreover have "(k, v) \<in> set (heap_rest it) \<longleftrightarrow> v \<noteq> [] \<and> map_option item_pair (find (\<lambda>x. si_key x = k) ys) = Some (k, v)" for k v
  proof -
    have "(k, v) \<in> set (heap_rest it) \<longleftrightarrow>
        v \<noteq> [] \<and> (\<exists>x. x \<in> set (heads si_key q) \<and> si_key x = k \<and> si_value x = v)"
      unfolding kvs by (auto simp: item_pair_def image_iff)
    also have "\<dots> \<longleftrightarrow> v \<noteq> [] \<and> (\<exists>x. find (\<lambda>y. si_key y = k) q = Some x \<and> si_key x = k \<and> si_value x = v)"
      using heads_first(2) [OF q(2)] by metis
    finally show ?thesis unfolding fq by (auto simp: item_pair_def)
  qed
  ultimately show ?thesis using it(1) by blast
qed

lemma version_of_filter:
  "version_of k tid (concat (map (filter (\<lambda>e. P (ekey e))) ess)) = (if P k then version_of k tid (concat ess) else None)"
proof -
  have "version_of k tid (filter (\<lambda>e. P (ekey e)) es) = (if P k then version_of k tid es else None)" for es
    by (induction es) (auto simp: version_of_def)
  then show ?thesis by (simp add: filter_concat [symmetric])
qed

lemma mt_scan:
  assumes repr: "mt_repr m ess" and coh: "tables_coherent ess"
    and rng: "\<And>t es. sl_repr t es \<Longrightarrow> es \<in> set ess \<Longrightarrow> \<exists>r. rng t = Inr r \<and>
      (case r of None \<Rightarrow> filter (\<lambda>e. P (ekey e)) es = [] | Some (first, stop) \<Rightarrow> iter_range t first stop (filter (\<lambda>e. P (ekey e)) es))"
  shows "\<exists>items it kvs. collect_tables rng once tid 0 (current_table m # frozen_tables m) [] = Inr items \<and>
    HeapIterator_new items tid True False = Inr it \<and> (items = [] \<longrightarrow> kvs = []) \<and>
    (\<forall>n \<ge> length (concat ess). drain HeapIterator_at_end HeapIterator_read HeapIterator_next n it = Inr kvs) \<and>
    sorted_wrt (\<lambda>x y. fst x < fst y) kvs \<and>
    (\<forall>k v. (k, v) \<in> set kvs \<longleftrightarrow> v \<noteq> [] \<and> P k \<and> map_option evalue (version_of k tid (concat ess)) = Some v)"
proof -
  let ?fss = "map (filter (\<lambda>e. P (ekey e))) ess"
  let ?full = "items_from tid 0 ?fss" and ?items = "tables_spec once tid 0 ?fss []"
  have tabs: "list_all2 sl_repr (current_table m # frozen_tables m) ess" using repr by (simp add: mt_repr_def)
  then have strict: "\<forall>es \<in> set ess. strict_versions es"
    unfolding strict_versions_def by (metis sl_repr_sorted(1) list_all2_nthD2 in_set_conv_nth)
  have "list_all2 (\<lambda>t xs. \<exists>r. rng t = Inr r \<and> (case r of None \<Rightarrow> xs = [] | Some (first, stop) \<Rightarrow> iter_range t first stop xs))
      (current_table m # frozen_tables m) ?fss"
    unfolding list_all2_map2 by (rule list.rel_mono_strong [OF tabs]) (rule rng)
  then have coll: "collect_tables rng once tid 0 (current_table m # frozen_tables m) [] = Inr ?items"
    by (rule collect_tables_ok)
  have coh': "tables_coherent ?fss"
    using coh unfolding tables_coherent_def sorted_wrt_map by (rule sorted_wrt_mono_rel [rotated]) auto
  have strict': "\<forall>es \<in> set ?fss. strict_versions es"
    using strict by (auto simp: strict_versions_def sorted_wrt_filter)
  have thin: "thinned ?items ?full"
    using thinned_tables [OF thinned_refl, of tid 0 ?fss "[]"] thinned_refl [of ?full]
    by (cases once) (simp_all add: tables_spec_all)
  have vis: "\<forall>y \<in> set ?full. item_visible tid y"
    using items_from_member by (fastforce simp: item_visible_def visible_def)
  obtain it kvs where it: "HeapIterator_new ?items tid True False = Inr it"
    and dr: "\<forall>n \<ge> length ?full. drain HeapIterator_at_end HeapIterator_read HeapIterator_next n it = Inr kvs"
    and srt: "sorted_wrt (\<lambda>x y. fst x < fst y) kvs"
    and mem: "\<And>k v. (k, v) \<in> set kvs \<longleftrightarrow> v \<noteq> [] \<and> map_option item_pair (find (\<lambda>x. si_key x = k) ?full) = Some (k, v)"
    using scan_delivers [OF thin items_coherent [OF coh' strict'] vis items_key_sorted [OF coh' strict']] by blast
  have key: "ekey e = k" if "version_of k tid (concat ess) = Some e" for k e
    using that by (auto simp: version_of_def find_Some_iff)
  have "(k, v) \<in> set kvs \<longleftrightarrow> v \<noteq> [] \<and> P k \<and> map_option evalue (version_of k tid (concat ess)) = Some v" for k v
    unfolding mem find_items version_of_filter using key by auto
  moreover have "length ?full \<le> length (concat ess)"
  proof -
    have "length (items_from tid idx xss) \<le> length (concat xss)" for idx xss
      by (induction xss arbitrary: idx) (auto intro: add_mono length_filter_le)
    from this [of 0 ?fss] show ?thesis
      by (simp add: filter_concat [symmetric] order_trans [OF _ length_filter_le])
  qed
  moreover have "kvs = []" if "?items = []"
  proof -
    have "find (\<lambda>x. si_key x = k) ?full = None" for k
      using thin that by (auto simp: thinned_def dest: spec [of _ k])
    then have "(k, v) \<notin> set kvs" for k v using mem by simp
    then show ?thesis by (cases kvs) auto
  qed
  ultimately show ?thesis
    using coll it dr srt by (intro exI [of _ ?items] exI [of _ it] exI [of _ kvs]) auto
qed

section \<open>Flushing\<close>

lemma flush_loop_add_adds:
  assumes "\<forall>e \<in> set es. ekey e \<noteq> []"
  shows "flush_loop_add h es ids s = bindE (SSTBuilder_adds h es s) (\<lambda>s. Inr (ids, s))"
  using assms
proof (induction es arbitrary: s)
  case (Cons e es)
  then show ?case by (cases "SSTBuilder_add h (ekey e) (evalue e) (etranc e) s") simp_all
qed simp

lemma fits_table_bytes:
  assumes "fits_table cap es"
  shows "table_bytes es \<noteq> 0"
proof -
  have "sum_list (map entry_bytes_used xs) \<le> length (entries_bytes xs)" for xs
    by (induction xs) (auto simp: entry_bytes_used_def)
  from this [of es] have "sum_list (map entry_bytes_used es) < 2 ^ 64" using assms by (simp add: fits_table_def)
  moreover have "0 < sum_list (map entry_bytes_used es)"
    using assms by (cases es) (simp_all add: fits_table_def entry_bytes_used_def)
  ultimately show ?thesis
    by (simp add: table_bytes_def word_of_nat_eq_0_iff) (metis dvd_imp_le not_le)
qed

lemma take_oldest_repr:
  assumes repr: "mt_repr m ess" and ne: "length ess = 1 \<longrightarrow> table_bytes (last ess) \<noteq> 0"
  shows "\<exists>t m'. take_oldest m = Some (t, m') \<and> sl_repr t (last ess) \<and>
    mt_repr m' (if length ess = 1 then [[]] else butlast ess)"
proof -
  obtain es fss where ess: "ess = es # fss" "sl_repr (current_table m) es" "list_all2 sl_repr (frozen_tables m) fss"
    using repr by (auto simp: mt_repr_Cons)
  have step: "mt_repr (n\<lparr>frozen_tables := butlast (frozen_tables n), frozen_bytes := frozen_bytes n - SkipList_get_size (last (frozen_tables n))\<rparr>)
      (ds # butlast gss) \<and> sl_repr (last (frozen_tables n)) (last gss)"
    if rn: "mt_repr n (ds # gss)" and gn: "gss \<noteq> []" for n ds gss
  proof -
    have n: "list_all2 sl_repr (frozen_tables n) gss" "frozen_tables n \<noteq> []" using rn gn by (auto simp: mt_repr_Cons)
    obtain ts t where ts: "frozen_tables n = ts @ [t]" using n(2) by (cases "frozen_tables n" rule: rev_cases) auto
    obtain gs g where gs: "gss = gs @ [g]" using gn by (cases gss rule: rev_cases) auto
    from n(1) rn show ?thesis
      unfolding ts gs by (auto simp: mt_repr_Cons ts gs list_all2_append2 list_all2_Cons1 list_all2_Cons2 list_all2_append dest: list_all2_lengthD)
  qed
  show ?thesis
  proof (cases "fss = []")
    case True
    then have "frozen_tables m = []" "SkipList_get_size (current_table m) \<noteq> 0"
      using ess ne table_bytes_repr by auto
    then show ?thesis
      using step [OF frozen_repr [OF repr, unfolded ess(1)]] True ess(1)
      by (auto simp: take_oldest_def Let_def MemTable_frozen_cur_table_unlocked_def)
  next
    case False
    then have "frozen_tables m \<noteq> []" using ess(3) by auto
    then show ?thesis
      using step [of m es fss] repr False ess(1) by (auto simp: take_oldest_def Let_def)
  qed
qed

lemma flush_last_repr:
  assumes repr: "mt_repr m ess" and fits: "fits_table cap (last ess)"
    and bl: "has_bloom \<Longrightarrow> fine_bloom (BloomFilter_new dval expected rate)"
  shows "\<exists>s fs' m' ps. MemTable_flush_last h (SSTBuilder_new dval expected rate cap has_bloom) path sid ids True (fs, m) =
      Inr (Some s, ids, fs', m') \<and> sst_repr h fs' s ps \<and> all_entries ps = last ess \<and>
    mt_repr m' (if length ess = 1 then [[]] else butlast ess)"
proof -
  let ?sb = "SSTBuilder_new dval expected rate cap has_bloom" and ?es = "last ess"
  obtain t m' where t: "take_oldest m = Some (t, m')" "sl_repr t ?es" "mt_repr m' (if length ess = 1 then [[]] else butlast ess)"
    using take_oldest_repr [OF repr] fits_table_bytes [OF fits] by blast
  have "\<forall>e \<in> set ?es. ekey e \<noteq> []" using fits by (simp add: fits_table_def buildable_def)
  note adds = flush_loop_add_adds [OF this, of h ids "(fs, ?sb)"]
  obtain fs' s ps where "build_table h ?sb sid path ?es fs = Inr (fs', s)" "sst_repr h fs' s ps" "all_entries ps = ?es"
    using build_table_ok [OF fits, of has_bloom dval expected rate h sid path fs] bl by blast
  moreover from this(1) obtain x where "SSTBuilder_adds h ?es (fs, ?sb) = Inr x" "SSTBuilder_build h sid path True x = Inr (fs', s)"
    by (auto simp: build_table_def bindE_eq_Inr)
  ultimately show ?thesis
    using t flush_repr [OF t(2)] adds
    by (intro exI [of _ s] exI [of _ fs'] exI [of _ m'] exI [of _ ps]) (cases x, simp add: MemTable_flush_last_def)
qed

section \<open>Properties\<close>

text \<open>
  C11: from a new memtable, every sequence of puts, removals, batches and freezes succeeds, whatever the random
  levels of the skip lists; the tables then hold exactly the lists of versions that the specification
  computes (a write goes to the newest list, and the list becomes frozen when it exceeds the limit), and
  the reported size is the number of bytes of all of them.
\<close>

theorem memtable_writes_refine:
  "\<exists>m. MemTable_run limit ops MemTable_new = Inr m \<and>
    mt_repr m (fold (\<lambda>x. spec_step limit (fst x)) ops [[]]) \<and>
    MemTable_get_total_size m = sum_list (map table_bytes (fold (\<lambda>x. spec_step limit (fst x)) ops [[]]))"
proof -
  obtain m where m: "MemTable_run limit ops MemTable_new = Inr m" "mt_repr m (fold (\<lambda>x. spec_step limit (fst x)) ops [[]])"
    using MemTable_run_repr [OF MemTable_new_repr] by blast
  then obtain es ess where "fold (\<lambda>x. spec_step limit (fst x)) ops [[]] = es # ess" by (auto simp: mt_repr_Cons)
  with m mt_repr_sizes [of m es ess] show ?thesis by auto
qed

text \<open>
  C12: a lookup of a non-empty key, and a batch of lookups, find for each key the first version the transaction may
  see in the tables from the newest to the oldest, deletions included, and nothing when there is none.
\<close>

theorem memtable_get_correct:
  assumes "mt_repr m ess" and "key \<noteq> []" and "\<forall>k \<in> set keys. k \<noteq> []"
  shows "bindE (MemTable_get m key tid) result_of =
      Inr (map_option (\<lambda>e. (evalue e, etranc e)) (version_of key tid (concat ess))) \<and>
    MemTable_get_batch m keys tid =
      Inr (map (\<lambda>k. (k, map_option (\<lambda>e. (evalue e, etranc e)) (version_of k tid (concat ess)))) keys)"
  using memtable_get_repr [OF assms(1,2), of tid] result_of_shown get_batch_repr [OF assms(1,3)] by auto

lemma sample_run:
  "\<exists>m. MemTable_run 20 [(Put ''a'' ''1'' 3, \<lambda>_. (\<lambda>_. True, 5)), (Put ''b'' ''2222222222222222'' 4, \<lambda>_. (\<lambda>_. False, 0)),
       (Remove ''a'' 5, \<lambda>_. (\<lambda>_. True, 1))] MemTable_new = Inr m \<and>
     mt_repr m [[entry_of ''a'' [] 5], [entry_of ''a'' ''1'' 3, entry_of ''b'' ''2222222222222222'' 4]]"
  using MemTable_run_repr [OF MemTable_new_repr, of 20 "[(Put ''a'' ''1'' 3, \<lambda>_. (\<lambda>_. True, 5)),
      (Put ''b'' ''2222222222222222'' 4, \<lambda>_. (\<lambda>_. False, 0)), (Remove ''a'' 5, \<lambda>_. (\<lambda>_. True, 1))]"]
  by (auto simp: spec_step_def table_bytes_def entry_bytes_used_def node_less_def version_def)

theorem memtable_get_correct_witness:
  "\<exists>m. MemTable_run 20 [(Put ''a'' ''1'' 3, \<lambda>_. (\<lambda>_. True, 5)), (Put ''b'' ''2222222222222222'' 4, \<lambda>_. (\<lambda>_. False, 0)),
       (Remove ''a'' 5, \<lambda>_. (\<lambda>_. True, 1))] MemTable_new = Inr m \<and>
     bindE (MemTable_get m ''a'' 4) result_of = Inr (Some (''1'', 3)) \<and>
     MemTable_get_batch m [''a'', ''c''] 0 = Inr [(''a'', Some ([], 5)), (''c'', None)]"
proof -
  obtain m where m: "MemTable_run 20 [(Put ''a'' ''1'' 3, \<lambda>_. (\<lambda>_. True, 5)),
      (Put ''b'' ''2222222222222222'' 4, \<lambda>_. (\<lambda>_. False, 0)), (Remove ''a'' 5, \<lambda>_. (\<lambda>_. True, 1))] MemTable_new = Inr m"
    "mt_repr m [[entry_of ''a'' [] 5], [entry_of ''a'' ''1'' 3, entry_of ''b'' ''2222222222222222'' 4]]"
    using sample_run by blast
  from memtable_get_correct [OF m(2), of "''a''" "[''a'', ''c'']" 4] memtable_get_correct [OF m(2), of "''a''" "[''a'', ''c'']" 0]
  show ?thesis
    using m(1) by (intro exI [of _ m]) (simp add: version_of_def visible_def)
qed

text \<open>
  C13: when older tables have no newer versions of a key, a scan over the whole memtable and a scan over a prefix
  deliver, in ascending order of the keys, every key (with that prefix) whose newest visible version is
  not a deletion, each once and with the value of that version.
\<close>

theorem memtable_scan_correct:
  assumes "mt_repr m ess" and "tables_coherent ess"
  shows "(\<exists>it kvs. MemTable_begin m tid = Inr it \<and>
    drain HeapIterator_at_end HeapIterator_read HeapIterator_next (length (concat ess)) it = Inr kvs \<and>
    sorted_wrt (\<lambda>x y. fst x < fst y) kvs \<and>
    (\<forall>k v. (k, v) \<in> set kvs \<longleftrightarrow> v \<noteq> [] \<and> map_option evalue (version_of k tid (concat ess)) = Some v)) \<and>
    (\<exists>it kvs. MemTable_iters_preffix m p tid = Inr it \<and>
    drain HeapIterator_at_end HeapIterator_read HeapIterator_next (length (concat ess)) it = Inr kvs \<and>
    sorted_wrt (\<lambda>x y. fst x < fst y) kvs \<and>
    (\<forall>k v. (k, v) \<in> set kvs \<longleftrightarrow>
      v \<noteq> [] \<and> take (length p) k = p \<and> map_option evalue (version_of k tid (concat ess)) = Some v))"
proof (rule conjI)
  have whole: "\<exists>r. whole_range t = Inr r \<and> (case r of None \<Rightarrow> filter (\<lambda>e. True) es = []
      | Some (first, stop) \<Rightarrow> iter_range t first stop (filter (\<lambda>e. True) es))" if "sl_repr t es" for t es
    using begin_range [OF that] by (auto simp: whole_range_def)
  show "\<exists>it kvs. MemTable_begin m tid = Inr it \<and>
    drain HeapIterator_at_end HeapIterator_read HeapIterator_next (length (concat ess)) it = Inr kvs \<and>
    sorted_wrt (\<lambda>x y. fst x < fst y) kvs \<and>
    (\<forall>k v. (k, v) \<in> set kvs \<longleftrightarrow> v \<noteq> [] \<and> map_option evalue (version_of k tid (concat ess)) = Some v)"
    using mt_scan [OF assms, of whole_range "\<lambda>k. True" False tid] whole by (fastforce simp: MemTable_begin_def)
  have pre: "\<exists>r. prefix_range p t = Inr r \<and> (case r of None \<Rightarrow> filter (\<lambda>e. take (length p) (ekey e) = p) es = []
      | Some (first, stop) \<Rightarrow> iter_range t first stop (filter (\<lambda>e. take (length p) (ekey e) = p) es))" if "sl_repr t es" for t es
    using prefix_range_repr [OF that, of p] by (auto simp: prefix_range_def)
  show "\<exists>it kvs. MemTable_iters_preffix m p tid = Inr it \<and>
    drain HeapIterator_at_end HeapIterator_read HeapIterator_next (length (concat ess)) it = Inr kvs \<and>
    sorted_wrt (\<lambda>x y. fst x < fst y) kvs \<and>
    (\<forall>k v. (k, v) \<in> set kvs \<longleftrightarrow>
      v \<noteq> [] \<and> take (length p) k = p \<and> map_option evalue (version_of k tid (concat ess)) = Some v)"
    using mt_scan [OF assms, of "prefix_range p" "\<lambda>k. take (length p) k = p" True tid] pre
    by (fastforce simp: MemTable_iters_preffix_def)
qed

theorem memtable_scan_correct_witness:
  "\<exists>m it kvs. MemTable_run 20 [(Put ''a'' ''1'' 3, \<lambda>_. (\<lambda>_. True, 5)), (Put ''b'' ''2222222222222222'' 4, \<lambda>_. (\<lambda>_. False, 0)),
       (Remove ''a'' 5, \<lambda>_. (\<lambda>_. True, 1))] MemTable_new = Inr m \<and> MemTable_begin m 0 = Inr it \<and>
     drain HeapIterator_at_end HeapIterator_read HeapIterator_next 3 it = Inr kvs \<and> fst ` set kvs = {''b''}"
proof -
  let ?ess = "[[entry_of ''a'' [] 5], [entry_of ''a'' ''1'' 3, entry_of ''b'' ''2222222222222222'' 4]]"
  obtain m where m: "MemTable_run 20 [(Put ''a'' ''1'' 3, \<lambda>_. (\<lambda>_. True, 5)),
      (Put ''b'' ''2222222222222222'' 4, \<lambda>_. (\<lambda>_. False, 0)), (Remove ''a'' 5, \<lambda>_. (\<lambda>_. True, 1))] MemTable_new = Inr m"
    "mt_repr m ?ess"
    using sample_run by blast
  have "tables_coherent ?ess" by (simp add: tables_coherent_def)
  from memtable_scan_correct [OF m(2) this, of 0 "[]", THEN conjunct1] obtain it kvs where it: "MemTable_begin m 0 = Inr it"
    "drain HeapIterator_at_end HeapIterator_read HeapIterator_next (length (concat ?ess)) it = Inr kvs"
    "\<forall>k v. (k, v) \<in> set kvs \<longleftrightarrow> v \<noteq> [] \<and> map_option evalue (version_of k 0 (concat ?ess)) = Some v"
    by (elim exE conjE) (intro that; assumption)
  have "fst ` set kvs = {k. \<exists>v. v \<noteq> [] \<and> map_option evalue (version_of k 0 (concat ?ess)) = Some v}"
  proof -
    have "k \<in> fst ` set kvs \<longleftrightarrow> (\<exists>v. (k, v) \<in> set kvs)" for k by force
    then show ?thesis using it(3) [rule_format] by (intro set_eqI) (simp only: mem_Collect_eq)
  qed
  also have "\<dots> = {''b''}" by (auto simp: version_of_def visible_def split: if_splits)
  finally show ?thesis
    using m(1) it(1,2) by (intro exI [of _ m] exI [of _ it] exI [of _ kvs]) (simp add: numeral_3_eq_3)
qed

text \<open>
  C14: flushing a memtable whose oldest non-empty list of versions fits a table writes a file that represents exactly
  this list, takes the list out of the memtable and keeps the others; the current list is flushed when
  no list is frozen.
\<close>

theorem memtable_flush_correct:
  assumes "mt_repr m ess" and "fits_table cap (last ess)"
    and "has_bloom \<longrightarrow> fine_bloom (BloomFilter_new dval expected rate)"
  shows "\<exists>s fs' m' ps. MemTable_flush_last h (SSTBuilder_new dval expected rate cap has_bloom) path sid ids True (fs, m) =
      Inr (Some s, ids, fs', m') \<and> sst_repr h fs' s ps \<and> all_entries ps = last ess \<and>
    mt_repr m' (if length ess = 1 then [[]] else butlast ess)"
  using flush_last_repr [OF assms(1,2)] assms(3) by blast

theorem memtable_flush_correct_witness:
  "\<exists>m s fs' m' ps. MemTable_run 20 [(Put ''a'' ''1'' 3, \<lambda>_. (\<lambda>_. True, 5)), (Put ''b'' ''2222222222222222'' 4, \<lambda>_. (\<lambda>_. False, 0)),
       (Remove ''a'' 5, \<lambda>_. (\<lambda>_. True, 1))] MemTable_new = Inr m \<and>
     MemTable_flush_last (\<lambda>_. 7) (SSTBuilder_new (\<lambda>_. 0) 0 0 40 False) ''t'' 1 [] True (empty_fs, m) =
       Inr (Some s, [], fs', m') \<and> sst_repr (\<lambda>_. 7) fs' s ps \<and>
     all_entries ps = [entry_of ''a'' ''1'' 3, entry_of ''b'' ''2222222222222222'' 4] \<and> mt_repr m' [[entry_of ''a'' [] 5]]"
proof -
  let ?old = "[entry_of ''a'' ''1'' 3, entry_of ''b'' ''2222222222222222'' 4]"
  obtain m where m: "MemTable_run 20 [(Put ''a'' ''1'' 3, \<lambda>_. (\<lambda>_. True, 5)),
      (Put ''b'' ''2222222222222222'' 4, \<lambda>_. (\<lambda>_. False, 0)), (Remove ''a'' 5, \<lambda>_. (\<lambda>_. True, 1))] MemTable_new = Inr m"
    "mt_repr m [[entry_of ''a'' [] 5], ?old]"
    using sample_run by blast
  have "fits_table 40 (last [[entry_of ''a'' [] 5], ?old])"
    by (auto simp: fits_table_def buildable_def sorted_entries_def entry_le_def small_entry_def)
  from memtable_flush_correct [OF m(2) this, of False "\<lambda>_. 0" 0 0 "\<lambda>_. 7" "''t''" 1 "[]" empty_fs] m(1) show ?thesis
    by auto
qed

end
