(* ===== verification/Config.thy ===== *)
theory Config
  imports FileIO SST
begin

text \<open>
  The configuration, \<^verbatim>\<open>TomlConfig\<close> of \<^verbatim>\<open>src/config/config.cpp\<close>. The TOML reader and writer are a
  third-party library: a document is the map from the path of a key to its value, reading is the
  argument \<open>parse\<close> (\<open>None\<close> when it throws) and writing the argument \<open>fmt\<close>. A \<^verbatim>\<open>double\<close> is its bit pattern.
  The members are assigned one after the other, so a missing key leaves the members before it loaded.
\<close>

section \<open>State\<close>

record toml_config =
  config_file_path :: string
  lsm_tol_mem_size_limit :: int
  lsm_per_mem_size_limit :: int
  lsm_block_size :: int
  lsm_sst_level_ratio :: int
  lsm_block_cache_capacity :: int
  lsm_block_cache_k :: int
  redis_expire_header :: string
  redis_hash_value_preffix :: string
  redis_field_prefix :: string
  redis_field_separator :: char
  redis_list_separator :: char
  redis_sorted_set_prefix :: string
  redis_sorted_set_score_len :: int
  redis_set_prefix :: string
  bloom_filter_expected_size :: int
  bloom_filter_expected_error_rate :: u64
  wisckey_value_threshold :: u64

text \<open>The bit pattern of the \<^verbatim>\<open>double\<close> nearest to 0.1.\<close>

definition double_0_1 :: u64 where
  "double_0_1 = 0x3FB999999999999A"

definition setDefaultValues :: "toml_config \<Rightarrow> toml_config" where
  "setDefaultValues c = c\<lparr>
     lsm_tol_mem_size_limit := 67108864, lsm_per_mem_size_limit := 4194304,
     lsm_block_size := 32768, lsm_sst_level_ratio := 4,
     lsm_block_cache_capacity := 1024, lsm_block_cache_k := 8,
     redis_expire_header := ''REDIS_EXPIRE_'', redis_hash_value_preffix := ''REDIS_HASH_VALUE_'',
     redis_field_prefix := ''REDIS_FIELD_'', redis_field_separator := CHR ''$'',
     redis_list_separator := CHR ''#'', redis_sorted_set_prefix := ''REDIS_SORTED_SET_'',
     redis_sorted_set_score_len := 32, redis_set_prefix := ''REDIS_SET_'',
     bloom_filter_expected_size := 65536, bloom_filter_expected_error_rate := double_0_1,
     wisckey_value_threshold := 0\<rparr>"

definition modify_lsm_tol_mem_size_limit :: "int \<Rightarrow> toml_config \<Rightarrow> toml_config" where
  "modify_lsm_tol_mem_size_limit one c = c\<lparr>lsm_tol_mem_size_limit := one\<rparr>"

definition modify_lsm_block_size :: "int \<Rightarrow> toml_config \<Rightarrow> toml_config" where
  "modify_lsm_block_size one c = c\<lparr>lsm_block_size := one\<rparr>"

definition modify_lsm_per_mem_size_limit :: "int \<Rightarrow> toml_config \<Rightarrow> toml_config" where
  "modify_lsm_per_mem_size_limit one c = c\<lparr>lsm_per_mem_size_limit := one\<rparr>"

section \<open>Loading\<close>

datatype toml_value = Toml_integer int | Toml_string string | Toml_floating u64

type_synonym toml_doc = "string list \<Rightarrow> toml_value option"

text \<open>\<^verbatim>\<open>at(key).as_integer()\<close> and its like: \<open>None\<close> when the key is missing or has another type, which throws.\<close>

definition toml_integer :: "toml_doc \<Rightarrow> string list \<Rightarrow> int option" where
  "toml_integer d p = (case d p of Some (Toml_integer i) \<Rightarrow> Some i | _ \<Rightarrow> None)"

definition toml_string :: "toml_doc \<Rightarrow> string list \<Rightarrow> string option" where
  "toml_string d p = (case d p of Some (Toml_string s) \<Rightarrow> Some s | _ \<Rightarrow> None)"

definition toml_floating :: "toml_doc \<Rightarrow> string list \<Rightarrow> u64 option" where
  "toml_floating d p = (case d p of Some (Toml_floating f) \<Rightarrow> Some f | _ \<Rightarrow> None)"

text \<open>\<^verbatim>\<open>as_string()[0]\<close>: the terminating zero when the string is empty.\<close>

definition first_char :: "string \<Rightarrow> char" where
  "first_char s = (case s of [] \<Rightarrow> CHR 0x00 | c # _ \<Rightarrow> c)"

definition load_core :: "(toml_doc \<Rightarrow> toml_config \<Rightarrow> toml_config option) list" where
  "load_core =
    [\<lambda>d c. map_option (\<lambda>i. c\<lparr>lsm_tol_mem_size_limit := i\<rparr>) (toml_integer d [''lsm'', ''core'', ''LSM_TOL_MEM_SIZE_LIMIT'']),
     \<lambda>d c. map_option (\<lambda>i. c\<lparr>lsm_per_mem_size_limit := i\<rparr>) (toml_integer d [''lsm'', ''core'', ''LSM_PER_MEM_SIZE_LIMIT'']),
     \<lambda>d c. map_option (\<lambda>i. c\<lparr>lsm_block_size := as_int i\<rparr>) (toml_integer d [''lsm'', ''core'', ''LSM_BLOCK_SIZE'']),
     \<lambda>d c. map_option (\<lambda>i. c\<lparr>lsm_sst_level_ratio := as_int i\<rparr>) (toml_integer d [''lsm'', ''core'', ''LSM_SST_LEVEL_RATIO'']),
     \<lambda>d c. map_option (\<lambda>i. c\<lparr>lsm_block_cache_capacity := as_int i\<rparr>) (toml_integer d [''lsm'', ''cache'', ''LSM_BLOCK_CACHE_CAPACITY'']),
     \<lambda>d c. map_option (\<lambda>i. c\<lparr>lsm_block_cache_k := as_int i\<rparr>) (toml_integer d [''lsm'', ''cache'', ''LSM_BLOCK_CACHE_K''])]"

definition load_redis :: "(toml_doc \<Rightarrow> toml_config \<Rightarrow> toml_config option) list" where
  "load_redis =
    [\<lambda>d c. map_option (\<lambda>s. c\<lparr>redis_expire_header := s\<rparr>) (toml_string d [''redis'', ''REDIS_EXPIRE_HEADER'']),
     \<lambda>d c. map_option (\<lambda>s. c\<lparr>redis_hash_value_preffix := s\<rparr>) (toml_string d [''redis'', ''REDIS_HASH_VALUE_PREFFIX'']),
     \<lambda>d c. map_option (\<lambda>s. c\<lparr>redis_field_prefix := s\<rparr>) (toml_string d [''redis'', ''REDIS_FIELD_PREFIX'']),
     \<lambda>d c. map_option (\<lambda>s. c\<lparr>redis_field_separator := first_char s\<rparr>) (toml_string d [''redis'', ''REDIS_FIELD_SEPARATOR'']),
     \<lambda>d c. map_option (\<lambda>s. c\<lparr>redis_list_separator := first_char s\<rparr>) (toml_string d [''redis'', ''REDIS_LIST_SEPARATOR'']),
     \<lambda>d c. map_option (\<lambda>s. c\<lparr>redis_sorted_set_prefix := s\<rparr>) (toml_string d [''redis'', ''REDIS_SORTED_SET_PREFIX'']),
     \<lambda>d c. map_option (\<lambda>i. c\<lparr>redis_sorted_set_score_len := as_int i\<rparr>) (toml_integer d [''redis'', ''REDIS_SORTED_SET_SCORE_LEN'']),
     \<lambda>d c. map_option (\<lambda>s. c\<lparr>redis_set_prefix := s\<rparr>) (toml_string d [''redis'', ''REDIS_SET_PREFIX''])]"

definition load_bloom :: "(toml_doc \<Rightarrow> toml_config \<Rightarrow> toml_config option) list" where
  "load_bloom =
    [\<lambda>d c. map_option (\<lambda>i. c\<lparr>bloom_filter_expected_size := as_int i\<rparr>) (toml_integer d [''bloom_filter'', ''BLOOM_FILTER_EXPECTED_SIZE'']),
     \<lambda>d c. map_option (\<lambda>f. c\<lparr>bloom_filter_expected_error_rate := f\<rparr>) (toml_floating d [''bloom_filter'', ''BLOOM_FILTER_EXPECTED_ERROR_RATE''])]"

definition load_wisckey :: "toml_doc \<Rightarrow> toml_config \<Rightarrow> toml_config" where
  "load_wisckey d c =
     (case toml_integer d [''lsm'', ''wisckey'', ''WISCKEY_VALUE_THRESHOLD''] of
        None \<Rightarrow> c
      | Some i \<Rightarrow> c\<lparr>wisckey_value_threshold := of_int i\<rparr>)"

text \<open>Running the assignments: the first one that throws ends the \<^verbatim>\<open>try\<close> block.\<close>

primrec load_fields ::
  "(toml_doc \<Rightarrow> toml_config \<Rightarrow> toml_config option) list \<Rightarrow> toml_doc \<Rightarrow> toml_config \<Rightarrow> bool \<times> toml_config" where
  "load_fields [] d c = (True, c)"
| "load_fields (f # fs) d c = (case f d c of None \<Rightarrow> (False, c) | Some c' \<Rightarrow> load_fields fs d c')"

definition loadFromFile ::
  "(bytes \<Rightarrow> toml_doc option) \<Rightarrow> filesys \<Rightarrow> string \<Rightarrow> toml_config \<Rightarrow> bool \<times> toml_config" where
  "loadFromFile parse fs filePath c =
     (let c = setDefaultValues c in
      case Option.bind (dir fs filePath) (\<lambda>i. parse (inodes fs i)) of
        None \<Rightarrow> (False, c)
      | Some d \<Rightarrow>
          (case load_fields (load_core @ load_redis @ load_bloom) d c of
             (False, c) \<Rightarrow> (False, c)
           | (True, c) \<Rightarrow> (True, load_wisckey d c)))"

definition blank_config :: "string \<Rightarrow> toml_config" where
  "blank_config path =
     \<lparr>config_file_path = path, lsm_tol_mem_size_limit = 0, lsm_per_mem_size_limit = 0, lsm_block_size = 0,
      lsm_sst_level_ratio = 0, lsm_block_cache_capacity = 0, lsm_block_cache_k = 0, redis_expire_header = [],
      redis_hash_value_preffix = [], redis_field_prefix = [], redis_field_separator = CHR 0x00,
      redis_list_separator = CHR 0x00, redis_sorted_set_prefix = [], redis_sorted_set_score_len = 0,
      redis_set_prefix = [], bloom_filter_expected_size = 0, bloom_filter_expected_error_rate = 0,
      wisckey_value_threshold = 0\<rparr>"

text \<open>\<^verbatim>\<open>loadFromFile\<close> catches what it throws, so the handler of the constructor is never entered.\<close>

definition TomlConfig_new :: "(bytes \<Rightarrow> toml_doc option) \<Rightarrow> filesys \<Rightarrow> string \<Rightarrow> toml_config" where
  "TomlConfig_new parse fs filePath =
     (let c = blank_config filePath in
      if filePath = [] then setDefaultValues c else snd (loadFromFile parse fs filePath c))"

definition TomlConfig_getInstance :: "(bytes \<Rightarrow> toml_doc option) \<Rightarrow> filesys \<Rightarrow> string \<Rightarrow> toml_config" where
  "TomlConfig_getInstance parse fs config_path =
     TomlConfig_new parse fs (if dir fs config_path \<noteq> None then config_path else ''config.toml'')"

section \<open>Saving\<close>

definition saved_doc :: "toml_config \<Rightarrow> toml_doc" where
  "saved_doc c = map_of
    [([''lsm'', ''core'', ''LSM_TOL_MEM_SIZE_LIMIT''], Toml_integer (lsm_tol_mem_size_limit c)),
     ([''lsm'', ''core'', ''LSM_PER_MEM_SIZE_LIMIT''], Toml_integer (lsm_per_mem_size_limit c)),
     ([''lsm'', ''core'', ''LSM_BLOCK_SIZE''], Toml_integer (lsm_block_size c)),
     ([''lsm'', ''core'', ''LSM_SST_LEVEL_RATIO''], Toml_integer (lsm_sst_level_ratio c)),
     ([''lsm'', ''cache'', ''LSM_BLOCK_CACHE_CAPACITY''], Toml_integer (lsm_block_cache_capacity c)),
     ([''lsm'', ''cache'', ''LSM_BLOCK_CACHE_K''], Toml_integer (lsm_block_cache_k c)),
     ([''redis'', ''REDIS_EXPIRE_HEADER''], Toml_string (redis_expire_header c)),
     ([''redis'', ''REDIS_HASH_VALUE_PREFFIX''], Toml_string (redis_hash_value_preffix c)),
     ([''redis'', ''REDIS_FIELD_PREFIX''], Toml_string (redis_field_prefix c)),
     ([''redis'', ''REDIS_FIELD_SEPARATOR''], Toml_string [redis_field_separator c]),
     ([''redis'', ''REDIS_LIST_SEPARATOR''], Toml_string [redis_list_separator c]),
     ([''redis'', ''REDIS_SORTED_SET_PREFIX''], Toml_string (redis_sorted_set_prefix c)),
     ([''redis'', ''REDIS_SORTED_SET_SCORE_LEN''], Toml_integer (redis_sorted_set_score_len c)),
     ([''redis'', ''REDIS_SET_PREFIX''], Toml_string (redis_set_prefix c)),
     ([''bloom_filter'', ''BLOOM_FILTER_EXPECTED_SIZE''], Toml_integer (bloom_filter_expected_size c)),
     ([''bloom_filter'', ''BLOOM_FILTER_EXPECTED_ERROR_RATE''], Toml_floating (bloom_filter_expected_error_rate c))]"

definition saveToFile :: "(toml_doc \<Rightarrow> bytes) \<Rightarrow> filesys \<Rightarrow> string \<Rightarrow> toml_config \<Rightarrow> bool \<times> filesys" where
  "saveToFile fmt fs filePath c =
     (case StdFile_open fs filePath True of
        (fs, f, ok) \<Rightarrow>
          if ok then (True, fst (StdFile_write fs f 0 (fmt (saved_doc c)))) else (False, fs))"

definition TomlConfig_destroy :: "(toml_doc \<Rightarrow> bytes) \<Rightarrow> filesys \<Rightarrow> toml_config \<Rightarrow> filesys" where
  "TomlConfig_destroy fmt fs c =
     (if config_file_path c \<noteq> [] \<and> dir fs (config_file_path c) = None
      then snd (saveToFile fmt fs (config_file_path c) c) else fs)"

section \<open>What is loaded is what was saved\<close>

definition int_range :: "int \<Rightarrow> bool" where
  "int_range i \<longleftrightarrow> - (2 ^ 31) \<le> i \<and> i < 2 ^ 31"

definition config_ok :: "toml_config \<Rightarrow> bool" where
  "config_ok c \<longleftrightarrow>
     int_range (lsm_block_size c) \<and> int_range (lsm_sst_level_ratio c) \<and> int_range (lsm_block_cache_capacity c) \<and>
     int_range (lsm_block_cache_k c) \<and> int_range (redis_sorted_set_score_len c) \<and> int_range (bloom_filter_expected_size c)"

lemma as_int_range: "int_range i \<Longrightarrow> as_int i = i"
  by (simp add: int_range_def as_int_def signed_of_int signed_take_bit_int_eq_self)

lemma load_saved_fields:
  assumes "config_ok c"
  shows "load_fields (load_core @ load_redis @ load_bloom) (saved_doc c) c0 =
    (True, c\<lparr>config_file_path := config_file_path c0, wisckey_value_threshold := wisckey_value_threshold c0\<rparr>)"
  using assms
  by (cases c, cases c0)
    (simp add: load_core_def load_redis_def load_bloom_def saved_doc_def toml_integer_def toml_string_def toml_floating_def
      config_ok_def as_int_range first_char_def)

lemma save_content:
  "\<exists>fs'. saveToFile fmt fs p c = (True, fs') \<and> Option.bind (dir fs' p) (\<lambda>i. parse (inodes fs' i)) = parse (fmt (saved_doc c))"
proof (cases "dir fs p")
  case None
  then show ?thesis
    by (simp add: saveToFile_def StdFile_open_def StdFile_write_def pwrite_bytes_def Let_def)
next
  case (Some i)
  then show ?thesis
    by (simp add: saveToFile_def StdFile_open_def StdFile_write_def pwrite_bytes_def Let_def)
qed

text \<open>
  C40: Saving a configuration succeeds, and loading the file again gives the saved configuration, whatever
  the members were before; only the WiscKey threshold comes back as 0, because \<^verbatim>\<open>saveToFile\<close> does not write
  it. \<open>parse\<close> and \<open>fmt\<close> stand for the TOML library, which reads back the document it wrote.
\<close>

theorem config_roundtrip:
  assumes "config_ok c" and "parse (fmt (saved_doc c)) = Some (saved_doc c)"
  shows "\<exists>fs'. saveToFile fmt fs p c = (True, fs') \<and>
    loadFromFile parse fs' p c0 = (True, c\<lparr>config_file_path := config_file_path c0, wisckey_value_threshold := 0\<rparr>)"
proof -
  obtain fs' where fs': "saveToFile fmt fs p c = (True, fs')"
    "Option.bind (dir fs' p) (\<lambda>i. parse (inodes fs' i)) = Some (saved_doc c)"
    using save_content [of fmt fs p c parse] assms(2) by auto
  have "load_wisckey (saved_doc c) c1 = c1" for c1
    by (simp add: load_wisckey_def toml_integer_def saved_doc_def)
  then have "loadFromFile parse fs' p c0 = (True, c\<lparr>config_file_path := config_file_path c0, wisckey_value_threshold := 0\<rparr>)"
    using fs'(2) load_saved_fields [OF assms(1), of "setDefaultValues c0"]
    by (simp add: loadFromFile_def Let_def setDefaultValues_def)
  with fs'(1) show ?thesis by blast
qed

theorem config_roundtrip_witness:
  "\<exists>fs'. saveToFile (\<lambda>_. [1]) empty_fs ''config.toml'' (setDefaultValues (blank_config [])) = (True, fs') \<and>
    lsm_block_size (snd (loadFromFile (\<lambda>_. Some (saved_doc (setDefaultValues (blank_config [])))) fs' ''config.toml''
      (blank_config ''config.toml''))) = 32768"
  using config_roundtrip [of "setDefaultValues (blank_config [])" "\<lambda>_. Some (saved_doc (setDefaultValues (blank_config [])))"
      "\<lambda>_. [1]" empty_fs "''config.toml''" "blank_config ''config.toml''"]
  by (auto simp: setDefaultValues_def config_ok_def int_range_def)

text \<open>
  A file that lacks a key is reported as not loaded, but the members read before that key keep the
  values of the file: the configuration does not remain at its default values.
\<close>

theorem config_partial_load:
  assumes "dir fs p = Some i" and "parse (inodes fs i) = Some d"
    and "toml_integer d [''lsm'', ''core'', ''LSM_TOL_MEM_SIZE_LIMIT''] = Some n"
    and "toml_integer d [''lsm'', ''core'', ''LSM_PER_MEM_SIZE_LIMIT''] = None"
  shows "loadFromFile parse fs p c = (False, (setDefaultValues c)\<lparr>lsm_tol_mem_size_limit := n\<rparr>)"
  using assms by (simp add: loadFromFile_def Let_def load_core_def)

theorem config_partial_load_witness:
  "loadFromFile (\<lambda>_. Some [[''lsm'', ''core'', ''LSM_TOL_MEM_SIZE_LIMIT''] \<mapsto> Toml_integer 7])
     (empty_fs\<lparr>dir := [''c'' \<mapsto> 0]\<rparr>) ''c'' (blank_config ''c'') =
   (False, (setDefaultValues (blank_config ''c''))\<lparr>lsm_tol_mem_size_limit := 7\<rparr>)"
  by (rule config_partial_load [where i = 0 and d = "[[''lsm'', ''core'', ''LSM_TOL_MEM_SIZE_LIMIT''] \<mapsto> Toml_integer 7]"])
    (simp_all add: toml_integer_def)

end
