(* ===== verification/Containers.thy ===== *)
theory Containers
  imports TextUtil
begin

text \<open>
  The ordered containers of the standard library that the engine and the transaction manager keep:
  \<^verbatim>\<open>std::set\<close> as the strictly ascending list of its elements and \<^verbatim>\<open>std::map\<close> as an association list with
  strictly ascending keys, in the order in which the code iterates over them.
\<close>

fun oset_insert :: "'a :: linorder \<Rightarrow> 'a list \<Rightarrow> 'a list" where
  "oset_insert x [] = [x]"
| "oset_insert x (y # ys) = (if x < y then x # y # ys else if x = y then y # ys else y # oset_insert x ys)"

fun omap_put :: "'k :: linorder \<Rightarrow> 'v \<Rightarrow> ('k \<times> 'v) list \<Rightarrow> ('k \<times> 'v) list" where
  "omap_put k v [] = [(k, v)]"
| "omap_put k v ((k', v') # m) =
     (if k < k' then (k, v) # (k', v') # m else if k = k' then (k, v) # m else (k', v') # omap_put k v m)"

text \<open>\<^verbatim>\<open>m[k]\<close> reads the value of a key and inserts the default value when the key is missing.\<close>

definition omap_at :: "'k :: linorder \<Rightarrow> 'v \<Rightarrow> ('k \<times> 'v) list \<Rightarrow> 'v" where
  "omap_at k d m = (case map_of m k of None \<Rightarrow> d | Some v \<Rightarrow> v)"

definition omap_touch :: "'k :: linorder \<Rightarrow> 'v \<Rightarrow> ('k \<times> 'v) list \<Rightarrow> ('k \<times> 'v) list" where
  "omap_touch k d m = (if map_of m k = None then omap_put k d m else m)"

lemma set_oset_insert [simp]: "set (oset_insert x xs) = insert x (set xs)"
  by (induction x xs rule: oset_insert.induct) auto

lemma oset_insert_sorted [intro]: "sorted_wrt (<) xs \<Longrightarrow> sorted_wrt (<) (oset_insert x xs)"
  by (induction x xs rule: oset_insert.induct) (auto simp: not_less_iff_gr_or_eq intro: less_trans)

lemma oset_insert_last: "sorted_wrt (<) xs \<Longrightarrow> \<forall>y \<in> set xs. y < x \<Longrightarrow> oset_insert x xs = xs @ [x]"
  by (induction x xs rule: oset_insert.induct) auto

lemma oset_inserts: "sorted_wrt (<) (xs @ ys) \<Longrightarrow> foldl (\<lambda>s x. oset_insert x s) xs ys = xs @ ys"
proof (induction ys arbitrary: xs)
  case (Cons y ys)
  have "oset_insert y xs = xs @ [y]"
    using Cons.prems by (intro oset_insert_last) (auto simp: sorted_wrt_append)
  with Cons.IH [of "xs @ [y]"] Cons.prems show ?case by simp
qed simp

lemma omap_put_keys [simp]: "fst ` set (omap_put k v m) = insert k (fst ` set m)"
  by (induction k v m rule: omap_put.induct) auto

lemma omap_put_sorted [intro]: "omap_sorted m \<Longrightarrow> omap_sorted (omap_put k v m)"
proof (induction k v m rule: omap_put.induct)
  case (2 k v k' v' m)
  then show ?case
    using omap_put_keys [of k v m] by (auto simp: omap_sorted_def not_less_iff_gr_or_eq intro: less_trans)
qed (simp add: omap_sorted_def)

lemma map_of_omap_put [simp]: "omap_sorted m \<Longrightarrow> map_of (omap_put k v m) = (map_of m)(k \<mapsto> v)"
proof (induction k v m rule: omap_put.induct)
  case (2 k v k' v' m)
  then show ?case
    by (auto simp: omap_sorted_def fun_upd_twist)
qed simp

end
