(* ===== verification/TranManager.thy ===== *)
theory TranManager
  imports Containers WAL SSTBuild
begin

text \<open>
  The state of the transactions: \<^verbatim>\<open>TranContext\<close> and \<^verbatim>\<open>TranManager\<close> of \<^verbatim>\<open>include/lsm/transaction.h\<close> and the
  operations of \<^verbatim>\<open>TranManager\<close> (\<^verbatim>\<open>src/lsm/transation.cpp\<close>), with \<^verbatim>\<open>compressSet\<close> of
  \<^verbatim>\<open>include/utils/set_operation.h\<close>. The contexts the manager hands out live in \<^verbatim>\<open>activeTrans_\<close>, which never
  loses one: a context is named by its transaction id. The names that a \<^verbatim>\<open>directory_iterator\<close> delivers
  are arguments; the mutex makes every operation one step.

  Which transactions have reached the tables on disk is kept as the set \<^verbatim>\<open>flushedTrancIds_\<close>, whose
  smallest element stands for itself and every smaller id (\<open>flushed_ids\<close>). The theorems: compressing the
  set keeps what it stands for and makes its smallest element the largest possible checkpoint, recording
  a flushed transaction adds exactly it and the aborted transactions before it, and the file of the ids reads back what was written.
\<close>

section \<open>State\<close>

datatype isolation_level = READ_UNOP_COMMITTED | READ_OP_COMMITTED | REPEATABLE_READ | SERIALIZABLE

datatype transaction_state = OP_COMMITTED | ABORTED

type_synonym query_result = "(string \<times> u64) option"

text \<open>The maps of a context are \<^verbatim>\<open>std::unordered_map\<close>s: association lists with distinct keys.\<close>

record tran_context =
  tc_tranc_id :: u64
  tc_operations :: "wal_record list"
  tc_temp_map :: "(string \<times> string) list"
  tc_isCommited :: bool
  tc_isAborted :: bool
  tc_isolation_level :: isolation_level
  tc_read_map :: "(string \<times> query_result) list"
  tc_rollback_map :: "(string \<times> query_result) list"

record tran_manager =
  tm_wal :: "wal option"
  tm_data_dir :: string
  tm_nextTransactionId :: u64
  tm_activeTrans :: "(u64 \<times> tran_context) list"
  tm_readyToFlushTrancIds :: "(u64 \<times> transaction_state) list"
  tm_flushedTrancIds :: "u64 list"
  tm_tranc_id_file :: std_file

definition isolation_level_to_string :: "isolation_level \<Rightarrow> string" where
  "isolation_level_to_string level =
     (case level of
        READ_UNOP_COMMITTED \<Rightarrow> ''READ_UNOP_COMMITTED''
      | READ_OP_COMMITTED \<Rightarrow> ''READ_OP_COMMITTED''
      | REPEATABLE_READ \<Rightarrow> ''REPEATABLE_READ''
      | SERIALIZABLE \<Rightarrow> ''SERIALIZABLE'')"

definition TranContext_new :: "u64 \<Rightarrow> isolation_level \<Rightarrow> tran_context" where
  "TranContext_new tranc_id level =
     \<lparr>tc_tranc_id = tranc_id, tc_operations = [createRecord tranc_id], tc_temp_map = [], tc_isCommited = False,
      tc_isAborted = False, tc_isolation_level = level, tc_read_map = [], tc_rollback_map = []\<rparr>"

section \<open>The sets of transaction ids\<close>

fun compress_run :: "u64 \<Rightarrow> u64 list \<Rightarrow> u64 list" where
  "compress_run l [] = [l]"
| "compress_run l (x # xs) = (if x = l + 1 then compress_run x xs else foldl (\<lambda>r y. oset_insert y r) [l] (x # xs))"

definition compressSet :: "u64 list \<Rightarrow> u64 list" where
  "compressSet s = (case s of [] \<Rightarrow> [] | x # xs \<Rightarrow> compress_run x xs)"

definition TranManager_add_ready_to_flush_tranc_id :: "u64 \<Rightarrow> transaction_state \<Rightarrow> tran_manager \<Rightarrow> tran_manager" where
  "TranManager_add_ready_to_flush_tranc_id tranc_id st tm =
     tm\<lparr>tm_readyToFlushTrancIds := omap_put tranc_id st (tm_readyToFlushTrancIds tm)\<rparr>"

text \<open>The loop over the ids that are ready: the ids it inserts and removes.\<close>

fun ready_ids :: "u64 \<Rightarrow> (u64 \<times> transaction_state) list \<Rightarrow> u64 list" where
  "ready_ids tranc_id [] = []"
| "ready_ids tranc_id ((readyId, st) # m) =
     (if readyId < tranc_id \<and> st = ABORTED then readyId # ready_ids tranc_id m
      else if readyId = tranc_id then [readyId]
      else ready_ids tranc_id m)"

definition TranManager_add_flushed_tranc_id :: "u64 \<Rightarrow> tran_manager \<Rightarrow> tran_manager" where
  "TranManager_add_flushed_tranc_id tranc_id tm =
     (let ids = ready_ids tranc_id (tm_readyToFlushTrancIds tm) in
      tm\<lparr>tm_readyToFlushTrancIds := filter (\<lambda>p. fst p \<notin> set ids) (tm_readyToFlushTrancIds tm),
         tm_flushedTrancIds := compressSet (foldl (\<lambda>s x. oset_insert x s) (tm_flushedTrancIds tm) ids)\<rparr>)"

definition TranManager_getNextTransactionId :: "tran_manager \<Rightarrow> u64 \<times> tran_manager" where
  "TranManager_getNextTransactionId tm =
     (tm_nextTransactionId tm, tm\<lparr>tm_nextTransactionId := tm_nextTransactionId tm + 1\<rparr>)"

definition TranManager_get_flushed_tranc_ids :: "tran_manager \<Rightarrow> u64 list" where
  "TranManager_get_flushed_tranc_ids tm = tm_flushedTrancIds tm"

definition TranManager_get_max_flushed_tranc_id :: "tran_manager \<Rightarrow> u64 result" where
  "TranManager_get_max_flushed_tranc_id tm =
     (if tm_flushedTrancIds tm = [] then Inl Undefined_behaviour else Inr (last (tm_flushedTrancIds tm)))"

definition TranManager_get_checkpoint_tranc_id :: "tran_manager \<Rightarrow> u64 result" where
  "TranManager_get_checkpoint_tranc_id tm =
     (if tm_flushedTrancIds tm = [] then Inl Undefined_behaviour else Inr (hd (tm_flushedTrancIds tm)))"

definition TranManager_new_tranc :: "isolation_level \<Rightarrow> tran_manager \<Rightarrow> u64 \<times> tran_manager" where
  "TranManager_new_tranc level tm =
     (let (tranc_id, tm) = TranManager_getNextTransactionId tm in
      (tranc_id, tm\<lparr>tm_activeTrans := omap_put tranc_id (TranContext_new tranc_id level) (tm_activeTrans tm)\<rparr>))"

section \<open>The file of the ids\<close>

definition TranManager_get_tranc_id_file_path :: "tran_manager \<Rightarrow> string \<times> tran_manager" where
  "TranManager_get_tranc_id_file_path tm =
     (let tm = (if tm_data_dir tm = [] then tm\<lparr>tm_data_dir := ''./''\<rparr> else tm) in
      (tm_data_dir tm @ ''/tranc_id'', tm))"

primrec write_ids :: "u64 list \<Rightarrow> nat \<Rightarrow> bytes \<Rightarrow> bytes result" where
  "write_ids [] off buf = Inr buf"
| "write_ids (x # xs) off buf = bindE (memwrite buf off (u64_bytes x)) (write_ids xs (off + 8))"

text \<open>
  The size of the buffer is computed as an \<^verbatim>\<open>int\<close>; a negative one, converted to \<^verbatim>\<open>size_t\<close>, is more than a
  vector can hold, which is the exception \<^verbatim>\<open>std::length_error\<close>.
\<close>

definition TranManager_write_tranc_id_file :: "filesys \<Rightarrow> tran_manager \<Rightarrow> filesys result" where
  "TranManager_write_tranc_id_file fs tm =
     (let ids = tm_flushedTrancIds tm; buffer_size = as_int (8 * (int (length ids) + 2)) in
      if buffer_size < 0 then Inl (Invalid_argument ''cannot create std::vector larger than max_size()'')
      else
        let buf = replicate (nat buffer_size) 0 in
        bindE (memwrite buf 0 (u64_bytes (tm_nextTransactionId tm))) (\<lambda>buf.
        bindE (memwrite buf 8 (u64_bytes (of_nat (length ids)))) (\<lambda>buf.
        bindE (write_ids ids 16 buf) (\<lambda>buf.
          Inr (fst (FileObj_write fs (tm_tranc_id_file tm) 0 buf))))))"

text \<open>The counter and the offset of the loop are \<^verbatim>\<open>int\<close>s, which must not overflow.\<close>

primrec read_ids :: "filesys \<Rightarrow> std_file \<Rightarrow> nat \<Rightarrow> nat \<Rightarrow> u64 list \<Rightarrow> u64 list result" where
  "read_ids fs f 0 off ids = Inr ids"
| "read_ids fs f (Suc n) off ids =
     bindE (FileObj_read_uint64 fs f off) (\<lambda>flushed_id.
       if 2 ^ 31 \<le> off + 8 then Inl Undefined_behaviour
       else read_ids fs f n (off + 8) (oset_insert flushed_id ids))"

definition TranManager_read_tranc_id_file :: "filesys \<Rightarrow> tran_manager \<Rightarrow> tran_manager result" where
  "TranManager_read_tranc_id_file fs tm =
     bindE (FileObj_read_uint64 fs (tm_tranc_id_file tm) 0) (\<lambda>nxt.
     bindE (FileObj_read_uint64 fs (tm_tranc_id_file tm) 8) (\<lambda>sz.
     bindE (read_ids fs (tm_tranc_id_file tm) (unat sz) 16 (tm_flushedTrancIds tm)) (\<lambda>ids.
       Inr (tm\<lparr>tm_nextTransactionId := nxt, tm_flushedTrancIds := ids\<rparr>))))"

definition TranManager_new :: "filesys \<Rightarrow> string \<Rightarrow> (filesys \<times> tran_manager) result" where
  "TranManager_new fs data_dir =
     (let tm = \<lparr>tm_wal = None, tm_data_dir = data_dir, tm_nextTransactionId = 1, tm_activeTrans = [],
                tm_readyToFlushTrancIds = [], tm_flushedTrancIds = [], tm_tranc_id_file = \<lparr>fd = None, file_path = []\<rparr>\<rparr>;
          (path, tm) = TranManager_get_tranc_id_file_path tm in
      if dir fs path = None then
        bindE (FileObj_open fs path True) (\<lambda>(fs, f).
          Inr (fs, tm\<lparr>tm_tranc_id_file := f, tm_flushedTrancIds := oset_insert 0 (tm_flushedTrancIds tm)\<rparr>))
      else
        bindE (FileObj_open fs path False) (\<lambda>(fs, f).
        bindE (TranManager_read_tranc_id_file fs (tm\<lparr>tm_tranc_id_file := f\<rparr>)) (\<lambda>tm. Inr (fs, tm))))"

definition TranManager_destroy :: "filesys \<Rightarrow> tran_manager \<Rightarrow> filesys result" where
  "TranManager_destroy fs tm = TranManager_write_tranc_id_file fs tm"

section \<open>The log\<close>

text \<open>\<^verbatim>\<open>std::filesystem::remove\<close>.\<close>

definition fs_remove :: "string \<Rightarrow> filesys \<Rightarrow> filesys" where
  "fs_remove p fs = fs\<lparr>dir := (dir fs)(p := None)\<rparr>"

definition TranManager_init_new_wal :: "filesys \<Rightarrow> string list \<Rightarrow> tran_manager \<Rightarrow> (filesys \<times> tran_manager) result" where
  "TranManager_init_new_wal fs entries tm =
     (let fs = foldl (\<lambda>fs p. if take 4 (filename_of p) = ''wal.'' then fs_remove p fs else fs) fs entries in
      bindE (TranManager_get_max_flushed_tranc_id tm) (\<lambda>ckpt.
      bindE (WAL_new fs (tm_data_dir tm) 128 ckpt 4096) (\<lambda>(fs, w).
        Inr (fs, tm\<lparr>tm_wal := Some w, tm_flushedTrancIds := oset_insert (tm_nextTransactionId tm - 1) []\<rparr>))))"

definition TranManager_check_recover ::
  "filesys \<Rightarrow> bool \<Rightarrow> string list \<Rightarrow> tran_manager \<Rightarrow> (u64 \<times> wal_record list) list result" where
  "TranManager_check_recover fs dir_exists entries tm =
     (if tm_flushedTrancIds tm = [] then Inl Undefined_behaviour
      else WAL_recover fs dir_exists entries (hd (tm_flushedTrancIds tm)))"

text \<open>\<^verbatim>\<open>false\<close> stands for an exception of the log, after which the caller throws as well.\<close>

definition TranManager_write_to_wal ::
  "filesys \<Rightarrow> wal_record list \<Rightarrow> tran_manager \<Rightarrow> (bool \<times> filesys \<times> tran_manager) result" where
  "TranManager_write_to_wal fs records tm =
     (case tm_wal tm of
        None \<Rightarrow> Inl Undefined_behaviour
      | Some w \<Rightarrow>
          (case WAL_log fs w records True of
             Inr (fs, w) \<Rightarrow> Inr (True, fs, tm\<lparr>tm_wal := Some w\<rparr>)
           | Inl Undefined_behaviour \<Rightarrow> Inl Undefined_behaviour
           | Inl No_return \<Rightarrow> Inl No_return
           | Inl _ \<Rightarrow> Inr (False, fs, tm)))"

section \<open>What a set of flushed ids stands for\<close>

definition flushed_ids :: "u64 list \<Rightarrow> u64 set" where
  "flushed_ids ids = (case ids of [] \<Rightarrow> {} | x # xs \<Rightarrow> {y. y \<le> x} \<union> set xs)"

lemma compress_run_tail:
  "sorted_wrt (<) (l # xs) \<Longrightarrow> x \<noteq> l + 1 \<Longrightarrow> xs = x # ys \<Longrightarrow> compress_run l xs = l # xs"
  using oset_inserts [of "[l]" xs] by simp

lemma le_successor: "l < l + 1 \<Longrightarrow> y \<le> l + 1 \<longleftrightarrow> y \<le> l \<or> y = (l + 1 :: u64)"
proof -
  assume "l < l + 1"
  then have "1 + l \<noteq> 0"
    using word_not_simps(1) [of l] by (metis add.commute)
  then have "unat (l + 1) = Suc (unat l)"
    using unatSuc [of l] by (simp add: add.commute)
  then show ?thesis
    by (auto simp: word_le_nat_alt word_unat_eq_iff)
qed

lemma compress_run_sorted:
  assumes "sorted_wrt (<) (l # xs)"
  shows "sorted_wrt (<) (compress_run l xs) \<and> set (compress_run l xs) \<subseteq> set (l # xs) \<and> compress_run l xs \<noteq> [] \<and>
    flushed_ids (compress_run l xs) = {y. y \<le> l} \<union> set xs \<and> last (compress_run l xs) = last (l # xs)"
  using assms
proof (induction l xs rule: compress_run.induct)
  case (2 l x xs)
  show ?case
  proof (cases "x = l + 1")
    case True
    then have "{y. y \<le> x} = insert x {y. y \<le> l}"
      using le_successor [of l] 2(2) by auto
    with 2(1) [OF True] 2(2) True show ?thesis by auto
  next
    case False
    then have "compress_run l (x # xs) = l # x # xs"
      using compress_run_tail [OF 2(2)] by simp
    with 2(2) show ?thesis by (simp add: flushed_ids_def)
  qed
qed (simp add: flushed_ids_def)

lemma compressSet_ok:
  assumes "sorted_wrt (<) s" and "s \<noteq> []"
  shows "sorted_wrt (<) (compressSet s)" "compressSet s \<noteq> []" "flushed_ids (compressSet s) = flushed_ids s"
    "last (compressSet s) = last s"
  using assms compress_run_sorted [of "hd s" "tl s"]
  by (cases s; simp add: compressSet_def flushed_ids_def)+

text \<open>
  A set of flushed ids is compressed when the id after the smallest one is not in it, so its smallest
  element, the checkpoint, is as large as it can be.
\<close>

definition compressed :: "u64 list \<Rightarrow> bool" where
  "compressed ids \<longleftrightarrow> ids \<noteq> [] \<and> hd ids + 1 \<notin> set ids"

lemma compress_run_compressed: "sorted_wrt (<) (l # xs) \<Longrightarrow> compressed (compress_run l xs)"
proof (induction l xs rule: compress_run.induct)
  case (2 l x xs)
  show ?case
  proof (cases "x = l + 1")
    case True
    with 2 show ?thesis by simp
  next
    case False
    have above: "l < x" "\<forall>y \<in> set xs. x < y"
      using 2(2) by simp_all
    have "\<not> x < l + 1"
      using above(1) le_successor [of l x] False by (cases "l < l + 1") (auto dest: less_trans)
    then have "l + 1 \<notin> set xs"
      using above(2) by blast
    moreover have "l \<noteq> l + 1" by simp
    ultimately have "compressed (l # x # xs)"
      using False by (simp add: compressed_def)
    then show ?thesis
      using compress_run_tail [OF 2(2) False refl] by simp
  qed
qed (simp add: compressed_def)

lemma compressSet_compressed: "sorted_wrt (<) s \<Longrightarrow> s \<noteq> [] \<Longrightarrow> compressed (compressSet s)"
  using compress_run_compressed [of "hd s" "tl s"] by (cases s) (simp_all add: compressSet_def)

text \<open>The smallest element of a compressed set is the largest id up to which every id is flushed.\<close>

lemma compressed_checkpoint:
  assumes "compressed ids"
  shows "(\<forall>y. y \<le> c \<longrightarrow> y \<in> flushed_ids ids) \<longleftrightarrow> c \<le> hd ids"
proof -
  let ?h = "hd ids"
  have ids: "ids \<noteq> []" "?h + 1 \<notin> set ids"
    using assms by (simp_all add: compressed_def)
  have all: "flushed_ids ids = {y. y \<le> ?h} \<union> set ids"
    using ids(1) by (cases ids) (auto simp: flushed_ids_def)
  have beyond_h: "\<not> ?h + 1 \<le> ?h" "?h + 1 \<le> c" if "?h < c"
    using that by unat_arith+
  show ?thesis
  proof
    assume upto: "\<forall>y. y \<le> c \<longrightarrow> y \<in> flushed_ids ids"
    show "c \<le> ?h"
    proof (rule ccontr)
      assume "\<not> c \<le> ?h"
      then have h: "?h < c" by (rule not_le_imp_less)
      have "?h + 1 \<in> flushed_ids ids"
        using upto beyond_h(2) [OF h] by blast
      then show False
        unfolding all using ids(2) beyond_h(1) [OF h] by blast
    qed
  next
    assume "c \<le> ?h"
    then show "\<forall>y. y \<le> c \<longrightarrow> y \<in> flushed_ids ids"
      unfolding all by (blast intro: order_trans)
  qed
qed

section \<open>Recording flushed transactions\<close>

definition flush_inv :: "tran_manager \<Rightarrow> bool" where
  "flush_inv tm \<longleftrightarrow>
     sorted_wrt (<) (tm_flushedTrancIds tm) \<and> tm_flushedTrancIds tm \<noteq> [] \<and>
     omap_sorted (tm_readyToFlushTrancIds tm) \<and>
     fst ` set (tm_readyToFlushTrancIds tm) \<inter> flushed_ids (tm_flushedTrancIds tm) = {}"

lemma set_ready_ids:
  assumes "omap_sorted m"
  shows "set (ready_ids t m) = {r. r < t \<and> (r, ABORTED) \<in> set m} \<union> ({t} \<inter> fst ` set m)"
  using assms
proof (induction t m rule: ready_ids.induct)
  case (2 t r st m)
  have later: "\<forall>p \<in> set m. r < fst p" and m: "omap_sorted m"
    using 2(3) by (auto simp: omap_sorted_def)
  show ?case
  proof (cases "r = t")
    case True
    then show ?thesis using later by auto
  next
    case False
    have "t \<in> fst ` set ((r, st) # m) \<longleftrightarrow> t \<in> fst ` set m" using False by auto
    moreover have "set (ready_ids t m) = {r. r < t \<and> (r, ABORTED) \<in> set m} \<union> ({t} \<inter> fst ` set m)"
      using 2(1,2) False m by (cases "r < t \<and> st = ABORTED") auto
    ultimately show ?thesis using False by auto
  qed
qed simp

lemma oset_inserts_set:
  "set (foldl (\<lambda>s x. oset_insert x s) s xs) = set s \<union> set xs"
  "sorted_wrt (<) s \<Longrightarrow> sorted_wrt (<) (foldl (\<lambda>s x. oset_insert x s) s xs)"
  by (induction xs arbitrary: s) auto

lemma hd_oset_insert: "s \<noteq> [] \<Longrightarrow> hd s < x \<Longrightarrow> oset_insert x s \<noteq> [] \<and> hd (oset_insert x s) = hd s"
  by (cases s) auto

lemma flushed_ids_inserts:
  assumes "s \<noteq> []" and "\<forall>x \<in> set xs. hd s < x"
  shows "foldl (\<lambda>s x. oset_insert x s) s xs \<noteq> []"
    and "flushed_ids (foldl (\<lambda>s x. oset_insert x s) s xs) = flushed_ids s \<union> set xs"
proof -
  have hd: "foldl (\<lambda>s x. oset_insert x s) s xs \<noteq> [] \<and> hd (foldl (\<lambda>s x. oset_insert x s) s xs) = hd s"
    using assms
  proof (induction xs arbitrary: s)
    case (Cons x xs)
    then show ?case using hd_oset_insert [of s x] by simp
  qed simp
  have alt: "s \<noteq> [] \<Longrightarrow> flushed_ids s = {y. y \<le> hd s} \<union> set s" for s
    by (cases s) (auto simp: flushed_ids_def)
  from hd show "foldl (\<lambda>s x. oset_insert x s) s xs \<noteq> []" by simp
  with hd alt assms(1) show "flushed_ids (foldl (\<lambda>s x. oset_insert x s) s xs) = flushed_ids s \<union> set xs"
    by (auto simp: oset_inserts_set(1))
qed

lemma omap_sorted_filter: "omap_sorted m \<Longrightarrow> omap_sorted (filter P m)"
proof (induction m)
  case (Cons p m)
  have "fst ` set (filter P m) \<subseteq> fst ` set m" by auto
  with Cons show ?case by (auto simp: omap_sorted_def)
qed (simp add: omap_sorted_def)

text \<open>
  C23: Recording that a transaction reached the disk marks exactly that transaction, if it was ready, and
  the aborted transactions with smaller ids; it takes them from the ready ones, never forgets an id that
  was marked before, and keeps the invariant of the manager's sets. The new set is compressed (the id
  after its smallest element is not in it), whether the old one was or not, so the checkpoint the
  manager then reports is the largest id up to which every id is marked.
\<close>

theorem add_flushed_correct:
  assumes "flush_inv tm"
  shows "flush_inv (TranManager_add_flushed_tranc_id t tm) \<and>
    compressed (tm_flushedTrancIds (TranManager_add_flushed_tranc_id t tm)) \<and>
    (\<exists>ckpt. TranManager_get_checkpoint_tranc_id (TranManager_add_flushed_tranc_id t tm) = Inr ckpt \<and>
      (\<forall>c. (\<forall>y. y \<le> c \<longrightarrow> y \<in> flushed_ids (tm_flushedTrancIds (TranManager_add_flushed_tranc_id t tm))) \<longleftrightarrow> c \<le> ckpt)) \<and>
    (let ids = {r. r < t \<and> (r, ABORTED) \<in> set (tm_readyToFlushTrancIds tm)} \<union> ({t} \<inter> fst ` set (tm_readyToFlushTrancIds tm)) in
     flushed_ids (tm_flushedTrancIds (TranManager_add_flushed_tranc_id t tm)) = flushed_ids (tm_flushedTrancIds tm) \<union> ids \<and>
     set (tm_readyToFlushTrancIds (TranManager_add_flushed_tranc_id t tm)) =
       {p \<in> set (tm_readyToFlushTrancIds tm). fst p \<notin> ids})"
proof -
  let ?s = "tm_flushedTrancIds tm" and ?m = "tm_readyToFlushTrancIds tm"
  let ?ids = "ready_ids t ?m" and ?tm = "TranManager_add_flushed_tranc_id t tm"
  have s: "sorted_wrt (<) ?s" "?s \<noteq> []" and m: "omap_sorted ?m" and disj: "fst ` set ?m \<inter> flushed_ids ?s = {}"
    using assms by (simp_all add: flush_inv_def)
  have sub: "set ?ids \<subseteq> fst ` set ?m" using set_ready_ids [OF m, of t] by force
  have above: "\<forall>x \<in> set ?ids. hd ?s < x"
  proof
    fix x assume "x \<in> set ?ids"
    then have "x \<notin> flushed_ids ?s" using sub disj by blast
    with s(2) show "hd ?s < x" by (cases ?s) (auto simp: flushed_ids_def)
  qed
  let ?s' = "foldl (\<lambda>s x. oset_insert x s) ?s ?ids"
  note ins = flushed_ids_inserts [OF s(2) above]
  note srt = oset_inserts_set(2) [OF s(1), of ?ids]
  note c = compressSet_ok [OF srt ins(1)]
  have fl: "flushed_ids (compressSet ?s') = flushed_ids ?s \<union> set ?ids"
    using c(3) ins(2) by simp
  have inv: "flush_inv ?tm"
    using c(1,2) fl disj omap_sorted_filter [OF m] by (auto simp: flush_inv_def TranManager_add_flushed_tranc_id_def Let_def)
  have compr: "compressed (tm_flushedTrancIds ?tm)"
    using compressSet_compressed [OF srt ins(1)] by (simp add: TranManager_add_flushed_tranc_id_def Let_def)
  then have ckpt: "TranManager_get_checkpoint_tranc_id ?tm = Inr (hd (tm_flushedTrancIds ?tm))"
    by (simp add: TranManager_get_checkpoint_tranc_id_def compressed_def)
  have sets: "flushed_ids (tm_flushedTrancIds ?tm) = flushed_ids ?s \<union> set ?ids \<and>
      set (tm_readyToFlushTrancIds ?tm) = {p \<in> set ?m. fst p \<notin> set ?ids}"
    using fl by (auto simp: TranManager_add_flushed_tranc_id_def Let_def)
  show ?thesis
    unfolding Let_def set_ready_ids [OF m, symmetric]
    using inv compr ckpt compressed_checkpoint [OF compr] sets by blast
qed

definition sample_manager :: "(u64 \<times> transaction_state) list \<Rightarrow> u64 list \<Rightarrow> tran_manager" where
  "sample_manager ready flushed =
     \<lparr>tm_wal = None, tm_data_dir = ''d'', tm_nextTransactionId = 9, tm_activeTrans = [], tm_readyToFlushTrancIds = ready,
      tm_flushedTrancIds = flushed, tm_tranc_id_file = \<lparr>fd = Some 0, file_path = ''d/tranc_id''\<rparr>\<rparr>"

theorem add_flushed_correct_witness:
  "flush_inv (TranManager_add_flushed_tranc_id 4 (sample_manager [(3, ABORTED), (4, OP_COMMITTED), (6, OP_COMMITTED)] [2])) \<and>
   compressed (tm_flushedTrancIds (TranManager_add_flushed_tranc_id 4 (sample_manager [(3, ABORTED), (4, OP_COMMITTED), (6, OP_COMMITTED)] [2]))) \<and>
   tm_flushedTrancIds (TranManager_add_flushed_tranc_id 4 (sample_manager [(3, ABORTED), (4, OP_COMMITTED), (6, OP_COMMITTED)] [2])) = [4]"
proof -
  have "flush_inv (sample_manager [(3, ABORTED), (4, OP_COMMITTED), (6, OP_COMMITTED)] [2])"
    by (simp add: sample_manager_def flush_inv_def omap_sorted_def flushed_ids_def)
  note add_flushed_correct [OF this, of 4]
  moreover have "tm_flushedTrancIds (TranManager_add_flushed_tranc_id 4 (sample_manager [(3, ABORTED), (4, OP_COMMITTED), (6, OP_COMMITTED)] [2])) = [4]"
    by (simp add: sample_manager_def TranManager_add_flushed_tranc_id_def compressSet_def)
  ultimately show ?thesis by blast
qed

section \<open>The file of the ids reads back\<close>

definition ids_bytes :: "u64 list \<Rightarrow> bytes" where
  "ids_bytes ids = concat (map u64_bytes ids)"

lemma length_ids_bytes [simp]: "length (ids_bytes ids) = 8 * length ids"
  by (induction ids) (simp_all add: ids_bytes_def)

lemma write_ids_bytes:
  "write_ids ids (length pre) (pre @ replicate (8 * length ids) 0) = Inr (pre @ ids_bytes ids)"
proof (induction ids arbitrary: pre)
  case (Cons x xs)
  have "memwrite (pre @ replicate (8 + 8 * length xs) 0) (length pre) (u64_bytes x) =
      Inr (pre @ u64_bytes x @ replicate (8 * length xs) 0)"
    by (rule memwrite_here) simp_all
  with Cons.IH [of "pre @ u64_bytes x"] show ?case
    by (simp add: ids_bytes_def add.commute)
qed (simp add: ids_bytes_def)

lemma read_uint64_at:
  assumes "fd f = Some i" and "inodes fs i = pre @ u64_bytes w @ post" and "off = length pre" and "length pre < 2 ^ 63"
  shows "FileObj_read_uint64 fs f off = Inr w"
  using assms read_u64_middle [of 0 "[]" w "[]"]
  by (simp add: FileObj_read_uint64_def beyond_def StdFile_size_def StdFile_read_def)

lemma read_ids_back:
  assumes "fd f = Some i" and "inodes fs i = pre @ ids_bytes ys @ post" and "length pre + 8 * length ys < 2 ^ 31"
    and "sorted_wrt (<) (xs @ ys)"
  shows "read_ids fs f (length ys) (length pre) xs = Inr (xs @ ys)"
  using assms(2-)
proof (induction ys arbitrary: pre xs)
  case (Cons y ys)
  have c: "inodes fs i = pre @ u64_bytes y @ (ids_bytes ys @ post)"
    using Cons.prems(1) by (simp add: ids_bytes_def)
  have rd: "FileObj_read_uint64 fs f (length pre) = Inr y"
    using read_uint64_at [OF assms(1) c] Cons.prems(2) by simp
  have "oset_insert y xs = xs @ [y]"
    using Cons.prems(3) by (intro oset_insert_last) (auto simp: sorted_wrt_append)
  with rd Cons.IH [of "pre @ u64_bytes y" "xs @ [y]"] c Cons.prems(2,3) show ?case
    by simp
qed simp

lemma write_tranc_id_file_ok:
  assumes "fd (tm_tranc_id_file tm) = Some i" and "length (tm_flushedTrancIds tm) + 2 < 2 ^ 28"
  shows "\<exists>rest. TranManager_write_tranc_id_file fs tm = Inr (fs\<lparr>inodes := (inodes fs)(i :=
    u64_bytes (tm_nextTransactionId tm) @ u64_bytes (of_nat (length (tm_flushedTrancIds tm))) @
    ids_bytes (tm_flushedTrancIds tm) @ rest)\<rparr>)"
proof -
  let ?ids = "tm_flushedTrancIds tm"
  let ?n = "8 * length ?ids"
  let ?h = "u64_bytes (tm_nextTransactionId tm)" and ?sz = "u64_bytes (of_nat (length ?ids))"
  have bs: "as_int (8 * (int (length ?ids) + 2)) = int (8 + (8 + ?n))"
    using assms(2) as_int_small [of "8 + (8 + ?n)"] by (simp add: algebra_simps)
  have 1: "memwrite (replicate (8 + (8 + ?n)) 0) 0 ?h = Inr (?h @ replicate (8 + ?n) 0)"
    using memwrite_here [of 0 "[]" ?h 8 "8 + ?n" 0] by (simp del: replicate_Suc)
  have 2: "memwrite (?h @ replicate (8 + ?n) 0) 8 ?sz = Inr ((?h @ ?sz) @ replicate ?n 0)"
    using memwrite_here [of 8 ?h ?sz 8 ?n 0] by simp
  have 3: "write_ids ?ids 16 ((?h @ ?sz) @ replicate ?n 0) = Inr (?h @ ?sz @ ids_bytes ?ids)"
    using write_ids_bytes [of ?ids "?h @ ?sz"] by simp
  have nat: "nat (int (8 + (8 + ?n))) = 8 + (8 + ?n)" by simp
  have "TranManager_write_tranc_id_file fs tm =
      Inr (fst (FileObj_write fs (tm_tranc_id_file tm) 0 (?h @ ?sz @ ids_bytes ?ids)))"
    unfolding TranManager_write_tranc_id_file_def Let_def bs nat 1 bindE_simps 2 3 by simp
  moreover have "pwrite_bytes (inodes fs i) 0 (?h @ ?sz @ ids_bytes ?ids) =
      ?h @ ?sz @ ids_bytes ?ids @ drop (16 + ?n) (inodes fs i)"
    using length_greater_0_conv [of ?h] by (simp add: pwrite_bytes_def)
  ultimately show ?thesis
    using assms(1) by (simp add: FileObj_write_def StdFile_write_def) blast
qed

text \<open>
  What the transaction manager writes into the file of the ids, over whatever the file held before, it
  reads back when it starts: the next transaction id and the set of flushed ids, as long as the size of
  the buffer fits an \<^verbatim>\<open>int\<close>.
\<close>

theorem tranc_id_file_roundtrip:
  assumes "fd (tm_tranc_id_file tm) = Some i" and "sorted_wrt (<) (tm_flushedTrancIds tm)"
    and "length (tm_flushedTrancIds tm) + 2 < 2 ^ 28"
  shows "\<exists>fs'. TranManager_write_tranc_id_file fs tm = Inr fs' \<and>
    TranManager_read_tranc_id_file fs' (tm\<lparr>tm_nextTransactionId := 1, tm_flushedTrancIds := []\<rparr>) = Inr tm"
proof -
  let ?ids = "tm_flushedTrancIds tm"
  let ?h = "u64_bytes (tm_nextTransactionId tm)" and ?sz = "u64_bytes (of_nat (length ?ids))"
  obtain rest where w: "TranManager_write_tranc_id_file fs tm =
      Inr (fs\<lparr>inodes := (inodes fs)(i := ?h @ ?sz @ ids_bytes ?ids @ rest)\<rparr>)"
    using write_tranc_id_file_ok [OF assms(1,3)] by blast
  let ?fs = "fs\<lparr>inodes := (inodes fs)(i := ?h @ ?sz @ ids_bytes ?ids @ rest)\<rparr>" and ?f = "tm_tranc_id_file tm"
  have 1: "FileObj_read_uint64 ?fs ?f 0 = Inr (tm_nextTransactionId tm)"
    using read_uint64_at [OF assms(1), of ?fs "[]"] by simp
  have 2: "FileObj_read_uint64 ?fs ?f 8 = Inr (of_nat (length ?ids))"
    using read_uint64_at [OF assms(1), of ?fs ?h] by simp
  have 3: "read_ids ?fs ?f (length ?ids) 16 [] = Inr ?ids"
    using read_ids_back [OF assms(1), of ?fs "?h @ ?sz" ?ids rest "[]"] assms(2,3) by simp
  have "unat (of_nat (length ?ids) :: u64) = length ?ids"
    using assms(3) by (simp add: unat_of_nat)
  with 1 2 3 have "TranManager_read_tranc_id_file ?fs (tm\<lparr>tm_nextTransactionId := 1, tm_flushedTrancIds := []\<rparr>) = Inr tm"
    by (simp add: TranManager_read_tranc_id_file_def)
  with w show ?thesis by blast
qed

theorem tranc_id_file_roundtrip_witness:
  "\<exists>fs'. TranManager_write_tranc_id_file empty_fs (sample_manager [] [3, 7]) = Inr fs' \<and>
    TranManager_read_tranc_id_file fs' ((sample_manager [] [3, 7])\<lparr>tm_nextTransactionId := 1, tm_flushedTrancIds := []\<rparr>) =
      Inr (sample_manager [] [3, 7])"
  by (rule tranc_id_file_roundtrip [of _ 0]) (simp_all add: sample_manager_def)

end
