(* ===== verification/MergeIterator.thy ===== *)
theory MergeIterator
  imports SstIterator
begin

text \<open>
  \<^verbatim>\<open>TwoMergeIterator\<close> of \<^verbatim>\<open>src/lsm/two_merge_iterator.cpp\<close>: the merge of two iterators over versions. The
  engine merges heap iterators with heap iterators (range queries) and heap or concatenating iterators
  with concatenating ones (compaction); \<open>base_iter\<close> is the dynamic type behind the \<^verbatim>\<open>BaseIterator\<close> pointers
  and the functions \<open>Base_\<close> are its virtual calls. The loops that skip invisible transactions take the
  number of steps they may make (\<open>n\<close>): an iterator that reports the same transaction id for ever keeps
  them running.
\<close>

section \<open>Virtual calls\<close>

datatype base_iter = Heap_it heap_iter | Concact_it concact_iter

definition Base_is_end :: "base_iter \<Rightarrow> bool result" where
  "Base_is_end b = (case b of Heap_it h \<Rightarrow> Inr (HeapIterator_is_end h) | Concact_it c \<Rightarrow> ConcactIterator_is_end c)"

definition Base_is_valid :: "base_iter \<Rightarrow> bool result" where
  "Base_is_valid b = (case b of Heap_it h \<Rightarrow> Inr (HeapIterator_is_valid h) | Concact_it c \<Rightarrow> ConcactIterator_is_valid c)"

definition Base_deref :: "base_iter \<Rightarrow> store \<Rightarrow> ((string \<times> string) \<times> base_iter) result" where
  "Base_deref b w =
     (case b of
        Heap_it h \<Rightarrow> bindE (HeapIterator_deref h) (\<lambda>kv. Inr (kv, b))
      | Concact_it c \<Rightarrow> bindE (ConcactIterator_deref c w) (\<lambda>(kv, c). Inr (kv, Concact_it c)))"

definition Base_incr :: "(string \<Rightarrow> u64) \<Rightarrow> base_iter \<Rightarrow> store \<Rightarrow> (base_iter \<times> store) result" where
  "Base_incr h b w =
     (case b of
        Heap_it x \<Rightarrow> Inr (Heap_it (HeapIterator_incr x), w)
      | Concact_it c \<Rightarrow> bindE (ConcactIterator_incr h c w) (\<lambda>(c, w). Inr (Concact_it c, w)))"

definition Base_get_tranc_id :: "base_iter \<Rightarrow> u64 result" where
  "Base_get_tranc_id b =
     (case b of Heap_it h \<Rightarrow> Inr (HeapIterator_get_tranc_id h) | Concact_it c \<Rightarrow> ConcactIterator_get_tranc_id c)"

section \<open>The merge\<close>

text \<open>The children are pointers; the default iterator has none. Using a null pointer is undefined.\<close>

record two_merge =
  tm_it_a :: "base_iter option"
  tm_it_b :: "base_iter option"
  tm_choose_a :: bool
  tm_max_tranc_id :: u64
  tm_keep_all_versions :: bool

definition TwoMergeIterator_default :: two_merge where
  "TwoMergeIterator_default =
     \<lparr>tm_it_a = None, tm_it_b = None, tm_choose_a = False, tm_max_tranc_id = 0, tm_keep_all_versions = False\<rparr>"

definition ptr :: "'a option \<Rightarrow> 'a result" where
  "ptr p = (case p of None \<Rightarrow> Inl Undefined_behaviour | Some x \<Rightarrow> Inr x)"

text \<open>\<^verbatim>\<open>choose_it_a\<close> reads both iterators; reading may refresh what they cache.\<close>

definition choose_it_a :: "two_merge \<Rightarrow> store \<Rightarrow> (bool \<times> two_merge) result" where
  "choose_it_a t w =
     bindE (ptr (tm_it_a t)) (\<lambda>a.
     bindE (Base_is_end a) (\<lambda>ea.
       if ea then Inr (False, t)
       else
         bindE (ptr (tm_it_b t)) (\<lambda>b.
         bindE (Base_is_end b) (\<lambda>eb.
           if eb then Inr (True, t)
           else
             bindE (Base_deref a w) (\<lambda>(kv_a, a).
             bindE (Base_deref b w) (\<lambda>(kv_b, b).
               let t = t\<lparr>tm_it_a := Some a, tm_it_b := Some b\<rparr> in
               if fst kv_a \<noteq> fst kv_b then Inr (fst kv_a < fst kv_b, t)
               else if tm_keep_all_versions t then
                 bindE (Base_get_tranc_id a) (\<lambda>ta.
                 bindE (Base_get_tranc_id b) (\<lambda>tb. Inr (tb < ta, t)))
               else Inr (True, t)))))))"

definition skip_it_b :: "(string \<Rightarrow> u64) \<Rightarrow> two_merge \<Rightarrow> store \<Rightarrow> (two_merge \<times> store) result" where
  "skip_it_b h t w =
     (if tm_keep_all_versions t then Inr (t, w)
      else
        bindE (ptr (tm_it_a t)) (\<lambda>a.
        bindE (Base_is_end a) (\<lambda>ea.
          if ea then Inr (t, w)
          else
            bindE (ptr (tm_it_b t)) (\<lambda>b.
            bindE (Base_is_end b) (\<lambda>eb.
              if eb then Inr (t, w)
              else
                bindE (Base_deref a w) (\<lambda>(kv_a, a).
                bindE (Base_deref b w) (\<lambda>(kv_b, b).
                  if fst kv_a = fst kv_b
                  then bindE (Base_incr h b w) (\<lambda>(b, w). Inr (t\<lparr>tm_it_a := Some a, tm_it_b := Some b\<rparr>, w))
                  else Inr (t\<lparr>tm_it_a := Some a, tm_it_b := Some b\<rparr>, w))))))))"

primrec skip_invisible_loop ::
  "(string \<Rightarrow> u64) \<Rightarrow> nat \<Rightarrow> u64 \<Rightarrow> base_iter \<Rightarrow> store \<Rightarrow> (base_iter \<times> store) result" where
  "skip_invisible_loop h 0 mx b w =
     bindE (Base_get_tranc_id b) (\<lambda>t. if mx < t then Inl No_return else Inr (b, w))"
| "skip_invisible_loop h (Suc n) mx b w =
     bindE (Base_get_tranc_id b) (\<lambda>t.
       if mx < t then bindE (Base_incr h b w) (\<lambda>(b, w). skip_invisible_loop h n mx b w) else Inr (b, w))"

definition TwoMergeIterator_skip_by_tranc_id ::
  "(string \<Rightarrow> u64) \<Rightarrow> nat \<Rightarrow> two_merge \<Rightarrow> store \<Rightarrow> (two_merge \<times> store) result" where
  "TwoMergeIterator_skip_by_tranc_id h n t w =
     (if tm_max_tranc_id t = 0 then Inr (t, w)
      else
        bindE (ptr (tm_it_a t)) (\<lambda>a.
        bindE (skip_invisible_loop h n (tm_max_tranc_id t) a w) (\<lambda>(a, w).
        bindE (ptr (tm_it_b t)) (\<lambda>b.
        bindE (skip_invisible_loop h n (tm_max_tranc_id t) b w) (\<lambda>(b, w).
          Inr (t\<lparr>tm_it_a := Some a, tm_it_b := Some b\<rparr>, w))))))"

text \<open>What the constructor and \<^verbatim>\<open>operator++\<close> end with.\<close>

definition settle :: "(string \<Rightarrow> u64) \<Rightarrow> nat \<Rightarrow> two_merge \<Rightarrow> store \<Rightarrow> (two_merge \<times> store) result" where
  "settle h n t w =
     bindE (TwoMergeIterator_skip_by_tranc_id h n t w) (\<lambda>(t, w).
     bindE (skip_it_b h t w) (\<lambda>(t, w).
     bindE (choose_it_a t w) (\<lambda>(c, t). Inr (t\<lparr>tm_choose_a := c\<rparr>, w))))"

definition TwoMergeIterator_new ::
  "(string \<Rightarrow> u64) \<Rightarrow> nat \<Rightarrow> base_iter \<Rightarrow> base_iter \<Rightarrow> u64 \<Rightarrow> bool \<Rightarrow> store \<Rightarrow> (two_merge \<times> store) result" where
  "TwoMergeIterator_new h n a b max_tranc_id keep w =
     settle h n \<lparr>tm_it_a = Some a, tm_it_b = Some b, tm_choose_a = False, tm_max_tranc_id = max_tranc_id,
                 tm_keep_all_versions = keep\<rparr> w"

definition TwoMergeIterator_incr ::
  "(string \<Rightarrow> u64) \<Rightarrow> nat \<Rightarrow> two_merge \<Rightarrow> store \<Rightarrow> (two_merge \<times> store) result" where
  "TwoMergeIterator_incr h n t w =
     (if tm_choose_a t then
        bindE (ptr (tm_it_a t)) (\<lambda>a. bindE (Base_incr h a w) (\<lambda>(a, w). settle h n (t\<lparr>tm_it_a := Some a\<rparr>) w))
      else
        bindE (ptr (tm_it_b t)) (\<lambda>b. bindE (Base_incr h b w) (\<lambda>(b, w). settle h n (t\<lparr>tm_it_b := Some b\<rparr>) w)))"

definition TwoMergeIterator_deref :: "two_merge \<Rightarrow> store \<Rightarrow> ((string \<times> string) \<times> two_merge) result" where
  "TwoMergeIterator_deref t w =
     (if tm_choose_a t then
        bindE (ptr (tm_it_a t)) (\<lambda>a. bindE (Base_deref a w) (\<lambda>(kv, a). Inr (kv, t\<lparr>tm_it_a := Some a\<rparr>)))
      else
        bindE (ptr (tm_it_b t)) (\<lambda>b. bindE (Base_deref b w) (\<lambda>(kv, b). Inr (kv, t\<lparr>tm_it_b := Some b\<rparr>))))"

definition TwoMergeIterator_get_tranc_id :: "two_merge \<Rightarrow> u64 result" where
  "TwoMergeIterator_get_tranc_id t =
     (if tm_keep_all_versions t then
        (case (if tm_choose_a t then tm_it_a t else tm_it_b t) of
           None \<Rightarrow> Inr (tm_max_tranc_id t)
         | Some x \<Rightarrow> bindE (Base_is_end x) (\<lambda>e. if \<not> e then Base_get_tranc_id x else Inr (tm_max_tranc_id t)))
      else Inr (tm_max_tranc_id t))"

definition TwoMergeIterator_is_end :: "two_merge \<Rightarrow> bool result" where
  "TwoMergeIterator_is_end t =
     (case (tm_it_a t, tm_it_b t) of
        (None, None) \<Rightarrow> Inr True
      | (None, Some b) \<Rightarrow> Base_is_end b
      | (Some a, None) \<Rightarrow> Base_is_end a
      | (Some a, Some b) \<Rightarrow> bindE (Base_is_end a) (\<lambda>ea. if ea then Base_is_end b else Inr False))"

definition TwoMergeIterator_is_valid :: "two_merge \<Rightarrow> bool result" where
  "TwoMergeIterator_is_valid t =
     (case (tm_it_a t, tm_it_b t) of
        (None, None) \<Rightarrow> Inr False
      | (None, Some b) \<Rightarrow> Base_is_valid b
      | (Some a, None) \<Rightarrow> Base_is_valid a
      | (Some a, Some b) \<Rightarrow> bindE (Base_is_valid a) (\<lambda>va. if va then Inr True else Base_is_valid b))"

text \<open>
  \<^verbatim>\<open>operator==\<close> compares the pointers of the children; \<open>same_ptrs\<close> tells whether they are the same objects,
  which a copy of the iterator shares with it.
\<close>

definition TwoMergeIterator_eq :: "bool \<Rightarrow> two_merge \<Rightarrow> two_merge \<Rightarrow> bool result" where
  "TwoMergeIterator_eq same_ptrs x y =
     bindE (TwoMergeIterator_is_end x) (\<lambda>ex.
     bindE (TwoMergeIterator_is_end y) (\<lambda>ey.
       if ex \<and> ey then Inr True
       else if ex \<or> ey then Inr False
       else Inr (same_ptrs \<and> tm_choose_a x = tm_choose_a y)))"

text \<open>\<^verbatim>\<open>operator->\<close> refreshes the cached pair with the pair of the chosen child.\<close>

definition TwoMergeIterator_arrow :: "two_merge \<Rightarrow> store \<Rightarrow> ((string \<times> string) \<times> two_merge) result" where
  "TwoMergeIterator_arrow t w = TwoMergeIterator_deref t w"

section \<open>The contract of the iterators over versions\<close>

text \<open>
  \<open>delivers x es\<close>: the iterator \<open>x\<close> still has the versions \<open>es\<close> to deliver. Reading blocks needs the store;
  \<open>ok n w\<close> says that the store is fine and its counters are at most \<open>n\<close>. In normal mode (\<open>mx \<noteq> 0\<close>) the
  iterator reports a transaction id the reader may see; advancing raises the counters by at most \<open>cost\<close>; with all versions kept it reports the id of
  the version it stands at.
\<close>

locale version_iterator =
  fixes ok :: "nat \<Rightarrow> store \<Rightarrow> bool"
    and mx :: u64
    and cost :: nat
    and delivers :: "'i \<Rightarrow> entry list \<Rightarrow> bool"
    and at_end :: "'i \<Rightarrow> bool result"
    and valid :: "'i \<Rightarrow> bool result"
    and deref :: "'i \<Rightarrow> store \<Rightarrow> ((string \<times> string) \<times> 'i) result"
    and tranc :: "'i \<Rightarrow> u64 result"
    and advance :: "'i \<Rightarrow> store \<Rightarrow> ('i \<times> store) result"
  assumes at_end: "delivers x es \<Longrightarrow> ok n w \<Longrightarrow> at_end x = Inr (es = [])"
    and valid: "delivers x es \<Longrightarrow> ok n w \<Longrightarrow> valid x = Inr (es \<noteq> [])"
    and deref: "delivers x (e # es) \<Longrightarrow> ok n w \<Longrightarrow>
      \<exists>x'. deref x w = Inr ((ekey e, evalue e), x') \<and> delivers x' (e # es)"
    and quiet: "delivers x es \<Longrightarrow> ok n w \<Longrightarrow> mx \<noteq> 0 \<Longrightarrow> \<exists>t. tranc x = Inr t \<and> t \<le> mx"
    and advance: "delivers x (e # es) \<Longrightarrow> ok n w \<Longrightarrow> n + cost < 2 ^ 64 \<Longrightarrow>
      \<exists>x' w' n'. advance x w = Inr (x', w') \<and> delivers x' es \<and> ok n' w' \<and> n' \<le> n + cost"

locale all_versions_iterator = version_iterator +
  assumes tranc: "delivers x (e # es) \<Longrightarrow> ok n w \<Longrightarrow> tranc x = Inr (etranc e)"

section \<open>Heap and concatenating iterators\<close>

definition item_version :: "search_item \<Rightarrow> entry" where
  "item_version x = \<lparr>ekey = si_key x, evalue = si_value x, etranc = si_tranc_id x\<rparr>"

definition heap_delivers :: "u64 \<Rightarrow> bool \<Rightarrow> heap_iter \<Rightarrow> entry list \<Rightarrow> bool" where
  "heap_delivers mx keep it es \<longleftrightarrow>
     heap_inv it \<and> es = map item_version (heap_versions (hi_skip_delete it) (hi_keep_all_versions it) (hi_items it)) \<and>
     hi_max_tranc_id it \<le> mx \<and> hi_keep_all_versions it = keep"

text \<open>A table with its blocks and the values its stored values stand for.\<close>

type_synonym table = "sst \<times> sst_part list \<times> (string \<Rightarrow> string)"

definition read_version :: "(string \<Rightarrow> string) \<Rightarrow> entry \<Rightarrow> entry" where
  "read_version rv e = e\<lparr>evalue := rv (evalue e)\<rparr>"

definition table_versions :: "bool \<Rightarrow> u64 \<Rightarrow> table \<Rightarrow> entry list" where
  "table_versions keep tid t = (case t of (s, ps, rv) \<Rightarrow> map (read_version rv) (block_versions keep tid (all_entries ps)))"

definition table_visible :: "u64 \<Rightarrow> table \<Rightarrow> bool" where
  "table_visible tid t = (case t of (s, ps, rv) \<Rightarrow> blocks_visible tid ps)"

definition tables_ok :: "(string \<Rightarrow> u64) \<Rightarrow> (cache_key \<Rightarrow> block option) \<Rightarrow> table set \<Rightarrow> nat \<Rightarrow> store \<Rightarrow> bool" where
  "tables_ok h disk T n w \<longleftrightarrow> store_ok disk n w \<and> (\<forall>(s, ps, rv) \<in> T. sst_env h s ps disk rv w)"

definition concact_delivers :: "table set \<Rightarrow> u64 \<Rightarrow> bool \<Rightarrow> concact_iter \<Rightarrow> entry list \<Rightarrow> bool" where
  "concact_delivers T tid keep c es \<longleftrightarrow>
     cc_max_tranc_id c = tid \<and> cc_keep_all_versions c = keep \<and>
     (m_block_it (cc_cur_iter c) = None \<and> es = [] \<or>
      (\<exists>s ps rv later i.
         insert (s, ps, rv) (set later) \<subseteq> T \<and> drop (cc_cur_idx c) (cc_ssts c) = s # map fst later \<and>
         (\<forall>t \<in> set later. table_visible tid t) \<and>
         sst_iter_at s ps i (cc_cur_iter c) \<and> m_sst (cc_cur_iter c) = Some s \<and>
         m_max_tranc_id (cc_cur_iter c) = tid \<and> m_keep_all_versions (cc_cur_iter c) = keep \<and>
         blocks_visible tid (drop (Suc i) ps) \<and>
         es = map (read_version rv) (sst_iter_entries ps (cc_cur_iter c)) @ concat (map (table_versions keep tid) later)))"

definition base_delivers :: "table set \<Rightarrow> u64 \<Rightarrow> bool \<Rightarrow> base_iter \<Rightarrow> entry list \<Rightarrow> bool" where
  "base_delivers T tid keep b es =
     (case b of Heap_it it \<Rightarrow> heap_delivers tid keep it es | Concact_it c \<Rightarrow> concact_delivers T tid keep c es)"

lemma sst_valid_at:
  assumes "sst_env h s ps disk rv w" and "sst_iter_at s ps i it" and "m_sst it = Some s"
  shows "SstIterator_is_valid it = Inr True" and "\<not> SstIterator_is_end it"
proof -
  obtain bi ptr where bi: "m_block_it it = Some bi" "m_block_idx it = int i" "i < length ps"
    "block_iter_inv (ptr, decoded (ps ! i)) (snd (ps ! i)) bi" "current_index bi < length (snd (ps ! i))"
    using assms(2) by (auto simp: sst_iter_at_def)
  have len: "SST_num_blocks s = length ps"
    using assms(1) by (auto simp: sst_env_def sst_repr_def SST_num_blocks_def)
  have "BlockIterator_is_end bi = Inr False"
    using bi(4,5) by (auto simp: BlockIterator_is_end_def block_iter_inv_def block_repr_length)
  with bi assms(3) len show "SstIterator_is_valid it = Inr True"
    by (simp add: SstIterator_is_valid_def)
  from bi(1) show "\<not> SstIterator_is_end it" by (simp add: SstIterator_is_end_def)
qed

lemma sst_tranc_at:
  assumes "sst_env h s ps disk rv w" and "sst_iter_at s ps i it" and "m_keep_all_versions it"
  shows "SstIterator_get_tranc_id it = Inr (etranc (hd (sst_iter_entries ps it)))"
proof -
  have ok: "parts_ok ps" using assms(1) by (auto simp: sst_env_def sst_repr_def)
  obtain bi ptr where bi: "m_block_it it = Some bi" "block_iter_inv (ptr, decoded (ps ! i)) (snd (ps ! i)) bi"
    "current_index bi < length (snd (ps ! i))"
    using assms(2) by (auto simp: sst_iter_at_def)
  have "BlockIterator_get_cur_tranc_id bi = Inr (etranc (snd (ps ! i) ! current_index bi))"
    using bi(2,3) by (auto simp: BlockIterator_get_cur_tranc_id_def block_iter_inv_def block_reads)
  with bi(1) assms(3) sst_iter_entries_hd(2) [OF ok assms(2) bi(1)] show ?thesis
    by (simp add: SstIterator_get_tranc_id_def)
qed

lemma table_env: "tables_ok h disk T n w \<Longrightarrow> (s, ps, rv) \<in> T \<Longrightarrow> sst_env h s ps disk rv w"
  by (auto simp: tables_ok_def)

lemma tables_ok_step:
  "tables_ok h disk T n w \<Longrightarrow> st_fs w' = st_fs w \<Longrightarrow> store_ok disk n' w' \<Longrightarrow> tables_ok h disk T n' w'"
  by (fastforce simp: tables_ok_def sst_env_def)

lemma concact_delivers_Cons:
  assumes "concact_delivers T tid keep c es" and "es \<noteq> []"
  obtains s ps rv later i where "(s, ps, rv) \<in> T" "set later \<subseteq> T"
    "drop (cc_cur_idx c) (cc_ssts c) = s # map fst later" "\<forall>t \<in> set later. table_visible tid t"
    "sst_iter_at s ps i (cc_cur_iter c)" "m_sst (cc_cur_iter c) = Some s"
    "m_max_tranc_id (cc_cur_iter c) = tid" "m_keep_all_versions (cc_cur_iter c) = keep"
    "blocks_visible tid (drop (Suc i) ps)"
    "es = map (read_version rv) (sst_iter_entries ps (cc_cur_iter c)) @ concat (map (table_versions keep tid) later)"
    "cc_max_tranc_id c = tid" "cc_keep_all_versions c = keep"
  using assms unfolding concact_delivers_def by (elim conjE disjE exE) (auto simp: insert_subset)

lemma concact_at_end:
  assumes "concact_delivers T tid keep c es" and "tables_ok h disk T n w"
  shows "ConcactIterator_is_end c = Inr (es = [])" and "ConcactIterator_is_valid c = Inr (es \<noteq> [])"
proof -
  have "ConcactIterator_is_end c = Inr (es = []) \<and> ConcactIterator_is_valid c = Inr (es \<noteq> [])"
  proof (cases "m_block_it (cc_cur_iter c)")
    case None
    then have "es = []" using assms(1) by (auto simp: concact_delivers_def sst_iter_at_def)
    with None show ?thesis
      by (simp add: ConcactIterator_is_end_def ConcactIterator_is_valid_def SstIterator_is_end_def)
  next
    case (Some bi)
    then obtain s ps rv later i where t: "(s, ps, rv) \<in> T" "sst_iter_at s ps i (cc_cur_iter c)"
      "m_sst (cc_cur_iter c) = Some s"
      "es = map (read_version rv) (sst_iter_entries ps (cc_cur_iter c)) @ concat (map (table_versions keep tid) later)"
      using assms(1) unfolding concact_delivers_def by auto
    note env = table_env [OF assms(2) t(1)]
    have "parts_ok ps" using env by (auto simp: sst_env_def sst_repr_def)
    from sst_iter_entries_hd(1) [OF this t(2) Some] t(4) have "es \<noteq> []" by auto
    with sst_valid_at [OF env t(2,3)] show ?thesis
      by (simp add: ConcactIterator_is_end_def ConcactIterator_is_valid_def)
  qed
  then show "ConcactIterator_is_end c = Inr (es = [])" "ConcactIterator_is_valid c = Inr (es \<noteq> [])" by simp_all
qed

lemma deref_same_options: "SstIterator_deref it w = Inr (kv, it') \<Longrightarrow> same_options it it'"
  by (auto simp: SstIterator_deref_def same_options_def bindE_eq_Inr invalid_iterator_def split: option.splits prod.splits)

lemma concact_deref:
  assumes "concact_delivers T tid keep c (e # es)" and "tables_ok h disk T n w"
  shows "\<exists>c'. ConcactIterator_deref c w = Inr ((ekey e, evalue e), c') \<and> concact_delivers T tid keep c' (e # es)"
proof -
  have "e # es \<noteq> []" by simp
  then obtain s ps rv later i where t: "(s, ps, rv) \<in> T" "set later \<subseteq> T"
    "drop (cc_cur_idx c) (cc_ssts c) = s # map fst later" "\<forall>t \<in> set later. table_visible tid t"
    "sst_iter_at s ps i (cc_cur_iter c)" "m_sst (cc_cur_iter c) = Some s"
    "m_max_tranc_id (cc_cur_iter c) = tid" "m_keep_all_versions (cc_cur_iter c) = keep"
    "blocks_visible tid (drop (Suc i) ps)"
    "e # es = map (read_version rv) (sst_iter_entries ps (cc_cur_iter c)) @ concat (map (table_versions keep tid) later)"
    "cc_max_tranc_id c = tid" "cc_keep_all_versions c = keep"
    by (rule concact_delivers_Cons [OF assms(1)])
  note env = table_env [OF assms(2) t(1)]
  obtain cur where cur: "SstIterator_deref (cc_cur_iter c) w = Inr (read_pair_of rv (hd (sst_iter_entries ps (cc_cur_iter c))), cur)"
    "sst_iter_at s ps i cur" "sst_iter_entries ps cur = sst_iter_entries ps (cc_cur_iter c)" "m_sst cur = Some s"
    using sst_deref_at [OF env t(5,6)] by blast
  have "parts_ok ps" using env by (auto simp: sst_env_def sst_repr_def)
  moreover obtain bi where "m_block_it (cc_cur_iter c) = Some bi" using t(5) by (auto simp: sst_iter_at_def)
  ultimately have ne: "sst_iter_entries ps (cc_cur_iter c) \<noteq> []"
    using sst_iter_entries_hd(1) t(5) by blast
  then have "e = read_version rv (hd (sst_iter_entries ps (cc_cur_iter c)))"
    using t(10) by (cases "sst_iter_entries ps (cc_cur_iter c)") auto
  then have "read_pair_of rv (hd (sst_iter_entries ps (cc_cur_iter c))) = (ekey e, evalue e)"
    by (simp add: read_pair_of_def read_version_def)
  moreover have "concact_delivers T tid keep (c\<lparr>cc_cur_iter := cur\<rparr>) (e # es)"
    using t cur deref_same_options [OF cur(1)] unfolding concact_delivers_def
    by (intro conjI disjI2 exI [of _ s] exI [of _ ps] exI [of _ rv] exI [of _ later] exI [of _ i])
      (simp_all add: same_options_def)
  ultimately show ?thesis using cur(1) by (simp add: ConcactIterator_deref_def)
qed

lemma concact_begin:
  assumes T: "set ts \<subseteq> T" and vis: "\<forall>t \<in> set ts. table_visible tid t" and ok: "tables_ok h disk T n w"
    and room: "n + 2 < 2 ^ 64" and c: "cc_max_tranc_id c = tid" "cc_keep_all_versions c = keep"
    and drp: "drop idx (cc_ssts c) = map fst ts"
  shows "\<exists>cur w' n'. (if idx < length (cc_ssts c) then SST_begin h (cc_ssts c ! idx) tid keep w
      else SstIterator_new h None tid False w) = Inr (cur, w') \<and>
    concact_delivers T tid keep (c\<lparr>cc_cur_idx := idx, cc_cur_iter := cur\<rparr>) (concat (map (table_versions keep tid) ts)) \<and>
    tables_ok h disk T n' w' \<and> n' \<le> n + 2"
proof (cases ts)
  case Nil
  then have "\<not> idx < length (cc_ssts c)" using drp by simp
  with Nil ok c show ?thesis
    by (intro exI [of _ "SstIterator_empty None tid False"] exI [of _ w] exI [of _ n])
      (simp add: SstIterator_new_def concact_delivers_def SstIterator_empty_def)
next
  case (Cons t later)
  obtain s ps rv where t: "t = (s, ps, rv)" by (cases t) auto
  have inT: "(s, ps, rv) \<in> T" using T Cons t by auto
  note env = table_env [OF ok inT]
  have len: "idx < length (cc_ssts c)" "cc_ssts c ! idx = s"
  proof -
    show "idx < length (cc_ssts c)" using drp Cons by (metis drop_all list.map_disc_iff list.simps(3) not_le)
    then show "cc_ssts c ! idx = s" using drp Cons t by (metis Cons_nth_drop_Suc fst_conv list.inject list.simps(9))
  qed
  have ps: "ps \<noteq> []" using env by (auto simp: sst_env_def sst_repr_def)
  have bv: "blocks_visible tid ps" using vis Cons t by (simp add: table_visible_def)
  then have v: "\<exists>e \<in> set (snd (hd ps)). visible tid e" using ps by (auto simp: blocks_visible_def)
  have st: "store_ok disk n w" using ok by (simp add: tables_ok_def)
  obtain cur w' where b: "SST_begin h s tid keep w = Inr (cur, w')" "sst_iter_at s ps 0 cur" "m_sst cur = Some s"
    "sst_iter_entries ps cur = block_versions keep tid (all_entries ps)" "st_fs w' = st_fs w"
    "store_ok disk (n + 2) w'" "m_keep_all_versions cur = keep" "m_max_tranc_id cur = tid"
    using SST_begin_at [OF env st room v] by blast
  have "blocks_visible tid (drop (Suc 0) ps)"
    using bv set_drop_subset [of "Suc 0" ps] by (auto simp: blocks_visible_def)
  then have "concact_delivers T tid keep (c\<lparr>cc_cur_idx := idx, cc_cur_iter := cur\<rparr>) (concat (map (table_versions keep tid) ts))"
    using c b Cons t T vis drp unfolding concact_delivers_def
    by (intro conjI disjI2 exI [of _ s] exI [of _ ps] exI [of _ rv] exI [of _ later] exI [of _ 0])
      (auto simp: table_versions_def)
  with b(1) len tables_ok_step [OF ok b(5,6)] show ?thesis by auto
qed

lemma concact_incr:
  assumes del: "concact_delivers T tid keep c (e # es)" and ok: "tables_ok h disk T n w" and room: "n + 4 < 2 ^ 64"
  shows "\<exists>c' w' n'. ConcactIterator_incr h c w = Inr (c', w') \<and> concact_delivers T tid keep c' es \<and>
    tables_ok h disk T n' w' \<and> n' \<le> n + 4"
proof -
  have "e # es \<noteq> []" by simp
  then obtain s ps rv later i where t: "(s, ps, rv) \<in> T" "set later \<subseteq> T"
    "drop (cc_cur_idx c) (cc_ssts c) = s # map fst later" "\<forall>t \<in> set later. table_visible tid t"
    "sst_iter_at s ps i (cc_cur_iter c)" "m_sst (cc_cur_iter c) = Some s"
    "m_max_tranc_id (cc_cur_iter c) = tid" "m_keep_all_versions (cc_cur_iter c) = keep"
    "blocks_visible tid (drop (Suc i) ps)"
    "e # es = map (read_version rv) (sst_iter_entries ps (cc_cur_iter c)) @ concat (map (table_versions keep tid) later)"
    "cc_max_tranc_id c = tid" "cc_keep_all_versions c = keep"
    by (rule concact_delivers_Cons [OF del])
  note env = table_env [OF ok t(1)]
  have st: "store_ok disk n w" using ok by (simp add: tables_ok_def)
  have room': "Suc i < length ps \<longrightarrow> n + 2 < 2 ^ 64" using room by simp
  obtain cur w' n' where cur: "SstIterator_incr h (cc_cur_iter c) w = Inr (cur, w')"
    "sst_iter_entries ps cur = tl (sst_iter_entries ps (cc_cur_iter c))" "st_fs w' = st_fs w" "store_ok disk n' w'"
    "n' \<le> n + 2" "same_options (cc_cur_iter c) cur"
    "m_block_it cur = None \<or> (\<exists>i'. sst_iter_at s ps i' cur \<and> n' + 2 * i \<le> n + 2 * i' \<and> blocks_visible tid (drop (Suc i') ps))"
    using sst_incr_at [OF env t(5,6) st room' t(9) [folded t(7)], unfolded t(7)] by (elim exE conjE) (intro that; assumption)
  have "parts_ok ps" using env by (auto simp: sst_env_def sst_repr_def)
  moreover obtain bi where "m_block_it (cc_cur_iter c) = Some bi" using t(5) by (auto simp: sst_iter_at_def)
  ultimately have ne: "sst_iter_entries ps (cc_cur_iter c) \<noteq> []"
    using sst_iter_entries_hd(1) t(5) by blast
  then have es: "es = map (read_version rv) (sst_iter_entries ps cur) @ concat (map (table_versions keep tid) later)"
    using t(10) cur(2) by (cases "sst_iter_entries ps (cc_cur_iter c)") auto
  note ok' = tables_ok_step [OF ok cur(3,4)]
  have opts: "m_sst cur = Some s" "m_max_tranc_id cur = tid" "m_keep_all_versions cur = keep"
    using cur(6) t(6,7,8) by (simp_all add: same_options_def)
  show ?thesis
  proof (cases "m_block_it cur = None")
    case False
    then obtain i' where i': "sst_iter_at s ps i' cur" "blocks_visible tid (drop (Suc i') ps)"
      using cur(7) by (elim disjE exE conjE) simp_all
    have "concact_delivers T tid keep (c\<lparr>cc_cur_iter := cur\<rparr>) es"
      using t es i' opts unfolding concact_delivers_def
      by (intro conjI disjI2 exI [of _ s] exI [of _ ps] exI [of _ rv] exI [of _ later] exI [of _ i']) simp_all
    moreover have "ConcactIterator_is_end (c\<lparr>cc_cur_iter := cur\<rparr>) = Inr False"
      using sst_valid_at [OF env i'(1) opts(1)] by (simp add: ConcactIterator_is_end_def)
    ultimately show ?thesis
      using cur(1,5) ok' by (intro exI [of _ "c\<lparr>cc_cur_iter := cur\<rparr>"] exI [of _ w'] exI [of _ n'])
        (simp add: ConcactIterator_incr_def Let_def)
  next
    case True
    then have "sst_iter_entries ps cur = []" by (simp add: sst_iter_entries_def)
    then have es': "es = concat (map (table_versions keep tid) later)" using es by simp
    have e: "ConcactIterator_is_end (c\<lparr>cc_cur_iter := cur\<rparr>) = Inr True"
      using True by (simp add: ConcactIterator_is_end_def SstIterator_is_end_def)
    have drp: "drop (Suc (cc_cur_idx c)) (cc_ssts c) = map fst later"
      using t(3) by (metis drop_Suc drop_tl list.sel(3))
    have "n' + 2 < 2 ^ 64" using cur(5) room by simp
    from concact_begin [OF t(2,4) ok' this _ _ drp, of keep] t(11,12)
    obtain nxt w2 n2 where b: "(if Suc (cc_cur_idx c) < length (cc_ssts c)
        then SST_begin h (cc_ssts c ! Suc (cc_cur_idx c)) tid keep w' else SstIterator_new h None tid False w') = Inr (nxt, w2)"
      "concact_delivers T tid keep (c\<lparr>cc_cur_idx := Suc (cc_cur_idx c), cc_cur_iter := nxt\<rparr>) es"
      "tables_ok h disk T n2 w2" "n2 \<le> n' + 2"
      unfolding es' by blast
    have "ConcactIterator_incr h c w = Inr (c\<lparr>cc_cur_idx := Suc (cc_cur_idx c), cc_cur_iter := nxt\<rparr>, w2)"
      using cur(1) e b(1) t(11,12) by (auto simp: ConcactIterator_incr_def Let_def split: if_splits)
    moreover have "n2 \<le> n + 4" using b(4) cur(5) by simp
    ultimately show ?thesis using b(2,3) by blast
  qed
qed

lemma concact_new:
  assumes "set ts \<subseteq> T" and "\<forall>t \<in> set ts. table_visible tid t" and "tables_ok h disk T n w" and "n + 2 < 2 ^ 64"
  shows "\<exists>c w' n'. ConcactIterator_new h (map fst ts) tid keep w = Inr (c, w') \<and>
    concact_delivers T tid keep c (concat (map (table_versions keep tid) ts)) \<and> tables_ok h disk T n' w' \<and> n' \<le> n + 2"
proof -
  let ?c = "\<lambda>cur. \<lparr>cc_cur_iter = cur, cc_cur_idx = 0, cc_ssts = map fst ts, cc_max_tranc_id = tid, cc_keep_all_versions = keep\<rparr>"
  have pre: "cc_max_tranc_id (?c undefined) = tid" "cc_keep_all_versions (?c undefined) = keep"
    "drop 0 (cc_ssts (?c undefined)) = map fst ts"
    by simp_all
  obtain cur w' n' where b: "(if 0 < length (cc_ssts (?c undefined)) then SST_begin h (cc_ssts (?c undefined) ! 0) tid keep w
      else SstIterator_new h None tid False w) = Inr (cur, w')"
    "concact_delivers T tid keep ((?c undefined)\<lparr>cc_cur_idx := 0, cc_cur_iter := cur\<rparr>) (concat (map (table_versions keep tid) ts))"
    "tables_ok h disk T n' w'" "n' \<le> n + 2"
    using concact_begin [OF assms pre] by (elim exE conjE) (intro that; assumption)
  have "ConcactIterator_new h (map fst ts) tid keep w = Inr (?c cur, w')"
    using b(1) by (cases ts) (auto simp: ConcactIterator_new_def)
  with b(2-4) show ?thesis by (intro exI [of _ "?c cur"] exI [of _ w'] exI [of _ n']) simp
qed

lemma heap_delivers_Cons:
  assumes "heap_delivers mx keep it (e # es)"
  obtains x q where "hi_items it = x # q" "e = item_version x" "heap_inv it" "hi_skip_delete it \<longrightarrow> si_value x \<noteq> []"
    "es = map item_version (heap_versions (hi_skip_delete it) keep (if keep then q else dropWhile (\<lambda>y. si_key y = si_key x) q))"
    "hi_max_tranc_id it \<le> mx" "hi_keep_all_versions it = keep"
proof -
  have inv: "heap_inv it" and rest: "e # es = map item_version (heap_versions (hi_skip_delete it) (hi_keep_all_versions it) (hi_items it))"
    and opt: "hi_max_tranc_id it \<le> mx" "hi_keep_all_versions it = keep"
    using assms by (simp_all add: heap_delivers_def)
  obtain x q where q: "hi_items it = x # q"
    using rest by (cases "hi_items it") (auto simp: heap_versions_def Let_def split: if_splits)
  note live = heap_inv_Cons [OF inv q]
  show ?thesis
    using that [OF q _ inv live _ opt] rest heap_versions_Cons [OF live, of keep q] q opt(2) by simp
qed

lemma heap_at_end:
  assumes "heap_delivers mx keep it es"
  shows "hi_items it = [] \<longleftrightarrow> es = []"
  using assms heap_inv_Cons [of it] heap_versions_Cons [of "hi_skip_delete it"]
  by (cases "hi_items it") (auto simp: heap_delivers_def heap_versions_def [of _ _ "[]"])

lemma heap_advance:
  assumes "heap_delivers mx keep it (e # es)"
  shows "heap_delivers mx keep (HeapIterator_incr it) es"
proof -
  obtain x q where q: "hi_items it = x # q" "e = item_version x" "heap_inv it" "hi_skip_delete it \<longrightarrow> si_value x \<noteq> []"
    "es = map item_version (heap_versions (hi_skip_delete it) keep (if keep then q else dropWhile (\<lambda>y. si_key y = si_key x) q))"
    "hi_max_tranc_id it \<le> mx" "hi_keep_all_versions it = keep"
    by (rule heap_delivers_Cons [OF assms])
  let ?q = "if keep then q else dropWhile (\<lambda>y. si_key y = si_key x) q"
  let ?it = "it\<lparr>hi_items := ?q\<rparr>"
  have vis: "\<forall>y \<in> set (hi_items ?it). item_visible (hi_max_tranc_id ?it) y"
    using q(1,3) by (auto simp: heap_inv_def dest: set_dropWhileD)
  have "HeapIterator_incr it = skip_loop ?it" using q(1,7) by (simp add: HeapIterator_incr_def)
  moreover have "heap_delivers mx keep (skip_loop ?it) es"
    using skip_loop_inv(1) [OF vis] q(5-7)
    by (cases "hi_skip_delete it") (simp_all add: heap_delivers_def skip_loop_visible [OF vis] heap_versions_skip_deleted)
  ultimately show ?thesis by simp
qed

lemma heap_get_tranc_id:
  assumes "heap_delivers mx keep it es"
  shows "keep \<Longrightarrow> es = e # es' \<Longrightarrow> HeapIterator_get_tranc_id it = etranc e"
    and "\<not> keep \<Longrightarrow> HeapIterator_get_tranc_id it \<le> mx"
proof -
  show "HeapIterator_get_tranc_id it = etranc e" if k: "keep" and es: "es = e # es'"
  proof -
    obtain x q where "hi_items it = x # q" "e = item_version x" "hi_keep_all_versions it = keep"
      using heap_delivers_Cons [OF assms [unfolded es]] .
    with k show ?thesis by (simp add: HeapIterator_get_tranc_id_def item_version_def)
  qed
  show "HeapIterator_get_tranc_id it \<le> mx" if "\<not> keep"
    using assms that by (cases "hi_items it") (auto simp: HeapIterator_get_tranc_id_def heap_delivers_def)
qed

lemma base_end:
  assumes "base_delivers T tid keep x es" and "tables_ok h disk T n w"
  shows "Base_is_end x = Inr (es = [])" and "Base_is_valid x = Inr (es \<noteq> [])"
  using assms(1) concact_at_end [OF _ assms(2)] heap_at_end
  by (auto simp: base_delivers_def Base_is_end_def Base_is_valid_def HeapIterator_is_end_def HeapIterator_is_valid_def
      split: base_iter.splits)

lemma base_deref:
  assumes "base_delivers T tid keep x (e # es)" and "tables_ok h disk T n w"
  shows "\<exists>x'. Base_deref x w = Inr ((ekey e, evalue e), x') \<and> base_delivers T tid keep x' (e # es)"
proof (cases x)
  case (Heap_it it)
  then have "heap_delivers tid keep it (e # es)" using assms(1) by (simp add: base_delivers_def)
  moreover from this have "HeapIterator_deref it = Inr (ekey e, evalue e)"
    by (rule heap_delivers_Cons) (simp add: HeapIterator_deref_def item_version_def)
  ultimately show ?thesis using Heap_it by (simp add: Base_deref_def base_delivers_def)
next
  case (Concact_it c)
  with assms(1) concact_deref [OF _ assms(2)] show ?thesis
    by (fastforce simp: Base_deref_def base_delivers_def)
qed

lemma base_advance:
  assumes "base_delivers T tid keep x (e # es)" and "tables_ok h disk T n w" and "n + 4 < 2 ^ 64"
  shows "\<exists>x' w' n'. Base_incr h x w = Inr (x', w') \<and> base_delivers T tid keep x' es \<and> tables_ok h disk T n' w' \<and> n' \<le> n + 4"
proof (cases x)
  case (Heap_it it)
  then have "heap_delivers tid keep (HeapIterator_incr it) es"
    using assms(1) heap_advance by (simp add: base_delivers_def)
  with Heap_it assms(2) show ?thesis
    by (intro exI [of _ "Heap_it (HeapIterator_incr it)"] exI [of _ w] exI [of _ n]) (simp add: Base_incr_def base_delivers_def)
next
  case (Concact_it c)
  then obtain c' w' n' where "ConcactIterator_incr h c w = Inr (c', w')" "concact_delivers T tid keep c' es"
    "tables_ok h disk T n' w'" "n' \<le> n + 4"
    using concact_incr [OF _ assms(2,3)] assms(1) by (simp add: base_delivers_def) blast
  with Concact_it show ?thesis
    by (intro exI [of _ "Concact_it c'"] exI [of _ w'] exI [of _ n']) (simp add: Base_incr_def base_delivers_def)
qed

lemma concact_tranc:
  assumes "concact_delivers T tid True c (e # es)" and "tables_ok h disk T n w"
  shows "ConcactIterator_get_tranc_id c = Inr (etranc e)"
proof -
  have "e # es \<noteq> []" by simp
  then obtain s ps rv later i where t: "(s, ps, rv) \<in> T" "set later \<subseteq> T"
    "drop (cc_cur_idx c) (cc_ssts c) = s # map fst later" "\<forall>t \<in> set later. table_visible tid t"
    "sst_iter_at s ps i (cc_cur_iter c)" "m_sst (cc_cur_iter c) = Some s"
    "m_max_tranc_id (cc_cur_iter c) = tid" "m_keep_all_versions (cc_cur_iter c) = True"
    "blocks_visible tid (drop (Suc i) ps)"
    "e # es = map (read_version rv) (sst_iter_entries ps (cc_cur_iter c)) @ concat (map (table_versions True tid) later)"
    "cc_max_tranc_id c = tid" "cc_keep_all_versions c = True"
    by (rule concact_delivers_Cons [OF assms(1)])
  note env = table_env [OF assms(2) t(1)]
  have "parts_ok ps" using env by (auto simp: sst_env_def sst_repr_def)
  moreover obtain bi where "m_block_it (cc_cur_iter c) = Some bi" using t(5) by (auto simp: sst_iter_at_def)
  ultimately have ne: "sst_iter_entries ps (cc_cur_iter c) \<noteq> []"
    using sst_iter_entries_hd(1) t(5) by blast
  then have "e = read_version rv (hd (sst_iter_entries ps (cc_cur_iter c)))"
    using t(10) by (cases "sst_iter_entries ps (cc_cur_iter c)") auto
  with sst_tranc_at [OF env t(5)] t(8,12) show ?thesis
    by (simp add: ConcactIterator_get_tranc_id_def read_version_def)
qed

interpretation bi: version_iterator "tables_ok h disk T" tid 4 "base_delivers T tid False"
  Base_is_end Base_is_valid Base_deref Base_get_tranc_id "Base_incr h" for h disk T tid
proof
  fix x es n w
  assume d: "base_delivers T tid False x es" and ok: "tables_ok h disk T n w"
  show "Base_is_end x = Inr (es = [])" "Base_is_valid x = Inr (es \<noteq> [])"
    by (rule base_end [OF d ok])+
  show "\<exists>t. Base_get_tranc_id x = Inr t \<and> t \<le> tid" if "tid \<noteq> 0"
    using d heap_get_tranc_id(2) [of _ False, simplified]
    by (auto simp: base_delivers_def Base_get_tranc_id_def ConcactIterator_get_tranc_id_def concact_delivers_def
        split: base_iter.splits)
next
  fix x e es n w
  assume d: "base_delivers T tid False x (e # es)" and ok: "tables_ok h disk T n w"
  show "\<exists>x'. Base_deref x w = Inr ((ekey e, evalue e), x') \<and> base_delivers T tid False x' (e # es)"
    by (rule base_deref [OF d ok])
  assume "n + 4 < 2 ^ 64"
  then show "\<exists>x' w' n'. Base_incr h x w = Inr (x', w') \<and> base_delivers T tid False x' es \<and> tables_ok h disk T n' w' \<and> n' \<le> n + 4"
    by (rule base_advance [OF d ok])
qed

interpretation ba: all_versions_iterator "tables_ok h disk T" 0 4 "base_delivers T 0 True"
  Base_is_end Base_is_valid Base_deref Base_get_tranc_id "Base_incr h" for h disk T
proof
  fix x es n w
  assume d: "base_delivers T 0 True x es" and ok: "tables_ok h disk T n w"
  show "Base_is_end x = Inr (es = [])" "Base_is_valid x = Inr (es \<noteq> [])"
    by (rule base_end [OF d ok])+
next
  fix x e es n w
  assume d: "base_delivers T 0 True x (e # es)" and ok: "tables_ok h disk T n w"
  show "\<exists>x'. Base_deref x w = Inr ((ekey e, evalue e), x') \<and> base_delivers T 0 True x' (e # es)"
    by (rule base_deref [OF d ok])
  show "Base_get_tranc_id x = Inr (etranc e)"
    using d heap_get_tranc_id(1) concact_tranc [OF _ ok]
    by (auto simp: base_delivers_def Base_get_tranc_id_def split: base_iter.splits)
  assume "n + 4 < 2 ^ 64"
  then show "\<exists>x' w' n'. Base_incr h x w = Inr (x', w') \<and> base_delivers T 0 True x' es \<and> tables_ok h disk T n' w' \<and> n' \<le> n + 4"
    by (rule base_advance [OF d ok])
qed simp

section \<open>The merge delivers the merged versions\<close>

fun merge2 :: "bool \<Rightarrow> entry list \<Rightarrow> entry list \<Rightarrow> entry list" where
  "merge2 keep [] bs = bs"
| "merge2 keep (a # as) [] = a # as"
| "merge2 keep (a # as) (b # bs) =
     (if ekey a < ekey b \<or> ekey a = ekey b \<and> keep \<and> etranc b < etranc a then a # merge2 keep as (b # bs)
      else if ekey a = ekey b \<and> \<not> keep then a # merge2 keep as bs
      else b # merge2 keep (a # as) bs)"

lemma merge2_Nil [simp]: "merge2 keep as [] = as"
  by (cases as) simp_all

lemma merge2_eq_Nil [simp]: "merge2 keep as bs = [] \<longleftrightarrow> as = [] \<and> bs = []"
  by (cases "(keep, as, bs)" rule: merge2.cases) auto

definition takes_a :: "bool \<Rightarrow> entry list \<Rightarrow> entry list \<Rightarrow> bool" where
  "takes_a keep as bs \<longleftrightarrow>
     as \<noteq> [] \<and> (bs = [] \<or> ekey (hd as) < ekey (hd bs) \<or>
       ekey (hd as) = ekey (hd bs) \<and> (keep \<longrightarrow> etranc (hd bs) < etranc (hd as)))"

definition heads_apart :: "bool \<Rightarrow> entry list \<Rightarrow> entry list \<Rightarrow> bool" where
  "heads_apart keep as bs \<longleftrightarrow>
     (\<not> keep \<longrightarrow> sorted_wrt (<) (map ekey bs) \<and> (as \<noteq> [] \<and> bs \<noteq> [] \<longrightarrow> ekey (hd as) \<noteq> ekey (hd bs)))"

lemma merge2_takes:
  assumes "heads_apart keep as bs" and "merge2 keep as bs = e # es"
  shows "takes_a keep as bs \<Longrightarrow> as = e # tl as \<and> es = merge2 keep (tl as) bs"
    and "\<not> takes_a keep as bs \<Longrightarrow> bs = e # tl bs \<and> es = merge2 keep as (tl bs)"
  using assms by (cases as; cases bs; auto simp: takes_a_def heads_apart_def split: if_splits)+

definition merge_delivers :: "table set \<Rightarrow> u64 \<Rightarrow> bool \<Rightarrow> two_merge \<Rightarrow> entry list \<Rightarrow> bool" where
  "merge_delivers T tid keep t es \<longleftrightarrow>
     (\<exists>a b as bs. tm_it_a t = Some a \<and> tm_it_b t = Some b \<and> base_delivers T tid keep a as \<and> base_delivers T tid keep b bs \<and>
        tm_max_tranc_id t = tid \<and> tm_keep_all_versions t = keep \<and> heads_apart keep as bs \<and>
        tm_choose_a t = takes_a keep as bs \<and> es = merge2 keep as bs)"

text \<open>Normal mode, or all versions without a transaction: what the engine asks for.\<close>

definition merge_mode :: "u64 \<Rightarrow> bool \<Rightarrow> bool" where
  "merge_mode tid keep \<longleftrightarrow> (keep \<longrightarrow> tid = 0)"

lemma base_tranc:
  assumes "merge_mode tid keep" and "tables_ok h disk T n w"
  shows "keep \<Longrightarrow> base_delivers T tid keep x (e # es) \<Longrightarrow> Base_get_tranc_id x = Inr (etranc e)"
    and "tid \<noteq> 0 \<Longrightarrow> base_delivers T tid keep x es \<Longrightarrow> skip_invisible_loop h m tid x w = Inr (x, w)"
proof -
  show "Base_get_tranc_id x = Inr (etranc e)" if "keep" "base_delivers T tid keep x (e # es)"
    using ba.tranc [of T x e es h disk n w] assms that by (simp add: merge_mode_def)
  show "skip_invisible_loop h m tid x w = Inr (x, w)" if "tid \<noteq> 0" "base_delivers T tid keep x es"
    using bi.quiet [of T tid x es h disk n w] assms that by (cases m) (auto simp: merge_mode_def)
qed

lemma choose_ok:
  assumes a: "base_delivers T tid keep a as" and b: "base_delivers T tid keep b bs" and ok: "tables_ok h disk T n w"
    and t: "tm_it_a t = Some a" "tm_it_b t = Some b" "tm_keep_all_versions t = keep"
    and mode: "merge_mode tid keep"
  shows "\<exists>a' b'. choose_it_a t w = Inr (takes_a keep as bs, t\<lparr>tm_it_a := Some a', tm_it_b := Some b'\<rparr>) \<and>
    base_delivers T tid keep a' as \<and> base_delivers T tid keep b' bs"
proof -
  have ends: "Base_is_end a = Inr (as = [])" "Base_is_end b = Inr (bs = [])"
    using base_end(1) a b ok by blast+
  have t0: "t\<lparr>tm_it_a := Some a, tm_it_b := Some b\<rparr> = t" using t by simp
  show ?thesis
  proof (cases "as = [] \<or> bs = []")
    case True
    then show ?thesis
      using ends t t0 a b by (intro exI [of _ a] exI [of _ b]) (auto simp: choose_it_a_def ptr_def takes_a_def)
  next
    case False
    then obtain x xs y ys where xy: "as = x # xs" "bs = y # ys" by (meson neq_Nil_conv)
    obtain a' where a': "Base_deref a w = Inr ((ekey x, evalue x), a')" "base_delivers T tid keep a' as"
      using base_deref [OF _ ok] a xy(1) by blast
    obtain b' where b': "Base_deref b w = Inr ((ekey y, evalue y), b')" "base_delivers T tid keep b' bs"
      using base_deref [OF _ ok] b xy(2) by blast
    have trs: "Base_get_tranc_id a' = Inr (etranc x)" "Base_get_tranc_id b' = Inr (etranc y)" if "keep"
      using base_tranc(1) [OF mode ok that] a'(2) b'(2) xy by blast+
    have "choose_it_a t w = Inr (takes_a keep as bs, t\<lparr>tm_it_a := Some a', tm_it_b := Some b'\<rparr>)"
      using ends t xy a'(1) b'(1) trs by (cases keep) (auto simp: choose_it_a_def ptr_def takes_a_def Let_def)
    with a' b' show ?thesis by blast
  qed
qed

lemma skip_b_ok:
  assumes a: "base_delivers T tid keep a as" and b: "base_delivers T tid keep b bs" and ok: "tables_ok h disk T n w"
    and t: "tm_it_a t = Some a" "tm_it_b t = Some b" "tm_keep_all_versions t = keep" and room: "n + 4 < 2 ^ 64"
    and srt: "\<not> keep \<longrightarrow> sorted_wrt (<) (map ekey bs)"
  shows "\<exists>a' b' bs' w' n'. skip_it_b h t w = Inr (t\<lparr>tm_it_a := Some a', tm_it_b := Some b'\<rparr>, w') \<and>
    base_delivers T tid keep a' as \<and> base_delivers T tid keep b' bs' \<and> heads_apart keep as bs' \<and>
    merge2 keep as bs' = merge2 keep as bs \<and> tables_ok h disk T n' w' \<and> n' \<le> n + 4"
proof -
  have ends: "Base_is_end a = Inr (as = [])" "Base_is_end b = Inr (bs = [])"
    using base_end(1) a b ok by blast+
  have t0: "t\<lparr>tm_it_a := Some a, tm_it_b := Some b\<rparr> = t" using t by simp
  show ?thesis
  proof (cases "keep \<or> as = [] \<or> bs = []")
    case True
    then show ?thesis
      using ends t t0 a b ok srt
      by (intro exI [of _ a] exI [of _ b] exI [of _ bs] exI [of _ w] exI [of _ n])
        (auto simp: skip_it_b_def ptr_def heads_apart_def)
  next
    case False
    then obtain x xs y ys where xy: "as = x # xs" "bs = y # ys" and keep: "\<not> keep" by (meson neq_Nil_conv)
    obtain a' where a': "Base_deref a w = Inr ((ekey x, evalue x), a')" "base_delivers T tid keep a' as"
      using base_deref [OF _ ok] a xy(1) by blast
    obtain b' where b': "Base_deref b w = Inr ((ekey y, evalue y), b')" "base_delivers T tid keep b' bs"
      using base_deref [OF _ ok] b xy(2) by blast
    obtain b2 w2 n2 where b2: "Base_incr h b' w = Inr (b2, w2)" "base_delivers T tid keep b2 ys"
      "tables_ok h disk T n2 w2" "n2 \<le> n + 4"
      using base_advance [OF _ ok room] b'(2) xy(2) by blast
    have ys: "sorted_wrt (<) (map ekey ys)" "\<forall>z \<in> set ys. ekey y < ekey z"
      using srt keep xy(2) by auto
    show ?thesis
    proof (cases "ekey x = ekey y")
      case True
      have "heads_apart keep as ys" using ys True xy(1) by (cases ys) (auto simp: heads_apart_def)
      moreover have "merge2 keep as ys = merge2 keep as bs"
        using ys(2) True xy keep by (cases ys) auto
      moreover have "skip_it_b h t w = Inr (t\<lparr>tm_it_a := Some a', tm_it_b := Some b2\<rparr>, w2)"
        using ends t xy a'(1) b'(1) b2(1) keep True by (simp add: skip_it_b_def ptr_def)
      ultimately show ?thesis using a'(2) b2 by blast
    next
      case False
      have "skip_it_b h t w = Inr (t\<lparr>tm_it_a := Some a', tm_it_b := Some b'\<rparr>, w)"
        using ends t xy a'(1) b'(1) keep False by (simp add: skip_it_b_def ptr_def)
      moreover have "heads_apart keep as bs" using srt xy False by (simp add: heads_apart_def)
      ultimately show ?thesis using a'(2) b'(2) ok
        by (intro exI [of _ a'] exI [of _ b'] exI [of _ bs] exI [of _ w] exI [of _ n]) simp
    qed
  qed
qed

lemma settle_ok:
  assumes mode: "merge_mode tid keep" and a: "base_delivers T tid keep a as" and b: "base_delivers T tid keep b bs"
    and ok: "tables_ok h disk T n w" and room: "n + 4 < 2 ^ 64" and srt: "\<not> keep \<longrightarrow> sorted_wrt (<) (map ekey bs)"
    and t: "tm_it_a t = Some a" "tm_it_b t = Some b" "tm_keep_all_versions t = keep" "tm_max_tranc_id t = tid"
  shows "\<exists>t' w' n'. settle h m t w = Inr (t', w') \<and> merge_delivers T tid keep t' (merge2 keep as bs) \<and>
    tables_ok h disk T n' w' \<and> n' \<le> n + 4"
proof -
  have t0: "t\<lparr>tm_it_a := Some a, tm_it_b := Some b\<rparr> = t" using t by simp
  have skip: "TwoMergeIterator_skip_by_tranc_id h m t w = Inr (t, w)"
    using base_tranc(2) [OF mode ok] a b t t0 by (simp add: TwoMergeIterator_skip_by_tranc_id_def ptr_def)
  obtain a1 b1 bs1 w1 n1 where s: "skip_it_b h t w = Inr (t\<lparr>tm_it_a := Some a1, tm_it_b := Some b1\<rparr>, w1)"
    "base_delivers T tid keep a1 as" "base_delivers T tid keep b1 bs1" "heads_apart keep as bs1"
    "merge2 keep as bs1 = merge2 keep as bs" "tables_ok h disk T n1 w1" "n1 \<le> n + 4"
    using skip_b_ok [OF a b ok t(1,2,3) room srt] by (elim exE conjE) (intro that; assumption)
  let ?t1 = "t\<lparr>tm_it_a := Some a1, tm_it_b := Some b1\<rparr>"
  have t1: "tm_it_a ?t1 = Some a1" "tm_it_b ?t1 = Some b1" "tm_keep_all_versions ?t1 = keep" using t by simp_all
  obtain a2 b2 where c: "choose_it_a ?t1 w1 = Inr (takes_a keep as bs1, ?t1\<lparr>tm_it_a := Some a2, tm_it_b := Some b2\<rparr>)"
    "base_delivers T tid keep a2 as" "base_delivers T tid keep b2 bs1"
    using choose_ok [OF s(2,3,6) t1 mode] by blast
  let ?t2 = "?t1\<lparr>tm_it_a := Some a2, tm_it_b := Some b2, tm_choose_a := takes_a keep as bs1\<rparr>"
  have "settle h m t w = Inr (?t2, w1)"
    using skip s(1) c(1) by (simp add: settle_def)
  moreover have "merge_delivers T tid keep ?t2 (merge2 keep as bs)"
    using c(2,3) s(4,5) t(3,4) unfolding merge_delivers_def
    by (intro exI [of _ a2] exI [of _ b2] exI [of _ as] exI [of _ bs1]) simp
  ultimately show ?thesis using s(6,7) by blast
qed

lemma merge_ends:
  assumes "merge_delivers T tid keep t es" and "tables_ok h disk T n w"
  shows "TwoMergeIterator_is_end t = Inr (es = [])" and "TwoMergeIterator_is_valid t = Inr (es \<noteq> [])"
  using assms(1) base_end [OF _ assms(2)]
  by (auto simp: merge_delivers_def TwoMergeIterator_is_end_def TwoMergeIterator_is_valid_def)

lemma merge_deref:
  assumes "merge_delivers T tid keep t (e # es)" and "tables_ok h disk T n w"
  shows "\<exists>t'. TwoMergeIterator_deref t w = Inr ((ekey e, evalue e), t') \<and> merge_delivers T tid keep t' (e # es)"
proof -
  obtain a b as bs where m: "tm_it_a t = Some a" "tm_it_b t = Some b" "base_delivers T tid keep a as"
    "base_delivers T tid keep b bs" "tm_max_tranc_id t = tid" "tm_keep_all_versions t = keep" "heads_apart keep as bs"
    "tm_choose_a t = takes_a keep as bs" "merge2 keep as bs = e # es"
    using assms(1) unfolding merge_delivers_def by (elim exE conjE) (intro that; simp)
  show ?thesis
  proof (cases "takes_a keep as bs")
    case True
    with merge2_takes(1) [OF m(7,9)] have "as = e # tl as" by simp
    then obtain a' where "Base_deref a w = Inr ((ekey e, evalue e), a')" "base_delivers T tid keep a' as"
      using base_deref [OF _ assms(2)] m(3) by metis
    with True m show ?thesis
      unfolding merge_delivers_def TwoMergeIterator_deref_def ptr_def
      by (intro exI [of _ "t\<lparr>tm_it_a := Some a'\<rparr>"] conjI exI [of _ a'] exI [of _ b] exI [of _ as] exI [of _ bs]) simp_all
  next
    case False
    with merge2_takes(2) [OF m(7,9)] have "bs = e # tl bs" by simp
    then obtain b' where "Base_deref b w = Inr ((ekey e, evalue e), b')" "base_delivers T tid keep b' bs"
      using base_deref [OF _ assms(2)] m(4) by metis
    with False m show ?thesis
      unfolding merge_delivers_def TwoMergeIterator_deref_def ptr_def
      by (intro exI [of _ "t\<lparr>tm_it_b := Some b'\<rparr>"] conjI exI [of _ a] exI [of _ b'] exI [of _ as] exI [of _ bs]) simp_all
  qed
qed

lemma merge_advance:
  assumes mode: "merge_mode tid keep" and del: "merge_delivers T tid keep t (e # es)" and ok: "tables_ok h disk T n w"
    and room: "n + 8 < 2 ^ 64"
  shows "\<exists>t' w' n'. TwoMergeIterator_incr h m t w = Inr (t', w') \<and> merge_delivers T tid keep t' es \<and>
    tables_ok h disk T n' w' \<and> n' \<le> n + 8"
proof -
  obtain a b as bs where d: "tm_it_a t = Some a" "tm_it_b t = Some b" "base_delivers T tid keep a as"
    "base_delivers T tid keep b bs" "tm_max_tranc_id t = tid" "tm_keep_all_versions t = keep" "heads_apart keep as bs"
    "tm_choose_a t = takes_a keep as bs" "merge2 keep as bs = e # es"
    using del unfolding merge_delivers_def by (elim exE conjE) (intro that; simp)
  have srt: "\<not> keep \<longrightarrow> sorted_wrt (<) (map ekey bs)" using d(7) by (simp add: heads_apart_def)
  have room4: "n + 4 < 2 ^ 64" using room by simp
  show ?thesis
  proof (cases "takes_a keep as bs")
    case True
    with merge2_takes(1) [OF d(7,9)] have as: "as = e # tl as" "es = merge2 keep (tl as) bs" by simp_all
    have d3: "base_delivers T tid keep a (e # tl as)" using d(3) as(1) by metis
    obtain a' w1 n1 where a': "Base_incr h a w = Inr (a', w1)" "base_delivers T tid keep a' (tl as)"
      "tables_ok h disk T n1 w1" "n1 \<le> n + 4"
      using base_advance [OF d3 ok room4] by blast
    have "n1 + 4 < 2 ^ 64" using a'(4) room by simp
    from settle_ok [OF mode a'(2) d(4) a'(3) this srt, of "t\<lparr>tm_it_a := Some a'\<rparr>" m] d
    obtain t' w' n' where "settle h m (t\<lparr>tm_it_a := Some a'\<rparr>) w1 = Inr (t', w')"
      "merge_delivers T tid keep t' es" "tables_ok h disk T n' w'" "n' \<le> n1 + 4"
      unfolding as(2) by auto
    with True d a' show ?thesis
      by (intro exI [of _ t'] exI [of _ w'] exI [of _ n']) (simp add: TwoMergeIterator_incr_def ptr_def)
  next
    case False
    with merge2_takes(2) [OF d(7,9)] have bs: "bs = e # tl bs" "es = merge2 keep as (tl bs)" by simp_all
    have d4: "base_delivers T tid keep b (e # tl bs)" using d(4) bs(1) by metis
    obtain b' w1 n1 where b': "Base_incr h b w = Inr (b', w1)" "base_delivers T tid keep b' (tl bs)"
      "tables_ok h disk T n1 w1" "n1 \<le> n + 4"
      using base_advance [OF d4 ok room4] by blast
    have "n1 + 4 < 2 ^ 64" using b'(4) room by simp
    moreover have "\<not> keep \<longrightarrow> sorted_wrt (<) (map ekey (tl bs))"
      using srt by (cases bs) auto
    ultimately obtain t' w' n' where "settle h m (t\<lparr>tm_it_b := Some b'\<rparr>) w1 = Inr (t', w')"
      "merge_delivers T tid keep t' es" "tables_ok h disk T n' w'" "n' \<le> n1 + 4"
      using settle_ok [OF mode d(3) b'(2,3), of "t\<lparr>tm_it_b := Some b'\<rparr>" m] d unfolding bs(2) by auto
    with False d b' show ?thesis
      by (intro exI [of _ t'] exI [of _ w'] exI [of _ n']) (simp add: TwoMergeIterator_incr_def ptr_def)
  qed
qed

lemma merge_tranc:
  assumes "merge_delivers T 0 True t (e # es)" and "tables_ok h disk T n w"
  shows "TwoMergeIterator_get_tranc_id t = Inr (etranc e)"
proof -
  obtain a b as bs where d: "tm_it_a t = Some a" "tm_it_b t = Some b" "base_delivers T 0 True a as"
    "base_delivers T 0 True b bs" "tm_keep_all_versions t" "heads_apart True as bs"
    "tm_choose_a t = takes_a True as bs" "merge2 True as bs = e # es"
    using assms(1) unfolding merge_delivers_def by (elim exE conjE) (intro that; simp)
  let ?x = "if takes_a True as bs then a else b" 
  obtain xs where x: "base_delivers T 0 True ?x (e # xs)"
    using d(3,4) merge2_takes [OF d(6,8)] by (cases "takes_a True as bs") metis+
  have "Base_get_tranc_id ?x = Inr (etranc e)"
    by (rule ba.tranc [OF x assms(2)])
  moreover have "Base_is_end ?x = Inr False"
    using base_end(1) [OF x assms(2)] by simp
  ultimately show ?thesis
    using d(1,2,5,7) by (simp add: TwoMergeIterator_get_tranc_id_def split: if_splits)
qed

interpretation mi: version_iterator "tables_ok h disk T" tid 8 "merge_delivers T tid False"
  TwoMergeIterator_is_end TwoMergeIterator_is_valid TwoMergeIterator_deref TwoMergeIterator_get_tranc_id
  "TwoMergeIterator_incr h m" for h disk T tid m
proof
  fix x es n w
  assume d: "merge_delivers T tid False x es" and ok: "tables_ok h disk T n w"
  show "TwoMergeIterator_is_end x = Inr (es = [])" "TwoMergeIterator_is_valid x = Inr (es \<noteq> [])"
    by (rule merge_ends [OF d ok])+
  show "\<exists>t. TwoMergeIterator_get_tranc_id x = Inr t \<and> t \<le> tid"
    using d by (auto simp: merge_delivers_def TwoMergeIterator_get_tranc_id_def)
next
  fix x e es n w
  assume d: "merge_delivers T tid False x (e # es)" and ok: "tables_ok h disk T n w"
  show "\<exists>x'. TwoMergeIterator_deref x w = Inr ((ekey e, evalue e), x') \<and> merge_delivers T tid False x' (e # es)"
    by (rule merge_deref [OF d ok])
  assume "n + 8 < 2 ^ 64"
  then show "\<exists>x' w' n'. TwoMergeIterator_incr h m x w = Inr (x', w') \<and> merge_delivers T tid False x' es \<and>
      tables_ok h disk T n' w' \<and> n' \<le> n + 8"
    by (intro merge_advance [OF _ d ok]) (simp_all add: merge_mode_def)
qed

interpretation ma: all_versions_iterator "tables_ok h disk T" 0 8 "merge_delivers T 0 True"
  TwoMergeIterator_is_end TwoMergeIterator_is_valid TwoMergeIterator_deref TwoMergeIterator_get_tranc_id
  "TwoMergeIterator_incr h m" for h disk T m
proof
  fix x es n w
  assume d: "merge_delivers T 0 True x es" and ok: "tables_ok h disk T n w"
  show "TwoMergeIterator_is_end x = Inr (es = [])" "TwoMergeIterator_is_valid x = Inr (es \<noteq> [])"
    by (rule merge_ends [OF d ok])+
next
  fix x e es n w
  assume d: "merge_delivers T 0 True x (e # es)" and ok: "tables_ok h disk T n w"
  show "\<exists>x'. TwoMergeIterator_deref x w = Inr ((ekey e, evalue e), x') \<and> merge_delivers T 0 True x' (e # es)"
    by (rule merge_deref [OF d ok])
  show "TwoMergeIterator_get_tranc_id x = Inr (etranc e)"
    by (rule merge_tranc [OF d ok])
  assume "n + 8 < 2 ^ 64"
  then show "\<exists>x' w' n'. TwoMergeIterator_incr h m x w = Inr (x', w') \<and> merge_delivers T 0 True x' es \<and>
      tables_ok h disk T n' w' \<and> n' \<le> n + 8"
    by (intro merge_advance [OF _ d ok]) (simp_all add: merge_mode_def)
qed simp

end
