(* ===== verification/Engine.thy ===== *)
theory Engine
  imports Config TranManager MemTable MergeIterator
begin

text \<open>
  \<^verbatim>\<open>LSMEngine\<close> of \<^verbatim>\<open>src/lsm/engine.cpp\<close>: the memtable, the tables of every level and the operations that
  move data between them. The state is one record; the transaction manager, which the engine reaches
  through a weak pointer, is a field of it (\<open>None\<close> when the pointer has expired), and the files, the
  block cache and the addresses of blocks are its store. The locks make every operation one step. The
  hash function, the arithmetic of \<^verbatim>\<open>double\<close>s and the configuration are the environment; \<open>env_steps\<close>
  bounds the number of rounds of the loops over iterators and of the nested compactions, which answer
  \<open>No_return\<close> when they exceed it. The random numbers of the skip list are arguments of the writes.
\<close>

section \<open>State\<close>

record env =
  env_hash :: "string \<Rightarrow> u64"
  env_dval :: "u64 \<Rightarrow> real"
  env_pow :: "int \<Rightarrow> nat \<Rightarrow> u64"
  env_cfg :: toml_config
  env_steps :: nat

record engine =
  eng_data_dir :: string
  eng_memtable :: memtable
  eng_level_sst_ids :: "(nat \<times> u64 list) list"
  eng_ssts :: "u64 \<rightharpoonup> sst"
  eng_store :: store
  eng_vlog :: "vlog option"
  eng_tran_manager :: "tran_manager option"
  eng_next_sst_id :: u64
  eng_cur_max_level :: nat

text \<open>\<^verbatim>\<open>ssts[id]->\<close>: the map inserts a null pointer for a missing table.\<close>

definition sst_at :: "u64 \<Rightarrow> engine \<Rightarrow> sst result" where
  "sst_at i e = (case eng_ssts e i of None \<Rightarrow> Inl Undefined_behaviour | Some s \<Rightarrow> Inr s)"

text \<open>The configured numbers as the code compares and passes them: signed values converted to \<^verbatim>\<open>size_t\<close>.\<close>

definition tol_mem_limit :: "env \<Rightarrow> u64" where
  "tol_mem_limit v = of_int (lsm_tol_mem_size_limit (env_cfg v))"

definition per_mem_limit :: "env \<Rightarrow> u64" where
  "per_mem_limit v = of_int (lsm_per_mem_size_limit (env_cfg v))"

definition level_ratio :: "env \<Rightarrow> u64" where
  "level_ratio v = of_int (lsm_sst_level_ratio (env_cfg v))"

definition block_size :: "env \<Rightarrow> nat" where
  "block_size v = unat (of_int (lsm_block_size (env_cfg v)) :: u64)"

definition LSMEngine_get_sst_path :: "u64 \<Rightarrow> nat \<Rightarrow> engine \<Rightarrow> string" where
  "LSMEngine_get_sst_path sid target_level e =
     (let digits = to_string (unat sid) in
      eng_data_dir e @ ''/sst_'' @ replicate (32 - length digits) CHR ''0'' @ digits @ ''.'' @ to_string target_level)"

definition LSMEngine_get_sst_size :: "env \<Rightarrow> nat \<Rightarrow> u64" where
  "LSMEngine_get_sst_size v level =
     (if level = 0 then per_mem_limit v
      else per_mem_limit v * env_pow v (lsm_sst_level_ratio (env_cfg v)) level)"

definition LSMEngine_set_tran_manager :: "tran_manager \<Rightarrow> engine \<Rightarrow> engine" where
  "LSMEngine_set_tran_manager tm e = e\<lparr>eng_tran_manager := Some tm\<rparr>"

text \<open>The builder of flushes and compactions.\<close>

definition new_builder :: "env \<Rightarrow> engine \<Rightarrow> sst_builder" where
  "new_builder v e =
     (let wk = wisckey_value_threshold (env_cfg v); n = of_int (bloom_filter_expected_size (env_cfg v));
          p = bloom_filter_expected_error_rate (env_cfg v) in
      if 0 < wk \<and> eng_vlog e \<noteq> None
      then SSTBuilder_new_wisckey (env_dval v) n p (block_size v) True (eng_vlog e) (unat wk)
      else SSTBuilder_new (env_dval v) n p (block_size v) True)"

section \<open>Opening the data directory\<close>

text \<open>
  The loop over the entries of the directory: the names of its regular files are an argument. Only the
  numbers of the name are used: the file that is opened is the one with that number and level.
\<close>

definition load_entry :: "env \<Rightarrow> string \<Rightarrow> engine \<Rightarrow> engine result" where
  "load_entry v filename e =
     (if take 4 filename \<noteq> ''sst_'' then Inr e
      else
        let dot_pos = length (takeWhile (\<lambda>c. c \<noteq> CHR ''.'') filename) in
        if dot_pos = length filename \<or> dot_pos = length filename - 1 then Inr e
        else
          let level_str = drop (dot_pos + 1) filename; id_str = drop 4 (take dot_pos filename) in
          bindE (stoull level_str) (\<lambda>level.
            if id_str = [] then Inr e
            else
              bindE (stoull id_str) (\<lambda>n.
                let sid = of_nat n :: u64;
                    e = e\<lparr>eng_next_sst_id := max sid (eng_next_sst_id e),
                          eng_cur_max_level := max level (eng_cur_max_level e)\<rparr>;
                    fs = st_fs (eng_store e) in
                bindE (FileObj_open fs (LSMEngine_get_sst_path sid level e) False) (\<lambda>(fs, f).
                bindE (SST_open (env_hash v) sid f True (eng_vlog e) fs) (\<lambda>sst.
                  Inr (e\<lparr>eng_store := (eng_store e)\<lparr>st_fs := fs\<rparr>,
                         eng_ssts := (eng_ssts e)(sid \<mapsto> sst),
                         eng_level_sst_ids := omap_put level (omap_at level [] (eng_level_sst_ids e) @ [sid])
                           (eng_level_sst_ids e)\<rparr>))))))"

primrec load_entries :: "env \<Rightarrow> string list \<Rightarrow> engine \<Rightarrow> engine result" where
  "load_entries v [] e = Inr e"
| "load_entries v (p # ps) e = bindE (load_entry v p e) (load_entries v ps)"

definition sort_levels :: "(nat \<times> u64 list) list \<Rightarrow> (nat \<times> u64 list) list" where
  "sort_levels m = map (\<lambda>(level, ids). (level, if level = 0 then rev (sort ids) else sort ids)) m"

definition LSMEngine_new :: "env \<Rightarrow> filesys \<Rightarrow> string \<Rightarrow> string list \<Rightarrow> engine result" where
  "LSMEngine_new v fs path entries =
     bindE (VLog_open fs (path @ ''/vlog.data'')) (\<lambda>(fs, vl).
     let cache = BlockCache_new (unat (of_int (lsm_block_cache_capacity (env_cfg v)) :: u64))
                   (of_int (lsm_block_cache_k (env_cfg v)));
         e = \<lparr>eng_data_dir = path, eng_memtable = MemTable_new, eng_level_sst_ids = [], eng_ssts = (\<lambda>_. None),
              eng_store = \<lparr>st_fs = fs, st_cache = cache, st_next_block = 0\<rparr>, eng_vlog = Some vl,
              eng_tran_manager = None, eng_next_sst_id = 0, eng_cur_max_level = 0\<rparr> in
     bindE (load_entries v entries e) (\<lambda>e.
       Inr (e\<lparr>eng_next_sst_id := eng_next_sst_id e + 1, eng_level_sst_ids := sort_levels (eng_level_sst_ids e)\<rparr>)))"

section \<open>Lookups\<close>

text \<open>
  A hit in a table: the pair and the transaction id that the iterator reports, or nothing when the
  value is empty. \<open>None\<close> as the outcome of a search means that it goes on, \<open>Some r\<close> that \<open>r\<close> is returned.
\<close>

definition sst_hit :: "sst_iter \<Rightarrow> store \<Rightarrow> query_result result" where
  "sst_hit it w =
     bindE (SstIterator_arrow it w) (\<lambda>(kv, it).
       if snd kv \<noteq> [] then bindE (SstIterator_get_tranc_id it) (\<lambda>t. Inr (Some (snd kv, t))) else Inr None)"

primrec l0_search ::
  "env \<Rightarrow> engine \<Rightarrow> string \<Rightarrow> u64 \<Rightarrow> u64 list \<Rightarrow> store \<Rightarrow> (query_result option \<times> store) result" where
  "l0_search v e key tranc_id [] w = Inr (None, w)"
| "l0_search v e key tranc_id (i # ids) w =
     bindE (sst_at i e) (\<lambda>s.
     bindE (SST_get (env_hash v) s key tranc_id w) (\<lambda>(it, w).
     bindE (SST_end (env_hash v) s w) (\<lambda>(stop, w).
       if \<not> SstIterator_eq it stop then bindE (sst_hit it w) (\<lambda>r. Inr (Some r, w))
       else l0_search v e key tranc_id ids w)))"

function level_search ::
  "env \<Rightarrow> engine \<Rightarrow> string \<Rightarrow> u64 \<Rightarrow> u64 list \<Rightarrow> nat \<Rightarrow> nat \<Rightarrow> store \<Rightarrow> (query_result option \<times> store) result" where
  "level_search v e key tranc_id ids left right w =
     (if left < right then
        let mid = left + (right - left) div 2 in
        bindE (sst_at (ids ! mid) e) (\<lambda>s.
          if sst_first_key s \<le> key \<and> key \<le> sst_last_key s then
            bindE (SST_get (env_hash v) s key tranc_id w) (\<lambda>(it, w).
            bindE (SstIterator_is_valid it) (\<lambda>ok.
              if ok then bindE (sst_hit it w) (\<lambda>r. Inr (Some r, w)) else Inr (None, w)))
          else if sst_last_key s < key then level_search v e key tranc_id ids (mid + 1) right w
          else level_search v e key tranc_id ids left mid w)
      else Inr (None, w))"
  by pat_completeness auto
termination
  by (relation "measure (\<lambda>(v, e, k, t, ids, l, r, w). r - l)") auto

declare level_search.simps [simp del]

text \<open>The loop over the levels from 1 on; reading a level with \<^verbatim>\<open>[]\<close> inserts it into the map.\<close>

primrec levels_search ::
  "env \<Rightarrow> string \<Rightarrow> u64 \<Rightarrow> nat list \<Rightarrow> engine \<Rightarrow> (query_result option \<times> engine) result" where
  "levels_search v key tranc_id [] e = Inr (None, e)"
| "levels_search v key tranc_id (level # levels) e =
     (let e = e\<lparr>eng_level_sst_ids := omap_touch level [] (eng_level_sst_ids e)\<rparr>;
          ids = omap_at level [] (eng_level_sst_ids e) in
      bindE (level_search v e key tranc_id ids 0 (length ids) (eng_store e)) (\<lambda>(r, w).
        let e = e\<lparr>eng_store := w\<rparr> in
        case r of Some x \<Rightarrow> Inr (Some x, e) | None \<Rightarrow> levels_search v key tranc_id levels e))"

text \<open>\<^verbatim>\<open>sst_get_\<close>, which is also what \<^verbatim>\<open>get\<close> does after the memtable.\<close>

definition LSMEngine_sst_get_unlocked :: "env \<Rightarrow> string \<Rightarrow> u64 \<Rightarrow> engine \<Rightarrow> (query_result \<times> engine) result" where
  "LSMEngine_sst_get_unlocked v key tranc_id e =
     (let e = e\<lparr>eng_level_sst_ids := omap_touch 0 [] (eng_level_sst_ids e)\<rparr> in
      bindE (l0_search v e key tranc_id (omap_at 0 [] (eng_level_sst_ids e)) (eng_store e)) (\<lambda>(r, w).
        let e = e\<lparr>eng_store := w\<rparr> in
        case r of
          Some x \<Rightarrow> Inr (x, e)
        | None \<Rightarrow>
            bindE (levels_search v key tranc_id [1..<Suc (eng_cur_max_level e)] e) (\<lambda>(r, e).
              case r of Some x \<Rightarrow> Inr (x, e) | None \<Rightarrow> Inr (None, e))))"

definition LSMEngine_get :: "env \<Rightarrow> string \<Rightarrow> u64 \<Rightarrow> engine \<Rightarrow> (query_result \<times> engine) result" where
  "LSMEngine_get v key tranc_id e =
     bindE (MemTable_get (eng_memtable e) key tranc_id) (\<lambda>mem_res.
     bindE (mt_iter_valid mem_res) (\<lambda>ok.
       if ok then
         bindE (mt_iter_value mem_res) (\<lambda>(val, t). Inr (if val \<noteq> [] then Some (val, t) else None, e))
       else LSMEngine_sst_get_unlocked v key tranc_id e))"

text \<open>The batch: every key is looked up in level 0 again, and in the deeper levels while it has no value.\<close>

primrec batch_l0 :: "env \<Rightarrow> u64 \<Rightarrow> u64 list \<Rightarrow> batch_result \<Rightarrow> engine \<Rightarrow> (batch_result \<times> engine) result" where
  "batch_l0 v tranc_id ids [] e = Inr ([], e)"
| "batch_l0 v tranc_id ids (kr # krs) e =
     bindE (l0_search v e (fst kr) tranc_id ids (eng_store e)) (\<lambda>(r, w).
     bindE (batch_l0 v tranc_id ids krs (e\<lparr>eng_store := w\<rparr>)) (\<lambda>(rest, e).
       Inr ((fst kr, case r of Some x \<Rightarrow> x | None \<Rightarrow> snd kr) # rest, e)))"

primrec batch_level :: "env \<Rightarrow> u64 \<Rightarrow> u64 list \<Rightarrow> batch_result \<Rightarrow> engine \<Rightarrow> (batch_result \<times> engine) result" where
  "batch_level v tranc_id ids [] e = Inr ([], e)"
| "batch_level v tranc_id ids (kr # krs) e =
     bindE (if snd kr \<noteq> None then Inr (None, eng_store e)
            else level_search v e (fst kr) tranc_id ids 0 (length ids) (eng_store e)) (\<lambda>(r, w).
     bindE (batch_level v tranc_id ids krs (e\<lparr>eng_store := w\<rparr>)) (\<lambda>(rest, e).
       Inr ((fst kr, case r of Some x \<Rightarrow> x | None \<Rightarrow> snd kr) # rest, e)))"

primrec batch_levels :: "env \<Rightarrow> u64 \<Rightarrow> nat list \<Rightarrow> batch_result \<Rightarrow> engine \<Rightarrow> (batch_result \<times> engine) result" where
  "batch_levels v tranc_id [] results e = Inr (results, e)"
| "batch_levels v tranc_id (level # levels) results e =
     (let e = e\<lparr>eng_level_sst_ids := omap_touch level [] (eng_level_sst_ids e)\<rparr> in
      bindE (batch_level v tranc_id (omap_at level [] (eng_level_sst_ids e)) results e) (\<lambda>(results, e).
        batch_levels v tranc_id levels results e))"

definition LSMEngine_get_batch :: "env \<Rightarrow> string list \<Rightarrow> u64 \<Rightarrow> engine \<Rightarrow> (batch_result \<times> engine) result" where
  "LSMEngine_get_batch v keys tranc_id e =
     bindE (MemTable_get_batch (eng_memtable e) keys tranc_id) (\<lambda>results.
       if \<not> list_ex (\<lambda>r. snd r = None) results then Inr (results, e)
       else
         let e = e\<lparr>eng_level_sst_ids := omap_touch 0 [] (eng_level_sst_ids e)\<rparr> in
         bindE (batch_l0 v tranc_id (omap_at 0 [] (eng_level_sst_ids e)) results e) (\<lambda>(results, e).
           batch_levels v tranc_id [1..<Suc (eng_cur_max_level e)] results e))"

section \<open>Compaction\<close>

text \<open>
  The loop of \<^verbatim>\<open>gen_sst_from_iter\<close>: the builder is written into a new table when the next version has
  another key and the finished blocks have reached the target size.
\<close>

definition finish_table ::
  "env \<Rightarrow> nat \<Rightarrow> sst_builder \<Rightarrow> engine \<Rightarrow> (sst \<times> engine) result" where
  "finish_table v target_level builder e =
     (let sid = eng_next_sst_id e; e = e\<lparr>eng_next_sst_id := eng_next_sst_id e + 1\<rparr> in
      bindE (SSTBuilder_build (env_hash v) sid (LSMEngine_get_sst_path sid target_level e) True
               (st_fs (eng_store e), builder)) (\<lambda>(fs, s).
        Inr (s, e\<lparr>eng_store := (eng_store e)\<lparr>st_fs := fs\<rparr>\<rparr>)))"

definition same_key_next :: "string \<Rightarrow> two_merge \<Rightarrow> store \<Rightarrow> (bool \<times> two_merge) result" where
  "same_key_next cur_key it w =
     bindE (TwoMergeIterator_is_valid it) (\<lambda>ok.
       if \<not> ok then Inr (False, it)
       else
         bindE (TwoMergeIterator_is_end it) (\<lambda>e.
           if e then Inr (False, it)
           else bindE (TwoMergeIterator_deref it w) (\<lambda>(kv, it). Inr (fst kv = cur_key, it))))"

primrec gen_loop ::
  "env \<Rightarrow> nat \<Rightarrow> u64 \<Rightarrow> nat \<Rightarrow> two_merge \<Rightarrow> sst_builder \<Rightarrow> sst list \<Rightarrow> engine \<Rightarrow>
     (sst list \<times> sst_builder \<times> engine) result" where
  "gen_loop v 0 target_sst_size target_level it builder new_ssts e = Inl No_return"
| "gen_loop v (Suc n) target_sst_size target_level it builder new_ssts e =
     bindE (TwoMergeIterator_is_valid it) (\<lambda>ok.
     bindE (if ok then TwoMergeIterator_is_end it else Inr True) (\<lambda>en.
       if en then Inr (new_ssts, builder, e)
       else
         bindE (TwoMergeIterator_deref it (eng_store e)) (\<lambda>(kv, it).
         bindE (TwoMergeIterator_get_tranc_id it) (\<lambda>t.
         bindE (SSTBuilder_add (env_hash v) (fst kv) (snd kv) t (st_fs (eng_store e), builder)) (\<lambda>(fs, builder).
         let e = e\<lparr>eng_store := (eng_store e)\<lparr>st_fs := fs\<rparr>\<rparr> in
         bindE (TwoMergeIterator_incr (env_hash v) (env_steps v) it (eng_store e)) (\<lambda>(it, w).
         let e = e\<lparr>eng_store := w\<rparr> in
         bindE (same_key_next (fst kv) it (eng_store e)) (\<lambda>(same, it).
           if \<not> same \<and> unat target_sst_size \<le> SSTBuilder_estimated_size builder then
             bindE (finish_table v target_level builder e) (\<lambda>(s, e).
               gen_loop v n target_sst_size target_level it (new_builder v e) (new_ssts @ [s]) e)
           else gen_loop v n target_sst_size target_level it builder new_ssts e)))))))"

definition LSMEngine_gen_sst_from_iter ::
  "env \<Rightarrow> two_merge \<Rightarrow> u64 \<Rightarrow> nat \<Rightarrow> engine \<Rightarrow> (sst list \<times> engine) result" where
  "LSMEngine_gen_sst_from_iter v it target_sst_size target_level e =
     bindE (gen_loop v (env_steps v) target_sst_size target_level it (new_builder v e) [] e) (\<lambda>(new_ssts, builder, e).
       if 0 < SSTBuilder_real_size builder then
         bindE (finish_table v target_level builder e) (\<lambda>(s, e). Inr (new_ssts @ [s], e))
       else Inr (new_ssts, e))"

text \<open>\<^verbatim>\<open>ssts[id]->begin(0, true)\<close> for every table of level 0.\<close>

primrec begin_all :: "env \<Rightarrow> u64 list \<Rightarrow> engine \<Rightarrow> (sst_iter list \<times> engine) result" where
  "begin_all v [] e = Inr ([], e)"
| "begin_all v (i # ids) e =
     bindE (sst_at i e) (\<lambda>s.
     bindE (SST_begin (env_hash v) s 0 True (eng_store e)) (\<lambda>(it, w).
     bindE (begin_all v ids (e\<lparr>eng_store := w\<rparr>)) (\<lambda>(its, e). Inr (it # its, e))))"

definition LSMEngine_full_l0_l1_compact ::
  "env \<Rightarrow> u64 list \<Rightarrow> u64 list \<Rightarrow> engine \<Rightarrow> (sst list \<times> engine) result" where
  "LSMEngine_full_l0_l1_compact v l0_ids l1_ids e =
     bindE (begin_all v l0_ids e) (\<lambda>(l0_iters, e).
     bindE (mapE (\<lambda>i. sst_at i e) l1_ids) (\<lambda>l1_ssts.
     bindE (merge_sst_iterator (env_hash v) (env_steps v) l0_iters True (eng_store e)) (\<lambda>((l0_begin, _), w).
     bindE (ConcactIterator_new (env_hash v) l1_ssts 0 True w) (\<lambda>(old_l1_begin, w).
     bindE (TwoMergeIterator_new (env_hash v) (env_steps v) (Heap_it l0_begin) (Concact_it old_l1_begin) 0 True w) (\<lambda>(it, w).
       let target = lsm_per_mem_size_limit (env_cfg v) * lsm_sst_level_ratio (env_cfg v) in
       if target < - (2 ^ 63) \<or> 2 ^ 63 \<le> target then Inl Undefined_behaviour
       else LSMEngine_gen_sst_from_iter v it (of_int target) 1 (e\<lparr>eng_store := w\<rparr>))))))"

definition LSMEngine_full_common_compact ::
  "env \<Rightarrow> u64 list \<Rightarrow> u64 list \<Rightarrow> nat \<Rightarrow> engine \<Rightarrow> (sst list \<times> engine) result" where
  "LSMEngine_full_common_compact v lx_ids ly_ids level_y e =
     bindE (mapE (\<lambda>i. sst_at i e) lx_ids) (\<lambda>lx_ssts.
     bindE (mapE (\<lambda>i. sst_at i e) ly_ids) (\<lambda>ly_ssts.
     bindE (ConcactIterator_new (env_hash v) lx_ssts 0 True (eng_store e)) (\<lambda>(old_lx_begin, w).
     bindE (ConcactIterator_new (env_hash v) ly_ssts 0 True w) (\<lambda>(old_ly_begin, w).
     bindE (TwoMergeIterator_new (env_hash v) (env_steps v) (Concact_it old_lx_begin) (Concact_it old_ly_begin) 0 True w) (\<lambda>(it, w).
       LSMEngine_gen_sst_from_iter v it (LSMEngine_get_sst_size v level_y) level_y (e\<lparr>eng_store := w\<rparr>))))))"

primrec drop_tables :: "u64 list \<Rightarrow> engine \<Rightarrow> engine result" where
  "drop_tables [] e = Inr e"
| "drop_tables (i # ids) e =
     bindE (sst_at i e) (\<lambda>s.
       drop_tables ids (e\<lparr>eng_store := (eng_store e)\<lparr>st_fs := SST_del_sst s (st_fs (eng_store e))\<rparr>,
                          eng_ssts := (eng_ssts e)(i := None)\<rparr>))"

definition add_table :: "nat \<Rightarrow> sst \<Rightarrow> engine \<Rightarrow> engine" where
  "add_table level s e =
     e\<lparr>eng_level_sst_ids := omap_put level (omap_at level [] (eng_level_sst_ids e) @ [sst_id s]) (eng_level_sst_ids e),
       eng_ssts := (eng_ssts e)(sst_id s \<mapsto> s)\<rparr>"

text \<open>The end of a compaction, after the new tables have been written.\<close>

definition replace_tables :: "nat \<Rightarrow> u64 list \<Rightarrow> sst list \<Rightarrow> engine \<Rightarrow> engine result" where
  "replace_tables src_level old_ids new_ssts e =
     bindE (drop_tables old_ids e) (\<lambda>e.
      let e = e\<lparr>eng_level_sst_ids := omap_put (src_level + 1) [] (omap_put src_level [] (eng_level_sst_ids e)),
                eng_cur_max_level := max (eng_cur_max_level e) (src_level + 1)\<rparr>;
          e = foldl (\<lambda>e s. add_table (src_level + 1) s e) e new_ssts in
      Inr (e\<lparr>eng_level_sst_ids :=
               omap_put (src_level + 1) (sort (omap_at (src_level + 1) [] (eng_level_sst_ids e))) (eng_level_sst_ids e)\<rparr>))"

definition merge_levels :: "env \<Rightarrow> nat \<Rightarrow> engine \<Rightarrow> engine result" where
  "merge_levels v src_level e =
     (let e = e\<lparr>eng_level_sst_ids := omap_touch (src_level + 1) [] (omap_touch src_level [] (eng_level_sst_ids e))\<rparr>;
          lx_ids = omap_at src_level [] (eng_level_sst_ids e);
          ly_ids = omap_at (src_level + 1) [] (eng_level_sst_ids e) in
      bindE (if src_level = 0 then LSMEngine_full_l0_l1_compact v lx_ids ly_ids e
             else LSMEngine_full_common_compact v lx_ids ly_ids (src_level + 1) e) (\<lambda>(new_ssts, e).
        replace_tables src_level (lx_ids @ ly_ids) new_ssts e))"

primrec LSMEngine_full_compact :: "env \<Rightarrow> nat \<Rightarrow> nat \<Rightarrow> engine \<Rightarrow> engine result" where
  "LSMEngine_full_compact v 0 src_level e = Inl No_return"
| "LSMEngine_full_compact v (Suc n) src_level e =
     (let e = e\<lparr>eng_level_sst_ids := omap_touch (src_level + 1) [] (eng_level_sst_ids e)\<rparr> in
      bindE (if level_ratio v \<le> of_nat (length (omap_at (src_level + 1) [] (eng_level_sst_ids e)))
             then LSMEngine_full_compact v n (src_level + 1) e else Inr e)
        (merge_levels v src_level))"

section \<open>Flushing and writing\<close>

definition add_flushed_ids :: "u64 list \<Rightarrow> engine \<Rightarrow> engine result" where
  "add_flushed_ids ids e =
     (if ids = [] then Inr e
      else case eng_tran_manager e of
             None \<Rightarrow> Inl Undefined_behaviour
           | Some tm \<Rightarrow>
               Inr (e\<lparr>eng_tran_manager := Some (foldl (\<lambda>tm i. TranManager_add_flushed_tranc_id i tm) tm ids)\<rparr>))"

definition compact_if_full :: "env \<Rightarrow> engine \<Rightarrow> engine result" where
  "compact_if_full v e =
     (case map_of (eng_level_sst_ids e) 0 of
        None \<Rightarrow> Inr e
      | Some ids \<Rightarrow> if level_ratio v \<le> of_nat (length ids) then LSMEngine_full_compact v (env_steps v) 0 e else Inr e)"

definition flush_oldest :: "env \<Rightarrow> engine \<Rightarrow> (u64 \<times> engine) result" where
  "flush_oldest v e =
     (let new_sst_id = eng_next_sst_id e;
          e = e\<lparr>eng_next_sst_id := eng_next_sst_id e + 1\<rparr> in
      bindE (MemTable_flush_last (env_hash v) (new_builder v e) (LSMEngine_get_sst_path new_sst_id 0 e) new_sst_id [] True
               (st_fs (eng_store e), eng_memtable e)) (\<lambda>(new_sst, flushed_tranc_ids, fs, m).
      case new_sst of
        None \<Rightarrow> Inl Undefined_behaviour
      | Some s \<Rightarrow>
          let e = e\<lparr>eng_store := (eng_store e)\<lparr>st_fs := fs\<rparr>, eng_memtable := m,
                    eng_ssts := (eng_ssts e)(new_sst_id \<mapsto> s),
                    eng_level_sst_ids := omap_put 0 (new_sst_id # omap_at 0 [] (eng_level_sst_ids e)) (eng_level_sst_ids e)\<rparr> in
          bindE (add_flushed_ids flushed_tranc_ids e) (\<lambda>e. Inr (snd (SST_get_tranc_id_range s), e))))"

definition LSMEngine_flush :: "env \<Rightarrow> engine \<Rightarrow> (u64 \<times> engine) result" where
  "LSMEngine_flush v e =
     (if MemTable_get_total_size (eng_memtable e) = 0 then Inr (0, e)
      else bindE (compact_if_full v e) (flush_oldest v))"

definition flush_if_full :: "env \<Rightarrow> engine \<Rightarrow> (u64 \<times> engine) result" where
  "flush_if_full v e =
     (if tol_mem_limit v \<le> MemTable_get_total_size (eng_memtable e) then LSMEngine_flush v e else Inr (0, e))"

definition LSMEngine_put :: "env \<Rightarrow> sl_random \<Rightarrow> string \<Rightarrow> string \<Rightarrow> u64 \<Rightarrow> engine \<Rightarrow> (u64 \<times> engine) result" where
  "LSMEngine_put v r key val tranc_id e =
     bindE (MemTable_put (per_mem_limit v) r key val tranc_id (eng_memtable e)) (\<lambda>m.
       flush_if_full v (e\<lparr>eng_memtable := m\<rparr>))"

definition LSMEngine_put_batch ::
  "env \<Rightarrow> (nat \<Rightarrow> sl_random) \<Rightarrow> (string \<times> string) list \<Rightarrow> u64 \<Rightarrow> engine \<Rightarrow> (u64 \<times> engine) result" where
  "LSMEngine_put_batch v r kvs tranc_id e =
     bindE (MemTable_put_batch (per_mem_limit v) r kvs tranc_id (eng_memtable e)) (\<lambda>m.
       flush_if_full v (e\<lparr>eng_memtable := m\<rparr>))"

definition LSMEngine_remove :: "env \<Rightarrow> sl_random \<Rightarrow> string \<Rightarrow> u64 \<Rightarrow> engine \<Rightarrow> (u64 \<times> engine) result" where
  "LSMEngine_remove v r key tranc_id e =
     bindE (MemTable_remove (per_mem_limit v) r key tranc_id (eng_memtable e)) (\<lambda>m.
       flush_if_full v (e\<lparr>eng_memtable := m\<rparr>))"

definition LSMEngine_remove_batch ::
  "env \<Rightarrow> (nat \<Rightarrow> sl_random) \<Rightarrow> string list \<Rightarrow> u64 \<Rightarrow> engine \<Rightarrow> (u64 \<times> engine) result" where
  "LSMEngine_remove_batch v r keys tranc_id e =
     bindE (MemTable_remove_batch (per_mem_limit v) r keys tranc_id (eng_memtable e)) (\<lambda>m.
       flush_if_full v (e\<lparr>eng_memtable := m\<rparr>))"

text \<open>\<open>entries\<close>: the regular files of the data directory.\<close>

definition LSMEngine_clear :: "string list \<Rightarrow> engine \<Rightarrow> engine result" where
  "LSMEngine_clear entries e =
     (let fs = foldl (\<lambda>fs p. fs_remove p fs) (st_fs (eng_store e)) entries;
          e = e\<lparr>eng_memtable := MemTable_clear (eng_memtable e), eng_level_sst_ids := [], eng_ssts := (\<lambda>_. None)\<rparr> in
      case eng_vlog e of
        None \<Rightarrow> Inr (e\<lparr>eng_store := (eng_store e)\<lparr>st_fs := fs\<rparr>\<rparr>)
      | Some vl \<Rightarrow>
          bindE (VLog_open (VLog_del_vlog fs vl) (eng_data_dir e @ ''/vlog.data'')) (\<lambda>(fs, vl).
            Inr (e\<lparr>eng_vlog := Some vl, eng_store := (eng_store e)\<lparr>st_fs := fs\<rparr>\<rparr>)))"

section \<open>Range queries\<close>

text \<open>The loop over the range that one table has for a predicate.\<close>

primrec collect_pred ::
  "env \<Rightarrow> nat \<Rightarrow> u64 \<Rightarrow> u64 \<Rightarrow> nat \<Rightarrow> sst_iter \<Rightarrow> sst_iter \<Rightarrow> search_item list \<Rightarrow> store \<Rightarrow> (search_item list \<times> store) result" where
  "collect_pred v 0 tranc_id sid sst_level it stop item_vec w = Inl No_return"
| "collect_pred v (Suc n) tranc_id sid sst_level it stop item_vec w =
     (if SstIterator_eq it stop then Inr (item_vec, w)
      else
        bindE (SstIterator_is_valid it) (\<lambda>ok.
          if \<not> ok then Inr (item_vec, w)
          else
            bindE (SstIterator_get_tranc_id it) (\<lambda>t.
            bindE (if tranc_id \<noteq> 0 \<and> tranc_id < t then Inr (item_vec, it)
                   else
                     bindE (SstIterator_key it) (\<lambda>(k, it).
                       if item_vec \<noteq> [] \<and> si_key (last item_vec) = k then Inr (item_vec, it)
                       else
                         bindE (SstIterator_value it w) (\<lambda>(x, it).
                           Inr (item_vec @ [\<lparr>si_key = k, si_value = x, si_tranc_id = t,
                             si_idx = as_int (- uint sid), si_level = as_int (int sst_level)\<rparr>], it)))) (\<lambda>(item_vec, it).
            bindE (SstIterator_incr (env_hash v) it w) (\<lambda>(it, w).
              collect_pred v n tranc_id sid sst_level it stop item_vec w)))))"

primrec collect_ids ::
  "env \<Rightarrow> u64 \<Rightarrow> (string \<Rightarrow> int) \<Rightarrow> nat \<Rightarrow> u64 list \<Rightarrow> search_item list \<Rightarrow> engine \<Rightarrow> (search_item list \<times> engine) result" where
  "collect_ids v tranc_id predicate level [] item_vec e = Inr (item_vec, e)"
| "collect_ids v tranc_id predicate level (i # ids) item_vec e =
     bindE (sst_at i e) (\<lambda>s.
     bindE (sst_iters_monotony_predicate (env_hash v) s tranc_id predicate (eng_store e)) (\<lambda>(res, w).
     bindE (case res of
              None \<Rightarrow> Inr (item_vec, w)
            | Some (it_begin, it_end) \<Rightarrow> collect_pred v (env_steps v) tranc_id i level it_begin it_end item_vec w) (\<lambda>(item_vec, w).
       collect_ids v tranc_id predicate level ids item_vec (e\<lparr>eng_store := w\<rparr>))))"

primrec collect_levels ::
  "env \<Rightarrow> u64 \<Rightarrow> (string \<Rightarrow> int) \<Rightarrow> (nat \<times> u64 list) list \<Rightarrow> search_item list \<Rightarrow> engine \<Rightarrow> (search_item list \<times> engine) result" where
  "collect_levels v tranc_id predicate [] item_vec e = Inr (item_vec, e)"
| "collect_levels v tranc_id predicate (lv # lvs) item_vec e =
     bindE (collect_ids v tranc_id predicate (fst lv) (snd lv) item_vec e) (\<lambda>(item_vec, e).
       collect_levels v tranc_id predicate lvs item_vec e)"

definition LSMEngine_lsm_iters_monotony_predicate ::
  "env \<Rightarrow> u64 \<Rightarrow> (string \<Rightarrow> int) \<Rightarrow> engine \<Rightarrow> ((two_merge \<times> two_merge) option \<times> engine) result" where
  "LSMEngine_lsm_iters_monotony_predicate v tranc_id predicate e =
     bindE (MemTable_iters_monotony_predicate (eng_memtable e) tranc_id predicate) (\<lambda>mem_result.
     bindE (collect_levels v tranc_id predicate (eng_level_sst_ids e) [] e) (\<lambda>(item_vec, e).
     bindE (HeapIterator_new item_vec tranc_id True False) (\<lambda>l0_iter.
       if mem_result = None \<and> item_vec = [] then Inr (None, e)
       else
         let mem_start = (case mem_result of Some (st, en) \<Rightarrow> st | None \<Rightarrow> HeapIterator_default True False) in
         bindE (TwoMergeIterator_new (env_hash v) (env_steps v) (Heap_it mem_start) (Heap_it l0_iter) tranc_id False (eng_store e)) (\<lambda>(start, w).
           Inr (Some (start, TwoMergeIterator_default), e\<lparr>eng_store := w\<rparr>)))))"

end
