(* ===== verification/EngineLookup.thy ===== *)
theory EngineLookup
  imports Engine
begin

text \<open>
  What the engine holds and what a lookup finds. The tables of a level are given by the map \<open>tb\<close> from
  table numbers to tables with their contents; \<open>eng_ok\<close> relates the engine to them. \<open>disk_versions\<close> lists
  the versions on disk in the order in which the engine consults them: level 0 from its newest table
  on, then the deeper levels. A lookup answers with the first version of the key in that order that
  the reader may see, after those of the memtable.
\<close>

section \<open>The contents of the engine\<close>

definition table_entries :: "table \<Rightarrow> entry list" where
  "table_entries t = table_versions True 0 t"

definition table_before :: "table \<Rightarrow> table \<Rightarrow> bool" where
  "table_before t u \<longleftrightarrow> (\<forall>x \<in> set (table_entries t). \<forall>y \<in> set (table_entries u). ekey x < ekey y)"

definition level_ids :: "engine \<Rightarrow> nat \<Rightarrow> u64 list" where
  "level_ids e l = omap_at l [] (eng_level_sst_ids e)"

definition live_tables :: "(u64 \<Rightarrow> table) \<Rightarrow> engine \<Rightarrow> table set" where
  "live_tables tb e = {tb i | i l. i \<in> set (level_ids e l)}"

definition eng_ok :: "env \<Rightarrow> (cache_key \<Rightarrow> block option) \<Rightarrow> (u64 \<Rightarrow> table) \<Rightarrow> nat \<Rightarrow> engine \<Rightarrow> bool" where
  "eng_ok v disk tb n e \<longleftrightarrow>
     omap_sorted (eng_level_sst_ids e) \<and>
     (\<forall>l. \<forall>i \<in> set (level_ids e l). eng_ssts e i = Some (fst (tb i))) \<and>
     tables_ok (env_hash v) disk (live_tables tb e) n (eng_store e) \<and>
     (\<forall>l > 0. sorted_wrt (\<lambda>i j. table_before (tb i) (tb j)) (level_ids e l)) \<and>
     (\<forall>l. level_ids e l \<noteq> [] \<longrightarrow> l \<le> eng_cur_max_level e)"

definition level_entries :: "(u64 \<Rightarrow> table) \<Rightarrow> engine \<Rightarrow> nat \<Rightarrow> entry list" where
  "level_entries tb e l = concat (map (\<lambda>i. table_entries (tb i)) (level_ids e l))"

definition disk_versions :: "(u64 \<Rightarrow> table) \<Rightarrow> engine \<Rightarrow> entry list" where
  "disk_versions tb e = concat (map (level_entries tb e) [0..<Suc (eng_cur_max_level e)])"

text \<open>What a lookup returns for the version it finds in a table: the iterator reports the reader's id.\<close>

definition answer :: "u64 \<Rightarrow> entry \<Rightarrow> query_result" where
  "answer tid x = (if evalue x \<noteq> [] then Some (evalue x, tid) else None)"

section \<open>One table\<close>

lemma table_entries_simp: "table_entries (s, ps, rv) = map (read_version rv) (all_entries ps)"
  by (simp add: table_entries_def table_versions_def block_versions_def visible_def)

lemma version_of_read: "version_of key tid (map (read_version rv) es) = map_option (read_version rv) (version_of key tid es)"
  by (induction es) (auto simp: version_of_def read_version_def visible_def)

lemma catchE_Inr: "catchE m d = Inr y \<Longrightarrow> m = Inr y \<or> y = d"
  by (auto simp: catchE_def split: sum.splits error.splits)

lemma seek_block_options: "SstIterator_seek_block h s key it w = Inr (it', w') \<Longrightarrow> same_options it it'"
  by (auto simp: SstIterator_seek_block_def bindE_eq_Inr same_options_def split: if_splits prod.splits)

lemma seek_options: "SstIterator_seek h key it w = Inr (it', w') \<Longrightarrow> same_options it it'"
  by (auto simp: SstIterator_seek_def bindE_eq_Inr same_options_def Let_def split: if_splits option.splits
      dest!: catchE_Inr seek_block_options)

lemma SST_get_tranc:
  assumes "SST_get h s key tid w = Inr (it, w')" and "m_block_it it \<noteq> None"
  shows "m_keep_all_versions it = False \<and> m_max_tranc_id it = tid"
proof -
  have "SST_end h s w \<noteq> Inr (it, w')"
    using assms(2) by (auto simp: SST_end_def bindE_eq_Inr)
  then have "SstIterator_new_key h (Some s) key tid False w = Inr (it, w')"
    using assms(1) by (auto simp: SST_get_def bindE_eq_Inr split: if_splits)
  then show ?thesis
    by (auto simp: SstIterator_new_key_def same_options_def SstIterator_empty_def dest!: seek_options)
qed

text \<open>What a lookup in one table answers: the iterator at the version, or the end iterator of the table.\<close>

definition lookup_shows :: "sst \<Rightarrow> u64 \<Rightarrow> filesys \<Rightarrow> sst_iter \<Rightarrow> entry option \<Rightarrow> bool" where
  "lookup_shows s tid fs it x =
     (case x of
        None \<Rightarrow> m_block_it it = None \<and> m_sst it = Some s \<and> m_block_idx it = int (SST_num_blocks s) \<and> SstIterator_is_valid it = Inr False
      | Some x \<Rightarrow> m_block_it it \<noteq> None \<and> SstIterator_is_valid it = Inr True \<and>
          (\<forall>w. st_fs w = fs \<longrightarrow> sst_hit it w = Inr (answer tid x)))"

lemma SST_get_table:
  assumes env: "sst_env h s ps disk rv w" and st: "store_ok disk n w" and room: "n + 2 < 2 ^ 64"
  shows "\<exists>it w'. SST_get h s key tid w = Inr (it, w') \<and> st_fs w' = st_fs w \<and> store_ok disk (n + 2) w' \<and>
    lookup_shows s tid (st_fs w) it (version_of key tid (table_entries (s, ps, rv)))"
proof -
  obtain it w' where g: "SST_get h s key tid w = Inr (it, w')" "st_fs w' = st_fs w" "store_ok disk (n + 2) w'"
    "shows_version s rv it w' (version_of key tid (all_entries ps))"
    using SST_get_ok [OF env st room] by blast
  show ?thesis
  proof (cases "version_of key tid (all_entries ps)")
    case None
    with g show ?thesis
      by (intro exI [of _ it] exI [of _ w'])
        (auto simp: table_entries_simp version_of_read shows_version_def SstIterator_is_end_def lookup_shows_def)
  next
    case (Some x)
    then obtain it' where d: "SstIterator_deref it w' = Inr (read_pair_of rv x, it')" "SstIterator_is_valid it = Inr True"
      "m_cached_value it = None" "m_sst it = Some s" "\<not> SstIterator_is_end it"
      using g(4) by (auto simp: shows_version_def)
    then obtain bi where bi: "m_block_it it = Some bi" by (auto simp: SstIterator_is_end_def)
    have opt: "m_keep_all_versions it = False" "m_max_tranc_id it = tid"
      using SST_get_tranc [OF g(1)] bi by auto
    have e: "BlockIterator_is_end bi = Inr False"
      using d(2) bi by (auto simp: SstIterator_is_valid_def bindE_eq_Inr split: if_splits)
    have hit: "sst_hit it w2 = Inr (answer tid (read_version rv x))" if "st_fs w2 = st_fs w" for w2
    proof -
      have fs: "st_fs w2 = st_fs w'" using that g(2) by simp
      have "SstIterator_deref it w2 = SstIterator_deref it w'"
        unfolding SstIterator_deref_def fs ..
      then have "SstIterator_arrow it w2 = Inr (read_pair_of rv x, it'\<lparr>m_cached_value := Some (read_pair_of rv x)\<rparr>)"
        using d bi e by (simp add: SstIterator_arrow_def SstIterator_update_current_def)
      moreover have "SstIterator_get_tranc_id (it'\<lparr>m_cached_value := Some (read_pair_of rv x)\<rparr>) = Inr tid"
        using deref_same_options [OF d(1)] opt
        by (auto simp: SstIterator_get_tranc_id_def same_options_def split: option.split)
      ultimately show ?thesis
        by (simp add: sst_hit_def answer_def read_pair_of_def read_version_def)
    qed
    with g(1-3) d(2) bi Some show ?thesis
      by (intro exI [of _ it] exI [of _ w']) (simp add: table_entries_simp version_of_read lookup_shows_def)
  qed
qed

section \<open>Level 0\<close>

lemma l0_search_ok:
  assumes "tables_ok (env_hash v) disk T n w" and "\<forall>i \<in> set ids. eng_ssts e i = Some (fst (tb i)) \<and> tb i \<in> T"
    and "n + 4 * length ids < 2 ^ 64"
  shows "\<exists>w' n'. l0_search v e key tid ids w =
      Inr (map_option (answer tid) (version_of key tid (concat (map (\<lambda>i. table_entries (tb i)) ids))), w') \<and>
    st_fs w' = st_fs w \<and> tables_ok (env_hash v) disk T n' w' \<and> n' \<le> n + 4 * length ids"
  using assms
proof (induction ids arbitrary: n w)
  case Nil
  then show ?case by (auto simp: version_of_def)
next
  case (Cons i ids)
  obtain s ps rv where t: "tb i = (s, ps, rv)" by (cases "tb i") auto
  have env: "sst_env (env_hash v) s ps disk rv w" and st: "store_ok disk n w" and at: "sst_at i e = Inr s"
    using Cons.prems t by (auto simp: tables_ok_def sst_at_def)
  have room: "n + 2 < 2 ^ 64" using Cons.prems(3) by simp
  obtain it w1 where g: "SST_get (env_hash v) s key tid w = Inr (it, w1)" "st_fs w1 = st_fs w" "store_ok disk (n + 2) w1"
    "lookup_shows s tid (st_fs w) it (version_of key tid (table_entries (s, ps, rv)))"
    using SST_get_table [OF env st room] by blast
  have repr: "sst_repr (env_hash v) (st_fs w1) s ps" "on_disk disk s ps"
    using env g(2) by (simp_all add: sst_env_def)
  obtain stop w2 where en: "SST_end (env_hash v) s w1 = Inr (stop, w2)" "m_block_it stop = None" "m_sst stop = Some s"
    "m_block_idx stop = int (SST_num_blocks s)" "st_fs w2 = st_fs w1" "store_ok disk (n + 2 + 2) w2"
    using SST_end_ok [OF repr g(3)] Cons.prems(3) by auto
  have fs2: "st_fs w2 = st_fs w" using en(5) g(2) by simp
  have ok2: "tables_ok (env_hash v) disk T (n + 4) w2"
    using tables_ok_step [OF Cons.prems(1) fs2 en(6)] by (simp add: numeral_eq_Suc)
  show ?case
  proof (cases "version_of key tid (table_entries (s, ps, rv))")
    case None
    then have "SstIterator_eq it stop" using g(4) en by (simp add: SstIterator_eq_def lookup_shows_def)
    moreover obtain w' n' where "l0_search v e key tid ids w2 =
        Inr (map_option (answer tid) (version_of key tid (concat (map (\<lambda>i. table_entries (tb i)) ids))), w')"
      "st_fs w' = st_fs w2" "tables_ok (env_hash v) disk T n' w'" "n' \<le> (n + 4) + 4 * length ids"
      using Cons.IH [OF ok2] Cons.prems(2,3) by auto
    ultimately show ?thesis
      using at g(1) en(1) None t fs2 by (intro exI [of _ w'] exI [of _ n']) (simp add: version_of_append)
  next
    case (Some x)
    then have "\<not> SstIterator_eq it stop" "sst_hit it w2 = Inr (answer tid x)"
      using g(4) en fs2 by (auto simp: SstIterator_eq_def lookup_shows_def split: option.split)
    then show ?thesis
      using at g(1) en(1) Some t fs2 ok2 by (intro exI [of _ w2] exI [of _ "n + 4"]) (simp add: version_of_append)
  qed
qed

section \<open>The deeper levels\<close>

lemma table_key_range:
  assumes "sst_env h s ps disk rv w"
  shows "table_entries (s, ps, rv) \<noteq> []" "\<forall>x \<in> set (table_entries (s, ps, rv)). sst_first_key s \<le> ekey x \<and> ekey x \<le> sst_last_key s"
    "\<exists>x \<in> set (table_entries (s, ps, rv)). ekey x = sst_first_key s" "\<exists>x \<in> set (table_entries (s, ps, rv)). ekey x = sst_last_key s"
proof -
  have repr: "sst_repr h (st_fs w) s ps" using assms by (simp add: sst_env_def)
  have ends: "sst_first_key s = ekey (hd (all_entries ps))" "sst_last_key s = ekey (last (all_entries ps))"
    using repr by (auto simp: sst_repr_def)
  note ne = all_entries_ne [OF repr]
  show "table_entries (s, ps, rv) \<noteq> []" using ne by (simp add: table_entries_simp)
  show "\<forall>x \<in> set (table_entries (s, ps, rv)). sst_first_key s \<le> ekey x \<and> ekey x \<le> sst_last_key s"
    using sorted_entries_bounds [OF ne(2)] ends by (auto simp: table_entries_simp read_version_def)
  show "\<exists>x \<in> set (table_entries (s, ps, rv)). ekey x = sst_first_key s" "\<exists>x \<in> set (table_entries (s, ps, rv)). ekey x = sst_last_key s"
    using ne(1) ends by (auto simp: table_entries_simp read_version_def)
qed

lemma version_of_concat_one:
  assumes "m < length tss" and "\<forall>j < length tss. j \<noteq> m \<longrightarrow> key \<notin> ekey ` set (tss ! j)"
  shows "version_of key tid (concat tss) = version_of key tid (tss ! m)"
proof -
  have nil: "version_of key tid (concat us) = None" if "\<forall>u \<in> set us. key \<notin> ekey ` set u" for us
    using that by (intro version_of_nowhere) auto
  have "concat tss = concat (take m tss) @ tss ! m @ concat (drop (Suc m) tss)"
    using assms(1) by (metis append_take_drop_id Cons_nth_drop_Suc concat.simps(2) concat_append)
  moreover have "\<forall>u \<in> set (take m tss). key \<notin> ekey ` set u"
  proof
    fix u assume "u \<in> set (take m tss)"
    then obtain j where "j < m" "u = tss ! j" by (auto simp: in_set_conv_nth)
    with assms show "key \<notin> ekey ` set u" by auto
  qed
  moreover have "\<forall>u \<in> set (drop (Suc m) tss). key \<notin> ekey ` set u"
  proof
    fix u assume "u \<in> set (drop (Suc m) tss)"
    then obtain j where "j < length tss - Suc m" "u = tss ! (Suc m + j)" by (auto simp: in_set_conv_nth)
    with assms show "key \<notin> ekey ` set u" by auto
  qed
  ultimately show ?thesis
    by (simp add: version_of_append nil split: option.split)
qed

text \<open>The tables below \<open>left\<close> end before the key and those from \<open>right\<close> on start after it.\<close>

lemma level_search_ok:
  assumes "tables_ok (env_hash v) disk T n w" and "\<forall>i \<in> set ids. eng_ssts e i = Some (fst (tb i)) \<and> tb i \<in> T"
    and "sorted_wrt (\<lambda>i j. table_before (tb i) (tb j)) ids" and "n + 2 < 2 ^ 64"
    and "l \<le> r" "r \<le> length ids"
    and "\<forall>j < l. \<forall>x \<in> set (table_entries (tb (ids ! j))). ekey x < key"
    and "\<forall>j < length ids. r \<le> j \<longrightarrow> (\<forall>x \<in> set (table_entries (tb (ids ! j))). key < ekey x)"
  shows "\<exists>w' n'. level_search v e key tid ids l r w =
      Inr (map_option (answer tid) (version_of key tid (concat (map (\<lambda>i. table_entries (tb i)) ids))), w') \<and>
    st_fs w' = st_fs w \<and> tables_ok (env_hash v) disk T n' w' \<and> n' \<le> n + 2"
  using assms(5-8)
proof (induction "r - l" arbitrary: l r rule: less_induct)
  case less
  let ?tss = "map (\<lambda>i. table_entries (tb i)) ids"
  show ?case
  proof (cases "l < r")
    case False
    have none: "key \<notin> ekey ` set (table_entries (tb i))" if i: "i \<in> set ids" for i
    proof -
      obtain j where j: "j < length ids" "i = ids ! j" using i by (auto simp: in_set_conv_nth)
      show ?thesis
      proof (cases "j < l")
        case True
        with less.prems(3) j(2) show ?thesis by (metis image_iff less_irrefl)
      next
        case out: False
        with False have "r \<le> j" by simp
        with less.prems(4) j show ?thesis by (metis image_iff less_irrefl)
      qed
    qed
    then have "version_of key tid (concat ?tss) = None" by (intro version_of_nowhere) auto
    with False assms(1) show ?thesis
      by (intro exI [of _ w] exI [of _ n]) (simp add: level_search.simps)
  next
    case True
    define m where "m = l + (r - l) div 2"
    have m: "l \<le> m" "m < r" "m < length ids" using True less.prems(2) by (auto simp: m_def)
    obtain s ps rv where t: "tb (ids ! m) = (s, ps, rv)" by (cases "tb (ids ! m)") auto
    have "eng_ssts e (ids ! m) = Some (fst (tb (ids ! m))) \<and> tb (ids ! m) \<in> T"
      using assms(2) m(3) by simp
    then have inT: "(s, ps, rv) \<in> T" "eng_ssts e (ids ! m) = Some s"
      using t by simp_all
    note env = table_env [OF assms(1) inT(1)]
    note rng = table_key_range [OF env]
    have before: "\<forall>x \<in> set (table_entries (tb (ids ! j))). ekey x < sst_first_key s" if "j < m" for j
    proof -
      have "table_before (tb (ids ! j)) (s, ps, rv)" using sorted_wrt_nth_less [OF assms(3) that m(3)] t by simp
      with rng(3) show ?thesis unfolding table_before_def by metis
    qed
    have after: "\<forall>x \<in> set (table_entries (tb (ids ! j))). sst_last_key s < ekey x" if "m < j" "j < length ids" for j
    proof -
      have "table_before (s, ps, rv) (tb (ids ! j))" using sorted_wrt_nth_less [OF assms(3) that] t by simp
      with rng(4) show ?thesis unfolding table_before_def by metis
    qed
    have at: "sst_at (ids ! m) e = Inr s" using inT(2) by (simp add: sst_at_def)
    note step = level_search.simps [of v e key tid ids l r w] m_def [symmetric] at Let_def bindE_simps True if_True
    show ?thesis
    proof (cases "sst_first_key s \<le> key \<and> key \<le> sst_last_key s")
      case hit: True
      have "version_of key tid (concat ?tss) = version_of key tid (?tss ! m)"
      proof (intro version_of_concat_one allI impI)
        show "m < length ?tss" using m(3) by simp
        fix j assume "j < length ?tss" "j \<noteq> m"
        with before [of j] after [of j] hit show "key \<notin> ekey ` set (?tss ! j)"
          by (cases "j < m") force+
      qed
      then have same: "version_of key tid (concat ?tss) = version_of key tid (table_entries (s, ps, rv))"
        using m(3) t by simp
      have st: "store_ok disk n w" using assms(1) by (simp add: tables_ok_def)
      obtain it w1 where g: "SST_get (env_hash v) s key tid w = Inr (it, w1)" "st_fs w1 = st_fs w" "store_ok disk (n + 2) w1"
        "lookup_shows s tid (st_fs w) it (version_of key tid (table_entries (s, ps, rv)))"
        using SST_get_table [OF env st assms(4)] by blast
      have "level_search v e key tid ids l r w =
          Inr (map_option (answer tid) (version_of key tid (concat ?tss)), w1)"
        using g hit by (cases "version_of key tid (table_entries (s, ps, rv))") (simp_all add: step same lookup_shows_def)
      with g(2) tables_ok_step [OF assms(1) g(2,3)] show ?thesis by blast
    next
      case miss: False
      show ?thesis
      proof (cases "sst_last_key s < key")
        case low: True
        have "\<forall>j < Suc m. \<forall>x \<in> set (table_entries (tb (ids ! j))). ekey x < key"
        proof (intro allI impI)
          fix j assume "j < Suc m"
          then consider "j < m" | "j = m" by linarith
          then show "\<forall>x \<in> set (table_entries (tb (ids ! j))). ekey x < key"
          proof cases
            case 1
            have "sst_first_key s < key" using rng(2,3) low by (metis le_less_trans)
            with before [OF 1] show ?thesis by (metis less_trans)
          next
            case 2
            with rng(2) low t show ?thesis by (metis le_less_trans)
          qed
        qed
        with less.hyps [of r "Suc m"] m less.prems
        have "\<exists>w' n'. level_search v e key tid ids (Suc m) r w =
            Inr (map_option (answer tid) (version_of key tid (concat ?tss)), w') \<and>
          st_fs w' = st_fs w \<and> tables_ok (env_hash v) disk T n' w' \<and> n' \<le> n + 2" by simp
        moreover have "level_search v e key tid ids l r w = level_search v e key tid ids (Suc m) r w"
          using low miss by (auto simp: step)
        ultimately show ?thesis by simp
      next
        case False
        then have high: "key < sst_first_key s" using miss by auto
        have "\<forall>j < length ids. m \<le> j \<longrightarrow> (\<forall>x \<in> set (table_entries (tb (ids ! j))). key < ekey x)"
        proof (intro allI impI)
          fix j assume j: "j < length ids" "m \<le> j"
          then consider "m < j" | "j = m" by linarith
          then show "\<forall>x \<in> set (table_entries (tb (ids ! j))). key < ekey x"
          proof cases
            case 1
            have "key < sst_last_key s" using rng(2,3) high by (metis less_le_trans)
            with after [OF 1 j(1)] show ?thesis by (metis less_trans)
          next
            case 2
            with rng(2) high t show ?thesis by (metis less_le_trans)
          qed
        qed
        with less.hyps [of m l] m less.prems
        have "\<exists>w' n'. level_search v e key tid ids l m w =
            Inr (map_option (answer tid) (version_of key tid (concat ?tss)), w') \<and>
          st_fs w' = st_fs w \<and> tables_ok (env_hash v) disk T n' w' \<and> n' \<le> n + 2" by simp
        moreover have "level_search v e key tid ids l r w = level_search v e key tid ids l m w"
          using False miss by (auto simp: step)
        ultimately show ?thesis by simp
      qed
    qed
  qed
qed

section \<open>The whole engine\<close>

lemma omap_at_touch [simp]: "omap_sorted m \<Longrightarrow> omap_at l [] (omap_touch k [] m) = omap_at l [] m"
  by (auto simp: omap_at_def omap_touch_def)

lemma omap_touch_sorted [simp]: "omap_sorted m \<Longrightarrow> omap_sorted (omap_touch k d m)"
  by (auto simp: omap_touch_def)

text \<open>A lookup changes the store and may insert empty levels into the map of levels.\<close>

definition read_only :: "engine \<Rightarrow> engine \<Rightarrow> bool" where
  "read_only e e' \<longleftrightarrow>
     (\<forall>l. level_ids e' l = level_ids e l) \<and> omap_sorted (eng_level_sst_ids e') \<and>
     eng_data_dir e' = eng_data_dir e \<and> eng_memtable e' = eng_memtable e \<and> eng_ssts e' = eng_ssts e \<and>
     st_fs (eng_store e') = st_fs (eng_store e) \<and> eng_vlog e' = eng_vlog e \<and> eng_tran_manager e' = eng_tran_manager e \<and>
     eng_next_sst_id e' = eng_next_sst_id e \<and> eng_cur_max_level e' = eng_cur_max_level e"

lemma read_only_trans: "read_only a b \<Longrightarrow> read_only b c \<Longrightarrow> read_only a c"
  by (simp add: read_only_def)

lemma read_only_touch:
  assumes "omap_sorted (eng_level_sst_ids e)" and "st_fs w = st_fs (eng_store e)"
  shows "read_only e (e\<lparr>eng_level_sst_ids := omap_touch l [] (eng_level_sst_ids e), eng_store := w\<rparr>)"
  using assms by (simp add: read_only_def level_ids_def)

lemma eng_ok_read_only:
  assumes "eng_ok v disk tb n e" and "read_only e e'" and "tables_ok (env_hash v) disk (live_tables tb e) n' (eng_store e')"
  shows "eng_ok v disk tb n' e'" and "disk_versions tb e' = disk_versions tb e"
proof -
  show "eng_ok v disk tb n' e'"
    using assms by (simp add: eng_ok_def read_only_def live_tables_def)
  have "level_entries tb e' = level_entries tb e" "eng_cur_max_level e' = eng_cur_max_level e"
    using assms(2) by (auto simp: read_only_def level_entries_def)
  then show "disk_versions tb e' = disk_versions tb e" by (simp add: disk_versions_def)
qed

lemma level_tables:
  assumes "eng_ok v disk tb n e"
  shows "\<forall>i \<in> set (level_ids e l). eng_ssts e i = Some (fst (tb i)) \<and> tb i \<in> live_tables tb e"
  using assms by (auto simp: eng_ok_def live_tables_def)

lemma disk_versions_split:
  "disk_versions tb e = level_entries tb e 0 @ concat (map (level_entries tb e) [1..<Suc (eng_cur_max_level e)])"
  by (simp add: disk_versions_def upt_conv_Cons del: upt_Suc)

lemma levels_search_ok:
  assumes "eng_ok v disk tb n e" and "n + 2 * length ls < 2 ^ 64" and "\<forall>l \<in> set ls. 0 < l"
  shows "\<exists>e' n'. levels_search v key tid ls e =
      Inr (map_option (answer tid) (version_of key tid (concat (map (level_entries tb e) ls))), e') \<and>
    eng_ok v disk tb n' e' \<and> read_only e e' \<and> n' \<le> n + 2 * length ls"
  using assms
proof (induction ls arbitrary: e n)
  case Nil
  then show ?case by (auto simp: version_of_def read_only_def eng_ok_def)
next
  case (Cons l ls)
  let ?e1 = "e\<lparr>eng_level_sst_ids := omap_touch l [] (eng_level_sst_ids e)\<rparr>"
  have srt: "omap_sorted (eng_level_sst_ids e)" and ok: "tables_ok (env_hash v) disk (live_tables tb e) n (eng_store e)"
    and asc: "sorted_wrt (\<lambda>i j. table_before (tb i) (tb j)) (level_ids e l)"
    using Cons.prems(1,3) by (auto simp: eng_ok_def)
  have room: "n + 2 < 2 ^ 64" using Cons.prems(2) by simp
  have tabs: "\<forall>i \<in> set (level_ids e l). eng_ssts ?e1 i = Some (fst (tb i)) \<and> tb i \<in> live_tables tb e"
    using level_tables [OF Cons.prems(1)] by simp
  have ids: "omap_at l [] (eng_level_sst_ids ?e1) = level_ids e l" using srt by (simp add: level_ids_def)
  obtain w1 n1 where s: "level_search v ?e1 key tid (level_ids e l) 0 (length (level_ids e l)) (eng_store e) =
      Inr (map_option (answer tid) (version_of key tid (level_entries tb e l)), w1)"
    "st_fs w1 = st_fs (eng_store e)" "tables_ok (env_hash v) disk (live_tables tb e) n1 w1" "n1 \<le> n + 2"
    using level_search_ok [OF ok tabs asc room, of 0 "length (level_ids e l)" key tid]
    unfolding level_entries_def by auto
  let ?e2 = "?e1\<lparr>eng_store := w1\<rparr>"
  have ro: "read_only e ?e2" using read_only_touch [OF srt s(2), of l] by simp
  have ok2: "eng_ok v disk tb n1 ?e2" using eng_ok_read_only(1) [OF Cons.prems(1) ro] s(3) by simp
  have run: "levels_search v key tid (l # ls) e =
      (case version_of key tid (level_entries tb e l) of
         Some x \<Rightarrow> Inr (Some (answer tid x), ?e2) | None \<Rightarrow> levels_search v key tid ls ?e2)"
    using s(1) ids by (simp add: Let_def split: option.split)
  have same: "level_entries tb ?e2 = level_entries tb e"
    using ro by (auto simp: read_only_def level_entries_def)
  show ?case
  proof (cases "version_of key tid (level_entries tb e l)")
    case None
    obtain e' n' where "levels_search v key tid ls ?e2 =
        Inr (map_option (answer tid) (version_of key tid (concat (map (level_entries tb e) ls))), e')"
      "eng_ok v disk tb n' e'" "read_only ?e2 e'" "n' \<le> n1 + 2 * length ls"
      using Cons.IH [OF ok2] Cons.prems(2,3) s(4) unfolding same by auto
    with run None s(4) read_only_trans [OF ro] show ?thesis
      by (intro exI [of _ e'] exI [of _ n']) (simp add: version_of_append)
  next
    case (Some x)
    with run s(4) ro ok2 show ?thesis
      by (intro exI [of _ ?e2] exI [of _ n1]) (simp add: version_of_append)
  qed
qed

lemma sst_get_ok:
  assumes ok: "eng_ok v disk tb n e" and room: "n + 4 * length (level_ids e 0) + 2 * eng_cur_max_level e < 2 ^ 64"
  shows "\<exists>e' n'. LSMEngine_sst_get_unlocked v key tid e =
      Inr (Option.bind (version_of key tid (disk_versions tb e)) (answer tid), e') \<and>
    eng_ok v disk tb n' e' \<and> read_only e e' \<and> n' \<le> n + 4 * length (level_ids e 0) + 2 * eng_cur_max_level e"
proof -
  define ls where "ls = [1..<Suc (eng_cur_max_level e)]"
  have ls: "length ls = eng_cur_max_level e" "\<forall>l \<in> set ls. 0 < l" by (auto simp: ls_def)
  let ?e1 = "e\<lparr>eng_level_sst_ids := omap_touch 0 [] (eng_level_sst_ids e)\<rparr>"
  have srt: "omap_sorted (eng_level_sst_ids e)" and t: "tables_ok (env_hash v) disk (live_tables tb e) n (eng_store e)"
    using ok by (auto simp: eng_ok_def)
  have tabs: "\<forall>i \<in> set (level_ids e 0). eng_ssts ?e1 i = Some (fst (tb i)) \<and> tb i \<in> live_tables tb e"
    using level_tables [OF ok] by simp
  have ids: "omap_at 0 [] (eng_level_sst_ids ?e1) = level_ids e 0" using srt by (simp add: level_ids_def)
  obtain w1 n1 where s: "l0_search v ?e1 key tid (level_ids e 0) (eng_store e) =
      Inr (map_option (answer tid) (version_of key tid (level_entries tb e 0)), w1)"
    "st_fs w1 = st_fs (eng_store e)" "tables_ok (env_hash v) disk (live_tables tb e) n1 w1" "n1 \<le> n + 4 * length (level_ids e 0)"
    using l0_search_ok [OF t tabs, of key tid] room unfolding level_entries_def by auto
  let ?e2 = "?e1\<lparr>eng_store := w1\<rparr>"
  have ro: "read_only e ?e2" using read_only_touch [OF srt s(2), of 0] by simp
  have ok2: "eng_ok v disk tb n1 ?e2" using eng_ok_read_only(1) [OF ok ro] s(3) by simp
  have split: "disk_versions tb e = level_entries tb e 0 @ concat (map (level_entries tb e) ls)"
    by (simp only: disk_versions_split ls_def)
  have same: "level_entries tb ?e2 = level_entries tb e"
    using ro by (auto simp: read_only_def level_entries_def)
  obtain e' n' where d: "levels_search v key tid ls ?e2 =
      Inr (map_option (answer tid) (version_of key tid (concat (map (level_entries tb e) ls))), e')"
    "eng_ok v disk tb n' e'" "read_only ?e2 e'" "n' \<le> n1 + 2 * eng_cur_max_level e"
    using levels_search_ok [OF ok2 _ ls(2), of key tid] room s(4) unfolding same ls(1) by auto
  have run: "LSMEngine_sst_get_unlocked v key tid e =
      (case version_of key tid (level_entries tb e 0) of
         Some x \<Rightarrow> Inr (answer tid x, ?e2)
       | None \<Rightarrow> bindE (levels_search v key tid ls ?e2)
           (\<lambda>(r, e). case r of Some x \<Rightarrow> Inr (x, e) | None \<Rightarrow> Inr (None, e)))"
    using s(1) ids unfolding LSMEngine_sst_get_unlocked_def Let_def ls_def
    by (simp del: upt_Suc split: option.split)
  show ?thesis
  proof (cases "version_of key tid (level_entries tb e 0)")
    case None
    with run d s(4) read_only_trans [OF ro] show ?thesis
      by (intro exI [of _ e'] exI [of _ n']) (simp add: split version_of_append split: option.split)
  next
    case (Some x)
    with run s(4) ro ok2 show ?thesis
      by (intro exI [of _ ?e2] exI [of _ n1]) (simp add: split version_of_append)
  qed
qed

end
