(* ===== verification/EngineFlush.thy ===== *)
theory EngineFlush
  imports EngineLookup
begin

text \<open>
  Writing tables: what a new table file leaves of the others, and the flush of the oldest memtable into
  level 0. The engine's invariant \<open>eng_inv\<close> adds to \<open>eng_ok\<close> that the next table numbers are unused: no file
  has their path and the cache has no block of theirs. The theorems are about the plain storage mode;
  a flush keeps the list of versions that lookups consult, so it changes no answer.
\<close>

section \<open>A new file leaves the other tables as they are\<close>

definition fs_extends :: "filesys \<Rightarrow> string \<Rightarrow> filesys \<Rightarrow> bool" where
  "fs_extends fs path fs' \<longleftrightarrow>
     dir fs' = (dir fs)(path \<mapsto> next_ino fs) \<and> next_ino fs' = Suc (next_ino fs) \<and>
     (\<forall>i < next_ino fs. inodes fs' i = inodes fs i)"

definition plain_table :: "filesys \<Rightarrow> table \<Rightarrow> bool" where
  "plain_table fs t \<longleftrightarrow> storage_mode (fst t) = 0 \<and> (\<exists>i < next_ino fs. fd (sst_file (fst t)) = Some i)"

lemma create_fresh:
  assumes "FileObj_create_and_write fs path buf = Inr (fs', f)" and "dir fs path = None"
  shows "fs_extends fs path fs' \<and> fd f = Some (next_ino fs)"
  using assms
  by (auto simp: FileObj_create_and_write_def StdFile_create_def StdFile_open_def Let_def StdFile_write_def fs_extends_def
      split: if_splits)

lemma build_fresh:
  assumes "SSTBuilder_build h sid path cache (fs, sb) = Inr (fs', s)" and "dir fs path = None"
  shows "fs_extends fs path fs' \<and> fd (sst_file s) = Some (next_ino fs)"
  using assms(1) create_fresh [OF _ assms(2)]
  by (auto simp: SSTBuilder_build_def Let_def bindE_eq_Inr split: if_splits)

lemma sst_env_extends:
  assumes "sst_env h s ps disk rv w" and "plain_table (st_fs w) (s, ps, rv)" and "fs_extends (st_fs w) path (st_fs w')"
    and "disk \<subseteq>\<^sub>m disk'"
  shows "sst_env h s ps disk' rv w'" and "plain_table (st_fs w') (s, ps, rv)"
proof -
  obtain i where i: "i < next_ino (st_fs w)" "fd (sst_file s) = Some i" "storage_mode s = 0"
    using assms(2) by (auto simp: plain_table_def)
  have "file_content (st_fs w', sst_file s) = file_content (st_fs w, sst_file s)"
    using i assms(3) by (simp add: file_content_def fs_extends_def)
  moreover have "on_disk disk' s ps"
    using assms(1,4) by (auto simp: sst_env_def on_disk_def map_le_def dom_def)
  ultimately show "sst_env h s ps disk' rv w'"
    using assms(1) i(3) by (simp add: sst_env_def sst_repr_def resolves_def SST_resolve_value_def)
  show "plain_table (st_fs w') (s, ps, rv)"
    using i assms(3) by (auto simp: plain_table_def fs_extends_def)
qed

lemma store_ok_extends:
  assumes "store_ok disk n w" and "disk \<subseteq>\<^sub>m disk'" and "st_cache w' = st_cache w"
  shows "store_ok disk' n w'"
  using assms unfolding store_ok_def map_le_def dom_def by fastforce

definition disk_with :: "(cache_key \<Rightarrow> block option) \<Rightarrow> u64 \<Rightarrow> sst_part list \<Rightarrow> cache_key \<Rightarrow> block option" where
  "disk_with disk sid ps k = (if fst k = int (unat sid) then disk_of sid ps k else disk k)"

definition disk_below :: "(cache_key \<Rightarrow> block option) \<Rightarrow> u64 \<Rightarrow> bool" where
  "disk_below disk sid \<longleftrightarrow> (\<forall>k. disk k \<noteq> None \<longrightarrow> fst k < int (unat sid))"

lemma as_int_id: "unat sid < 2 ^ 31 \<Longrightarrow> as_int (uint sid) = int (unat sid)"
  using as_int_small [of "unat sid"] by simp

lemma disk_with_extends: "disk_below disk sid \<Longrightarrow> disk \<subseteq>\<^sub>m disk_with disk sid ps"
  unfolding map_le_def dom_def disk_with_def disk_below_def by fastforce

lemma disk_with_below:
  assumes "disk_below disk sid" and "unat sid < 2 ^ 31"
  shows "disk_below (disk_with disk sid ps) (sid + 1)"
proof -
  have "unat (sid + 1) = Suc (unat sid)"
    using assms(2) by (simp add: unat_word_ariths)
  then show ?thesis
    unfolding disk_below_def
  proof (intro allI impI)
    fix k
    assume succ: "unat (sid + 1) = Suc (unat sid)" and "disk_with disk sid ps k \<noteq> None"
    then have "fst k = int (unat sid) \<or> disk k \<noteq> None" by (simp add: disk_with_def split: if_splits)
    then have "fst k \<le> int (unat sid)"
      using assms(1) unfolding disk_below_def by (metis less_imp_le order_refl)
    with succ show "fst k < int (unat (sid + 1))" by simp
  qed
qed

text \<open>What a table built from a list of versions is, beside the tables that exist already.\<close>

lemma table_built:
  assumes ok: "tables_ok h disk T n w" and plain: "\<forall>t \<in> T. plain_table (st_fs w) t"
    and path: "dir (st_fs w) path = None" and below: "disk_below disk sid" "unat sid < 2 ^ 31"
    and fits: "fits_table cap es" and bl: "fine_bloom (BloomFilter_new dval expected rate)"
  shows "\<exists>fs' s ps. build_table h (SSTBuilder_new dval expected rate cap True) sid path es (st_fs w) = Inr (fs', s) \<and>
    all_entries ps = es \<and> sst_id s = sid \<and> sst_max_tranc_id s = foldl max 0 (map etranc es) \<and>
    tables_ok h (disk_with disk sid ps) (insert (s, ps, \<lambda>x. x) T) n (w\<lparr>st_fs := fs'\<rparr>) \<and>
    (\<forall>t \<in> insert (s, ps, \<lambda>x. x) T. plain_table fs' t) \<and> fs_extends (st_fs w) path fs'"
proof -
  obtain fs' s ps where b: "build_table h (SSTBuilder_new dval expected rate cap True) sid path es (st_fs w) = Inr (fs', s)"
    "sst_repr h fs' s ps" "all_entries ps = es" "sst_id s = sid" "storage_mode s = 0"
    "sst_max_tranc_id s = foldl max 0 (map etranc es)"
    using build_table_ok [OF fits, of True dval expected rate h sid path "st_fs w"] bl by blast
  obtain fs1 sb where a: "SSTBuilder_adds h es (st_fs w, SSTBuilder_new dval expected rate cap True) = Inr (fs1, sb)"
    "SSTBuilder_build h sid path True (fs1, sb) = Inr (fs', s)"
    using b(1) by (auto simp: build_table_def bindE_eq_Inr)
  have inv: "builder_inv h (SSTBuilder_new dval expected rate cap True) [] []"
    using bl by (intro builder_new_inv) (simp add: fine_bloom_def)
  have "fs1 = st_fs w"
    using builder_adds_ok [OF inv, of es "st_fs w"] a(1) fits
    by (auto simp: fits_table_def SSTBuilder_new_def)
  with build_fresh [OF a(2)] path have ext: "fs_extends (st_fs w) path fs'" "fd (sst_file s) = Some (next_ino (st_fs w))"
    by simp_all
  let ?w = "w\<lparr>st_fs := fs'\<rparr>" and ?disk = "disk_with disk sid ps"
  have sub: "disk \<subseteq>\<^sub>m ?disk" by (rule disk_with_extends [OF below(1)])
  have "length ps \<le> 2 ^ 31" using parts_count [OF b(2)] fits b(3) by (simp add: fits_table_def)
  then have "on_disk ?disk s ps"
    using on_disk_of [of ps s] as_int_id [OF below(2)] b(4) by (auto simp: on_disk_def disk_with_def)
  then have new: "sst_env h s ps ?disk (\<lambda>x. x) ?w" "plain_table fs' (s, ps, \<lambda>x. x)"
    using b(2,5) ext by (auto simp: sst_env_def resolves_def SST_resolve_value_def plain_table_def fs_extends_def)
  have old: "sst_env h s' ps' ?disk rv' ?w \<and> plain_table fs' (s', ps', rv')" if "(s', ps', rv') \<in> T" for s' ps' rv'
    using sst_env_extends [OF table_env [OF ok that] _ _ sub, of path ?w] plain that ext(1) by auto
  have "store_ok ?disk n ?w"
    using store_ok_extends [OF _ sub, of n w ?w] ok by (simp add: tables_ok_def)
  with new old have "tables_ok h ?disk (insert (s, ps, \<lambda>x. x) T) n ?w" "\<forall>t \<in> insert (s, ps, \<lambda>x. x) T. plain_table fs' t"
    by (auto simp: tables_ok_def)
  with b ext show ?thesis by blast
qed

section \<open>The paths of the tables\<close>

lemma length_to_string: "n < 10 ^ k \<Longrightarrow> 0 < k \<Longrightarrow> length (to_string n) \<le> k"
proof (induction k arbitrary: n)
  case (Suc k)
  show ?case
  proof (cases "n < 10")
    case False
    then have "0 < k" "n div 10 < 10 ^ k"
      using Suc.prems(1) by (cases k, auto simp: less_mult_imp_div_less mult.commute)
    with Suc.IH have "length (to_string (n div 10)) \<le> k" by blast
    then show ?thesis by (subst to_string.simps) (simp add: False)
  qed (subst to_string.simps, simp)
qed simp

definition padded :: "u64 \<Rightarrow> string" where
  "padded i = replicate (32 - length (to_string (unat i))) CHR ''0'' @ to_string (unat i)"

lemma length_padded: "length (padded i) = 32"
proof -
  have "unat i < 2 ^ 64" using unsigned_less [of i] by simp
  then have "unat i < 10 ^ 20" by simp
  then have "length (to_string (unat i)) \<le> 20" by (rule length_to_string) simp
  then show ?thesis by (simp add: padded_def)
qed

lemma padded_inj: "padded i = padded j \<Longrightarrow> i = j"
proof -
  have zeros: "foldl (\<lambda>acc c. acc * 10 + digit_value c) 0 (replicate m CHR ''0'' @ xs) =
      foldl (\<lambda>acc c. acc * 10 + digit_value c) 0 xs" for m and xs :: string
    by (induction m) (simp_all add: digit_value_def)
  have "foldl (\<lambda>acc c. acc * 10 + digit_value c) 0 (padded i) = unat i" for i
    by (simp only: padded_def zeros foldl_to_string)
  then show "padded i = padded j \<Longrightarrow> i = j" by (metis word_unat_eq_iff)
qed

lemma sst_path_inj:
  assumes "LSMEngine_get_sst_path i l e = LSMEngine_get_sst_path j m e"
  shows "i = j"
proof -
  have "LSMEngine_get_sst_path i l e = eng_data_dir e @ ''/sst_'' @ padded i @ ''.'' @ to_string l" for i l
    by (simp add: LSMEngine_get_sst_path_def Let_def padded_def)
  with assms have "padded i @ ''.'' @ to_string l = padded j @ ''.'' @ to_string m" by simp
  then have "padded i = padded j" by (simp add: length_padded)
  then show ?thesis by (rule padded_inj)
qed

section \<open>The invariant of the engine\<close>

text \<open>The plain storage mode, with a Bloom filter of a sensible size.\<close>

definition plain_env :: "env \<Rightarrow> bool" where
  "plain_env v \<longleftrightarrow>
     wisckey_value_threshold (env_cfg v) = 0 \<and>
     fine_bloom (BloomFilter_new (env_dval v) (of_int (bloom_filter_expected_size (env_cfg v)))
       (bloom_filter_expected_error_rate (env_cfg v)))"

definition unused_numbers :: "(cache_key \<Rightarrow> block option) \<Rightarrow> engine \<Rightarrow> bool" where
  "unused_numbers disk e \<longleftrightarrow>
     (\<forall>i l. eng_next_sst_id e \<le> i \<longrightarrow> dir (st_fs (eng_store e)) (LSMEngine_get_sst_path i l e) = None) \<and>
     disk_below disk (eng_next_sst_id e)"

definition numbered :: "engine \<Rightarrow> bool" where
  "numbered e \<longleftrightarrow>
     (\<forall>l. distinct (level_ids e l) \<and> (\<forall>i \<in> set (level_ids e l). i < eng_next_sst_id e)) \<and>
     (\<forall>l m. l \<noteq> m \<longrightarrow> set (level_ids e l) \<inter> set (level_ids e m) = {}) \<and>
     sorted_wrt (\<lambda>i j. j < i) (level_ids e 0) \<and>
     (\<forall>l. \<forall>i \<in> set (level_ids e l). map_option sst_id (eng_ssts e i) = Some i)"

definition eng_inv ::
  "env \<Rightarrow> (cache_key \<Rightarrow> block option) \<Rightarrow> (u64 \<Rightarrow> table) \<Rightarrow> nat \<Rightarrow> entry list list \<Rightarrow> engine \<Rightarrow> bool" where
  "eng_inv v disk tb n ess e \<longleftrightarrow>
     mt_repr (eng_memtable e) ess \<and> eng_ok v disk tb n e \<and>
     (\<forall>t \<in> live_tables tb e. plain_table (st_fs (eng_store e)) t) \<and> unused_numbers disk e \<and> numbered e"

lemma new_builder_plain:
  "plain_env v \<Longrightarrow> new_builder v e =
     SSTBuilder_new (env_dval v) (of_int (bloom_filter_expected_size (env_cfg v))) (bloom_filter_expected_error_rate (env_cfg v))
       (block_size v) True"
  by (simp add: new_builder_def plain_env_def Let_def)

lemma level_ids_put:
  assumes "omap_sorted (eng_level_sst_ids e)"
  shows "level_ids (e\<lparr>eng_level_sst_ids := omap_put l ids (eng_level_sst_ids e)\<rparr>) m = (if m = l then ids else level_ids e m)"
  using assms by (simp add: level_ids_def omap_at_def)

text \<open>Adding a table with the next number in front of level 0.\<close>

lemma unused_after:
  assumes "unused_numbers disk e" and "fs_extends (st_fs (eng_store e)) (LSMEngine_get_sst_path (eng_next_sst_id e) l e) fs'"
    and "unat (eng_next_sst_id e) + 1 < 2 ^ 31" and "eng_next_sst_id e' = eng_next_sst_id e + 1"
    and "st_fs (eng_store e') = fs'" and "eng_data_dir e' = eng_data_dir e"
  shows "unused_numbers (disk_with disk (eng_next_sst_id e) ps) e'"
  unfolding unused_numbers_def
proof (intro conjI allI impI)
  let ?i = "eng_next_sst_id e"
  have succ: "unat (?i + 1) = Suc (unat ?i)" using assms(3) by (simp add: unat_word_ariths)
  show "disk_below (disk_with disk ?i ps) (eng_next_sst_id e')"
    using disk_with_below [of disk ?i ps] assms(1,3,4) by (simp add: unused_numbers_def)
  fix i m
  assume "eng_next_sst_id e' \<le> i"
  then have i: "?i < i" using assms(4) succ by (simp add: word_le_nat_alt word_less_nat_alt)
  have same: "LSMEngine_get_sst_path i m e' = LSMEngine_get_sst_path i m e"
    using assms(6) by (simp add: LSMEngine_get_sst_path_def)
  have "LSMEngine_get_sst_path i m e \<noteq> LSMEngine_get_sst_path ?i l e" using sst_path_inj i by blast
  moreover have "dir (st_fs (eng_store e)) (LSMEngine_get_sst_path i m e) = None"
    using assms(1) i by (simp add: unused_numbers_def)
  ultimately show "dir (st_fs (eng_store e')) (LSMEngine_get_sst_path i m e') = None"
    using assms(2,5) by (simp add: same fs_extends_def)
qed

section \<open>Flushing the oldest memtable\<close>

definition flushed :: "entry list list \<Rightarrow> entry list list" where
  "flushed ess = (if length ess = 1 then [[]] else butlast ess)"

lemma concat_flushed: "ess \<noteq> [] \<Longrightarrow> concat (flushed ess) @ last ess = concat ess"
  by (cases ess rule: rev_cases) (auto simp: flushed_def)

lemma flush_last_built:
  assumes repr: "mt_repr m ess" and fits: "fits_table cap (last ess)"
    and bld: "build_table h sb sid path (last ess) fs = Inr (fs', s)"
  shows "\<exists>m'. MemTable_flush_last h sb path sid ids True (fs, m) = Inr (Some s, ids, fs', m') \<and> mt_repr m' (flushed ess)"
proof -
  obtain t m' where t: "take_oldest m = Some (t, m')" "sl_repr t (last ess)" "mt_repr m' (flushed ess)"
    using take_oldest_repr [OF repr] fits_table_bytes [OF fits] unfolding flushed_def by blast
  have "\<forall>e \<in> set (last ess). ekey e \<noteq> []" using fits by (simp add: fits_table_def buildable_def)
  note adds = flush_loop_add_adds [OF this, of h ids "(fs, sb)"]
  obtain x where "SSTBuilder_adds h (last ess) (fs, sb) = Inr x" "SSTBuilder_build h sid path True x = Inr (fs', s)"
    using bld by (auto simp: build_table_def bindE_eq_Inr)
  then show ?thesis
    using t flush_repr [OF t(2)] adds by (intro exI [of _ m']) (cases x, simp add: MemTable_flush_last_def)
qed

lemma read_version_id [simp]: "read_version (\<lambda>x. x) = (\<lambda>e. e)"
  by (rule ext) (simp add: read_version_def)

definition set_table :: "(u64 \<Rightarrow> table) \<Rightarrow> u64 \<Rightarrow> table \<Rightarrow> u64 \<Rightarrow> table" where
  "set_table tb i t = tb(i := t)"

lemma flush_oldest_ok:
  assumes env: "plain_env v" and inv: "eng_inv v disk tb n ess e" and fits: "fits_table (block_size v) (last ess)"
    and room: "unat (eng_next_sst_id e) + 1 < 2 ^ 31"
  shows "\<exists>e' disk' tb'. flush_oldest v e = Inr (foldl max 0 (map etranc (last ess)), e') \<and>
    eng_inv v disk' tb' n (flushed ess) e' \<and>
    concat (flushed ess) @ disk_versions tb' e' = concat ess @ disk_versions tb e \<and>
    eng_next_sst_id e' = eng_next_sst_id e + 1 \<and> eng_tran_manager e' = eng_tran_manager e \<and>
    eng_cur_max_level e' = eng_cur_max_level e \<and>
    (\<forall>l. level_ids e' l = (if l = 0 then eng_next_sst_id e # level_ids e 0 else level_ids e l))"
proof -
  let ?i = "eng_next_sst_id e" and ?T = "live_tables tb e"
  have mt: "mt_repr (eng_memtable e) ess" and ok: "eng_ok v disk tb n e" and un: "unused_numbers disk e" and num: "numbered e"
    and plain: "\<forall>t \<in> ?T. plain_table (st_fs (eng_store e)) t"
    using inv by (auto simp: eng_inv_def)
  have tok: "tables_ok (env_hash v) disk ?T n (eng_store e)" and srt: "omap_sorted (eng_level_sst_ids e)"
    using ok by (auto simp: eng_ok_def)
  have path: "dir (st_fs (eng_store e)) (LSMEngine_get_sst_path ?i 0 e) = None" and below: "disk_below disk ?i"
    using un by (auto simp: unused_numbers_def)
  have small: "unat ?i < 2 ^ 31" using room by simp
  have bl: "fine_bloom (BloomFilter_new (env_dval v) (of_int (bloom_filter_expected_size (env_cfg v)))
      (bloom_filter_expected_error_rate (env_cfg v)))"
    using env by (simp add: plain_env_def)
  obtain fs' s ps where b: "build_table (env_hash v) (new_builder v e) ?i (LSMEngine_get_sst_path ?i 0 e) (last ess) (st_fs (eng_store e)) = Inr (fs', s)"
    "all_entries ps = last ess" "sst_id s = ?i" "sst_max_tranc_id s = foldl max 0 (map etranc (last ess))"
    "tables_ok (env_hash v) (disk_with disk ?i ps) (insert (s, ps, \<lambda>x. x) ?T) n ((eng_store e)\<lparr>st_fs := fs'\<rparr>)"
    "\<forall>t \<in> insert (s, ps, \<lambda>x. x) ?T. plain_table fs' t" "fs_extends (st_fs (eng_store e)) (LSMEngine_get_sst_path ?i 0 e) fs'"
    using table_built [OF tok plain path below small fits bl] unfolding new_builder_plain [OF env] by blast
  obtain m' where m': "MemTable_flush_last (env_hash v) (new_builder v e) (LSMEngine_get_sst_path ?i 0 e) ?i [] True
      (st_fs (eng_store e), eng_memtable e) = Inr (Some s, [], fs', m')" "mt_repr m' (flushed ess)"
    using flush_last_built [OF mt fits b(1)] by blast
  define e' where "e' = e\<lparr>eng_next_sst_id := ?i + 1, eng_store := (eng_store e)\<lparr>st_fs := fs'\<rparr>, eng_memtable := m',
    eng_ssts := (eng_ssts e)(?i \<mapsto> s), eng_level_sst_ids := omap_put 0 (?i # omap_at 0 [] (eng_level_sst_ids e)) (eng_level_sst_ids e)\<rparr>"
  define tb' where "tb' = set_table tb ?i (s, ps, \<lambda>x. x)"
  have ids: "level_ids e' l = (if l = 0 then ?i # level_ids e 0 else level_ids e l)" for l
    using srt by (simp add: e'_def level_ids_def omap_at_def)
  have run: "flush_oldest v e = Inr (foldl max 0 (map etranc (last ess)), e')"
    using m'(1) b(4) by (simp add: flush_oldest_def Let_def new_builder_plain [OF env] LSMEngine_get_sst_path_def
        add_flushed_ids_def SST_get_tranc_id_range_def e'_def)
  have old: "i \<noteq> ?i" "i < ?i" if "i \<in> set (level_ids e l)" for i l
    using num that by (auto simp: numbered_def)
  have tb_old: "tb' i = tb i" if "i \<in> set (level_ids e l)" for i l
    using old [OF that] by (simp add: tb'_def set_table_def)
  have live: "live_tables tb' e' = insert (s, ps, \<lambda>x. x) ?T"
    unfolding live_tables_def ids using tb_old by (auto simp: tb'_def set_table_def split: if_splits) metis+
  have ents: "level_entries tb' e' l = (if l = 0 then last ess @ level_entries tb e 0 else level_entries tb e l)" for l
  proof -
    have "concat (map (\<lambda>i. table_entries (tb' i)) (level_ids e l)) = level_entries tb e l" for l
      unfolding level_entries_def using tb_old by (intro arg_cong [of _ _ concat] map_cong) simp_all
    then show ?thesis
      using b(2) by (simp add: level_entries_def [of tb' e'] ids) (simp add: tb'_def set_table_def table_entries_simp)
  qed
  have "eng_ok v (disk_with disk ?i ps) tb' n e'"
    unfolding eng_ok_def live
  proof (intro conjI allI ballI impI)
    show "omap_sorted (eng_level_sst_ids e')" using srt by (auto simp: e'_def)
    show "tables_ok (env_hash v) (disk_with disk ?i ps) (insert (s, ps, \<lambda>x. x) ?T) n (eng_store e')"
      using b(5) by (simp add: e'_def)
    show "eng_ssts e' i = Some (fst (tb' i))" if "i \<in> set (level_ids e' l)" for i l
    proof (cases "i = ?i")
      case True
      then show ?thesis by (simp add: e'_def tb'_def set_table_def)
    next
      case False
      then have "i \<in> set (level_ids e l)" using that ids by (simp split: if_splits)
      with level_tables [OF ok] tb_old have "eng_ssts e i = Some (fst (tb' i))" by simp
      with False show ?thesis by (simp add: e'_def)
    qed
    show "sorted_wrt (\<lambda>i j. table_before (tb' i) (tb' j)) (level_ids e' l)" if "0 < l" for l
    proof -
      have "sorted_wrt (\<lambda>i j. table_before (tb i) (tb j)) (level_ids e l)" using that ok by (simp add: eng_ok_def)
      with that show ?thesis using tb_old by (simp add: ids) (rule sorted_wrt_mono_rel [rotated], simp_all)
    qed
    show "l \<le> eng_cur_max_level e'" if "level_ids e' l \<noteq> []" for l
      using that ok unfolding ids eng_ok_def by (auto simp: e'_def split: if_splits)
  qed
  moreover have "unused_numbers (disk_with disk ?i ps) e'"
    using unused_after [OF un b(7) room, of e' ps] by (simp add: e'_def)
  moreover have "numbered e'"
  proof -
    have up: "?i < ?i + 1" using room by (simp add: word_less_nat_alt unat_word_ariths)
    have nx: "eng_next_sst_id e' = ?i + 1" by (simp add: e'_def)
    show ?thesis
      unfolding numbered_def ids nx
    proof (intro conjI allI ballI impI)
      show "distinct (if l = 0 then ?i # level_ids e 0 else level_ids e l)" for l
        using num old [of ?i 0] by (auto simp: numbered_def)
      show "i < ?i + 1" if "i \<in> set (if l = 0 then ?i # level_ids e 0 else level_ids e l)" for i l
        using that old(2) [of i l] up by (auto split: if_splits dest: less_trans)
      show "set (if l = 0 then ?i # level_ids e 0 else level_ids e l) \<inter> set (if m = 0 then ?i # level_ids e 0 else level_ids e m) = {}"
        if "l \<noteq> m" for l m
        using num that old [of ?i l] old [of ?i m] by (auto simp: numbered_def)
      show "sorted_wrt (\<lambda>i j. j < i) (if (0 :: nat) = 0 then ?i # level_ids e 0 else level_ids e 0)"
        using num old(2) [of _ 0] by (simp add: numbered_def)
      show "map_option sst_id (eng_ssts e' i) = Some i"
        if "i \<in> set (if l = 0 then ?i # level_ids e 0 else level_ids e l)" for i l
        using that num old(1) [of i l] b(3) by (auto simp: e'_def numbered_def split: if_splits)
    qed
  qed
  ultimately have "eng_inv v (disk_with disk ?i ps) tb' n (flushed ess) e'"
    using m'(2) b(6) by (simp add: eng_inv_def live) (simp add: e'_def)
  moreover have "disk_versions tb' e' = last ess @ disk_versions tb e"
  proof -
    have cm: "eng_cur_max_level e' = eng_cur_max_level e" by (simp add: e'_def)
    have eq: "map (level_entries tb' e') [1..<Suc m] = map (level_entries tb e) [1..<Suc m]" for m
      by (rule map_cong) (auto simp: ents)
    show ?thesis unfolding disk_versions_split cm eq ents by simp
  qed
  moreover have "ess \<noteq> []" using mt by (auto simp: mt_repr_Cons)
  ultimately show ?thesis
    using run ids concat_flushed [of ess]
    by (intro exI [of _ e'] exI [of _ "disk_with disk ?i ps"] exI [of _ tb'])
      (simp add: e'_def flip: append_assoc)
qed

end
