(* ===== verification/EngineProps.thy ===== *)
theory EngineProps
  imports EngineFlush
begin

text \<open>
  What the engine promises to its clients, over the list of all versions it holds: those of the memtable,
  from its newest table to its oldest, and those on disk. A lookup answers with the first visible version
  of its key in that list, a write puts a version into the first table of it, and a flush does not change
  the list at all.
\<close>

section \<open>Lookups\<close>

definition newest_value :: "string \<Rightarrow> u64 \<Rightarrow> entry list \<Rightarrow> string option" where
  "newest_value key tid es =
     (case version_of key tid es of None \<Rightarrow> None | Some x \<Rightarrow> if evalue x = [] then None else Some (evalue x))"

lemma engine_get_ok:
  assumes mt: "mt_repr (eng_memtable e) ess" and ok: "eng_ok v disk tb n e" and key: "key \<noteq> []"
    and room: "n + 4 * length (level_ids e 0) + 2 * eng_cur_max_level e < 2 ^ 64"
  shows "\<exists>r e' n'. LSMEngine_get v key tid e = Inr (r, e') \<and>
    map_option fst r = newest_value key tid (concat ess @ disk_versions tb e) \<and>
    read_only e e' \<and> eng_ok v disk tb n' e' \<and> n' \<le> n + 4 * length (level_ids e 0) + 2 * eng_cur_max_level e"
proof -
  let ?mem = "version_of key tid (concat ess)"
  obtain i where i: "MemTable_get (eng_memtable e) key tid = Inr i" "mt_shown i ?mem"
    using memtable_get_repr [OF mt key] by blast
  show ?thesis
  proof (cases ?mem)
    case None
    obtain e' n' where s: "LSMEngine_sst_get_unlocked v key tid e =
        Inr (Option.bind (version_of key tid (disk_versions tb e)) (answer tid), e')"
      "eng_ok v disk tb n' e'" "read_only e e'" "n' \<le> n + 4 * length (level_ids e 0) + 2 * eng_cur_max_level e"
      using sst_get_ok [OF ok room] by blast
    have run: "LSMEngine_get v key tid e = LSMEngine_sst_get_unlocked v key tid e"
      using i mt_shown_valid [OF i(2)] None by (simp add: LSMEngine_get_def)
    have "map_option fst (Option.bind (version_of key tid (disk_versions tb e)) (answer tid)) =
        newest_value key tid (concat ess @ disk_versions tb e)"
      using None by (simp add: newest_value_def version_of_append answer_def split: option.split)
    with run s show ?thesis by metis
  next
    case (Some x)
    have ro: "read_only e e" using ok by (simp add: read_only_def eng_ok_def)
    have "LSMEngine_get v key tid e = Inr (if evalue x \<noteq> [] then Some (evalue x, etranc x) else None, e)"
      using i mt_shown_valid [OF i(2)] mt_shown_value [of i x] Some by (simp add: LSMEngine_get_def)
    then show ?thesis
      using Some ro ok by (auto simp: newest_value_def version_of_append)
  qed
qed

section \<open>Writes\<close>

text \<open>The operations that write, and what they do to the lists of versions of the memtable.\<close>

datatype engine_op =
    Op_put string string u64
  | Op_put_batch "(string \<times> string) list" u64
  | Op_remove string u64
  | Op_remove_batch "string list" u64
  | Op_flush

primrec engine_step :: "env \<Rightarrow> (nat \<Rightarrow> sl_random) \<Rightarrow> engine_op \<Rightarrow> engine \<Rightarrow> (u64 \<times> engine) result" where
  "engine_step v r (Op_put k x t) e = LSMEngine_put v (r 0) k x t e"
| "engine_step v r (Op_put_batch kvs t) e = LSMEngine_put_batch v r kvs t e"
| "engine_step v r (Op_remove k t) e = LSMEngine_remove v (r 0) k t e"
| "engine_step v r (Op_remove_batch ks t) e = LSMEngine_remove_batch v r ks t e"
| "engine_step v r Op_flush e = LSMEngine_flush v e"

primrec memtable_op :: "engine_op \<Rightarrow> mt_op option" where
  "memtable_op (Op_put k x t) = Some (Put k x t)"
| "memtable_op (Op_put_batch kvs t) = Some (Put_batch kvs t)"
| "memtable_op (Op_remove k t) = Some (Remove k t)"
| "memtable_op (Op_remove_batch ks t) = Some (Remove_batch ks t)"
| "memtable_op Op_flush = None"

definition spec_engine :: "env \<Rightarrow> engine_op \<Rightarrow> entry list list \<Rightarrow> entry list list" where
  "spec_engine v op ess = (case memtable_op op of None \<Rightarrow> ess | Some w \<Rightarrow> spec_step (per_mem_limit v) w ess)"

text \<open>A flush needs no compaction, and the oldest list of versions fits a table.\<close>

definition can_flush :: "env \<Rightarrow> entry list list \<Rightarrow> engine \<Rightarrow> bool" where
  "can_flush v ess e \<longleftrightarrow>
     of_nat (length (level_ids e 0)) < level_ratio v \<and> fits_table (block_size v) (last ess) \<and>
     unat (eng_next_sst_id e) + 1 < 2 ^ 31"

lemma flush_ok:
  assumes env: "plain_env v" and inv: "eng_inv v disk tb n ess e" and can: "can_flush v ess e"
  shows "\<exists>t e' disk' tb' ess'. LSMEngine_flush v e = Inr (t, e') \<and> eng_inv v disk' tb' n ess' e' \<and>
    concat ess' @ disk_versions tb' e' = concat ess @ disk_versions tb e \<and>
    length (level_ids e' 0) \<le> Suc (length (level_ids e 0)) \<and> eng_cur_max_level e' = eng_cur_max_level e"
proof (cases "MemTable_get_total_size (eng_memtable e) = 0")
  case True
  with inv show ?thesis by (auto simp: LSMEngine_flush_def)
next
  case False
  have "compact_if_full v e = Inr e"
    using can by (auto simp: compact_if_full_def can_flush_def level_ids_def omap_at_def split: option.splits)
  then have "LSMEngine_flush v e = flush_oldest v e" using False by (simp add: LSMEngine_flush_def)
  moreover have "fits_table (block_size v) (last ess)" "unat (eng_next_sst_id e) + 1 < 2 ^ 31"
    using can by (auto simp: can_flush_def)
  from flush_oldest_ok [OF env inv this] obtain e' disk' tb' where
    "flush_oldest v e = Inr (foldl max 0 (map etranc (last ess)), e')" "eng_inv v disk' tb' n (flushed ess) e'"
    "concat (flushed ess) @ disk_versions tb' e' = concat ess @ disk_versions tb e"
    "eng_cur_max_level e' = eng_cur_max_level e" "level_ids e' 0 = eng_next_sst_id e # level_ids e 0"
    by auto
  ultimately show ?thesis by (intro exI conjI) (assumption | simp)+
qed

lemma eng_inv_memtable:
  assumes "eng_inv v disk tb n ess e" and "mt_repr m ess'"
  shows "eng_inv v disk tb n ess' (e\<lparr>eng_memtable := m\<rparr>)"
    and "disk_versions tb (e\<lparr>eng_memtable := m\<rparr>) = disk_versions tb e"
proof -
  have ids: "level_ids (e\<lparr>eng_memtable := m\<rparr>) = level_ids e" by (auto simp: level_ids_def)
  have paths: "LSMEngine_get_sst_path i l (e\<lparr>eng_memtable := m\<rparr>) = LSMEngine_get_sst_path i l e" for i l
    by (simp add: LSMEngine_get_sst_path_def)
  have "numbered (e\<lparr>eng_memtable := m\<rparr>) = numbered e" by (simp add: numbered_def ids)
  moreover have "unused_numbers disk (e\<lparr>eng_memtable := m\<rparr>) = unused_numbers disk e" by (simp add: unused_numbers_def paths)
  moreover have "eng_ok v disk tb n (e\<lparr>eng_memtable := m\<rparr>) = eng_ok v disk tb n e"
    "live_tables tb (e\<lparr>eng_memtable := m\<rparr>) = live_tables tb e"
    by (simp_all add: eng_ok_def live_tables_def ids)
  ultimately show "eng_inv v disk tb n ess' (e\<lparr>eng_memtable := m\<rparr>)"
    using assms by (simp add: eng_inv_def)
  show "disk_versions tb (e\<lparr>eng_memtable := m\<rparr>) = disk_versions tb e"
    unfolding disk_versions_def level_entries_def ids by simp
qed

lemma can_flush_memtable [simp]: "can_flush v ess (e\<lparr>eng_memtable := m\<rparr>) = can_flush v ess e"
  by (simp add: can_flush_def level_ids_def)

lemma flush_if_full_ok:
  assumes "plain_env v" and "eng_inv v disk tb n ess e" and "can_flush v ess e"
  shows "\<exists>t e' disk' tb' ess'. flush_if_full v e = Inr (t, e') \<and> eng_inv v disk' tb' n ess' e' \<and>
    concat ess' @ disk_versions tb' e' = concat ess @ disk_versions tb e \<and>
    length (level_ids e' 0) \<le> Suc (length (level_ids e 0)) \<and> eng_cur_max_level e' = eng_cur_max_level e"
  using flush_ok [OF assms] assms(2) by (auto simp: flush_if_full_def)

lemma engine_step_ok:
  assumes env: "plain_env v" and inv: "eng_inv v disk tb n ess e" and can: "can_flush v (spec_engine v op ess) e"
  shows "\<exists>t e' disk' tb' ess'. engine_step v r op e = Inr (t, e') \<and> eng_inv v disk' tb' n ess' e' \<and>
    concat ess' @ disk_versions tb' e' = concat (spec_engine v op ess) @ disk_versions tb e \<and>
    length (level_ids e' 0) \<le> Suc (length (level_ids e 0)) \<and> eng_cur_max_level e' = eng_cur_max_level e"
proof (cases "memtable_op op")
  case None
  then have "op = Op_flush" by (cases op) simp_all
  then show ?thesis using flush_ok [OF env inv] can by (simp add: spec_engine_def)
next
  case (Some w)
  have "mt_repr (eng_memtable e) ess" using inv by (simp add: eng_inv_def)
  then obtain m where m: "MemTable_step (per_mem_limit v) r w (eng_memtable e) = Inr m" "mt_repr m (spec_engine v op ess)"
    using MemTable_step_repr [of "eng_memtable e" ess "per_mem_limit v" r w] Some by (auto simp: spec_engine_def)
  have run: "engine_step v r op e = flush_if_full v (e\<lparr>eng_memtable := m\<rparr>)"
    using m(1) Some
    by (cases op) (auto simp: LSMEngine_put_def LSMEngine_put_batch_def LSMEngine_remove_def LSMEngine_remove_batch_def)
  note inv' = eng_inv_memtable [OF inv m(2)]
  have ids: "level_ids (e\<lparr>eng_memtable := m\<rparr>) = level_ids e" by (auto simp: level_ids_def)
  show ?thesis
    using flush_if_full_ok [OF env inv'(1)] can unfolding run inv'(2) ids by simp
qed

section \<open>What a put changes\<close>

lemma version_of_put_same:
  assumes "\<forall>y \<in> set es. ekey y = ekey x \<longrightarrow> etranc y \<le> etranc x" and "visible tid x"
  shows "version_of (ekey x) tid (put_entry x es) = Some x"
  using assms by (induction es) (auto simp: version_of_def version_def node_less_def)

lemma version_of_put_other: "k \<noteq> ekey x \<Longrightarrow> version_of k tid (put_entry x es) = version_of k tid es"
  by (induction es) (auto simp: version_of_def version_def)

lemma concat_spec_put:
  assumes "ess \<noteq> []"
  shows "concat (spec_step limit (Put k x t) ess) = put_entry (entry_of k x t) (hd ess) @ concat (tl ess)"
  using assms by (cases ess) (simp_all add: spec_step_def)

lemma newest_value_put:
  assumes "ess \<noteq> []" and "\<forall>y \<in> set (hd ess). ekey y = key \<longrightarrow> etranc y \<le> t" and "tid = 0 \<or> t \<le> tid" and "val \<noteq> []"
  shows "newest_value key tid (concat (spec_step limit (Put key val t) ess) @ vs) = Some val"
  using assms version_of_put_same [of "hd ess" "entry_of key val t" tid]
  by (simp add: newest_value_def concat_spec_put version_of_append visible_def)

lemma newest_value_put_other:
  assumes "ess \<noteq> []" and "k \<noteq> key"
  shows "newest_value k tid (concat (spec_step limit (Put key val t) ess) @ vs) = newest_value k tid (concat ess @ vs)"
proof -
  have "concat ess = hd ess @ concat (tl ess)" using assms(1) by (cases ess) simp_all
  with assms show ?thesis
    by (simp add: newest_value_def concat_spec_put version_of_append version_of_put_other)
qed

section \<open>A new engine\<close>

definition cache_configured :: "env \<Rightarrow> bool" where
  "cache_configured v \<longleftrightarrow>
     0 < unat (of_int (lsm_block_cache_capacity (env_cfg v)) :: u64) \<and> (1 :: u64) < of_int (lsm_block_cache_k (env_cfg v))"

lemma engine_new_inv:
  assumes free: "\<And>i l e. eng_data_dir e = path \<Longrightarrow> dir fs (LSMEngine_get_sst_path i l e) = None" and cache: "cache_configured v"
  shows "\<exists>e. LSMEngine_new v fs path [] = Inr e \<and> eng_inv v (\<lambda>_. None) tb 0 [[]] e \<and> disk_versions tb e = [] \<and>
    (\<forall>l. level_ids e l = []) \<and> eng_cur_max_level e = 0 \<and> eng_next_sst_id e = 1 \<and> eng_tran_manager e = None"
proof -
  obtain fs' vl where vl: "VLog_open fs (path @ ''/vlog.data'') = Inr (fs', vl)"
    "dir fs' = dir fs \<or> dir fs' = (dir fs)(path @ ''/vlog.data'' \<mapsto> next_ino fs)"
    by (cases "dir fs (path @ ''/vlog.data'')") (simp_all add: VLog_open_def FileObj_open_def StdFile_open_def Let_def)
  let ?cache = "BlockCache_new (unat (of_int (lsm_block_cache_capacity (env_cfg v)) :: u64)) (of_int (lsm_block_cache_k (env_cfg v)))"
  define e where "e = \<lparr>eng_data_dir = path, eng_memtable = MemTable_new, eng_level_sst_ids = [], eng_ssts = (\<lambda>_. None),
    eng_store = \<lparr>st_fs = fs', st_cache = ?cache, st_next_block = 0\<rparr>, eng_vlog = Some vl, eng_tran_manager = None,
    eng_next_sst_id = 1, eng_cur_max_level = 0\<rparr>"
  have run: "LSMEngine_new v fs path [] = Inr e"
    using vl(1) by (simp add: LSMEngine_new_def e_def sort_levels_def)
  have ids: "level_ids e l = []" for l by (simp add: e_def level_ids_def omap_at_def)
  have "LSMEngine_get_sst_path i l e \<noteq> path @ ''/vlog.data''" for i l
    by (simp add: LSMEngine_get_sst_path_def Let_def e_def)
  then have "dir fs' (LSMEngine_get_sst_path i l e) = None" for i l
    using vl(2) free [of e i l] by (auto simp: e_def)
  then have un: "unused_numbers (\<lambda>_. None) e" by (simp add: unused_numbers_def disk_below_def e_def)
  have ok: "eng_ok v (\<lambda>_. None) tb 0 e"
    using cache BlockCache_new_ok [of "unat (of_int (lsm_block_cache_capacity (env_cfg v)) :: u64)" "of_int (lsm_block_cache_k (env_cfg v))"]
    by (simp add: eng_ok_def ids live_tables_def tables_ok_def store_ok_def cache_configured_def)
      (simp add: e_def omap_sorted_def)
  have mt: "mt_repr (eng_memtable e) [[]]" using MemTable_new_repr by (simp add: e_def)
  have "eng_inv v (\<lambda>_. None) tb 0 [[]] e"
    using ok un mt by (simp add: eng_inv_def live_tables_def numbered_def ids)
  moreover have "disk_versions tb e = []" by (simp add: disk_versions_def level_entries_def ids)
  ultimately show ?thesis using run ids by (intro exI [of _ e]) (simp add: e_def)
qed

text \<open>
  An environment of the smallest interest: one write fills the memtable. The error rate is chosen so that
  the filter has as many bits as elements.
\<close>

definition sample_env :: env where
  "sample_env = \<lparr>env_hash = \<lambda>_. 7, env_dval = \<lambda>_. exp (- ((ln 2) ^ 2)), env_pow = \<lambda>_ _. 1,
     env_cfg = modify_lsm_tol_mem_size_limit 10 (modify_lsm_per_mem_size_limit 9 (setDefaultValues (blank_config []))),
     env_steps = 100\<rparr>"

lemma sample_cfg:
  "bloom_filter_expected_size (env_cfg sample_env) = 65536" "wisckey_value_threshold (env_cfg sample_env) = 0"
  "lsm_block_cache_capacity (env_cfg sample_env) = 1024" "lsm_block_cache_k (env_cfg sample_env) = 8"
  "per_mem_limit sample_env = 9" "tol_mem_limit sample_env = 10" "level_ratio sample_env = 4" "block_size sample_env = 32768"
  by (simp_all add: sample_env_def modify_lsm_tol_mem_size_limit_def modify_lsm_per_mem_size_limit_def setDefaultValues_def
      per_mem_limit_def tol_mem_limit_def level_ratio_def block_size_def)

lemma sample_plain: "plain_env sample_env" "cache_configured sample_env"
proof -
  let ?f = "BloomFilter_new (\<lambda>_. exp (- ((ln 2) ^ 2))) 65536 (bloom_filter_expected_error_rate (env_cfg sample_env))"
  have m: "bloom_m 65536 (exp (- ((ln 2) ^ 2))) = 65536" by (simp add: bloom_m_def)
  have "\<lceil>ln 2 :: real\<rceil> = 1" using ln_2_less_1 by (simp add: ceiling_eq_iff)
  then have "num_bits ?f = 65536" "num_hashes ?f = 1" "length (bits ?f) = 65536"
    by (simp_all add: BloomFilter_new_def Let_def m)
  then have "fine_bloom ?f" by (simp add: fine_bloom_def bloom_ok_def)
  moreover have "env_dval sample_env = (\<lambda>_. exp (- ((ln 2) ^ 2)))" by (simp add: sample_env_def)
  ultimately show "plain_env sample_env" unfolding plain_env_def sample_cfg by simp
  show "cache_configured sample_env" unfolding cache_configured_def sample_cfg by simp
qed

lemma sample_engine:
  "\<exists>e. LSMEngine_new sample_env empty_fs ''d'' [] = Inr e \<and> eng_inv sample_env (\<lambda>_. None) tb 0 [[]] e \<and>
    disk_versions tb e = [] \<and> (\<forall>l. level_ids e l = []) \<and> eng_cur_max_level e = 0 \<and> eng_next_sst_id e = 1"
  using engine_new_inv [of "''d''" empty_fs sample_env tb] sample_plain(2) by (auto simp: empty_fs_def)

section \<open>Properties\<close>

text \<open>
  C1: a lookup in the engine answers with the value of the first version of the key, in the memtable from its
  newest table on, then in level 0 from its newest table on, then in the deeper levels, that the reader
  may see; a deletion and a missing key give nothing. The lookup changes no contents.
\<close>

theorem engine_get_correct:
  assumes "mt_repr (eng_memtable e) ess" and "eng_ok v disk tb n e" and "key \<noteq> []"
    and "n + 4 * length (level_ids e 0) + 2 * eng_cur_max_level e < 2 ^ 64"
  shows "\<exists>r e'. LSMEngine_get v key tid e = Inr (r, e') \<and>
    map_option fst r = newest_value key tid (concat ess @ disk_versions tb e) \<and>
    mt_repr (eng_memtable e') ess \<and> disk_versions tb e' = disk_versions tb e"
proof -
  from engine_get_ok [OF assms] obtain r e' n' where g: "LSMEngine_get v key tid e = Inr (r, e')"
    "map_option fst r = newest_value key tid (concat ess @ disk_versions tb e)" "read_only e e'" "eng_ok v disk tb n' e'"
    by blast
  have "level_entries tb e' = level_entries tb e" "eng_cur_max_level e' = eng_cur_max_level e"
    using g(3) by (auto simp: read_only_def level_entries_def)
  then have "disk_versions tb e' = disk_versions tb e" by (simp only: disk_versions_def)
  with g assms(1) show ?thesis by (auto simp: read_only_def)
qed

theorem engine_get_correct_witness:
  "\<exists>e e'. LSMEngine_new sample_env empty_fs ''d'' [] = Inr e \<and> LSMEngine_get sample_env ''a'' 0 e = Inr (None, e')"
proof -
  obtain e where e: "LSMEngine_new sample_env empty_fs ''d'' [] = Inr e"
    "eng_inv sample_env (\<lambda>_. None) undefined 0 [[]] e" "disk_versions undefined e = []" "\<forall>l. level_ids e l = []"
    "eng_cur_max_level e = 0"
    using sample_engine by blast
  then show ?thesis
    using engine_get_correct [of e "[[]]" sample_env "\<lambda>_. None" undefined 0 "''a''" 0]
    by (auto simp: eng_inv_def newest_value_def version_of_def)
qed

text \<open>
  C2: in the plain storage mode, every write and every flush that needs no compaction succeeds and refines the
  specification: the list of all versions afterwards, memtable first, is the one in which the write went
  into the newest list of the memtable, and what a flush moves to level 0 stays at its place in the list.
\<close>

theorem engine_step_refines:
  assumes "plain_env v" and "eng_inv v disk tb n ess e" and "can_flush v (spec_engine v op ess) e"
  shows "\<exists>t e' disk' tb' ess'. engine_step v r op e = Inr (t, e') \<and> eng_inv v disk' tb' n ess' e' \<and>
    concat ess' @ disk_versions tb' e' = concat (spec_engine v op ess) @ disk_versions tb e"
  using engine_step_ok [OF assms, of r] by blast

lemma sample_can_flush:
  assumes "\<forall>l. level_ids e l = []" and "eng_next_sst_id e = 1"
  shows "can_flush sample_env (spec_step (per_mem_limit sample_env) (Put ''a'' ''1'' 3) [[]]) e"
  using assms
  by (simp add: can_flush_def sample_cfg spec_step_def table_bytes_def entry_bytes_used_def fits_table_def buildable_def
      sorted_entries_def small_entry_def)

theorem engine_step_refines_witness:
  "\<exists>e e' t disk' tb' ess'. LSMEngine_new sample_env empty_fs ''d'' [] = Inr e \<and>
     engine_step sample_env (\<lambda>_. (\<lambda>_. True, 1)) (Op_put ''a'' ''1'' 3) e = Inr (t, e') \<and> eng_inv sample_env disk' tb' 0 ess' e' \<and>
     concat ess' @ disk_versions tb' e' = [entry_of ''a'' ''1'' 3]"
proof -
  obtain e where e: "LSMEngine_new sample_env empty_fs ''d'' [] = Inr e"
    "eng_inv sample_env (\<lambda>_. None) undefined 0 [[]] e" "disk_versions undefined e = []" "\<forall>l. level_ids e l = []"
    "eng_next_sst_id e = 1"
    using sample_engine by blast
  have can: "can_flush sample_env (spec_engine sample_env (Op_put ''a'' ''1'' 3) [[]]) e"
    using sample_can_flush [OF e(4,5)] by (simp add: spec_engine_def)
  have "concat (spec_engine sample_env (Op_put ''a'' ''1'' 3) [[]]) = [entry_of ''a'' ''1'' 3]"
    by (simp add: spec_engine_def concat_spec_put)
  with engine_step_refines [OF sample_plain(1) e(2) can, of "\<lambda>_. (\<lambda>_. True, 1)"] e(1,3) show ?thesis by auto
qed

text \<open>
  C3: after a put of a non-empty value whose transaction id is at least the ids that the current table has for
  the key, a lookup of the key by every reader that may see the id finds the value, whether or not the put
  flushed a table, and a lookup of every other key finds what it found before.
\<close>

theorem engine_put_then_get:
  assumes "plain_env v" and "eng_inv v disk tb n ess e" and "can_flush v (spec_step (per_mem_limit v) (Put key val t) ess) e"
    and "key \<noteq> []" and "val \<noteq> []" and "\<forall>y \<in> set (hd ess). ekey y = key \<longrightarrow> etranc y \<le> t" and "tid = 0 \<or> t \<le> tid"
    and "k \<noteq> []" and "k \<noteq> key" and "n + 4 * Suc (length (level_ids e 0)) + 2 * eng_cur_max_level e < 2 ^ 64"
  shows "\<exists>u e1 r1 e2 r2 e3. LSMEngine_put v rnd key val t e = Inr (u, e1) \<and>
    LSMEngine_get v key tid e1 = Inr (r1, e2) \<and> map_option fst r1 = Some val \<and>
    LSMEngine_get v k tid e1 = Inr (r2, e3) \<and> map_option fst r2 = newest_value k tid (concat ess @ disk_versions tb e)"
proof -
  let ?ess = "spec_step (per_mem_limit v) (Put key val t) ess"
  have ne: "ess \<noteq> []" using assms(2) by (auto simp: eng_inv_def mt_repr_Cons)
  have can: "can_flush v (spec_engine v (Op_put key val t) ess) e" using assms(3) by (simp add: spec_engine_def)
  from engine_step_ok [OF assms(1,2) can, of "\<lambda>_. rnd"] obtain u e1 disk' tb' ess' where
    p: "LSMEngine_put v rnd key val t e = Inr (u, e1)" "eng_inv v disk' tb' n ess' e1"
    "concat ess' @ disk_versions tb' e1 = concat ?ess @ disk_versions tb e"
    "length (level_ids e1 0) \<le> Suc (length (level_ids e 0))" "eng_cur_max_level e1 = eng_cur_max_level e"
    by (auto simp: spec_engine_def)
  have repr: "mt_repr (eng_memtable e1) ess'" "eng_ok v disk' tb' n e1" using p(2) by (auto simp: eng_inv_def)
  have room: "n + 4 * length (level_ids e1 0) + 2 * eng_cur_max_level e1 < 2 ^ 64" using assms(10) p(4,5) by simp
  from engine_get_ok [OF repr assms(4) room, of tid] engine_get_ok [OF repr assms(8) room, of tid] show ?thesis
    unfolding p(3) newest_value_put [OF ne assms(6,7,5)] newest_value_put_other [OF ne assms(9)]
    using p(1) by blast
qed

theorem engine_put_then_get_witness:
  "\<exists>e u e1 r1 e2 r2 e3. LSMEngine_new sample_env empty_fs ''d'' [] = Inr e \<and>
     LSMEngine_put sample_env (\<lambda>_. True, 1) ''a'' ''1'' 3 e = Inr (u, e1) \<and>
     LSMEngine_get sample_env ''a'' 5 e1 = Inr (r1, e2) \<and> map_option fst r1 = Some ''1'' \<and>
     LSMEngine_get sample_env ''b'' 5 e1 = Inr (r2, e3) \<and> map_option fst r2 = None"
proof -
  obtain e where e: "LSMEngine_new sample_env empty_fs ''d'' [] = Inr e"
    "eng_inv sample_env (\<lambda>_. None) undefined 0 [[]] e" "disk_versions undefined e = []" "\<forall>l. level_ids e l = []"
    "eng_cur_max_level e = 0" "eng_next_sst_id e = 1"
    using sample_engine by blast
  have none: "newest_value ''b'' 5 (concat [[]] @ disk_versions undefined e) = None"
    using e(3) by (simp add: newest_value_def version_of_def)
  have "\<exists>u e1 r1 e2 r2 e3. LSMEngine_put sample_env (\<lambda>_. True, 1) ''a'' ''1'' 3 e = Inr (u, e1) \<and>
     LSMEngine_get sample_env ''a'' 5 e1 = Inr (r1, e2) \<and> map_option fst r1 = Some ''1'' \<and>
     LSMEngine_get sample_env ''b'' 5 e1 = Inr (r2, e3) \<and>
     map_option fst r2 = newest_value ''b'' 5 (concat [[]] @ disk_versions undefined e)"
    by (rule engine_put_then_get [OF sample_plain(1) e(2) sample_can_flush [OF e(4,6)]]) (simp_all add: e(4,5))
  with e(1) none show ?thesis by auto
qed

end
