(* ===== verification/EngineCompact.thy ===== *)
theory EngineCompact
  imports EngineProps
begin

text \<open>
  Compaction: all tables of a level and of the next one are merged into new tables of the next level. The
  versions on disk, in the order in which lookups consult them, are assumed to have no version of a key
  before a newer one (\<open>newest_first\<close>), as it is when ids are drawn before every write; then merging
  changes no lookup. What can go wrong is one thing: when the last version completes a table, the builder
  that is left over is empty and building it throws.
\<close>

section \<open>Lists of versions\<close>

abbreviation vless :: "entry \<Rightarrow> entry \<Rightarrow> bool" where
  "vless x y \<equiv> node_less (version x) (version y)"

definition newest_first :: "entry list \<Rightarrow> bool" where
  "newest_first es \<longleftrightarrow> sorted_wrt (\<lambda>x y. ekey x = ekey y \<longrightarrow> etranc y < etranc x) es"

lemma vless_iff: "vless x y \<longleftrightarrow> ekey x < ekey y \<or> ekey x = ekey y \<and> etranc y < etranc x"
  by (auto simp: node_less_def version_def)

lemma vless_trans: "vless x y \<Longrightarrow> vless y z \<Longrightarrow> vless x z"
  by (auto simp: vless_iff)

lemma sorted_newest_first: "sorted_wrt vless es \<Longrightarrow> newest_first es"
  unfolding newest_first_def by (erule sorted_wrt_mono_rel [rotated]) (auto simp: vless_iff)

lemma newest_first_append:
  "newest_first (xs @ ys) \<longleftrightarrow> newest_first xs \<and> newest_first ys \<and>
     (\<forall>x \<in> set xs. \<forall>y \<in> set ys. ekey x = ekey y \<longrightarrow> etranc y < etranc x)"
  by (auto simp: newest_first_def sorted_wrt_append)

text \<open>In such a list, a lookup finds the visible version with the largest id: it depends on the set only.\<close>

lemma version_of_newest:
  assumes "newest_first es"
  shows "version_of key tid es = Some x \<longleftrightarrow>
    x \<in> set es \<and> ekey x = key \<and> visible tid x \<and>
    (\<forall>y \<in> set es. ekey y = key \<and> visible tid y \<longrightarrow> y = x \<or> etranc y < etranc x)"
  using assms
proof (induction es)
  case (Cons e es)
  have fst: "\<forall>y \<in> set es. ekey e = ekey y \<longrightarrow> etranc y < etranc e" and IH: "newest_first es"
    using Cons.prems by (auto simp: newest_first_def)
  show ?case
  proof (cases "ekey e = key \<and> visible tid e")
    case True
    then show ?thesis using fst by (auto simp: version_of_def)
  next
    case False
    then show ?thesis using Cons.IH [OF IH] by (auto simp: version_of_def)
  qed
qed (simp add: version_of_def)

lemma version_of_same_set:
  assumes "newest_first xs" and "newest_first ys" and "set xs = set ys"
  shows "version_of key tid xs = version_of key tid ys"
proof -
  have "version_of key tid xs = Some x \<longleftrightarrow> version_of key tid ys = Some x" for x
    unfolding version_of_newest [OF assms(1)] version_of_newest [OF assms(2)] assms(3) ..
  then show ?thesis by (metis option.exhaust)
qed

lemma merge2_mset: "mset (merge2 True xs ys) = mset xs + mset ys"
  by (induction True xs ys rule: merge2.induct) auto

lemma merge2_sorted:
  assumes "sorted_wrt vless xs" and "sorted_wrt vless ys" and "\<forall>x \<in> set xs. \<forall>y \<in> set ys. version x \<noteq> version y"
  shows "sorted_wrt vless (merge2 True xs ys)"
  using assms
proof (induction True xs ys rule: merge2.induct)
  case (3 a as b bs)
  have set: "set (merge2 True us vs) = set us \<union> set vs" for us vs
    using arg_cong [OF merge2_mset [of us vs], of set_mset] by simp
  have ne: "version a \<noteq> version b" using "3.prems"(3) by simp
  show ?case
  proof (cases "ekey a < ekey b \<or> ekey a = ekey b \<and> etranc b < etranc a")
    case True
    then have "vless a b" by (simp add: vless_iff)
    with "3.prems" True "3.hyps"(1) show ?thesis
      by (auto simp: set intro: vless_trans)
  next
    case False
    then have "vless b a" using ne unfolding vless_iff by (auto simp: version_def)
    with "3.prems" False "3.hyps"(3) show ?thesis
      by (auto simp: set intro: vless_trans)
  qed
qed simp_all

text \<open>All versions of the store fit: every list of some of them, in order, can become a table.\<close>

definition versions_fit :: "nat \<Rightarrow> entry list \<Rightarrow> bool" where
  "versions_fit cap vs \<longleftrightarrow>
     (\<forall>e \<in> set vs. small_entry e \<and> ekey e \<noteq> []) \<and> (\<forall>k. cap + key_bytes k vs < 2 ^ 16) \<and>
     4 * length (entries_bytes vs) + 8 < 2 ^ 32"

lemma length_entries_bytes: "length (entries_bytes es) = sum_mset (image_mset (\<lambda>e. length (entry_bytes e)) (mset es))"
  by (induction es) simp_all

lemma sum_mset_image_mono: "A \<subseteq># B \<Longrightarrow> sum_mset (image_mset f A) \<le> sum_mset (image_mset f B)" for f :: "'a \<Rightarrow> nat"
  by (auto simp: subset_mset.le_iff_add)

lemma fits_part:
  assumes "versions_fit cap vs" and "mset cs \<subseteq># mset vs" and "sorted_wrt vless cs" and "cs \<noteq> []"
  shows "fits_table cap cs"
proof -
  have len: "length (entries_bytes cs) \<le> length (entries_bytes vs)"
    unfolding length_entries_bytes by (rule sum_mset_image_mono [OF assms(2)])
  have "key_bytes k cs \<le> key_bytes k vs" for k
  proof -
    have "mset (filter (\<lambda>e. ekey e = k) cs) \<subseteq># mset (filter (\<lambda>e. ekey e = k) vs)"
      using assms(2) by (simp add: multiset_filter_mono)
    then show ?thesis by (simp add: key_bytes_def length_entries_bytes sum_mset_image_mono)
  qed
  then have "cap + key_bytes k cs < 2 ^ 16" for k
    using assms(1) by (meson add_le_cancel_left le_less_trans versions_fit_def)
  moreover have "sorted_entries cs"
    unfolding sorted_entries_def using assms(3)
    by (rule sorted_wrt_mono_rel [rotated]) (auto simp: vless_iff entry_le_def)
  ultimately have "buildable cap cs"
    using assms(1) set_mset_mono [OF assms(2)] unfolding buildable_def versions_fit_def
    by auto
  with len assms(1,4) show ?thesis by (auto simp: fits_table_def versions_fit_def)
qed

section \<open>The builder of a compaction\<close>

abbreviation plain_builder :: "env \<Rightarrow> sst_builder" where
  "plain_builder v \<equiv> SSTBuilder_new (env_dval v) (of_int (bloom_filter_expected_size (env_cfg v)))
     (bloom_filter_expected_error_rate (env_cfg v)) (block_size v) True"

definition builder_for :: "env \<Rightarrow> filesys \<Rightarrow> entry list \<Rightarrow> sst_builder \<Rightarrow> bool" where
  "builder_for v fs cs sb \<longleftrightarrow> SSTBuilder_adds (env_hash v) cs (fs, plain_builder v) = Inr (fs, sb)"

lemma builder_for_new [simp]: "builder_for v fs [] (plain_builder v)"
  by (simp add: builder_for_def)

lemma builder_adds_append: "SSTBuilder_adds h (xs @ ys) s = bindE (SSTBuilder_adds h xs s) (SSTBuilder_adds h ys)"
proof (induction xs arbitrary: s)
  case (Cons x xs)
  then have "SSTBuilder_adds h (xs @ ys) = (\<lambda>s. bindE (SSTBuilder_adds h xs s) (SSTBuilder_adds h ys))" by (intro ext)
  then show ?case by (simp add: bindE_assoc)
qed simp

lemma plain_builder_inv:
  assumes "plain_env v"
  shows "builder_inv (env_hash v) (plain_builder v) [] []"
  using assms by (intro builder_new_inv) (simp add: plain_env_def fine_bloom_def)

lemma builder_for_add:
  assumes env: "plain_env v" and b: "builder_for v fs cs sb" and ok: "buildable (block_size v) (cs @ [x])"
  shows "\<exists>sb'. SSTBuilder_add (env_hash v) (ekey x) (evalue x) (etranc x) (fs, sb) = Inr (fs, sb') \<and>
    builder_for v fs (cs @ [x]) sb'"
proof -
  have "buildable (capacity (sb_block (plain_builder v))) (all_entries [] @ [] @ cs @ [x])"
    using ok by (simp add: SSTBuilder_new_def)
  from builder_adds_ok [OF plain_builder_inv [OF env] this, of fs]
  obtain sb' where adds: "SSTBuilder_adds (env_hash v) (cs @ [x]) (fs, plain_builder v) = Inr (fs, sb')"
    by (auto simp: SSTBuilder_new_def)
  then have "SSTBuilder_adds (env_hash v) [x] (fs, sb) = Inr (fs, sb')"
    using b by (simp only: builder_adds_append builder_for_def bindE_simps)
  then have "SSTBuilder_add (env_hash v) (ekey x) (evalue x) (etranc x) (fs, sb) = Inr (fs, sb')"
    by (auto simp: bindE_eq_Inr)
  with adds show ?thesis by (auto simp: builder_for_def)
qed

lemma build_empty:
  assumes "builder_for v fs [] sb"
  shows "0 < SSTBuilder_real_size sb" and "SSTBuilder_build h sid path c (fs', sb) = Inl (Runtime_error ''Cannot build empty SST'')"
  using assms
  by (auto simp: builder_for_def SSTBuilder_new_def new_block_def SSTBuilder_real_size_def Block_cur_size_def
      SSTBuilder_build_def Block_is_empty_def)

text \<open>The tables of an engine that is about to write new ones.\<close>

definition gen_ok :: "env \<Rightarrow> (cache_key \<Rightarrow> block option) \<Rightarrow> table set \<Rightarrow> nat \<Rightarrow> engine \<Rightarrow> bool" where
  "gen_ok v disk T n e \<longleftrightarrow>
     tables_ok (env_hash v) disk T n (eng_store e) \<and> (\<forall>t \<in> T. plain_table (st_fs (eng_store e)) t) \<and> unused_numbers disk e"

lemma finish_table_ok:
  assumes env: "plain_env v" and gen: "gen_ok v disk T n e" and fits: "fits_table (block_size v) cs"
    and b: "builder_for v (st_fs (eng_store e)) cs sb" and room: "unat (eng_next_sst_id e) + 1 < 2 ^ 31"
  shows "\<exists>s ps fs' disk'. finish_table v l sb e =
      Inr (s, e\<lparr>eng_next_sst_id := eng_next_sst_id e + 1, eng_store := (eng_store e)\<lparr>st_fs := fs'\<rparr>\<rparr>) \<and>
    all_entries ps = cs \<and> sst_id s = eng_next_sst_id e \<and>
    gen_ok v disk' (insert (s, ps, \<lambda>x. x) T) n
      (e\<lparr>eng_next_sst_id := eng_next_sst_id e + 1, eng_store := (eng_store e)\<lparr>st_fs := fs'\<rparr>\<rparr>)"
proof -
  let ?i = "eng_next_sst_id e" and ?p = "LSMEngine_get_sst_path (eng_next_sst_id e) l e"
  have ok: "tables_ok (env_hash v) disk T n (eng_store e)" "\<forall>t \<in> T. plain_table (st_fs (eng_store e)) t"
    and un: "unused_numbers disk e"
    using gen by (auto simp: gen_ok_def)
  have path: "dir (st_fs (eng_store e)) ?p = None" and below: "disk_below disk ?i" and small: "unat ?i < 2 ^ 31"
    using un room by (auto simp: unused_numbers_def)
  have bl: "fine_bloom (BloomFilter_new (env_dval v) (of_int (bloom_filter_expected_size (env_cfg v)))
      (bloom_filter_expected_error_rate (env_cfg v)))"
    using env by (simp add: plain_env_def)
  obtain fs' s ps where t: "build_table (env_hash v) (plain_builder v) ?i ?p cs (st_fs (eng_store e)) = Inr (fs', s)"
    "all_entries ps = cs" "sst_id s = ?i"
    "tables_ok (env_hash v) (disk_with disk ?i ps) (insert (s, ps, \<lambda>x. x) T) n ((eng_store e)\<lparr>st_fs := fs'\<rparr>)"
    "\<forall>t \<in> insert (s, ps, \<lambda>x. x) T. plain_table fs' t" "fs_extends (st_fs (eng_store e)) ?p fs'"
    using table_built [OF ok path below small fits bl] by blast
  let ?e = "e\<lparr>eng_next_sst_id := ?i + 1, eng_store := (eng_store e)\<lparr>st_fs := fs'\<rparr>\<rparr>"
  have "unused_numbers (disk_with disk ?i ps) ?e"
    using unused_after [OF un t(6) room, of ?e ps] by simp
  with t(4,5) have "gen_ok v (disk_with disk ?i ps) (insert (s, ps, \<lambda>x. x) T) n ?e" by (simp add: gen_ok_def)
  moreover have "LSMEngine_get_sst_path ?i l (e\<lparr>eng_next_sst_id := ?i + 1\<rparr>) = ?p"
    by (simp add: LSMEngine_get_sst_path_def)
  then have "finish_table v l sb e = Inr (s, ?e)"
    using t(1) b by (simp add: finish_table_def Let_def build_table_def builder_for_def)
  ultimately show ?thesis using t(2,3) by blast
qed

section \<open>Reading leaves the files alone\<close>

lemma read_block_fs: "SST_read_block h s i w = Inr (b, w') \<Longrightarrow> st_fs w' = st_fs w"
  by (auto simp: SST_read_block_def Let_def bindE_eq_Inr split: if_splits option.splits)

lemma sst_new_fs: "SstIterator_new h s tid keep w = Inr (it, w') \<Longrightarrow> st_fs w' = st_fs w"
  by (auto simp: SstIterator_new_def SstIterator_seek_first_def bindE_eq_Inr split: if_splits option.splits dest!: read_block_fs)

lemma sst_incr_fs: "SstIterator_incr h it w = Inr (it', w') \<Longrightarrow> st_fs w' = st_fs w"
  by (auto simp: SstIterator_incr_def Let_def bindE_eq_Inr split: if_splits option.splits dest!: read_block_fs)

lemma concact_incr_fs: "ConcactIterator_incr h it w = Inr (it', w') \<Longrightarrow> st_fs w' = st_fs w"
  by (auto simp: ConcactIterator_incr_def Let_def bindE_eq_Inr SST_begin_def split: if_splits dest!: sst_incr_fs sst_new_fs)

lemma base_incr_fs: "Base_incr h b w = Inr (b', w') \<Longrightarrow> st_fs w' = st_fs w"
  by (auto simp: Base_incr_def bindE_eq_Inr split: base_iter.splits dest!: concact_incr_fs)

lemma skip_invisible_fs: "skip_invisible_loop h n mx b w = Inr (b', w') \<Longrightarrow> st_fs w' = st_fs w"
  by (induction n arbitrary: b w) (auto simp: bindE_eq_Inr split: if_splits dest!: base_incr_fs)

lemma skip_it_b_fs: "skip_it_b h t w = Inr (t', w') \<Longrightarrow> st_fs w' = st_fs w"
  unfolding skip_it_b_def bindE_eq_Inr by (auto simp: bindE_eq_Inr simp del: bindE_assoc split: if_splits dest: base_incr_fs)

lemma skip_by_tranc_fs: "TwoMergeIterator_skip_by_tranc_id h n t w = Inr (t', w') \<Longrightarrow> st_fs w' = st_fs w"
  by (auto simp: TwoMergeIterator_skip_by_tranc_id_def bindE_eq_Inr split: if_splits dest!: skip_invisible_fs)

lemma settle_fs: "settle h n t w = Inr (t', w') \<Longrightarrow> st_fs w' = st_fs w"
  by (auto simp: settle_def bindE_eq_Inr dest!: skip_by_tranc_fs skip_it_b_fs)

lemma merge_incr_fs: "TwoMergeIterator_incr h n t w = Inr (t', w') \<Longrightarrow> st_fs w' = st_fs w"
  by (auto simp: TwoMergeIterator_incr_def bindE_eq_Inr split: if_splits dest!: base_incr_fs settle_fs)

section \<open>Writing the merged versions\<close>

lemma concact_delivers_mono:
  assumes "concact_delivers T tid keep c es" and "T \<subseteq> U"
  shows "concact_delivers U tid keep c es"
  using assms(1) unfolding concact_delivers_def
proof (elim conjE disjE exE, goal_cases)
  case (2 s ps rv later i)
  from subset_trans [OF 2(3) assms(2)] 2 show ?case
    by (intro conjI disjI2 exI [of _ s] exI [of _ ps] exI [of _ rv] exI [of _ later] exI [of _ i]) assumption+
qed simp

lemma base_delivers_mono: "base_delivers T tid keep b es \<Longrightarrow> T \<subseteq> U \<Longrightarrow> base_delivers U tid keep b es"
  using concact_delivers_mono by (auto simp: base_delivers_def split: base_iter.splits)

lemma merge_delivers_mono: "merge_delivers T tid keep t es \<Longrightarrow> T \<subseteq> U \<Longrightarrow> merge_delivers U tid keep t es"
  unfolding merge_delivers_def using base_delivers_mono by blast

lemma same_key_next_ok:
  assumes "merge_delivers T 0 True it es" and "tables_ok h disk T n w"
  shows "\<exists>it'. same_key_next key it w = Inr (es \<noteq> [] \<and> ekey (hd es) = key, it') \<and> merge_delivers T 0 True it' es"
proof (cases es)
  case Nil
  then show ?thesis using merge_ends [OF assms] assms(1) by (auto simp: same_key_next_def)
next
  case (Cons x xs)
  then obtain it' where "TwoMergeIterator_deref it w = Inr ((ekey x, evalue x), it')" "merge_delivers T 0 True it' es"
    using merge_deref assms by blast
  then show ?thesis using merge_ends [OF assms] Cons by (intro exI [of _ it']) (simp add: same_key_next_def)
qed

lemma split_at_key:
  assumes "sorted_wrt vless (cs @ x # es)" and "es = [] \<or> ekey (hd es) \<noteq> ekey x"
  shows "\<forall>a \<in> set (cs @ [x]). \<forall>b \<in> set es. ekey a < ekey b"
proof (cases es)
  case (Cons y ys)
  then have "ekey x < ekey y" using assms by (auto simp: sorted_wrt_append vless_iff)
  moreover have "\<forall>a \<in> set cs. vless a x" "\<forall>b \<in> set ys. vless y b"
    using assms(1) Cons by (auto simp: sorted_wrt_append)
  ultimately show ?thesis using Cons by (fastforce simp: vless_iff)
qed simp

text \<open>What the loop has produced: the tables \<open>ts\<close> with consecutive numbers, and a builder that holds \<open>cs\<close>.\<close>

definition generated ::
  "env \<Rightarrow> (cache_key \<Rightarrow> block option) \<Rightarrow> table set \<Rightarrow> nat \<Rightarrow> engine \<Rightarrow> engine \<Rightarrow> table list \<Rightarrow> entry list \<Rightarrow> sst_builder \<Rightarrow> bool" where
  "generated v disk T n e e' ts cs sb \<longleftrightarrow>
     e' = e\<lparr>eng_next_sst_id := eng_next_sst_id e + of_nat (length ts), eng_store := eng_store e'\<rparr> \<and>
     gen_ok v disk (set ts \<union> T) n e' \<and> builder_for v (st_fs (eng_store e')) cs sb \<and>
     map (\<lambda>t. sst_id (fst t)) ts = map (\<lambda>i. eng_next_sst_id e + of_nat i) [0..<length ts] \<and>
     sorted_wrt table_before ts \<and> (\<forall>t \<in> set ts. table_entries t \<noteq> []) \<and>
     (\<forall>t \<in> set ts. \<forall>a \<in> set (table_entries t). \<forall>b \<in> set cs. ekey a < ekey b)"

lemma generated_Cons:
  assumes g: "generated v disk (insert t T) n (e\<lparr>eng_next_sst_id := eng_next_sst_id e + 1, eng_store := w\<rparr>) e' ts cs sb"
    and t: "sst_id (fst t) = eng_next_sst_id e" "table_entries t \<noteq> []"
    and sep: "\<forall>a \<in> set (table_entries t). \<forall>b \<in> set (concat (map table_entries ts) @ cs). ekey a < ekey b"
  shows "generated v disk T n e e' (t # ts) cs sb"
proof -
  have "\<forall>u \<in> set ts. table_before t u" "\<forall>a \<in> set (table_entries t). \<forall>b \<in> set cs. ekey a < ekey b"
    using sep by (auto simp: table_before_def)
  moreover have "map (\<lambda>i. eng_next_sst_id e + of_nat i) [0..<length (t # ts)] =
      eng_next_sst_id e # map (\<lambda>i. eng_next_sst_id e + 1 + of_nat i) [0..<length ts]"
    by (simp add: upt_conv_Cons map_Suc_upt [symmetric] add.assoc del: upt_Suc)
  ultimately show ?thesis
    using g t unfolding generated_def by (simp add: add.assoc del: upt_Suc)
qed

lemma gen_step:
  assumes env: "plain_env v" and del: "merge_delivers T 0 True it (x # es)" and gen: "gen_ok v disk T n e"
    and b: "builder_for v (st_fs (eng_store e)) cs sb" and ok: "buildable (block_size v) (cs @ [x])" and room: "n + 8 < 2 ^ 64"
  shows "\<exists>it' w sb' n'. st_fs w = st_fs (eng_store e) \<and> gen_ok v disk T n' (e\<lparr>eng_store := w\<rparr>) \<and> n' \<le> n + 8 \<and>
    merge_delivers T 0 True it' es \<and> builder_for v (st_fs (eng_store e)) (cs @ [x]) sb' \<and>
    gen_loop v (Suc m) target l it sb new_ssts e =
      (if \<not> (es \<noteq> [] \<and> ekey (hd es) = ekey x) \<and> unat target \<le> SSTBuilder_estimated_size sb' then
         bindE (finish_table v l sb' (e\<lparr>eng_store := w\<rparr>)) (\<lambda>(s, e).
           gen_loop v m target l it' (plain_builder v) (new_ssts @ [s]) e)
       else gen_loop v m target l it' sb' new_ssts (e\<lparr>eng_store := w\<rparr>))"
proof -
  have t: "tables_ok (env_hash v) disk T n (eng_store e)" using gen by (simp add: gen_ok_def)
  obtain it1 where it1: "TwoMergeIterator_deref it (eng_store e) = Inr ((ekey x, evalue x), it1)"
    "merge_delivers T 0 True it1 (x # es)"
    using merge_deref [OF del t] by blast
  note tr = merge_tranc [OF it1(2) t]
  obtain sb' where sb': "SSTBuilder_add (env_hash v) (ekey x) (evalue x) (etranc x) (st_fs (eng_store e), sb) =
      Inr (st_fs (eng_store e), sb')" "builder_for v (st_fs (eng_store e)) (cs @ [x]) sb'"
    using builder_for_add [OF env b ok] by blast
  obtain it2 w n' where it2: "TwoMergeIterator_incr (env_hash v) (env_steps v) it1 (eng_store e) = Inr (it2, w)"
    "merge_delivers T 0 True it2 es" "tables_ok (env_hash v) disk T n' w" "n' \<le> n + 8" "st_fs w = st_fs (eng_store e)"
    using merge_advance [OF _ it1(2) t room] merge_incr_fs by (metis merge_mode_def)
  obtain it3 where it3: "same_key_next (ekey x) it2 w = Inr (es \<noteq> [] \<and> ekey (hd es) = ekey x, it3)"
    "merge_delivers T 0 True it3 es"
    using same_key_next_ok [OF it2(2,3)] by blast
  have e: "e\<lparr>eng_store := (eng_store e)\<lparr>st_fs := st_fs (eng_store e)\<rparr>\<rparr> = e" by simp
  have "LSMEngine_get_sst_path i l (e\<lparr>eng_store := w\<rparr>) = LSMEngine_get_sst_path i l e" for i l
    by (simp add: LSMEngine_get_sst_path_def)
  then have g: "gen_ok v disk T n' (e\<lparr>eng_store := w\<rparr>)"
    using gen it2(3,5) by (simp add: gen_ok_def unused_numbers_def)
  have "gen_loop v (Suc m) target l it sb new_ssts e =
      (if \<not> (es \<noteq> [] \<and> ekey (hd es) = ekey x) \<and> unat target \<le> SSTBuilder_estimated_size sb' then
         bindE (finish_table v l sb' (e\<lparr>eng_store := w\<rparr>)) (\<lambda>(s, e).
           gen_loop v m target l it3 (plain_builder v) (new_ssts @ [s]) e)
       else gen_loop v m target l it3 sb' new_ssts (e\<lparr>eng_store := w\<rparr>))"
    using merge_ends [OF del t] it1(1) tr sb'(1) it2(1) it3(1) e by (simp add: new_builder_plain [OF env])
  with it2(4,5) it3(2) sb'(2) g show ?thesis by blast
qed

lemma gen_loop_ok:
  assumes env: "plain_env v" and fit: "versions_fit (block_size v) vs"
  shows "merge_delivers T 0 True it es \<Longrightarrow> gen_ok v disk T n e \<Longrightarrow> builder_for v (st_fs (eng_store e)) cs sb \<Longrightarrow>
    sorted_wrt vless (cs @ es) \<Longrightarrow> mset (cs @ es) \<subseteq># mset vs \<Longrightarrow> length es < fuel \<Longrightarrow> n + 8 * length es < 2 ^ 64 \<Longrightarrow>
    unat (eng_next_sst_id e) + length es + 1 < 2 ^ 31 \<Longrightarrow>
    \<exists>ts cs' sb' e' disk' n'. gen_loop v fuel target l it sb new_ssts e = Inr (new_ssts @ map fst ts, sb', e') \<and>
      generated v disk' T n' e e' ts cs' sb' \<and> concat (map table_entries ts) @ cs' = cs @ es \<and>
      length ts \<le> length es \<and> n' \<le> n + 8 * length es"
proof (induction es arbitrary: T it disk n e cs sb new_ssts fuel)
  case Nil
  then obtain m where m: "fuel = Suc m" by (cases fuel) auto
  have t: "tables_ok (env_hash v) disk T n (eng_store e)" using Nil.prems(2) by (simp add: gen_ok_def)
  have "gen_loop v fuel target l it sb new_ssts e = Inr (new_ssts, sb, e)"
    using merge_ends [OF Nil.prems(1) t] m by simp
  moreover have "generated v disk T n e e [] cs sb" using Nil.prems by (simp add: generated_def)
  ultimately show ?case
    by (intro exI [of _ "[]"] exI [of _ cs] exI [of _ sb] exI [of _ e] exI [of _ disk] exI [of _ n]) simp
next
  case (Cons x es)
  then obtain m where m: "fuel = Suc m" "length es < m" by (cases fuel) auto
  have fits: "fits_table (block_size v) (cs @ [x])"
  proof (rule fits_part [OF fit])
    have "mset (cs @ [x]) \<subseteq># mset (cs @ x # es)" by simp
    then show "mset (cs @ [x]) \<subseteq># mset vs" using Cons.prems(5) by (rule subset_mset.order_trans)
    show "sorted_wrt vless (cs @ [x])" using Cons.prems(4) by (auto simp: sorted_wrt_append)
  qed simp
  have bld: "buildable (block_size v) (cs @ [x])" using fits by (simp add: fits_table_def)
  have room: "n + 8 < 2 ^ 64" using Cons.prems(7) by simp
  from gen_step [OF env Cons.prems(1,2,3) bld room, of m target l new_ssts]
  obtain it' w sb' n1 where g: "st_fs w = st_fs (eng_store e)" "gen_ok v disk T n1 (e\<lparr>eng_store := w\<rparr>)" "n1 \<le> n + 8"
    "merge_delivers T 0 True it' es" "builder_for v (st_fs (eng_store e)) (cs @ [x]) sb'"
    "gen_loop v (Suc m) target l it sb new_ssts e =
      (if \<not> (es \<noteq> [] \<and> ekey (hd es) = ekey x) \<and> unat target \<le> SSTBuilder_estimated_size sb' then
         bindE (finish_table v l sb' (e\<lparr>eng_store := w\<rparr>)) (\<lambda>(s, e).
           gen_loop v m target l it' (plain_builder v) (new_ssts @ [s]) e)
       else gen_loop v m target l it' sb' new_ssts (e\<lparr>eng_store := w\<rparr>))"
    by (elim exE conjE) (intro that; assumption)
  let ?e1 = "e\<lparr>eng_store := w\<rparr>"
  have b1: "builder_for v (st_fs (eng_store ?e1)) (cs @ [x]) sb'" using g(1,5) by simp
  have room1: "n1 + 8 * length es < 2 ^ 64" using g(3) Cons.prems(7) by simp
  show ?case
  proof (cases "\<not> (es \<noteq> [] \<and> ekey (hd es) = ekey x) \<and> unat target \<le> SSTBuilder_estimated_size sb'")
    case False
    have "sorted_wrt vless ((cs @ [x]) @ es)" "mset ((cs @ [x]) @ es) \<subseteq># mset vs" "unat (eng_next_sst_id ?e1) + length es + 1 < 2 ^ 31"
      using Cons.prems(4,5,8) by simp_all
    from Cons.IH [OF g(4,2) b1 this(1,2) m(2) room1 this(3), of new_ssts]
    obtain ts cs' sb2 e' disk' n' where r: "gen_loop v m target l it' sb' new_ssts ?e1 = Inr (new_ssts @ map fst ts, sb2, e')"
      "generated v disk' T n' ?e1 e' ts cs' sb2" "concat (map table_entries ts) @ cs' = (cs @ [x]) @ es"
      "length ts \<le> length es" "n' \<le> n1 + 8 * length es"
      by (elim exE conjE) (intro that; assumption)
    have "generated v disk' T n' e e' ts cs' sb2" using r(2) by (simp add: generated_def)
    moreover have "gen_loop v fuel target l it sb new_ssts e = Inr (new_ssts @ map fst ts, sb2, e')"
      using g(6) r(1) m(1) unfolding if_not_P [OF False] by simp
    ultimately show ?thesis
      using r(3,4,5) g(3) by (intro exI [of _ ts] exI [of _ cs'] exI [of _ sb2] exI [of _ e'] exI [of _ disk'] exI [of _ n']) simp
  next
    case True
    have "unat (eng_next_sst_id ?e1) + 1 < 2 ^ 31" using Cons.prems(8) by simp
    from finish_table_ok [OF env g(2) fits b1 this, of l] obtain s ps fs' disk1 where
      f: "finish_table v l sb' ?e1 = Inr (s, ?e1\<lparr>eng_next_sst_id := eng_next_sst_id e + 1, eng_store := w\<lparr>st_fs := fs'\<rparr>\<rparr>)"
      "all_entries ps = cs @ [x]" "sst_id s = eng_next_sst_id e"
      "gen_ok v disk1 (insert (s, ps, \<lambda>x. x) T) n1 (?e1\<lparr>eng_next_sst_id := eng_next_sst_id e + 1, eng_store := w\<lparr>st_fs := fs'\<rparr>\<rparr>)"
      by auto
    let ?t = "(s, ps, \<lambda>x :: string. x)" and ?e2 = "e\<lparr>eng_next_sst_id := eng_next_sst_id e + 1, eng_store := w\<lparr>st_fs := fs'\<rparr>\<rparr>"
    have ent: "table_entries ?t = cs @ [x]" using f(2) by (simp add: table_entries_simp)
    have e2: "?e1\<lparr>eng_next_sst_id := eng_next_sst_id e + 1, eng_store := w\<lparr>st_fs := fs'\<rparr>\<rparr> = ?e2" by simp
    have "unat (eng_next_sst_id e + 1) = unat (eng_next_sst_id e) + 1"
      using Cons.prems(8) by (simp add: unat_word_ariths)
    then have nx: "unat (eng_next_sst_id ?e2) + length es + 1 < 2 ^ 31" using Cons.prems(8) by simp
    have del: "merge_delivers (insert ?t T) 0 True it' es" by (rule merge_delivers_mono [OF g(4)]) blast
    have "mset ([] @ es) \<subseteq># mset (cs @ x # es)" by simp
    then have "sorted_wrt vless ([] @ es)" "mset ([] @ es) \<subseteq># mset vs"
      using Cons.prems(4,5) by (auto simp: sorted_wrt_append simp del: mset_append mset.simps intro: subset_mset.order_trans)
    from Cons.IH [OF del f(4) [unfolded e2] builder_for_new this m(2) room1 nx, of "new_ssts @ [s]"]
    obtain ts cs' sb2 e' disk' n' where r: "gen_loop v m target l it' (plain_builder v) (new_ssts @ [s]) ?e2 =
        Inr ((new_ssts @ [s]) @ map fst ts, sb2, e')"
      "generated v disk' (insert ?t T) n' ?e2 e' ts cs' sb2" "concat (map table_entries ts) @ cs' = es"
      "length ts \<le> length es" "n' \<le> n1 + 8 * length es"
      by (elim exE conjE) (intro that; simp)
    have sep: "\<forall>a \<in> set (cs @ [x]). \<forall>b \<in> set es. ekey a < ekey b"
      using split_at_key [of cs x es] Cons.prems(4) True by blast
    have "generated v disk' T n' e e' (?t # ts) cs' sb2"
    proof (rule generated_Cons [OF r(2)])
      show "\<forall>a \<in> set (table_entries ?t). \<forall>b \<in> set (concat (map table_entries ts) @ cs'). ekey a < ekey b"
        unfolding ent r(3) by (rule sep)
    qed (simp_all add: f(3) ent)
    moreover have "gen_loop v fuel target l it sb new_ssts e = Inr (new_ssts @ map fst (?t # ts), sb2, e')"
      using g(6) r(1) f(1) m(1) unfolding if_P [OF True] by simp
    moreover have "concat (map table_entries (?t # ts)) @ cs' = cs @ x # es" using r(3) ent by simp
    ultimately show ?thesis
      using r(4,5) g(3)
      by (intro exI [of _ "?t # ts"] exI [of _ cs'] exI [of _ sb2] exI [of _ e'] exI [of _ disk'] exI [of _ n']) simp
  qed
qed


lemma generated_snoc:
  assumes g: "generated v disk T n e e1 ts cs sb" and f: "finish_table v l sb e1 =
      Inr (s, e1\<lparr>eng_next_sst_id := eng_next_sst_id e1 + 1, eng_store := w\<rparr>)"
    and t: "all_entries ps = cs" "sst_id s = eng_next_sst_id e1" "cs \<noteq> []"
    and ok: "gen_ok v disk' (insert (s, ps, \<lambda>x. x) (set ts \<union> T)) n (e1\<lparr>eng_next_sst_id := eng_next_sst_id e1 + 1, eng_store := w\<rparr>)"
  shows "generated v disk' T n e (e1\<lparr>eng_next_sst_id := eng_next_sst_id e1 + 1, eng_store := w\<rparr>) (ts @ [(s, ps, \<lambda>x. x)])
    [] (plain_builder v)"
proof -
  have e1: "e1 = e\<lparr>eng_next_sst_id := eng_next_sst_id e + of_nat (length ts), eng_store := eng_store e1\<rparr>"
    and rest: "map (\<lambda>t. sst_id (fst t)) ts = map (\<lambda>i. eng_next_sst_id e + of_nat i) [0..<length ts]" "sorted_wrt table_before ts"
      "\<forall>t \<in> set ts. table_entries t \<noteq> []" "\<forall>t \<in> set ts. \<forall>a \<in> set (table_entries t). \<forall>b \<in> set cs. ekey a < ekey b"
    using g by (auto simp: generated_def)
  have nx: "eng_next_sst_id e1 = eng_next_sst_id e + of_nat (length ts)" by (subst e1) simp
  have ent: "table_entries (s, ps, \<lambda>x. x) = cs" using t(1) by (simp add: table_entries_simp)
  have "e1\<lparr>eng_next_sst_id := eng_next_sst_id e1 + 1, eng_store := w\<rparr> =
      e\<lparr>eng_next_sst_id := eng_next_sst_id e + of_nat (length (ts @ [(s, ps, \<lambda>x. x)])), eng_store := w\<rparr>"
    by (subst e1) (simp add: nx add.assoc)
  then show ?thesis
    using rest t(2,3) ok ent nx unfolding generated_def
    by (auto simp: sorted_wrt_append table_before_def)
qed

lemma gen_sst_ok:
  assumes env: "plain_env v" and fit: "versions_fit (block_size v) vs" and del: "merge_delivers T 0 True it es"
    and gen: "gen_ok v disk T n e" and srt: "sorted_wrt vless es" and sub: "mset es \<subseteq># mset vs" and fuel: "length es < env_steps v"
    and room: "n + 8 * length es < 2 ^ 64" "unat (eng_next_sst_id e) + length es + 1 < 2 ^ 31"
  shows "LSMEngine_gen_sst_from_iter v it target l e = Inl (Runtime_error ''Cannot build empty SST'') \<or>
    (\<exists>ts e' disk' n'. LSMEngine_gen_sst_from_iter v it target l e = Inr (map fst ts, e') \<and>
      generated v disk' T n' e e' ts [] (plain_builder v) \<and> concat (map table_entries ts) = es \<and>
      length ts \<le> length es + 1 \<and> n' \<le> n + 8 * length es)"
proof -
  have "sorted_wrt vless ([] @ es)" "mset ([] @ es) \<subseteq># mset vs" using srt sub by simp_all
  from gen_loop_ok [OF env fit del gen builder_for_new this fuel room, of target l "[]"]
  obtain ts cs sb e1 disk1 n1 where g: "gen_loop v (env_steps v) target l it (plain_builder v) [] e = Inr (map fst ts, sb, e1)"
    "generated v disk1 T n1 e e1 ts cs sb" "concat (map table_entries ts) @ cs = es" "length ts \<le> length es"
    "n1 \<le> n + 8 * length es"
    by (elim exE conjE) (intro that; simp)
  have b: "builder_for v (st_fs (eng_store e1)) cs sb" and g1: "gen_ok v disk1 (set ts \<union> T) n1 e1"
    and e1: "e1 = e\<lparr>eng_next_sst_id := eng_next_sst_id e + of_nat (length ts), eng_store := eng_store e1\<rparr>"
    using g(2) by (auto simp: generated_def)
  show ?thesis
  proof (cases "cs = []")
    case True
    with b have "finish_table v l sb e1 = Inl (Runtime_error ''Cannot build empty SST'')" "0 < SSTBuilder_real_size sb"
      using build_empty [of v _ sb] by (auto simp: finish_table_def Let_def)
    then show ?thesis using g(1) by (simp add: LSMEngine_gen_sst_from_iter_def new_builder_plain [OF env])
  next
    case False
    have "mset cs \<subseteq># mset es" "sorted_wrt vless cs" using g(3) srt by (auto simp: sorted_wrt_append)
    then have fits: "fits_table (block_size v) cs"
      using fits_part [OF fit] sub False by (metis subset_mset.order_trans)
    have nx: "eng_next_sst_id e1 = eng_next_sst_id e + of_nat (length ts)" by (subst e1) simp
    have "unat (eng_next_sst_id e1) + 1 < 2 ^ 31"
      using g(4) room(2) unfolding nx by (simp add: unat_word_ariths unat_of_nat)
    from finish_table_ok [OF env g1 fits b this, of l] obtain s ps fs' disk' where
      f: "finish_table v l sb e1 = Inr (s, e1\<lparr>eng_next_sst_id := eng_next_sst_id e1 + 1, eng_store := (eng_store e1)\<lparr>st_fs := fs'\<rparr>\<rparr>)"
      "all_entries ps = cs" "sst_id s = eng_next_sst_id e1"
      "gen_ok v disk' (insert (s, ps, \<lambda>x. x) (set ts \<union> T)) n1
        (e1\<lparr>eng_next_sst_id := eng_next_sst_id e1 + 1, eng_store := (eng_store e1)\<lparr>st_fs := fs'\<rparr>\<rparr>)"
      by blast
    note gs = generated_snoc [OF g(2) f(1,2,3) False f(4)]
    have "0 < SSTBuilder_real_size sb" by (simp add: SSTBuilder_real_size_def Block_cur_size_def)
    then have "LSMEngine_gen_sst_from_iter v it target l e =
        Inr (map fst (ts @ [(s, ps, \<lambda>x :: string. x)]), e1\<lparr>eng_next_sst_id := eng_next_sst_id e1 + 1, eng_store := (eng_store e1)\<lparr>st_fs := fs'\<rparr>\<rparr>)"
      using g(1) f(1) by (simp add: LSMEngine_gen_sst_from_iter_def new_builder_plain [OF env])
    moreover have "concat (map table_entries (ts @ [(s, ps, \<lambda>x. x)])) = es" using g(3) f(2) by (simp add: table_entries_simp)
    ultimately show ?thesis using gs g(4,5) by (intro disjI2 exI conjI) (assumption | simp)+
  qed
qed

section \<open>Collecting the versions of level 0\<close>

definition l0_item :: "sst \<Rightarrow> entry \<Rightarrow> search_item" where
  "l0_item s x = \<lparr>si_key = ekey x, si_value = evalue x, si_tranc_id = etranc x, si_idx = as_int (- uint (sst_id s)), si_level = 0\<rparr>"

lemma l0_item_version [simp]: "item_version (l0_item s x) = x"
  by (simp add: item_version_def l0_item_def)

lemma sst_key_at:
  assumes env: "sst_env h s ps disk rv w" and at: "sst_iter_at s ps i it"
  shows "\<exists>it'. SstIterator_key it = Inr (ekey (hd (sst_iter_entries ps it)), it') \<and> sst_iter_at s ps i it' \<and>
    sst_iter_entries ps it' = sst_iter_entries ps it \<and> same_options it it'"
proof -
  have ok: "parts_ok ps" using env by (auto simp: sst_env_def sst_repr_def)
  obtain bi p where bi: "m_block_it it = Some bi" "m_block_idx it = int i" "i < length ps"
    "block_iter_inv (p, decoded (ps ! i)) (snd (ps ! i)) bi" "current_index bi < length (snd (ps ! i))"
    "keep_all_versions bi = m_keep_all_versions it" "it_tranc_id bi = m_max_tranc_id it"
    using at by (auto simp: sst_iter_at_def)
  let ?e = "snd (ps ! i) ! current_index bi" and ?bi = "bi\<lparr>cached_value := Some (pair_of (snd (ps ! i) ! current_index bi))\<rparr>"
  have "it_block bi = Some (p, decoded (ps ! i))" "length (offsets (decoded (ps ! i))) = length (snd (ps ! i))"
    "read_pair (decoded (ps ! i)) (current_index bi) = Inr (pair_of ?e)"
    using bi(4,5) by (auto simp: block_iter_inv_def block_reads intro: read_pair_repr)
  then have arrow: "BlockIterator_arrow bi = Inr (pair_of ?e, ?bi)"
    using bi(4,5) by (cases "cached_value bi") (auto simp: BlockIterator_arrow_def BlockIterator_update_current_def block_iter_inv_def)
  let ?it = "it\<lparr>m_block_it := Some ?bi\<rparr>"
  have "SstIterator_key it = Inr (ekey ?e, ?it)" using bi(1) arrow by (simp add: SstIterator_key_def pair_of_def)
  moreover have "sst_iter_at s ps i ?it" using bi by (auto simp: sst_iter_at_def block_iter_inv_def)
  moreover have "sst_iter_entries ps ?it = sst_iter_entries ps it" using bi(1) by (simp add: sst_iter_entries_def)
  ultimately show ?thesis
    using sst_iter_entries_hd(2) [OF ok at bi(1)] by (intro exI [of _ ?it]) (simp add: same_options_def)
qed

lemma sst_cur_tranc_at:
  assumes env: "sst_env h s ps disk rv w" and at: "sst_iter_at s ps i it"
  shows "SstIterator_get_cur_tranc_id it = Inr (etranc (hd (sst_iter_entries ps it)))"
proof -
  have ok: "parts_ok ps" using env by (auto simp: sst_env_def sst_repr_def)
  obtain bi p where bi: "m_block_it it = Some bi" "block_iter_inv (p, decoded (ps ! i)) (snd (ps ! i)) bi"
    "current_index bi < length (snd (ps ! i))"
    using at by (auto simp: sst_iter_at_def)
  have "BlockIterator_get_cur_tranc_id bi = Inr (etranc (snd (ps ! i) ! current_index bi))"
    using bi(2,3) by (auto simp: BlockIterator_get_cur_tranc_id_def block_iter_inv_def block_reads)
  with bi(1) sst_iter_entries_hd(2) [OF ok at bi(1)] show ?thesis by (simp add: SstIterator_get_cur_tranc_id_def)
qed

lemma blocks_visible_all:
  assumes "parts_ok ps" and "set qs \<subseteq> set ps"
  shows "blocks_visible 0 qs"
  unfolding blocks_visible_def
proof
  fix p
  assume "p \<in> set qs"
  then have "part_ok p" using assms unfolding parts_ok_def by blast
  then have "hd (snd p) \<in> set (snd p)" by (simp add: part_ok_def)
  then show "\<exists>e \<in> set (snd p). visible 0 e" by (intro bexI [of _ "hd (snd p)"]) (simp_all add: visible_def)
qed

text \<open>An iterator over all versions of a table, standing at a version or at the end.\<close>

definition all_iter :: "table \<Rightarrow> sst_iter \<Rightarrow> entry list \<Rightarrow> bool" where
  "all_iter t it es = (case t of (s, ps, rv) \<Rightarrow>
     m_sst it = Some s \<and> m_max_tranc_id it = 0 \<and> m_keep_all_versions it \<and>
     es = map (read_version rv) (sst_iter_entries ps it) \<and> (m_block_it it = None \<or> (\<exists>i. sst_iter_at s ps i it)))"

lemma collect_items_ok:
  assumes "sst_env h s ps disk rv w" and "store_ok disk n w" and "all_iter (s, ps, rv) it es"
    and "length es < fuel" and "n + 2 * length es < 2 ^ 64"
  shows "\<exists>w' n'. collect_items h fuel it w = Inr (map (l0_item s) es, w') \<and> st_fs w' = st_fs w \<and> store_ok disk n' w' \<and>
    n' \<le> n + 2 * length es"
  using assms
proof (induction fuel arbitrary: it es w n)
  case (Suc m)
  note env = Suc.prems(1)
  have ok: "parts_ok ps" using env by (auto simp: sst_env_def sst_repr_def)
  have it: "m_sst it = Some s" "m_max_tranc_id it = 0" "m_keep_all_versions it"
    "es = map (read_version rv) (sst_iter_entries ps it)" "m_block_it it = None \<or> (\<exists>i. sst_iter_at s ps i it)"
    using Suc.prems(3) by (auto simp: all_iter_def)
  show ?case
  proof (cases "m_block_it it")
    case None
    then have "es = []" using it(4) by (simp add: sst_iter_entries_def)
    with None Suc.prems(2) show ?thesis
      by (auto simp: SstIterator_is_valid_def SstIterator_is_end_def)
  next
    case (Some bi)
    then obtain i where at: "sst_iter_at s ps i it" using it(5) by auto
    let ?x = "hd (sst_iter_entries ps it)"
    have ne: "sst_iter_entries ps it \<noteq> []" by (rule sst_iter_entries_hd(1) [OF ok at Some])
    then have es: "es = read_version rv ?x # map (read_version rv) (tl (sst_iter_entries ps it))"
      using it(4) by (cases "sst_iter_entries ps it") auto
    have valid: "SstIterator_is_valid it = Inr True" "\<not> SstIterator_is_end it" using sst_valid_at [OF env at it(1)] by blast+
    obtain it1 where it1: "SstIterator_key it = Inr (ekey ?x, it1)" "sst_iter_at s ps i it1"
      "sst_iter_entries ps it1 = sst_iter_entries ps it" "same_options it it1"
      using sst_key_at [OF env at] by blast
    have s1: "m_sst it1 = Some s" "m_max_tranc_id it1 = 0" using it1(4) it(1,2) by (auto simp: same_options_def)
    obtain it2 where it2: "SstIterator_deref it1 w = Inr (read_pair_of rv ?x, it2)" "sst_iter_at s ps i it2"
      "sst_iter_entries ps it2 = sst_iter_entries ps it" "m_sst it2 = Some s" "m_max_tranc_id it2 = 0"
      using sst_deref_at [OF env it1(2) s1(1)] it1(3) s1(2) by auto
    have keep2: "m_keep_all_versions it2"
      using deref_same_options [OF it2(1)] it1(4) it(3) by (auto simp: same_options_def)
    note tr = sst_cur_tranc_at [OF env it2(2), unfolded it2(3)]
    have vis: "blocks_visible (m_max_tranc_id it2) (drop (Suc i) ps)"
      using blocks_visible_all [OF ok set_drop_subset] it2(5) by simp
    have "Suc i < length ps \<longrightarrow> n + 2 < 2 ^ 64" using Suc.prems(5) es by simp
    from sst_incr_at [OF env it2(2,4) Suc.prems(2) this vis] obtain it3 w1 n1 where
      it3: "SstIterator_incr h it2 w = Inr (it3, w1)" "sst_iter_entries ps it3 = tl (sst_iter_entries ps it)"
      "st_fs w1 = st_fs w" "store_ok disk n1 w1" "n1 \<le> n + 2" "same_options it2 it3"
      "m_block_it it3 = None \<or> (\<exists>i'. sst_iter_at s ps i' it3)"
      unfolding it2(3) by blast
    have env1: "sst_env h s ps disk rv w1" using env it3(3) by (simp add: sst_env_def)
    have all3: "all_iter (s, ps, rv) it3 (map (read_version rv) (tl (sst_iter_entries ps it)))"
      using it3(2,6,7) it2(4,5) keep2 by (simp add: all_iter_def same_options_def)
    have len: "length (map (read_version rv) (tl (sst_iter_entries ps it))) < m"
      "n1 + 2 * length (map (read_version rv) (tl (sst_iter_entries ps it))) < 2 ^ 64"
      using Suc.prems(4,5) es it3(5) by (auto simp: es)
    from Suc.IH [OF env1 it3(4) all3 len] obtain w2 n2 where r: "collect_items h m it3 w1 =
        Inr (map (l0_item s) (map (read_version rv) (tl (sst_iter_entries ps it))), w2)" "st_fs w2 = st_fs w1"
      "store_ok disk n2 w2" "n2 \<le> n1 + 2 * length (map (read_version rv) (tl (sst_iter_entries ps it)))"
      by blast
    have "collect_items h (Suc m) it w = Inr (map (l0_item s) es, w2)"
      unfolding es using valid it1(1) it2(1,4) tr it3(1) r(1)
      by (simp add: read_pair_of_def l0_item_def read_version_def Let_def)
    moreover have "n2 \<le> n + 2 * length es" using r(4) it3(5) by (simp add: es)
    ultimately show ?thesis using r(2,3) it3(3) by (intro exI [of _ w2] exI [of _ n2]) simp
  qed
qed simp

lemma table_parts_ok: "tables_ok h disk T n w \<Longrightarrow> (s, ps, rv) \<in> T \<Longrightarrow> parts_ok ps \<and> ps \<noteq> []"
  using table_env [of h disk T n w s ps rv] by (auto simp: sst_env_def sst_repr_def)

lemma begin_all_ok:
  assumes "tables_ok (env_hash v) disk T n (eng_store e)" and "\<forall>i \<in> set ids. eng_ssts e i = Some (fst (tb i)) \<and> tb i \<in> T"
    and "n + 2 * length ids < 2 ^ 64"
  shows "\<exists>its w n'. begin_all v ids e = Inr (its, e\<lparr>eng_store := w\<rparr>) \<and> st_fs w = st_fs (eng_store e) \<and>
    tables_ok (env_hash v) disk T n' w \<and> n' \<le> n + 2 * length ids \<and>
    list_all2 (\<lambda>i it. all_iter (tb i) it (table_entries (tb i))) ids its"
  using assms
proof (induction ids arbitrary: e n)
  case Nil
  then show ?case by (auto intro!: exI [of _ "eng_store e"])
next
  case (Cons i ids)
  obtain s ps rv where t: "tb i = (s, ps, rv)" by (cases "tb i") auto
  have T: "(s, ps, rv) \<in> T" "sst_at i e = Inr s" using Cons.prems(2) t by (auto simp: sst_at_def)
  note env = table_env [OF Cons.prems(1) T(1)] and parts = table_parts_ok [OF Cons.prems(1) T(1)]
  have st: "store_ok disk n (eng_store e)" and room: "n + 2 < 2 ^ 64" using Cons.prems(1,3) by (auto simp: tables_ok_def)
  have "\<exists>x \<in> set (snd (hd ps)). visible 0 x"
    using blocks_visible_all [of ps "[hd ps]"] parts by (auto simp: blocks_visible_def)
  from SST_begin_at [OF env st room this, of True] obtain it w1 where
    it: "SST_begin (env_hash v) s 0 True (eng_store e) = Inr (it, w1)" "sst_iter_at s ps 0 it" "m_sst it = Some s"
    "sst_iter_entries ps it = block_versions True 0 (all_entries ps)" "st_fs w1 = st_fs (eng_store e)" "store_ok disk (n + 2) w1"
    "m_keep_all_versions it = True" "m_max_tranc_id it = 0"
    by blast
  let ?e1 = "e\<lparr>eng_store := w1\<rparr>"
  have ok1: "tables_ok (env_hash v) disk T (n + 2) (eng_store ?e1)" using tables_ok_step [OF Cons.prems(1) it(5,6)] by simp
  have "\<forall>i \<in> set ids. eng_ssts ?e1 i = Some (fst (tb i)) \<and> tb i \<in> T" "n + 2 + 2 * length ids < 2 ^ 64"
    using Cons.prems(2,3) by simp_all
  from Cons.IH [OF ok1 this] obtain its w n' where r: "begin_all v ids ?e1 = Inr (its, ?e1\<lparr>eng_store := w\<rparr>)"
    "st_fs w = st_fs w1" "tables_ok (env_hash v) disk T n' w" "n' \<le> n + 2 + 2 * length ids"
    "list_all2 (\<lambda>i it. all_iter (tb i) it (table_entries (tb i))) ids its"
    by auto
  have "all_iter (tb i) it (table_entries (tb i))"
    using it t by (auto simp: all_iter_def table_entries_def table_versions_def)
  with r it(1,5) T(2) show ?case
    by (intro exI [of _ "it # its"] exI [of _ w] exI [of _ n']) simp
qed

definition l0_items :: "(u64 \<Rightarrow> table) \<Rightarrow> u64 list \<Rightarrow> search_item list" where
  "l0_items tb ids = concat (map (\<lambda>i. map (l0_item (fst (tb i))) (table_entries (tb i))) ids)"

lemma l0_items_versions: "map item_version (l0_items tb ids) = concat (map (\<lambda>i. table_entries (tb i)) ids)"
  by (induction ids) (simp_all add: l0_items_def comp_def)

lemma collect_all_ok:
  assumes "list_all2 (\<lambda>i it. all_iter (tb i) it (table_entries (tb i))) ids its" and "tables_ok h disk T n w"
    and "\<forall>i \<in> set ids. tb i \<in> T" and "length (l0_items tb ids) < fuel" and "n + 2 * length (l0_items tb ids) < 2 ^ 64"
  shows "\<exists>w' n'. collect_all h fuel its w = Inr (l0_items tb ids, w') \<and> st_fs w' = st_fs w \<and> tables_ok h disk T n' w' \<and>
    n' \<le> n + 2 * length (l0_items tb ids)"
  using assms
proof (induction ids its arbitrary: n w rule: list_all2_induct)
  case Nil
  then show ?case by (auto simp: l0_items_def)
next
  case (Cons i ids it its)
  obtain s ps rv where t: "tb i = (s, ps, rv)" by (cases "tb i") auto
  have T: "(s, ps, rv) \<in> T" using Cons.prems(2) t by auto
  have st: "store_ok disk n w" using Cons.prems(1) by (simp add: tables_ok_def)
  have len: "length (l0_items tb (i # ids)) = length (table_entries (tb i)) + length (l0_items tb ids)"
    by (simp add: l0_items_def)
  have "length (table_entries (tb i)) < fuel" "n + 2 * length (table_entries (tb i)) < 2 ^ 64"
    using Cons.prems(3,4) len by simp_all
  from collect_items_ok [OF table_env [OF Cons.prems(1) T] st Cons.hyps(1) [unfolded t] this [unfolded t]]
  obtain w1 n1 where c: "collect_items h fuel it w = Inr (map (l0_item s) (table_entries (tb i)), w1)" "st_fs w1 = st_fs w"
    "store_ok disk n1 w1" "n1 \<le> n + 2 * length (table_entries (tb i))"
    unfolding t by blast
  have ok1: "tables_ok h disk T n1 w1" by (rule tables_ok_step [OF Cons.prems(1) c(2,3)])
  have "length (l0_items tb ids) < fuel" "n1 + 2 * length (l0_items tb ids) < 2 ^ 64" "\<forall>i \<in> set ids. tb i \<in> T"
    using Cons.prems(2,3,4) len c(4) by simp_all
  from Cons.IH [OF ok1 this(3,1,2)] obtain w' n' where "collect_all h fuel its w1 = Inr (l0_items tb ids, w')"
    "st_fs w' = st_fs w1" "tables_ok h disk T n' w'" "n' \<le> n1 + 2 * length (l0_items tb ids)"
    by blast
  with c len t show ?case
    by (intro exI [of _ w'] exI [of _ n']) (simp add: l0_items_def)
qed

text \<open>The heap puts the versions of level 0 into their order.\<close>

lemma l0_item_simps [simp]:
  "si_key (l0_item s x) = ekey x" "si_value (l0_item s x) = evalue x" "si_tranc_id (l0_item s x) = etranc x"
  "si_idx (l0_item s x) = as_int (- uint (sst_id s))" "si_level (l0_item s x) = 0"
  by (simp_all add: l0_item_def)

lemma idx_of_small:
  assumes "unat i < 2 ^ 31"
  shows "as_int (- uint i) = - int (unat i)"
proof -
  have "int (unat i) < int (2 ^ 31)" using assms by (simp only: of_nat_less_iff)
  then have "uint i < 2 ^ 31" by simp
  moreover have "0 \<le> uint i" by simp
  ultimately have "- (2 ^ 31) \<le> - uint i" "- uint i < 2 ^ 31" by linarith+
  then show ?thesis using as_int_range [of "- uint i"] by (simp add: int_range_def)
qed

lemma l0_coherent:
  assumes nf: "newest_first (concat (map (\<lambda>i. table_entries (tb i)) ids))" and desc: "sorted_wrt (\<lambda>i j. j < i) ids"
    and ids: "\<forall>i \<in> set ids. sst_id (fst (tb i)) = i \<and> unat i < 2 ^ 31"
  shows "coherent (l0_items tb ids)" and "sorted_wrt (\<lambda>a b. si_key a = si_key b \<longrightarrow> si_tranc_id b < si_tranc_id a) (l0_items tb ids)"
    and "sorted_wrt (\<lambda>a b. si_idx a \<le> si_idx b) (l0_items tb ids)"
proof -
  have "newest_first (map item_version (l0_items tb ids))" using nf by (simp add: l0_items_versions)
  then show desc': "sorted_wrt (\<lambda>a b. si_key a = si_key b \<longrightarrow> si_tranc_id b < si_tranc_id a) (l0_items tb ids)"
    by (simp add: newest_first_def sorted_wrt_map item_version_def)
  have idx: "si_idx a = - int (unat i)" if "a \<in> set (map (l0_item (fst (tb i))) es)" "i \<in> set ids" for a i es
    using that ids idx_of_small [of i] by auto
  show asc: "sorted_wrt (\<lambda>a b. si_idx a \<le> si_idx b) (l0_items tb ids)"
    using desc idx
  proof (induction ids)
    case (Cons i ids)
    have "sorted_wrt (\<lambda>a b. si_idx a \<le> si_idx b) (map (l0_item (fst (tb i))) (table_entries (tb i)))"
      by (simp add: sorted_wrt_map)
    moreover have "si_idx a \<le> si_idx b"
      if a: "a \<in> set (map (l0_item (fst (tb i))) (table_entries (tb i)))" and b: "b \<in> set (l0_items tb ids)" for a b
    proof -
      obtain j where j: "j \<in> set ids" "b \<in> set (map (l0_item (fst (tb j))) (table_entries (tb j)))"
        using b by (auto simp: l0_items_def)
      have "j < i" using Cons.prems(1) j(1) by simp
      then have "uint j < uint i" by (simp add: word_less_def)
      with Cons.prems(2) [OF a] Cons.prems(2) [OF j(2)] j(1) show ?thesis by simp
    qed
    ultimately show ?case using Cons by (auto simp: l0_items_def sorted_wrt_append)
  qed (simp add: l0_items_def)
  have "sorted_wrt (\<lambda>a b. (si_key a, si_tranc_id a, si_idx a) \<noteq> (si_key b, si_tranc_id b, si_idx b)) (l0_items tb ids)"
    using desc' by (rule sorted_wrt_mono_rel [rotated]) auto
  then have "distinct (map (\<lambda>x. (si_key x, si_tranc_id x, si_idx x)) (l0_items tb ids))"
    by (simp add: distinct_conv_nth sorted_wrt_iff_nth_less) (metis linorder_neqE_nat)
  moreover have "si_tranc_id b \<le> si_tranc_id a"
    if a: "a \<in> set (l0_items tb ids)" and b: "b \<in> set (l0_items tb ids)" and key: "si_key a = si_key b"
      and less: "si_idx a < si_idx b" for a b
  proof -
    obtain j k where jk: "j < length (l0_items tb ids)" "k < length (l0_items tb ids)" "l0_items tb ids ! j = a" "l0_items tb ids ! k = b"
      using a b by (metis in_set_conv_nth)
    have "\<not> k < j" using sorted_wrt_nth_less [OF asc _ jk(1), of k] jk(3,4) less by auto
    then have "j < k" using jk(3,4) less by (metis linorder_neqE_nat order_less_irrefl)
    with sorted_wrt_nth_less [OF desc' this jk(2)] show ?thesis using jk(3,4) key by simp
  qed
  ultimately show "coherent (l0_items tb ids)" by (auto simp: coherent_def l0_items_def)
qed

lemma newest_first_distinct: "newest_first es \<Longrightarrow> distinct (map version es)"
  by (induction es) (auto simp: newest_first_def version_def)

lemma sorted_wrt_conj: "sorted_wrt P xs \<Longrightarrow> sorted_wrt Q xs \<Longrightarrow> sorted_wrt (\<lambda>x y. P x y \<and> Q x y) xs"
  by (induction xs) auto

lemma sorted_wrt_distinct: "distinct (map f xs) \<Longrightarrow> sorted_wrt (\<lambda>x y. f x \<noteq> f y) xs"
  by (induction xs) auto

lemma l0_heap_ok:
  assumes nf: "newest_first (concat (map (\<lambda>i. table_entries (tb i)) ids))" and desc: "sorted_wrt (\<lambda>i j. j < i) ids"
    and ids: "\<forall>i \<in> set ids. sst_id (fst (tb i)) = i \<and> unat i < 2 ^ 31"
  shows "\<exists>q. queue_of (l0_items tb ids) = Inr q \<and>
    heap_delivers 0 True ((HeapIterator_default False True)\<lparr>hi_items := q\<rparr>) (map item_version q) \<and>
    sorted_wrt vless (map item_version q) \<and> mset (map item_version q) = mset (concat (map (\<lambda>i. table_entries (tb i)) ids))"
proof -
  obtain q where q: "queue_of (l0_items tb ids) = Inr q" "mset q = mset (l0_items tb ids)" "sorted_wrt item_before q"
    using queue_of_coherent [OF l0_coherent(1) [OF assms]] by blast
  have ms: "mset (map item_version q) = mset (concat (map (\<lambda>i. table_entries (tb i)) ids))"
    using q(2) by (simp flip: l0_items_versions)
  have "distinct (map version (concat (map (\<lambda>i. table_entries (tb i)) ids)))"
    by (rule newest_first_distinct [OF nf])
  moreover have "mset (map version (map item_version q)) = mset (map version (concat (map (\<lambda>i. table_entries (tb i)) ids)))"
    using ms by (metis mset_map)
  ultimately have "distinct (map version (map item_version q))"
    by (metis mset_eq_imp_distinct_iff)
  then have "distinct (map (\<lambda>x. version (item_version x)) q)" by (simp add: comp_def)
  from sorted_wrt_conj [OF q(3) sorted_wrt_distinct [OF this]]
  have "sorted_wrt (\<lambda>x y. vless (item_version x) (item_version y)) q"
    by (rule sorted_wrt_mono_rel [rotated]) (auto simp: item_before_def node_less_def version_def item_version_def)
  then have "sorted_wrt vless (map item_version q)" by (simp add: sorted_wrt_map)
  moreover have "heap_delivers 0 True ((HeapIterator_default False True)\<lparr>hi_items := q\<rparr>) (map item_version q)"
    by (auto simp: heap_delivers_def heap_inv_def heap_versions_def HeapIterator_default_def top_value_legal_def item_visible_def
        split: list.split)
  ultimately show ?thesis using q(1) ms by blast
qed

section \<open>The versions of one level are sorted\<close>

lemma sorted_strict: "sorted_wrt entry_le es \<Longrightarrow> newest_first es \<Longrightarrow> sorted_wrt vless es"
  unfolding newest_first_def
  by (drule (1) sorted_wrt_conj, erule sorted_wrt_mono_rel [rotated]) (auto simp: entry_le_def vless_iff)

lemma table_entries_sorted:
  assumes "tables_ok h disk T n w" and "t \<in> T"
  shows "sorted_wrt entry_le (table_entries t)" and "table_entries t \<noteq> []"
proof -
  obtain s ps rv where t: "t = (s, ps, rv)" by (cases t) auto
  have ok: "parts_ok ps" "ps \<noteq> []" using table_parts_ok [OF assms(1)] assms(2) t by blast+
  then have "sorted_wrt entry_le (all_entries ps)" by (simp add: parts_ok_def sorted_entries_def)
  then show "sorted_wrt entry_le (table_entries t)"
    unfolding t table_entries_simp sorted_wrt_map
    by (rule sorted_wrt_mono_rel [rotated]) (simp add: entry_le_def read_version_def)
  have "part_ok (hd ps)" using ok by (simp add: parts_ok_def)
  then show "table_entries t \<noteq> []"
    using ok(2) by (cases ps) (auto simp: t table_entries_simp part_ok_def)
qed

lemma tables_sorted:
  assumes "tables_ok h disk T n w" and "\<forall>i \<in> set ids. tb i \<in> T" and "sorted_wrt (\<lambda>i j. table_before (tb i) (tb j)) ids"
    and "newest_first (concat (map (\<lambda>i. table_entries (tb i)) ids))"
  shows "sorted_wrt vless (concat (map (\<lambda>i. table_entries (tb i)) ids))"
  using assms(2-4)
proof (induction ids)
  case (Cons i ids)
  have nf: "newest_first (table_entries (tb i))" "newest_first (concat (map (\<lambda>i. table_entries (tb i)) ids))"
    using Cons.prems(3) by (simp_all add: newest_first_append)
  have "sorted_wrt vless (table_entries (tb i))"
    using sorted_strict [OF table_entries_sorted(1) [OF assms(1)] nf(1)] Cons.prems(1) by simp
  moreover have "\<forall>x \<in> set (table_entries (tb i)). \<forall>y \<in> set (concat (map (\<lambda>i. table_entries (tb i)) ids)). vless x y"
    using Cons.prems(2) by (auto simp: table_before_def vless_iff)
  ultimately show ?case using Cons.IH [OF _ _ nf(2)] Cons.prems(1,2) by (simp add: sorted_wrt_append)
qed simp

lemma tables_at_least:
  assumes "tables_ok h disk T n w" and "\<forall>i \<in> set ids. tb i \<in> T"
  shows "length ids \<le> length (concat (map (\<lambda>i. table_entries (tb i)) ids))"
  using assms(2)
proof (induction ids)
  case (Cons i ids)
  then have "Suc 0 \<le> length (table_entries (tb i))" using table_entries_sorted(2) [OF assms(1)] by (simp add: Suc_le_eq)
  from add_mono [OF this Cons.IH] Cons.prems show ?case by simp
qed simp


section \<open>Merging two levels\<close>

lemma gen_ok_store:
  assumes "gen_ok v disk T n e" and "st_fs w = st_fs (eng_store e)" and "tables_ok (env_hash v) disk T n' w"
  shows "gen_ok v disk T n' (e\<lparr>eng_store := w\<rparr>)"
proof -
  have "LSMEngine_get_sst_path i l (e\<lparr>eng_store := w\<rparr>) = LSMEngine_get_sst_path i l e" for i l
    by (simp add: LSMEngine_get_sst_path_def)
  with assms show ?thesis by (simp add: gen_ok_def unused_numbers_def)
qed

lemma concact_new_fs: "ConcactIterator_new h ssts tid keep w = Inr (c, w') \<Longrightarrow> st_fs w' = st_fs w"
  by (auto simp: ConcactIterator_new_def SST_begin_def bindE_eq_Inr split: list.splits dest!: sst_new_fs)

lemma level_iter_ok:
  assumes ok: "tables_ok h disk T n w" and T: "\<forall>i \<in> set ids. tb i \<in> T" and room: "n + 2 < 2 ^ 64"
  shows "\<exists>c w' n'. ConcactIterator_new h (map (\<lambda>i. fst (tb i)) ids) 0 True w = Inr (c, w') \<and> st_fs w' = st_fs w \<and>
    base_delivers T 0 True (Concact_it c) (concat (map (\<lambda>i. table_entries (tb i)) ids)) \<and> tables_ok h disk T n' w' \<and> n' \<le> n + 2"
proof -
  have "set (map tb ids) \<subseteq> T" using T by auto
  moreover have "table_visible 0 t" if "t \<in> T" for t
    using that table_parts_ok [OF ok, of "fst t" "fst (snd t)" "snd (snd t)"] blocks_visible_all [OF _ subset_refl]
    by (cases t) (simp add: table_visible_def)
  then have "\<forall>t \<in> set (map tb ids). table_visible 0 t" using T by simp
  ultimately obtain c w' n' where c: "ConcactIterator_new h (map fst (map tb ids)) 0 True w = Inr (c, w')"
    "concact_delivers T 0 True c (concat (map (table_versions True 0) (map tb ids)))" "tables_ok h disk T n' w'" "n' \<le> n + 2"
    using concact_new [OF _ _ ok room] by blast
  then show ?thesis
    using concact_new_fs [OF c(1)] by (intro exI [of _ c] exI [of _ w'] exI [of _ n'])
      (simp add: base_delivers_def table_entries_def comp_def)
qed

lemma tables_at: "\<forall>i \<in> set ids. eng_ssts e i = Some (fst (tb i)) \<Longrightarrow> mapE (\<lambda>i. sst_at i e) ids = Inr (map (\<lambda>i. fst (tb i)) ids)"
  by (induction ids) (simp_all add: sst_at_def)

text \<open>What a compaction of the versions \<open>xs\<close> returns: the error of the empty builder, or new tables with the same versions.\<close>

definition compacted ::
  "env \<Rightarrow> table set \<Rightarrow> nat \<Rightarrow> engine \<Rightarrow> entry list \<Rightarrow> (sst list \<times> engine) result \<Rightarrow> bool" where
  "compacted v T n e xs r \<longleftrightarrow>
     r = Inl (Runtime_error ''Cannot build empty SST'') \<or>
     (\<exists>ts e' disk n'. r = Inr (map fst ts, e') \<and> generated v disk T n' e e' ts [] (plain_builder v) \<and>
        sorted_wrt vless (concat (map table_entries ts)) \<and> mset (concat (map table_entries ts)) = mset xs \<and>
        length ts \<le> length xs + 1 \<and> n' \<le> n)"

lemma merge_and_generate:
  assumes env: "plain_env v" and fit: "versions_fit (block_size v) vs" and gen: "gen_ok v disk T n e"
    and a: "base_delivers T 0 True a as" and b: "base_delivers T 0 True b bs" and srt: "sorted_wrt vless as" "sorted_wrt vless bs"
    and nf: "newest_first (xs @ bs)" and as: "mset as = mset xs"
    and sub: "mset (xs @ bs) \<subseteq># mset vs" and fuel: "length (xs @ bs) < env_steps v"
    and room: "n + 8 * length (xs @ bs) + 4 < 2 ^ 64" "unat (eng_next_sst_id e) + length (xs @ bs) + 1 < 2 ^ 31"
  shows "compacted v T (n + 8 * length (xs @ bs) + 4) e (xs @ bs)
    (bindE (TwoMergeIterator_new (env_hash v) (env_steps v) a b 0 True (eng_store e)) (\<lambda>(it, w).
       LSMEngine_gen_sst_from_iter v it target l (e\<lparr>eng_store := w\<rparr>)))"
proof -
  have ok: "tables_ok (env_hash v) disk T n (eng_store e)" using gen by (simp add: gen_ok_def)
  have "n + 4 < 2 ^ 64" using room(1) by simp
  from settle_ok [OF _ a b ok this, of "\<lparr>tm_it_a = Some a, tm_it_b = Some b, tm_choose_a = False, tm_max_tranc_id = 0,
      tm_keep_all_versions = True\<rparr>" "env_steps v"]
  obtain it w n1 where it: "TwoMergeIterator_new (env_hash v) (env_steps v) a b 0 True (eng_store e) = Inr (it, w)"
    "merge_delivers T 0 True it (merge2 True as bs)" "tables_ok (env_hash v) disk T n1 w" "n1 \<le> n + 4"
    by (auto simp: TwoMergeIterator_new_def merge_mode_def)
  have fs: "st_fs w = st_fs (eng_store e)" using it(1) settle_fs by (auto simp: TwoMergeIterator_new_def)
  have ms: "mset (merge2 True as bs) = mset (xs @ bs)" using merge2_mset [of as bs] as by simp
  have len: "length (merge2 True as bs) = length (xs @ bs)" using ms by (metis size_mset)
  have "version x \<noteq> version y" if "x \<in> set as" "y \<in> set bs" for x y
  proof -
    have "x \<in> set xs" using that(1) as by (metis set_mset_mset)
    then have "ekey x = ekey y \<longrightarrow> etranc y < etranc x" using nf that(2) by (simp add: newest_first_append)
    then show ?thesis by (auto simp: version_def)
  qed
  then have srt': "sorted_wrt vless (merge2 True as bs)" by (intro merge2_sorted [OF srt]) blast
  have g1: "gen_ok v disk T n1 (e\<lparr>eng_store := w\<rparr>)" by (rule gen_ok_store [OF gen fs it(3)])
  have rm: "n1 + 8 * length (merge2 True as bs) < 2 ^ 64"
    "unat (eng_next_sst_id (e\<lparr>eng_store := w\<rparr>)) + length (merge2 True as bs) + 1 < 2 ^ 31"
    using room it(4) unfolding len by simp_all
  have sub': "mset (merge2 True as bs) \<subseteq># mset vs" using sub by (simp only: ms)
  have fuel': "length (merge2 True as bs) < env_steps v" using fuel by (simp only: len)
  from gen_sst_ok [OF env fit it(2) g1 srt' sub' fuel' rm, of target l] show ?thesis
  proof (elim disjE exE conjE)
    assume "LSMEngine_gen_sst_from_iter v it target l (e\<lparr>eng_store := w\<rparr>) = Inl (Runtime_error ''Cannot build empty SST'')"
    then show ?thesis using it(1) by (simp add: compacted_def)
  next
    fix ts e' disk' n'
    assume r: "LSMEngine_gen_sst_from_iter v it target l (e\<lparr>eng_store := w\<rparr>) = Inr (map fst ts, e')"
      "generated v disk' T n' (e\<lparr>eng_store := w\<rparr>) e' ts [] (plain_builder v)"
      "concat (map table_entries ts) = merge2 True as bs" "length ts \<le> length (merge2 True as bs) + 1"
      "n' \<le> n1 + 8 * length (merge2 True as bs)"
    have "generated v disk' T n' e e' ts [] (plain_builder v)" using r(2) by (simp add: generated_def)
    moreover have "n' \<le> n + 8 * length (xs @ bs) + 4" "length ts \<le> length (xs @ bs) + 1"
      using r(4,5) it(4) unfolding len by simp_all
    ultimately show ?thesis
      using it(1) r(1) srt' ms unfolding compacted_def r(3) [symmetric]
      by (intro disjI2 exI [of _ ts] exI [of _ e'] exI [of _ disk'] exI [of _ n']) simp
  qed
qed

lemma compacted_store:
  assumes "compacted v T n (e\<lparr>eng_store := w\<rparr>) xs r" and "n \<le> m"
  shows "compacted v T m e xs r"
  using assms(1) unfolding compacted_def
proof (elim disjE exE conjE, goal_cases)
  case (2 ts e' disk n')
  have "generated v disk T n' e e' ts [] (plain_builder v)" using 2(2) by (simp add: generated_def)
  with 2 assms(2) show ?case
    by (intro disjI2 exI [of _ ts] exI [of _ e'] exI [of _ disk] exI [of _ n']) simp
qed simp

text \<open>The two levels that are merged, as the engine names them.\<close>

definition level_pair ::
  "env \<Rightarrow> entry list \<Rightarrow> (u64 \<Rightarrow> table) \<Rightarrow> table set \<Rightarrow> engine \<Rightarrow> u64 list \<Rightarrow> u64 list \<Rightarrow> nat \<Rightarrow> bool" where
  "level_pair v vs tb T e lx ly n \<longleftrightarrow>
     (\<forall>i \<in> set (lx @ ly). eng_ssts e i = Some (fst (tb i)) \<and> tb i \<in> T) \<and>
     newest_first (concat (map (\<lambda>i. table_entries (tb i)) (lx @ ly))) \<and>
     sorted_wrt (\<lambda>i j. table_before (tb i) (tb j)) ly \<and>
     mset (concat (map (\<lambda>i. table_entries (tb i)) (lx @ ly))) \<subseteq># mset vs \<and> length vs < env_steps v \<and>
     n + 12 * length vs + 8 < 2 ^ 64 \<and> unat (eng_next_sst_id e) + length vs + 1 < 2 ^ 31"

lemma level_pair_length:
  assumes "level_pair v vs tb T e lx ly n"
  shows "length (concat (map (\<lambda>i. table_entries (tb i)) (lx @ ly))) \<le> length vs"
  using assms size_mset_mono [of "mset (concat (map (\<lambda>i. table_entries (tb i)) (lx @ ly)))" "mset vs"]
  by (simp add: level_pair_def)

lemma common_compact_ok:
  assumes env: "plain_env v" and fit: "versions_fit (block_size v) vs" and gen: "gen_ok v disk T n e"
    and pair: "level_pair v vs tb T e lx ly n" and lx: "sorted_wrt (\<lambda>i j. table_before (tb i) (tb j)) lx"
  shows "compacted v T (n + 12 * length vs + 8) e (concat (map (\<lambda>i. table_entries (tb i)) (lx @ ly)))
    (LSMEngine_full_common_compact v lx ly l e)"
proof -
  let ?E = "\<lambda>ids. concat (map (\<lambda>i. table_entries (tb i)) ids)"
  have tabs: "\<forall>i \<in> set lx. eng_ssts e i = Some (fst (tb i))" "\<forall>i \<in> set ly. eng_ssts e i = Some (fst (tb i))"
    "\<forall>i \<in> set lx. tb i \<in> T" "\<forall>i \<in> set ly. tb i \<in> T" and nf: "newest_first (?E lx @ ?E ly)"
    and sub: "mset (?E lx @ ?E ly) \<subseteq># mset vs" and ly: "sorted_wrt (\<lambda>i j. table_before (tb i) (tb j)) ly"
    and lims: "length vs < env_steps v" "n + 12 * length vs + 8 < 2 ^ 64" "unat (eng_next_sst_id e) + length vs + 1 < 2 ^ 31"
    using pair by (auto simp: level_pair_def)
  have ok: "tables_ok (env_hash v) disk T n (eng_store e)" using gen by (simp add: gen_ok_def)
  have len: "length (?E lx @ ?E ly) \<le> length vs" using level_pair_length [OF pair] by simp
  obtain a w1 n1 where a: "ConcactIterator_new (env_hash v) (map (\<lambda>i. fst (tb i)) lx) 0 True (eng_store e) = Inr (a, w1)"
    "st_fs w1 = st_fs (eng_store e)" "base_delivers T 0 True (Concact_it a) (?E lx)" "tables_ok (env_hash v) disk T n1 w1" "n1 \<le> n + 2"
    using level_iter_ok [OF ok tabs(3)] lims(2) by auto
  have "n1 + 2 < 2 ^ 64" using a(5) lims(2) by simp
  from level_iter_ok [OF a(4) tabs(4) this] obtain b w2 n2 where
    b: "ConcactIterator_new (env_hash v) (map (\<lambda>i. fst (tb i)) ly) 0 True w1 = Inr (b, w2)"
    "st_fs w2 = st_fs w1" "base_delivers T 0 True (Concact_it b) (?E ly)" "tables_ok (env_hash v) disk T n2 w2" "n2 \<le> n1 + 2"
    by blast
  let ?e = "e\<lparr>eng_store := w2\<rparr>"
  have g: "gen_ok v disk T n2 ?e" using gen_ok_store [OF gen _ b(4)] a(2) b(2) by simp
  have srt: "sorted_wrt vless (?E lx)" "sorted_wrt vless (?E ly)"
    using tables_sorted [OF ok tabs(3) lx] tables_sorted [OF ok tabs(4) ly] nf by (simp_all add: newest_first_append)
  have rm: "length (?E lx @ ?E ly) < env_steps v" "n2 + 8 * length (?E lx @ ?E ly) + 4 < 2 ^ 64"
    "unat (eng_next_sst_id ?e) + length (?E lx @ ?E ly) + 1 < 2 ^ 31"
    using lims len a(5) b(5) by simp_all
  note m = merge_and_generate [OF env fit g a(3) b(3) srt nf refl sub rm, of "LSMEngine_get_sst_size v l" l]
  have run: "LSMEngine_full_common_compact v lx ly l e =
      bindE (TwoMergeIterator_new (env_hash v) (env_steps v) (Concact_it a) (Concact_it b) 0 True (eng_store ?e)) (\<lambda>(it, w).
        LSMEngine_gen_sst_from_iter v it (LSMEngine_get_sst_size v l) l (?e\<lparr>eng_store := w\<rparr>))"
    using a(1) b(1) tables_at [OF tabs(1)] tables_at [OF tabs(2)] by (simp add: LSMEngine_full_common_compact_def)
  have "n2 + 8 * length (?E lx @ ?E ly) + 4 \<le> n + 12 * length vs + 8" using len a(5) b(5) by simp
  from compacted_store [OF m this] show ?thesis unfolding run by simp
qed

text \<open>The product of two configured numbers that is the target size of the tables of level 1.\<close>

definition target_ok :: "env \<Rightarrow> bool" where
  "target_ok v \<longleftrightarrow>
     - (2 ^ 63) \<le> lsm_per_mem_size_limit (env_cfg v) * lsm_sst_level_ratio (env_cfg v) \<and>
     lsm_per_mem_size_limit (env_cfg v) * lsm_sst_level_ratio (env_cfg v) < 2 ^ 63"

lemma l0_l1_compact_ok:
  assumes env: "plain_env v" "target_ok v" and fit: "versions_fit (block_size v) vs" and gen: "gen_ok v disk T n e"
    and pair: "level_pair v vs tb T e l0 l1 n" and ne: "l0 \<noteq> []" and desc: "sorted_wrt (\<lambda>i j. j < i) l0"
    and ids: "\<forall>i \<in> set l0. sst_id (fst (tb i)) = i \<and> unat i < 2 ^ 31"
  shows "compacted v T (n + 12 * length vs + 8) e (concat (map (\<lambda>i. table_entries (tb i)) (l0 @ l1)))
    (LSMEngine_full_l0_l1_compact v l0 l1 e)"
proof -
  let ?E = "\<lambda>ids. concat (map (\<lambda>i. table_entries (tb i)) ids)"
  have tabs: "\<forall>i \<in> set l0. eng_ssts e i = Some (fst (tb i)) \<and> tb i \<in> T" "\<forall>i \<in> set l1. eng_ssts e i = Some (fst (tb i))"
    "\<forall>i \<in> set l0. tb i \<in> T" "\<forall>i \<in> set l1. tb i \<in> T" and nf: "newest_first (?E l0 @ ?E l1)"
    and sub: "mset (?E l0 @ ?E l1) \<subseteq># mset vs" and l1: "sorted_wrt (\<lambda>i j. table_before (tb i) (tb j)) l1"
    and lims: "length vs < env_steps v" "n + 12 * length vs + 8 < 2 ^ 64" "unat (eng_next_sst_id e) + length vs + 1 < 2 ^ 31"
    using pair by (auto simp: level_pair_def)
  have ok: "tables_ok (env_hash v) disk T n (eng_store e)" using gen by (simp add: gen_ok_def)
  have len: "length (?E l0 @ ?E l1) \<le> length vs" using level_pair_length [OF pair] by simp
  have il: "length (l0_items tb l0) = length (?E l0)" using arg_cong [OF l0_items_versions [of tb l0], of length] by simp
  have l0: "length l0 \<le> length (?E l0)" by (rule tables_at_least [OF ok tabs(3)])
  have "n + 2 * length l0 < 2 ^ 64" using lims(2) l0 len by simp
  from begin_all_ok [OF ok tabs(1) this] obtain its w1 n1 where b: "begin_all v l0 e = Inr (its, e\<lparr>eng_store := w1\<rparr>)"
    "st_fs w1 = st_fs (eng_store e)" "tables_ok (env_hash v) disk T n1 w1" "n1 \<le> n + 2 * length l0"
    "list_all2 (\<lambda>i it. all_iter (tb i) it (table_entries (tb i))) l0 its"
    by blast
  have "length (l0_items tb l0) < env_steps v" "n1 + 2 * length (l0_items tb l0) < 2 ^ 64"
    using lims il l0 len b(4) by simp_all
  from collect_all_ok [OF b(5,3) tabs(3) this] obtain w2 n2 where
    c: "collect_all (env_hash v) (env_steps v) its w1 = Inr (l0_items tb l0, w2)" "st_fs w2 = st_fs w1"
    "tables_ok (env_hash v) disk T n2 w2" "n2 \<le> n1 + 2 * length (?E l0)"
    unfolding il by blast
  have nf0: "newest_first (?E l0)" using nf by (simp add: newest_first_append)
  from l0_heap_ok [OF nf0 desc ids] obtain q where q: "queue_of (l0_items tb l0) = Inr q"
    "heap_delivers 0 True ((HeapIterator_default False True)\<lparr>hi_items := q\<rparr>) (map item_version q)"
    "sorted_wrt vless (map item_version q)" "mset (map item_version q) = mset (?E l0)"
    by blast
  let ?hp = "(HeapIterator_default False True)\<lparr>hi_items := q\<rparr>"
  have "its \<noteq> []" using b(5) ne by auto
  then have hp: "merge_sst_iterator (env_hash v) (env_steps v) its True w1 = Inr ((?hp, HeapIterator_default True False), w2)"
    using c(1) q(1) by (simp add: merge_sst_iterator_def)
  have "n2 + 2 < 2 ^ 64" using c(4) b(4) l0 len lims(2) by simp
  from level_iter_ok [OF c(3) tabs(4) this] obtain d w3 n3 where
    d: "ConcactIterator_new (env_hash v) (map (\<lambda>i. fst (tb i)) l1) 0 True w2 = Inr (d, w3)"
    "st_fs w3 = st_fs w2" "base_delivers T 0 True (Concact_it d) (?E l1)" "tables_ok (env_hash v) disk T n3 w3" "n3 \<le> n2 + 2"
    by blast
  let ?e = "e\<lparr>eng_store := w3\<rparr>" and ?t = "lsm_per_mem_size_limit (env_cfg v) * lsm_sst_level_ratio (env_cfg v)"
  have g: "gen_ok v disk T n3 ?e" using gen_ok_store [OF gen _ d(4)] b(2) c(2) d(2) by simp
  have srt: "sorted_wrt vless (?E l1)" using tables_sorted [OF ok tabs(4) l1] nf by (simp add: newest_first_append)
  have rm: "length (?E l0 @ ?E l1) < env_steps v" "n3 + 8 * length (?E l0 @ ?E l1) + 4 < 2 ^ 64"
    "unat (eng_next_sst_id ?e) + length (?E l0 @ ?E l1) + 1 < 2 ^ 31"
    using lims len l0 b(4) c(4) d(5) by simp_all
  have "base_delivers T 0 True (Heap_it ?hp) (map item_version q)" using q(2) by (simp add: base_delivers_def)
  note m = merge_and_generate [OF env(1) fit g this d(3) q(3) srt nf q(4) sub rm, of "of_int ?t" 1]
  have "\<not> (?t < - (2 ^ 63) \<or> 2 ^ 63 \<le> ?t)" using env(2) by (simp add: target_ok_def)
  then have run: "LSMEngine_full_l0_l1_compact v l0 l1 e =
      bindE (TwoMergeIterator_new (env_hash v) (env_steps v) (Heap_it ?hp) (Concact_it d) 0 True (eng_store ?e)) (\<lambda>(it, w).
        LSMEngine_gen_sst_from_iter v it (of_int ?t) 1 (?e\<lparr>eng_store := w\<rparr>))"
    using b(1) hp d(1) tables_at [of l1 "e\<lparr>eng_store := w1\<rparr>" tb] tabs(2)
    by (simp add: LSMEngine_full_l0_l1_compact_def Let_def)
  have "n3 + 8 * length (?E l0 @ ?E l1) + 4 \<le> n + 12 * length vs + 8" using len l0 b(4) c(4) d(5) by simp
  from compacted_store [OF m this] show ?thesis unfolding run by simp
qed

end
