(* ===== verification/Compaction.thy ===== *)
theory Compaction
  imports EngineCompact
begin

text \<open>
  The compaction of the whole store: the tables of two levels are replaced by the new ones, deeper levels
  first when they are full. A compaction keeps the engine's invariant and the versions on disk, so no
  lookup changes its answer; this holds as well for a flush that compacts first.
\<close>

section \<open>Replacing the tables of two levels\<close>

definition fs_shrinks :: "filesys \<Rightarrow> filesys \<Rightarrow> bool" where
  "fs_shrinks fs fs' \<longleftrightarrow> inodes fs' = inodes fs \<and> next_ino fs' = next_ino fs \<and> (\<forall>p. dir fs p = None \<longrightarrow> dir fs' p = None)"

lemma fs_shrinks_del: "fs_shrinks fs (SST_del_sst s fs)"
  by (auto simp: fs_shrinks_def SST_del_sst_def FileObj_del_file_def StdFile_remove_def split: option.split)

lemma fs_shrinks_trans: "fs_shrinks a b \<Longrightarrow> fs_shrinks b c \<Longrightarrow> fs_shrinks a c"
  by (simp add: fs_shrinks_def)

lemma tables_ok_shrinks:
  assumes "tables_ok h disk U n w" and "\<forall>t \<in> U. plain_table (st_fs w) t" and "fs_shrinks (st_fs w) fs'" and "T \<subseteq> U"
  shows "tables_ok h disk T n (w\<lparr>st_fs := fs'\<rparr>)" and "\<forall>t \<in> T. plain_table fs' t"
proof -
  have "sst_env h s ps disk rv (w\<lparr>st_fs := fs'\<rparr>)" if "(s, ps, rv) \<in> T" for s ps rv
  proof -
    have env: "sst_env h s ps disk rv w" "plain_table (st_fs w) (s, ps, rv)" using assms that by (auto simp: tables_ok_def)
    then obtain i where "fd (sst_file s) = Some i" "storage_mode s = 0" by (auto simp: plain_table_def)
    then have "file_content (fs', sst_file s) = file_content (st_fs w, sst_file s)"
      using assms(3) by (simp add: file_content_def fs_shrinks_def)
    with env(1) \<open>storage_mode s = 0\<close> show ?thesis by (simp add: sst_env_def sst_repr_def resolves_def SST_resolve_value_def)
  qed
  moreover have "store_ok disk n (w\<lparr>st_fs := fs'\<rparr>)" using assms(1) by (simp add: tables_ok_def store_ok_def)
  ultimately show "tables_ok h disk T n (w\<lparr>st_fs := fs'\<rparr>)" by (auto simp: tables_ok_def)
  show "\<forall>t \<in> T. plain_table fs' t"
    using assms(2-4) by (auto simp: plain_table_def fs_shrinks_def)
qed

lemma drop_tables_ok:
  assumes "distinct ids" and "\<forall>i \<in> set ids. eng_ssts e i \<noteq> None"
  shows "\<exists>fs'. drop_tables ids e = Inr (e\<lparr>eng_store := (eng_store e)\<lparr>st_fs := fs'\<rparr>, eng_ssts := eng_ssts e |` (- set ids)\<rparr>) \<and>
    fs_shrinks (st_fs (eng_store e)) fs'"
  using assms
proof (induction ids arbitrary: e)
  case Nil
  then show ?case by (intro exI [of _ "st_fs (eng_store e)"]) (simp add: fs_shrinks_def)
next
  case (Cons i ids)
  then obtain s where s: "eng_ssts e i = Some s" by auto
  let ?fs = "SST_del_sst s (st_fs (eng_store e))"
  let ?e = "e\<lparr>eng_store := (eng_store e)\<lparr>st_fs := ?fs\<rparr>, eng_ssts := (eng_ssts e)(i := None)\<rparr>"
  have "\<forall>j \<in> set ids. eng_ssts ?e j \<noteq> None" using Cons.prems by auto
  moreover have "distinct ids" using Cons.prems(1) by simp
  ultimately obtain fs' where
    fs': "drop_tables ids ?e = Inr (?e\<lparr>eng_store := (eng_store ?e)\<lparr>st_fs := fs'\<rparr>, eng_ssts := eng_ssts ?e |` (- set ids)\<rparr>)"
    "fs_shrinks (st_fs (eng_store ?e)) fs'"
    using Cons.IH [of ?e] by blast
  have "((eng_ssts e)(i := None)) |` (- set ids) = eng_ssts e |` (- set (i # ids))"
    by (auto simp: restrict_map_def)
  with fs'(1) s have "drop_tables (i # ids) e =
      Inr (e\<lparr>eng_store := (eng_store e)\<lparr>st_fs := fs'\<rparr>, eng_ssts := eng_ssts e |` (- set (i # ids))\<rparr>)"
    by (simp add: sst_at_def)
  moreover have "fs_shrinks ?fs fs'" using fs'(2) by simp
  from fs_shrinks_trans [OF fs_shrinks_del this] have "fs_shrinks (st_fs (eng_store e)) fs'" .
  ultimately show ?case by blast
qed

lemma omap_put_put [simp]: "omap_put k a (omap_put k b m) = omap_put k a m"
  by (induction k b m rule: omap_put.induct) auto

lemma omap_at_put [simp]: "omap_sorted m \<Longrightarrow> omap_at k d (omap_put l x m) = (if k = l then x else omap_at k d m)"
  by (simp add: omap_at_def)

lemma add_tables_run:
  assumes "omap_sorted M"
  shows "foldl (\<lambda>e s. add_table l s e) (e\<lparr>eng_level_sst_ids := omap_put l ids M, eng_ssts := S\<rparr>) ss =
    e\<lparr>eng_level_sst_ids := omap_put l (ids @ map sst_id ss) M, eng_ssts := foldl (\<lambda>S s. S(sst_id s \<mapsto> s)) S ss\<rparr>"
proof (induction ss arbitrary: ids S)
  case (Cons s ss)
  have "add_table l s (e\<lparr>eng_level_sst_ids := omap_put l ids M, eng_ssts := S\<rparr>) =
      e\<lparr>eng_level_sst_ids := omap_put l (ids @ [sst_id s]) M, eng_ssts := S(sst_id s \<mapsto> s)\<rparr>"
    using assms by (simp add: add_table_def)
  then show ?case using Cons.IH by simp
qed simp

lemma added_tables:
  assumes "distinct (map sst_id ss)"
  shows "foldl (\<lambda>S s. S(sst_id s \<mapsto> s)) S ss i = (case find (\<lambda>s. sst_id s = i) ss of None \<Rightarrow> S i | Some s \<Rightarrow> Some s)"
  using assms
proof (induction ss arbitrary: S)
  case (Cons s ss)
  have "find (\<lambda>t. sst_id t = sst_id s) ss = None"
    using Cons.prems by (simp add: find_None_iff image_iff) metis
  then show ?case using Cons by auto
qed simp

text \<open>The tables after the replacement, and what the engine is then.\<close>

definition number_tables :: "(u64 \<Rightarrow> table) \<Rightarrow> table list \<Rightarrow> u64 \<Rightarrow> table" where
  "number_tables tb ts i = (case find (\<lambda>t. sst_id (fst t) = i) ts of None \<Rightarrow> tb i | Some t \<Rightarrow> t)"

lemma number_new:
  assumes "distinct (map (\<lambda>t. sst_id (fst t)) ts)" and "t \<in> set ts"
  shows "number_tables tb ts (sst_id (fst t)) = t"
  using assms by (induction ts) (auto simp: number_tables_def image_iff)

lemma number_old: "i \<notin> (\<lambda>t. sst_id (fst t)) ` set ts \<Longrightarrow> number_tables tb ts i = tb i"
  by (auto simp: number_tables_def find_Some_iff split: option.split)

definition replaced :: "nat \<Rightarrow> table list \<Rightarrow> engine \<Rightarrow> engine \<Rightarrow> bool" where
  "replaced l ts e e' \<longleftrightarrow>
     omap_sorted (eng_level_sst_ids e') \<and>
     (\<forall>k. level_ids e' k = (if k = l then [] else if k = Suc l then map (\<lambda>t. sst_id (fst t)) ts else level_ids e k)) \<and>
     (\<forall>i. eng_ssts e' i = (case find (\<lambda>s. sst_id s = i) (map fst ts) of
        None \<Rightarrow> (eng_ssts e |` (- set (level_ids e l @ level_ids e (Suc l)))) i | Some s \<Rightarrow> Some s)) \<and>
     eng_next_sst_id e' = eng_next_sst_id e + of_nat (length ts) \<and> eng_cur_max_level e' = max (eng_cur_max_level e) (Suc l) \<and>
     eng_memtable e' = eng_memtable e \<and> eng_data_dir e' = eng_data_dir e \<and> eng_vlog e' = eng_vlog e \<and>
     eng_tran_manager e' = eng_tran_manager e"

lemma replace_tables_ok:
  assumes e1: "e1 = e\<lparr>eng_next_sst_id := eng_next_sst_id e + of_nat (length ts), eng_store := eng_store e1\<rparr>"
    and srt: "omap_sorted (eng_level_sst_ids e)" and dis: "distinct (level_ids e l @ level_ids e (Suc l))"
    and tabs: "\<forall>i \<in> set (level_ids e l @ level_ids e (Suc l)). eng_ssts e i \<noteq> None"
    and ids: "sorted_wrt (<) (map (\<lambda>t. sst_id (fst t)) ts)"
  shows "\<exists>e' fs'. replace_tables l (level_ids e l @ level_ids e (Suc l)) (map fst ts) e1 = Inr e' \<and>
    replaced l ts e e' \<and> fs_shrinks (st_fs (eng_store e1)) fs' \<and> eng_store e' = (eng_store e1)\<lparr>st_fs := fs'\<rparr>"
proof -
  define old where "old = level_ids e l @ level_ids e (Suc l)"
  define M S where "M = omap_put l [] (eng_level_sst_ids e)" and "S = eng_ssts e |` (- set old)"
  let ?new = "map (\<lambda>t. sst_id (fst t)) ts"
  have same: "eng_ssts e1 = eng_ssts e" "eng_level_sst_ids e1 = eng_level_sst_ids e" "eng_cur_max_level e1 = eng_cur_max_level e"
    by (subst e1, simp)+
  have "\<forall>i \<in> set old. eng_ssts e1 i \<noteq> None" "distinct old" using tabs dis same by (simp_all add: old_def)
  from drop_tables_ok [OF this(2,1)] obtain fs' where
    d: "drop_tables old e1 = Inr (e1\<lparr>eng_store := (eng_store e1)\<lparr>st_fs := fs'\<rparr>, eng_ssts := S\<rparr>)"
    "fs_shrinks (st_fs (eng_store e1)) fs'"
    unfolding same S_def by blast
  have M: "omap_sorted M" using srt by (auto simp: M_def)
  have dn: "distinct (map sst_id (map fst ts))" using ids by (simp add: comp_def strict_sorted_iff)
  have sn: "sort ?new = ?new" using ids by (simp add: strict_sorted_iff sorted_sort_id)
  let ?e2 = "e1\<lparr>eng_store := (eng_store e1)\<lparr>st_fs := fs'\<rparr>, eng_cur_max_level := max (eng_cur_max_level e) (Suc l)\<rparr>"
  let ?S' = "foldl (\<lambda>S s. S(sst_id s \<mapsto> s)) S (map fst ts)"
  let ?e' = "?e2\<lparr>eng_level_sst_ids := omap_put (Suc l) ?new M, eng_ssts := ?S'\<rparr>"
  let ?e3 = "e1\<lparr>eng_store := (eng_store e1)\<lparr>st_fs := fs'\<rparr>, eng_ssts := S,
      eng_level_sst_ids := omap_put (Suc l) [] M, eng_cur_max_level := max (eng_cur_max_level e) (Suc l)\<rparr>"
  have "?e3 = ?e2\<lparr>eng_level_sst_ids := omap_put (Suc l) [] M, eng_ssts := S\<rparr>" by simp
  then have "foldl (\<lambda>e s. add_table (Suc l) s e) ?e3 (map fst ts) = ?e'"
    using add_tables_run [OF M, of "Suc l" S "[]" ?e2 "map fst ts"] by (simp only: append_Nil map_map comp_def)
  then have run: "replace_tables l old (map fst ts) e1 = Inr ?e'"
    using M sn d(1) by (simp add: replace_tables_def same flip: M_def)
  have "level_ids ?e' k = (if k = l then [] else if k = Suc l then ?new else level_ids e k)" for k
    using M srt by (simp add: level_ids_def) (simp add: M_def)
  moreover have "omap_sorted (eng_level_sst_ids ?e')" using M by auto
  ultimately have "replaced l ts e ?e'"
    unfolding replaced_def old_def [symmetric] S_def [symmetric]
    using added_tables [OF dn, of S] by (simp add: same) (subst e1, simp)+
  with run d(2) show ?thesis unfolding old_def by (intro exI [of _ ?e'] exI [of _ fs']) simp
qed

lemma unused_shrinks:
  assumes "unused_numbers disk e" and "fs_shrinks (st_fs (eng_store e)) (st_fs (eng_store e'))"
    and "eng_next_sst_id e' = eng_next_sst_id e" and "eng_data_dir e' = eng_data_dir e"
  shows "unused_numbers disk e'"
proof -
  have "LSMEngine_get_sst_path i l e' = LSMEngine_get_sst_path i l e" for i l
    using assms(4) by (simp add: LSMEngine_get_sst_path_def)
  with assms show ?thesis by (simp add: unused_numbers_def fs_shrinks_def)
qed

text \<open>The numbers of new tables are new, and they are in order.\<close>

definition new_numbers :: "engine \<Rightarrow> table list \<Rightarrow> bool" where
  "new_numbers e ts \<longleftrightarrow>
     map (\<lambda>t. sst_id (fst t)) ts = map (\<lambda>i. eng_next_sst_id e + of_nat i) [0..<length ts] \<and>
     unat (eng_next_sst_id e) + length ts < 2 ^ 31"

lemma unat_next: "unat (a :: u64) + i < 2 ^ 31 \<Longrightarrow> unat (a + of_nat i) = unat a + i"
  by (simp add: unat_word_ariths unat_of_nat)

lemma new_numbers_sorted:
  assumes "new_numbers e ts"
  shows "sorted_wrt (<) (map (\<lambda>t. sst_id (fst t)) ts)"
proof -
  have "eng_next_sst_id e + of_nat i < eng_next_sst_id e + of_nat j" if "i < j" "j < length ts" for i j
    using assms that unat_next [of "eng_next_sst_id e" i] unat_next [of "eng_next_sst_id e" j]
    by (simp add: new_numbers_def word_less_nat_alt)
  then show ?thesis
    using assms by (simp add: new_numbers_def sorted_wrt_iff_nth_less)
qed

lemma new_numbers_range:
  assumes "new_numbers e ts" and "t \<in> set ts"
  shows "eng_next_sst_id e \<le> sst_id (fst t)" and "sst_id (fst t) < eng_next_sst_id e + of_nat (length ts)"
proof -
  have "sst_id (fst t) \<in> set (map (\<lambda>t. sst_id (fst t)) ts)" using assms(2) by simp
  then obtain i where i: "i < length ts" "sst_id (fst t) = eng_next_sst_id e + of_nat i"
    using assms(1) unfolding new_numbers_def by auto
  then show "eng_next_sst_id e \<le> sst_id (fst t)" "sst_id (fst t) < eng_next_sst_id e + of_nat (length ts)"
    using assms(1) unat_next [of "eng_next_sst_id e" i] unat_next [of "eng_next_sst_id e" "length ts"]
    by (simp_all add: new_numbers_def word_le_nat_alt word_less_nat_alt)
qed

lemma replaced_tables:
  assumes num: "numbered e" and rep: "replaced l ts e e'" and new: "new_numbers e ts"
  shows "i \<in> set (level_ids e k) \<Longrightarrow> number_tables tb ts i = tb i"
    and "t \<in> set ts \<Longrightarrow> number_tables tb ts (sst_id (fst t)) = t"
    and "level_entries (number_tables tb ts) e' k =
      (if k = l then [] else if k = Suc l then concat (map table_entries ts) else level_entries tb e k)"
    and "live_tables (number_tables tb ts) e' \<subseteq> set ts \<union> live_tables tb e"
proof -
  have dis: "distinct (map (\<lambda>t. sst_id (fst t)) ts)" using new_numbers_sorted [OF new] by (simp add: strict_sorted_iff)
  have old: "number_tables tb ts i = tb i" if "i \<in> set (level_ids e k)" for i k
  proof (rule number_old)
    have "i < eng_next_sst_id e" using num that by (simp add: numbered_def)
    then show "i \<notin> (\<lambda>t. sst_id (fst t)) ` set ts" using new_numbers_range(1) [OF new] by (auto simp: not_less [symmetric])
  qed
  have nw: "number_tables tb ts (sst_id (fst t)) = t" if "t \<in> set ts" for t using number_new [OF dis that] .
  have ids: "level_ids e' k = (if k = l then [] else if k = Suc l then map (\<lambda>t. sst_id (fst t)) ts else level_ids e k)" for k
    using rep by (simp add: replaced_def)
  show "i \<in> set (level_ids e k) \<Longrightarrow> number_tables tb ts i = tb i" by (rule old)
  show "t \<in> set ts \<Longrightarrow> number_tables tb ts (sst_id (fst t)) = t" by (rule nw)
  have "map (\<lambda>i. table_entries (number_tables tb ts i)) (level_ids e k) = map (\<lambda>i. table_entries (tb i)) (level_ids e k)"
    using old by simp
  moreover have "map (\<lambda>i. table_entries (number_tables tb ts i)) (map (\<lambda>t. sst_id (fst t)) ts) = map table_entries ts"
    using nw by simp
  ultimately show "level_entries (number_tables tb ts) e' k =
      (if k = l then [] else if k = Suc l then concat (map table_entries ts) else level_entries tb e k)"
    unfolding level_entries_def ids by (simp only: if_distrib [of "map _"] if_distrib [of concat] list.map(1) concat.simps(1))
  show "live_tables (number_tables tb ts) e' \<subseteq> set ts \<union> live_tables tb e"
    unfolding live_tables_def ids using old nw by (auto split: if_splits)
qed

lemma replaced_ssts:
  assumes num: "numbered e" and rep: "replaced l ts e e'" and new: "new_numbers e ts"
  shows "t \<in> set ts \<Longrightarrow> eng_ssts e' (sst_id (fst t)) = Some (fst t)"
    and "i \<in> set (level_ids e k) \<Longrightarrow> k \<noteq> l \<Longrightarrow> k \<noteq> Suc l \<Longrightarrow> eng_ssts e' i = eng_ssts e i"
proof -
  have dis: "distinct (map (\<lambda>t. sst_id (fst t)) ts)" using new_numbers_sorted [OF new] by (simp add: strict_sorted_iff)
  have at: "eng_ssts e' i = (case find (\<lambda>s. sst_id s = i) (map fst ts) of
        None \<Rightarrow> (eng_ssts e |` (- set (level_ids e l @ level_ids e (Suc l)))) i | Some s \<Rightarrow> Some s)" for i
    using rep by (simp add: replaced_def)
  show "eng_ssts e' (sst_id (fst t)) = Some (fst t)" if "t \<in> set ts"
  proof -
    have "find (\<lambda>s. sst_id s = sst_id (fst t)) (map fst ts) = Some (fst t)"
      using dis that by (induction ts) (auto simp: image_iff)
    then show ?thesis by (simp add: at)
  qed
  show "eng_ssts e' i = eng_ssts e i" if "i \<in> set (level_ids e k)" "k \<noteq> l" "k \<noteq> Suc l"
  proof -
    have "i < eng_next_sst_id e" using num that by (simp add: numbered_def)
    then have "find (\<lambda>s. sst_id s = i) (map fst ts) = None"
      using new_numbers_range(1) [OF new] by (auto simp: find_None_iff not_less [symmetric])
    moreover have "i \<notin> set (level_ids e l @ level_ids e (Suc l))"
      using num that unfolding numbered_def by (simp add: disjoint_iff)
    ultimately show ?thesis by (simp add: at)
  qed
qed

lemma replaced_numbered:
  assumes num: "numbered e" and rep: "replaced l ts e e'" and new: "new_numbers e ts"
  shows "numbered e'"
proof -
  let ?new = "map (\<lambda>t. sst_id (fst t)) ts"
  note range = new_numbers_range [OF new]
  have ids: "level_ids e' k = (if k = l then [] else if k = Suc l then ?new else level_ids e k)" for k
    using rep by (simp add: replaced_def)
  have nx: "eng_next_sst_id e' = eng_next_sst_id e + of_nat (length ts)" using rep by (simp add: replaced_def)
  have up: "eng_next_sst_id e \<le> eng_next_sst_id e'"
    using new unat_next [of "eng_next_sst_id e" "length ts"] by (simp add: nx new_numbers_def word_le_nat_alt)
  have below: "i < eng_next_sst_id e" if "i \<in> set (level_ids e k)" for i k using num that by (simp add: numbered_def)
  have fresh: "set ?new \<inter> set (level_ids e k) = {}" for k
    using below [of _ k] range(1) by (fastforce simp: not_less [symmetric])
  show ?thesis
    unfolding numbered_def
  proof (intro conjI allI ballI impI)
    show "distinct (level_ids e' k)" for k
      using num new_numbers_sorted [OF new] by (simp add: ids numbered_def strict_sorted_iff)
    show "i < eng_next_sst_id e'" if "i \<in> set (level_ids e' k)" for i k
      using that below [of i k] range(2) up unfolding ids nx by (auto split: if_splits intro: less_le_trans)
    show "set (level_ids e' k) \<inter> set (level_ids e' m) = {}" if "k \<noteq> m" for k m
      using that num fresh [of k] fresh [of m] by (auto simp: ids numbered_def)
    show "sorted_wrt (\<lambda>i j. j < i) (level_ids e' 0)" using num by (simp add: ids numbered_def)
    show "map_option sst_id (eng_ssts e' i) = Some i" if "i \<in> set (level_ids e' k)" for i k
      using that num replaced_ssts [OF num rep new] by (auto simp: ids numbered_def split: if_splits)
  qed
qed

lemma replaced_inv:
  assumes inv: "eng_inv v disk0 tb m ess e" and gen: "gen_ok v disk (set ts \<union> live_tables tb e) n e1"
    and e1: "eng_next_sst_id e1 = eng_next_sst_id e + of_nat (length ts)" "eng_data_dir e1 = eng_data_dir e"
    and rep: "replaced l ts e e'" and new: "new_numbers e ts" and srt: "sorted_wrt table_before ts"
    and fs: "fs_shrinks (st_fs (eng_store e1)) fs'" "eng_store e' = (eng_store e1)\<lparr>st_fs := fs'\<rparr>"
  shows "eng_inv v disk (number_tables tb ts) n ess e'"
proof -
  have mt: "mt_repr (eng_memtable e) ess" and ok: "eng_ok v disk0 tb m e" and num: "numbered e"
    using inv by (auto simp: eng_inv_def)
  note tabs = replaced_tables [OF num rep new, where tb = tb]
  have ids: "level_ids e' k = (if k = l then [] else if k = Suc l then map (\<lambda>t. sst_id (fst t)) ts else level_ids e k)" for k
    using rep by (simp add: replaced_def)
  have plain: "tables_ok (env_hash v) disk (set ts \<union> live_tables tb e) n (eng_store e1)"
    "\<forall>t \<in> set ts \<union> live_tables tb e. plain_table (st_fs (eng_store e1)) t" and un: "unused_numbers disk e1"
    using gen by (auto simp: gen_ok_def)
  note live = tables_ok_shrinks [OF plain fs(1) tabs(4)]
  have "eng_ok v disk (number_tables tb ts) n e'"
    unfolding eng_ok_def
  proof (intro conjI allI ballI impI)
    show "omap_sorted (eng_level_sst_ids e')" using rep by (simp add: replaced_def)
    show "eng_ssts e' i = Some (fst (number_tables tb ts i))" if "i \<in> set (level_ids e' k)" for i k
      using that replaced_ssts [OF num rep new] tabs(1) [of i] tabs(2) level_tables [OF ok, of k]
      by (auto simp: ids split: if_splits)
    show "tables_ok (env_hash v) disk (live_tables (number_tables tb ts) e') n (eng_store e')"
      using live(1) by (simp only: fs(2))
    show "sorted_wrt (\<lambda>i j. table_before (number_tables tb ts i) (number_tables tb ts j)) (level_ids e' k)" if "0 < k" for k
    proof -
      have "sorted_wrt (\<lambda>i j. table_before (tb i) (tb j)) (level_ids e k)" using that ok by (simp add: eng_ok_def)
      then have "sorted_wrt (\<lambda>i j. table_before (number_tables tb ts i) (number_tables tb ts j)) (level_ids e k)"
        by (rule sorted_wrt_mono_rel [rotated]) (simp add: tabs(1))
      moreover have "sorted_wrt (\<lambda>t u. table_before (number_tables tb ts (sst_id (fst t))) (number_tables tb ts (sst_id (fst u)))) ts"
        using srt by (rule sorted_wrt_mono_rel [rotated]) (simp add: tabs(2))
      ultimately show ?thesis by (simp add: ids sorted_wrt_map)
    qed
    show "k \<le> eng_cur_max_level e'" if "level_ids e' k \<noteq> []" for k
    proof -
      have "eng_cur_max_level e' = max (eng_cur_max_level e) (Suc l)" using rep by (simp add: replaced_def)
      moreover have "k = Suc l \<or> level_ids e k \<noteq> []" using that by (simp add: ids split: if_splits)
      moreover have "level_ids e k \<noteq> [] \<Longrightarrow> k \<le> eng_cur_max_level e" using ok by (simp add: eng_ok_def)
      ultimately show ?thesis by auto
    qed
  qed
  moreover have "unused_numbers disk e'"
    using rep e1 fs by (intro unused_shrinks [OF un]) (simp_all add: replaced_def)
  moreover have "mt_repr (eng_memtable e') ess" using mt rep by (simp add: replaced_def)
  ultimately show ?thesis
    using live(2) replaced_numbered [OF num rep new] by (simp add: eng_inv_def fs(2))
qed

section \<open>The versions on disk\<close>

lemma disk_versions_upto:
  assumes "eng_ok v disk tb n e" and "eng_cur_max_level e < N"
  shows "disk_versions tb e = concat (map (level_entries tb e) [0..<N])"
proof -
  have "level_entries tb e k = []" if "eng_cur_max_level e < k" for k
  proof -
    have "level_ids e k \<noteq> [] \<Longrightarrow> k \<le> eng_cur_max_level e" using assms(1) by (simp add: eng_ok_def)
    with that have "level_ids e k = []" by (cases "level_ids e k") auto
    then show ?thesis by (simp add: level_entries_def)
  qed
  then have "concat (map (level_entries tb e) [Suc (eng_cur_max_level e)..<N]) = []" by simp
  moreover have "[0..<N] = [0..<Suc (eng_cur_max_level e)] @ [Suc (eng_cur_max_level e)..<N]"
    using assms(2) upt_add_eq_append [of 0 "Suc (eng_cur_max_level e)" "N - Suc (eng_cur_max_level e)"] by (simp del: upt_Suc)
  ultimately show ?thesis by (simp add: disk_versions_def del: upt_Suc)
qed

lemma upt_two_levels: "Suc l < N \<Longrightarrow> [0..<N] = [0..<l] @ l # Suc l # [Suc (Suc l)..<N]"
  using upt_add_eq_append [of 0 l "N - l"] by (simp add: upt_conv_Cons)

lemma replaced_versions:
  assumes ok: "eng_ok v disk0 tb m e" "eng_ok v disk (number_tables tb ts) n e'"
    and num: "numbered e" and rep: "replaced l ts e e'" and new: "new_numbers e ts"
  shows "\<exists>A C. disk_versions tb e = A @ (level_entries tb e l @ level_entries tb e (Suc l)) @ C \<and>
    disk_versions (number_tables tb ts) e' = A @ concat (map table_entries ts) @ C"
proof -
  let ?N = "Suc (max (eng_cur_max_level e) (Suc l))"
  note ents = replaced_tables(3) [OF num rep new, of tb]
  have cm: "eng_cur_max_level e' = max (eng_cur_max_level e) (Suc l)" using rep by (simp add: replaced_def)
  have split: "[0..<?N] = [0..<l] @ l # Suc l # [Suc (Suc l)..<?N]" by (rule upt_two_levels) simp
  have d: "disk_versions tb e = concat (map (level_entries tb e) [0..<?N])"
    "disk_versions (number_tables tb ts) e' = concat (map (level_entries (number_tables tb ts) e') [0..<?N])"
    using ok by (simp_all only: disk_versions_upto less_Suc_eq_le max.cobounded1 cm)
  have same: "map (level_entries (number_tables tb ts) e') [0..<l] = map (level_entries tb e) [0..<l]"
    "map (level_entries (number_tables tb ts) e') [Suc (Suc l)..<?N] = map (level_entries tb e) [Suc (Suc l)..<?N]"
    by (rule map_cong, auto simp: ents simp del: upt_Suc)+
  show ?thesis
    unfolding d split map_append list.map concat_append concat.simps same
    by (intro exI [of _ "concat (map (level_entries tb e) [0..<l])"] exI [of _ "concat (map (level_entries tb e) [Suc (Suc l)..<?N])"])
      (simp add: ents)
qed

lemma newest_first_middle:
  assumes "newest_first (A @ X @ C)" and "newest_first Y" and "set Y = set X"
  shows "newest_first (A @ Y @ C)"
  using assms by (auto simp: newest_first_append)

lemma level_entries_part:
  assumes "eng_ok v disk tb n e"
  shows "\<exists>A C. disk_versions tb e = A @ (level_entries tb e l @ level_entries tb e (Suc l)) @ C"
proof -
  have "disk_versions tb e = concat (map (level_entries tb e) [0..<Suc (max (eng_cur_max_level e) (Suc l))])"
    by (rule disk_versions_upto [OF assms]) simp
  then show ?thesis
    by (intro exI [of _ "concat (map (level_entries tb e) [0..<l])"]
        exI [of _ "concat (map (level_entries tb e) [Suc (Suc l)..<Suc (max (eng_cur_max_level e) (Suc l))])"])
      (simp add: upt_two_levels [of l "Suc (max (eng_cur_max_level e) (Suc l))"] del: upt_Suc)
qed

section \<open>Compacting\<close>

lemma eng_inv_touch:
  assumes "eng_inv v disk tb n ess e" and "e' = e\<lparr>eng_level_sst_ids := M\<rparr>" and "omap_sorted M"
    and "\<forall>l. omap_at l [] M = level_ids e l"
  shows "eng_inv v disk tb n ess e'" and "disk_versions tb e' = disk_versions tb e" and "level_ids e' = level_ids e"
proof -
  have ids: "level_ids e' = level_ids e" using assms(2,4) by (auto simp: level_ids_def)
  have same: "eng_ssts e' = eng_ssts e" "eng_next_sst_id e' = eng_next_sst_id e" "eng_store e' = eng_store e"
    "eng_cur_max_level e' = eng_cur_max_level e" "eng_memtable e' = eng_memtable e" "eng_data_dir e' = eng_data_dir e"
    "eng_level_sst_ids e' = M"
    by (simp_all add: assms(2))
  have paths: "LSMEngine_get_sst_path i l e' = LSMEngine_get_sst_path i l e" for i l
    by (simp add: LSMEngine_get_sst_path_def same)
  have "numbered e' = numbered e" unfolding numbered_def ids same ..
  moreover have "unused_numbers disk e' = unused_numbers disk e" unfolding unused_numbers_def paths same ..
  moreover have live: "live_tables tb e' = live_tables tb e" unfolding live_tables_def ids ..
  moreover have "eng_ok v disk tb n e'"
    using assms(1,3) unfolding eng_inv_def eng_ok_def ids same live by blast
  ultimately show "eng_inv v disk tb n ess e'" using assms(1) by (simp add: eng_inv_def same)
  show "disk_versions tb e' = disk_versions tb e" unfolding disk_versions_def level_entries_def ids same ..
  show "level_ids e' = level_ids e" by (rule ids)
qed

text \<open>
  The state of a compaction: the invariant, the versions on disk (which are those of \<open>vs\<close>, newest first)
  and what is left of the counters for \<open>k\<close> merges.
\<close>

definition compact_state ::
  "env \<Rightarrow> entry list \<Rightarrow> nat \<Rightarrow> (cache_key \<Rightarrow> block option) \<Rightarrow> (u64 \<Rightarrow> table) \<Rightarrow> nat \<Rightarrow> entry list list \<Rightarrow> engine \<Rightarrow> bool" where
  "compact_state v vs k disk tb n ess e \<longleftrightarrow>
     eng_inv v disk tb n ess e \<and> newest_first (disk_versions tb e) \<and> mset (disk_versions tb e) = mset vs \<and>
     n + k * (12 * length vs + 8) < 2 ^ 64 \<and> unat (eng_next_sst_id e) + k * (length vs + 1) < 2 ^ 31"

definition compact_env :: "env \<Rightarrow> entry list \<Rightarrow> bool" where
  "compact_env v vs \<longleftrightarrow> plain_env v \<and> target_ok v \<and> versions_fit (block_size v) vs \<and> length vs < env_steps v \<and> 0 < level_ratio v"

lemma compact_pair:
  assumes env: "compact_env v vs" and st: "compact_state v vs (Suc k) disk tb n ess e"
  shows "level_pair v vs tb (live_tables tb e) e (level_ids e l) (level_ids e (Suc l)) n"
    and "gen_ok v disk (live_tables tb e) n e"
proof -
  have inv: "eng_inv v disk tb n ess e" and ok: "eng_ok v disk tb n e" using st by (simp_all add: compact_state_def eng_inv_def)
  obtain A C where AC: "disk_versions tb e = A @ (level_entries tb e l @ level_entries tb e (Suc l)) @ C"
    using level_entries_part [OF ok] by blast
  let ?E = "level_entries tb e l @ level_entries tb e (Suc l)"
  have "newest_first (A @ ?E @ C)" "mset (A @ ?E @ C) = mset vs" using st unfolding compact_state_def AC by blast+
  then have "newest_first ?E" "mset ?E \<subseteq># mset vs"
    by (simp_all add: newest_first_append flip: \<open>mset (A @ ?E @ C) = mset vs\<close>)
  then have "newest_first (concat (map (\<lambda>i. table_entries (tb i)) (level_ids e l @ level_ids e (Suc l))))"
    "mset (concat (map (\<lambda>i. table_entries (tb i)) (level_ids e l @ level_ids e (Suc l)))) \<subseteq># mset vs"
    by (simp_all add: level_entries_def)
  moreover have "sorted_wrt (\<lambda>i j. table_before (tb i) (tb j)) (level_ids e (Suc l))" using ok by (simp add: eng_ok_def)
  moreover have "\<forall>i \<in> set (level_ids e l @ level_ids e (Suc l)). eng_ssts e i = Some (fst (tb i)) \<and> tb i \<in> live_tables tb e"
    using level_tables [OF ok] by auto
  ultimately show "level_pair v vs tb (live_tables tb e) e (level_ids e l) (level_ids e (Suc l)) n"
    using st env unfolding level_pair_def compact_state_def compact_env_def by simp
  show "gen_ok v disk (live_tables tb e) n e" using inv by (simp add: eng_inv_def eng_ok_def gen_ok_def)
qed

text \<open>What a compaction may return: the error of the empty builder, or a state with no level beyond \<open>b\<close>.\<close>

definition compaction_result ::
  "env \<Rightarrow> entry list \<Rightarrow> nat \<Rightarrow> entry list list \<Rightarrow> nat \<Rightarrow> nat \<Rightarrow> engine \<Rightarrow> engine result \<Rightarrow> bool" where
  "compaction_result v vs k ess l b e r \<longleftrightarrow>
     r = Inl (Runtime_error ''Cannot build empty SST'') \<or>
     (\<exists>e' disk tb n. r = Inr e' \<and> compact_state v vs k disk tb n ess e' \<and> level_ids e' l = [] \<and>
        (\<forall>j < l. level_ids e' j = level_ids e j) \<and> eng_cur_max_level e' \<le> b \<and>
        eng_next_sst_id e \<le> eng_next_sst_id e')"

lemma generated_fields:
  assumes "generated v disk T n e e1 ts cs sb"
  shows "gen_ok v disk (set ts \<union> T) n e1" and "sorted_wrt table_before ts"
    and "eng_next_sst_id e1 = eng_next_sst_id e + of_nat (length ts)" and "eng_data_dir e1 = eng_data_dir e"
    and "map (\<lambda>t. sst_id (fst t)) ts = map (\<lambda>i. eng_next_sst_id e + of_nat i) [0..<length ts]"
    and "e1 = e\<lparr>eng_next_sst_id := eng_next_sst_id e + of_nat (length ts), eng_store := eng_store e1\<rparr>"
proof -
  show e1: "e1 = e\<lparr>eng_next_sst_id := eng_next_sst_id e + of_nat (length ts), eng_store := eng_store e1\<rparr>"
    and "gen_ok v disk (set ts \<union> T) n e1" "sorted_wrt table_before ts"
      "map (\<lambda>t. sst_id (fst t)) ts = map (\<lambda>i. eng_next_sst_id e + of_nat i) [0..<length ts]"
    using assms unfolding generated_def by blast+
  show "eng_next_sst_id e1 = eng_next_sst_id e + of_nat (length ts)" "eng_data_dir e1 = eng_data_dir e"
    using arg_cong [OF e1, of eng_next_sst_id] arg_cong [OF e1, of eng_data_dir] by simp_all
qed

lemma replaced_state:
  assumes st: "compact_state v vs (Suc k) disk0 tb n0 ess e" and gen: "generated v disk (live_tables tb e) n e e1 ts [] sb"
    and new: "sorted_wrt vless (concat (map table_entries ts))"
      "mset (concat (map table_entries ts)) = mset (level_entries tb e l @ level_entries tb e (Suc l))"
      "length ts \<le> length vs + 1" "n \<le> n0 + 12 * length vs + 8"
    and rep: "replaced l ts e e'" and fs: "fs_shrinks (st_fs (eng_store e1)) fs'" "eng_store e' = (eng_store e1)\<lparr>st_fs := fs'\<rparr>"
  shows "compact_state v vs k disk (number_tables tb ts) n ess e'" and "eng_next_sst_id e \<le> eng_next_sst_id e'"
proof -
  have inv: "eng_inv v disk0 tb n0 ess e" and nf: "newest_first (disk_versions tb e)" and ms: "mset (disk_versions tb e) = mset vs"
    and room: "n0 + Suc k * (12 * length vs + 8) < 2 ^ 64" "unat (eng_next_sst_id e) + Suc k * (length vs + 1) < 2 ^ 31"
    using st unfolding compact_state_def by blast+
  have g: "gen_ok v disk (set ts \<union> live_tables tb e) n e1" and srt: "sorted_wrt table_before ts"
    and e1: "eng_next_sst_id e1 = eng_next_sst_id e + of_nat (length ts)" "eng_data_dir e1 = eng_data_dir e"
    and ids: "map (\<lambda>t. sst_id (fst t)) ts = map (\<lambda>i. eng_next_sst_id e + of_nat i) [0..<length ts]"
    by (rule generated_fields [OF gen])+
  have nn: "new_numbers e ts" using ids room(2) new(3) by (simp add: new_numbers_def)
  note inv' = replaced_inv [OF inv g e1 rep nn srt fs]
  have ok: "eng_ok v disk0 tb n0 e" "eng_ok v disk (number_tables tb ts) n e'" and num: "numbered e"
    using inv inv' by (simp_all add: eng_inv_def)
  obtain A C where AC: "disk_versions tb e = A @ (level_entries tb e l @ level_entries tb e (Suc l)) @ C"
    "disk_versions (number_tables tb ts) e' = A @ concat (map table_entries ts) @ C"
    using replaced_versions [OF ok num rep nn] by blast
  have "set (concat (map table_entries ts)) = set (level_entries tb e l @ level_entries tb e (Suc l))"
    using new(2) by (rule mset_eq_setD)
  from newest_first_middle [OF nf [unfolded AC(1)] sorted_newest_first [OF new(1)] this]
  have "newest_first (disk_versions (number_tables tb ts) e')" unfolding AC(2) .
  moreover have "mset (disk_versions (number_tables tb ts) e') = mset vs"
    unfolding AC(2) ms [symmetric] AC(1) mset_append [of A] mset_append [of _ C] new(2) ..
  moreover have nx: "unat (eng_next_sst_id e') = unat (eng_next_sst_id e) + length ts"
    using rep nn unat_next [of "eng_next_sst_id e" "length ts"] by (simp add: replaced_def new_numbers_def)
  ultimately show "compact_state v vs k disk (number_tables tb ts) n ess e'"
    using inv' new(3,4) room by (simp add: compact_state_def algebra_simps)
  show "eng_next_sst_id e \<le> eng_next_sst_id e'" using nx by (simp add: word_le_nat_alt)
qed

lemma merge_levels_ok:
  assumes env: "compact_env v vs" and st: "compact_state v vs (Suc k) disk tb n ess e" and ne: "l = 0 \<Longrightarrow> level_ids e 0 \<noteq> []"
  shows "compaction_result v vs k ess l (max (eng_cur_max_level e) (Suc l)) e (merge_levels v l e)"
proof -
  define e0 where "e0 = e\<lparr>eng_level_sst_ids := omap_touch (Suc l) [] (omap_touch l [] (eng_level_sst_ids e))\<rparr>"
  have inv: "eng_inv v disk tb n ess e" and srt: "omap_sorted (eng_level_sst_ids e)"
    using st by (auto simp: compact_state_def eng_inv_def eng_ok_def)
  note t = eng_inv_touch [OF inv e0_def]
  have same: "eng_next_sst_id e0 = eng_next_sst_id e" "eng_cur_max_level e0 = eng_cur_max_level e" by (simp_all add: e0_def)
  have inv0: "eng_inv v disk tb n ess e0" "disk_versions tb e0 = disk_versions tb e" and ids: "level_ids e0 = level_ids e"
    using t srt by (simp_all add: level_ids_def)
  then have st0: "compact_state v vs (Suc k) disk tb n ess e0" using st by (simp add: compact_state_def same)
  have num: "numbered e0" and ok0: "eng_ok v disk tb n e0" using inv0(1) by (auto simp: eng_inv_def)
  let ?lx = "level_ids e0 l" and ?ly = "level_ids e0 (Suc l)"
  let ?r = "if l = 0 then LSMEngine_full_l0_l1_compact v ?lx ?ly e0 else LSMEngine_full_common_compact v ?lx ?ly (l + 1) e0"
  have run: "merge_levels v l e = bindE ?r (\<lambda>(new_ssts, e). replace_tables l (?lx @ ?ly) new_ssts e)"
    by (simp add: merge_levels_def Let_def level_ids_def e0_def)
  have envs: "plain_env v" "target_ok v" "versions_fit (block_size v) vs" using env by (simp_all add: compact_env_def)
  note pair = compact_pair(1) [OF env st0, of l] compact_pair(2) [OF env st0]
  have "compacted v (live_tables tb e0) (n + 12 * length vs + 8) e0 (concat (map (\<lambda>i. table_entries (tb i)) (?lx @ ?ly))) ?r"
  proof (cases "l = 0")
    case True
    have "sorted_wrt (\<lambda>i j. j < i) ?lx" using num True by (simp add: numbered_def)
    moreover have "?lx \<noteq> []" using ne True ids by simp
    moreover have "\<forall>i \<in> set ?lx. sst_id (fst (tb i)) = i \<and> unat i < 2 ^ 31"
    proof (intro ballI conjI)
      fix i assume i: "i \<in> set ?lx"
      have "eng_ssts e0 i = Some (fst (tb i))" using level_tables [OF ok0] i by blast
      moreover have "map_option sst_id (eng_ssts e0 i) = Some i" "i < eng_next_sst_id e0" using num i by (simp_all only: numbered_def)
      moreover have "unat (eng_next_sst_id e0) < 2 ^ 31" using st0 by (simp add: compact_state_def)
      ultimately show "sst_id (fst (tb i)) = i" "unat i < 2 ^ 31" by (simp_all add: word_less_nat_alt)
    qed
    ultimately show ?thesis using l0_l1_compact_ok [OF envs pair(2,1)] True by simp
  next
    case False
    then have "sorted_wrt (\<lambda>i j. table_before (tb i) (tb j)) ?lx" using ok0 by (simp add: eng_ok_def)
    then show ?thesis using common_compact_ok [OF envs(1,3) pair(2,1)] False by simp
  qed
  then show ?thesis
    unfolding compacted_def
  proof (elim disjE exE conjE)
    assume "?r = Inl (Runtime_error ''Cannot build empty SST'')"
    then show ?thesis unfolding compaction_result_def run by (simp del: if_split)
  next
    fix ts e1 disk1 n1
    assume r: "?r = Inr (map fst ts, e1)" and gen: "generated v disk1 (live_tables tb e0) n1 e0 e1 ts [] (plain_builder v)"
      and new: "sorted_wrt vless (concat (map table_entries ts))"
        "mset (concat (map table_entries ts)) = mset (concat (map (\<lambda>i. table_entries (tb i)) (?lx @ ?ly)))"
        "length ts \<le> length (concat (map (\<lambda>i. table_entries (tb i)) (?lx @ ?ly))) + 1" "n1 \<le> n + 12 * length vs + 8"
    have len: "length ts \<le> length vs + 1" using new(3) level_pair_length [OF pair(1)] by simp
    have "new_numbers e0 ts"
      using generated_fields(5) [OF gen] len st0 by (simp add: new_numbers_def compact_state_def)
    then have srt': "sorted_wrt (<) (map (\<lambda>t. sst_id (fst t)) ts)" by (rule new_numbers_sorted)
    have "omap_sorted (eng_level_sst_ids e0)" "\<forall>i \<in> set (?lx @ ?ly). eng_ssts e0 i \<noteq> None"
      using ok0 level_tables [OF ok0] by (auto simp: eng_ok_def)
    moreover have "distinct (?lx @ ?ly)" using num by (simp add: numbered_def)
    ultimately obtain e' fs' where rep: "replace_tables l (?lx @ ?ly) (map fst ts) e1 = Inr e'" "replaced l ts e0 e'"
      "fs_shrinks (st_fs (eng_store e1)) fs'" "eng_store e' = (eng_store e1)\<lparr>st_fs := fs'\<rparr>"
      using replace_tables_ok [OF generated_fields(6) [OF gen] _ _ _ srt'] by blast
    have ents: "mset (concat (map table_entries ts)) = mset (level_entries tb e0 l @ level_entries tb e0 (Suc l))"
      using new(2) by (simp add: level_entries_def)
    note st' = replaced_state [OF st0 gen new(1) ents len new(4) rep(2,3,4)]
    have "merge_levels v l e = Inr e'" unfolding run r by (simp add: rep(1))
    moreover have "level_ids e' l = []" "\<forall>j < l. level_ids e' j = level_ids e j" "eng_cur_max_level e' = max (eng_cur_max_level e) (Suc l)"
      using rep(2) ids same by (simp_all add: replaced_def)
    ultimately show ?thesis
      using st' unfolding compaction_result_def same(1)
      by (intro disjI2 exI [of _ e'] exI [of _ disk1] exI [of _ "number_tables tb ts"] exI [of _ n1]) auto
  qed
qed

lemma compact_state_less: "compact_state v vs k disk tb n ess e \<Longrightarrow> j \<le> k \<Longrightarrow> compact_state v vs j disk tb n ess e"
  unfolding compact_state_def by (metis add_le_cancel_left le_less_trans mult_le_mono1)

lemma compaction_error: "compaction_result v vs k ess l b e (Inl (Runtime_error ''Cannot build empty SST''))"
  by (simp add: compaction_result_def)

lemma compaction_result_from:
  assumes "compaction_result v vs k ess l b e1 r" and "b \<le> b'" and "\<forall>j < l. level_ids e1 j = level_ids e j"
    and "eng_next_sst_id e \<le> eng_next_sst_id e1"
  shows "compaction_result v vs k ess l b' e r"
  using assms(1) unfolding compaction_result_def
proof (elim disjE exE conjE, goal_cases)
  case (2 e' disk tb n)
  with assms(2-4) show ?case
    by (intro disjI2 exI [of _ e'] exI [of _ disk] exI [of _ tb] exI [of _ n]) (auto intro: order_trans)
qed simp

lemma full_compact_ok:
  assumes "compact_env v vs" and "compact_state v vs (k + j) disk tb n ess e" and "eng_cur_max_level e < l + k"
    and "level_ids e l \<noteq> []" and "k \<le> f"
  shows "compaction_result v vs j ess l (Suc (eng_cur_max_level e)) e (LSMEngine_full_compact v f l e)"
  using assms
proof (induction k arbitrary: j disk tb n e l f)
  case 0
  then have "l \<le> eng_cur_max_level e" by (auto simp: compact_state_def eng_inv_def eng_ok_def)
  with 0 show ?case by simp
next
  case (Suc k)
  obtain f' where f: "f = Suc f'" "k \<le> f'" using Suc.prems(5) by (cases f) auto
  define e0 where "e0 = e\<lparr>eng_level_sst_ids := omap_touch (Suc l) [] (eng_level_sst_ids e)\<rparr>"
  have inv: "eng_inv v disk tb n ess e" and srt: "omap_sorted (eng_level_sst_ids e)" and le: "l \<le> eng_cur_max_level e"
    using Suc.prems(2,4) by (auto simp: compact_state_def eng_inv_def eng_ok_def)
  have same: "eng_next_sst_id e0 = eng_next_sst_id e" "eng_cur_max_level e0 = eng_cur_max_level e" by (simp_all add: e0_def)
  have inv0: "eng_inv v disk tb n ess e0" "disk_versions tb e0 = disk_versions tb e" and ids: "level_ids e0 = level_ids e"
    using eng_inv_touch [OF inv e0_def] srt by (simp_all add: level_ids_def)
  then have st0: "compact_state v vs (k + Suc j) disk tb n ess e0" using Suc.prems(2) by (simp add: compact_state_def same)
  have at: "omap_at (Suc l) [] (eng_level_sst_ids e0) = level_ids e (Suc l)"
    using fun_cong [OF ids, of "Suc l"] by (simp add: level_ids_def)
  have run: "LSMEngine_full_compact v f l e =
      bindE (if level_ratio v \<le> of_nat (length (level_ids e (Suc l))) then LSMEngine_full_compact v f' (Suc l) e0 else Inr e0) (merge_levels v l)"
    unfolding f(1) LSMEngine_full_compact.simps Let_def Suc_eq_plus1 [symmetric] e0_def [symmetric] at ..
  show ?case
  proof (cases "level_ratio v \<le> of_nat (length (level_ids e (Suc l)))")
    case False
    have "compact_state v vs (Suc j) disk tb n ess e0" by (rule compact_state_less [OF st0]) simp
    then have "compaction_result v vs j ess l (max (eng_cur_max_level e0) (Suc l)) e0 (merge_levels v l e0)"
      using Suc.prems(4) by (intro merge_levels_ok [OF Suc.prems(1)]) (simp_all add: ids)
    then show ?thesis
      using le False unfolding run by (simp add: compaction_result_from same ids)
  next
    case True
    have "level_ids e0 (Suc l) \<noteq> []" using True Suc.prems(1) by (auto simp: ids compact_env_def)
    then have "compaction_result v vs (Suc j) ess (Suc l) (Suc (eng_cur_max_level e0)) e0 (LSMEngine_full_compact v f' (Suc l) e0)"
      using Suc.prems(3) same f(2) by (intro Suc.IH [OF Suc.prems(1) st0]) simp_all
    then show ?thesis
      unfolding compaction_result_def [of _ _ "Suc j"] same ids
    proof (elim disjE exE conjE)
      assume "LSMEngine_full_compact v f' (Suc l) e0 = Inl (Runtime_error ''Cannot build empty SST'')"
      then show ?thesis unfolding run using True by (simp add: compaction_error)
    next
      fix e1 disk1 tb1 n1
      assume r: "LSMEngine_full_compact v f' (Suc l) e0 = Inr e1" and st1: "compact_state v vs (Suc j) disk1 tb1 n1 ess e1"
        and l1: "\<forall>j < Suc l. level_ids e1 j = level_ids e j" and cm: "eng_cur_max_level e1 \<le> Suc (eng_cur_max_level e)"
        and nx: "eng_next_sst_id e \<le> eng_next_sst_id e1"
      have m: "compaction_result v vs j ess l (max (eng_cur_max_level e1) (Suc l)) e1 (merge_levels v l e1)"
        using l1 Suc.prems(4) by (intro merge_levels_ok [OF Suc.prems(1) st1]) simp
      moreover have "LSMEngine_full_compact v f l e = merge_levels v l e1" unfolding run using True r by simp
      moreover have "max (eng_cur_max_level e1) (Suc l) \<le> Suc (eng_cur_max_level e)" using cm le by simp
      ultimately show ?thesis using l1 nx by (simp add: compaction_result_from)
    qed
  qed
qed

section \<open>Lookups before and after\<close>

definition same_lookups :: "env \<Rightarrow> engine \<Rightarrow> engine \<Rightarrow> bool" where
  "same_lookups v e e' \<longleftrightarrow>
     (\<forall>key tid. key \<noteq> [] \<longrightarrow> (\<exists>r e1 r' e1'. LSMEngine_get v key tid e = Inr (r, e1) \<and> LSMEngine_get v key tid e' = Inr (r', e1') \<and>
        map_option fst r = map_option fst r'))"

lemma same_lookups_I:
  assumes "eng_inv v disk tb n ess e" and "n + 4 * length (level_ids e 0) + 2 * eng_cur_max_level e < 2 ^ 64"
    and "eng_inv v disk' tb' n' ess' e'" and "n' + 4 * length (level_ids e' 0) + 2 * eng_cur_max_level e' < 2 ^ 64"
    and "\<And>key tid. version_of key tid (concat ess @ disk_versions tb e) = version_of key tid (concat ess' @ disk_versions tb' e')"
  shows "same_lookups v e e'"
  unfolding same_lookups_def
proof (intro allI impI)
  fix key :: string and tid
  assume key: "key \<noteq> []"
  have repr: "mt_repr (eng_memtable e) ess" "eng_ok v disk tb n e" "mt_repr (eng_memtable e') ess'" "eng_ok v disk' tb' n' e'"
    using assms(1,3) by (auto simp: eng_inv_def)
  have "newest_value key tid (concat ess @ disk_versions tb e) = newest_value key tid (concat ess' @ disk_versions tb' e')"
    unfolding newest_value_def assms(5) ..
  then show "\<exists>r e1 r' e1'. LSMEngine_get v key tid e = Inr (r, e1) \<and> LSMEngine_get v key tid e' = Inr (r', e1') \<and>
      map_option fst r = map_option fst r'"
    using engine_get_ok [OF repr(1,2) key assms(2), of tid] engine_get_ok [OF repr(3,4) key assms(4), of tid] by metis
qed

lemma level0_at_most:
  assumes "compact_state v vs k disk tb n ess e"
  shows "length (level_ids e 0) \<le> length vs"
proof -
  have ok: "eng_ok v disk tb n e" using assms by (simp add: compact_state_def eng_inv_def)
  then have "tables_ok (env_hash v) disk (live_tables tb e) n (eng_store e)" by (simp add: eng_ok_def)
  moreover have "\<forall>i \<in> set (level_ids e 0). tb i \<in> live_tables tb e" using level_tables [OF ok] by blast
  ultimately have "length (level_ids e 0) \<le> length (level_entries tb e 0)"
    unfolding level_entries_def by (rule tables_at_least)
  also have "\<dots> \<le> length (disk_versions tb e)" by (simp add: disk_versions_split)
  also have "\<dots> = length vs" using assms by (metis compact_state_def size_mset)
  finally show ?thesis .
qed

text \<open>The counters leave room for lookups.\<close>

lemma lookup_room:
  assumes "compact_state v vs (Suc k) disk tb n ess e" and "eng_cur_max_level e \<le> Suc k"
  shows "n + 4 * Suc (length (level_ids e 0)) + 2 * eng_cur_max_level e < 2 ^ 64"
proof -
  have "n + Suc k * (12 * length vs + 8) < 2 ^ 64" using assms(1) by (simp add: compact_state_def)
  moreover have "Suc k * (12 * length vs) \<ge> 12 * length vs" by simp
  ultimately show ?thesis using level0_at_most [OF assms(1)] assms(2) by (simp add: algebra_simps)
qed

lemma compact_if_full_ok:
  assumes env: "compact_env v vs" "eng_cur_max_level e < env_steps v"
    and st: "compact_state v vs (Suc (eng_cur_max_level e) + j) disk tb n ess e"
  shows "compact_if_full v e = Inl (Runtime_error ''Cannot build empty SST'') \<or>
    (\<exists>e' disk' tb' n'. compact_if_full v e = Inr e' \<and> compact_state v vs j disk' tb' n' ess e' \<and>
       eng_cur_max_level e' \<le> Suc (eng_cur_max_level e))"
proof (cases "level_ratio v \<le> of_nat (length (level_ids e 0)) \<and> map_of (eng_level_sst_ids e) 0 \<noteq> None")
  case True
  then have ne: "level_ids e 0 \<noteq> []" using env(1) by (auto simp: compact_env_def)
  have "compact_if_full v e = LSMEngine_full_compact v (env_steps v) 0 e"
    using True by (auto simp: compact_if_full_def level_ids_def omap_at_def)
  then show ?thesis
    using full_compact_ok [OF env(1) st _ ne, of "env_steps v"] env(2) unfolding compaction_result_def by auto
next
  case False
  then have "compact_if_full v e = Inr e"
    by (auto simp: compact_if_full_def level_ids_def omap_at_def split: option.splits)
  moreover have "compact_state v vs j disk tb n ess e" by (rule compact_state_less [OF st]) simp
  ultimately show ?thesis by auto
qed

lemma version_of_same_tail:
  assumes "newest_first xs" and "newest_first ys" and "mset xs = mset ys"
  shows "version_of key tid (zs @ xs) = version_of key tid (zs @ ys)"
  using version_of_same_set [OF assms(1,2) mset_eq_setD [OF assms(3)], of key tid]
  by (simp add: version_of_append split: option.split)

lemma compact_same_lookups:
  assumes "compact_state v vs (Suc k) disk tb n ess e" and "eng_cur_max_level e \<le> Suc k"
    and "compact_state v vs (Suc j) disk' tb' n' ess e'" and "eng_cur_max_level e' \<le> Suc j"
  shows "same_lookups v e e'"
proof (rule same_lookups_I)
  show "eng_inv v disk tb n ess e" "eng_inv v disk' tb' n' ess e'" using assms(1,3) by (auto simp: compact_state_def)
  show "n + 4 * length (level_ids e 0) + 2 * eng_cur_max_level e < 2 ^ 64" using lookup_room [OF assms(1,2)] by simp
  show "n' + 4 * length (level_ids e' 0) + 2 * eng_cur_max_level e' < 2 ^ 64" using lookup_room [OF assms(3,4)] by simp
  show "version_of key tid (concat ess @ disk_versions tb e) = version_of key tid (concat ess @ disk_versions tb' e')" for key tid
    using assms(1,3) by (intro version_of_same_tail) (simp_all add: compact_state_def)
qed

text \<open>An engine with one table in level 0.\<close>

lemma sample_level0:
  "\<exists>e disk tb. eng_inv sample_env disk tb 0 [[]] e \<and> disk_versions tb e = [entry_of ''a'' ''1'' 3] \<and>
    level_ids e 0 = [1] \<and> eng_cur_max_level e = 0 \<and> eng_next_sst_id e = 2"
proof -
  obtain e where e: "eng_inv sample_env (\<lambda>_. None) undefined 0 [[]] e" "disk_versions undefined e = []" "\<forall>l. level_ids e l = []"
    "eng_cur_max_level e = 0" "eng_next_sst_id e = 1"
    using sample_engine by blast
  have "mt_repr (eng_memtable e) [[]]" using e(1) by (simp add: eng_inv_def)
  from MemTable_step_repr [OF this, of 100 "\<lambda>_. (\<lambda>_. True, 1)" "Put ''a'' ''1'' 3"]
  obtain m where m: "mt_repr m [[entry_of ''a'' ''1'' 3]]"
    by (auto simp: spec_step_def table_bytes_def entry_bytes_used_def)
  note inv = eng_inv_memtable [OF e(1) m]
  have "fits_table (block_size sample_env) (last [[entry_of ''a'' ''1'' 3]])"
    by (simp add: sample_cfg fits_table_def buildable_def sorted_entries_def small_entry_def)
  from flush_oldest_ok [OF sample_plain(1) inv(1) this] obtain e' disk' tb' where
    f: "eng_inv sample_env disk' tb' 0 [[]] e'" "disk_versions tb' e' = [entry_of ''a'' ''1'' 3]" "eng_next_sst_id e' = 2"
    "eng_cur_max_level e' = 0" "level_ids e' 0 = 1 # level_ids (e\<lparr>eng_memtable := m\<rparr>) 0"
    using e inv(2) by (auto simp: flushed_def)
  moreover have "level_ids (e\<lparr>eng_memtable := m\<rparr>) 0 = level_ids e 0" by (simp add: level_ids_def)
  ultimately show ?thesis using e(3) by auto
qed

lemma sample_compact_env: "compact_env sample_env [entry_of ''a'' ''1'' 3]"
proof -
  have "target_ok sample_env"
    by (simp add: target_ok_def sample_env_def modify_lsm_tol_mem_size_limit_def modify_lsm_per_mem_size_limit_def setDefaultValues_def)
  moreover have "env_steps sample_env = 100" by (simp add: sample_env_def)
  ultimately show ?thesis
    using sample_plain(1) by (simp add: compact_env_def sample_cfg versions_fit_def key_bytes_def small_entry_def)
qed

section \<open>Properties\<close>

text \<open>
  C4: a compaction from level 0 on returns within as many recursive calls as there are levels. Unless it throws
  because the last version completed a table and nothing is left for the last builder, it moves every
  version of level 0 down, loses and invents none, keeps the invariant of the engine, and every lookup by
  every reader answers as before.
\<close>

theorem compaction_keeps_lookups:
  assumes "compact_env v vs" and "eng_cur_max_level e < env_steps v"
    and "compact_state v vs (2 * Suc (eng_cur_max_level e)) disk tb n ess e" and "level_ids e 0 \<noteq> []"
  shows "LSMEngine_full_compact v (env_steps v) 0 e = Inl (Runtime_error ''Cannot build empty SST'') \<or>
    (\<exists>e' disk' tb' n'. LSMEngine_full_compact v (env_steps v) 0 e = Inr e' \<and> eng_inv v disk' tb' n' ess e' \<and>
       level_ids e' 0 = [] \<and> mset (disk_versions tb' e') = mset (disk_versions tb e) \<and> same_lookups v e e')"
proof -
  let ?c = "eng_cur_max_level e"
  have st: "compact_state v vs (Suc ?c + Suc ?c) disk tb n ess e" using assms(3) by (simp add: mult_2)
  have "compaction_result v vs (Suc ?c) ess 0 (Suc ?c) e (LSMEngine_full_compact v (env_steps v) 0 e)"
    using assms(2) by (intro full_compact_ok [OF assms(1) st _ assms(4)]) simp_all
  then show ?thesis
    unfolding compaction_result_def
  proof (elim disjE exE conjE)
    fix e' disk' tb' n'
    assume r: "LSMEngine_full_compact v (env_steps v) 0 e = Inr e'" "compact_state v vs (Suc ?c) disk' tb' n' ess e'"
      "level_ids e' 0 = []" "eng_cur_max_level e' \<le> Suc ?c"
    have "same_lookups v e e'" using st by (intro compact_same_lookups [OF _ _ r(2,4), of "?c + Suc ?c" disk tb n]) simp_all
    with r st show ?thesis by (auto simp: compact_state_def)
  qed simp_all
qed

theorem compaction_keeps_lookups_witness:
  "\<exists>e. level_ids e 0 = [1] \<and>
    (LSMEngine_full_compact sample_env (env_steps sample_env) 0 e = Inl (Runtime_error ''Cannot build empty SST'') \<or>
    (\<exists>e' disk' tb' n'. LSMEngine_full_compact sample_env (env_steps sample_env) 0 e = Inr e' \<and> eng_inv sample_env disk' tb' n' [[]] e' \<and>
       level_ids e' 0 = [] \<and> mset (disk_versions tb' e') = mset [entry_of ''a'' ''1'' 3] \<and> same_lookups sample_env e e'))"
proof -
  obtain e disk tb where e: "eng_inv sample_env disk tb 0 [[]] e" "disk_versions tb e = [entry_of ''a'' ''1'' 3]"
    "level_ids e 0 = [1]" "eng_cur_max_level e = 0" "eng_next_sst_id e = 2"
    using sample_level0 by blast
  have st: "compact_state sample_env [entry_of ''a'' ''1'' 3] (2 * Suc (eng_cur_max_level e)) disk tb 0 [[]] e"
    using e by (simp add: compact_state_def newest_first_def)
  have "eng_cur_max_level e < env_steps sample_env" using e(4) by (simp add: sample_env_def)
  from compaction_keeps_lookups [OF sample_compact_env this st] e(2,3) show ?thesis
    by (intro exI [of _ e]) simp
qed

text \<open>
  C5: a flush, which compacts first when level 0 is full, changes no lookup. With the transaction ids of a key
  falling from the newest version to the oldest, it either fails in the compaction as above or leaves the
  invariant, the order of the versions and the answer of every lookup by every reader as they were.
\<close>

theorem flush_keeps_lookups:
  assumes "compact_env v vs" and "eng_cur_max_level e < env_steps v"
    and "compact_state v vs (Suc (2 * Suc (eng_cur_max_level e))) disk tb n ess e"
    and "newest_first (concat ess @ disk_versions tb e)" and "fits_table (block_size v) (last ess)"
  shows "LSMEngine_flush v e = Inl (Runtime_error ''Cannot build empty SST'') \<or>
    (\<exists>t e' disk' tb' n' ess'. LSMEngine_flush v e = Inr (t, e') \<and> eng_inv v disk' tb' n' ess' e' \<and>
       newest_first (concat ess' @ disk_versions tb' e') \<and> same_lookups v e e')"
proof (cases "MemTable_get_total_size (eng_memtable e) = 0")
  case True
  have "eng_inv v disk tb n ess e" using assms(3) by (simp add: compact_state_def)
  moreover have "same_lookups v e e" using assms(3) by (intro compact_same_lookups [OF assms(3) _ assms(3)]) simp_all
  ultimately show ?thesis using True assms(4) by (auto simp: LSMEngine_flush_def)
next
  case False
  let ?c = "eng_cur_max_level e"
  have st: "compact_state v vs (Suc ?c + Suc (Suc ?c)) disk tb n ess e" using assms(3) by (simp add: mult_2)
  have run: "LSMEngine_flush v e = bindE (compact_if_full v e) (flush_oldest v)" using False by (simp add: LSMEngine_flush_def)
  from compact_if_full_ok [OF assms(1,2) st] show ?thesis
  proof (elim disjE exE conjE)
    fix e1 disk1 tb1 n1
    assume r: "compact_if_full v e = Inr e1" "compact_state v vs (Suc (Suc ?c)) disk1 tb1 n1 ess e1" "eng_cur_max_level e1 \<le> Suc ?c"
    have inv1: "eng_inv v disk1 tb1 n1 ess e1" "plain_env v" and room: "unat (eng_next_sst_id e1) + 1 < 2 ^ 31"
      using r(2) assms(1) by (simp_all add: compact_state_def compact_env_def)
    from flush_oldest_ok [OF inv1(2,1) assms(5) room] obtain e' disk' tb' where
      f: "flush_oldest v e1 = Inr (foldl max 0 (map etranc (last ess)), e')" "eng_inv v disk' tb' n1 (flushed ess) e'"
      "concat (flushed ess) @ disk_versions tb' e' = concat ess @ disk_versions tb1 e1"
      "eng_cur_max_level e' = eng_cur_max_level e1" "level_ids e' 0 = eng_next_sst_id e1 # level_ids e1 0"
      by auto
    have nf: "newest_first (concat ess @ disk_versions tb1 e1)"
      using assms(3,4) r(2) mset_eq_setD [of "disk_versions tb1 e1" "disk_versions tb e"]
      by (auto simp: compact_state_def newest_first_append)
    have "same_lookups v e e'"
    proof (rule same_lookups_I [OF _ _ f(2)])
      show "eng_inv v disk tb n ess e" using assms(3) by (simp add: compact_state_def)
      show "n + 4 * length (level_ids e 0) + 2 * eng_cur_max_level e < 2 ^ 64" using lookup_room [OF assms(3)] by simp
      show "n1 + 4 * length (level_ids e' 0) + 2 * eng_cur_max_level e' < 2 ^ 64"
        using lookup_room [OF r(2)] r(3) f(4,5) by simp
      show "version_of key tid (concat ess @ disk_versions tb e) = version_of key tid (concat (flushed ess) @ disk_versions tb' e')" for key tid
        unfolding f(3) using assms(3) r(2) by (intro version_of_same_tail) (simp_all add: compact_state_def)
    qed
    moreover have "newest_first (concat (flushed ess) @ disk_versions tb' e')" using nf by (simp only: f(3))
    ultimately show ?thesis using run r(1) f(1,2) by (metis bindE_simps(2))
  qed (simp add: run)
qed

theorem flush_keeps_lookups_witness:
  "\<exists>e disk tb. eng_inv sample_env disk tb 0 [[entry_of ''b'' ''2'' 4]] e \<and> disk_versions tb e = [entry_of ''a'' ''1'' 3] \<and>
    (LSMEngine_flush sample_env e = Inl (Runtime_error ''Cannot build empty SST'') \<or>
    (\<exists>t e' disk' tb' n' ess'. LSMEngine_flush sample_env e = Inr (t, e') \<and> eng_inv sample_env disk' tb' n' ess' e' \<and>
       newest_first (concat ess' @ disk_versions tb' e') \<and> same_lookups sample_env e e'))"
proof -
  obtain e0 disk tb where e0: "eng_inv sample_env disk tb 0 [[]] e0" "disk_versions tb e0 = [entry_of ''a'' ''1'' 3]"
    "eng_cur_max_level e0 = 0" "eng_next_sst_id e0 = 2"
    using sample_level0 by blast
  have "mt_repr (eng_memtable e0) [[]]" using e0(1) by (simp add: eng_inv_def)
  from MemTable_step_repr [OF this, of 100 "\<lambda>_. (\<lambda>_. True, 1)" "Put ''b'' ''2'' 4"]
  obtain m where m: "mt_repr m [[entry_of ''b'' ''2'' 4]]"
    by (auto simp: spec_step_def table_bytes_def entry_bytes_used_def)
  define e where "e = e0\<lparr>eng_memtable := m\<rparr>"
  have e: "eng_inv sample_env disk tb 0 [[entry_of ''b'' ''2'' 4]] e" "disk_versions tb e = [entry_of ''a'' ''1'' 3]"
    "eng_cur_max_level e = 0" "eng_next_sst_id e = 2"
    using eng_inv_memtable [OF e0(1) m] e0(2-4) by (simp_all add: e_def)
  have st: "compact_state sample_env [entry_of ''a'' ''1'' 3] (Suc (2 * Suc (eng_cur_max_level e))) disk tb 0 [[entry_of ''b'' ''2'' 4]] e"
    using e by (simp add: compact_state_def newest_first_def)
  have "eng_cur_max_level e < env_steps sample_env" using e(3) by (simp add: sample_env_def)
  moreover have "newest_first (concat [[entry_of ''b'' ''2'' 4]] @ disk_versions tb e)"
    by (simp add: e(2) newest_first_def)
  moreover have "fits_table (block_size sample_env) (last [[entry_of ''b'' ''2'' 4]])"
    by (simp add: sample_cfg fits_table_def buildable_def sorted_entries_def small_entry_def)
  ultimately show ?thesis
    using flush_keeps_lookups [OF sample_compact_env _ st] e(1,2) by blast
qed

end
