(* ===== verification/Transaction.thy ===== *)
theory Transaction
  imports EngineProps
begin

text \<open>
  \<^verbatim>\<open>TranContext\<close> of \<^verbatim>\<open>src/lsm/transation.cpp\<close>: the operations of one transaction. A context is named by its
  transaction id and lives in the manager that the engine's record holds. \<^verbatim>\<open>temp_map_\<close> and \<^verbatim>\<open>rollback_map_\<close>
  are unordered maps; the order in which a loop visits them is the argument \<open>ord\<close>, of which the theorems
  only assume that it is a permutation. The random numbers of the skip list are arguments.
\<close>

section \<open>Contexts\<close>

definition context_at :: "u64 \<Rightarrow> engine \<Rightarrow> tran_context result" where
  "context_at t e =
     (case eng_tran_manager e of
        None \<Rightarrow> Inl Undefined_behaviour
      | Some tm \<Rightarrow> ptr (map_of (tm_activeTrans tm) t))"

definition manager_at :: "engine \<Rightarrow> tran_manager result" where
  "manager_at e = ptr (eng_tran_manager e)"

definition set_context :: "tran_context \<Rightarrow> engine \<Rightarrow> engine" where
  "set_context tc e =
     e\<lparr>eng_tran_manager := map_option (\<lambda>tm. tm\<lparr>tm_activeTrans := omap_put (tc_tranc_id tc) tc (tm_activeTrans tm)\<rparr>)
         (eng_tran_manager e)\<rparr>"

definition TranContext_get_isolation_level :: "tran_context \<Rightarrow> isolation_level" where
  "TranContext_get_isolation_level tc = tc_isolation_level tc"

section \<open>Reading and writing\<close>

text \<open>
  The two writes do the same: log the record, then either apply the write at once, after remembering
  what the key held, or keep it in \<^verbatim>\<open>temp_map_\<close>, where the empty value stands for the removal.
\<close>

definition TranContext_put :: "env \<Rightarrow> sl_random \<Rightarrow> u64 \<Rightarrow> string \<Rightarrow> string \<Rightarrow> engine \<Rightarrow> engine result" where
  "TranContext_put v r t key val e =
     bindE (context_at t e) (\<lambda>tc.
     let tc = tc\<lparr>tc_operations := tc_operations tc @ [putRecord (tc_tranc_id tc) key val]\<rparr> in
     if TranContext_get_isolation_level tc = READ_UNOP_COMMITTED then
       bindE (LSMEngine_get v key 0 e) (\<lambda>(prev_record, e).
       let tc = tc\<lparr>tc_rollback_map := amap_put key prev_record (tc_rollback_map tc)\<rparr> in
       bindE (LSMEngine_put v r key val (tc_tranc_id tc) (set_context tc e)) (\<lambda>(_, e). Inr e))
     else Inr (set_context (tc\<lparr>tc_temp_map := amap_put key val (tc_temp_map tc)\<rparr>) e))"

definition TranContext_remove :: "env \<Rightarrow> sl_random \<Rightarrow> u64 \<Rightarrow> string \<Rightarrow> engine \<Rightarrow> engine result" where
  "TranContext_remove v r t key e =
     bindE (context_at t e) (\<lambda>tc.
     let tc = tc\<lparr>tc_operations := tc_operations tc @ [deleteRecord (tc_tranc_id tc) key]\<rparr> in
     if TranContext_get_isolation_level tc = READ_UNOP_COMMITTED then
       bindE (LSMEngine_get v key 0 e) (\<lambda>(prev_record, e).
       let tc = tc\<lparr>tc_rollback_map := amap_put key prev_record (tc_rollback_map tc)\<rparr> in
       bindE (LSMEngine_remove v r key (tc_tranc_id tc) (set_context tc e)) (\<lambda>(_, e). Inr e))
     else Inr (set_context (tc\<lparr>tc_temp_map := amap_put key [] (tc_temp_map tc)\<rparr>) e))"

definition TranContext_get :: "env \<Rightarrow> u64 \<Rightarrow> string \<Rightarrow> engine \<Rightarrow> (string option \<times> engine) result" where
  "TranContext_get v t key e =
     bindE (context_at t e) (\<lambda>tc.
     case map_of (tc_temp_map tc) key of
       Some x \<Rightarrow> Inr (Some x, e)
     | None \<Rightarrow>
         bindE (if TranContext_get_isolation_level tc = READ_UNOP_COMMITTED then LSMEngine_get v key 0 e
                else if TranContext_get_isolation_level tc = READ_OP_COMMITTED then LSMEngine_get v key (tc_tranc_id tc) e
                else
                  case map_of (tc_read_map tc) key of
                    Some query \<Rightarrow> Inr (query, e)
                  | None \<Rightarrow>
                      bindE (LSMEngine_get v key (tc_tranc_id tc) e) (\<lambda>(query, e).
                        Inr (query, set_context (tc\<lparr>tc_read_map := amap_put key query (tc_read_map tc)\<rparr>) e))) (\<lambda>(query, e).
           Inr (map_option fst query, e)))"

section \<open>Commit\<close>

text \<open>The check for conflicts with later transactions, key by key; \<open>True\<close> is a conflict.\<close>

primrec conflict_loop :: "env \<Rightarrow> u64 \<Rightarrow> (string \<times> string) list \<Rightarrow> engine \<Rightarrow> (bool \<times> engine) result" where
  "conflict_loop v t [] e = Inr (False, e)"
| "conflict_loop v t (kv # kvs) e =
     bindE (MemTable_get_unlocked (eng_memtable e) (fst kv) 0) (\<lambda>res.
     bindE (mt_iter_valid res) (\<lambda>ok.
     bindE (if ok then bindE (mt_iter_value res) (\<lambda>(_, u). Inr (t < u)) else Inr False) (\<lambda>newer.
       if newer then Inr (True, e)
       else
         bindE (manager_at e) (\<lambda>tm.
         bindE (TranManager_get_max_flushed_tranc_id tm) (\<lambda>flushed.
           if flushed \<le> t then conflict_loop v t kvs e
           else
             bindE (LSMEngine_sst_get_unlocked v (fst kv) 0 e) (\<lambda>(res, e).
               case res of
                 None \<Rightarrow> conflict_loop v t kvs e
               | Some (_, u) \<Rightarrow> if t < u then Inr (True, e) else conflict_loop v t kvs e))))))"

definition ready_to_flush :: "transaction_state \<Rightarrow> u64 \<Rightarrow> engine \<Rightarrow> engine" where
  "ready_to_flush st t e =
     e\<lparr>eng_tran_manager := map_option (TranManager_add_ready_to_flush_tranc_id t st) (eng_tran_manager e)\<rparr>"

definition write_wal :: "wal_record list \<Rightarrow> engine \<Rightarrow> engine result" where
  "write_wal records e =
     bindE (manager_at e) (\<lambda>tm.
     bindE (TranManager_write_to_wal (st_fs (eng_store e)) records tm) (\<lambda>(wal_success, fs, tm).
       if \<not> wal_success then Inl (Runtime_error ''write to wal failed'')
       else Inr (e\<lparr>eng_store := (eng_store e)\<lparr>st_fs := fs\<rparr>, eng_tran_manager := Some tm\<rparr>)))"

text \<open>The writes of a commit and the entry with the empty key that marks the transaction in the table.\<close>

definition apply_writes :: "(nat \<Rightarrow> sl_random) \<Rightarrow> (string \<times> string) list \<Rightarrow> u64 \<Rightarrow> engine \<Rightarrow> engine result" where
  "apply_writes r kvs t e =
     bindE (put_all r kvs t (eng_memtable e)) (\<lambda>m.
     bindE (MemTable_put_unlocked (r (length kvs)) [] [] t m) (\<lambda>m. Inr (e\<lparr>eng_memtable := m\<rparr>)))"

definition TranContext_commit ::
  "env \<Rightarrow> ((string \<times> string) list \<Rightarrow> (string \<times> string) list) \<Rightarrow> (nat \<Rightarrow> sl_random) \<Rightarrow> bool \<Rightarrow> u64 \<Rightarrow> engine \<Rightarrow> (bool \<times> engine) result" where
  "TranContext_commit v ord r test_fail t e =
     bindE (context_at t e) (\<lambda>tc.
     let level = TranContext_get_isolation_level tc; tid = tc_tranc_id tc in
     if level = READ_UNOP_COMMITTED then
       let tc = tc\<lparr>tc_operations := tc_operations tc @ [commitRecord tid]\<rparr> in
       bindE (write_wal (tc_operations tc) e) (\<lambda>e.
       bindE (apply_writes r [] tid e) (\<lambda>e.
         Inr (True, ready_to_flush OP_COMMITTED tid (set_context (tc\<lparr>tc_isCommited := True\<rparr>) e))))
     else
       bindE (if level = REPEATABLE_READ \<or> level = SERIALIZABLE then conflict_loop v tid (ord (tc_temp_map tc)) e
              else Inr (False, e)) (\<lambda>(conflict, e).
         if conflict then Inr (False, ready_to_flush ABORTED tid (set_context (tc\<lparr>tc_isAborted := True\<rparr>) e))
         else
           let tc = tc\<lparr>tc_operations := tc_operations tc @ [commitRecord tid]\<rparr> in
           bindE (write_wal (tc_operations tc) e) (\<lambda>e.
           bindE (if test_fail then Inr e else apply_writes r (ord (tc_temp_map tc)) tid e) (\<lambda>e.
             Inr (True, ready_to_flush OP_COMMITTED tid (set_context (tc\<lparr>tc_isCommited := True\<rparr>) e))))))"

section \<open>Abort\<close>

primrec rollback_loop :: "env \<Rightarrow> (nat \<Rightarrow> sl_random) \<Rightarrow> u64 \<Rightarrow> (string \<times> query_result) list \<Rightarrow> engine \<Rightarrow> engine result" where
  "rollback_loop v r t [] e = Inr e"
| "rollback_loop v r t (kr # krs) e =
     bindE (case snd kr of
              Some (x, u) \<Rightarrow> LSMEngine_put v (r 0) (fst kr) x u e
            | None \<Rightarrow> LSMEngine_remove v (r 0) (fst kr) t e) (\<lambda>(_, e).
       rollback_loop v (\<lambda>n. r (Suc n)) t krs e)"

definition TranContext_abort ::
  "env \<Rightarrow> ((string \<times> query_result) list \<Rightarrow> (string \<times> query_result) list) \<Rightarrow> (nat \<Rightarrow> sl_random) \<Rightarrow> u64 \<Rightarrow> engine \<Rightarrow> (bool \<times> engine) result" where
  "TranContext_abort v ord r t e =
     bindE (context_at t e) (\<lambda>tc.
     let tid = tc_tranc_id tc in
     bindE (if TranContext_get_isolation_level tc = READ_UNOP_COMMITTED
            then rollback_loop v r tid (ord (tc_rollback_map tc)) e else Inr e) (\<lambda>e.
       Inr (True, ready_to_flush ABORTED tid (set_context (tc\<lparr>tc_isAborted := True\<rparr>) e))))"

end
