(* ===== verification/LevelIterator.thy ===== *)
theory LevelIterator
  imports Engine
begin

text \<open>
  \<^verbatim>\<open>Level_Iterator\<close> of \<^verbatim>\<open>src/lsm/level_iterator.cpp\<close>: the iterator over the whole database. It holds one
  iterator for the memtable, one for level 0 and one for every deeper level, and shows the smallest of
  their keys. Reading an iterator may refresh what it caches, so the vector of iterators is threaded
  through the reads. The index \<^verbatim>\<open>cur_idx_\<close> has no value before the first key was chosen. The loops take
  the number of steps they may make from the environment.
\<close>

section \<open>State\<close>

record level_iter =
  li_iter_vec :: "base_iter list"
  li_cur_idx :: "nat option"
  li_max_tranc_id :: u64
  li_cached_value :: "(string \<times> string) option"

definition Level_Iterator_default :: level_iter where
  "Level_Iterator_default = \<lparr>li_iter_vec = [], li_cur_idx = None, li_max_tranc_id = 0, li_cached_value = None\<rparr>"

definition iter_at :: "nat \<Rightarrow> base_iter list \<Rightarrow> base_iter result" where
  "iter_at i its = (if i < length its then Inr (its ! i) else Inl Undefined_behaviour)"

definition deref_at :: "nat \<Rightarrow> base_iter list \<Rightarrow> store \<Rightarrow> ((string \<times> string) \<times> base_iter list) result" where
  "deref_at i its w =
     bindE (iter_at i its) (\<lambda>b. bindE (Base_deref b w) (\<lambda>(kv, b). Inr (kv, its[i := b])))"

section \<open>The smallest key\<close>

primrec all_ended :: "base_iter list \<Rightarrow> bool result" where
  "all_ended [] = Inr True"
| "all_ended (b # bs) = bindE (Base_is_valid b) (\<lambda>ok. if ok then Inr False else all_ended bs)"

definition Level_Iterator_is_end :: "level_iter \<Rightarrow> bool result" where
  "Level_Iterator_is_end it = all_ended (li_iter_vec it)"

definition Level_Iterator_is_valid :: "level_iter \<Rightarrow> bool result" where
  "Level_Iterator_is_valid it = bindE (Level_Iterator_is_end it) (\<lambda>e. Inr (\<not> e))"

definition Level_Iterator_get_tranc_id :: "level_iter \<Rightarrow> u64" where
  "Level_Iterator_get_tranc_id it = li_max_tranc_id it"

primrec min_key_loop ::
  "u64 \<Rightarrow> nat list \<Rightarrow> base_iter list \<Rightarrow> nat \<Rightarrow> string \<Rightarrow> store \<Rightarrow> ((nat \<times> string) \<times> base_iter list) result" where
  "min_key_loop tid [] its min_idx min_key w = Inr ((min_idx, min_key), its)"
| "min_key_loop tid (i # is) its min_idx min_key w =
     bindE (iter_at i its) (\<lambda>b.
     bindE (Base_is_valid b) (\<lambda>ok.
       if \<not> ok then min_key_loop tid is its min_idx min_key w
       else
         bindE (deref_at i its w) (\<lambda>(a, its).
           if min_key = [] then min_key_loop tid is its i (fst a) w
           else
             bindE (deref_at min_idx its w) (\<lambda>(m, its).
               if fst a < fst m then min_key_loop tid is its i (fst a) w
               else if fst a = min_key \<and> tid \<noteq> 0 then
                 bindE (bindE (iter_at i its) Base_get_tranc_id) (\<lambda>t.
                 bindE (bindE (iter_at min_idx its) Base_get_tranc_id) (\<lambda>u.
                   min_key_loop tid is its (if u < t then i else min_idx) min_key w))
               else min_key_loop tid is its min_idx min_key w))))"

definition get_min_key_idx :: "level_iter \<Rightarrow> store \<Rightarrow> ((nat \<times> string) \<times> level_iter) result" where
  "get_min_key_idx it w =
     bindE (min_key_loop (li_max_tranc_id it) [0..<length (li_iter_vec it)] (li_iter_vec it) 0 [] w) (\<lambda>(m, its).
       Inr (m, it\<lparr>li_iter_vec := its\<rparr>))"

definition Level_Iterator_update_current :: "level_iter \<Rightarrow> store \<Rightarrow> level_iter result" where
  "Level_Iterator_update_current it w =
     (case li_cur_idx it of
        None \<Rightarrow> Inl Undefined_behaviour
      | Some i \<Rightarrow>
          bindE (iter_at i (li_iter_vec it)) (\<lambda>b.
          bindE (Base_is_valid b) (\<lambda>ok.
            if \<not> ok then Inl (Runtime_error ''Level_Iterator is invalid'')
            else
              bindE (deref_at i (li_iter_vec it) w) (\<lambda>(kv, its).
                Inr (it\<lparr>li_iter_vec := its, li_cached_value := Some kv\<rparr>)))))"

section \<open>Skipping a key\<close>

primrec skip_key_loop :: "(string \<Rightarrow> u64) \<Rightarrow> nat \<Rightarrow> string \<Rightarrow> base_iter \<Rightarrow> store \<Rightarrow> (base_iter \<times> store) result" where
  "skip_key_loop h 0 key b w = Inl No_return"
| "skip_key_loop h (Suc n) key b w =
     bindE (Base_is_valid b) (\<lambda>ok.
       if \<not> ok then Inr (b, w)
       else
         bindE (Base_deref b w) (\<lambda>(kv, b).
           if fst kv \<noteq> key then Inr (b, w)
           else bindE (Base_incr h b w) (\<lambda>(b, w). skip_key_loop h n key b w)))"

primrec skip_key_all :: "env \<Rightarrow> string \<Rightarrow> base_iter list \<Rightarrow> store \<Rightarrow> (base_iter list \<times> store) result" where
  "skip_key_all v key [] w = Inr ([], w)"
| "skip_key_all v key (b # bs) w =
     bindE (skip_key_loop (env_hash v) (env_steps v) key b w) (\<lambda>(b, w).
     bindE (skip_key_all v key bs w) (\<lambda>(bs, w). Inr (b # bs, w)))"

definition skip_key :: "env \<Rightarrow> string \<Rightarrow> level_iter \<Rightarrow> store \<Rightarrow> (level_iter \<times> store) result" where
  "skip_key v key it w =
     bindE (skip_key_all v key (li_iter_vec it) w) (\<lambda>(its, w). Inr (it\<lparr>li_iter_vec := its\<rparr>, w))"

text \<open>The loop that looks for the next key that is not deleted.\<close>

primrec next_live :: "env \<Rightarrow> nat \<Rightarrow> level_iter \<Rightarrow> store \<Rightarrow> (level_iter \<times> store) result" where
  "next_live v 0 it w = Inl No_return"
| "next_live v (Suc n) it w =
     bindE (Level_Iterator_is_end it) (\<lambda>en.
       if en then Inr (it, w)
       else
         bindE (get_min_key_idx it w) (\<lambda>((min_idx, _), it).
         bindE (Level_Iterator_update_current (it\<lparr>li_cur_idx := Some min_idx\<rparr>) w) (\<lambda>it.
           case li_cached_value it of
             None \<Rightarrow> Inl Undefined_behaviour
           | Some kv \<Rightarrow>
               if snd kv = [] then bindE (skip_key v (fst kv) it w) (\<lambda>(it, w). next_live v n it w)
               else Inr (it, w))))"

section \<open>Construction\<close>

text \<open>The versions of one table of level 0; \<^verbatim>\<open>end()\<close> is called again in every round.\<close>

primrec collect_l0 ::
  "env \<Rightarrow> nat \<Rightarrow> sst \<Rightarrow> u64 \<Rightarrow> u64 \<Rightarrow> sst_iter \<Rightarrow> search_item list \<Rightarrow> store \<Rightarrow> (search_item list \<times> store) result" where
  "collect_l0 v 0 s sid tid it item_vec w = Inl No_return"
| "collect_l0 v (Suc n) s sid tid it item_vec w =
     bindE (SstIterator_is_valid it) (\<lambda>ok.
       if \<not> ok then Inr (item_vec, w)
       else
         bindE (SST_end (env_hash v) s w) (\<lambda>(stop, w).
           if SstIterator_eq it stop then Inr (item_vec, w)
           else
             bindE (SstIterator_get_tranc_id it) (\<lambda>t.
             bindE (if tid \<noteq> 0 \<and> tid < t then Inr (item_vec, it)
                    else
                      bindE (SstIterator_key it) (\<lambda>(k, it).
                      bindE (SstIterator_value it w) (\<lambda>(x, it).
                        Inr (item_vec @ [\<lparr>si_key = k, si_value = x, si_tranc_id = t,
                          si_idx = as_int (- uint sid), si_level = 0\<rparr>], it)))) (\<lambda>(item_vec, it).
             bindE (SstIterator_incr (env_hash v) it w) (\<lambda>(it, w).
               collect_l0 v n s sid tid it item_vec w)))))"

primrec collect_l0_tables ::
  "env \<Rightarrow> u64 \<Rightarrow> u64 list \<Rightarrow> search_item list \<Rightarrow> engine \<Rightarrow> (search_item list \<times> engine) result" where
  "collect_l0_tables v tid [] item_vec e = Inr (item_vec, e)"
| "collect_l0_tables v tid (i # ids) item_vec e =
     bindE (sst_at i e) (\<lambda>s.
     bindE (SST_begin (env_hash v) s tid False (eng_store e)) (\<lambda>(it, w).
     bindE (collect_l0 v (env_steps v) s i tid it item_vec w) (\<lambda>(item_vec, w).
       collect_l0_tables v tid ids item_vec (e\<lparr>eng_store := w\<rparr>))))"

primrec level_iters :: "env \<Rightarrow> u64 \<Rightarrow> (nat \<times> u64 list) list \<Rightarrow> engine \<Rightarrow> (base_iter list \<times> engine) result" where
  "level_iters v tid [] e = Inr ([], e)"
| "level_iters v tid (lv # lvs) e =
     (if fst lv = 0 then level_iters v tid lvs e
      else
        bindE (mapE (\<lambda>i. sst_at i e) (snd lv)) (\<lambda>ssts.
        bindE (ConcactIterator_new (env_hash v) ssts tid False (eng_store e)) (\<lambda>(c, w).
        bindE (level_iters v tid lvs (e\<lparr>eng_store := w\<rparr>)) (\<lambda>(its, e). Inr (Concact_it c # its, e)))))"

definition Level_Iterator_new :: "env \<Rightarrow> u64 \<Rightarrow> engine \<Rightarrow> (level_iter \<times> engine) result" where
  "Level_Iterator_new v max_tranc_id e =
     bindE (MemTable_begin (eng_memtable e) max_tranc_id) (\<lambda>mem_iter.
     let e = e\<lparr>eng_level_sst_ids := omap_touch 0 [] (eng_level_sst_ids e)\<rparr> in
     bindE (collect_l0_tables v max_tranc_id (omap_at 0 [] (eng_level_sst_ids e)) [] e) (\<lambda>(item_vec, e).
     bindE (HeapIterator_new item_vec max_tranc_id True False) (\<lambda>l0_iter.
     bindE (level_iters v max_tranc_id (eng_level_sst_ids e) e) (\<lambda>(its, e).
     bindE (next_live v (env_steps v)
              \<lparr>li_iter_vec = Heap_it mem_iter # Heap_it l0_iter # its, li_cur_idx = None,
               li_max_tranc_id = max_tranc_id, li_cached_value = None\<rparr> (eng_store e)) (\<lambda>(it, w).
       Inr (it, e\<lparr>eng_store := w\<rparr>))))))"

definition LSMEngine_begin :: "env \<Rightarrow> u64 \<Rightarrow> engine \<Rightarrow> (level_iter \<times> engine) result" where
  "LSMEngine_begin v tranc_id e = Level_Iterator_new v tranc_id e"

definition LSMEngine_end :: level_iter where
  "LSMEngine_end = Level_Iterator_default"

section \<open>Iteration\<close>

definition Level_Iterator_incr :: "env \<Rightarrow> level_iter \<Rightarrow> store \<Rightarrow> (level_iter \<times> store) result" where
  "Level_Iterator_incr v it w =
     (case li_cached_value it of
        None \<Rightarrow> Inl Undefined_behaviour
      | Some kv \<Rightarrow> bindE (skip_key v (fst kv) it w) (\<lambda>(it, w). next_live v (env_steps v) it w))"

definition Level_Iterator_deref :: "level_iter \<Rightarrow> (string \<times> string) result" where
  "Level_Iterator_deref it =
     (case li_cached_value it of None \<Rightarrow> Inl (Runtime_error ''Level_Iterator is invalid'') | Some kv \<Rightarrow> Inr kv)"

definition Level_Iterator_arrow :: "level_iter \<Rightarrow> store \<Rightarrow> ((string \<times> string) \<times> level_iter) result" where
  "Level_Iterator_arrow it w =
     bindE (Level_Iterator_update_current it w) (\<lambda>it. bindE (Level_Iterator_deref it) (\<lambda>kv. Inr (kv, it)))"

text \<open>The comparison with another level iterator.\<close>

definition Level_Iterator_eq :: "level_iter \<Rightarrow> level_iter \<Rightarrow> bool result" where
  "Level_Iterator_eq it other =
     bindE (Level_Iterator_is_valid other) (\<lambda>b.
     bindE (Level_Iterator_is_valid it) (\<lambda>a.
       if b \<and> a then
         bindE (Level_Iterator_deref other) (\<lambda>kv.
           case li_cached_value it of None \<Rightarrow> Inl Undefined_behaviour | Some kv' \<Rightarrow> Inr (kv = kv'))
       else Inr (\<not> b \<and> \<not> a)))"

end
