(* ===== verification/Lsm.thy ===== *)
theory Lsm
  imports Transaction LevelIterator
begin

text \<open>
  Class \<^verbatim>\<open>LSM\<close> of \<^verbatim>\<open>src/lsm/engine.cpp\<close>, the interface of the store: it owns the engine and the transaction
  manager, so its state is the engine's record with the manager in it. Every operation outside a
  transaction draws a transaction id of its own. \<open>ls\<close> gives the paths of the regular files in the data
  directory of a file system, in the order in which a \<^verbatim>\<open>directory_iterator\<close> delivers them. The random
  numbers of the skip list are arguments: \<open>r\<close> one level, \<open>rs\<close> one for every write.
\<close>

section \<open>Transaction ids\<close>

definition next_tranc_id :: "engine \<Rightarrow> (u64 \<times> engine) result" where
  "next_tranc_id e =
     bindE (manager_at e) (\<lambda>tm.
       let (t, tm) = TranManager_getNextTransactionId tm in Inr (t, e\<lparr>eng_tran_manager := Some tm\<rparr>))"

section \<open>Opening and closing\<close>

text \<open>The records of one recovered transaction are applied again; only puts and removals change the engine.\<close>

primrec replay_records ::
  "env \<Rightarrow> (nat \<Rightarrow> sl_random) \<Rightarrow> u64 \<Rightarrow> wal_record list \<Rightarrow> engine \<Rightarrow> engine result" where
  "replay_records v rs t [] e = Inr e"
| "replay_records v rs t (rec # recs) e =
     bindE (if r_operation_type rec = OP_PUT
            then bindE (LSMEngine_put v (rs 0) (r_key rec) (r_value rec) t e) (\<lambda>(_, e). Inr e)
            else if r_operation_type rec = OP_DELETE
            then bindE (LSMEngine_remove v (rs 0) (r_key rec) t e) (\<lambda>(_, e). Inr e)
            else Inr e) (replay_records v (\<lambda>n. rs (Suc n)) t recs)"

primrec replay_all ::
  "env \<Rightarrow> (nat \<Rightarrow> nat \<Rightarrow> sl_random) \<Rightarrow> (u64 \<times> wal_record list) list \<Rightarrow> engine \<Rightarrow> engine result" where
  "replay_all v rs [] e = Inr e"
| "replay_all v rs (x # xs) e =
     bindE (manager_at e) (\<lambda>tm.
     bindE (if fst x \<in> set (TranManager_get_flushed_tranc_ids tm) then Inr e
            else replay_records v (rs 0) (fst x) (snd x) e) (replay_all v (\<lambda>n. rs (Suc n)) xs))"

definition LSM_new ::
  "env \<Rightarrow> (filesys \<Rightarrow> string list) \<Rightarrow> (nat \<Rightarrow> nat \<Rightarrow> sl_random) \<Rightarrow> filesys \<Rightarrow> string \<Rightarrow> engine result" where
  "LSM_new v ls rs fs path =
     bindE (LSMEngine_new v fs path (map filename_of (ls fs))) (\<lambda>e.
     bindE (TranManager_new (st_fs (eng_store e)) path) (\<lambda>(fs, tm).
     let e = LSMEngine_set_tran_manager tm (e\<lparr>eng_store := (eng_store e)\<lparr>st_fs := fs\<rparr>\<rparr>) in
     bindE (TranManager_check_recover fs True (ls fs) tm) (\<lambda>check_recover_res.
     bindE (replay_all v rs check_recover_res e) (\<lambda>e.
     bindE (manager_at e) (\<lambda>tm.
     bindE (TranManager_init_new_wal (st_fs (eng_store e)) (ls (st_fs (eng_store e))) tm) (\<lambda>(fs, tm).
       Inr (e\<lparr>eng_store := (eng_store e)\<lparr>st_fs := fs\<rparr>, eng_tran_manager := Some tm\<rparr>)))))))"

text \<open>\<^verbatim>\<open>flush_all\<close> flushes until the memtable is empty.\<close>

primrec flush_loop :: "env \<Rightarrow> nat \<Rightarrow> engine \<Rightarrow> engine result" where
  "flush_loop v 0 e = Inl No_return"
| "flush_loop v (Suc n) e =
     (if 0 < MemTable_get_total_size (eng_memtable e)
      then bindE (LSMEngine_flush v e) (\<lambda>(_, e). flush_loop v n e)
      else Inr e)"

definition LSM_flush_all :: "env \<Rightarrow> engine \<Rightarrow> engine result" where
  "LSM_flush_all v e = flush_loop v (env_steps v) e"

definition LSM_flush :: "env \<Rightarrow> engine \<Rightarrow> engine result" where
  "LSM_flush v e = bindE (LSMEngine_flush v e) (\<lambda>(_, e). Inr e)"

text \<open>
  The destructor writes the ids; the destructor of the manager, which follows, writes them again, and that
  of the log, a member of the manager, flushes its buffer.
\<close>

definition LSM_destroy :: "env \<Rightarrow> engine \<Rightarrow> filesys result" where
  "LSM_destroy v e =
     bindE (LSM_flush_all v e) (\<lambda>e.
     bindE (manager_at e) (\<lambda>tm.
     bindE (TranManager_write_tranc_id_file (st_fs (eng_store e)) tm) (\<lambda>fs.
     bindE (TranManager_destroy fs tm) (\<lambda>fs.
       case tm_wal tm of None \<Rightarrow> Inr fs | Some w \<Rightarrow> bindE (WAL_destroy fs w) (\<lambda>(fs, _). Inr fs)))))"

section \<open>Reading and writing\<close>

definition LSM_get :: "env \<Rightarrow> string \<Rightarrow> engine \<Rightarrow> (string option \<times> engine) result" where
  "LSM_get v key e =
     bindE (next_tranc_id e) (\<lambda>(tranc_id, e).
     bindE (LSMEngine_get v key tranc_id e) (\<lambda>(res, e). Inr (map_option fst res, e)))"

definition LSM_get_batch :: "env \<Rightarrow> string list \<Rightarrow> engine \<Rightarrow> ((string \<times> string option) list \<times> engine) result" where
  "LSM_get_batch v keys e =
     bindE (next_tranc_id e) (\<lambda>(tranc_id, e).
     bindE (LSMEngine_get_batch v keys tranc_id e) (\<lambda>(batch_results, e).
       Inr (map (\<lambda>(key, res). (key, map_option fst res)) batch_results, e)))"

definition LSM_put :: "env \<Rightarrow> sl_random \<Rightarrow> string \<Rightarrow> string \<Rightarrow> engine \<Rightarrow> engine result" where
  "LSM_put v r key val e =
     bindE (next_tranc_id e) (\<lambda>(tranc_id, e). bindE (LSMEngine_put v r key val tranc_id e) (\<lambda>(_, e). Inr e))"

definition LSM_put_batch :: "env \<Rightarrow> (nat \<Rightarrow> sl_random) \<Rightarrow> (string \<times> string) list \<Rightarrow> engine \<Rightarrow> engine result" where
  "LSM_put_batch v rs kvs e =
     bindE (next_tranc_id e) (\<lambda>(tranc_id, e). bindE (LSMEngine_put_batch v rs kvs tranc_id e) (\<lambda>(_, e). Inr e))"

definition LSM_remove :: "env \<Rightarrow> sl_random \<Rightarrow> string \<Rightarrow> engine \<Rightarrow> engine result" where
  "LSM_remove v r key e =
     bindE (next_tranc_id e) (\<lambda>(tranc_id, e). bindE (LSMEngine_remove v r key tranc_id e) (\<lambda>(_, e). Inr e))"

definition LSM_remove_batch :: "env \<Rightarrow> (nat \<Rightarrow> sl_random) \<Rightarrow> string list \<Rightarrow> engine \<Rightarrow> engine result" where
  "LSM_remove_batch v rs keys e =
     bindE (next_tranc_id e) (\<lambda>(tranc_id, e). bindE (LSMEngine_remove_batch v rs keys tranc_id e) (\<lambda>(_, e). Inr e))"

definition LSM_clear :: "(filesys \<Rightarrow> string list) \<Rightarrow> engine \<Rightarrow> engine result" where
  "LSM_clear ls e = LSMEngine_clear (ls (st_fs (eng_store e))) e"

section \<open>Iterators and transactions\<close>

definition LSM_begin :: "env \<Rightarrow> u64 \<Rightarrow> engine \<Rightarrow> (level_iter \<times> engine) result" where
  "LSM_begin v tranc_id e = LSMEngine_begin v tranc_id e"

definition LSM_end :: level_iter where
  "LSM_end = LSMEngine_end"

definition LSM_lsm_iters_monotony_predicate ::
  "env \<Rightarrow> u64 \<Rightarrow> (string \<Rightarrow> int) \<Rightarrow> engine \<Rightarrow> ((two_merge \<times> two_merge) option \<times> engine) result" where
  "LSM_lsm_iters_monotony_predicate v tranc_id predicate e = LSMEngine_lsm_iters_monotony_predicate v tranc_id predicate e"

definition LSM_begin_tran :: "isolation_level \<Rightarrow> engine \<Rightarrow> (u64 \<times> engine) result" where
  "LSM_begin_tran level e =
     bindE (manager_at e) (\<lambda>tm.
       let (t, tm) = TranManager_new_tranc level tm in Inr (t, e\<lparr>eng_tran_manager := Some tm\<rparr>))"

end
