(* ===== verification/RedisText.thy ===== *)
theory RedisText
  imports Config TextUtil
begin

text \<open>
  The text the Redis layer (\<^verbatim>\<open>src/redis_wrapper/redis_wrapper.cpp\<close>) keeps in the store: lists and the field
  names of hashes as one string with separators, the keys under which fields, members and scores are
  kept, expiry times, and the replies of the RESP protocol. Every function of the configuration takes
  the configuration as an argument.
\<close>

section \<open>Numbers\<close>

definition int_to_string :: "int \<Rightarrow> string" where
  "int_to_string i = (if i < 0 then CHR ''-'' # to_string (nat (- i)) else to_string (nat i))"

definition stoll :: "string \<Rightarrow> int result" where
  "stoll s = (case parse_int s of
     None \<Rightarrow> Inl (Invalid_argument ''stoll'')
   | Some v \<Rightarrow> if v < - (2 ^ 63) \<or> 2 ^ 63 \<le> v then Inl (Out_of_range ''stoll'') else Inr v)"

definition stol :: "string \<Rightarrow> int result" where
  "stol s = (case parse_int s of
     None \<Rightarrow> Inl (Invalid_argument ''stol'')
   | Some v \<Rightarrow> if v < - (2 ^ 63) \<or> 2 ^ 63 \<le> v then Inl (Out_of_range ''stol'') else Inr v)"

text \<open>Signed arithmetic outside of the type is undefined.\<close>

definition checked_ll :: "int \<Rightarrow> int result" where
  "checked_ll i = (if i < - (2 ^ 63) \<or> 2 ^ 63 \<le> i then Inl Undefined_behaviour else Inr i)"

definition checked_int :: "int \<Rightarrow> int result" where
  "checked_int i = (if i < - (2 ^ 31) \<or> 2 ^ 31 \<le> i then Inl Undefined_behaviour else Inr i)"

section \<open>Separated lists\<close>

text \<open>The loop over \<^verbatim>\<open>std::getline\<close> with a separator: nothing follows a separator at the end of the text.\<close>

function split_str :: "char \<Rightarrow> string \<Rightarrow> string list" where
  "split_str d s = (if s = [] then [] else takeWhile (\<lambda>c. c \<noteq> d) s # split_str d (tl (dropWhile (\<lambda>c. c \<noteq> d) s)))"
  by auto
termination
proof (relation "measure (\<lambda>(d, s). length s)", simp)
  fix d :: char and s :: string
  assume "s \<noteq> []"
  then have "0 < length s" by simp
  moreover have "length (dropWhile (\<lambda>c. c \<noteq> d) s) \<le> length s" by (rule length_dropWhile_le)
  ultimately have "length (tl (dropWhile (\<lambda>c. c \<noteq> d) s)) < length s" unfolding length_tl by linarith
  then show "((d, tl (dropWhile (\<lambda>c. c \<noteq> d) s)), d, s) \<in> measure (\<lambda>(d, s). length s)" by simp
qed

declare split_str.simps [simp del]

fun join_str :: "char \<Rightarrow> string list \<Rightarrow> string" where
  "join_str d [] = []"
| "join_str d [x] = x"
| "join_str d (x # y # xs) = x @ d # join_str d (y # xs)"

definition get_fileds_from_hash_value :: "toml_config \<Rightarrow> string option \<Rightarrow> string list result" where
  "get_fileds_from_hash_value c field_list_opt =
     (let field_list = (case field_list_opt of None \<Rightarrow> [] | Some s \<Rightarrow> s);
          n = length (redis_hash_value_preffix c) in
      if field_list = [] then Inr []
      else if length field_list < n then Inl (Out_of_range ''basic_string::substr'')
      else Inr (split_str (redis_field_separator c) (drop n field_list)))"

definition get_hash_value_from_fields :: "toml_config \<Rightarrow> string list \<Rightarrow> string" where
  "get_hash_value_from_fields c fs = redis_hash_value_preffix c @ join_str (redis_field_separator c) fs"

section \<open>Keys\<close>

definition get_hash_filed_key :: "toml_config \<Rightarrow> string \<Rightarrow> string \<Rightarrow> string" where
  "get_hash_filed_key c key field = redis_field_prefix c @ key @ ''_'' @ field"

definition is_value_hash :: "toml_config \<Rightarrow> string \<Rightarrow> bool" where
  "is_value_hash c key \<longleftrightarrow> take (length (redis_hash_value_preffix c)) key = redis_hash_value_preffix c"

definition get_explire_key :: "toml_config \<Rightarrow> string \<Rightarrow> string" where
  "get_explire_key c key = redis_expire_header c @ key"

definition get_zset_key_socre :: "toml_config \<Rightarrow> string \<Rightarrow> string \<Rightarrow> string" where
  "get_zset_key_socre c key score =
     redis_sorted_set_prefix c @ key @ ''_SCORE_'' @
     replicate (nat (redis_sorted_set_score_len c) - length score) CHR ''0'' @ score"

definition get_zset_key_elem :: "toml_config \<Rightarrow> string \<Rightarrow> string \<Rightarrow> string" where
  "get_zset_key_elem c key elem = redis_sorted_set_prefix c @ key @ ''_ELEM_'' @ elem"

definition get_zset_key_preffix :: "toml_config \<Rightarrow> string \<Rightarrow> string" where
  "get_zset_key_preffix c key = redis_sorted_set_prefix c @ key @ ''_''"

definition get_zset_score_preffix :: "toml_config \<Rightarrow> string \<Rightarrow> string" where
  "get_zset_score_preffix c key = redis_sorted_set_prefix c @ key @ ''_SCORE_''"

definition get_zset_elem_preffix :: "toml_config \<Rightarrow> string \<Rightarrow> string" where
  "get_zset_elem_preffix c key = redis_sorted_set_prefix c @ key @ ''_ELEM_''"

text \<open>What follows the first occurrence of a text in another.\<close>

fun after_first :: "string \<Rightarrow> string \<Rightarrow> string option" where
  "after_first p s =
     (if take (length p) s = p then Some (drop (length p) s)
      else case s of [] \<Rightarrow> None | _ # cs \<Rightarrow> after_first p cs)"

definition get_zset_score_item :: "string \<Rightarrow> string" where
  "get_zset_score_item key = (case after_first ''_SCORE_'' key of None \<Rightarrow> [] | Some s \<Rightarrow> s)"

definition get_set_key_preffix :: "toml_config \<Rightarrow> string \<Rightarrow> string" where
  "get_set_key_preffix c key = redis_set_prefix c @ key @ ''_''"

definition get_set_member_key :: "toml_config \<Rightarrow> string \<Rightarrow> string \<Rightarrow> string" where
  "get_set_member_key c key elem = redis_set_prefix c @ key @ ''_'' @ elem"

definition get_set_member_value :: string where
  "get_set_member_value = ''1''"

definition get_set_member_prefix :: "toml_config \<Rightarrow> string \<Rightarrow> string" where
  "get_set_member_prefix c key = redis_set_prefix c @ key @ ''_''"

text \<open>The predicate of a range query, \<^verbatim>\<open>-elem.compare(0, preffix.size(), preffix)\<close>; only its sign matters.\<close>

definition prefix_pred :: "string \<Rightarrow> string \<Rightarrow> int" where
  "prefix_pred preffix elem =
     (let s = take (length preffix) elem in if s < preffix then 1 else if s = preffix then 0 else - 1)"

section \<open>Expiry\<close>

text \<open>\<open>now\<close> is the time of the system clock in seconds. Every command reads the clock at most once.\<close>

definition is_expired :: "int \<Rightarrow> string option \<Rightarrow> bool result" where
  "is_expired now expire_str =
     (case expire_str of None \<Rightarrow> Inr False | Some s \<Rightarrow> bindE (stoll s) (\<lambda>t. Inr (t < now)))"

definition get_expire_time :: "int \<Rightarrow> string \<Rightarrow> string result" where
  "get_expire_time now seconds_count =
     bindE (stoll seconds_count) (\<lambda>time_add.
     bindE (checked_ll (now + time_add)) (\<lambda>t. Inr (int_to_string t)))"

section \<open>Replies\<close>

definition crlf :: string where
  "crlf = [CHR 0x0D, CHR 0x0A]"

definition bulk :: "string \<Rightarrow> string" where
  "bulk s = ''$'' @ to_string (length s) @ crlf @ s @ crlf"

definition nil_reply :: string where
  "nil_reply = ''$-1'' @ crlf"

definition int_reply :: "int \<Rightarrow> string" where
  "int_reply i = '':'' @ int_to_string i @ crlf"

definition array_reply :: "string list \<Rightarrow> string" where
  "array_reply xs = ''*'' @ to_string (length xs) @ crlf @ concat (map bulk xs)"

definition ok_reply :: string where
  "ok_reply = ''+OK'' @ crlf"

definition arity_error :: "string \<Rightarrow> string" where
  "arity_error name = ''-ERR wrong number of arguments for '' @ [CHR 0x27] @ name @ [CHR 0x27] @ '' command'' @ crlf"

section \<open>Lemmas\<close>

lemma split_str_Nil [simp]: "split_str d [] = []"
  by (subst split_str.simps) simp

lemma split_str_last: "d \<notin> set x \<Longrightarrow> x \<noteq> [] \<Longrightarrow> split_str d x = [x]"
proof -
  assume "d \<notin> set x" "x \<noteq> []"
  have t: "takeWhile (\<lambda>c. c \<noteq> d) x = x" "dropWhile (\<lambda>c. c \<noteq> d) x = []"
    using \<open>d \<notin> set x\<close> by (auto simp: takeWhile_eq_all_conv)
  show ?thesis unfolding split_str.simps [of d x] t using \<open>x \<noteq> []\<close> by simp
qed

lemma split_str_Cons:
  assumes "d \<notin> set x"
  shows "split_str d (x @ d # s) = x # split_str d s"
proof -
  have "takeWhile (\<lambda>c. c \<noteq> d) (x @ d # s) = x" "dropWhile (\<lambda>c. c \<noteq> d) (x @ d # s) = d # s"
    using assms by (auto simp: takeWhile_append dropWhile_append)
  then show ?thesis by (subst split_str.simps) simp
qed

text \<open>Texts that can be kept in a separated list: not empty and without the separator.\<close>

definition separable :: "char \<Rightarrow> string \<Rightarrow> bool" where
  "separable d x \<longleftrightarrow> x \<noteq> [] \<and> d \<notin> set x"

lemma split_join: "\<forall>x \<in> set xs. separable d x \<Longrightarrow> split_str d (join_str d xs) = xs"
  by (induction d xs rule: join_str.induct) (simp_all add: separable_def split_str_last split_str_Cons)

lemma join_Cons: "xs \<noteq> [] \<Longrightarrow> join_str d (x # xs) = x @ d # join_str d xs"
  by (cases xs) simp_all

lemma join_snoc: "xs \<noteq> [] \<Longrightarrow> join_str d (xs @ [x]) = join_str d xs @ d # x"
  by (induction d xs rule: join_str.induct) simp_all

lemma join_Nil_iff: "\<forall>x \<in> set xs. separable d x \<Longrightarrow> join_str d xs = [] \<longleftrightarrow> xs = []"
  by (cases "(d, xs)" rule: join_str.cases) (auto simp: separable_def)

lemma parse_int_int_to_string [simp]: "parse_int (int_to_string i) = Some i"
proof (cases "i < 0")
  case True
  obtain c cs where s: "to_string (nat (- i)) = c # cs"
    using to_string_not_Nil [of "nat (- i)"] by (cases "to_string (nat (- i))") auto
  then have "is_digit c" using to_string_digits [of c "nat (- i)"] by simp
  then show ?thesis
    using s parse_digits_to_string [of "nat (- i)"] True
    by (simp add: int_to_string_def parse_int_def Let_def is_space_def)
qed (simp add: int_to_string_def)

lemma int_to_string_not_Nil [simp]: "int_to_string i \<noteq> []"
  by (simp add: int_to_string_def)

lemma stoll_int_to_string [simp]: "- (2 ^ 63) \<le> i \<Longrightarrow> i < 2 ^ 63 \<Longrightarrow> stoll (int_to_string i) = Inr i"
  by (simp add: stoll_def)

lemma as_int_id_small: "- (2 ^ 31) \<le> i \<Longrightarrow> i < 2 ^ 31 \<Longrightarrow> as_int i = i"
  by (simp add: as_int_def signed_of_int signed_take_bit_int_eq_self)

end
