(* ===== verification/Redis.thy ===== *)
theory Redis
  imports RedisText
begin

text \<open>
  \<^verbatim>\<open>RedisWrapper\<close> of \<^verbatim>\<open>src/redis_wrapper/redis_wrapper.cpp\<close>: the Redis data types over the store. The
  commands use the store only through the public operations of class \<^verbatim>\<open>LSM\<close>; the record \<open>kv_ops\<close> names
  them, so the commands are functions of it and can be run on the store itself or on its specification.
  A command runs under the lock \<^verbatim>\<open>redis_mtx\<close>. Where it gives up the shared lock to take the exclusive
  one, nothing is modelled in between: every command is one step. \<open>now\<close> is the time the command reads
  from the system clock. Floating point numbers, which only \<^verbatim>\<open>ZINCRBY\<close> uses, are reals with the parser and the
  rounding as arguments; \<open>None\<close> stands for infinities and NaN.
\<close>

section \<open>Programs over a store\<close>

type_synonym ('s, 'a) prog = "'s \<Rightarrow> ('a \<times> 's) result"

definition ret :: "'a \<Rightarrow> ('s, 'a) prog" where
  "ret x s = Inr (x, s)"

definition runE :: "'a result \<Rightarrow> ('s, 'a) prog" where
  "runE r s = bindE r (\<lambda>x. Inr (x, s))"

definition andThen :: "('s, 'a) prog \<Rightarrow> ('a \<Rightarrow> ('s, 'b) prog) \<Rightarrow> ('s, 'b) prog" where
  "andThen p f s = bindE (p s) (\<lambda>(x, s). f x s)"

text \<open>The operations of \<^verbatim>\<open>LSM\<close> that the commands call, and those of the iterators of a range query.\<close>

record ('s, 'i) kv_ops =
  kv_get :: "string \<Rightarrow> ('s, string option) prog"
  kv_put :: "string \<Rightarrow> string \<Rightarrow> ('s, unit) prog"
  kv_remove :: "string \<Rightarrow> ('s, unit) prog"
  kv_put_batch :: "(string \<times> string) list \<Rightarrow> ('s, unit) prog"
  kv_remove_batch :: "string list \<Rightarrow> ('s, unit) prog"
  kv_range :: "(string \<Rightarrow> int) \<Rightarrow> ('s, ('i \<times> 'i) option) prog"
  kv_it_eq :: "'i \<Rightarrow> 'i \<Rightarrow> bool result"
  kv_it_arrow :: "'i \<Rightarrow> ('s, (string \<times> string) \<times> 'i) prog"
  kv_it_incr :: "'i \<Rightarrow> ('s, 'i) prog"
  kv_clear :: "('s, unit) prog"
  kv_flush :: "('s, unit) prog"

record redis_env =
  rd_cfg :: toml_config
  rd_steps :: nat
  rd_stod :: "string \<Rightarrow> real option result"
  rd_round :: "real \<Rightarrow> real"

definition arg :: "string list \<Rightarrow> nat \<Rightarrow> string result" where
  "arg args i = (if i < length args then Inr (args ! i) else Inl Undefined_behaviour)"

primrec remove_each :: "('s, 'i) kv_ops \<Rightarrow> string list \<Rightarrow> ('s, unit) prog" where
  "remove_each ops [] = ret ()"
| "remove_each ops (k # ks) = andThen (kv_remove ops k) (\<lambda>_. remove_each ops ks)"

text \<open>The keys among \<open>ks\<close> that the store has, or has not.\<close>

primrec present_keys :: "('s, 'i) kv_ops \<Rightarrow> bool \<Rightarrow> string list \<Rightarrow> ('s, string list) prog" where
  "present_keys ops b [] = ret []"
| "present_keys ops b (k # ks) =
     andThen (kv_get ops k) (\<lambda>q.
     andThen (present_keys ops b ks) (\<lambda>rest. ret (if (q \<noteq> None) = b then k # rest else rest)))"

section \<open>Range queries\<close>

text \<open>The loop \<^verbatim>\<open>for (; elem_begin != elem_end; ++elem_begin)\<close> over the pairs.\<close>

primrec range_pairs :: "('s, 'i) kv_ops \<Rightarrow> nat \<Rightarrow> 'i \<Rightarrow> 'i \<Rightarrow> ('s, (string \<times> string) list) prog" where
  "range_pairs ops 0 it stop = runE (Inl No_return)"
| "range_pairs ops (Suc n) it stop =
     andThen (runE (kv_it_eq ops it stop)) (\<lambda>same.
       if same then ret []
       else
         andThen (kv_it_arrow ops it) (\<lambda>(kv, it).
         andThen (kv_it_incr ops it) (\<lambda>it.
         andThen (range_pairs ops n it stop) (\<lambda>rest. ret (kv # rest)))))"

primrec range_count :: "('s, 'i) kv_ops \<Rightarrow> nat \<Rightarrow> 'i \<Rightarrow> 'i \<Rightarrow> ('s, int) prog" where
  "range_count ops 0 it stop = runE (Inl No_return)"
| "range_count ops (Suc n) it stop =
     andThen (runE (kv_it_eq ops it stop)) (\<lambda>same.
       if same then ret 0
       else
         andThen (kv_it_incr ops it) (\<lambda>it.
         andThen (range_count ops n it stop) (\<lambda>rest. runE (checked_int (rest + 1)))))"

primrec range_rank :: "('s, 'i) kv_ops \<Rightarrow> nat \<Rightarrow> 'i \<Rightarrow> 'i \<Rightarrow> string \<Rightarrow> int \<Rightarrow> ('s, int option) prog" where
  "range_rank ops 0 it stop key rank = runE (Inl No_return)"
| "range_rank ops (Suc n) it stop key rank =
     andThen (runE (kv_it_eq ops it stop)) (\<lambda>same.
       if same then ret None
       else
         andThen (kv_it_arrow ops it) (\<lambda>(kv, it).
           if fst kv = key then ret (Some rank)
           else
             andThen (runE (checked_int (rank + 1))) (\<lambda>rank.
             andThen (kv_it_incr ops it) (\<lambda>it. range_rank ops n it stop key rank))))"

text \<open>
  The two bounds of \<^verbatim>\<open>LRANGE\<close> and \<^verbatim>\<open>ZRANGE\<close> in a list of length \<open>n\<close>. The length is a \<^verbatim>\<open>size_t\<close>: the sums are
  computed modulo \<open>2 ^ 64\<close>, and the comparison of \<^verbatim>\<open>stop\<close> with the length is one of unsigned numbers.
\<close>

definition range_bounds :: "nat \<Rightarrow> int \<Rightarrow> int \<Rightarrow> (int \<times> int) option" where
  "range_bounds n start stop =
     (let start = (if start < 0 then as_int (start + int n) else start);
          stop = (if stop < 0 then as_int (stop + int n) else stop);
          start = (if start < 0 then 0 else start);
          stop = (if int n \<le> stop mod 2 ^ 64 then as_int (int n - 1) else stop) in
      if stop < start then None else Some (start, stop))"

definition slice_reply :: "string list \<Rightarrow> int \<Rightarrow> int \<Rightarrow> string" where
  "slice_reply xs start stop =
     (case range_bounds (length xs) start stop of
        None \<Rightarrow> array_reply []
      | Some (a, b) \<Rightarrow> array_reply (map (\<lambda>i. xs ! nat i) [a..b]))"

section \<open>Expiry\<close>

definition expire_hash_clean :: "redis_env \<Rightarrow> ('s, 'i) kv_ops \<Rightarrow> int \<Rightarrow> string \<Rightarrow> ('s, bool) prog" where
  "expire_hash_clean c ops now key =
     (let expire_key = get_explire_key (rd_cfg c) key in
      andThen (kv_get ops expire_key) (\<lambda>expire_query.
      andThen (runE (is_expired now expire_query)) (\<lambda>ex.
        if \<not> ex then ret False
        else
          andThen (kv_get ops key) (\<lambda>q.
          andThen (runE (get_fileds_from_hash_value (rd_cfg c) q)) (\<lambda>fileds.
          andThen (remove_each ops (map (get_hash_filed_key (rd_cfg c) key) fileds)) (\<lambda>_.
          andThen (kv_remove ops key) (\<lambda>_.
          andThen (kv_remove ops expire_key) (\<lambda>_. ret True))))))))"

definition expire_list_clean :: "redis_env \<Rightarrow> ('s, 'i) kv_ops \<Rightarrow> int \<Rightarrow> string \<Rightarrow> ('s, bool) prog" where
  "expire_list_clean c ops now key =
     (let expire_key = get_explire_key (rd_cfg c) key in
      andThen (kv_get ops expire_key) (\<lambda>expire_query.
      andThen (runE (is_expired now expire_query)) (\<lambda>ex.
        if \<not> ex then ret False
        else andThen (kv_remove ops key) (\<lambda>_. andThen (kv_remove ops expire_key) (\<lambda>_. ret True)))))"

text \<open>All keys with a prefix are removed.\<close>

definition remove_range :: "redis_env \<Rightarrow> ('s, 'i) kv_ops \<Rightarrow> string \<Rightarrow> ('s, unit) prog" where
  "remove_range c ops preffix =
     andThen (kv_range ops (prefix_pred preffix)) (\<lambda>result_elem.
       case result_elem of
         None \<Rightarrow> ret ()
       | Some (it, stop) \<Rightarrow>
           andThen (range_pairs ops (rd_steps c) it stop) (\<lambda>kvs. kv_remove_batch ops (map fst kvs)))"

definition expire_zset_clean :: "redis_env \<Rightarrow> ('s, 'i) kv_ops \<Rightarrow> int \<Rightarrow> string \<Rightarrow> ('s, bool) prog" where
  "expire_zset_clean c ops now key =
     (let expire_key = get_explire_key (rd_cfg c) key in
      andThen (kv_get ops expire_key) (\<lambda>expire_query.
      andThen (runE (is_expired now expire_query)) (\<lambda>ex.
        if \<not> ex then ret False
        else
          andThen (kv_remove ops key) (\<lambda>_.
          andThen (kv_remove ops expire_key) (\<lambda>_.
          andThen (remove_range c ops (get_zset_key_preffix (rd_cfg c) key)) (\<lambda>_. ret True))))))"

definition expire_set_clean :: "redis_env \<Rightarrow> ('s, 'i) kv_ops \<Rightarrow> int \<Rightarrow> string \<Rightarrow> ('s, bool) prog" where
  "expire_set_clean c ops now key =
     (let expire_key = get_explire_key (rd_cfg c) key in
      andThen (kv_get ops expire_key) (\<lambda>expire_query.
      andThen (runE (is_expired now expire_query)) (\<lambda>ex.
        if \<not> ex then ret False
        else
          andThen (kv_remove ops key) (\<lambda>_.
          andThen (kv_remove ops expire_key) (\<lambda>_.
          andThen (remove_range c ops (get_set_key_preffix (rd_cfg c) key)) (\<lambda>_. ret True))))))"

section \<open>Strings\<close>

definition redis_incr :: "('s, 'i) kv_ops \<Rightarrow> string \<Rightarrow> ('s, string) prog" where
  "redis_incr ops key =
     andThen (kv_get ops key) (\<lambda>original_value.
       case original_value of
         None \<Rightarrow> andThen (kv_put ops key ''1'') (\<lambda>_. ret ''1'')
       | Some s \<Rightarrow>
           andThen (runE (bindE (stoll s) (\<lambda>i. checked_ll (i + 1)))) (\<lambda>i.
           andThen (kv_put ops key (int_to_string i)) (\<lambda>_. ret (int_to_string i))))"

definition redis_decr :: "('s, 'i) kv_ops \<Rightarrow> string \<Rightarrow> ('s, string) prog" where
  "redis_decr ops key =
     andThen (kv_get ops key) (\<lambda>original_value.
       case original_value of
         None \<Rightarrow> andThen (kv_put ops key ''-1'') (\<lambda>_. ret ''-1'')
       | Some s \<Rightarrow>
           andThen (runE (bindE (stoll s) (\<lambda>i. checked_ll (i - 1)))) (\<lambda>i.
           andThen (kv_put ops key (int_to_string i)) (\<lambda>_. ret (int_to_string i))))"

definition redis_expire :: "redis_env \<Rightarrow> ('s, 'i) kv_ops \<Rightarrow> int \<Rightarrow> string \<Rightarrow> string \<Rightarrow> ('s, string) prog" where
  "redis_expire c ops now key seconds_count =
     andThen (runE (get_expire_time now seconds_count)) (\<lambda>expire_time_str.
     andThen (kv_put ops (get_explire_key (rd_cfg c) key) expire_time_str) (\<lambda>_. ret (int_reply 1)))"

definition drop_expiry :: "redis_env \<Rightarrow> ('s, 'i) kv_ops \<Rightarrow> string \<Rightarrow> ('s, unit) prog" where
  "drop_expiry c ops key =
     andThen (kv_get ops (get_explire_key (rd_cfg c) key)) (\<lambda>q.
       if q \<noteq> None then kv_remove ops (get_explire_key (rd_cfg c) key) else ret ())"

definition redis_set :: "redis_env \<Rightarrow> ('s, 'i) kv_ops \<Rightarrow> string \<Rightarrow> string \<Rightarrow> ('s, string) prog" where
  "redis_set c ops key val =
     andThen (kv_put ops key val) (\<lambda>_. andThen (drop_expiry c ops key) (\<lambda>_. ret ok_reply))"

definition redis_get :: "redis_env \<Rightarrow> ('s, 'i) kv_ops \<Rightarrow> int \<Rightarrow> string \<Rightarrow> ('s, string) prog" where
  "redis_get c ops now key =
     (let expire_key = get_explire_key (rd_cfg c) key in
      andThen (kv_get ops key) (\<lambda>key_query.
      andThen (kv_get ops expire_key) (\<lambda>expire_query.
        case key_query of
          Some x \<Rightarrow>
            andThen (runE (is_expired now expire_query)) (\<lambda>ex.
              if ex then andThen (kv_remove ops key) (\<lambda>_. andThen (kv_remove ops expire_key) (\<lambda>_. ret nil_reply))
              else ret (bulk x))
        | None \<Rightarrow>
            andThen (if expire_query \<noteq> None then kv_remove ops expire_key else ret ()) (\<lambda>_. ret nil_reply))))"

definition redis_ttl :: "redis_env \<Rightarrow> ('s, 'i) kv_ops \<Rightarrow> int \<Rightarrow> string \<Rightarrow> ('s, string) prog" where
  "redis_ttl c ops now key =
     andThen (kv_get ops key) (\<lambda>key_query.
     andThen (kv_get ops (get_explire_key (rd_cfg c) key)) (\<lambda>expire_query.
       if key_query = None then ret (int_reply (- 1))
       else
         case expire_query of
           None \<Rightarrow> ret (int_reply (- 1))
         | Some s \<Rightarrow>
             andThen (runE (stoll s)) (\<lambda>t.
               if t < now then ret (int_reply (- 2))
               else andThen (runE (checked_ll (t - now))) (\<lambda>d. ret (int_reply d)))))"

primrec del_loop :: "redis_env \<Rightarrow> ('s, 'i) kv_ops \<Rightarrow> string list \<Rightarrow> int \<Rightarrow> ('s, int) prog" where
  "del_loop c ops [] del_count = ret del_count"
| "del_loop c ops (cur_key # ks) del_count =
     andThen (kv_get ops cur_key) (\<lambda>cur_value.
     andThen (case cur_value of
                None \<Rightarrow> ret del_count
              | Some x \<Rightarrow>
                  andThen (if is_value_hash (rd_cfg c) x
                           then andThen (runE (get_fileds_from_hash_value (rd_cfg c) cur_value)) (\<lambda>field_list.
                                  remove_each ops (map (get_hash_filed_key (rd_cfg c) cur_key) field_list))
                           else ret ()) (\<lambda>_.
                  andThen (kv_remove ops cur_key) (\<lambda>_. ret (del_count + 1)))) (\<lambda>del_count.
     andThen (drop_expiry c ops cur_key) (\<lambda>_. del_loop c ops ks del_count)))"

definition redis_del :: "redis_env \<Rightarrow> ('s, 'i) kv_ops \<Rightarrow> string list \<Rightarrow> ('s, string) prog" where
  "redis_del c ops args = andThen (del_loop c ops (drop 1 args) 0) (\<lambda>del_count. ret (int_reply del_count))"

section \<open>Hashes\<close>

text \<open>The loop of \<^verbatim>\<open>HSET\<close> over the pairs; the set of the existing fields is kept beside their list.\<close>

primrec hset_loop ::
  "redis_env \<Rightarrow> ('s, 'i) kv_ops \<Rightarrow> string \<Rightarrow> (string \<times> string) list \<Rightarrow> string list \<Rightarrow> string set \<Rightarrow> int \<Rightarrow> ('s, string list \<times> int) prog" where
  "hset_loop c ops key [] field_list existing added = ret (field_list, added)"
| "hset_loop c ops key (fv # fvs) field_list existing added =
     andThen (kv_put ops (get_hash_filed_key (rd_cfg c) key (fst fv)) (snd fv)) (\<lambda>_.
       if fst fv \<in> existing then hset_loop c ops key fvs field_list existing added
       else hset_loop c ops key fvs (field_list @ [fst fv]) (insert (fst fv) existing) (added + 1))"

definition redis_hset_batch ::
  "redis_env \<Rightarrow> ('s, 'i) kv_ops \<Rightarrow> int \<Rightarrow> string \<Rightarrow> (string \<times> string) list \<Rightarrow> ('s, string) prog" where
  "redis_hset_batch c ops now key field_value_pairs =
     andThen (expire_hash_clean c ops now key) (\<lambda>_.
     andThen (kv_get ops key) (\<lambda>field_list_opt.
     andThen (runE (get_fileds_from_hash_value (rd_cfg c) field_list_opt)) (\<lambda>field_list.
     andThen (hset_loop c ops key field_value_pairs field_list (set field_list) 0) (\<lambda>(field_list, added_count).
     andThen (kv_put ops key (get_hash_value_from_fields (rd_cfg c) field_list)) (\<lambda>_. ret (int_reply added_count))))))"

definition redis_hset :: "redis_env \<Rightarrow> ('s, 'i) kv_ops \<Rightarrow> int \<Rightarrow> string \<Rightarrow> string \<Rightarrow> string \<Rightarrow> ('s, string) prog" where
  "redis_hset c ops now key field val =
     andThen (expire_hash_clean c ops now key) (\<lambda>_.
     andThen (kv_put ops (get_hash_filed_key (rd_cfg c) key field) val) (\<lambda>_.
     andThen (kv_get ops key) (\<lambda>field_list_opt.
     andThen (runE (get_fileds_from_hash_value (rd_cfg c) field_list_opt)) (\<lambda>field_list.
     andThen (if field \<in> set field_list then ret ()
              else kv_put ops key (get_hash_value_from_fields (rd_cfg c) (field_list @ [field]))) (\<lambda>_. ret ok_reply)))))"

definition redis_hget :: "redis_env \<Rightarrow> ('s, 'i) kv_ops \<Rightarrow> int \<Rightarrow> string \<Rightarrow> string \<Rightarrow> ('s, string) prog" where
  "redis_hget c ops now key field =
     andThen (expire_hash_clean c ops now key) (\<lambda>ex.
       if ex then ret nil_reply
       else
         andThen (kv_get ops (get_hash_filed_key (rd_cfg c) key field)) (\<lambda>value_opt.
           case value_opt of Some x \<Rightarrow> ret (bulk x) | None \<Rightarrow> ret nil_reply))"

definition redis_hdel :: "redis_env \<Rightarrow> ('s, 'i) kv_ops \<Rightarrow> int \<Rightarrow> string \<Rightarrow> string \<Rightarrow> ('s, string) prog" where
  "redis_hdel c ops now key field =
     andThen (expire_hash_clean c ops now key) (\<lambda>ex.
       if ex then ret (int_reply 0)
       else
         (let field_key = get_hash_filed_key (rd_cfg c) key field in
          andThen (kv_get ops field_key) (\<lambda>q.
          andThen (if q \<noteq> None then andThen (kv_remove ops field_key) (\<lambda>_. ret 1) else ret 0) (\<lambda>del_count.
          andThen (kv_get ops key) (\<lambda>field_list_opt.
          andThen (runE (get_fileds_from_hash_value (rd_cfg c) field_list_opt)) (\<lambda>field_list.
          andThen (if field \<in> set field_list then
                     let field_list = remove1 field field_list in
                     if field_list = [] then kv_remove ops key
                     else kv_put ops key (get_hash_value_from_fields (rd_cfg c) field_list)
                   else ret ()) (\<lambda>_. ret (int_reply del_count))))))))"

definition redis_hkeys :: "redis_env \<Rightarrow> ('s, 'i) kv_ops \<Rightarrow> int \<Rightarrow> string \<Rightarrow> ('s, string) prog" where
  "redis_hkeys c ops now key =
     andThen (expire_hash_clean c ops now key) (\<lambda>ex.
       if ex then ret (array_reply [])
       else
         andThen (kv_get ops key) (\<lambda>field_list_opt.
         andThen (runE (get_fileds_from_hash_value (rd_cfg c) field_list_opt)) (\<lambda>res_vec. ret (array_reply res_vec))))"

section \<open>Lists\<close>

definition redis_lpush :: "redis_env \<Rightarrow> ('s, 'i) kv_ops \<Rightarrow> int \<Rightarrow> string \<Rightarrow> string \<Rightarrow> ('s, string) prog" where
  "redis_lpush c ops now key val =
     (let sep = redis_list_separator (rd_cfg c) in
      andThen (expire_list_clean c ops now key) (\<lambda>_.
      andThen (kv_get ops key) (\<lambda>list_opt.
        let list_value = (case list_opt of None \<Rightarrow> val | Some s \<Rightarrow> if s = [] then val else val @ sep # s) in
        andThen (kv_put ops key list_value) (\<lambda>_. ret (int_reply (int (length (split_str sep list_value))))))))"

definition redis_rpush :: "redis_env \<Rightarrow> ('s, 'i) kv_ops \<Rightarrow> int \<Rightarrow> string \<Rightarrow> string \<Rightarrow> ('s, string) prog" where
  "redis_rpush c ops now key val =
     (let sep = redis_list_separator (rd_cfg c) in
      andThen (expire_list_clean c ops now key) (\<lambda>_.
      andThen (kv_get ops key) (\<lambda>list_opt.
        let list_value = (case list_opt of None \<Rightarrow> val | Some s \<Rightarrow> if s = [] then val else s @ sep # val) in
        andThen (kv_put ops key list_value) (\<lambda>_. ret (int_reply (int (length (split_str sep list_value))))))))"

text \<open>Writing back a list after an element was taken.\<close>

definition store_list :: "redis_env \<Rightarrow> ('s, 'i) kv_ops \<Rightarrow> string \<Rightarrow> string list \<Rightarrow> ('s, unit) prog" where
  "store_list c ops key elements =
     (if elements = [] then kv_remove ops key
      else kv_put ops key (join_str (redis_list_separator (rd_cfg c)) elements))"

definition redis_lpop :: "redis_env \<Rightarrow> ('s, 'i) kv_ops \<Rightarrow> int \<Rightarrow> string \<Rightarrow> ('s, string) prog" where
  "redis_lpop c ops now key =
     andThen (expire_list_clean c ops now key) (\<lambda>ex.
       if ex then ret nil_reply
       else
         andThen (kv_get ops key) (\<lambda>list_opt.
           case list_opt of
             None \<Rightarrow> ret nil_reply
           | Some s \<Rightarrow>
               (let elements = split_str (redis_list_separator (rd_cfg c)) s in
                if elements = [] then ret nil_reply
                else andThen (store_list c ops key (tl elements)) (\<lambda>_. ret (bulk (hd elements))))))"

definition redis_rpop :: "redis_env \<Rightarrow> ('s, 'i) kv_ops \<Rightarrow> int \<Rightarrow> string \<Rightarrow> ('s, string) prog" where
  "redis_rpop c ops now key =
     andThen (expire_list_clean c ops now key) (\<lambda>ex.
       if ex then ret nil_reply
       else
         andThen (kv_get ops key) (\<lambda>list_opt.
           case list_opt of
             None \<Rightarrow> ret nil_reply
           | Some s \<Rightarrow>
               (let elements = split_str (redis_list_separator (rd_cfg c)) s in
                if elements = [] then ret nil_reply
                else andThen (store_list c ops key (butlast elements)) (\<lambda>_. ret (bulk (last elements))))))"

definition redis_llen :: "redis_env \<Rightarrow> ('s, 'i) kv_ops \<Rightarrow> int \<Rightarrow> string \<Rightarrow> ('s, string) prog" where
  "redis_llen c ops now key =
     andThen (expire_list_clean c ops now key) (\<lambda>ex.
       if ex then ret (int_reply 0)
       else
         andThen (kv_get ops key) (\<lambda>list_opt.
           case list_opt of
             None \<Rightarrow> ret (int_reply 0)
           | Some s \<Rightarrow> ret (int_reply (int (length (split_str (redis_list_separator (rd_cfg c)) s))))))"

definition redis_lrange :: "redis_env \<Rightarrow> ('s, 'i) kv_ops \<Rightarrow> int \<Rightarrow> string \<Rightarrow> int \<Rightarrow> int \<Rightarrow> ('s, string) prog" where
  "redis_lrange c ops now key start stop =
     andThen (expire_list_clean c ops now key) (\<lambda>ex.
       if ex then ret (array_reply [])
       else
         andThen (kv_get ops key) (\<lambda>list_opt.
           case list_opt of
             None \<Rightarrow> ret (array_reply [])
           | Some s \<Rightarrow>
               (let elements = split_str (redis_list_separator (rd_cfg c)) s in
                if elements = [] then ret (array_reply []) else ret (slice_reply elements start stop))))"

section \<open>Sorted sets\<close>

text \<open>
  The loop of \<^verbatim>\<open>ZADD\<close> over scores and elements: the pairs to be written, the keys of the old scores, which
  the code collects but does not remove, and the number of elements.
\<close>

fun zadd_loop ::
  "redis_env \<Rightarrow> ('s, 'i) kv_ops \<Rightarrow> string \<Rightarrow> string list \<Rightarrow> (string \<times> string) list \<Rightarrow> string list \<Rightarrow> int \<Rightarrow>
   ('s, (string \<times> string) list \<times> string list \<times> int) prog" where
  "zadd_loop c ops key [] put_kvs remove_keys added = ret (put_kvs, remove_keys, added)"
| "zadd_loop c ops key [score] put_kvs remove_keys added = runE (Inl Undefined_behaviour)"
| "zadd_loop c ops key (score # elem # xs) put_kvs remove_keys added =
     (let key_score = get_zset_key_socre (rd_cfg c) key score; key_elem = get_zset_key_elem (rd_cfg c) key elem;
          put_kvs' = put_kvs @ [(key_score, elem), (key_elem, score)] in
      andThen (kv_get ops key_elem) (\<lambda>query_elem.
        case query_elem of
          None \<Rightarrow> zadd_loop c ops key xs put_kvs' remove_keys (added + 1)
        | Some original_score \<Rightarrow>
            if original_score = score then zadd_loop c ops key xs put_kvs remove_keys added
            else
              zadd_loop c ops key xs put_kvs'
                (remove_keys @ [get_zset_key_socre (rd_cfg c) key original_score]) (added + 1)))"

definition redis_zadd :: "redis_env \<Rightarrow> ('s, 'i) kv_ops \<Rightarrow> int \<Rightarrow> string list \<Rightarrow> ('s, string) prog" where
  "redis_zadd c ops now args =
     andThen (runE (arg args 1)) (\<lambda>key.
     andThen (expire_zset_clean c ops now key) (\<lambda>_.
     let val = get_zset_key_preffix (rd_cfg c) key in
     andThen (kv_get ops val) (\<lambda>q.
     andThen (zadd_loop c ops key (drop 2 args) (if q = None then [(key, val)] else []) [] 0) (\<lambda>(put_kvs, remove_keys, added_count).
     andThen (kv_remove_batch ops []) (\<lambda>_.
     andThen (kv_put_batch ops put_kvs) (\<lambda>_. ret (int_reply added_count)))))))"

primrec zrem_loop :: "redis_env \<Rightarrow> ('s, 'i) kv_ops \<Rightarrow> string \<Rightarrow> string list \<Rightarrow> int \<Rightarrow> ('s, int) prog" where
  "zrem_loop c ops key [] removed = ret removed"
| "zrem_loop c ops key (elem # xs) removed =
     (let key_elem = get_zset_key_elem (rd_cfg c) key elem in
      andThen (kv_get ops key_elem) (\<lambda>query_elem.
        case query_elem of
          None \<Rightarrow> zrem_loop c ops key xs removed
        | Some score \<Rightarrow>
            andThen (kv_remove ops key_elem) (\<lambda>_.
            andThen (kv_remove ops (get_zset_key_socre (rd_cfg c) key score)) (\<lambda>_.
              zrem_loop c ops key xs (removed + 1)))))"

definition redis_zrem :: "redis_env \<Rightarrow> ('s, 'i) kv_ops \<Rightarrow> int \<Rightarrow> string list \<Rightarrow> ('s, string) prog" where
  "redis_zrem c ops now args =
     (if length args < 3 then ret (arity_error ''zrem'')
      else
        andThen (runE (arg args 1)) (\<lambda>key.
        andThen (expire_zset_clean c ops now key) (\<lambda>ex.
          if ex then ret (int_reply 0)
          else andThen (zrem_loop c ops key (drop 2 args) 0) (\<lambda>removed_count. ret (int_reply removed_count)))))"

definition redis_zrange :: "redis_env \<Rightarrow> ('s, 'i) kv_ops \<Rightarrow> int \<Rightarrow> string list \<Rightarrow> ('s, string) prog" where
  "redis_zrange c ops now args =
     andThen (runE (arg args 1)) (\<lambda>key.
     andThen (runE (bindE (arg args 2) stoi)) (\<lambda>start.
     andThen (runE (bindE (arg args 3) stoi)) (\<lambda>stop.
     andThen (expire_zset_clean c ops now key) (\<lambda>ex.
       if ex then ret (array_reply [])
       else
         andThen (kv_range ops (prefix_pred (get_zset_score_preffix (rd_cfg c) key))) (\<lambda>result_elem.
           case result_elem of
             None \<Rightarrow> ret (array_reply [])
           | Some (it, en) \<Rightarrow>
               andThen (range_pairs ops (rd_steps c) it en) (\<lambda>kvs.
                 let elements = map (\<lambda>(key_score, elem). (get_zset_score_item key_score, elem)) kvs in
                 ret (slice_reply (map snd elements) start stop)))))))"

definition redis_zcard :: "redis_env \<Rightarrow> ('s, 'i) kv_ops \<Rightarrow> int \<Rightarrow> string \<Rightarrow> ('s, string) prog" where
  "redis_zcard c ops now key =
     andThen (expire_zset_clean c ops now key) (\<lambda>ex.
       if ex then ret (int_reply 0)
       else
         andThen (kv_range ops (prefix_pred (get_zset_score_preffix (rd_cfg c) key))) (\<lambda>result_elem.
           case result_elem of
             None \<Rightarrow> ret (int_reply 0)
           | Some (it, en) \<Rightarrow> andThen (range_count ops (rd_steps c) it en) (\<lambda>count. ret (int_reply count))))"

definition redis_zscore :: "redis_env \<Rightarrow> ('s, 'i) kv_ops \<Rightarrow> int \<Rightarrow> string \<Rightarrow> string \<Rightarrow> ('s, string) prog" where
  "redis_zscore c ops now key elem =
     andThen (expire_zset_clean c ops now key) (\<lambda>ex.
       if ex then ret nil_reply
       else
         andThen (kv_get ops (get_zset_key_elem (rd_cfg c) key elem)) (\<lambda>query_elem.
           case query_elem of Some x \<Rightarrow> ret (bulk x) | None \<Rightarrow> ret nil_reply))"

text \<open>The conversion of a \<^verbatim>\<open>double\<close> to \<^verbatim>\<open>uint64_t\<close>; outside of the type it is undefined.\<close>

definition double_to_u64 :: "real option \<Rightarrow> nat result" where
  "double_to_u64 d =
     (case d of
        None \<Rightarrow> Inl Undefined_behaviour
      | Some x \<Rightarrow> if x \<le> - 1 \<or> 2 ^ 64 \<le> x then Inl Undefined_behaviour else Inr (nat \<lfloor>x\<rfloor>))"

definition redis_zincrby :: "redis_env \<Rightarrow> ('s, 'i) kv_ops \<Rightarrow> int \<Rightarrow> string \<Rightarrow> string \<Rightarrow> string \<Rightarrow> ('s, string) prog" where
  "redis_zincrby c ops now key increment elem =
     andThen (expire_zset_clean c ops now key) (\<lambda>_.
     let key_elem = get_zset_key_elem (rd_cfg c) key elem in
     andThen (kv_get ops key_elem) (\<lambda>query_elem.
     andThen (case query_elem of
                Some original_score \<Rightarrow>
                  andThen (runE (stol original_score)) (\<lambda>o_score.
                  andThen (runE (rd_stod c increment)) (\<lambda>d.
                  andThen (runE (double_to_u64 (map_option (\<lambda>x. rd_round c (rd_round c (of_int o_score) + x)) d))) (\<lambda>n.
                  andThen (kv_remove ops (get_zset_key_socre (rd_cfg c) key original_score)) (\<lambda>_. ret n))))
              | None \<Rightarrow> runE (bindE (rd_stod c increment) double_to_u64)) (\<lambda>new_score.
     andThen (kv_put ops key_elem (to_string new_score)) (\<lambda>_.
     andThen (kv_put ops (get_zset_key_socre (rd_cfg c) key (to_string new_score)) elem) (\<lambda>_.
       ret ('':'' @ to_string new_score @ crlf))))))"

definition redis_zrank :: "redis_env \<Rightarrow> ('s, 'i) kv_ops \<Rightarrow> int \<Rightarrow> string \<Rightarrow> string \<Rightarrow> ('s, string) prog" where
  "redis_zrank c ops now key elem =
     andThen (expire_zset_clean c ops now key) (\<lambda>ex.
       if ex then ret nil_reply
       else
         andThen (kv_get ops (get_zset_key_elem (rd_cfg c) key elem)) (\<lambda>query_elem.
           case query_elem of
             None \<Rightarrow> ret nil_reply
           | Some score \<Rightarrow>
               andThen (kv_range ops (prefix_pred (get_zset_key_preffix (rd_cfg c) key))) (\<lambda>result_elem.
                 case result_elem of
                   None \<Rightarrow> ret nil_reply
                 | Some (it, en) \<Rightarrow>
                     andThen (range_rank ops (rd_steps c) it en (get_zset_key_socre (rd_cfg c) key score) 0) (\<lambda>rank.
                       ret (case rank of None \<Rightarrow> nil_reply | Some i \<Rightarrow> int_reply i)))))"

section \<open>Sets\<close>

definition redis_sadd :: "redis_env \<Rightarrow> ('s, 'i) kv_ops \<Rightarrow> int \<Rightarrow> string list \<Rightarrow> ('s, string) prog" where
  "redis_sadd c ops now args =
     andThen (runE (arg args 1)) (\<lambda>key.
     andThen (expire_set_clean c ops now key) (\<lambda>_.
     andThen (present_keys ops False (map (get_set_member_key (rd_cfg c) key) (drop 2 args))) (\<lambda>new_keys.
     andThen (kv_get ops key) (\<lambda>key_query.
     andThen (case key_query of
                None \<Rightarrow> ret (as_int (int (length new_keys)))
              | Some s \<Rightarrow>
                  andThen (runE (stoi s)) (\<lambda>prev_size. runE (checked_int (as_int (int (length new_keys)) + prev_size)))) (\<lambda>set_size.
     andThen (kv_put_batch ops (map (\<lambda>k. (k, get_set_member_value)) new_keys @ [(key, int_to_string set_size)])) (\<lambda>_.
       ret (int_reply (int (length new_keys)))))))))"

definition redis_srem :: "redis_env \<Rightarrow> ('s, 'i) kv_ops \<Rightarrow> int \<Rightarrow> string list \<Rightarrow> ('s, string) prog" where
  "redis_srem c ops now args =
     andThen (runE (arg args 1)) (\<lambda>key.
     andThen (expire_set_clean c ops now key) (\<lambda>ex.
       if ex then ret (int_reply 0)
       else
         andThen (present_keys ops True (map (get_set_member_key (rd_cfg c) key) (drop 2 args))) (\<lambda>del_kvs.
         andThen (kv_get ops key) (\<lambda>key_query.
         andThen (case key_query of
                    None \<Rightarrow> ret (as_int (- int (length del_kvs)))
                  | Some s \<Rightarrow>
                      andThen (runE (stoi s)) (\<lambda>prev_size. runE (checked_int (as_int (- int (length del_kvs)) + prev_size)))) (\<lambda>set_size.
         andThen (kv_put ops key (int_to_string set_size)) (\<lambda>_.
         andThen (kv_remove_batch ops del_kvs) (\<lambda>_. ret (int_reply (int (length del_kvs))))))))))"

definition redis_sismember :: "redis_env \<Rightarrow> ('s, 'i) kv_ops \<Rightarrow> int \<Rightarrow> string \<Rightarrow> string \<Rightarrow> ('s, string) prog" where
  "redis_sismember c ops now key member =
     andThen (expire_set_clean c ops now key) (\<lambda>ex.
       if ex then ret (int_reply 0)
       else
         andThen (kv_get ops (get_set_member_key (rd_cfg c) key member)) (\<lambda>q.
           ret (int_reply (if q \<noteq> None then 1 else 0))))"

definition redis_scard :: "redis_env \<Rightarrow> ('s, 'i) kv_ops \<Rightarrow> int \<Rightarrow> string \<Rightarrow> ('s, string) prog" where
  "redis_scard c ops now key =
     andThen (expire_set_clean c ops now key) (\<lambda>ex.
       if ex then ret (int_reply 0)
       else
         andThen (kv_get ops key) (\<lambda>key_query.
           case key_query of Some s \<Rightarrow> ret ('':'' @ s @ crlf) | None \<Rightarrow> ret (int_reply 0)))"

definition redis_smembers :: "redis_env \<Rightarrow> ('s, 'i) kv_ops \<Rightarrow> int \<Rightarrow> string \<Rightarrow> ('s, string) prog" where
  "redis_smembers c ops now key =
     andThen (expire_set_clean c ops now key) (\<lambda>ex.
       if ex then ret (array_reply [])
       else
         (let preffix = get_set_member_prefix (rd_cfg c) key in
          andThen (kv_range ops (prefix_pred preffix)) (\<lambda>result_elem.
            case result_elem of
              None \<Rightarrow> ret (array_reply [])
            | Some (it, en) \<Rightarrow>
                andThen (range_pairs ops (rd_steps c) it en) (\<lambda>kvs.
                  ret (array_reply (map (\<lambda>kv. drop (length preffix) (fst kv)) kvs))))))"

section \<open>The interface of the commands\<close>

text \<open>Every public function takes the words of the command, its name first.\<close>

definition RedisWrapper_set :: "redis_env \<Rightarrow> ('s, 'i) kv_ops \<Rightarrow> string list \<Rightarrow> ('s, string) prog" where
  "RedisWrapper_set c ops args = andThen (runE (arg args 1)) (\<lambda>a1. andThen (runE (arg args 2)) (\<lambda>a2. redis_set c ops a1 a2))"

definition RedisWrapper_get :: "redis_env \<Rightarrow> ('s, 'i) kv_ops \<Rightarrow> int \<Rightarrow> string list \<Rightarrow> ('s, string) prog" where
  "RedisWrapper_get c ops now args = andThen (runE (arg args 1)) (\<lambda>a1. redis_get c ops now a1)"

definition RedisWrapper_del :: "redis_env \<Rightarrow> ('s, 'i) kv_ops \<Rightarrow> string list \<Rightarrow> ('s, string) prog" where
  "RedisWrapper_del c ops args = redis_del c ops args"

definition RedisWrapper_incr :: "('s, 'i) kv_ops \<Rightarrow> string list \<Rightarrow> ('s, string) prog" where
  "RedisWrapper_incr ops args = andThen (runE (arg args 1)) (\<lambda>a1. redis_incr ops a1)"

definition RedisWrapper_decr :: "('s, 'i) kv_ops \<Rightarrow> string list \<Rightarrow> ('s, string) prog" where
  "RedisWrapper_decr ops args = andThen (runE (arg args 1)) (\<lambda>a1. redis_decr ops a1)"

definition RedisWrapper_expire :: "redis_env \<Rightarrow> ('s, 'i) kv_ops \<Rightarrow> int \<Rightarrow> string list \<Rightarrow> ('s, string) prog" where
  "RedisWrapper_expire c ops now args = andThen (runE (arg args 1)) (\<lambda>a1. andThen (runE (arg args 2)) (\<lambda>a2. redis_expire c ops now a1 a2))"

definition RedisWrapper_ttl :: "redis_env \<Rightarrow> ('s, 'i) kv_ops \<Rightarrow> int \<Rightarrow> string list \<Rightarrow> ('s, string) prog" where
  "RedisWrapper_ttl c ops now args = andThen (runE (arg args 1)) (\<lambda>a1. redis_ttl c ops now a1)"

fun pairs_of :: "string list \<Rightarrow> (string \<times> string) list" where
  "pairs_of (f # x # xs) = (f, x) # pairs_of xs"
| "pairs_of _ = []"

definition RedisWrapper_hset :: "redis_env \<Rightarrow> ('s, 'i) kv_ops \<Rightarrow> int \<Rightarrow> string list \<Rightarrow> ('s, string) prog" where
  "RedisWrapper_hset c ops now args =
     (if length args < 4 \<or> (length args - 1) mod 2 \<noteq> 1 then ret (arity_error ''hset'')
      else andThen (runE (arg args 1)) (\<lambda>key. redis_hset_batch c ops now key (pairs_of (drop 2 args))))"

definition RedisWrapper_hget :: "redis_env \<Rightarrow> ('s, 'i) kv_ops \<Rightarrow> int \<Rightarrow> string list \<Rightarrow> ('s, string) prog" where
  "RedisWrapper_hget c ops now args = andThen (runE (arg args 1)) (\<lambda>a1. andThen (runE (arg args 2)) (\<lambda>a2. redis_hget c ops now a1 a2))"

definition RedisWrapper_hdel :: "redis_env \<Rightarrow> ('s, 'i) kv_ops \<Rightarrow> int \<Rightarrow> string list \<Rightarrow> ('s, string) prog" where
  "RedisWrapper_hdel c ops now args = andThen (runE (arg args 1)) (\<lambda>a1. andThen (runE (arg args 2)) (\<lambda>a2. redis_hdel c ops now a1 a2))"

definition RedisWrapper_hkeys :: "redis_env \<Rightarrow> ('s, 'i) kv_ops \<Rightarrow> int \<Rightarrow> string list \<Rightarrow> ('s, string) prog" where
  "RedisWrapper_hkeys c ops now args = andThen (runE (arg args 1)) (\<lambda>a1. redis_hkeys c ops now a1)"

definition RedisWrapper_lpush :: "redis_env \<Rightarrow> ('s, 'i) kv_ops \<Rightarrow> int \<Rightarrow> string list \<Rightarrow> ('s, string) prog" where
  "RedisWrapper_lpush c ops now args = andThen (runE (arg args 1)) (\<lambda>a1. andThen (runE (arg args 2)) (\<lambda>a2. redis_lpush c ops now a1 a2))"

definition RedisWrapper_rpush :: "redis_env \<Rightarrow> ('s, 'i) kv_ops \<Rightarrow> int \<Rightarrow> string list \<Rightarrow> ('s, string) prog" where
  "RedisWrapper_rpush c ops now args = andThen (runE (arg args 1)) (\<lambda>a1. andThen (runE (arg args 2)) (\<lambda>a2. redis_rpush c ops now a1 a2))"

definition RedisWrapper_lpop :: "redis_env \<Rightarrow> ('s, 'i) kv_ops \<Rightarrow> int \<Rightarrow> string list \<Rightarrow> ('s, string) prog" where
  "RedisWrapper_lpop c ops now args = andThen (runE (arg args 1)) (\<lambda>a1. redis_lpop c ops now a1)"

definition RedisWrapper_rpop :: "redis_env \<Rightarrow> ('s, 'i) kv_ops \<Rightarrow> int \<Rightarrow> string list \<Rightarrow> ('s, string) prog" where
  "RedisWrapper_rpop c ops now args = andThen (runE (arg args 1)) (\<lambda>a1. redis_rpop c ops now a1)"

definition RedisWrapper_llen :: "redis_env \<Rightarrow> ('s, 'i) kv_ops \<Rightarrow> int \<Rightarrow> string list \<Rightarrow> ('s, string) prog" where
  "RedisWrapper_llen c ops now args = andThen (runE (arg args 1)) (\<lambda>a1. redis_llen c ops now a1)"

definition RedisWrapper_lrange :: "redis_env \<Rightarrow> ('s, 'i) kv_ops \<Rightarrow> int \<Rightarrow> string list \<Rightarrow> ('s, string) prog" where
  "RedisWrapper_lrange c ops now args =
     andThen (runE (bindE (arg args 2) stoi)) (\<lambda>start.
     andThen (runE (bindE (arg args 3) stoi)) (\<lambda>stop.
     andThen (runE (arg args 1)) (\<lambda>key. redis_lrange c ops now key start stop)))"

definition RedisWrapper_zadd :: "redis_env \<Rightarrow> ('s, 'i) kv_ops \<Rightarrow> int \<Rightarrow> string list \<Rightarrow> ('s, string) prog" where
  "RedisWrapper_zadd c ops now args = redis_zadd c ops now args"

definition RedisWrapper_zrem :: "redis_env \<Rightarrow> ('s, 'i) kv_ops \<Rightarrow> int \<Rightarrow> string list \<Rightarrow> ('s, string) prog" where
  "RedisWrapper_zrem c ops now args = redis_zrem c ops now args"

definition RedisWrapper_zrange :: "redis_env \<Rightarrow> ('s, 'i) kv_ops \<Rightarrow> int \<Rightarrow> string list \<Rightarrow> ('s, string) prog" where
  "RedisWrapper_zrange c ops now args = redis_zrange c ops now args"

definition RedisWrapper_zcard :: "redis_env \<Rightarrow> ('s, 'i) kv_ops \<Rightarrow> int \<Rightarrow> string list \<Rightarrow> ('s, string) prog" where
  "RedisWrapper_zcard c ops now args = andThen (runE (arg args 1)) (\<lambda>a1. redis_zcard c ops now a1)"

definition RedisWrapper_zscore :: "redis_env \<Rightarrow> ('s, 'i) kv_ops \<Rightarrow> int \<Rightarrow> string list \<Rightarrow> ('s, string) prog" where
  "RedisWrapper_zscore c ops now args = andThen (runE (arg args 1)) (\<lambda>a1. andThen (runE (arg args 2)) (\<lambda>a2. redis_zscore c ops now a1 a2))"

definition RedisWrapper_zincrby :: "redis_env \<Rightarrow> ('s, 'i) kv_ops \<Rightarrow> int \<Rightarrow> string list \<Rightarrow> ('s, string) prog" where
  "RedisWrapper_zincrby c ops now args = andThen (runE (arg args 1)) (\<lambda>a1. andThen (runE (arg args 2)) (\<lambda>a2. andThen (runE (arg args 3)) (\<lambda>a3. redis_zincrby c ops now a1 a2 a3)))"

definition RedisWrapper_zrank :: "redis_env \<Rightarrow> ('s, 'i) kv_ops \<Rightarrow> int \<Rightarrow> string list \<Rightarrow> ('s, string) prog" where
  "RedisWrapper_zrank c ops now args = andThen (runE (arg args 1)) (\<lambda>a1. andThen (runE (arg args 2)) (\<lambda>a2. redis_zrank c ops now a1 a2))"

definition RedisWrapper_sadd :: "redis_env \<Rightarrow> ('s, 'i) kv_ops \<Rightarrow> int \<Rightarrow> string list \<Rightarrow> ('s, string) prog" where
  "RedisWrapper_sadd c ops now args = redis_sadd c ops now args"

definition RedisWrapper_srem :: "redis_env \<Rightarrow> ('s, 'i) kv_ops \<Rightarrow> int \<Rightarrow> string list \<Rightarrow> ('s, string) prog" where
  "RedisWrapper_srem c ops now args = redis_srem c ops now args"

definition RedisWrapper_sismember :: "redis_env \<Rightarrow> ('s, 'i) kv_ops \<Rightarrow> int \<Rightarrow> string list \<Rightarrow> ('s, string) prog" where
  "RedisWrapper_sismember c ops now args = andThen (runE (arg args 1)) (\<lambda>a1. andThen (runE (arg args 2)) (\<lambda>a2. redis_sismember c ops now a1 a2))"

definition RedisWrapper_scard :: "redis_env \<Rightarrow> ('s, 'i) kv_ops \<Rightarrow> int \<Rightarrow> string list \<Rightarrow> ('s, string) prog" where
  "RedisWrapper_scard c ops now args = andThen (runE (arg args 1)) (\<lambda>a1. redis_scard c ops now a1)"

definition RedisWrapper_smembers :: "redis_env \<Rightarrow> ('s, 'i) kv_ops \<Rightarrow> int \<Rightarrow> string list \<Rightarrow> ('s, string) prog" where
  "RedisWrapper_smembers c ops now args = andThen (runE (arg args 1)) (\<lambda>a1. redis_smembers c ops now a1)"

definition RedisWrapper_clear :: "('s, 'i) kv_ops \<Rightarrow> ('s, unit) prog" where
  "RedisWrapper_clear ops = kv_clear ops"

definition RedisWrapper_flushall :: "('s, 'i) kv_ops \<Rightarrow> ('s, unit) prog" where
  "RedisWrapper_flushall ops = kv_flush ops"

end
