(* ===== verification/RedisStore.thy ===== *)
theory RedisStore
  imports Redis Lsm
begin

text \<open>
  The store under the Redis layer. \<open>lsm_ops\<close> gives the commands the operations of class \<^verbatim>\<open>LSM\<close>; \<open>map_ops\<close> is
  their specification: a map from keys to values, with a count of what the operations may cost. The
  locale \<open>kv_store\<close> is the contract between the two layers: as long as the budget lasts, every operation
  returns what the map says. It is proved for \<open>lsm_ops\<close>, and inside it every command that needs no range
  query is shown to do on the store what it does on the map.
\<close>

section \<open>The operations of the store\<close>

text \<open>The state is the engine with the number of random choices made so far; \<open>rnd\<close> are the choices.\<close>

type_synonym lsm_state = "engine \<times> nat"

definition lsm_ops ::
  "env \<Rightarrow> (filesys \<Rightarrow> string list) \<Rightarrow> (nat \<Rightarrow> sl_random) \<Rightarrow> (lsm_state, two_merge) kv_ops" where
  "lsm_ops v ls rnd = \<lparr>
     kv_get = (\<lambda>k (e, i). bindE (LSM_get v k e) (\<lambda>(x, e). Inr (x, (e, i)))),
     kv_put = (\<lambda>k x (e, i). bindE (LSM_put v (rnd i) k x e) (\<lambda>e. Inr ((), (e, Suc i)))),
     kv_remove = (\<lambda>k (e, i). bindE (LSM_remove v (rnd i) k e) (\<lambda>e. Inr ((), (e, Suc i)))),
     kv_put_batch = (\<lambda>kvs (e, i). bindE (LSM_put_batch v (\<lambda>j. rnd (i + j)) kvs e) (\<lambda>e. Inr ((), (e, i + length kvs)))),
     kv_remove_batch = (\<lambda>ks (e, i). bindE (LSM_remove_batch v (\<lambda>j. rnd (i + j)) ks e) (\<lambda>e. Inr ((), (e, i + length ks)))),
     kv_range = (\<lambda>p (e, i). bindE (LSM_lsm_iters_monotony_predicate v 0 p e) (\<lambda>(r, e). Inr (r, (e, i)))),
     kv_it_eq = TwoMergeIterator_eq False,
     kv_it_arrow = (\<lambda>it (e, i). bindE (TwoMergeIterator_arrow it (eng_store e)) (\<lambda>r. Inr (r, (e, i)))),
     kv_it_incr = (\<lambda>it (e, i). bindE (TwoMergeIterator_incr (env_hash v) (env_steps v) it (eng_store e)) (\<lambda>(it, w).
        Inr (it, (e\<lparr>eng_store := w\<rparr>, i)))),
     kv_clear = (\<lambda>(e, i). bindE (LSM_clear ls e) (\<lambda>e. Inr ((), (e, i)))),
     kv_flush = (\<lambda>(e, i). bindE (LSM_flush v e) (\<lambda>e. Inr ((), (e, i))))\<rparr>"

section \<open>The specification\<close>

type_synonym kv_map = "string \<Rightarrow> string option"

text \<open>An empty value is a deletion.\<close>

definition store_put :: "string \<times> string \<Rightarrow> kv_map \<Rightarrow> kv_map" where
  "store_put kx m = m(fst kx := (if snd kx = [] then None else Some (snd kx)))"

definition write_cost :: "string \<times> string \<Rightarrow> nat" where
  "write_cost kx = length (fst kx) + length (snd kx) + 8"

definition map_write :: "(string \<times> string) list \<Rightarrow> (kv_map \<times> nat, unit) prog" where
  "map_write kvs s =
     (if \<exists>kx \<in> set kvs. fst kx = [] then Inl (Invalid_argument ''empty key'')
      else Inr ((), (fold store_put kvs (fst s), Suc (snd s + sum_list (map write_cost kvs)))))"

text \<open>Range queries, \<^verbatim>\<open>clear\<close> and \<^verbatim>\<open>flush\<close> are not part of the specification.\<close>

definition map_ops :: "(kv_map \<times> nat, unit) kv_ops" where
  "map_ops = \<lparr>
     kv_get = (\<lambda>k s. if k = [] then Inl (Invalid_argument ''empty key'') else Inr (fst s k, (fst s, Suc (snd s)))),
     kv_put = (\<lambda>k x. map_write [(k, x)]),
     kv_remove = (\<lambda>k. map_write [(k, [])]),
     kv_put_batch = map_write,
     kv_remove_batch = (\<lambda>ks. map_write (map (\<lambda>k. (k, [])) ks)),
     kv_range = (\<lambda>p s. Inl (Runtime_error ''range query'')),
     kv_it_eq = (\<lambda>_ _. Inl (Runtime_error ''range query'')),
     kv_it_arrow = (\<lambda>it s. Inl (Runtime_error ''range query'')),
     kv_it_incr = (\<lambda>it s. Inl (Runtime_error ''range query'')),
     kv_clear = (\<lambda>s. Inl (Runtime_error ''clear'')),
     kv_flush = (\<lambda>s. Inl (Runtime_error ''flush''))\<rparr>"

section \<open>The contract\<close>

text \<open>\<open>holds b s m\<close>: the state \<open>s\<close> holds the map \<open>m\<close> and has the budget \<open>b\<close> left.\<close>

locale kv_store =
  fixes ops :: "('s, 'i) kv_ops" and holds :: "nat \<Rightarrow> 's \<Rightarrow> kv_map \<Rightarrow> bool"
  assumes get_ok: "holds (Suc b) s m \<Longrightarrow> k \<noteq> [] \<Longrightarrow> \<exists>s'. kv_get ops k s = Inr (m k, s') \<and> holds b s' m"
    and put_ok: "holds (Suc (b + write_cost (k, x))) s m \<Longrightarrow> k \<noteq> [] \<Longrightarrow>
      \<exists>s'. kv_put ops k x s = Inr ((), s') \<and> holds b s' (store_put (k, x) m)"
    and remove_ok: "holds (Suc (b + write_cost (k, []))) s m \<Longrightarrow> k \<noteq> [] \<Longrightarrow>
      \<exists>s'. kv_remove ops k s = Inr ((), s') \<and> holds b s' (store_put (k, []) m)"
    and put_batch_ok: "holds (Suc (b + sum_list (map write_cost kvs))) s m \<Longrightarrow> \<forall>kx \<in> set kvs. fst kx \<noteq> [] \<Longrightarrow>
      \<exists>s'. kv_put_batch ops kvs s = Inr ((), s') \<and> holds b s' (fold store_put kvs m)"
    and remove_batch_ok: "holds (Suc (b + sum_list (map (\<lambda>k. write_cost (k, [])) ks))) s m \<Longrightarrow> [] \<notin> set ks \<Longrightarrow>
      \<exists>s'. kv_remove_batch ops ks s = Inr ((), s') \<and> holds b s' (fold (\<lambda>k. store_put (k, [])) ks m)"

section \<open>The store keeps the contract\<close>

definition all_bytes :: "entry list list \<Rightarrow> nat" where
  "all_bytes ess = sum_list (map entry_bytes_used (concat ess))"

lemma put_entry_subset: "set (put_entry x es) \<subseteq> insert x (set es)"
  by (induction es) auto

lemma put_entry_bytes: "sum_list (map entry_bytes_used (put_entry x es)) \<le> entry_bytes_used x + sum_list (map entry_bytes_used es)"
  by (induction es) auto

lemma put_entries_bytes:
  "sum_list (map entry_bytes_used (fold put_entry xs es)) \<le> sum_list (map entry_bytes_used xs) + sum_list (map entry_bytes_used es)"
proof (induction xs arbitrary: es)
  case (Cons x xs)
  from Cons.IH [of "put_entry x es"] put_entry_bytes [of x es] show ?case by simp
qed simp

lemma put_entries_subset: "set (fold put_entry xs es) \<subseteq> set xs \<union> set es"
proof (induction xs arbitrary: es)
  case (Cons x xs)
  from Cons.IH [of "put_entry x es"] put_entry_subset [of x es] show ?case by auto
qed simp

lemma newest_value_put_entry:
  assumes "\<forall>y \<in> set es. ekey y = ekey x \<longrightarrow> etranc y \<le> etranc x"
  shows "newest_value k 0 (put_entry x es @ vs) = store_put (ekey x, evalue x) (\<lambda>k. newest_value k 0 (es @ vs)) k"
proof (cases "k = ekey x")
  case True
  have "version_of (ekey x) 0 (put_entry x es) = Some x"
    using assms by (intro version_of_put_same) (simp_all add: visible_def)
  with True show ?thesis by (simp add: newest_value_def version_of_append store_put_def)
next
  case False
  then show ?thesis by (simp add: newest_value_def version_of_append version_of_put_other store_put_def)
qed

lemma newest_value_put_entries:
  assumes "\<forall>y \<in> set es. ekey y \<in> fst ` set kvs \<longrightarrow> etranc y \<le> t"
  shows "newest_value k 0 (fold put_entry (map (\<lambda>(k, x). entry_of k x t) kvs) es @ vs) =
    fold store_put kvs (\<lambda>k. newest_value k 0 (es @ vs)) k"
  using assms
proof (induction kvs arbitrary: es)
  case (Cons kx kvs)
  let ?x = "entry_of (fst kx) (snd kx) t"
  have le: "\<forall>y \<in> set (put_entry ?x es). ekey y \<in> fst ` set kvs \<longrightarrow> etranc y \<le> t"
  proof (intro ballI impI)
    fix y assume "y \<in> set (put_entry ?x es)" "ekey y \<in> fst ` set kvs"
    then have "y = ?x \<or> y \<in> set es \<and> ekey y \<in> fst ` set (kx # kvs)" using put_entry_subset [of ?x es] by auto
    then show "etranc y \<le> t" using Cons.prems by auto
  qed
  have "(\<lambda>k. newest_value k 0 (put_entry ?x es @ vs)) = store_put kx (\<lambda>k. newest_value k 0 (es @ vs))"
    using newest_value_put_entry [of es ?x] Cons.prems by (intro ext) simp
  then show ?case using Cons.IH [OF le] by (simp add: case_prod_unfold)
qed simp

lemma version_of_all_visible:
  assumes "\<forall>x \<in> set es. etranc x \<le> t"
  shows "version_of k t es = version_of k 0 es"
  using assms by (induction es) (auto simp: version_of_def visible_def)

lemma newest_value_all_visible: "\<forall>x \<in> set es. etranc x \<le> t \<Longrightarrow> newest_value k t es = newest_value k 0 es"
  by (simp add: newest_value_def version_of_all_visible)

text \<open>
  The engine holds a map: what the newest versions say. The budget bounds the bytes that may go into the
  memtable before it is flushed, the transaction ids and the counters of the block cache.
\<close>

definition engine_holds :: "env \<Rightarrow> nat \<Rightarrow> engine \<Rightarrow> kv_map \<Rightarrow> bool" where
  "engine_holds v b e m \<longleftrightarrow>
     (\<exists>disk tb n ess tm. mt_repr (eng_memtable e) ess \<and> eng_ok v disk tb n e \<and> eng_tran_manager e = Some tm \<and>
        (\<forall>x \<in> set (concat ess @ disk_versions tb e). etranc x < tm_nextTransactionId tm) \<and>
        (\<forall>k. k \<noteq> [] \<longrightarrow> m k = newest_value k 0 (concat ess @ disk_versions tb e)) \<and>
        all_bytes ess + b < unat (tol_mem_limit v) \<and> unat (tm_nextTransactionId tm) + b < 2 ^ 64 \<and>
        n + b * (4 * length (level_ids e 0) + 2 * eng_cur_max_level e) < 2 ^ 64)"

definition lsm_holds :: "env \<Rightarrow> nat \<Rightarrow> lsm_state \<Rightarrow> kv_map \<Rightarrow> bool" where
  "lsm_holds v b s m \<longleftrightarrow> engine_holds v b (fst s) m"

lemma eng_ok_manager [simp]: "eng_ok v disk tb n (e\<lparr>eng_tran_manager := tm\<rparr>) = eng_ok v disk tb n e"
  by (simp add: eng_ok_def live_tables_def level_ids_def)

lemma eng_ok_mem [simp]: "eng_ok v disk tb n (e\<lparr>eng_memtable := mt\<rparr>) = eng_ok v disk tb n e"
  by (simp add: eng_ok_def live_tables_def level_ids_def)

lemma disk_versions_manager [simp]: "disk_versions tb (e\<lparr>eng_tran_manager := tm\<rparr>) = disk_versions tb e"
  by (simp add: disk_versions_def level_entries_def [abs_def] level_ids_def)

lemma disk_versions_mem [simp]: "disk_versions tb (e\<lparr>eng_memtable := mt\<rparr>) = disk_versions tb e"
  by (simp add: disk_versions_def level_entries_def [abs_def] level_ids_def)

lemma level_ids_manager [simp]: "level_ids (e\<lparr>eng_tran_manager := tm\<rparr>) l = level_ids e l"
  by (simp add: level_ids_def)

lemma level_ids_mem [simp]: "level_ids (e\<lparr>eng_memtable := mt\<rparr>) l = level_ids e l"
  by (simp add: level_ids_def)

text \<open>Drawing a transaction id.\<close>

lemma next_id_ok:
  assumes "engine_holds v (Suc b) e m"
  shows "\<exists>t tm e1 disk tb n ess. next_tranc_id e = Inr (t, e1) \<and> e1 = e\<lparr>eng_tran_manager := Some tm\<rparr> \<and>
    tm_nextTransactionId tm = t + 1 \<and> t < t + 1 \<and> mt_repr (eng_memtable e1) ess \<and> eng_ok v disk tb n e1 \<and>
    (\<forall>x \<in> set (concat ess @ disk_versions tb e1). etranc x < t) \<and>
    (\<forall>k. k \<noteq> [] \<longrightarrow> m k = newest_value k 0 (concat ess @ disk_versions tb e1)) \<and>
    all_bytes ess + Suc b < unat (tol_mem_limit v) \<and> unat (t + 1) + b < 2 ^ 64 \<and>
    n + Suc b * (4 * length (level_ids e1 0) + 2 * eng_cur_max_level e1) < 2 ^ 64"
proof -
  obtain disk tb n ess tm where h: "mt_repr (eng_memtable e) ess" "eng_ok v disk tb n e" "eng_tran_manager e = Some tm"
    "\<forall>x \<in> set (concat ess @ disk_versions tb e). etranc x < tm_nextTransactionId tm"
    "\<forall>k. k \<noteq> [] \<longrightarrow> m k = newest_value k 0 (concat ess @ disk_versions tb e)"
    "all_bytes ess + Suc b < unat (tol_mem_limit v)" "unat (tm_nextTransactionId tm) + Suc b < 2 ^ 64"
    "n + Suc b * (4 * length (level_ids e 0) + 2 * eng_cur_max_level e) < 2 ^ 64"
    using assms unfolding engine_holds_def by blast
  have succ: "unat (tm_nextTransactionId tm + 1) = Suc (unat (tm_nextTransactionId tm))"
    using h(7) by (simp add: unat_word_ariths)
  let ?tm = "tm\<lparr>tm_nextTransactionId := tm_nextTransactionId tm + 1\<rparr>"
  have "next_tranc_id e = Inr (tm_nextTransactionId tm, e\<lparr>eng_tran_manager := Some ?tm\<rparr>)"
    using h(3) by (simp add: next_tranc_id_def manager_at_def ptr_def TranManager_getNextTransactionId_def)
  then show ?thesis
    using h succ
    by (intro exI [of _ "tm_nextTransactionId tm"] exI [of _ ?tm] exI [of _ "e\<lparr>eng_tran_manager := Some ?tm\<rparr>"]
        exI [of _ disk] exI [of _ tb] exI [of _ n] exI [of _ ess]) (simp add: word_less_nat_alt)
qed

lemma lsm_get_ok:
  assumes "engine_holds v (Suc b) e m" and "k \<noteq> []"
  shows "\<exists>e'. LSM_get v k e = Inr (m k, e') \<and> engine_holds v b e' m"
proof -
  obtain t tm e1 disk tb n ess where h: "next_tranc_id e = Inr (t, e1)" "e1 = e\<lparr>eng_tran_manager := Some tm\<rparr>"
    "tm_nextTransactionId tm = t + 1" "t < t + 1" "mt_repr (eng_memtable e1) ess" "eng_ok v disk tb n e1"
    "\<forall>x \<in> set (concat ess @ disk_versions tb e1). etranc x < t"
    "\<forall>k. k \<noteq> [] \<longrightarrow> m k = newest_value k 0 (concat ess @ disk_versions tb e1)"
    "all_bytes ess + Suc b < unat (tol_mem_limit v)" "unat (t + 1) + b < 2 ^ 64"
    "n + Suc b * (4 * length (level_ids e1 0) + 2 * eng_cur_max_level e1) < 2 ^ 64"
    using next_id_ok [OF assms(1)] by blast
  have room: "n + 4 * length (level_ids e1 0) + 2 * eng_cur_max_level e1 < 2 ^ 64" using h(11) by simp
  obtain r e' n' where g: "LSMEngine_get v k t e1 = Inr (r, e')" "map_option fst r = newest_value k t (concat ess @ disk_versions tb e1)"
    "read_only e1 e'" "eng_ok v disk tb n' e'" "n' \<le> n + 4 * length (level_ids e1 0) + 2 * eng_cur_max_level e1"
    using engine_get_ok [OF h(5,6) assms(2) room, of t] by blast
  have "\<forall>x \<in> set (concat ess @ disk_versions tb e1). etranc x \<le> t" using h(7) by (simp add: order_less_imp_le)
  then have val: "map_option fst r = m k" using g(2) h(8) assms(2) by (simp add: newest_value_all_visible)
  have ro: "level_ids e' 0 = level_ids e1 0" "eng_cur_max_level e' = eng_cur_max_level e1" "eng_memtable e' = eng_memtable e1"
    "eng_tran_manager e' = Some tm"
    using g(3) h(2) by (simp_all add: read_only_def)
  have dv: "disk_versions tb e' = disk_versions tb e1"
    using g(3) by (simp add: disk_versions_def level_entries_def [abs_def] read_only_def)
  have "n' + b * (4 * length (level_ids e1 0) + 2 * eng_cur_max_level e1) < 2 ^ 64" using h(11) g(5) by simp
  moreover have "\<forall>x \<in> set (concat ess @ disk_versions tb e'). etranc x < t + 1"
    using h(4,7) unfolding dv by (auto intro: less_trans)
  ultimately have "engine_holds v b e' m"
    using h g(4) ro unfolding engine_holds_def
    by (intro exI [of _ disk] exI [of _ tb] exI [of _ n'] exI [of _ ess] exI [of _ tm]) (simp add: dv)
  with h(1) g(1) val show ?thesis by (simp add: LSM_get_def)
qed

text \<open>A write that leaves the memtable below its limit.\<close>

lemma size_small:
  assumes "mt_repr mt ess" and "all_bytes ess < 2 ^ 64"
  shows "unat (MemTable_get_total_size mt) = all_bytes ess"
proof -
  obtain es fss where ess: "ess = es # fss" using assms(1) by (auto simp: mt_repr_Cons)
  have "sum_list (map table_bytes ys) = of_nat (all_bytes ys)" for ys
    by (induction ys) (simp_all add: all_bytes_def table_bytes_def)
  then have "MemTable_get_total_size mt = of_nat (all_bytes ess)"
    using mt_repr_sizes [of mt es fss] assms(1) unfolding ess by metis
  with assms(2) show ?thesis by (simp add: unat_of_nat)
qed

lemma spec_step_concat:
  assumes "w \<noteq> Freeze" and "ess \<noteq> []"
  shows "concat (spec_step limit w ess) = fold put_entry (mt_op_entries w) (hd ess) @ concat (tl ess)"
  using assms by (cases ess) (simp_all add: spec_step_def)

lemma engine_write_ok:
  assumes mt: "mt_repr (eng_memtable e) ess" and op: "memtable_op op = Some w" "w \<noteq> Freeze"
    and room: "all_bytes ess + sum_list (map entry_bytes_used (mt_op_entries w)) < unat (tol_mem_limit v)"
  shows "\<exists>mt. engine_step v r op e = Inr (0, e\<lparr>eng_memtable := mt\<rparr>) \<and> mt_repr mt (spec_step (per_mem_limit v) w ess) \<and>
    all_bytes (spec_step (per_mem_limit v) w ess) \<le> all_bytes ess + sum_list (map entry_bytes_used (mt_op_entries w))"
proof -
  let ?ess = "spec_step (per_mem_limit v) w ess"
  obtain mt where m: "MemTable_step (per_mem_limit v) r w (eng_memtable e) = Inr mt" "mt_repr mt ?ess"
    using MemTable_step_repr [OF mt, of "per_mem_limit v" r w] by auto
  have ne: "ess \<noteq> []" using mt by (auto simp: mt_repr_Cons)
  then have "concat ess = hd ess @ concat (tl ess)" by (cases ess) simp_all
  then have le: "all_bytes ?ess \<le> all_bytes ess + sum_list (map entry_bytes_used (mt_op_entries w))"
    unfolding all_bytes_def spec_step_concat [OF op(2) ne]
    using put_entries_bytes [of "mt_op_entries w" "hd ess"] by simp
  then have lt: "all_bytes ?ess < unat (tol_mem_limit v)" using room by simp
  moreover have "unat (tol_mem_limit v) < 2 ^ 64" using unsigned_less [of "tol_mem_limit v"] by simp
  ultimately have "unat (MemTable_get_total_size mt) < unat (tol_mem_limit v)" using size_small [OF m(2)] by simp
  then have "\<not> tol_mem_limit v \<le> MemTable_get_total_size mt" by (simp add: word_le_nat_alt)
  then have "flush_if_full v (e\<lparr>eng_memtable := mt\<rparr>) = Inr (0, e\<lparr>eng_memtable := mt\<rparr>)" by (simp add: flush_if_full_def)
  moreover have "engine_step v r op e = flush_if_full v (e\<lparr>eng_memtable := mt\<rparr>)"
    using m(1) op(1)
    by (cases op) (auto simp: LSMEngine_put_def LSMEngine_put_batch_def LSMEngine_remove_def LSMEngine_remove_batch_def)
  ultimately show ?thesis using m(2) le by auto
qed

lemma lsm_write_ok:
  assumes h: "engine_holds v (Suc (b + sum_list (map write_cost kvs))) e m" and keys: "\<forall>kx \<in> set kvs. fst kx \<noteq> []"
    and op: "\<And>t. memtable_op (op t) = Some (w t)" "\<And>t. w t \<noteq> Freeze"
    and ents: "\<And>t. mt_op_entries (w t) = map (\<lambda>(k, x). entry_of k x t) kvs"
  shows "\<exists>e'. bindE (next_tranc_id e) (\<lambda>(t, e). bindE (engine_step v r (op t) e) (\<lambda>(_, e). Inr e)) = Inr e' \<and>
    engine_holds v b e' (fold store_put kvs m)"
proof -
  obtain t tm e1 disk tb n ess where h: "next_tranc_id e = Inr (t, e1)" "e1 = e\<lparr>eng_tran_manager := Some tm\<rparr>"
    "tm_nextTransactionId tm = t + 1" "t < t + 1" "mt_repr (eng_memtable e1) ess" "eng_ok v disk tb n e1"
    "\<forall>x \<in> set (concat ess @ disk_versions tb e1). etranc x < t"
    "\<forall>k. k \<noteq> [] \<longrightarrow> m k = newest_value k 0 (concat ess @ disk_versions tb e1)"
    "all_bytes ess + Suc (b + sum_list (map write_cost kvs)) < unat (tol_mem_limit v)"
    "unat (t + 1) + (b + sum_list (map write_cost kvs)) < 2 ^ 64"
    "n + Suc (b + sum_list (map write_cost kvs)) * (4 * length (level_ids e1 0) + 2 * eng_cur_max_level e1) < 2 ^ 64"
    using next_id_ok [OF h] by blast
  have cost: "sum_list (map entry_bytes_used (mt_op_entries (w t))) = sum_list (map write_cost kvs)"
    unfolding ents by (induction kvs) (auto simp: entry_bytes_used_def write_cost_def)
  then have "all_bytes ess + sum_list (map entry_bytes_used (mt_op_entries (w t))) < unat (tol_mem_limit v)" using h(9) by simp
  from engine_write_ok [OF h(5) op this, of r] obtain mt where
    s: "engine_step v r (op t) e1 = Inr (0, e1\<lparr>eng_memtable := mt\<rparr>)" "mt_repr mt (spec_step (per_mem_limit v) (w t) ess)"
    "all_bytes (spec_step (per_mem_limit v) (w t) ess) \<le> all_bytes ess + sum_list (map write_cost kvs)"
    unfolding cost by blast
  let ?ess = "spec_step (per_mem_limit v) (w t) ess" and ?xs = "map (\<lambda>(k, x). entry_of k x t) kvs"
  have ne: "ess \<noteq> []" using h(5) by (auto simp: mt_repr_Cons)
  then have split: "concat ess = hd ess @ concat (tl ess)" by (cases ess) simp_all
  have conc: "concat ?ess = fold put_entry ?xs (hd ess) @ concat (tl ess)" using spec_step_concat [OF op(2) ne] by (simp add: ents)
  have below: "\<forall>y \<in> set (hd ess). etranc y \<le> t" using h(7) unfolding split by (auto intro: less_imp_le)
  have new: "newest_value k 0 (concat ?ess @ disk_versions tb e1) =
      fold store_put kvs (\<lambda>k. newest_value k 0 (concat ess @ disk_versions tb e1)) k" for k
    using newest_value_put_entries [of "hd ess" kvs t k "concat (tl ess) @ disk_versions tb e1"] below by (simp add: conc split)
  have agree: "fold store_put kvs m k = fold store_put kvs m' k" if "\<forall>k. k \<noteq> [] \<longrightarrow> m k = m' k" "k \<noteq> []" for k and m m' :: kv_map
    using that by (induction kvs arbitrary: m m') (simp_all add: store_put_def)
  have ids: "\<forall>x \<in> set (concat ?ess @ disk_versions tb e1). etranc x < t + 1"
  proof
    fix x assume "x \<in> set (concat ?ess @ disk_versions tb e1)"
    then have "x \<in> set ?xs \<or> x \<in> set (concat ess @ disk_versions tb e1)"
      using put_entries_subset [of ?xs "hd ess"] unfolding conc split by auto
    then show "etranc x < t + 1" using h(4,7) by (auto intro: less_trans)
  qed
  have "n + b * (4 * length (level_ids e1 0) + 2 * eng_cur_max_level e1) < 2 ^ 64"
  proof -
    have "b * (4 * length (level_ids e1 0) + 2 * eng_cur_max_level e1) \<le>
        Suc (b + sum_list (map write_cost kvs)) * (4 * length (level_ids e1 0) + 2 * eng_cur_max_level e1)"
      by (rule mult_le_mono1) simp
    then show ?thesis using h(11) by linarith
  qed
  then have "engine_holds v b (e1\<lparr>eng_memtable := mt\<rparr>) (fold store_put kvs m)"
    unfolding engine_holds_def
    using s h(2,3,6,9,10) ids new agree [OF h(8)]
    by (intro exI [of _ disk] exI [of _ tb] exI [of _ n] exI [of _ ?ess] exI [of _ tm]) simp
  with h(1) s(1) show ?thesis by simp
qed

lemma lsm_put_ok:
  assumes "engine_holds v (Suc (b + write_cost (k, x))) e m" and "k \<noteq> []"
  shows "\<exists>e'. LSM_put v r k x e = Inr e' \<and> engine_holds v b e' (store_put (k, x) m)"
  using lsm_write_ok [of v b "[(k, x)]" e m "Op_put k x" "Put k x" "\<lambda>_. r"] assms by (simp add: LSM_put_def)

lemma lsm_remove_ok:
  assumes "engine_holds v (Suc (b + write_cost (k, []))) e m" and "k \<noteq> []"
  shows "\<exists>e'. LSM_remove v r k e = Inr e' \<and> engine_holds v b e' (store_put (k, []) m)"
  using lsm_write_ok [of v b "[(k, [])]" e m "Op_remove k" "Remove k" "\<lambda>_. r"] assms by (simp add: LSM_remove_def)

lemma lsm_put_batch_ok:
  assumes "engine_holds v (Suc (b + sum_list (map write_cost kvs))) e m" and "\<forall>kx \<in> set kvs. fst kx \<noteq> []"
  shows "\<exists>e'. LSM_put_batch v r kvs e = Inr e' \<and> engine_holds v b e' (fold store_put kvs m)"
  using lsm_write_ok [OF assms, of "Op_put_batch kvs" "Put_batch kvs" r] by (simp add: LSM_put_batch_def)

lemma lsm_remove_batch_ok:
  assumes "engine_holds v (Suc (b + sum_list (map (\<lambda>k. write_cost (k, [])) ks))) e m" and "[] \<notin> set ks"
  shows "\<exists>e'. LSM_remove_batch v r ks e = Inr e' \<and> engine_holds v b e' (fold (\<lambda>k. store_put (k, [])) ks m)"
  using lsm_write_ok [of v b "map (\<lambda>k. (k, [])) ks" e m "Op_remove_batch ks" "Remove_batch ks" r] assms
  by (force simp: LSM_remove_batch_def comp_def fold_map)

interpretation lsm: kv_store "lsm_ops v ls rnd" "lsm_holds v" for v ls rnd
proof (unfold_locales, goal_cases)
  case (1 b s m k)
  then show ?case
    using lsm_get_ok [of v b "fst s" m k] by (cases s) (auto simp: lsm_ops_def lsm_holds_def)
next
  case (2 b k x s m)
  then show ?case
    using lsm_put_ok [of v b k x "fst s" m "rnd (snd s)"] by (cases s) (auto simp: lsm_ops_def lsm_holds_def)
next
  case (3 b k s m)
  then show ?case
    using lsm_remove_ok [of v b k "fst s" m "rnd (snd s)"] by (cases s) (auto simp: lsm_ops_def lsm_holds_def)
next
  case (4 b kvs s m)
  then show ?case
    using lsm_put_batch_ok [of v b kvs "fst s" m "\<lambda>j. rnd (snd s + j)"] by (cases s) (auto simp: lsm_ops_def lsm_holds_def)
next
  case (5 b ks s m)
  then show ?case
    using lsm_remove_batch_ok [of v b ks "fst s" m "\<lambda>j. rnd (snd s + j)"] by (cases s) (auto simp: lsm_ops_def lsm_holds_def)
qed

end
