(* ===== verification/TranProps.thy ===== *)
theory TranProps
  imports RedisStore
begin

text \<open>
  What the commit of a transaction promises under \<^verbatim>\<open>REPEATABLE_READ\<close> and \<^verbatim>\<open>SERIALIZABLE\<close>, where the code looks for
  conflicts: it refuses exactly when a version newer than the transaction exists for one of the keys it has
  written, and otherwise logs its records and then makes all its writes visible at once. The statements
  are about versions in the memtable: when a later transaction has been flushed, the check asks the tables,
  which report the id of the reader and never a conflict.
\<close>

section \<open>The parts of a commit\<close>

lemma set_context_keeps [simp]:
  "eng_memtable (set_context tc e) = eng_memtable e" "eng_store (set_context tc e) = eng_store e"
  by (simp_all add: set_context_def)

lemma ready_to_flush_keeps [simp]:
  "eng_memtable (ready_to_flush st t e) = eng_memtable e" "eng_store (ready_to_flush st t e) = eng_store e"
  by (simp_all add: ready_to_flush_def)

lemma manager_of_context:
  "eng_tran_manager (ready_to_flush st t (set_context tc e)) = Some tm' \<longleftrightarrow>
   (\<exists>tm. eng_tran_manager e = Some tm \<and> tm' = TranManager_add_ready_to_flush_tranc_id t st
      (tm\<lparr>tm_activeTrans := omap_put (tc_tranc_id tc) tc (tm_activeTrans tm)\<rparr>))"
  by (auto simp: ready_to_flush_def set_context_def)

text \<open>A version of a key that is newer than the transaction.\<close>

definition newer_version :: "entry list \<Rightarrow> u64 \<Rightarrow> string \<Rightarrow> bool" where
  "newer_version es t k = (case version_of k 0 es of None \<Rightarrow> False | Some x \<Rightarrow> t < etranc x)"

lemma conflict_loop_ok:
  assumes mt: "mt_repr (eng_memtable e) ess" and tm: "eng_tran_manager e = Some tm"
    and flushed: "tm_flushedTrancIds tm \<noteq> []" "last (tm_flushedTrancIds tm) \<le> t" and keys: "[] \<notin> fst ` set kvs"
  shows "conflict_loop v t kvs e = Inr (\<exists>kv \<in> set kvs. newer_version (concat ess) t (fst kv), e)"
  using keys
proof (induction kvs)
  case (Cons kv kvs)
  then have "fst kv \<noteq> []" by auto
  from memtable_get_repr [OF mt this, of 0] obtain i where
    i: "MemTable_get_unlocked (eng_memtable e) (fst kv) 0 = Inr i" "mt_shown i (version_of (fst kv) 0 (concat ess))"
    unfolding get_unlocked_eq by blast
  have "mt_iter_valid i = Inr (version_of (fst kv) 0 (concat ess) \<noteq> None)" using i(2) by (rule mt_shown_valid)
  moreover have "mt_iter_value i = Inr (evalue x, etranc x)" if "version_of (fst kv) 0 (concat ess) = Some x" for x
    using i(2) that by (simp add: mt_shown_value)
  moreover have "conflict_loop v t kvs e = Inr (\<exists>kv \<in> set kvs. newer_version (concat ess) t (fst kv), e)"
    using Cons by simp
  ultimately show ?case
    using i(1) tm flushed
    by (cases "version_of (fst kv) 0 (concat ess)")
      (auto simp: newer_version_def manager_at_def ptr_def TranManager_get_max_flushed_tranc_id_def)
qed simp

text \<open>In a sorted table the first version of a key is the newest one.\<close>

lemma first_version_newest:
  assumes "sorted_wrt (\<lambda>x y. node_less (version x) (version y)) es" and "version_of k 0 es = Some x" and "y \<in> set es" and "ekey y = k"
  shows "etranc y \<le> etranc x"
  using assms
proof (induction es)
  case (Cons z es)
  show ?case
  proof (cases "ekey z = k")
    case True
    then have "x = z" using Cons.prems(2) by (simp add: version_of_def visible_def)
    then show ?thesis using Cons.prems True by (auto simp: node_less_def version_def)
  next
    case False
    then show ?thesis using Cons by (auto simp: version_of_def)
  qed
qed simp

lemma fold_store_put_distinct:
  assumes "distinct (map fst kvs)"
  shows "fold store_put kvs m k = (case map_of kvs k of None \<Rightarrow> m k | Some x \<Rightarrow> if x = [] then None else Some x)"
  using assms
proof (induction kvs arbitrary: m)
  case (Cons kv kvs)
  then have "k = fst kv \<Longrightarrow> map_of kvs k = None" by (auto simp: map_of_eq_None_iff)
  with Cons show ?case by (auto simp: store_put_def split: option.split)
qed simp

text \<open>The writes of a transaction on a table without newer versions of its keys, and its marker.\<close>

definition commit_entries :: "u64 \<Rightarrow> (string \<times> string) list \<Rightarrow> entry list" where
  "commit_entries t kvs = map (\<lambda>(k, x). entry_of k x t) (kvs @ [([], [])])"

lemma apply_writes_ok:
  assumes "mt_repr (eng_memtable e) (es # fss)"
  shows "\<exists>m. apply_writes r kvs t e = Inr (e\<lparr>eng_memtable := m\<rparr>) \<and> mt_repr m (fold put_entry (commit_entries t kvs) es # fss)"
proof -
  obtain m1 where m1: "put_all r kvs t (eng_memtable e) = Inr m1"
    "mt_repr m1 (fold put_entry (map (\<lambda>(k, x). entry_of k x t) kvs) es # fss)"
    using put_all_repr [OF assms] by blast
  obtain m where "MemTable_put_unlocked (r (length kvs)) [] [] t m1 = Inr m"
    "mt_repr m (put_entry (entry_of [] [] t) (fold put_entry (map (\<lambda>(k, x). entry_of k x t) kvs) es) # fss)"
    using put_unlocked_repr [OF m1(2)] by blast
  with m1(1) show ?thesis by (intro exI [of _ m]) (simp add: apply_writes_def commit_entries_def)
qed

lemma commit_entries_values:
  assumes sorted: "sorted_wrt (\<lambda>x y. node_less (version x) (version y)) es" and dist: "distinct (map fst kvs)"
    and old: "\<forall>kv \<in> set kvs. \<not> newer_version (es @ vs) t (fst kv)" and k: "k \<noteq> []"
  shows "newest_value k 0 (fold put_entry (commit_entries t kvs) es @ vs) =
    (case map_of kvs k of None \<Rightarrow> newest_value k 0 (es @ vs) | Some x \<Rightarrow> if x = [] then None else Some x)"
proof -
  let ?new = "fold put_entry (map (\<lambda>(k, x). entry_of k x t) kvs) es"
  have le: "\<forall>y \<in> set es. ekey y \<in> fst ` set kvs \<longrightarrow> etranc y \<le> t"
  proof (intro ballI impI)
    fix y assume y: "y \<in> set es" "ekey y \<in> fst ` set kvs"
    then obtain x where x: "version_of (ekey y) 0 es = Some x"
      using version_of_None [of "ekey y" 0 es] by (cases "version_of (ekey y) 0 es") (auto simp: visible_def)
    then have "etranc x \<le> t" using old y(2) by (auto simp: newer_version_def version_of_append)
    then show "etranc y \<le> t" using first_version_newest [OF sorted x y(1)] by simp
  qed
  have "newest_value k 0 (put_entry (entry_of [] [] t) ?new @ vs) = newest_value k 0 (?new @ vs)"
    using k version_of_put_other [of k "entry_of [] [] t"] by (simp add: newest_value_def version_of_append)
  also have "\<dots> = fold store_put kvs (\<lambda>k. newest_value k 0 (es @ vs)) k"
    using newest_value_put_entries [OF le] .
  finally show ?thesis
    using fold_store_put_distinct [OF dist] by (simp add: commit_entries_def)
qed

lemma write_wal_ok:
  assumes "eng_tran_manager e = Some tm" and "tm_wal tm = Some w" and "wal_inv (st_fs (eng_store e)) w d n rss"
    and "\<forall>r \<in> set recs. record_ok r" and "n + 1 < 2 ^ 31"
  shows "\<exists>fs' w' n' rss'. write_wal recs e = Inr (e\<lparr>eng_store := (eng_store e)\<lparr>st_fs := fs'\<rparr>, eng_tran_manager := Some (tm\<lparr>tm_wal := Some w'\<rparr>)\<rparr>) \<and>
    wal_inv fs' w' d n' rss' \<and> log_buffer w' = [] \<and> concat rss' = concat rss @ log_buffer w @ recs"
proof -
  obtain fs' w' n' rss' where "WAL_log (st_fs (eng_store e)) w recs True = Inr (fs', w')" "wal_inv fs' w' d n' rss'"
    "concat rss' @ log_buffer w' = concat rss @ log_buffer w @ recs" "log_buffer w' = []"
    using WAL_log_inv [OF assms(3-5), of True] by blast
  with assms(1,2) show ?thesis
    by (intro exI [of _ fs'] exI [of _ w'] exI [of _ n'] exI [of _ rss'])
      (simp add: write_wal_def manager_at_def ptr_def TranManager_write_to_wal_def)
qed

section \<open>Commit\<close>

text \<open>A transaction that can be committed: its context, the log it writes to, and how far the tables reach.\<close>

definition committable :: "engine \<Rightarrow> u64 \<Rightarrow> tran_context \<Rightarrow> string \<Rightarrow> nat \<Rightarrow> wal_record list list \<Rightarrow> wal \<Rightarrow> bool" where
  "committable e t tc d n rss w \<longleftrightarrow>
     (\<exists>tm. eng_tran_manager e = Some tm \<and> map_of (tm_activeTrans tm) t = Some tc \<and> tc_tranc_id tc = t \<and>
        tm_flushedTrancIds tm \<noteq> [] \<and> last (tm_flushedTrancIds tm) \<le> t \<and> tm_wal tm = Some w) \<and>
     wal_inv (st_fs (eng_store e)) w d n rss \<and> n + 1 < 2 ^ 31 \<and> (\<forall>r \<in> set (tc_operations tc). record_ok r) \<and>
     distinct (map fst (tc_temp_map tc)) \<and> [] \<notin> fst ` set (tc_temp_map tc) \<and>
     tc_isolation_level tc \<in> {REPEATABLE_READ, SERIALIZABLE}"

text \<open>What the engine holds after a successful commit.\<close>

definition committed :: "engine \<Rightarrow> u64 \<Rightarrow> tran_context \<Rightarrow> string \<Rightarrow> entry list \<Rightarrow> entry list list \<Rightarrow> wal_record list \<Rightarrow> bool" where
  "committed e' t tc d es fss logged \<longleftrightarrow>
     (\<exists>es' tm w n rss. mt_repr (eng_memtable e') (es' # fss) \<and>
        (\<forall>k. k \<noteq> [] \<longrightarrow> newest_value k 0 (concat (es' # fss)) =
           (case map_of (tc_temp_map tc) k of
              None \<Rightarrow> newest_value k 0 (concat (es # fss)) | Some x \<Rightarrow> if x = [] then None else Some x)) \<and>
        eng_tran_manager e' = Some tm \<and> map_of (tm_readyToFlushTrancIds tm) t = Some OP_COMMITTED \<and>
        tm_wal tm = Some w \<and> wal_inv (st_fs (eng_store e')) w d n rss \<and> log_buffer w = [] \<and>
        concat rss = logged @ tc_operations tc @ [commitRecord t])"

lemma map_of_omap_put_same [simp]: "map_of (omap_put k x m) k = Some x"
  by (induction k x m rule: omap_put.induct) auto

lemma committable_parts:
  assumes "committable e t tc d n rss w"
  shows "\<exists>tm. eng_tran_manager e = Some tm \<and> context_at t e = Inr tc \<and> tc_tranc_id tc = t \<and> tm_flushedTrancIds tm \<noteq> [] \<and>
      last (tm_flushedTrancIds tm) \<le> t \<and> tm_wal tm = Some w"
    and "tc_isolation_level tc = REPEATABLE_READ \<or> tc_isolation_level tc = SERIALIZABLE"
    and "distinct (map fst (tc_temp_map tc))" and "[] \<notin> fst ` set (tc_temp_map tc)"
  using assms by (auto simp: committable_def context_at_def ptr_def)

lemma commit_without_conflict:
  assumes c: "committable e t tc d n rss w" and mt: "mt_repr (eng_memtable e) (es # fss)"
    and ord: "mset (ord (tc_temp_map tc)) = mset (tc_temp_map tc)"
    and no: "\<not> (\<exists>kv \<in> set (tc_temp_map tc). newer_version (concat (es # fss)) t (fst kv))"
    and loop: "conflict_loop v t (ord (tc_temp_map tc)) e = Inr (False, e)"
  shows "\<exists>e'. TranContext_commit v ord r False t e = Inr (True, e') \<and> committed e' t tc d es fss (concat rss @ log_buffer w)"
proof -
  let ?kvs = "ord (tc_temp_map tc)" and ?recs = "tc_operations tc @ [commitRecord t]"
  obtain tm where tm: "eng_tran_manager e = Some tm" "context_at t e = Inr tc" "tc_tranc_id tc = t" "tm_wal tm = Some w"
    using committable_parts(1) [OF c] by blast
  have wal: "wal_inv (st_fs (eng_store e)) w d n rss" "n + 1 < 2 ^ 31" "\<forall>r \<in> set ?recs. record_ok r"
    using c by (auto simp: committable_def commitRecord_def record_ok_def)
  have perm: "set ?kvs = set (tc_temp_map tc)" using ord by (rule mset_eq_setD)
  have dist: "distinct (map fst ?kvs)"
    using committable_parts(3) [OF c] ord by (metis distinct_count_atmost_1 mset_map set_map perm)
  have map: "map_of ?kvs = map_of (tc_temp_map tc)"
    using perm dist committable_parts(3) [OF c] by (simp add: map_of_inject_set)
  obtain fs' w' n' rss' where w: "write_wal ?recs e =
      Inr (e\<lparr>eng_store := (eng_store e)\<lparr>st_fs := fs'\<rparr>, eng_tran_manager := Some (tm\<lparr>tm_wal := Some w'\<rparr>)\<rparr>)"
    "wal_inv fs' w' d n' rss'" "log_buffer w' = []" "concat rss' = concat rss @ log_buffer w @ ?recs"
    using write_wal_ok [OF tm(1,4) wal(1,3,2)] by blast
  let ?e = "e\<lparr>eng_store := (eng_store e)\<lparr>st_fs := fs'\<rparr>, eng_tran_manager := Some (tm\<lparr>tm_wal := Some w'\<rparr>)\<rparr>"
  obtain m where m: "apply_writes r ?kvs t ?e = Inr (?e\<lparr>eng_memtable := m\<rparr>)"
    "mt_repr m (fold put_entry (commit_entries t ?kvs) es # fss)"
    using apply_writes_ok [of ?e es fss r ?kvs t] mt by auto
  let ?tc = "tc\<lparr>tc_operations := ?recs, tc_isCommited := True\<rparr>"
  have run: "TranContext_commit v ord r False t e =
      Inr (True, ready_to_flush OP_COMMITTED t (set_context ?tc (?e\<lparr>eng_memtable := m\<rparr>)))"
    using tm(2,3) loop committable_parts(2) [OF c] w(1) m(1)
    by (auto simp: TranContext_commit_def TranContext_get_isolation_level_def)
  have "sorted_wrt (\<lambda>x y. node_less (version x) (version y)) es"
    using mt sl_repr_sorted(1) by (auto simp: mt_repr_Cons)
  then have vals: "newest_value k 0 (concat (fold put_entry (commit_entries t ?kvs) es # fss)) =
      (case map_of (tc_temp_map tc) k of
         None \<Rightarrow> newest_value k 0 (concat (es # fss)) | Some x \<Rightarrow> if x = [] then None else Some x)" if "k \<noteq> []" for k
    using commit_entries_values [of es ?kvs "concat fss" t k] dist no that unfolding perm map concat.simps by blast
  have "committed (ready_to_flush OP_COMMITTED t (set_context ?tc (?e\<lparr>eng_memtable := m\<rparr>))) t tc d es fss (concat rss @ log_buffer w)"
    unfolding committed_def manager_of_context using m(2) vals w(2-4)
    by (intro exI [of _ "fold put_entry (commit_entries t ?kvs) es"] exI [of _ w'] exI [of _ n'] exI [of _ rss']
        exI [of _ "TranManager_add_ready_to_flush_tranc_id t OP_COMMITTED
          (tm\<lparr>tm_wal := Some w', tm_activeTrans := omap_put t ?tc (tm_activeTrans tm)\<rparr>)"])
      (simp add: TranManager_add_ready_to_flush_tranc_id_def tm(3))
  with run show ?thesis by blast
qed

text \<open>
  C8: the commit of a transaction under \<^verbatim>\<open>REPEATABLE_READ\<close> or \<^verbatim>\<open>SERIALIZABLE\<close>, when nothing newer has been flushed, whatever
  order the map of its writes is visited in and whatever levels the skip list rolls. It returns \<^verbatim>\<open>false\<close> exactly
  when the memtable holds a newer version of a key the transaction has written; then the contents stay as they
  are. Otherwise its records, with the commit record last, are in the files of the log, its id is recorded as
  committed, every key it has written reads as it wrote it, and every other key reads as before.
\<close>

theorem commit_correct:
  assumes "committable e t tc d n rss w" and "mt_repr (eng_memtable e) (es # fss)"
    and "mset (ord (tc_temp_map tc)) = mset (tc_temp_map tc)"
  shows "\<exists>e'. TranContext_commit v ord r False t e =
      Inr (\<not> (\<exists>kv \<in> set (tc_temp_map tc). newer_version (concat (es # fss)) t (fst kv)), e') \<and>
    (if \<exists>kv \<in> set (tc_temp_map tc). newer_version (concat (es # fss)) t (fst kv)
     then eng_memtable e' = eng_memtable e \<and> eng_store e' = eng_store e
     else committed e' t tc d es fss (concat rss @ log_buffer w))"
proof -
  let ?conflict = "\<exists>kv \<in> set (tc_temp_map tc). newer_version (concat (es # fss)) t (fst kv)"
  obtain tm where tm: "eng_tran_manager e = Some tm" "context_at t e = Inr tc" "tc_tranc_id tc = t"
    "tm_flushedTrancIds tm \<noteq> []" "last (tm_flushedTrancIds tm) \<le> t"
    using committable_parts(1) [OF assms(1)] by blast
  have perm: "set (ord (tc_temp_map tc)) = set (tc_temp_map tc)" using assms(3) by (rule mset_eq_setD)
  have loop: "conflict_loop v t (ord (tc_temp_map tc)) e = Inr (?conflict, e)"
    using conflict_loop_ok [OF assms(2) tm(1,4,5), of "ord (tc_temp_map tc)" v] committable_parts(4) [OF assms(1)]
    unfolding perm by simp
  show ?thesis
  proof (cases ?conflict)
    case True
    then show ?thesis
      using tm(2,3) loop committable_parts(2) [OF assms(1)]
      by (auto simp: TranContext_commit_def TranContext_get_isolation_level_def)
  next
    case False
    then have "conflict_loop v t (ord (tc_temp_map tc)) e = Inr (False, e)" using loop by simp
    from commit_without_conflict [where ord = ord and r = r, OF assms False this] False show ?thesis by auto
  qed
qed

theorem commit_correct_witness:
  "\<exists>(e :: engine) e' tc. tc_temp_map tc = [(''k'', ''v''), (''j'', [])] \<and>
    TranContext_commit sample_env (\<lambda>kvs. kvs) (\<lambda>_. (\<lambda>_. False, 0)) False 5 e = Inr (True, e') \<and> committed e' 5 tc ''d'' [] [] []"
proof -
  let ?tc = "\<lparr>tc_tranc_id = 5, tc_operations = [createRecord 5, putRecord 5 ''k'' ''v'', deleteRecord 5 ''j''],
     tc_temp_map = [(''k'', ''v''), (''j'', [])], tc_isCommited = False, tc_isAborted = False,
     tc_isolation_level = REPEATABLE_READ, tc_read_map = [], tc_rollback_map = []\<rparr>"
  have "fs_wf empty_fs" by (simp add: fs_wf_def empty_fs_def)
  then obtain fs w where w: "wal_inv fs w ''d'' 0 [[]]" "log_buffer w = []"
    using WAL_new_inv [of empty_fs "''d''" 128 0 4096] by blast
  obtain e0 :: engine where e0: "mt_repr (eng_memtable e0) [[]]"
    using sample_engine [of undefined] by (auto simp: eng_inv_def)
  let ?tm = "\<lparr>tm_wal = Some w, tm_data_dir = ''d'', tm_nextTransactionId = 6, tm_activeTrans = [(5, ?tc)],
     tm_readyToFlushTrancIds = [], tm_flushedTrancIds = [0], tm_tranc_id_file = \<lparr>fd = None, file_path = []\<rparr>\<rparr>"
  let ?e = "e0\<lparr>eng_tran_manager := Some ?tm, eng_store := (eng_store e0)\<lparr>st_fs := fs\<rparr>\<rparr>"
  have "committable ?e 5 ?tc ''d'' 0 [[]] w"
    using w(1) by (simp add: committable_def record_ok_def createRecord_def putRecord_def deleteRecord_def)
  moreover have "\<not> (\<exists>kv \<in> set (tc_temp_map ?tc). newer_version (concat [[]]) 5 (fst kv))"
    by (simp add: newer_version_def version_of_def)
  ultimately obtain e' where "TranContext_commit sample_env (\<lambda>kvs. kvs) (\<lambda>_. (\<lambda>_. False, 0)) False 5 ?e = Inr (True, e')"
    "committed e' 5 ?tc ''d'' [] [] (concat [[]] @ log_buffer w)"
    using commit_correct [of ?e 5 ?tc "''d''" 0 "[[]]" w "[]" "[]" "\<lambda>kvs. kvs" sample_env "\<lambda>_. (\<lambda>_. False, 0)"] e0
    by auto
  then show ?thesis
    using w(2) by (intro exI [of _ ?e] exI [of _ e'] exI [of _ ?tc]) simp
qed

end
