(* ===== verification/Server.thy ===== *)
theory Server
  imports Redis
begin

text \<open>
  The RESP front end, \<^verbatim>\<open>src/server/src/handler.cpp\<close> and \<^verbatim>\<open>src/server/src/server.cpp\<close>: the commands and their
  handlers, the parser of a request, and what a session does with the bytes it has received. The network
  library (asio) is not modelled: a session is a function of the content of its buffer, which
  \<^verbatim>\<open>async_read_until\<close> has filled at least to the first end of a line.
\<close>

section \<open>Commands\<close>

datatype OPS =
    OPS_PING | OPS_FLUSHALL | OPS_SAVE | OPS_GET | OPS_SET | OPS_DEL | OPS_INCR | OPS_DECR
  | OPS_EXPIRE | OPS_TTL | OPS_HSET | OPS_HGET | OPS_HDEL | OPS_HKEYS | OPS_LPUSH | OPS_RPUSH
  | OPS_LPOP | OPS_RPOP | OPS_LLEN | OPS_LRANGE | OPS_ZADD | OPS_ZREM | OPS_ZRANGE | OPS_ZCARD
  | OPS_ZSCORE | OPS_ZINCRBY | OPS_ZRANK | OPS_SADD | OPS_SREM | OPS_SISMEMBER | OPS_SCARD | OPS_SMEMBERS
  | OPS_UNKNOWN

text \<open>\<^verbatim>\<open>std::tolower\<close> in the C locale.\<close>

definition lower_char :: "char \<Rightarrow> char" where
  "lower_char c = (let n = of_char c :: nat in if 65 \<le> n \<and> n \<le> 90 then char_of (n + 32) else c)"

definition toLower :: "string \<Rightarrow> string" where
  "toLower s = map lower_char s"

definition getOpsMap :: "(string \<times> OPS) list" where
  "getOpsMap = [
     (''ping'', OPS_PING), (''flushall'', OPS_FLUSHALL), (''save'', OPS_SAVE), (''get'', OPS_GET),
     (''set'', OPS_SET), (''del'', OPS_DEL), (''incr'', OPS_INCR), (''decr'', OPS_DECR),
     (''expire'', OPS_EXPIRE), (''ttl'', OPS_TTL), (''hset'', OPS_HSET), (''hget'', OPS_HGET),
     (''hdel'', OPS_HDEL), (''hkeys'', OPS_HKEYS), (''rpush'', OPS_RPUSH), (''lpush'', OPS_LPUSH),
     (''rpop'', OPS_RPOP), (''lpop'', OPS_LPOP), (''llen'', OPS_LLEN), (''lrange'', OPS_LRANGE),
     (''zadd'', OPS_ZADD), (''zcard'', OPS_ZCARD), (''zincrby'', OPS_ZINCRBY), (''zrange'', OPS_ZRANGE),
     (''zrank'', OPS_ZRANK), (''zrem'', OPS_ZREM), (''zscore'', OPS_ZSCORE), (''sadd'', OPS_SADD),
     (''scard'', OPS_SCARD), (''smembers'', OPS_SMEMBERS), (''srem'', OPS_SREM), (''sismember'', OPS_SISMEMBER)]"

definition string2Ops :: "string \<Rightarrow> OPS" where
  "string2Ops opStr = (case map_of getOpsMap (toLower opStr) of None \<Rightarrow> OPS_UNKNOWN | Some op \<Rightarrow> op)"

section \<open>Handlers\<close>

definition flushall_handler :: "('s, 'i) kv_ops \<Rightarrow> ('s, string) prog" where
  "flushall_handler ops = andThen (RedisWrapper_clear ops) (\<lambda>_. ret ok_reply)"

definition save_handler :: "('s, 'i) kv_ops \<Rightarrow> ('s, string) prog" where
  "save_handler ops = andThen (RedisWrapper_flushall ops) (\<lambda>_. ret ok_reply)"

definition set_handler :: "redis_env \<Rightarrow> ('s, 'i) kv_ops \<Rightarrow> int \<Rightarrow> string list \<Rightarrow> ('s, string) prog" where
  "set_handler c ops now args =
     (if length args \<noteq> 3 then ret (arity_error ''SET'') else RedisWrapper_set c ops args)"

definition get_handler :: "redis_env \<Rightarrow> ('s, 'i) kv_ops \<Rightarrow> int \<Rightarrow> string list \<Rightarrow> ('s, string) prog" where
  "get_handler c ops now args =
     (if length args \<noteq> 2 then ret (arity_error ''GET'') else RedisWrapper_get c ops now args)"

definition del_handler :: "redis_env \<Rightarrow> ('s, 'i) kv_ops \<Rightarrow> int \<Rightarrow> string list \<Rightarrow> ('s, string) prog" where
  "del_handler c ops now args =
     (if length args < 2 then ret (arity_error ''DEL'') else RedisWrapper_del c ops args)"

definition incr_handler :: "redis_env \<Rightarrow> ('s, 'i) kv_ops \<Rightarrow> int \<Rightarrow> string list \<Rightarrow> ('s, string) prog" where
  "incr_handler c ops now args =
     (if length args \<noteq> 2 then ret (arity_error ''INCR'') else andThen (RedisWrapper_incr ops args) (\<lambda>res. ret ('':'' @ res @ crlf)))"

definition decr_handler :: "redis_env \<Rightarrow> ('s, 'i) kv_ops \<Rightarrow> int \<Rightarrow> string list \<Rightarrow> ('s, string) prog" where
  "decr_handler c ops now args =
     (if length args \<noteq> 2 then ret (arity_error ''DECR'') else andThen (RedisWrapper_decr ops args) (\<lambda>res. ret ('':'' @ res @ crlf)))"

definition expire_handler :: "redis_env \<Rightarrow> ('s, 'i) kv_ops \<Rightarrow> int \<Rightarrow> string list \<Rightarrow> ('s, string) prog" where
  "expire_handler c ops now args =
     (if length args \<noteq> 3 then ret (arity_error ''EXPIRE'') else RedisWrapper_expire c ops now args)"

definition ttl_handler :: "redis_env \<Rightarrow> ('s, 'i) kv_ops \<Rightarrow> int \<Rightarrow> string list \<Rightarrow> ('s, string) prog" where
  "ttl_handler c ops now args =
     (if length args \<noteq> 2 then ret (arity_error ''TTL'') else RedisWrapper_ttl c ops now args)"

definition hset_handler :: "redis_env \<Rightarrow> ('s, 'i) kv_ops \<Rightarrow> int \<Rightarrow> string list \<Rightarrow> ('s, string) prog" where
  "hset_handler c ops now args =
     (if length args < 4 then ret (arity_error ''HSET'') else RedisWrapper_hset c ops now args)"

definition hget_handler :: "redis_env \<Rightarrow> ('s, 'i) kv_ops \<Rightarrow> int \<Rightarrow> string list \<Rightarrow> ('s, string) prog" where
  "hget_handler c ops now args =
     (if length args \<noteq> 3 then ret (arity_error ''HGET'') else RedisWrapper_hget c ops now args)"

definition hdel_handler :: "redis_env \<Rightarrow> ('s, 'i) kv_ops \<Rightarrow> int \<Rightarrow> string list \<Rightarrow> ('s, string) prog" where
  "hdel_handler c ops now args =
     (if length args \<noteq> 3 then ret (arity_error ''HDEL'') else RedisWrapper_hdel c ops now args)"

definition hkeys_handler :: "redis_env \<Rightarrow> ('s, 'i) kv_ops \<Rightarrow> int \<Rightarrow> string list \<Rightarrow> ('s, string) prog" where
  "hkeys_handler c ops now args =
     (if length args \<noteq> 2 then ret (arity_error ''HKEYS'') else RedisWrapper_hkeys c ops now args)"

definition lpush_handler :: "redis_env \<Rightarrow> ('s, 'i) kv_ops \<Rightarrow> int \<Rightarrow> string list \<Rightarrow> ('s, string) prog" where
  "lpush_handler c ops now args =
     (if length args \<noteq> 3 then ret (arity_error ''LPUSH'') else RedisWrapper_lpush c ops now args)"

definition rpush_handler :: "redis_env \<Rightarrow> ('s, 'i) kv_ops \<Rightarrow> int \<Rightarrow> string list \<Rightarrow> ('s, string) prog" where
  "rpush_handler c ops now args =
     (if length args \<noteq> 3 then ret (arity_error ''RPUSH'') else RedisWrapper_rpush c ops now args)"

definition lpop_handler :: "redis_env \<Rightarrow> ('s, 'i) kv_ops \<Rightarrow> int \<Rightarrow> string list \<Rightarrow> ('s, string) prog" where
  "lpop_handler c ops now args =
     (if length args \<noteq> 2 then ret (arity_error ''LPOP'') else RedisWrapper_lpop c ops now args)"

definition rpop_handler :: "redis_env \<Rightarrow> ('s, 'i) kv_ops \<Rightarrow> int \<Rightarrow> string list \<Rightarrow> ('s, string) prog" where
  "rpop_handler c ops now args =
     (if length args \<noteq> 2 then ret (arity_error ''RPOP'') else RedisWrapper_rpop c ops now args)"

definition llen_handler :: "redis_env \<Rightarrow> ('s, 'i) kv_ops \<Rightarrow> int \<Rightarrow> string list \<Rightarrow> ('s, string) prog" where
  "llen_handler c ops now args =
     (if length args \<noteq> 3 then ret (arity_error ''LLEN'') else RedisWrapper_llen c ops now args)"

definition lrange_handler :: "redis_env \<Rightarrow> ('s, 'i) kv_ops \<Rightarrow> int \<Rightarrow> string list \<Rightarrow> ('s, string) prog" where
  "lrange_handler c ops now args =
     (if length args \<noteq> 4 then ret (arity_error ''LRANGE'') else RedisWrapper_lrange c ops now args)"

definition zadd_handler :: "redis_env \<Rightarrow> ('s, 'i) kv_ops \<Rightarrow> int \<Rightarrow> string list \<Rightarrow> ('s, string) prog" where
  "zadd_handler c ops now args =
     (if length args < 4 \<or> (length args - 2) mod 2 \<noteq> 0 then ret (arity_error ''zadd'') else RedisWrapper_zadd c ops now args)"

definition zrem_handler :: "redis_env \<Rightarrow> ('s, 'i) kv_ops \<Rightarrow> int \<Rightarrow> string list \<Rightarrow> ('s, string) prog" where
  "zrem_handler c ops now args =
     (if length args < 3 then ret (arity_error ''zrem'') else RedisWrapper_zrem c ops now args)"

definition zrange_handler :: "redis_env \<Rightarrow> ('s, 'i) kv_ops \<Rightarrow> int \<Rightarrow> string list \<Rightarrow> ('s, string) prog" where
  "zrange_handler c ops now args =
     (if length args < 4 then ret (arity_error ''zrange'') else RedisWrapper_zrange c ops now args)"

definition zcard_handler :: "redis_env \<Rightarrow> ('s, 'i) kv_ops \<Rightarrow> int \<Rightarrow> string list \<Rightarrow> ('s, string) prog" where
  "zcard_handler c ops now args =
     (if length args \<noteq> 2 then ret (arity_error ''zcard'') else RedisWrapper_zcard c ops now args)"

definition zscore_handler :: "redis_env \<Rightarrow> ('s, 'i) kv_ops \<Rightarrow> int \<Rightarrow> string list \<Rightarrow> ('s, string) prog" where
  "zscore_handler c ops now args =
     (if length args \<noteq> 3 then ret (arity_error ''zscore'') else RedisWrapper_zscore c ops now args)"

definition zincrby_handler :: "redis_env \<Rightarrow> ('s, 'i) kv_ops \<Rightarrow> int \<Rightarrow> string list \<Rightarrow> ('s, string) prog" where
  "zincrby_handler c ops now args =
     (if length args \<noteq> 4 then ret (arity_error ''zincrby'') else RedisWrapper_zincrby c ops now args)"

definition zrank_handler :: "redis_env \<Rightarrow> ('s, 'i) kv_ops \<Rightarrow> int \<Rightarrow> string list \<Rightarrow> ('s, string) prog" where
  "zrank_handler c ops now args =
     (if length args \<noteq> 3 then ret (arity_error ''zrank'') else RedisWrapper_zrank c ops now args)"

definition sadd_handler :: "redis_env \<Rightarrow> ('s, 'i) kv_ops \<Rightarrow> int \<Rightarrow> string list \<Rightarrow> ('s, string) prog" where
  "sadd_handler c ops now args =
     (if length args < 3 then ret (arity_error ''sadd'') else RedisWrapper_sadd c ops now args)"

definition srem_handler :: "redis_env \<Rightarrow> ('s, 'i) kv_ops \<Rightarrow> int \<Rightarrow> string list \<Rightarrow> ('s, string) prog" where
  "srem_handler c ops now args =
     (if length args < 3 then ret (arity_error ''srem'') else RedisWrapper_srem c ops now args)"

definition sismember_handler :: "redis_env \<Rightarrow> ('s, 'i) kv_ops \<Rightarrow> int \<Rightarrow> string list \<Rightarrow> ('s, string) prog" where
  "sismember_handler c ops now args =
     (if length args \<noteq> 3 then ret (arity_error ''sismember'') else RedisWrapper_sismember c ops now args)"

definition scard_handler :: "redis_env \<Rightarrow> ('s, 'i) kv_ops \<Rightarrow> int \<Rightarrow> string list \<Rightarrow> ('s, string) prog" where
  "scard_handler c ops now args =
     (if length args \<noteq> 2 then ret (arity_error ''scard'') else RedisWrapper_scard c ops now args)"

definition smembers_handler :: "redis_env \<Rightarrow> ('s, 'i) kv_ops \<Rightarrow> int \<Rightarrow> string list \<Rightarrow> ('s, string) prog" where
  "smembers_handler c ops now args =
     (if length args \<noteq> 2 then ret (arity_error ''smembers'') else RedisWrapper_smembers c ops now args)"

section \<open>Requests\<close>

text \<open>
  \<^verbatim>\<open>request.find('\n', pos)\<close> in an \<^verbatim>\<open>int\<close>, which makes \<open>- 1\<close> of \<^verbatim>\<open>npos\<close>, and the position after it in a \<^verbatim>\<open>size_t\<close>.
\<close>

definition find_nl :: "string \<Rightarrow> nat \<Rightarrow> int" where
  "find_nl request pos =
     (let s = drop pos request; n = length (takeWhile (\<lambda>c. c \<noteq> CHR 0x0A) s) in
      if n < length s then as_int (int (pos + n)) else - 1)"

definition after_nl :: "int \<Rightarrow> nat" where
  "after_nl next_n_pos = nat ((next_n_pos + 1) mod 2 ^ 64)"

text \<open>The end of the first line is computed in a \<^verbatim>\<open>size_t\<close> throughout: \<^verbatim>\<open>npos + 1\<close> is 0.\<close>

definition first_line_end :: "string \<Rightarrow> nat" where
  "first_line_end request =
     (let n = length (takeWhile (\<lambda>c. c \<noteq> CHR 0x0A) request) in
      if n < length request then (n + 1) mod 2 ^ 64 else 0)"

definition protocol_error :: "string \<Rightarrow> string" where
  "protocol_error what = ''-ERR Protocol error: '' @ what @ crlf"

text \<open>The words of a request, or the reply to a malformed one.\<close>

primrec parse_args :: "nat \<Rightarrow> string \<Rightarrow> nat \<Rightarrow> string list \<Rightarrow> (string + string list) result" where
  "parse_args 0 request pos args = Inr (Inr args)"
| "parse_args (Suc n) request pos args =
     (if length request \<le> pos \<or> request ! pos \<noteq> CHR ''$'' then Inr (Inl (protocol_error (''expected '' @ [CHR 0x27] @ ''$'' @ [CHR 0x27])))
      else
        case stoi (drop (pos + 1) request) of
          Inl _ \<Rightarrow> Inr (Inl (protocol_error ''invalid bulk string length''))
        | Inr len \<Rightarrow>
            let pos = after_nl (find_nl request pos) in
            if int (length request) < (int pos + len) mod 2 ^ 64
            then Inr (Inl (protocol_error ''bulk string length exceeds request size''))
            else if length request < pos then Inl (Out_of_range ''basic_string::substr'')
            else
              parse_args n request (after_nl (find_nl request pos))
                (args @ [take (nat (len mod 2 ^ 64)) (drop pos request)]))"

definition run_command :: "redis_env \<Rightarrow> ('s, 'i) kv_ops \<Rightarrow> int \<Rightarrow> string list \<Rightarrow> ('s, string) prog" where
  "run_command c ops now args =
     andThen (runE (arg args 0)) (\<lambda>name.
       case string2Ops name of
         OPS_PING \<Rightarrow> ret (''+PONG'' @ crlf)
       | OPS_FLUSHALL \<Rightarrow> flushall_handler ops
       | OPS_SAVE \<Rightarrow> save_handler ops
       | OPS_SET \<Rightarrow> set_handler c ops now args
       | OPS_GET \<Rightarrow> get_handler c ops now args
       | OPS_DEL \<Rightarrow> del_handler c ops now args
       | OPS_INCR \<Rightarrow> incr_handler c ops now args
       | OPS_DECR \<Rightarrow> decr_handler c ops now args
       | OPS_EXPIRE \<Rightarrow> expire_handler c ops now args
       | OPS_TTL \<Rightarrow> ttl_handler c ops now args
       | OPS_HSET \<Rightarrow> hset_handler c ops now args
       | OPS_HGET \<Rightarrow> hget_handler c ops now args
       | OPS_HDEL \<Rightarrow> hdel_handler c ops now args
       | OPS_HKEYS \<Rightarrow> hkeys_handler c ops now args
       | OPS_LPUSH \<Rightarrow> lpush_handler c ops now args
       | OPS_RPUSH \<Rightarrow> rpush_handler c ops now args
       | OPS_LPOP \<Rightarrow> lpop_handler c ops now args
       | OPS_RPOP \<Rightarrow> rpop_handler c ops now args
       | OPS_LLEN \<Rightarrow> llen_handler c ops now args
       | OPS_LRANGE \<Rightarrow> lrange_handler c ops now args
       | OPS_ZADD \<Rightarrow> zadd_handler c ops now args
       | OPS_ZREM \<Rightarrow> zrem_handler c ops now args
       | OPS_ZRANGE \<Rightarrow> zrange_handler c ops now args
       | OPS_ZCARD \<Rightarrow> zcard_handler c ops now args
       | OPS_ZSCORE \<Rightarrow> zscore_handler c ops now args
       | OPS_ZINCRBY \<Rightarrow> zincrby_handler c ops now args
       | OPS_ZRANK \<Rightarrow> zrank_handler c ops now args
       | OPS_SADD \<Rightarrow> sadd_handler c ops now args
       | OPS_SREM \<Rightarrow> srem_handler c ops now args
       | OPS_SISMEMBER \<Rightarrow> sismember_handler c ops now args
       | OPS_SCARD \<Rightarrow> scard_handler c ops now args
       | OPS_SMEMBERS \<Rightarrow> smembers_handler c ops now args
       | OPS_UNKNOWN \<Rightarrow> ret (''-ERR unknown command '' @ [CHR 0x27] @ name @ [CHR 0x27] @ crlf))"

definition handleRequest :: "redis_env \<Rightarrow> ('s, 'i) kv_ops \<Rightarrow> int \<Rightarrow> string \<Rightarrow> ('s, string) prog" where
  "handleRequest c ops now request =
     (if request = [] then ret (protocol_error (''expected '' @ [CHR 0x27] @ ''*'' @ [CHR 0x27]))
      else if request = ''PING'' @ crlf then ret (''+PONG'' @ crlf)
      else
        case stoi (drop 1 request) of
          Inl _ \<Rightarrow> ret (protocol_error ''invalid number of elements'')
        | Inr numElements \<Rightarrow>
            andThen (runE (parse_args (nat numElements) request (first_line_end request) [])) (\<lambda>parsed.
              case parsed of Inl reply \<Rightarrow> ret reply | Inr args \<Rightarrow> run_command c ops now args))"

section \<open>Sessions\<close>

definition getline :: "string \<Rightarrow> string \<times> string" where
  "getline b = (takeWhile (\<lambda>c. c \<noteq> CHR 0x0A) b, tl (dropWhile (\<lambda>c. c \<noteq> CHR 0x0A) b))"

text \<open>The lines of the request; \<open>None\<close> when the buffer runs empty.\<close>

primrec read_lines :: "nat \<Rightarrow> string \<Rightarrow> string \<Rightarrow> string option \<times> string" where
  "read_lines 0 full_request b = (Some full_request, b)"
| "read_lines (Suc n) full_request b =
     (if b = [] then (None, b)
      else let (line, b) = getline b in read_lines n (full_request @ line @ crlf) b)"

text \<open>One round of a session: the reply and what is left in the buffer.\<close>

definition do_read :: "redis_env \<Rightarrow> ('s, 'i) kv_ops \<Rightarrow> int \<Rightarrow> string \<Rightarrow> ('s, string \<times> string) prog" where
  "do_read c ops now b =
     (let (line, b) = getline b; request_line = line @ crlf in
      if request_line = ''PING'' @ crlf then ret (''+PONG'' @ crlf, b)
      else if length request_line < 2 \<or> hd request_line \<noteq> CHR ''*''
      then ret (protocol_error (''expected '' @ [CHR 0x27] @ ''*'' @ [CHR 0x27]), b)
      else
        case stoi (drop 1 request_line) of
          Inl _ \<Rightarrow> ret (protocol_error ''invalid number of elements'', b)
        | Inr numElements \<Rightarrow>
            andThen (runE (checked_int (numElements * 2))) (\<lambda>n.
              case read_lines (nat n) request_line b of
                (None, b) \<Rightarrow> ret (protocol_error ''partial request received'', b)
              | (Some full_request, b) \<Rightarrow> andThen (handleRequest c ops now full_request) (\<lambda>response. ret (response, b))))"

end
