(* ===== verification/RedisRefine.thy ===== *)
theory RedisRefine
  imports RedisStore Server
begin

text \<open>
  The Redis commands on a store that keeps the contract \<open>kv_store\<close>: whatever a command does on the map, it
  does on the store, at the cost the map has counted. The proof follows the text of the commands: a rule
  for every way to put programs together (\<open>sim_rules\<close>), one for every operation of the store, and an
  induction for every loop. Commands that need a range query, \<^verbatim>\<open>FLUSHALL\<close> and \<^verbatim>\<open>SAVE\<close> are outside of the
  specification.
\<close>

named_theorems sim_rules
named_theorems command_defs

section \<open>Simulation\<close>

definition simulates ::
  "(nat \<Rightarrow> 's \<Rightarrow> kv_map \<Rightarrow> bool) \<Rightarrow> ('s, 'a) prog \<Rightarrow> (kv_map \<times> nat, 'a) prog \<Rightarrow> bool" where
  "simulates holds p q \<longleftrightarrow>
     (\<forall>m c x m' c'. q (m, c) = Inr (x, (m', c')) \<longrightarrow>
        c \<le> c' \<and> (\<forall>b s. holds (b + (c' - c)) s m \<longrightarrow> (\<exists>s'. p s = Inr (x, s') \<and> holds b s' m')))"

lemma sim_ret [sim_rules]: "simulates holds (ret x) (ret x)"
  by (simp add: simulates_def ret_def)

lemma sim_runE [sim_rules]: "simulates holds (runE r) (runE r)"
  by (cases r) (simp_all add: simulates_def runE_def)

lemma sim_fail: "(\<And>s. \<exists>e. q s = Inl e) \<Longrightarrow> simulates holds p q"
  unfolding simulates_def by (metis Inl_Inr_False)

lemma sim_andThen [sim_rules]:
  assumes p: "simulates holds p q" and f: "\<And>x. simulates holds (f x) (g x)"
  shows "simulates holds (andThen p f) (andThen q g)"
  unfolding simulates_def
proof (intro allI impI)
  fix m c x m' c'
  assume "andThen q g (m, c) = Inr (x, (m', c'))"
  then obtain y m1 c1 where q: "q (m, c) = Inr (y, (m1, c1))" "g y (m1, c1) = Inr (x, (m', c'))"
    by (auto simp: andThen_def bindE_eq_Inr)
  have 1: "c \<le> c1" "\<And>b s. holds (b + (c1 - c)) s m \<Longrightarrow> \<exists>s'. p s = Inr (y, s') \<and> holds b s' m1"
    using p q(1) unfolding simulates_def by blast+
  have 2: "c1 \<le> c'" "\<And>b s. holds (b + (c' - c1)) s m1 \<Longrightarrow> \<exists>s'. f y s = Inr (x, s') \<and> holds b s' m'"
    using f [of y] q(2) unfolding simulates_def by blast+
  show "c \<le> c' \<and> (\<forall>b s. holds (b + (c' - c)) s m \<longrightarrow> (\<exists>s'. andThen p f s = Inr (x, s') \<and> holds b s' m'))"
  proof (intro conjI allI impI)
    fix b s
    assume "holds (b + (c' - c)) s m"
    then have "holds ((b + (c' - c1)) + (c1 - c)) s m" using 1(1) 2(1) by simp
    with 1(2) obtain s1 where s1: "p s = Inr (y, s1)" "holds (b + (c' - c1)) s1 m1" by blast
    with 2(2) obtain s' where "f y s1 = Inr (x, s')" "holds b s' m'" by blast
    with s1(1) show "\<exists>s'. andThen p f s = Inr (x, s') \<and> holds b s' m'" by (simp add: andThen_def)
  qed (use 1(1) 2(1) in simp)
qed

lemma sim_if [sim_rules]:
  "simulates holds p q \<Longrightarrow> simulates holds p' q' \<Longrightarrow> simulates holds (if b then p else p') (if b then q else q')"
  by simp

lemma sim_option [sim_rules]:
  "simulates holds p q \<Longrightarrow> (\<And>x. simulates holds (f x) (g x)) \<Longrightarrow>
   simulates holds (case o' of None \<Rightarrow> p | Some x \<Rightarrow> f x) (case o' of None \<Rightarrow> q | Some x \<Rightarrow> g x)"
  by (cases o') simp_all

lemma sim_prod [sim_rules]:
  "(\<And>a b. simulates holds (f a b) (g a b)) \<Longrightarrow>
   simulates holds (case z of (a, b) \<Rightarrow> f a b) (case z of (a, b) \<Rightarrow> g a b)"
  by (cases z) simp

lemma sim_sum [sim_rules]:
  "(\<And>a. simulates holds (f a) (g a)) \<Longrightarrow> (\<And>b. simulates holds (f' b) (g' b)) \<Longrightarrow>
   simulates holds (case z of Inl a \<Rightarrow> f a | Inr b \<Rightarrow> f' b) (case z of Inl a \<Rightarrow> g a | Inr b \<Rightarrow> g' b)"
  by (cases z) simp_all

text \<open>A range query fails on the map, whatever follows.\<close>

lemma sim_range [sim_rules]: "simulates holds p (andThen (kv_range map_ops pr) g)"
  by (rule sim_fail) (simp add: andThen_def map_ops_def)

lemma sim_clear [sim_rules]: "simulates holds p (kv_clear map_ops)"
  by (rule sim_fail) (simp add: map_ops_def)

lemma sim_flush [sim_rules]: "simulates holds p (kv_flush map_ops)"
  by (rule sim_fail) (simp add: map_ops_def)

section \<open>The operations of the store\<close>

context kv_store
begin

lemma sim_get [sim_rules]: "simulates holds (kv_get ops k) (kv_get map_ops k)"
  using get_ok by (auto simp: simulates_def map_ops_def split: if_splits)

lemma sim_put [sim_rules]: "simulates holds (kv_put ops k x) (kv_put map_ops k x)"
  using put_ok by (auto simp: simulates_def map_ops_def map_write_def split: if_splits)

lemma sim_remove [sim_rules]: "simulates holds (kv_remove ops k) (kv_remove map_ops k)"
  using remove_ok by (auto simp: simulates_def map_ops_def map_write_def split: if_splits)

lemma sim_put_batch [sim_rules]: "simulates holds (kv_put_batch ops kvs) (kv_put_batch map_ops kvs)"
  using put_batch_ok by (auto simp: simulates_def map_ops_def map_write_def split: if_splits)

lemma sim_remove_batch [sim_rules]: "simulates holds (kv_remove_batch ops ks) (kv_remove_batch map_ops ks)"
  using remove_batch_ok
  by (auto simp: simulates_def map_ops_def map_write_def comp_def fold_map image_iff split: if_splits)

end

section \<open>The commands\<close>

context kv_store
begin

lemma sim_loops [sim_rules]:
  shows "simulates holds (remove_each ops ks) (remove_each map_ops ks)"
    and "simulates holds (present_keys ops b ks) (present_keys map_ops b ks)"
    and "simulates holds (zrem_loop c ops key ks i) (zrem_loop c map_ops key ks i)"
  by (induction ks arbitrary: i) (auto simp: Let_def intro!: sim_rules)

lemma sim_remove_range [sim_rules]:
  shows "simulates holds (remove_range c ops preffix) (remove_range c map_ops preffix)"
  unfolding remove_range_def Let_def
  by (intro sim_rules)+

lemma sim_expire_clean [sim_rules]:
  shows "simulates holds (expire_hash_clean c ops now key) (expire_hash_clean c map_ops now key)"
    and "simulates holds (expire_list_clean c ops now key) (expire_list_clean c map_ops now key)"
    and "simulates holds (expire_zset_clean c ops now key) (expire_zset_clean c map_ops now key)"
    and "simulates holds (expire_set_clean c ops now key) (expire_set_clean c map_ops now key)"
  unfolding expire_hash_clean_def expire_list_clean_def expire_zset_clean_def expire_set_clean_def Let_def
  by (intro sim_rules)+

lemma sim_drop_expiry [sim_rules]:
  shows "simulates holds (drop_expiry c ops key) (drop_expiry c map_ops key)"
  unfolding drop_expiry_def Let_def
  by (intro sim_rules)+

lemma sim_del_loop [sim_rules]: "simulates holds (del_loop c ops ks i) (del_loop c map_ops ks i)"
  by (induction ks arbitrary: i) (auto intro!: sim_rules)

lemma sim_hset_loop [sim_rules]: "simulates holds (hset_loop c ops key fvs fs ex i) (hset_loop c map_ops key fvs fs ex i)"
  by (induction fvs arbitrary: fs ex i) (auto intro!: sim_rules)

lemma sim_zadd_loop [sim_rules]:
  "simulates holds (zadd_loop c ops key xs kvs ks i) (zadd_loop c map_ops key xs kvs ks i)"
  by (induction xs arbitrary: kvs ks i rule: induct_list012) (auto simp: Let_def intro!: sim_rules)

lemma sim_strings [sim_rules]:
  shows "simulates holds (redis_incr ops key) (redis_incr map_ops key)"
    and "simulates holds (redis_decr ops key) (redis_decr map_ops key)"
    and "simulates holds (redis_expire c ops now key seconds_count) (redis_expire c map_ops now key seconds_count)"
    and "simulates holds (redis_set c ops key val) (redis_set c map_ops key val)"
    and "simulates holds (redis_get c ops now key) (redis_get c map_ops now key)"
    and "simulates holds (redis_ttl c ops now key) (redis_ttl c map_ops now key)"
    and "simulates holds (redis_del c ops args) (redis_del c map_ops args)"
  unfolding redis_incr_def redis_decr_def redis_expire_def redis_set_def redis_get_def redis_ttl_def redis_del_def Let_def
  by (intro sim_rules)+

lemma sim_hashes [sim_rules]:
  shows "simulates holds (redis_hset_batch c ops now key field_value_pairs) (redis_hset_batch c map_ops now key field_value_pairs)"
    and "simulates holds (redis_hget c ops now key field) (redis_hget c map_ops now key field)"
    and "simulates holds (redis_hdel c ops now key field) (redis_hdel c map_ops now key field)"
    and "simulates holds (redis_hkeys c ops now key) (redis_hkeys c map_ops now key)"
  unfolding redis_hset_batch_def redis_hget_def redis_hdel_def redis_hkeys_def Let_def
  by (intro sim_rules)+

lemma sim_store_list [sim_rules]:
  shows "simulates holds (store_list c ops key elements) (store_list c map_ops key elements)"
  unfolding store_list_def Let_def
  by (intro sim_rules)+

lemma sim_lists [sim_rules]:
  shows "simulates holds (redis_lpush c ops now key val) (redis_lpush c map_ops now key val)"
    and "simulates holds (redis_rpush c ops now key val) (redis_rpush c map_ops now key val)"
    and "simulates holds (redis_lpop c ops now key) (redis_lpop c map_ops now key)"
    and "simulates holds (redis_rpop c ops now key) (redis_rpop c map_ops now key)"
    and "simulates holds (redis_llen c ops now key) (redis_llen c map_ops now key)"
    and "simulates holds (redis_lrange c ops now key start stop) (redis_lrange c map_ops now key start stop)"
  unfolding redis_lpush_def redis_rpush_def redis_lpop_def redis_rpop_def redis_llen_def redis_lrange_def Let_def
  by (intro sim_rules)+

lemma sim_zsets [sim_rules]:
  shows "simulates holds (redis_zadd c ops now args) (redis_zadd c map_ops now args)"
    and "simulates holds (redis_zrem c ops now args) (redis_zrem c map_ops now args)"
    and "simulates holds (redis_zrange c ops now args) (redis_zrange c map_ops now args)"
    and "simulates holds (redis_zcard c ops now key) (redis_zcard c map_ops now key)"
    and "simulates holds (redis_zscore c ops now key elem) (redis_zscore c map_ops now key elem)"
    and "simulates holds (redis_zincrby c ops now key increment elem) (redis_zincrby c map_ops now key increment elem)"
    and "simulates holds (redis_zrank c ops now key elem) (redis_zrank c map_ops now key elem)"
  unfolding redis_zadd_def redis_zrem_def redis_zrange_def redis_zcard_def redis_zscore_def redis_zincrby_def redis_zrank_def Let_def
  by (intro sim_rules)+

lemma sim_sets [sim_rules]:
  shows "simulates holds (redis_sadd c ops now args) (redis_sadd c map_ops now args)"
    and "simulates holds (redis_srem c ops now args) (redis_srem c map_ops now args)"
    and "simulates holds (redis_sismember c ops now key member) (redis_sismember c map_ops now key member)"
    and "simulates holds (redis_scard c ops now key) (redis_scard c map_ops now key)"
    and "simulates holds (redis_smembers c ops now key) (redis_smembers c map_ops now key)"
  unfolding redis_sadd_def redis_srem_def redis_sismember_def redis_scard_def redis_smembers_def Let_def
  by (intro sim_rules)+

end

lemmas handler_defs =
  flushall_handler_def save_handler_def set_handler_def get_handler_def del_handler_def incr_handler_def decr_handler_def
  expire_handler_def ttl_handler_def hset_handler_def hget_handler_def hdel_handler_def hkeys_handler_def lpush_handler_def
  rpush_handler_def lpop_handler_def rpop_handler_def llen_handler_def lrange_handler_def zadd_handler_def zrem_handler_def
  zrange_handler_def zcard_handler_def zscore_handler_def zincrby_handler_def zrank_handler_def sadd_handler_def
  srem_handler_def sismember_handler_def scard_handler_def smembers_handler_def

lemmas wrapper_defs =
  RedisWrapper_set_def RedisWrapper_get_def RedisWrapper_del_def RedisWrapper_incr_def RedisWrapper_decr_def
  RedisWrapper_expire_def RedisWrapper_ttl_def RedisWrapper_hset_def RedisWrapper_hget_def RedisWrapper_hdel_def
  RedisWrapper_hkeys_def RedisWrapper_lpush_def RedisWrapper_rpush_def RedisWrapper_lpop_def RedisWrapper_rpop_def
  RedisWrapper_llen_def RedisWrapper_lrange_def RedisWrapper_zadd_def RedisWrapper_zrem_def RedisWrapper_zrange_def
  RedisWrapper_zcard_def RedisWrapper_zscore_def RedisWrapper_zincrby_def RedisWrapper_zrank_def RedisWrapper_sadd_def
  RedisWrapper_srem_def RedisWrapper_sismember_def RedisWrapper_scard_def RedisWrapper_smembers_def RedisWrapper_clear_def
  RedisWrapper_flushall_def

context kv_store
begin

lemma sim_run_command [sim_rules]: "simulates holds (run_command c ops now args) (run_command c map_ops now args)"
  unfolding run_command_def
proof (intro sim_andThen sim_runE)
  fix name
  show "simulates holds
      (case string2Ops name of
         OPS_PING \<Rightarrow> ret (''+PONG'' @ crlf)
       | OPS_FLUSHALL \<Rightarrow> flushall_handler ops
       | OPS_SAVE \<Rightarrow> save_handler ops
       | OPS_SET \<Rightarrow> set_handler c ops now args
       | OPS_GET \<Rightarrow> get_handler c ops now args
       | OPS_DEL \<Rightarrow> del_handler c ops now args
       | OPS_INCR \<Rightarrow> incr_handler c ops now args
       | OPS_DECR \<Rightarrow> decr_handler c ops now args
       | OPS_EXPIRE \<Rightarrow> expire_handler c ops now args
       | OPS_TTL \<Rightarrow> ttl_handler c ops now args
       | OPS_HSET \<Rightarrow> hset_handler c ops now args
       | OPS_HGET \<Rightarrow> hget_handler c ops now args
       | OPS_HDEL \<Rightarrow> hdel_handler c ops now args
       | OPS_HKEYS \<Rightarrow> hkeys_handler c ops now args
       | OPS_LPUSH \<Rightarrow> lpush_handler c ops now args
       | OPS_RPUSH \<Rightarrow> rpush_handler c ops now args
       | OPS_LPOP \<Rightarrow> lpop_handler c ops now args
       | OPS_RPOP \<Rightarrow> rpop_handler c ops now args
       | OPS_LLEN \<Rightarrow> llen_handler c ops now args
       | OPS_LRANGE \<Rightarrow> lrange_handler c ops now args
       | OPS_ZADD \<Rightarrow> zadd_handler c ops now args
       | OPS_ZREM \<Rightarrow> zrem_handler c ops now args
       | OPS_ZRANGE \<Rightarrow> zrange_handler c ops now args
       | OPS_ZCARD \<Rightarrow> zcard_handler c ops now args
       | OPS_ZSCORE \<Rightarrow> zscore_handler c ops now args
       | OPS_ZINCRBY \<Rightarrow> zincrby_handler c ops now args
       | OPS_ZRANK \<Rightarrow> zrank_handler c ops now args
       | OPS_SADD \<Rightarrow> sadd_handler c ops now args
       | OPS_SREM \<Rightarrow> srem_handler c ops now args
       | OPS_SISMEMBER \<Rightarrow> sismember_handler c ops now args
       | OPS_SCARD \<Rightarrow> scard_handler c ops now args
       | OPS_SMEMBERS \<Rightarrow> smembers_handler c ops now args
       | OPS_UNKNOWN \<Rightarrow> ret (''-ERR unknown command '' @ [CHR 0x27] @ name @ [CHR 0x27] @ crlf))
      (case string2Ops name of
         OPS_PING \<Rightarrow> ret (''+PONG'' @ crlf)
       | OPS_FLUSHALL \<Rightarrow> flushall_handler map_ops
       | OPS_SAVE \<Rightarrow> save_handler map_ops
       | OPS_SET \<Rightarrow> set_handler c map_ops now args
       | OPS_GET \<Rightarrow> get_handler c map_ops now args
       | OPS_DEL \<Rightarrow> del_handler c map_ops now args
       | OPS_INCR \<Rightarrow> incr_handler c map_ops now args
       | OPS_DECR \<Rightarrow> decr_handler c map_ops now args
       | OPS_EXPIRE \<Rightarrow> expire_handler c map_ops now args
       | OPS_TTL \<Rightarrow> ttl_handler c map_ops now args
       | OPS_HSET \<Rightarrow> hset_handler c map_ops now args
       | OPS_HGET \<Rightarrow> hget_handler c map_ops now args
       | OPS_HDEL \<Rightarrow> hdel_handler c map_ops now args
       | OPS_HKEYS \<Rightarrow> hkeys_handler c map_ops now args
       | OPS_LPUSH \<Rightarrow> lpush_handler c map_ops now args
       | OPS_RPUSH \<Rightarrow> rpush_handler c map_ops now args
       | OPS_LPOP \<Rightarrow> lpop_handler c map_ops now args
       | OPS_RPOP \<Rightarrow> rpop_handler c map_ops now args
       | OPS_LLEN \<Rightarrow> llen_handler c map_ops now args
       | OPS_LRANGE \<Rightarrow> lrange_handler c map_ops now args
       | OPS_ZADD \<Rightarrow> zadd_handler c map_ops now args
       | OPS_ZREM \<Rightarrow> zrem_handler c map_ops now args
       | OPS_ZRANGE \<Rightarrow> zrange_handler c map_ops now args
       | OPS_ZCARD \<Rightarrow> zcard_handler c map_ops now args
       | OPS_ZSCORE \<Rightarrow> zscore_handler c map_ops now args
       | OPS_ZINCRBY \<Rightarrow> zincrby_handler c map_ops now args
       | OPS_ZRANK \<Rightarrow> zrank_handler c map_ops now args
       | OPS_SADD \<Rightarrow> sadd_handler c map_ops now args
       | OPS_SREM \<Rightarrow> srem_handler c map_ops now args
       | OPS_SISMEMBER \<Rightarrow> sismember_handler c map_ops now args
       | OPS_SCARD \<Rightarrow> scard_handler c map_ops now args
       | OPS_SMEMBERS \<Rightarrow> smembers_handler c map_ops now args
       | OPS_UNKNOWN \<Rightarrow> ret (''-ERR unknown command '' @ [CHR 0x27] @ name @ [CHR 0x27] @ crlf))"
    by (cases "string2Ops name"; simp only: OPS.case handler_defs wrapper_defs; intro sim_rules)
qed

lemma sim_request [sim_rules]:
  shows "simulates holds (handleRequest c ops now request) (handleRequest c map_ops now request)"
  unfolding handleRequest_def Let_def
  by (intro sim_rules)+

lemma sim_do_read: "simulates holds (do_read c ops now b) (do_read c map_ops now b)"
  unfolding do_read_def Let_def
  by (intro sim_rules)

end

end
