(* ===== verification/RedisTypes.thy ===== *)
theory RedisTypes
  imports RedisRefine
begin

text \<open>
  What the Redis commands mean, on the specification of the store: lists, hashes, sets, counters and expiry
  times as the abstract data they stand for. Each data type has a relation that says how it lies in the
  map, a specification of its commands, and a theorem that every command keeps the relation and
  answers as specified. The relations leave the rest of the map alone, so they can be combined.
\<close>

named_theorems prog_simps

lemma prog_run [prog_simps]:
  "ret x s = Inr (x, s)"
  "runE (Inr x) s = Inr (x, s)"
  "runE (Inl e) s = Inl e"
  "andThen p f s = bindE (p s) (\<lambda>(x, s). f x s)"
  by (simp_all add: ret_def runE_def andThen_def)

lemma map_run [prog_simps]:
  "k \<noteq> [] \<Longrightarrow> kv_get map_ops k (m, n) = Inr (m k, (m, Suc n))"
  "k \<noteq> [] \<Longrightarrow> x \<noteq> [] \<Longrightarrow> kv_put map_ops k x (m, n) = Inr ((), (m(k \<mapsto> x), Suc (n + write_cost (k, x))))"
  "k \<noteq> [] \<Longrightarrow> kv_remove map_ops k (m, n) = Inr ((), (m(k := None), Suc (n + write_cost (k, []))))"
  by (simp_all add: map_ops_def map_write_def store_put_def)

lemma arg_nth [prog_simps]: "i < length args \<Longrightarrow> arg args i = Inr (args ! i)"
  by (simp add: arg_def)

lemma is_expired_None [simp]: "is_expired now None = Inr False"
  by (simp add: is_expired_def)

text \<open>The keys of the expiry times are keys of their own.\<close>

definition expiry_apart :: "redis_env \<Rightarrow> bool" where
  "expiry_apart c \<longleftrightarrow> redis_expire_header (rd_cfg c) \<noteq> []"

lemma expire_key_neq [simp]:
  assumes "expiry_apart c"
  shows "get_explire_key (rd_cfg c) key \<noteq> key" and "key \<noteq> get_explire_key (rd_cfg c) key"
    and "get_explire_key (rd_cfg c) key \<noteq> []"
  using assms by (auto simp: expiry_apart_def get_explire_key_def)

lemma command_names [simp]:
  "string2Ops ''LPUSH'' = OPS_LPUSH" "string2Ops ''RPUSH'' = OPS_RPUSH" "string2Ops ''LPOP'' = OPS_LPOP"
  "string2Ops ''RPOP'' = OPS_RPOP" "string2Ops ''LRANGE'' = OPS_LRANGE" "string2Ops ''LLEN'' = OPS_LLEN"
  "string2Ops ''SADD'' = OPS_SADD" "string2Ops ''SREM'' = OPS_SREM" "string2Ops ''SISMEMBER'' = OPS_SISMEMBER"
  "string2Ops ''SCARD'' = OPS_SCARD" "string2Ops ''HSET'' = OPS_HSET" "string2Ops ''HGET'' = OPS_HGET"
  "string2Ops ''HDEL'' = OPS_HDEL" "string2Ops ''HKEYS'' = OPS_HKEYS" "string2Ops ''GET'' = OPS_GET"
  "string2Ops ''SET'' = OPS_SET" "string2Ops ''INCR'' = OPS_INCR" "string2Ops ''DECR'' = OPS_DECR"
  "string2Ops ''EXPIRE'' = OPS_EXPIRE" "string2Ops ''TTL'' = OPS_TTL" "string2Ops ''DEL'' = OPS_DEL"
  by code_simp+

section \<open>Lists\<close>

datatype list_op = Lpush string | Rpush string | Lpop | Rpop | Lrange int int

primrec list_words :: "string \<Rightarrow> list_op \<Rightarrow> string list" where
  "list_words key (Lpush x) = [''LPUSH'', key, x]"
| "list_words key (Rpush x) = [''RPUSH'', key, x]"
| "list_words key Lpop = [''LPOP'', key]"
| "list_words key Rpop = [''RPOP'', key]"
| "list_words key (Lrange a b) = [''LRANGE'', key, int_to_string a, int_to_string b]"

text \<open>The elements between two positions, which count from the end when they are negative.\<close>

definition list_slice :: "string list \<Rightarrow> int \<Rightarrow> int \<Rightarrow> string list" where
  "list_slice xs a b =
     (let n = int (length xs); i = max 0 (if a < 0 then a + n else a); j = min (n - 1) (if b < 0 then b + n else b) in
      take (nat (j + 1 - i)) (drop (nat i) xs))"

primrec list_spec :: "list_op \<Rightarrow> string list \<Rightarrow> string \<times> string list" where
  "list_spec (Lpush x) xs = (int_reply (int (length xs) + 1), x # xs)"
| "list_spec (Rpush x) xs = (int_reply (int (length xs) + 1), xs @ [x])"
| "list_spec Lpop xs = (if xs = [] then (nil_reply, []) else (bulk (hd xs), tl xs))"
| "list_spec Rpop xs = (if xs = [] then (nil_reply, []) else (bulk (last xs), butlast xs))"
| "list_spec (Lrange a b) xs = (array_reply (list_slice xs a b), xs)"

text \<open>Elements must fit the separated text; a last position before the start of the list is not covered.\<close>

primrec list_op_ok :: "redis_env \<Rightarrow> string list \<Rightarrow> list_op \<Rightarrow> bool" where
  "list_op_ok c xs (Lpush x) = separable (redis_list_separator (rd_cfg c)) x"
| "list_op_ok c xs (Rpush x) = separable (redis_list_separator (rd_cfg c)) x"
| "list_op_ok c xs Lpop = True"
| "list_op_ok c xs Rpop = True"
| "list_op_ok c xs (Lrange a b) =
     (- (2 ^ 31) \<le> a \<and> a < 2 ^ 31 \<and> - int (length xs) \<le> b \<and> b < 2 ^ 31 \<and> length xs < 2 ^ 31)"

definition list_at :: "redis_env \<Rightarrow> string \<Rightarrow> string list \<Rightarrow> kv_map \<Rightarrow> bool" where
  "list_at c key xs m \<longleftrightarrow>
     (\<forall>x \<in> set xs. separable (redis_list_separator (rd_cfg c)) x) \<and>
     m key = (if xs = [] then None else Some (join_str (redis_list_separator (rd_cfg c)) xs)) \<and>
     m (get_explire_key (rd_cfg c) key) = None"

lemma list_clean [prog_simps]:
  "expiry_apart c \<Longrightarrow> list_at c key xs m \<Longrightarrow> expire_list_clean c map_ops now key (m, n) = Inr (False, (m, Suc n))"
  by (simp add: expire_list_clean_def Let_def list_at_def prog_simps)

lemma list_at_upd:
  assumes "list_at c key xs m" and "\<forall>x \<in> set ys. separable (redis_list_separator (rd_cfg c)) x" and "expiry_apart c"
  shows "list_at c key ys (m(key := if ys = [] then None else Some (join_str (redis_list_separator (rd_cfg c)) ys)))"
  using assms by (simp add: list_at_def)

lemma store_list_run [prog_simps]:
  assumes "\<forall>x \<in> set ys. separable (redis_list_separator (rd_cfg c)) x" and "key \<noteq> []"
  shows "\<exists>n'. store_list c map_ops key ys (m, n) =
    Inr ((), (m(key := if ys = [] then None else Some (join_str (redis_list_separator (rd_cfg c)) ys)), n'))"
  using assms join_Nil_iff [OF assms(1)] by (auto simp: store_list_def prog_simps)

lemma range_bounds_slice:
  assumes "- (2 ^ 31) \<le> a" "a < 2 ^ 31" "- int n \<le> b" "b < 2 ^ 31" "n < 2 ^ 31" "0 < n" and n: "length xs = n"
  shows "slice_reply xs a b = array_reply (list_slice xs a b)"
proof -
  define i j where "i = max 0 (if a < 0 then a + int n else a)" and "j = min (int n - 1) (if b < 0 then b + int n else b)"
  let ?b = "if b < 0 then b + int n else b"
  have b: "0 \<le> ?b" "?b < 2 ^ 31" using assms by auto
  have "as_int (a + int n) = a + int n" if "a < 0" using assms that by (intro as_int_id_small) auto
  moreover have "as_int (b + int n) = b + int n" if "b < 0" using assms that by (intro as_int_id_small) auto
  moreover have "as_int (int n - 1) = int n - 1" using assms by (intro as_int_id_small) auto
  moreover have "?b mod 2 ^ 64 = ?b" using b by simp
  ultimately have "range_bounds n a b = (if j < i then None else Some (i, j))"
    unfolding range_bounds_def Let_def i_def j_def using b by auto
  moreover have "map (\<lambda>i. xs ! nat i) [i..j] = take (nat (j + 1 - i)) (drop (nat i) xs)"
  proof (rule nth_equalityI)
    have "0 \<le> i" "j \<le> int n - 1" by (simp_all add: i_def j_def)
    then show "length (map (\<lambda>i. xs ! nat i) [i..j]) = length (take (nat (j + 1 - i)) (drop (nat i) xs))"
      using n by auto
    fix k
    assume "k < length (map (\<lambda>i. xs ! nat i) [i..j])"
    then have "k < nat (j - i + 1)" by simp
    moreover have "nat (i + int k) = nat i + k" using \<open>0 \<le> i\<close> by simp
    ultimately show "map (\<lambda>i. xs ! nat i) [i..j] ! k = take (nat (j + 1 - i)) (drop (nat i) xs) ! k"
      using \<open>0 \<le> i\<close> \<open>j \<le> int n - 1\<close> n by (simp add: nth_drop)
  qed
  ultimately show ?thesis
    unfolding slice_reply_def n list_slice_def Let_def i_def [symmetric] j_def [symmetric] by simp
qed

lemma list_command:
  assumes cfg: "expiry_apart c" and at: "list_at c key xs m" and ok: "list_op_ok c xs op" and key: "key \<noteq> []"
  shows "\<exists>m' n'. run_command c map_ops now (list_words key op) (m, n) = Inr (fst (list_spec op xs), (m', n')) \<and>
    list_at c key (snd (list_spec op xs)) m' \<and> (\<forall>k. k \<noteq> key \<longrightarrow> m' k = m k)"
proof -
  let ?sep = "redis_list_separator (rd_cfg c)"
  have sep: "\<forall>x \<in> set xs. separable ?sep x" and mk: "m key = (if xs = [] then None else Some (join_str ?sep xs))"
    using at by (simp_all add: list_at_def)
  note split = split_join [OF sep] and run = run_command_def handler_defs wrapper_defs
  show ?thesis
  proof (cases op)
    case (Lpush x)
    have s: "\<forall>y \<in> set (x # xs). separable ?sep y" using sep ok Lpush by simp
    have "(case m key of None \<Rightarrow> x | Some s \<Rightarrow> if s = [] then x else x @ ?sep # s) = join_str ?sep (x # xs)"
      using mk join_Nil_iff [OF sep] by (cases xs) simp_all
    moreover have "join_str ?sep (x # xs) \<noteq> []" using join_Nil_iff [OF s] by simp
    ultimately show ?thesis
      using Lpush key cfg at split_join [OF s] list_at_upd [OF at s cfg]
      by (simp add: run prog_simps redis_lpush_def Let_def add.commute)
  next
    case (Rpush x)
    have s: "\<forall>y \<in> set (xs @ [x]). separable ?sep y" using sep ok Rpush by auto
    have "(case m key of None \<Rightarrow> x | Some s \<Rightarrow> if s = [] then x else s @ ?sep # x) = join_str ?sep (xs @ [x])"
      using mk join_Nil_iff [OF sep] join_snoc [of xs ?sep x] by (cases "xs = []") simp_all
    moreover have "join_str ?sep (xs @ [x]) \<noteq> []" using join_Nil_iff [OF s] by simp
    ultimately show ?thesis
      using Rpush key cfg at split_join [OF s] list_at_upd [OF at s cfg]
      by (simp add: run prog_simps redis_rpush_def Let_def add.commute)
  next
    case Lpop
    have s: "\<forall>y \<in> set (tl xs). separable ?sep y" using sep by (cases xs) auto
    obtain n' where "store_list c map_ops key (tl xs) (m, Suc (Suc n)) =
        Inr ((), (m(key := if tl xs = [] then None else Some (join_str ?sep (tl xs))), n'))"
      using store_list_run [OF s key] by blast
    then show ?thesis
      using Lpop key cfg at mk split list_at_upd [OF at s cfg]
      by (cases "xs = []") (simp_all add: run prog_simps redis_lpop_def Let_def)
  next
    case Rpop
    have s: "\<forall>y \<in> set (butlast xs). separable ?sep y" using sep by (auto dest: in_set_butlastD)
    obtain n' where "store_list c map_ops key (butlast xs) (m, Suc (Suc n)) =
        Inr ((), (m(key := if butlast xs = [] then None else Some (join_str ?sep (butlast xs))), n'))"
      using store_list_run [OF s key] by blast
    then show ?thesis
      using Rpop key cfg at mk split list_at_upd [OF at s cfg]
      by (cases "xs = []") (simp_all add: run prog_simps redis_rpop_def Let_def)
  next
    case (Lrange a b)
    have "stoi (int_to_string a) = Inr a" "stoi (int_to_string b) = Inr b" using ok Lrange by (simp_all add: stoi_def)
    moreover have "slice_reply xs a b = array_reply (list_slice xs a b)" if "xs \<noteq> []"
      using ok Lrange that by (intro range_bounds_slice [of _ "length xs"]) simp_all
    moreover have "list_slice [] a b = []" by (simp add: list_slice_def)
    ultimately show ?thesis
      using Lrange key cfg at mk split
      by (cases "xs = []") (simp_all add: run prog_simps redis_lrange_def Let_def)
  qed
qed

text \<open>A sequence of commands, and of list operations.\<close>

primrec run_commands :: "redis_env \<Rightarrow> ('s, 'i) kv_ops \<Rightarrow> int \<Rightarrow> string list list \<Rightarrow> ('s, string list) prog" where
  "run_commands c ops now [] = ret []"
| "run_commands c ops now (w # ws) =
     andThen (run_command c ops now w) (\<lambda>reply. andThen (run_commands c ops now ws) (\<lambda>replies. ret (reply # replies)))"

primrec op_run :: "('o \<Rightarrow> 'd \<Rightarrow> string \<times> 'd) \<Rightarrow> 'o list \<Rightarrow> 'd \<Rightarrow> string list \<times> 'd" where
  "op_run spec [] x = ([], x)"
| "op_run spec (op # ops) x =
     (let (reply, y) = spec op x; (replies, z) = op_run spec ops y in (reply # replies, z))"

primrec ops_ok :: "('o \<Rightarrow> 'd \<Rightarrow> string \<times> 'd) \<Rightarrow> ('d \<Rightarrow> 'o \<Rightarrow> bool) \<Rightarrow> 'd \<Rightarrow> 'o list \<Rightarrow> bool" where
  "ops_ok spec ok x [] = True"
| "ops_ok spec ok x (op # ops) = (ok x op \<and> ops_ok spec ok (snd (spec op x)) ops)"

text \<open>
  A data type kept at a key: the words of its operations, their meaning, how a value lies in the map, and the
  other keys it uses. One command at a time implements the operation; then so do all of them in turn.
\<close>

locale redis_data =
  fixes c :: redis_env and now :: int and own :: "string set"
    and words :: "'o \<Rightarrow> string list" and spec :: "'o \<Rightarrow> 'd \<Rightarrow> string \<times> 'd"
    and ok :: "'d \<Rightarrow> 'o \<Rightarrow> bool" and lies :: "'d \<Rightarrow> kv_map \<Rightarrow> bool"
  assumes command: "lies x m \<Longrightarrow> ok x op \<Longrightarrow>
    \<exists>m' n'. run_command c map_ops now (words op) (m, n) = Inr (fst (spec op x), (m', n')) \<and>
      lies (snd (spec op x)) m' \<and> (\<forall>k. k \<notin> own \<longrightarrow> m' k = m k)"
begin

lemma commands:
  "lies x m \<Longrightarrow> ops_ok spec ok x ops \<Longrightarrow>
   \<exists>m' n'. run_commands c map_ops now (map words ops) (m, n) = Inr (fst (op_run spec ops x), (m', n')) \<and>
     lies (snd (op_run spec ops x)) m' \<and> (\<forall>k. k \<notin> own \<longrightarrow> m' k = m k)"
proof (induction ops arbitrary: x m n)
  case Nil
  then show ?case by (simp add: prog_simps)
next
  case (Cons op ops)
  then have ok: "ok x op" "ops_ok spec ok (snd (spec op x)) ops" by simp_all
  obtain m1 n1 where 1: "run_command c map_ops now (words op) (m, n) = Inr (fst (spec op x), (m1, n1))"
    "lies (snd (spec op x)) m1" "\<forall>k. k \<notin> own \<longrightarrow> m1 k = m k"
    using command [OF Cons.prems(1) ok(1)] by blast
  obtain m2 n2 where
    "run_commands c map_ops now (map words ops) (m1, n1) = Inr (fst (op_run spec ops (snd (spec op x))), (m2, n2))"
    "lies (snd (op_run spec ops (snd (spec op x)))) m2" "\<forall>k. k \<notin> own \<longrightarrow> m2 k = m1 k"
    using Cons.IH [OF 1(2) ok(2)] by blast
  with 1 show ?case by (simp add: prog_simps case_prod_unfold Let_def)
qed

end

interpretation list_data: redis_data c now "{key}" "list_words key" list_spec "list_op_ok c"
  "\<lambda>xs m. expiry_apart c \<and> key \<noteq> [] \<and> list_at c key xs m"
  using list_command by unfold_locales simp

text \<open>
  C15: the list commands implement lists. For every sequence of \<^verbatim>\<open>LPUSH\<close>, \<^verbatim>\<open>RPUSH\<close>, \<^verbatim>\<open>LPOP\<close>, \<^verbatim>\<open>RPOP\<close> and \<^verbatim>\<open>LRANGE\<close> on a key
  that holds the list \<open>xs\<close>, with elements that are not empty and do not contain the separator and, in \<^verbatim>\<open>LRANGE\<close>, a stop
  that is not before the start of the list, every reply is the one of the list operation, the key holds the resulting list afterwards, and no other key changes.
\<close>

theorem list_commands_refine:
  assumes "expiry_apart c" and "key \<noteq> []" and "list_at c key xs m" and "ops_ok list_spec (list_op_ok c) xs ops"
  shows "\<exists>m' n'. run_commands c map_ops now (map (list_words key) ops) (m, n) = Inr (fst (op_run list_spec ops xs), (m', n')) \<and>
    list_at c key (snd (op_run list_spec ops xs)) m' \<and> (\<forall>k. k \<noteq> key \<longrightarrow> m' k = m k)"
  using list_data.commands [of c key xs m ops now n] assms by simp

definition sample_redis :: redis_env where
  "sample_redis = \<lparr>rd_cfg = setDefaultValues (blank_config []), rd_steps = 100, rd_stod = (\<lambda>_. Inr None), rd_round = (\<lambda>x. x)\<rparr>"

lemma sample_redis_cfg:
  "redis_list_separator (rd_cfg sample_redis) = CHR ''#''" "redis_field_separator (rd_cfg sample_redis) = CHR ''$''"
  "redis_expire_header (rd_cfg sample_redis) = ''REDIS_EXPIRE_''" "redis_field_prefix (rd_cfg sample_redis) = ''REDIS_FIELD_''"
  "redis_hash_value_preffix (rd_cfg sample_redis) = ''REDIS_HASH_VALUE_''" "redis_set_prefix (rd_cfg sample_redis) = ''REDIS_SET_''"
  by (simp_all add: sample_redis_def setDefaultValues_def)

theorem list_commands_refine_witness:
  "\<exists>m' n'. run_commands sample_redis map_ops 0
      [[''RPUSH'', ''k'', ''a''], [''LPUSH'', ''k'', ''b''], [''LRANGE'', ''k'', int_to_string 0, int_to_string (- 1)], [''RPOP'', ''k'']]
      (\<lambda>_. None, 0) =
    Inr ([int_reply 1, int_reply 2, array_reply [''b'', ''a''], bulk ''a''], (m', n')) \<and> list_at sample_redis ''k'' [''b''] m'"
proof -
  let ?ops = "[Rpush ''a'', Lpush ''b'', Lrange 0 (- 1), Rpop]"
  have "expiry_apart sample_redis" by (simp add: expiry_apart_def sample_redis_cfg)
  moreover have "list_at sample_redis ''k'' [] (\<lambda>_. None)" by (simp add: list_at_def)
  moreover have "ops_ok list_spec (list_op_ok sample_redis) [] ?ops" by (simp add: separable_def sample_redis_cfg)
  moreover have "op_run list_spec ?ops [] = ([int_reply 1, int_reply 2, array_reply [''b'', ''a''], bulk ''a''], [''b''])"
    by (simp add: list_slice_def)
  ultimately show ?thesis
    using list_commands_refine [of sample_redis "''k''" "[]" "\<lambda>_. None" ?ops 0 0] by auto
qed

section \<open>Sets\<close>

datatype set_op = Sadd "string list" | Srem "string list" | Sismember string | Scard

primrec set_words :: "string \<Rightarrow> set_op \<Rightarrow> string list" where
  "set_words key (Sadd xs) = ''SADD'' # key # xs"
| "set_words key (Srem xs) = ''SREM'' # key # xs"
| "set_words key (Sismember x) = [''SISMEMBER'', key, x]"
| "set_words key Scard = [''SCARD'', key]"

primrec set_spec :: "set_op \<Rightarrow> string set \<Rightarrow> string \<times> string set" where
  "set_spec (Sadd xs) S = (int_reply (int (card (set xs - S))), S \<union> set xs)"
| "set_spec (Srem xs) S = (int_reply (int (card (set xs \<inter> S))), S - set xs)"
| "set_spec (Sismember x) S = (int_reply (if x \<in> S then 1 else 0), S)"
| "set_spec Scard S = (int_reply (int (card S)), S)"

text \<open>The members of one command must be distinct: the commands count repeated ones several times.\<close>

primrec set_op_ok :: "string set \<Rightarrow> set_op \<Rightarrow> bool" where
  "set_op_ok S (Sadd xs) = (distinct xs \<and> xs \<noteq> [] \<and> card S + length xs < 2 ^ 31)"
| "set_op_ok S (Srem xs) = (distinct xs \<and> xs \<noteq> [] \<and> length xs < 2 ^ 31)"
| "set_op_ok S (Sismember x) = True"
| "set_op_ok S Scard = True"

definition set_at :: "redis_env \<Rightarrow> string \<Rightarrow> string set \<Rightarrow> kv_map \<Rightarrow> bool" where
  "set_at c key S m \<longleftrightarrow>
     (\<forall>x. m (get_set_member_key (rd_cfg c) key x) \<noteq> None \<longleftrightarrow> x \<in> S) \<and> finite S \<and> card S < 2 ^ 31 \<and>
     (m key = Some (int_to_string (int (card S))) \<or> m key = None \<and> S = {}) \<and> m (get_explire_key (rd_cfg c) key) = None"

definition set_apart :: "redis_env \<Rightarrow> string \<Rightarrow> bool" where
  "set_apart c key \<longleftrightarrow> expiry_apart c \<and> (\<forall>x. get_explire_key (rd_cfg c) key \<noteq> get_set_member_key (rd_cfg c) key x)"

lemma member_key [simp]:
  "get_set_member_key c key x = get_set_member_key c key y \<longleftrightarrow> x = y"
  "get_set_member_key c key x \<noteq> key" "key \<noteq> get_set_member_key c key x" "get_set_member_key c key x \<noteq> []" "[] \<noteq> get_set_member_key c key x"
proof -
  have "length (get_set_member_key c key x) \<noteq> length key" by (simp add: get_set_member_key_def)
  then show "get_set_member_key c key x \<noteq> key" "key \<noteq> get_set_member_key c key x" by metis+
qed (simp_all add: get_set_member_key_def)

lemma set_clean [prog_simps]:
  "expiry_apart c \<Longrightarrow> set_at c key S m \<Longrightarrow> expire_set_clean c map_ops now key (m, n) = Inr (False, (m, Suc n))"
  by (simp add: expire_set_clean_def Let_def set_at_def prog_simps)

lemma present_keys_run:
  "\<forall>k \<in> set ks. k \<noteq> [] \<Longrightarrow> present_keys map_ops b ks (m, n) = Inr (filter (\<lambda>k. (m k \<noteq> None) = b) ks, (m, n + length ks))"
  by (induction ks arbitrary: n) (simp_all add: prog_simps del: not_None_eq)

lemma fold_store_put_const:
  "fold store_put (map (\<lambda>k. (k, x)) ks) m = (\<lambda>k. if k \<in> set ks then (if x = [] then None else Some x) else m k)"
  by (induction ks arbitrary: m) (auto simp: store_put_def)

lemma put_batch_run [prog_simps]:
  "[] \<notin> fst ` set kvs \<Longrightarrow> \<exists>n'. kv_put_batch map_ops kvs (m, n) = Inr ((), (fold store_put kvs m, n'))"
  by (force simp: map_ops_def map_write_def)

lemma remove_batch_run [prog_simps]:
  "[] \<notin> set ks \<Longrightarrow> \<exists>n'. kv_remove_batch map_ops ks (m, n) = Inr ((), ((\<lambda>k. if k \<in> set ks then None else m k), n'))"
  by (auto simp: map_ops_def map_write_def fold_store_put_const)

lemma stoi_card: "finite S \<Longrightarrow> card S < 2 ^ 31 \<Longrightarrow> stoi (int_to_string (int (card S))) = Inr (int (card S))"
  by (simp add: stoi_def)

lemma filter_card: "distinct xs \<Longrightarrow> length (filter P xs) = card {x \<in> set xs. P x}"
  by (metis distinct_card distinct_filter set_filter)

text \<open>What happens at the key that holds the number of members.\<close>

lemma size_run:
  assumes "m key = Some (int_to_string (int p)) \<or> m key = None \<and> p = 0"
    and "p < 2 ^ 31" and "- (2 ^ 31) \<le> d" and "d < 2 ^ 31" and "int p + d < 2 ^ 31" and "- (2 ^ 31) \<le> int p + d"
  shows "(case m key of None \<Rightarrow> ret (as_int d)
      | Some s \<Rightarrow> andThen (runE (stoi s)) (\<lambda>prev_size. runE (checked_int (as_int d + prev_size)))) s' = Inr (int p + d, s')"
proof -
  have "as_int d = d" using assms(3,4) by (rule as_int_id_small)
  moreover have "stoi (int_to_string (int p)) = Inr (int p)" using assms(2) by (simp add: stoi_def)
  ultimately show ?thesis
    using assms by (auto simp: prog_simps checked_int_def algebra_simps)
qed

lemma member_present:
  assumes "set_at c key S m"
  shows "present_keys map_ops b (map (get_set_member_key (rd_cfg c) key) xs) (m, n) =
    Inr (map (get_set_member_key (rd_cfg c) key) (filter (\<lambda>x. (x \<in> S) = b) xs), (m, n + length xs))"
proof -
  have "(m (get_set_member_key (rd_cfg c) key x) \<noteq> None) = b \<longleftrightarrow> (x \<in> S) = b" for x
    using assms by (simp add: set_at_def del: not_None_eq)
  then have "filter (\<lambda>k. (m k \<noteq> None) = b) (map (get_set_member_key (rd_cfg c) key) xs) =
      map (get_set_member_key (rd_cfg c) key) (filter (\<lambda>x. (x \<in> S) = b) xs)"
    by (simp only: filter_map comp_def)
  then show ?thesis
    using present_keys_run [of "map (get_set_member_key (rd_cfg c) key) xs" b m n] by simp
qed

lemma set_command_add:
  assumes cfg: "set_apart c key" and at: "set_at c key S m" and ok: "set_op_ok S (Sadd xs)" and key: "key \<noteq> []"
  shows "\<exists>m' n'. run_command c map_ops now (set_words key (Sadd xs)) (m, n) = Inr (fst (set_spec (Sadd xs) S), (m', n')) \<and>
    set_at c key (snd (set_spec (Sadd xs) S)) m' \<and>
    (\<forall>k. k \<noteq> key \<and> k \<notin> range (get_set_member_key (rd_cfg c) key) \<longrightarrow> m' k = m k)"
proof -
  let ?mk = "get_set_member_key (rd_cfg c) key" and ?new = "filter (\<lambda>x. (x \<in> S) = False) xs"
  let ?U = "S \<union> set xs"
  define ks where "ks = map ?mk ?new"
  have exp: "expiry_apart c" using cfg by (simp add: set_apart_def)
  have S: "finite S" "card S < 2 ^ 31" using at by (simp_all add: set_at_def)
  have len: "length ks = card (set xs - S)"
    using ok by (simp add: ks_def filter_card set_diff_eq)
  have card: "int (card ?U) = int (card S) + int (length ks)"
  proof -
    have "?U = S \<union> (set xs - S)" by auto
    also have "card \<dots> = card S + card (set xs - S)" using S(1) by (intro card_Un_disjoint) auto
    finally show ?thesis unfolding len by simp
  qed
  have "length ks \<le> length xs" unfolding ks_def by simp
  then have small: "card ?U < 2 ^ 31" "length ks < 2 ^ 31"
    using ok card unfolding set_op_ok.simps by linarith+
  have size: "(case m key of None \<Rightarrow> ret (as_int (int (length ks)))
      | Some s \<Rightarrow> andThen (runE (stoi s)) (\<lambda>prev_size. runE (checked_int (as_int (int (length ks)) + prev_size)))) s' =
      Inr (int (card ?U), s')" for s' :: "kv_map \<times> nat"
    unfolding card using at small card S(2) by (intro size_run) (auto simp: set_at_def)
  let ?m = "\<lambda>k. if k = key then Some (int_to_string (int (card ?U))) else if k \<in> set ks then Some ''1'' else m k"
  let ?kvs = "map (\<lambda>k. (k, get_set_member_value)) ks @ [(key, int_to_string (int (card ?U)))]"
  have fold: "fold store_put ?kvs m = ?m"
    unfolding fold_append comp_def fold_store_put_const by (auto simp: store_put_def get_set_member_value_def)
  have "[] \<notin> fst ` set ?kvs" using key by (auto simp: ks_def image_iff)
  then obtain n' where w: "kv_put_batch map_ops ?kvs (m, Suc (Suc (n + length xs))) = Inr ((), (?m, n'))"
    using put_batch_run unfolding fold [symmetric] by blast
  have "redis_sadd c map_ops now (set_words key (Sadd xs)) (m, n) = Inr (int_reply (int (length ks)), (?m, n'))"
    using key at exp w
    by (simp add: redis_sadd_def prog_simps member_present [OF at, of False, simplified] ks_def [simplified, symmetric] size)
  then have run: "run_command c map_ops now (set_words key (Sadd xs)) (m, n) = Inr (int_reply (int (length ks)), (?m, n'))"
    using ok by (cases xs) (simp_all add: run_command_def handler_defs wrapper_defs prog_simps)
  have "set_at c key ?U ?m"
    using at cfg small(1) S(1) by (auto simp: set_at_def set_apart_def ks_def image_iff)
  moreover have "\<forall>k. k \<noteq> key \<and> k \<notin> range ?mk \<longrightarrow> ?m k = m k" by (auto simp: ks_def)
  ultimately show ?thesis
    using run unfolding set_spec.simps fst_conv snd_conv len by blast
qed

lemma set_command_rem:
  assumes cfg: "set_apart c key" and at: "set_at c key S m" and ok: "set_op_ok S (Srem xs)" and key: "key \<noteq> []"
  shows "\<exists>m' n'. run_command c map_ops now (set_words key (Srem xs)) (m, n) = Inr (fst (set_spec (Srem xs) S), (m', n')) \<and>
    set_at c key (snd (set_spec (Srem xs) S)) m' \<and>
    (\<forall>k. k \<noteq> key \<and> k \<notin> range (get_set_member_key (rd_cfg c) key) \<longrightarrow> m' k = m k)"
proof -
  let ?mk = "get_set_member_key (rd_cfg c) key" and ?del = "filter (\<lambda>x. (x \<in> S) = True) xs"
  define ks where "ks = map ?mk ?del"
  have exp: "expiry_apart c" using cfg by (simp add: set_apart_def)
  have S: "finite S" "card S < 2 ^ 31" using at by (simp_all add: set_at_def)
  have "distinct ?del" "set ?del = set xs \<inter> S" using ok by auto
  then have len: "length ks = card (set xs \<inter> S)"
    unfolding ks_def length_map using distinct_card [of ?del] by (metis (no_types))
  have "card S = card (S - set xs) + length ks"
    unfolding len using card_Diff_subset_Int [of S "set xs"] card_mono [OF S(1), of "set xs \<inter> S"] S(1)
    by (simp add: Int_commute)
  then have card: "int (card (S - set xs)) = int (card S) + - int (length ks)" and small: "card (S - set xs) < 2 ^ 31" "length ks < 2 ^ 31"
    using S(2) by auto
  let ?s = "int_to_string (int (card (S - set xs)))"
  have size: "(case m key of None \<Rightarrow> ret (as_int (- int (length ks)))
      | Some s \<Rightarrow> andThen (runE (stoi s)) (\<lambda>prev_size. runE (checked_int (as_int (- int (length ks)) + prev_size)))) s' =
      Inr (int (card (S - set xs)), s')" for s' :: "kv_map \<times> nat"
    unfolding card using at small card S(2) by (intro size_run) (auto simp: set_at_def)
  let ?m = "\<lambda>k. if k \<in> set ks then None else (m(key \<mapsto> ?s)) k"
  have "[] \<notin> set ks" by (auto simp: ks_def)
  then obtain n' where w: "kv_remove_batch map_ops ks (m(key \<mapsto> ?s), Suc (Suc (Suc (n + length xs) + write_cost (key, ?s)))) = Inr ((), (?m, n'))"
    using remove_batch_run by blast
  have "redis_srem c map_ops now (set_words key (Srem xs)) (m, n) = Inr (int_reply (int (length ks)), (?m, n'))"
    using key at exp w
    by (simp add: redis_srem_def prog_simps member_present [OF at, of True, simplified] ks_def [simplified, symmetric] size)
  then have run: "run_command c map_ops now (set_words key (Srem xs)) (m, n) = Inr (int_reply (int (length ks)), (?m, n'))"
    using ok by (cases xs) (simp_all add: run_command_def handler_defs wrapper_defs prog_simps)
  have mem: "?m (?mk x) \<noteq> None \<longleftrightarrow> x \<in> S - set xs" for x
    using at by (auto simp: set_at_def ks_def image_iff)
  have "key \<notin> set ks" "get_explire_key (rd_cfg c) key \<notin> set ks"
    using cfg by (auto simp: set_apart_def ks_def)
  then have keys: "?m key = Some ?s" "?m (get_explire_key (rd_cfg c) key) = None"
    using at exp by (simp_all add: set_at_def)
  have "set_at c key (S - set xs) ?m"
    unfolding set_at_def using mem keys S(1) small(1) by blast
  moreover have "\<forall>k. k \<noteq> key \<and> k \<notin> range ?mk \<longrightarrow> ?m k = m k" by (auto simp: ks_def)
  ultimately show ?thesis
    using run unfolding set_spec.simps fst_conv snd_conv len by blast
qed

lemma set_command:
  assumes cfg: "set_apart c key" and at: "set_at c key S m" and ok: "set_op_ok S op" and key: "key \<noteq> []"
  shows "\<exists>m' n'. run_command c map_ops now (set_words key op) (m, n) = Inr (fst (set_spec op S), (m', n')) \<and>
    set_at c key (snd (set_spec op S)) m' \<and>
    (\<forall>k. k \<notin> insert key (range (get_set_member_key (rd_cfg c) key)) \<longrightarrow> m' k = m k)"
proof (cases op)
  case (Sadd xs)
  then show ?thesis using set_command_add [OF cfg at _ key, of xs now n] ok by simp
next
  case (Srem xs)
  then show ?thesis using set_command_rem [OF cfg at _ key, of xs now n] ok by simp
next
  case (Sismember x)
  have "m (get_set_member_key (rd_cfg c) key x) \<noteq> None \<longleftrightarrow> x \<in> S" using at by (simp add: set_at_def)
  then show ?thesis
    using Sismember at cfg
    by (simp add: run_command_def handler_defs wrapper_defs redis_sismember_def prog_simps set_apart_def del: not_None_eq)
next
  case Scard
  have "finite S" "card S < 2 ^ 31" "m key = Some (int_to_string (int (card S))) \<or> m key = None \<and> S = {}"
    using at by (simp_all add: set_at_def)
  then show ?thesis
    using Scard at cfg key
    by (auto simp: run_command_def handler_defs wrapper_defs redis_scard_def prog_simps set_apart_def int_reply_def)
qed

interpretation set_data: redis_data c now "insert key (range (get_set_member_key (rd_cfg c) key))" "set_words key" set_spec set_op_ok
  "\<lambda>S m. set_apart c key \<and> key \<noteq> [] \<and> set_at c key S m"
  using set_command by unfold_locales blast

text \<open>
  C16: the set commands implement sets. For every sequence of \<^verbatim>\<open>SADD\<close>, \<^verbatim>\<open>SREM\<close>, \<^verbatim>\<open>SISMEMBER\<close> and \<^verbatim>\<open>SCARD\<close> on a key that holds
  the set \<open>S\<close>, where no command names a member twice, every reply is the one of the set operation (the number of
  members really added or removed, membership, cardinality), the key and its members hold the resulting set
  afterwards, and no key outside them changes.
\<close>

theorem set_commands_refine:
  assumes "set_apart c key" and "key \<noteq> []" and "set_at c key S m" and "ops_ok set_spec set_op_ok S ops"
  shows "\<exists>m' n'. run_commands c map_ops now (map (set_words key) ops) (m, n) = Inr (fst (op_run set_spec ops S), (m', n')) \<and>
    set_at c key (snd (op_run set_spec ops S)) m' \<and>
    (\<forall>k. k \<noteq> key \<and> k \<notin> range (get_set_member_key (rd_cfg c) key) \<longrightarrow> m' k = m k)"
  using set_data.commands [of c key S m ops now n] assms by simp

theorem set_commands_refine_witness:
  "\<exists>m' n'. run_commands sample_redis map_ops 0
      [[''SADD'', ''k'', ''a'', ''b''], [''SADD'', ''k'', ''b'', ''c''], [''SREM'', ''k'', ''a'', ''z''], [''SISMEMBER'', ''k'', ''a''],
       [''SCARD'', ''k'']] (\<lambda>_. None, 0) =
    Inr ([int_reply 2, int_reply 1, int_reply 1, int_reply 0, int_reply 2], (m', n')) \<and> set_at sample_redis ''k'' {''b'', ''c''} m'"
proof -
  let ?ops = "[Sadd [''a'', ''b''], Sadd [''b'', ''c''], Srem [''a'', ''z''], Sismember ''a'', Scard]"
  have "set_apart sample_redis ''k''"
    by (simp add: set_apart_def expiry_apart_def get_explire_key_def get_set_member_key_def sample_redis_cfg)
  moreover have "set_at sample_redis ''k'' {} (\<lambda>_. None)" by (simp add: set_at_def)
  moreover have "ops_ok set_spec set_op_ok {} ?ops" by (simp add: card_insert_if)
  moreover have "op_run set_spec ?ops {} =
      ([int_reply 2, int_reply 1, int_reply 1, int_reply 0, int_reply 2], {''b'', ''c''})"
    by (auto simp: card_insert_if insert_Diff_if)
  ultimately show ?thesis
    using set_commands_refine [of sample_redis "''k''" "{}" "\<lambda>_. None" ?ops 0 0] by auto
qed

end
