(* ===== verification/Resp.thy ===== *)
theory Resp
  imports Server
begin

text \<open>
  A request in the RESP format reaches the command it names. A session reads the lines of the request and
  puts them together again with an end of line of its own, so that every line ends in two carriage
  returns; the parser finds the words in that text. Words with a line feed are excluded: the session counts
  lines and not bytes.
\<close>

text \<open>A number that is followed by something else.\<close>

lemma stoi_to_string_append:
  assumes "n < 2 ^ 31" and "\<not> is_digit c"
  shows "stoi (to_string n @ c # s) = Inr (int n)"
proof -
  obtain d ds where s: "to_string n = d # ds"
    using to_string_not_Nil [of n] by (cases "to_string n") auto
  then have d: "is_digit d" using to_string_digits [of d n] by simp
  have "takeWhile is_digit (to_string n @ c # s) = to_string n"
    using assms(2) by (simp add: takeWhile_append to_string_digits)
  then have "parse_digits (to_string n @ c # s) = n"
    by (simp add: parse_digits_def foldl_to_string)
  then have "parse_int (to_string n @ c # s) = Some (int n)"
    using s digit_not_special [OF d] d by (simp add: parse_int_def Let_def)
  with assms(1) show ?thesis by (simp add: stoi_def)
qed

lemma newline_not_in_number [simp]: "CHR 0x0A \<notin> set (to_string n)"
  using to_string_digits [of "CHR 0x0A" n] by (auto simp: is_digit_def)

lemma return_not_digit [simp]: "\<not> is_digit (CHR 0x0D)"
  by (simp add: is_digit_def)

text \<open>The first end of a line.\<close>

lemma find_nl_at:
  assumes "request = pre @ line @ CHR 0x0A # rest" and "CHR 0x0A \<notin> set line" and "length request < 2 ^ 31"
  shows "after_nl (find_nl request (length pre)) = length (pre @ line @ [CHR 0x0A])"
proof -
  have tw: "takeWhile (\<lambda>c. c \<noteq> CHR 0x0A) (line @ CHR 0x0A # rest) = line"
    using assms(2) by (auto simp: takeWhile_append)
  have "as_int (int (length pre + length line)) = int (length pre + length line)"
    using assms(1,3) by (intro as_int_id_small) simp_all
  then have "find_nl request (length pre) = int (length pre + length line)"
    using assms(1) tw by (simp add: find_nl_def Let_def)
  moreover have "int (length pre + length line) + 1 < 2 ^ 64" using assms(1,3) by simp
  ultimately show ?thesis by (simp add: after_nl_def nat_add_distrib)
qed

lemma first_line_end_at:
  assumes "request = line @ CHR 0x0A # rest" and "CHR 0x0A \<notin> set line" and "length request < 2 ^ 31"
  shows "first_line_end request = length line + 1"
proof -
  have "takeWhile (\<lambda>c. c \<noteq> CHR 0x0A) (line @ CHR 0x0A # rest) = line"
    using assms(2) by (auto simp: takeWhile_append)
  with assms(1,3) show ?thesis by (simp add: first_line_end_def)
qed

lemma getline_append: "CHR 0x0A \<notin> set line \<Longrightarrow> getline (line @ CHR 0x0A # b) = (line, b)"
  by (auto simp: getline_def takeWhile_append dropWhile_append)

text \<open>A word on the wire, and in the text the session hands to the parser.\<close>

definition wire :: "string \<Rightarrow> string" where
  "wire w = ''$'' @ to_string (length w) @ [CHR 0x0D] @ crlf @ w @ [CHR 0x0D] @ crlf"

lemma read_lines_bulk:
  assumes "\<forall>w \<in> set ws. CHR 0x0A \<notin> set w"
  shows "read_lines (2 * length ws) full (concat (map bulk ws) @ rest) = (Some (full @ concat (map wire ws)), rest)"
  using assms
proof (induction ws arbitrary: full)
  case (Cons w ws)
  have 1: "getline (bulk w @ b) = (''$'' @ to_string (length w) @ [CHR 0x0D], w @ crlf @ b)" for b
    using getline_append [of "''$'' @ to_string (length w) @ [CHR 0x0D]" "w @ crlf @ b"] by (simp add: bulk_def crlf_def)
  have 2: "getline (w @ crlf @ b) = (w @ [CHR 0x0D], b)" for b
    using getline_append [of "w @ [CHR 0x0D]" b] Cons.prems by (simp add: crlf_def)
  have "bulk w \<noteq> []" "crlf \<noteq> []" by (simp_all add: bulk_def crlf_def)
  with Cons 1 2 show ?case by (simp add: wire_def)
qed simp

lemma drop_prefix: "xs = p @ q \<Longrightarrow> drop (length p) xs = q"
  by simp

lemma parse_args_wire:
  assumes "request = pre @ concat (map wire ws)" and "\<forall>w \<in> set ws. CHR 0x0A \<notin> set w" and "length request < 2 ^ 31"
  shows "parse_args (length ws) request (length pre) args = Inr (Inr (args @ ws))"
  using assms
proof (induction ws arbitrary: pre args)
  case (Cons w ws)
  let ?head = "''$'' @ to_string (length w) @ [CHR 0x0D, CHR 0x0D]" and ?tail = "concat (map wire ws)"
  have w: "CHR 0x0A \<notin> set w" using Cons.prems(2) by simp
  have req: "request = pre @ ?head @ CHR 0x0A # (w @ [CHR 0x0D, CHR 0x0D] @ CHR 0x0A # ?tail)"
    using Cons.prems(1) by (simp add: wire_def [of w] crlf_def)
  then have len: "length w < 2 ^ 31" "length pre < length request" using Cons.prems(3) by simp_all
  let ?pre = "pre @ ?head @ [CHR 0x0A]"
  have p1: "after_nl (find_nl request (length pre)) = length ?pre"
    by (rule find_nl_at [OF req _ Cons.prems(3)]) simp
  have req2: "request = ?pre @ (w @ [CHR 0x0D, CHR 0x0D]) @ CHR 0x0A # ?tail" using req by simp
  let ?pre2 = "?pre @ (w @ [CHR 0x0D, CHR 0x0D]) @ [CHR 0x0A]"
  have p2: "after_nl (find_nl request (length ?pre)) = length ?pre2"
    by (rule find_nl_at [OF req2 _ Cons.prems(3)]) (use w in simp)
  have "drop (length pre + 1) request = to_string (length w) @ CHR 0x0D # (CHR 0x0D # CHR 0x0A # w @ [CHR 0x0D, CHR 0x0D] @ CHR 0x0A # ?tail)"
    using req by simp
  then have num: "stoi (drop (length pre + 1) request) = Inr (int (length w))"
    using stoi_to_string_append [OF len(1) return_not_digit] by simp
  have dollar: "request ! length pre = CHR ''$''" using req by simp
  have fits: "length ?pre + length w \<le> length request" using arg_cong [OF req2, of length] by simp
  have no_wrap: "(int (length ?pre) + int (length w)) mod 2 ^ 64 = int (length ?pre) + int (length w)"
    using fits Cons.prems(3) by (intro mod_pos_pos_trivial) simp_all
  have "drop (length ?pre) request = (w @ [CHR 0x0D, CHR 0x0D]) @ CHR 0x0A # ?tail"
    by (rule drop_prefix [OF req2])
  then have word: "take (nat (int (length w) mod 2 ^ 64)) (drop (length ?pre) request) = w"
    using len(1) by (simp only:) simp
  have "parse_args (length ws) request (length ?pre2) (args @ [w]) = Inr (Inr (args @ w # ws))"
    using Cons.IH [of ?pre2 "args @ [w]"] req Cons.prems(2,3) by simp
  then show ?case
    using len dollar num p1 p2 no_wrap fits word
    by (simp only: list.size parse_args.simps Let_def sum.case simp_thms if_False) simp
qed simp

lemma handleRequest_words:
  assumes "request = (''*'' @ to_string (length ws) @ [CHR 0x0D] @ crlf) @ concat (map wire ws)"
    and "\<forall>w \<in> set ws. CHR 0x0A \<notin> set w" and "length request < 2 ^ 31"
  shows "handleRequest c ops now request s = run_command c ops now ws s"
proof -
  let ?pre = "''*'' @ to_string (length ws) @ [CHR 0x0D] @ crlf"
  have "length ws \<le> length (concat (map wire ws))"
    by (induction ws) (simp_all add: wire_def)
  then have len: "length ws < 2 ^ 31" using assms(1,3) by simp
  have "drop 1 request = to_string (length ws) @ CHR 0x0D # (crlf @ concat (map wire ws))" using assms(1) by simp
  then have num: "stoi (drop 1 request) = Inr (int (length ws))"
    using stoi_to_string_append [OF len return_not_digit] by simp
  have pos: "first_line_end request = length ?pre"
    using first_line_end_at [of request "''*'' @ to_string (length ws) @ [CHR 0x0D, CHR 0x0D]" "concat (map wire ws)"] assms(1,3)
    by (simp add: crlf_def)
  have "request \<noteq> []" "request \<noteq> ''PING'' @ crlf" using assms(1) by simp_all
  then show ?thesis
    using num pos parse_args_wire [OF assms, of "[]"]
    by (simp add: handleRequest_def andThen_def runE_def)
qed

lemma request_runs_words_base:
  assumes "\<forall>w \<in> set ws. CHR 0x0A \<notin> set w" and "2 * length (array_reply ws) < 2 ^ 31"
  shows "do_read c ops now (array_reply ws @ rest) s = andThen (run_command c ops now ws) (\<lambda>reply. ret (reply, rest)) s"
proof -
  let ?line = "''*'' @ to_string (length ws) @ [CHR 0x0D]"
  have line: "getline (array_reply ws @ rest) = (?line, concat (map bulk ws) @ rest)"
    using getline_append [of ?line "concat (map bulk ws) @ rest"] by (simp add: array_reply_def crlf_def)
  have "2 * length ws \<le> length (concat (map bulk ws))" by (induction ws) (simp_all add: bulk_def crlf_def)
  then have len: "2 * length ws < 2 ^ 31" using assms(2) by (simp add: array_reply_def)
  have "stoi (to_string (length ws) @ CHR 0x0D # crlf) = Inr (int (length ws))"
    using len by (intro stoi_to_string_append) simp_all
  then have num: "stoi (drop 1 (?line @ crlf)) = Inr (int (length ws))" by simp
  have int: "checked_int (int (length ws) * 2) = Inr (int (2 * length ws))" using len by (simp add: checked_int_def)
  let ?request = "(?line @ crlf) @ concat (map wire ws)"
  have wires: "length (concat (map wire ws)) \<le> length (concat (map bulk ws)) + 2 * length ws"
    by (induction ws) (simp_all add: bulk_def wire_def)
  have "length ?request < 2 ^ 31"
    using wires \<open>2 * length ws \<le> _\<close> assms(2) by (simp add: array_reply_def crlf_def)
  then have "handleRequest c ops now ?request s = run_command c ops now ws s"
    using assms(1) by (intro handleRequest_words) simp_all
  moreover have "\<not> (length (?line @ crlf) < 2 \<or> hd (?line @ crlf) \<noteq> CHR ''*'')" "?line @ crlf \<noteq> ''PING'' @ crlf"
    by (simp_all add: crlf_def)
  moreover have "nat (2 * int (length ws)) = 2 * length ws" by simp
  ultimately show ?thesis
    using num int read_lines_bulk [OF assms(1), of "?line @ crlf" rest]
    unfolding do_read_def Let_def line prod.case by (simp add: andThen_def runE_def del: mult_Suc)
qed

text \<open>
  C19: a request in the RESP format runs its command. A client sends an array of bulk strings, the words of a command.
  If no word contains a line feed and the request stays below the range of an \<^verbatim>\<open>int\<close>, a session that finds it at the
  start of its buffer runs exactly these words, answers with the reply of the command, and leaves in the buffer
  what follows the request.
\<close>

theorem request_runs_words:
  assumes "\<forall>w \<in> set ws. CHR 0x0A \<notin> set w" and "2 * length (array_reply ws) < 2 ^ 31"
  shows "do_read c ops now (array_reply ws @ rest) s = andThen (run_command c ops now ws) (\<lambda>reply. ret (reply, rest)) s"
  using request_runs_words_base [OF assms] .

theorem request_runs_words_witness:
  "\<forall>c ops now s. do_read c (ops :: (nat, nat) kv_ops) now (array_reply [''PING''] @ ''*1'') s = Inr ((''+PONG'' @ crlf, ''*1''), s)"
proof (intro allI)
  fix c now s and ops :: "(nat, nat) kv_ops"
  have "do_read c ops now (array_reply [''PING''] @ ''*1'') s =
      andThen (run_command c ops now [''PING'']) (\<lambda>reply. ret (reply, ''*1'')) s"
    by (rule request_runs_words) (simp_all add: array_reply_def bulk_def crlf_def to_string.simps)
  moreover have "string2Ops ''PING'' = OPS_PING" by code_simp
  ultimately show "do_read c ops now (array_reply [''PING''] @ ''*1'') s = Inr ((''+PONG'' @ crlf, ''*1''), s)"
    by (simp add: run_command_def arg_def andThen_def runE_def ret_def)
qed

end
