(* ===== verification/RedisProps.thy ===== *)
theory RedisProps
  imports RedisTypes Resp
begin

text \<open>
  The layers put together. Class \<^verbatim>\<open>LSM\<close> is a map from keys to values; a session on top of it answers like a
  session on the map. Both statements are relative to a budget (\<open>engine_holds\<close>): the bytes that still fit
  below the limit of the memtable, so that no write starts a flush, the transaction ids and the counters of
  the block cache.
\<close>

section \<open>An engine to start with\<close>

definition sample_store_env :: env where
  "sample_store_env = \<lparr>env_hash = \<lambda>_. 7, env_dval = \<lambda>_. 1, env_pow = \<lambda>_ _. 1,
     env_cfg = setDefaultValues (blank_config []), env_steps = 100\<rparr>"

lemma sample_store_holds:
  assumes "b < 1000"
  shows "\<exists>e. engine_holds sample_store_env b e (\<lambda>_. None)"
proof -
  let ?v = sample_store_env and ?tb = "undefined :: u64 \<Rightarrow> table"
  have "cache_configured ?v"
    by (simp add: cache_configured_def sample_store_env_def setDefaultValues_def)
  then obtain e where e: "eng_inv ?v (\<lambda>_. None) ?tb 0 [[]] e" "disk_versions ?tb e = []" "\<forall>l. level_ids e l = []"
    "eng_cur_max_level e = 0"
    using engine_new_inv [of "''d''" empty_fs ?v ?tb] by (auto simp: empty_fs_def)
  let ?tm = "\<lparr>tm_wal = None, tm_data_dir = ''d'', tm_nextTransactionId = 1, tm_activeTrans = [], tm_readyToFlushTrancIds = [],
     tm_flushedTrancIds = [0], tm_tranc_id_file = \<lparr>fd = None, file_path = []\<rparr>\<rparr>"
  have "tol_mem_limit ?v = 67108864"
    by (simp add: tol_mem_limit_def sample_store_env_def setDefaultValues_def)
  then have "engine_holds ?v b (e\<lparr>eng_tran_manager := Some ?tm\<rparr>) (\<lambda>_. None)"
    unfolding engine_holds_def using e assms
    by (intro exI [of _ "\<lambda>_. None"] exI [of _ ?tb] exI [of _ 0] exI [of _ "[[]]"] exI [of _ ?tm])
      (simp add: eng_inv_def all_bytes_def newest_value_def version_of_def)
  then show ?thesis by blast
qed

section \<open>The store is a map\<close>

datatype lsm_call =
    Call_get string | Call_put string string | Call_remove string
  | Call_put_batch "(string \<times> string) list" | Call_remove_batch "string list"

text \<open>One call, with the answer of a lookup; a write answers \<open>None\<close>.\<close>

primrec run_call :: "('s, 'i) kv_ops \<Rightarrow> lsm_call \<Rightarrow> ('s, string option) prog" where
  "run_call ops (Call_get k) = kv_get ops k"
| "run_call ops (Call_put k x) = andThen (kv_put ops k x) (\<lambda>_. ret None)"
| "run_call ops (Call_remove k) = andThen (kv_remove ops k) (\<lambda>_. ret None)"
| "run_call ops (Call_put_batch kvs) = andThen (kv_put_batch ops kvs) (\<lambda>_. ret None)"
| "run_call ops (Call_remove_batch ks) = andThen (kv_remove_batch ops ks) (\<lambda>_. ret None)"

primrec run_calls :: "('s, 'i) kv_ops \<Rightarrow> lsm_call list \<Rightarrow> ('s, string option list) prog" where
  "run_calls ops [] = ret []"
| "run_calls ops (x # xs) = andThen (run_call ops x) (\<lambda>a. andThen (run_calls ops xs) (\<lambda>as. ret (a # as)))"

primrec call_spec :: "lsm_call \<Rightarrow> kv_map \<Rightarrow> string option \<times> kv_map" where
  "call_spec (Call_get k) m = (m k, m)"
| "call_spec (Call_put k x) m = (None, store_put (k, x) m)"
| "call_spec (Call_remove k) m = (None, m(k := None))"
| "call_spec (Call_put_batch kvs) m = (None, fold store_put kvs m)"
| "call_spec (Call_remove_batch ks) m = (None, (\<lambda>k. if k \<in> set ks then None else m k))"

primrec calls_spec :: "lsm_call list \<Rightarrow> kv_map \<Rightarrow> string option list \<times> kv_map" where
  "calls_spec [] m = ([], m)"
| "calls_spec (x # xs) m = (let (a, m) = call_spec x m; (as, m) = calls_spec xs m in (a # as, m))"

primrec call_keys :: "lsm_call \<Rightarrow> string list" where
  "call_keys (Call_get k) = [k]"
| "call_keys (Call_put k x) = [k]"
| "call_keys (Call_remove k) = [k]"
| "call_keys (Call_put_batch kvs) = map fst kvs"
| "call_keys (Call_remove_batch ks) = ks"

primrec call_cost :: "lsm_call \<Rightarrow> nat" where
  "call_cost (Call_get k) = 1"
| "call_cost (Call_put k x) = Suc (write_cost (k, x))"
| "call_cost (Call_remove k) = Suc (write_cost (k, []))"
| "call_cost (Call_put_batch kvs) = Suc (sum_list (map write_cost kvs))"
| "call_cost (Call_remove_batch ks) = Suc (sum_list (map (\<lambda>k. write_cost (k, [])) ks))"

lemma fold_store_put_remove: "fold (\<lambda>k. store_put (k, [])) ks m = (\<lambda>k. if k \<in> set ks then None else m k)"
  by (induction ks arbitrary: m) (auto simp: store_put_def)

context kv_store
begin

lemma call_ok:
  assumes "holds (b + call_cost x) s m" and "[] \<notin> set (call_keys x)"
  shows "\<exists>s'. run_call ops x s = Inr (fst (call_spec x m), s') \<and> holds b s' (snd (call_spec x m))"
proof (cases x)
  case (Call_get k)
  then show ?thesis using get_ok [of b s m k] assms by auto
next
  case (Call_put k x)
  then show ?thesis using put_ok [of b k x s m] assms by (auto simp: andThen_def ret_def)
next
  case (Call_remove k)
  then show ?thesis using remove_ok [of b k s m] assms by (auto simp: andThen_def ret_def store_put_def)
next
  case (Call_put_batch kvs)
  then have "\<forall>kx \<in> set kvs. fst kx \<noteq> []" using assms(2) by (auto simp: image_iff)
  then show ?thesis using put_batch_ok [of b kvs s m] assms(1) Call_put_batch by (auto simp: andThen_def ret_def)
next
  case (Call_remove_batch ks)
  then show ?thesis using remove_batch_ok [of b ks s m] assms by (auto simp: andThen_def ret_def fold_store_put_remove)
qed

lemma calls_ok:
  assumes "holds (b + sum_list (map call_cost xs)) s m" and "\<forall>x \<in> set xs. [] \<notin> set (call_keys x)"
  shows "\<exists>s'. run_calls ops xs s = Inr (fst (calls_spec xs m), s') \<and> holds b s' (snd (calls_spec xs m))"
  using assms
proof (induction xs arbitrary: s m)
  case Nil
  then show ?case by (simp add: ret_def)
next
  case (Cons x xs)
  have "holds ((b + sum_list (map call_cost xs)) + call_cost x) s m" "[] \<notin> set (call_keys x)"
    using Cons.prems by (simp_all add: ac_simps)
  then obtain s1 where 1: "run_call ops x s = Inr (fst (call_spec x m), s1)"
    "holds (b + sum_list (map call_cost xs)) s1 (snd (call_spec x m))"
    using call_ok by blast
  obtain s2 where "run_calls ops xs s1 = Inr (fst (calls_spec xs (snd (call_spec x m))), s2)"
    "holds b s2 (snd (calls_spec xs (snd (call_spec x m))))"
    using Cons.IH [OF 1(2)] Cons.prems(2) by auto
  with 1(1) show ?case by (simp add: andThen_def ret_def case_prod_unfold Let_def)
qed

end

text \<open>
  C6: the store is a map. Any sequence of lookups, puts, removals and batches through class \<^verbatim>\<open>LSM\<close>, each with the
  transaction id the manager draws for it, whatever levels the skip list rolls, succeeds and gives the
  answers of a map from keys to values, in which an empty value is a removal; the store holds the resulting
  map afterwards. Keys are not empty, and the budget covers the calls.
\<close>

theorem lsm_implements_map:
  assumes "engine_holds v (b + sum_list (map call_cost calls)) e m" and "\<forall>x \<in> set calls. [] \<notin> set (call_keys x)"
  shows "\<exists>e' j. run_calls (lsm_ops v ls rnd) calls (e, i) = Inr (fst (calls_spec calls m), (e', j)) \<and>
    engine_holds v b e' (snd (calls_spec calls m))"
  using lsm.calls_ok [of v b calls "(e, i)" m ls rnd] assms by (auto simp: lsm_holds_def)

theorem lsm_implements_map_witness:
  "\<exists>e e' j. run_calls (lsm_ops sample_store_env (\<lambda>_. []) (\<lambda>_. (\<lambda>_. False, 0)))
      [Call_put ''a'' ''1'', Call_put_batch [(''b'', ''2''), (''a'', ''3'')], Call_get ''a'', Call_remove ''b'', Call_get ''b''] (e, 0) =
    Inr ([None, None, Some ''3'', None, None], (e', j)) \<and> engine_holds sample_store_env 7 e' [''a'' \<mapsto> ''3'']"
proof -
  let ?calls = "[Call_put ''a'' ''1'', Call_put_batch [(''b'', ''2''), (''a'', ''3'')], Call_get ''a'', Call_remove ''b'', Call_get ''b'']"
  obtain e where "engine_holds sample_store_env (7 + sum_list (map call_cost ?calls)) e (\<lambda>_. None)"
    using sample_store_holds [of "7 + sum_list (map call_cost ?calls)"] by (auto simp: write_cost_def)
  moreover have "fst (calls_spec ?calls (\<lambda>_. None)) = [None, None, Some ''3'', None, None]"
    "snd (calls_spec ?calls (\<lambda>_. None)) = [''a'' \<mapsto> ''3'']"
    by (auto simp: store_put_def)
  ultimately show ?thesis
    using lsm_implements_map [of sample_store_env 7 ?calls e "\<lambda>_. None" "\<lambda>_. []" "\<lambda>_. (\<lambda>_. False, 0)" 0] by auto
qed

section \<open>The server on the store\<close>

text \<open>
  C7: the server answers as if the store were a map. Whatever bytes a session finds in its buffer, if the session
  on the map replies and the budget of the store covers the cost counted there, then the session on the LSM
  engine gives the same reply, leaves the same rest in the buffer, and its engine holds the resulting map.
  Requests that need a range query, \<^verbatim>\<open>FLUSHALL\<close> and \<^verbatim>\<open>SAVE\<close> have no meaning on the map.
\<close>

theorem server_on_lsm:
  assumes "do_read c map_ops now buf (m, 0) = Inr (out, (m', cost))" and "engine_holds v (b + cost) e m"
  shows "\<exists>e' j. do_read c (lsm_ops v ls rnd) now buf (e, i) = Inr (out, (e', j)) \<and> engine_holds v b e' m'"
proof -
  have "\<forall>b s. lsm_holds v (b + cost) s m \<longrightarrow>
      (\<exists>s'. do_read c (lsm_ops v ls rnd) now buf s = Inr (out, s') \<and> lsm_holds v b s' m')"
    using lsm.sim_do_read [of v c ls rnd now buf] assms(1) unfolding simulates_def by fastforce
  from this [rule_format, of b "(e, i)"] assms(2) show ?thesis by (auto simp: lsm_holds_def)
qed

lemma sample_set_request:
  "do_read sample_redis map_ops 0 (array_reply [''SET'', ''k'', ''v'']) (\<lambda>_. None, 0) =
   Inr ((ok_reply, []), ([''k'' \<mapsto> ''v''], 12))"
proof -
  let ?ws = "[''SET'', ''k'', ''v'']"
  have exp: "expiry_apart sample_redis" by (simp add: expiry_apart_def sample_redis_cfg)
  have req: "do_read sample_redis map_ops 0 (array_reply ?ws @ []) (\<lambda>_. None, 0) =
      andThen (run_command sample_redis map_ops 0 ?ws) (\<lambda>reply. ret (reply, [])) (\<lambda>_. None, 0)"
    by (rule request_runs_words_base) (simp_all add: array_reply_def bulk_def crlf_def to_string.simps)
  have run: "run_command sample_redis map_ops 0 ?ws (\<lambda>_. None, 0) = Inr (ok_reply, ([''k'' \<mapsto> ''v''], 12))"
    using exp by (simp add: run_command_def handler_defs wrapper_defs redis_set_def drop_expiry_def prog_simps write_cost_def)
  show ?thesis using req unfolding andThen_def [of "run_command _ _ _ _"] run by (simp add: ret_def)
qed

theorem server_on_lsm_witness:
  "\<exists>e e' j. do_read sample_redis (lsm_ops sample_store_env (\<lambda>_. []) (\<lambda>_. (\<lambda>_. False, 0))) 0 (array_reply [''SET'', ''k'', ''v'']) (e, 0) =
    Inr ((ok_reply, []), (e', j)) \<and> engine_holds sample_store_env 5 e' [''k'' \<mapsto> ''v'']"
proof -
  obtain e where "engine_holds sample_store_env (5 + 12) e (\<lambda>_. None)"
    using sample_store_holds [of "5 + 12"] by auto
  then show ?thesis
    using server_on_lsm [OF sample_set_request, of sample_store_env 5 e "\<lambda>_. []" "\<lambda>_. (\<lambda>_. False, 0)" 0] by blast
qed

end
