(* ===== verification/RedisHash.thy ===== *)
theory RedisHash
  imports RedisTypes
begin

text \<open>
  The hash commands implement finite maps from fields to values, kept in the order in which the fields were
  added. The hash lies in the store as one entry for every field and a list of the fields at its key.
\<close>

section \<open>Hashes\<close>

type_synonym hash = "(string \<times> string) list"

fun hash_put :: "string \<Rightarrow> string \<Rightarrow> hash \<Rightarrow> hash" where
  "hash_put f x [] = [(f, x)]"
| "hash_put f x ((g, y) # h) = (if f = g then (g, x) # h else (g, y) # hash_put f x h)"

definition hash_puts :: "(string \<times> string) list \<Rightarrow> hash \<Rightarrow> hash" where
  "hash_puts fvs h = fold (\<lambda>(f, x). hash_put f x) fvs h"

datatype hash_op = Hset "(string \<times> string) list" | Hget string | Hdel string | Hkeys

primrec hash_words :: "string \<Rightarrow> hash_op \<Rightarrow> string list" where
  "hash_words key (Hset fvs) = ''HSET'' # key # concat (map (\<lambda>(f, x). [f, x]) fvs)"
| "hash_words key (Hget f) = [''HGET'', key, f]"
| "hash_words key (Hdel f) = [''HDEL'', key, f]"
| "hash_words key Hkeys = [''HKEYS'', key]"

primrec hash_spec :: "hash_op \<Rightarrow> hash \<Rightarrow> string \<times> hash" where
  "hash_spec (Hset fvs) h = (int_reply (int (length (hash_puts fvs h)) - int (length h)), hash_puts fvs h)"
| "hash_spec (Hget f) h = (case map_of h f of None \<Rightarrow> nil_reply | Some x \<Rightarrow> bulk x, h)"
| "hash_spec (Hdel f) h = (int_reply (if map_of h f = None then 0 else 1), filter (\<lambda>p. fst p \<noteq> f) h)"
| "hash_spec Hkeys h = (array_reply (map fst h), h)"

text \<open>Fields fit the separated text; values are not empty, since an empty value is a deletion.\<close>

primrec hash_op_ok :: "redis_env \<Rightarrow> hash \<Rightarrow> hash_op \<Rightarrow> bool" where
  "hash_op_ok c h (Hset fvs) = (fvs \<noteq> [] \<and> (\<forall>(f, x) \<in> set fvs. separable (redis_field_separator (rd_cfg c)) f \<and> x \<noteq> []))"
| "hash_op_ok c h (Hget f) = True"
| "hash_op_ok c h (Hdel f) = True"
| "hash_op_ok c h Hkeys = True"

definition fields_value :: "redis_env \<Rightarrow> string list \<Rightarrow> string option" where
  "fields_value c fs = (if fs = [] then None else Some (get_hash_value_from_fields (rd_cfg c) fs))"

lemma fields_value_Nil [simp]: "fields_value c [] = None"
  by (simp add: fields_value_def)

definition hash_at :: "redis_env \<Rightarrow> string \<Rightarrow> hash \<Rightarrow> kv_map \<Rightarrow> bool" where
  "hash_at c key h m \<longleftrightarrow>
     (\<forall>f. m (get_hash_filed_key (rd_cfg c) key f) = map_of h f) \<and> distinct (map fst h) \<and>
     (\<forall>f \<in> set (map fst h). separable (redis_field_separator (rd_cfg c)) f) \<and>
     m key = fields_value c (map fst h) \<and> m (get_explire_key (rd_cfg c) key) = None"

definition hash_apart :: "redis_env \<Rightarrow> string \<Rightarrow> bool" where
  "hash_apart c key \<longleftrightarrow> expiry_apart c \<and> (\<forall>f. get_explire_key (rd_cfg c) key \<noteq> get_hash_filed_key (rd_cfg c) key f)"

lemma field_key [simp]:
  "get_hash_filed_key c key x = get_hash_filed_key c key y \<longleftrightarrow> x = y"
  "get_hash_filed_key c key x \<noteq> key" "key \<noteq> get_hash_filed_key c key x" "get_hash_filed_key c key x \<noteq> []" "[] \<noteq> get_hash_filed_key c key x"
proof -
  have "length (get_hash_filed_key c key x) \<noteq> length key" by (simp add: get_hash_filed_key_def)
  then show "get_hash_filed_key c key x \<noteq> key" "key \<noteq> get_hash_filed_key c key x" by metis+
qed (simp_all add: get_hash_filed_key_def)

lemma hash_clean [prog_simps]:
  "expiry_apart c \<Longrightarrow> hash_at c key h m \<Longrightarrow> expire_hash_clean c map_ops now key (m, n) = Inr (False, (m, Suc n))"
  by (simp add: expire_hash_clean_def Let_def hash_at_def prog_simps)

lemma fields_read [prog_simps]:
  "\<forall>f \<in> set fs. separable (redis_field_separator (rd_cfg c)) f \<Longrightarrow>
   get_fileds_from_hash_value (rd_cfg c) (fields_value c fs) = Inr fs"
  by (auto simp: get_fileds_from_hash_value_def fields_value_def get_hash_value_from_fields_def Let_def split_join join_Nil_iff)

lemma hash_value_not_Nil:
  "\<forall>f \<in> set fs. separable (redis_field_separator (rd_cfg c)) f \<Longrightarrow> fs \<noteq> [] \<Longrightarrow> get_hash_value_from_fields (rd_cfg c) fs \<noteq> []"
  by (simp add: get_hash_value_from_fields_def join_Nil_iff)

lemma map_of_hash_put [simp]: "map_of (hash_put f x h) = (map_of h)(f \<mapsto> x)"
  by (induction f x h rule: hash_put.induct) (auto simp: fun_upd_twist)

lemma hash_put_fields: "map fst (hash_put f x h) = (if f \<in> fst ` set h then map fst h else map fst h @ [f])"
  by (induction f x h rule: hash_put.induct) auto

lemma pairs_of_words [simp]: "pairs_of (concat (map (\<lambda>(f, x). [f, x]) fvs)) = fvs"
  by (induction fvs) auto

lemma length_words: "length (concat (map (\<lambda>(f, x). [f, x]) fvs)) = 2 * length fvs"
  by (induction fvs) auto

text \<open>The loop of \<^verbatim>\<open>HSET\<close>.\<close>

lemma hset_loop_run:
  assumes "\<forall>(f, x) \<in> set fvs. x \<noteq> []" and "\<forall>f. m (get_hash_filed_key (rd_cfg c) key f) = map_of h f"
  shows "\<exists>m' n'. hset_loop c map_ops key fvs (map fst h) (fst ` set h) a (m, n) =
      Inr ((map fst (hash_puts fvs h), a + (int (length (hash_puts fvs h)) - int (length h))), (m', n')) \<and>
    (\<forall>f. m' (get_hash_filed_key (rd_cfg c) key f) = map_of (hash_puts fvs h) f) \<and>
    (\<forall>k. k \<notin> range (get_hash_filed_key (rd_cfg c) key) \<longrightarrow> m' k = m k)"
  using assms
proof (induction fvs arbitrary: h a m n)
  case Nil
  then show ?case by (simp add: hash_puts_def prog_simps)
next
  case (Cons fv fvs)
  obtain f x where fv: "fv = (f, x)" by (cases fv)
  let ?k = "get_hash_filed_key (rd_cfg c) key f" and ?h = "hash_put f x h"
  have x: "x \<noteq> []" using Cons.prems(1) fv by simp
  let ?a = "if f \<in> fst ` set h then a else a + 1"
  have "\<forall>g. (m(?k \<mapsto> x)) (get_hash_filed_key (rd_cfg c) key g) = map_of ?h g"
    using Cons.prems(2) by simp
  from Cons.IH [OF _ this, of ?a "Suc (n + write_cost (?k, x))"] Cons.prems(1) obtain m' n' where IH: "hset_loop c map_ops key fvs (map fst ?h) (fst ` set ?h) ?a (m(?k \<mapsto> x), Suc (n + write_cost (?k, x))) =
      Inr ((map fst (hash_puts fvs ?h), ?a + (int (length (hash_puts fvs ?h)) - int (length ?h))), (m', n'))"
    "\<forall>g. m' (get_hash_filed_key (rd_cfg c) key g) = map_of (hash_puts fvs ?h) g"
    "\<forall>k. k \<notin> range (get_hash_filed_key (rd_cfg c) key) \<longrightarrow> m' k = (m(?k \<mapsto> x)) k"
    by (auto simp del: fun_upd_apply)
  have puts: "hash_puts (fv # fvs) h = hash_puts fvs ?h" by (simp add: hash_puts_def fv)
  have len: "int (length ?h) = int (length h) + (if f \<in> fst ` set h then 0 else 1)"
    using arg_cong [OF hash_put_fields [of f x h], of length] by (simp split: if_splits)
  have flds: "fst ` set ?h = (if f \<in> fst ` set h then fst ` set h else insert f (fst ` set h))"
    using arg_cong [OF hash_put_fields [of f x h], of set] by (auto split: if_splits)
  have "hset_loop c map_ops key (fv # fvs) (map fst h) (fst ` set h) a (m, n) =
      hset_loop c map_ops key fvs (map fst ?h) (fst ` set ?h) ?a (m(?k \<mapsto> x), Suc (n + write_cost (?k, x)))"
    using x unfolding flds hash_put_fields by (simp add: prog_simps fv)
  moreover have "?a + (int (length (hash_puts fvs ?h)) - int (length ?h)) = a + (int (length (hash_puts fvs ?h)) - int (length h))"
    using len by simp
  ultimately have "hset_loop c map_ops key (fv # fvs) (map fst h) (fst ` set h) a (m, n) =
      Inr ((map fst (hash_puts fvs ?h), a + (int (length (hash_puts fvs ?h)) - int (length h))), (m', n'))"
    using IH(1) by simp
  moreover have "\<forall>k. k \<notin> range (get_hash_filed_key (rd_cfg c) key) \<longrightarrow> m' k = m k"
    using IH(3) by auto
  ultimately show ?case unfolding puts using IH(2) by blast
qed

lemma hash_puts_ok:
  assumes "distinct (map fst h)" and "\<forall>f \<in> set (map fst h). P f" and "\<forall>(f, x) \<in> set fvs. P f"
  shows "distinct (map fst (hash_puts fvs h)) \<and> (\<forall>f \<in> set (map fst (hash_puts fvs h)). P f) \<and> (fvs \<noteq> [] \<longrightarrow> hash_puts fvs h \<noteq> [])"
  using assms
proof (induction fvs arbitrary: h)
  case Nil
  then show ?case by (simp add: hash_puts_def)
next
  case (Cons fv fvs)
  obtain f x where fv: "fv = (f, x)" by (cases fv)
  have step: "hash_puts (fv # fvs) h = hash_puts fvs (hash_put f x h)" by (simp add: hash_puts_def fv)
  have "distinct (map fst (hash_put f x h)) \<and> (\<forall>g \<in> set (map fst (hash_put f x h)). P g)"
    unfolding hash_put_fields using Cons.prems fv by auto
  then have IH: "distinct (map fst (hash_puts fvs (hash_put f x h)))" "\<forall>g \<in> set (map fst (hash_puts fvs (hash_put f x h))). P g"
    "fvs \<noteq> [] \<longrightarrow> hash_puts fvs (hash_put f x h) \<noteq> []"
    using Cons.IH [of "hash_put f x h"] Cons.prems(3) by auto
  have "hash_put f x h \<noteq> []" by (cases "(f, x, h)" rule: hash_put.cases) auto
  then have "hash_puts fvs (hash_put f x h) \<noteq> []" using IH(3) by (cases "fvs = []") (simp_all add: hash_puts_def)
  with IH step show ?case by simp
qed

lemma hash_command_set:
  assumes cfg: "hash_apart c key" and at: "hash_at c key h m" and ok: "hash_op_ok c h (Hset fvs)" and key: "key \<noteq> []"
  shows "\<exists>m' n'. run_command c map_ops now (hash_words key (Hset fvs)) (m, n) = Inr (fst (hash_spec (Hset fvs) h), (m', n')) \<and>
    hash_at c key (snd (hash_spec (Hset fvs) h)) m' \<and>
    (\<forall>k. k \<notin> insert key (range (get_hash_filed_key (rd_cfg c) key)) \<longrightarrow> m' k = m k)"
proof -
  let ?h = "hash_puts fvs h" and ?fk = "get_hash_filed_key (rd_cfg c) key"
  have exp: "expiry_apart c" using cfg by (simp add: hash_apart_def)
  have h: "\<forall>f. m (?fk f) = map_of h f" "distinct (map fst h)" "\<forall>f \<in> set (map fst h). separable (redis_field_separator (rd_cfg c)) f"
    "m key = fields_value c (map fst h)" "m (get_explire_key (rd_cfg c) key) = None"
    using at by (simp_all add: hash_at_def)
  have puts: "distinct (map fst ?h)" "\<forall>f \<in> set (map fst ?h). separable (redis_field_separator (rd_cfg c)) f" "?h \<noteq> []"
    using hash_puts_ok [OF h(2,3), of fvs] ok by auto
  have "\<forall>(f, x) \<in> set fvs. x \<noteq> []" using ok by auto
  from hset_loop_run [OF this h(1), of 0 "Suc (Suc n)"] obtain m' n' where
    loop: "hset_loop c map_ops key fvs (map fst h) (fst ` set h) 0 (m, Suc (Suc n)) =
      Inr ((map fst ?h, int (length ?h) - int (length h)), (m', n'))"
    "\<forall>f. m' (?fk f) = map_of ?h f" "\<forall>k. k \<notin> range ?fk \<longrightarrow> m' k = m k"
    by auto
  let ?v = "get_hash_value_from_fields (rd_cfg c) (map fst ?h)"
  have v: "?v \<noteq> []" using hash_value_not_Nil [OF puts(2)] puts(3) by simp
  have run_batch: "redis_hset_batch c map_ops now key fvs (m, n) =
      Inr (int_reply (int (length ?h) - int (length h)), (m'(key \<mapsto> ?v), Suc (n' + write_cost (key, ?v))))"
    using exp at key loop(1) v fields_read [OF h(3)]
    by (simp add: redis_hset_batch_def prog_simps h(4))
  have run: "run_command c map_ops now (hash_words key (Hset fvs)) (m, n) =
      Inr (int_reply (int (length ?h) - int (length h)), (m'(key \<mapsto> ?v), Suc (n' + write_cost (key, ?v))))"
  proof -
    define ws where "ws = concat (map (\<lambda>(f, x). [f, x]) fvs)"
    have "pairs_of ws = fvs" "length ws = 2 * length fvs" "fvs \<noteq> []"
      using ok by (simp_all add: ws_def length_words)
    moreover have "hash_words key (Hset fvs) = ''HSET'' # key # ws" by (simp add: ws_def)
    ultimately show ?thesis
      using run_batch by (simp add: run_command_def handler_defs wrapper_defs prog_simps Suc_le_eq)
  qed
  have "get_explire_key (rd_cfg c) key \<notin> range ?fk" using cfg by (auto simp: hash_apart_def)
  then have "hash_at c key ?h (m'(key \<mapsto> ?v))"
    using loop(2,3) puts exp h(5) by (simp add: hash_at_def fields_value_def)
  moreover have "\<forall>k. k \<notin> insert key (range ?fk) \<longrightarrow> (m'(key \<mapsto> ?v)) k = m k" using loop(3) by simp
  ultimately show ?thesis using run unfolding hash_spec.simps fst_conv snd_conv by blast
qed

lemma remove_field: "distinct (map fst h) \<Longrightarrow> remove1 f (map fst h) = map fst (filter (\<lambda>p. fst p \<noteq> f) h)"
  by (simp add: distinct_remove1_removeAll removeAll_filter_not_eq filter_map comp_def) (metis (mono_tags, lifting))

lemma map_of_filter_field: "map_of (filter (\<lambda>p. fst p \<noteq> f) h) = (map_of h)(f := None)"
  by (induction h) auto

lemma hash_command_del:
  assumes cfg: "hash_apart c key" and at: "hash_at c key h m" and key: "key \<noteq> []"
  shows "\<exists>m' n'. run_command c map_ops now (hash_words key (Hdel f)) (m, n) = Inr (fst (hash_spec (Hdel f) h), (m', n')) \<and>
    hash_at c key (snd (hash_spec (Hdel f) h)) m' \<and>
    (\<forall>k. k \<notin> insert key (range (get_hash_filed_key (rd_cfg c) key)) \<longrightarrow> m' k = m k)"
proof -
  let ?h = "filter (\<lambda>p. fst p \<noteq> f) h" and ?fk = "get_hash_filed_key (rd_cfg c) key"
  have exp: "expiry_apart c" using cfg by (simp add: hash_apart_def)
  have h: "\<forall>f. m (?fk f) = map_of h f" "distinct (map fst h)" "\<forall>f \<in> set (map fst h). separable (redis_field_separator (rd_cfg c)) f"
    "m key = fields_value c (map fst h)" "m (get_explire_key (rd_cfg c) key) = None"
    using at by (simp_all add: hash_at_def)
  have gone: "\<forall>g. (m(?fk f := None)) (?fk g) = map_of ?h g" using h(1) by (simp add: map_of_filter_field)
  have flds: "distinct (map fst ?h)" "\<forall>f \<in> set (map fst ?h). separable (redis_field_separator (rd_cfg c)) f"
    using h(2,3) by (auto simp: distinct_map_filter)
  let ?v = "get_hash_value_from_fields (rd_cfg c) (map fst ?h)"
  have apart: "get_explire_key (rd_cfg c) key \<noteq> ?fk f" using cfg by (simp add: hash_apart_def)
  have run: "\<exists>n'. run_command c map_ops now (hash_words key (Hdel f)) (m, n) =
      Inr (int_reply (if map_of h f = None then 0 else 1), ((m(?fk f := None))(key := fields_value c (map fst ?h)), n'))"
  proof (cases "f \<in> fst ` set h")
    case True
    then have f: "map_of h f \<noteq> None" by (simp add: map_of_eq_None_iff)
    have "(m(?fk f := None)) key = fields_value c (map fst h)" using h(4) by simp
    then show ?thesis
      using True f exp at key hash_value_not_Nil [OF flds(2)] fields_read [OF h(3)] h(1) remove_field [OF h(2), of f]
      by (cases "?h = []")
        (auto simp: run_command_def handler_defs wrapper_defs redis_hdel_def prog_simps Let_def fields_value_def [of c "map fst ?h"])
  next
    case False
    then have f: "map_of h f = None" by (simp add: map_of_eq_None_iff)
    then have "m(?fk f := None) = m" "m(key := fields_value c (map fst h)) = m" using h(1,4) by auto
    moreover have "?h = h" using False by (force simp: filter_id_conv)
    ultimately show ?thesis
      using False f exp at key fields_read [OF h(3)] h(1,4)
      by (simp add: run_command_def handler_defs wrapper_defs redis_hdel_def prog_simps Let_def)
  qed
  have "hash_at c key ?h ((m(?fk f := None))(key := fields_value c (map fst ?h)))"
    using gone flds exp h(5) apart by (simp add: hash_at_def)
  with run show ?thesis unfolding hash_spec.simps fst_conv snd_conv by (intro exI [of _ "(m(?fk f := None))(key := fields_value c (map fst ?h))"]) auto
qed

lemma hash_command:
  assumes cfg: "hash_apart c key" and at: "hash_at c key h m" and ok: "hash_op_ok c h op" and key: "key \<noteq> []"
  shows "\<exists>m' n'. run_command c map_ops now (hash_words key op) (m, n) = Inr (fst (hash_spec op h), (m', n')) \<and>
    hash_at c key (snd (hash_spec op h)) m' \<and>
    (\<forall>k. k \<notin> insert key (range (get_hash_filed_key (rd_cfg c) key)) \<longrightarrow> m' k = m k)"
proof (cases op)
  case (Hset fvs)
  then show ?thesis using hash_command_set [OF cfg at _ key, of fvs now n] ok by simp
next
  case (Hdel f)
  then show ?thesis using hash_command_del [OF cfg at key, of now f n] by simp
next
  case (Hget f)
  have "m (get_hash_filed_key (rd_cfg c) key f) = map_of h f" using at by (simp add: hash_at_def)
  then show ?thesis
    using Hget at cfg
    by (cases "map_of h f") (simp_all add: run_command_def handler_defs wrapper_defs redis_hget_def prog_simps hash_apart_def)
next
  case Hkeys
  have "m key = fields_value c (map fst h)" "\<forall>f \<in> set (map fst h). separable (redis_field_separator (rd_cfg c)) f"
    using at by (simp_all add: hash_at_def)
  then show ?thesis
    using Hkeys at cfg key fields_read [of "map fst h" c]
    by (simp add: run_command_def handler_defs wrapper_defs redis_hkeys_def prog_simps hash_apart_def)
qed

interpretation hash_data: redis_data c now "insert key (range (get_hash_filed_key (rd_cfg c) key))" "hash_words key" hash_spec
  "hash_op_ok c" "\<lambda>h m. hash_apart c key \<and> key \<noteq> [] \<and> hash_at c key h m"
  using hash_command by unfold_locales blast

text \<open>
  C17: the hash commands implement finite maps. For every sequence of \<^verbatim>\<open>HSET\<close>, with any number of pairs, \<^verbatim>\<open>HGET\<close>, \<^verbatim>\<open>HDEL\<close> and
  \<^verbatim>\<open>HKEYS\<close> on a key that holds the hash \<open>h\<close>, with fields that are not empty and do not contain the separator and
  values that are not empty, every reply is the one of the map operation (the number of new fields, the value, the number of
  removed fields, the fields in the order they were added), the key and its fields hold the resulting hash afterwards,
  and no key outside them changes.
\<close>

theorem hash_commands_refine:
  assumes "hash_apart c key" and "key \<noteq> []" and "hash_at c key h m" and "ops_ok hash_spec (hash_op_ok c) h ops"
  shows "\<exists>m' n'. run_commands c map_ops now (map (hash_words key) ops) (m, n) = Inr (fst (op_run hash_spec ops h), (m', n')) \<and>
    hash_at c key (snd (op_run hash_spec ops h)) m' \<and>
    (\<forall>k. k \<noteq> key \<and> k \<notin> range (get_hash_filed_key (rd_cfg c) key) \<longrightarrow> m' k = m k)"
  using hash_data.commands [of c key h m ops now n] assms by simp

theorem hash_commands_refine_witness:
  "\<exists>m' n'. run_commands sample_redis map_ops 0
      [[''HSET'', ''k'', ''f'', ''1'', ''g'', ''2''], [''HSET'', ''k'', ''f'', ''3''], [''HGET'', ''k'', ''f''], [''HDEL'', ''k'', ''f''],
       [''HKEYS'', ''k'']] (\<lambda>_. None, 0) =
    Inr ([int_reply 2, int_reply 0, bulk ''3'', int_reply 1, array_reply [''g'']], (m', n')) \<and>
    hash_at sample_redis ''k'' [(''g'', ''2'')] m'"
proof -
  let ?ops = "[Hset [(''f'', ''1''), (''g'', ''2'')], Hset [(''f'', ''3'')], Hget ''f'', Hdel ''f'', Hkeys]"
  have "hash_apart sample_redis ''k''"
    by (simp add: hash_apart_def expiry_apart_def get_explire_key_def get_hash_filed_key_def sample_redis_cfg)
  moreover have "hash_at sample_redis ''k'' [] (\<lambda>_. None)" by (simp add: hash_at_def fields_value_def)
  moreover have "ops_ok hash_spec (hash_op_ok sample_redis) [] ?ops" by (simp add: separable_def sample_redis_cfg)
  moreover have "op_run hash_spec ?ops [] =
      ([int_reply 2, int_reply 0, bulk ''3'', int_reply 1, array_reply [''g'']], [(''g'', ''2'')])"
    by (simp add: hash_puts_def)
  ultimately show ?thesis
    using hash_commands_refine [of sample_redis "''k''" "[]" "\<lambda>_. None" ?ops 0 0] by auto
qed

end
