(* ===== verification/RedisExpiry.thy ===== *)
theory RedisExpiry
  imports RedisTypes
begin

text \<open>
  Expiry times. Commands run at the times the clock shows; a key with an expiry time is there until that second
  and gone afterwards: the theorem follows a string from \<^verbatim>\<open>SET\<close> to its expiry.
\<close>

primrec run_timed :: "redis_env \<Rightarrow> ('s, 'i) kv_ops \<Rightarrow> (int \<times> string list) list \<Rightarrow> ('s, string list) prog" where
  "run_timed c ops [] = ret []"
| "run_timed c ops (tw # tws) =
     andThen (run_command c ops (fst tw) (snd tw)) (\<lambda>reply. andThen (run_timed c ops tws) (\<lambda>replies. ret (reply # replies)))"

lemma expiry_time:
  assumes "- (2 ^ 63) \<le> s" "s < 2 ^ 63" "- (2 ^ 63) \<le> now + s" "now + s < 2 ^ 63"
  shows "get_expire_time now (int_to_string s) = Inr (int_to_string (now + s))"
  using assms by (simp add: get_expire_time_def checked_ll_def)

lemma is_expired_time:
  assumes "- (2 ^ 63) \<le> x" "x < 2 ^ 63"
  shows "is_expired now (Some (int_to_string x)) = Inr (x < now)"
  using assms by (simp add: is_expired_def)

lemma expire_run:
  assumes "expiry_apart c" and "- (2 ^ 63) \<le> s" "s < 2 ^ 63" "- (2 ^ 63) \<le> now + s" "now + s < 2 ^ 63"
  shows "run_command c map_ops now [''EXPIRE'', key, int_to_string s] (m, n) = Inr (int_reply 1,
    (m(get_explire_key (rd_cfg c) key \<mapsto> int_to_string (now + s)),
     Suc (n + write_cost (get_explire_key (rd_cfg c) key, int_to_string (now + s)))))"
  using assms(1) expiry_time [OF assms(2-5)]
  by (simp add: run_command_def handler_defs wrapper_defs redis_expire_def prog_simps)

text \<open>
  C18: a string expires when it should. After \<^verbatim>\<open>SET key v\<close> and \<^verbatim>\<open>EXPIRE key s\<close> at time \<open>t0\<close>, the commands \<^verbatim>\<open>TTL\<close> and \<^verbatim>\<open>GET\<close> at
  a time \<open>t\<close> answer with the seconds that are left and the value as long as \<open>t\<close> is not after \<open>t0 + s\<close>; afterwards they
  answer that the key has expired and that there is no value, and \<^verbatim>\<open>GET\<close> has removed the key and its expiry time. No other
  key changes.
\<close>

theorem string_expires:
  assumes "expiry_apart c" and "key \<noteq> []" and "x \<noteq> []"
    and "- (2 ^ 63) \<le> s" "s < 2 ^ 63" "- (2 ^ 63) \<le> t0 + s" "t0 + s < 2 ^ 63" "t0 + s - t < 2 ^ 63"
  shows "\<exists>n'. run_timed c map_ops
      [(t0, [''SET'', key, x]), (t0, [''EXPIRE'', key, int_to_string s]), (t, [''TTL'', key]), (t, [''GET'', key])] (m, n) =
    Inr ([ok_reply, int_reply 1, int_reply (if t0 + s < t then - 2 else t0 + s - t), if t0 + s < t then nil_reply else bulk x],
      (if t0 + s < t then m(key := None, get_explire_key (rd_cfg c) key := None)
       else m(key \<mapsto> x, get_explire_key (rd_cfg c) key \<mapsto> int_to_string (t0 + s)), n'))"
proof -
  let ?e = "get_explire_key (rd_cfg c) key"
  have "\<exists>n'. run_command c map_ops t0 [''SET'', key, x] (m, n) = Inr (ok_reply, (m(key \<mapsto> x, ?e := None), n'))"
  proof (cases "m ?e")
    case None
    then have "m(key \<mapsto> x, ?e := None) = m(key \<mapsto> x)" using assms(1) by (auto simp: fun_upd_def)
    with None assms(1-3) show ?thesis
      by (simp add: run_command_def handler_defs wrapper_defs redis_set_def drop_expiry_def prog_simps)
  next
    case (Some y)
    with assms(1-3) show ?thesis
      by (simp add: run_command_def handler_defs wrapper_defs redis_set_def drop_expiry_def prog_simps)
  qed
  then obtain n1 where 1: "run_command c map_ops t0 [''SET'', key, x] (m, n) = Inr (ok_reply, (m(key \<mapsto> x, ?e := None), n1))" by blast
  let ?m = "m(key \<mapsto> x, ?e \<mapsto> int_to_string (t0 + s))"
  have "m(key \<mapsto> x, ?e := None, ?e \<mapsto> int_to_string (t0 + s)) = ?m" by simp
  then obtain n2 where 2: "run_command c map_ops t0 [''EXPIRE'', key, int_to_string s] (m(key \<mapsto> x, ?e := None), n1) = Inr (int_reply 1, (?m, n2))"
    using expire_run [OF assms(1,4-7), of key "m(key \<mapsto> x, ?e := None)" n1] by simp
  have exp: "is_expired t (?m ?e) = Inr (t0 + s < t)" using is_expired_time [OF assms(6,7)] by simp
  have vals: "?m key = Some x" "?m ?e = Some (int_to_string (t0 + s))" using assms(1) by simp_all
  have "run_command c map_ops t [''TTL'', key] (?m, n2) =
      Inr (int_reply (if t0 + s < t then - 2 else t0 + s - t), (?m, Suc (Suc n2)))"
    using assms(1,2,6-8) vals by (simp add: run_command_def handler_defs wrapper_defs redis_ttl_def prog_simps checked_ll_def del: fun_upd_apply)
  moreover have "\<exists>n'. run_command c map_ops t [''GET'', key] (?m, Suc (Suc n2)) = Inr (if t0 + s < t then nil_reply else bulk x,
      (if t0 + s < t then m(key := None, ?e := None) else ?m, n'))"
    using assms(1,2) exp vals
    by (auto simp: run_command_def handler_defs wrapper_defs redis_get_def prog_simps Let_def fun_upd_twist simp del: fun_upd_apply)
  ultimately show ?thesis using 1 2 by (auto simp: prog_simps)
qed

theorem string_expires_witness:
  "\<exists>n'. run_timed sample_redis map_ops
      [(100, [''SET'', ''k'', ''v'']), (100, [''EXPIRE'', ''k'', int_to_string 5]), (106, [''TTL'', ''k'']), (106, [''GET'', ''k''])] (\<lambda>_. None, 0) =
    Inr ([ok_reply, int_reply 1, int_reply (- 2), nil_reply], (\<lambda>_. None, n'))"
proof -
  have "expiry_apart sample_redis" by (simp add: expiry_apart_def sample_redis_cfg)
  moreover have "(\<lambda>_. None)(''k'' := None, get_explire_key (rd_cfg sample_redis) ''k'' := None) = (\<lambda>_. None)" by auto
  ultimately show ?thesis
    using string_expires [of sample_redis "''k''" "''v''" 5 100 106 "\<lambda>_. None" 0] by simp
qed

end
