(* ===== verification/MmapFile.thy ===== *)
theory MmapFile
  imports FileIO
begin

text \<open>
  Memory mapped files: \<^verbatim>\<open>MmapFile\<close> of \<^verbatim>\<open>src/utils/mmap_file.cpp\<close>. A shared mapping is the first bytes of the inode, so
  that writing through it writes the file. The system calls succeed where POSIX lets them: \<^verbatim>\<open>mmap\<close> refuses
  the length 0, \<^verbatim>\<open>ftruncate\<close> a bad descriptor and a length beyond \<^verbatim>\<open>off_t\<close>. Access outside of the mapping is
  undefined. Writing cuts the file behind the written bytes, as the lemmas say.
\<close>

datatype mapping = Unmapped | Map_failed | Mapped nat nat

record mmap_file =
  mm_fd :: "nat option"
  mm_mapped :: mapping
  mm_file_size :: nat
  mm_filename :: string

definition MmapFile_new :: mmap_file where
  "MmapFile_new = \<lparr>mm_fd = None, mm_mapped = Unmapped, mm_file_size = 0, mm_filename = []\<rparr>"

section \<open>System calls\<close>

definition sys_mmap :: "nat option \<Rightarrow> nat \<Rightarrow> mapping" where
  "sys_mmap f sz = (case f of None \<Rightarrow> Map_failed | Some i \<Rightarrow> if sz = 0 then Map_failed else Mapped i sz)"

definition sys_ftruncate :: "filesys \<Rightarrow> nat option \<Rightarrow> nat \<Rightarrow> filesys option" where
  "sys_ftruncate fs f sz =
     (case f of
        None \<Rightarrow> None
      | Some i \<Rightarrow>
          if 2 ^ 63 \<le> sz then None
          else Some (fs\<lparr>inodes := (inodes fs)(i := take sz (inodes fs i) @ replicate (sz - length (inodes fs i)) 0)\<rparr>))"

text \<open>\<^verbatim>\<open>::open\<close> for reading and writing, with or without \<^verbatim>\<open>O_CREAT\<close>.\<close>

definition sys_open :: "filesys \<Rightarrow> string \<Rightarrow> bool \<Rightarrow> filesys \<times> nat option" where
  "sys_open fs filename create =
     (case dir fs filename of
        Some i \<Rightarrow> (fs, Some i)
      | None \<Rightarrow>
          if create
          then (fs\<lparr>dir := (dir fs)(filename \<mapsto> next_ino fs), inodes := (inodes fs)(next_ino fs := []), next_ino := Suc (next_ino fs)\<rparr>,
                Some (next_ino fs))
          else (fs, None))"

text \<open>\<^verbatim>\<open>memcpy\<close> into and out of the mapping.\<close>

definition map_store :: "filesys \<Rightarrow> mapping \<Rightarrow> nat \<Rightarrow> bytes \<Rightarrow> filesys result" where
  "map_store fs mp off data =
     (if data = [] then Inr fs
      else case mp of
        Mapped i n \<Rightarrow>
          if off + length data \<le> n \<and> off + length data \<le> length (inodes fs i)
          then Inr (fs\<lparr>inodes := (inodes fs)(i := pwrite_bytes (inodes fs i) off data)\<rparr>)
          else Inl Undefined_behaviour
      | _ \<Rightarrow> Inl Undefined_behaviour)"

definition map_load :: "filesys \<Rightarrow> mapping \<Rightarrow> nat \<Rightarrow> nat \<Rightarrow> bytes result" where
  "map_load fs mp off len =
     (if len = 0 then Inr []
      else case mp of
        Mapped i n \<Rightarrow>
          if off + len \<le> n \<and> off + len \<le> length (inodes fs i) then Inr (take len (drop off (inodes fs i)))
          else Inl Undefined_behaviour
      | _ \<Rightarrow> Inl Undefined_behaviour)"

section \<open>Operations\<close>

definition MmapFile_size :: "mmap_file \<Rightarrow> nat" where
  "MmapFile_size f = mm_file_size f"

definition MmapFile_close :: "mmap_file \<Rightarrow> mmap_file" where
  "MmapFile_close f =
     f\<lparr>mm_mapped := (case mm_mapped f of Mapped i n \<Rightarrow> Unmapped | mp \<Rightarrow> mp), mm_fd := None, mm_file_size := 0\<rparr>"

definition MmapFile_sync :: "mmap_file \<Rightarrow> bool" where
  "MmapFile_sync f = True"

definition MmapFile_open :: "filesys \<Rightarrow> mmap_file \<Rightarrow> string \<Rightarrow> bool \<Rightarrow> bool \<times> filesys \<times> mmap_file" where
  "MmapFile_open fs f filename create =
     (let f = f\<lparr>mm_filename := filename\<rparr>; (fs, h) = sys_open fs filename create; f = f\<lparr>mm_fd := h\<rparr> in
      case h of
        None \<Rightarrow> (False, fs, f)
      | Some i \<Rightarrow>
          let f = f\<lparr>mm_file_size := length (inodes fs i)\<rparr> in
          if 0 < mm_file_size f then
            let f = f\<lparr>mm_mapped := sys_mmap h (mm_file_size f)\<rparr> in
            if mm_mapped f = Map_failed then (False, fs, MmapFile_close f) else (True, fs, f)
          else (True, fs, f))"

definition MmapFile_create_and_map :: "filesys \<Rightarrow> mmap_file \<Rightarrow> string \<Rightarrow> nat \<Rightarrow> bool \<times> filesys \<times> mmap_file" where
  "MmapFile_create_and_map fs f path sz =
     (let (fs, h) = sys_open fs path True; f = f\<lparr>mm_fd := h\<rparr> in
      case h of
        None \<Rightarrow> (False, fs, f)
      | Some i \<Rightarrow>
          let fs = fs\<lparr>inodes := (inodes fs)(i := [])\<rparr> in
          case sys_ftruncate fs h sz of
            None \<Rightarrow> (False, fs, MmapFile_close f)
          | Some fs \<Rightarrow>
              let f = f\<lparr>mm_mapped := sys_mmap h sz\<rparr> in
              if mm_mapped f = Map_failed then (False, fs, MmapFile_close f)
              else (True, fs, f\<lparr>mm_file_size := sz\<rparr>))"

definition MmapFile_create :: "filesys \<Rightarrow> mmap_file \<Rightarrow> string \<Rightarrow> bytes \<Rightarrow> (bool \<times> filesys \<times> mmap_file) result" where
  "MmapFile_create fs f filename buf =
     (let (ok, fs, f) = MmapFile_create_and_map fs f filename (length buf) in
      if \<not> ok then Inr (False, fs, f)
      else bindE (map_store fs (mm_mapped f) 0 buf) (\<lambda>fs. Inr (True, fs, f)))"

definition MmapFile_write :: "filesys \<Rightarrow> mmap_file \<Rightarrow> nat \<Rightarrow> bytes \<Rightarrow> (bool \<times> filesys \<times> mmap_file) result" where
  "MmapFile_write fs f off data =
     (let new_size = (off + length data) mod 2 ^ 64 in
      case sys_ftruncate fs (mm_fd f) new_size of
        None \<Rightarrow> Inr (False, fs, f)
      | Some fs \<Rightarrow>
          let f = f\<lparr>mm_file_size := new_size, mm_mapped := sys_mmap (mm_fd f) new_size\<rparr> in
          if mm_mapped f = Map_failed then Inr (False, fs, f\<lparr>mm_mapped := Unmapped\<rparr>)
          else bindE (map_store fs (mm_mapped f) off data) (\<lambda>fs. Inr (True, fs, f)))"

definition MmapFile_read :: "filesys \<Rightarrow> mmap_file \<Rightarrow> nat \<Rightarrow> nat \<Rightarrow> bytes result" where
  "MmapFile_read fs f off len = map_load fs (mm_mapped f) off len"

definition MmapFile_truncate :: "filesys \<Rightarrow> mmap_file \<Rightarrow> nat \<Rightarrow> bool \<times> filesys \<times> mmap_file" where
  "MmapFile_truncate fs f sz =
     (let f = f\<lparr>mm_mapped := (case mm_mapped f of Mapped i n \<Rightarrow> Unmapped | mp \<Rightarrow> mp)\<rparr> in
      case sys_ftruncate fs (mm_fd f) sz of
        None \<Rightarrow> (False, fs, f)
      | Some fs \<Rightarrow>
          if 0 < sz then
            let f = f\<lparr>mm_mapped := sys_mmap (mm_fd f) sz\<rparr> in
            if mm_mapped f = Map_failed then (False, fs, f\<lparr>mm_mapped := Unmapped\<rparr>)
            else (True, fs, f\<lparr>mm_file_size := sz\<rparr>)
          else (True, fs, f\<lparr>mm_mapped := Unmapped, mm_file_size := sz\<rparr>))"

section \<open>What is read back\<close>

lemma mmap_create_read:
  assumes "buf \<noteq> []" and "length buf < 2 ^ 63"
  shows "\<exists>fs' f'. MmapFile_create fs f filename buf = Inr (True, fs', f') \<and> MmapFile_size f' = length buf \<and>
    MmapFile_read fs' f' 0 (length buf) = Inr buf \<and> map_option (inodes fs') (dir fs' filename) = Some buf"
  using assms
  by (cases "dir fs filename")
    (simp_all add: Let_def MmapFile_create_def MmapFile_create_and_map_def sys_open_def sys_ftruncate_def sys_mmap_def map_store_def
      MmapFile_read_def map_load_def MmapFile_size_def pwrite_bytes_def)

text \<open>A write keeps what is before it, fills a gap with zeros, and cuts the file behind it.\<close>

lemma mmap_write_read:
  assumes "mm_fd f = Some i" and "data \<noteq> []" and "off + length data < 2 ^ 63"
  shows "\<exists>fs' f'. MmapFile_write fs f off data = Inr (True, fs', f') \<and> MmapFile_read fs' f' off (length data) = Inr data \<and>
    inodes fs' i = take off (inodes fs i) @ replicate (off - length (inodes fs i)) 0 @ data"
  using assms
  by (auto simp: Let_def MmapFile_write_def sys_ftruncate_def sys_mmap_def map_store_def MmapFile_read_def map_load_def pwrite_bytes_def min_def)

lemma mmap_create_empty:
  "\<exists>fs' f'. MmapFile_create fs f filename [] = Inr (False, fs', f') \<and> map_option (inodes fs') (dir fs' filename) = Some []"
  by (cases "dir fs filename")
    (simp_all add: Let_def MmapFile_create_def MmapFile_create_and_map_def sys_open_def sys_ftruncate_def sys_mmap_def MmapFile_close_def)

end
