(* ===== verification/Spec2Isabelle.thy ===== *)
theory Spec2Isabelle
  imports FileIO Block BlockIterator BlockMeta BlockCache BloomFilter VLog WalRecord WAL SkipList
    HeapIterator SSTBuild MemTable Config TranManager MergeIterator Compaction Lsm TranProps RedisProps RedisHash RedisExpiry MmapFile
begin

text \<open>
  A verification of the tiny-lsm key-value store: a log-structured merge tree with transactions, a layer of
  Redis data types on top of it, and a server for the RESP protocol.

  \<^bold>\<open>The program.\<close> A write goes into the memtable, a skip list of versions \<open>(key, transaction id) \<mapsto> value\<close>; a full
  skip list is frozen, and when the memtable exceeds its limit the oldest frozen one is written to a sorted
  table of level 0. When a level has too many tables it is merged into the next one. A lookup asks
  the memtable, then level 0 from its newest table on, then the deeper levels, through Bloom filters, block
  indexes and a block cache. An empty value is a deletion. Transactions keep their writes apart until
  they commit; a write-ahead log holds the records of the committed ones. The Redis layer encodes strings, hashes,
  lists, sets and sorted sets as keys and values; a session of the server parses requests and runs commands.

  \<^bold>\<open>Where the parts are.\<close> Paths are relative to \<^verbatim>\<open>src/src\<close> unless they say otherwise.
  \<^item> Shared: \<^verbatim>\<open>Prelude\<close> (machine integers, exceptions as a sum, byte buffers), \<^verbatim>\<open>TextUtil\<close> and \<^verbatim>\<open>Containers\<close> (numbers
    as text, \<^verbatim>\<open>std::map\<close>, \<^verbatim>\<open>std::set\<close>), \<^verbatim>\<open>IteratorSpec\<close> (the contract of iterators).
  \<^item> Files: \<^verbatim>\<open>FileIO\<close> (\<^verbatim>\<open>utils/std_file.cpp\<close>, \<^verbatim>\<open>utils/files.cpp\<close>, \<^verbatim>\<open>utils/cursor.cpp\<close>), \<^verbatim>\<open>MmapFile\<close>
    (\<^verbatim>\<open>utils/mmap_file.cpp\<close>, which the engine does not use), \<^verbatim>\<open>VLog\<close> (\<^verbatim>\<open>vlog/vlog.cpp\<close>),
    \<^verbatim>\<open>WalRecord\<close> and \<^verbatim>\<open>WAL\<close> (\<^verbatim>\<open>wal/record.cpp\<close>, \<^verbatim>\<open>wal/wal.cpp\<close>), \<^verbatim>\<open>Config\<close> (\<^verbatim>\<open>config/config.cpp\<close>).
  \<^item> Tables: \<^verbatim>\<open>Block\<close>, \<^verbatim>\<open>BlockIterator\<close>, \<^verbatim>\<open>BlockMeta\<close>, \<^verbatim>\<open>BlockCache\<close> (\<^verbatim>\<open>block/\<close>), \<^verbatim>\<open>BloomFilter\<close> (\<^verbatim>\<open>utils/bloom_filter.cpp\<close>),
    \<^verbatim>\<open>SST\<close> and \<^verbatim>\<open>SSTBuild\<close> (\<^verbatim>\<open>sst/sst.cpp\<close>), \<^verbatim>\<open>SstIterator\<close> (\<^verbatim>\<open>sst/sst_iterator.cpp\<close>, \<^verbatim>\<open>sst/concact_iterator.cpp\<close>).
  \<^item> Memory: \<^verbatim>\<open>SkipList\<close> (\<^verbatim>\<open>skiplist/skipList.cpp\<close>), \<^verbatim>\<open>HeapIterator\<close> (\<^verbatim>\<open>iterator/iterator.cpp\<close>), \<^verbatim>\<open>MemTable\<close> (\<^verbatim>\<open>memtable/memtable.cpp\<close>).
  \<^item> Engine: \<^verbatim>\<open>Engine\<close> (class \<^verbatim>\<open>LSMEngine\<close> of \<^verbatim>\<open>lsm/engine.cpp\<close>), \<^verbatim>\<open>EngineLookup\<close>, \<^verbatim>\<open>EngineFlush\<close>, \<^verbatim>\<open>EngineProps\<close>, \<^verbatim>\<open>EngineCompact\<close>
    and \<^verbatim>\<open>Compaction\<close> (its invariant and theorems), \<^verbatim>\<open>MergeIterator\<close> (\<^verbatim>\<open>lsm/two_merge_iterator.cpp\<close>),
    \<^verbatim>\<open>LevelIterator\<close> (\<^verbatim>\<open>lsm/level_iterator.cpp\<close>), \<^verbatim>\<open>TranManager\<close>, \<^verbatim>\<open>Transaction\<close> and \<^verbatim>\<open>TranProps\<close> (\<^verbatim>\<open>lsm/transation.cpp\<close>), \<^verbatim>\<open>Lsm\<close>
    (class \<^verbatim>\<open>LSM\<close> of \<^verbatim>\<open>lsm/engine.cpp\<close>).
  \<^item> Redis: \<^verbatim>\<open>RedisText\<close> and \<^verbatim>\<open>Redis\<close> (\<^verbatim>\<open>redis_wrapper/redis_wrapper.cpp\<close>), \<^verbatim>\<open>Server\<close> (\<^verbatim>\<open>src/server/src\<close>: \<^verbatim>\<open>handler.cpp\<close>, \<^verbatim>\<open>server.cpp\<close>),
    \<^verbatim>\<open>RedisStore\<close>, \<^verbatim>\<open>RedisRefine\<close>, \<^verbatim>\<open>RedisTypes\<close>, \<^verbatim>\<open>RedisHash\<close>, \<^verbatim>\<open>RedisExpiry\<close>, \<^verbatim>\<open>Resp\<close> and \<^verbatim>\<open>RedisProps\<close> (their theorems).

  \<^bold>\<open>How the code becomes definitions.\<close> A class is a record and every method a function of the record with the
  name of the method; a method that changes state returns the new state. An exception and every behaviour that C++
  leaves undefined is a value \<open>Inl\<close>. What several objects share, the file system, the block cache and the supply of block
  addresses, is the record \<open>store\<close>, which the engine holds and the operations thread. The skip list is a heap of
  nodes with forward and backward pointers. The random levels of the skip list are arguments, so the theorems hold for
  all of them; so are the orders in which unordered maps and directories are visited. \<^verbatim>\<open>std::hash\<close>, the
  real functions of the Bloom filter, the TOML parser, the clock and the conversion of doubles are
  parameters. A command of the Redis layer is a program over the operations of the store (\<open>kv_ops\<close>), so that
  it can run on the engine (\<open>lsm_ops\<close>) and on a map (\<open>map_ops\<close>).

  \<^bold>\<open>What is shown.\<close>
  \<^item> Storage: blocks, indexes, filters, records, logs, the value log and tables read back what was written;
    binary searches agree with linear ones; the cache is coherent; recovery from any listing of
    the log directory returns what was logged; an inline value that looks like a reference is misread in the WiscKey mode.
  \<^item> Memory: the skip list refines the sorted list of versions; the memtable refines a list of such lists;
    the heap iterator merges its sources.
  \<^item> Engine: the list of all versions in the order of lookups is the abstract state. A lookup gives the first
    visible version; writes, flushes and compactions refine operations on that list and keep every answer.
  \<^item> Transactions: a commit detects newer versions in memory and otherwise logs its records and becomes visible
    as a whole; the set of flushed ids stands for what it should, and its checkpoint is the largest possible one.
  \<^item> Interface: class \<^verbatim>\<open>LSM\<close> is a map (contract \<open>kv_store\<close>); the server on it behaves as the server on a map; a
    request in the RESP format runs its words; the list, set and hash commands implement lists, sets and finite maps (contract \<open>redis_data\<close>).

  The contracts between the parts are locales: \<open>list_iterator\<close>, \<open>append_log\<close>, \<open>version_tables\<close>, \<open>version_iterator\<close> and
  \<open>all_versions_iterator\<close>, \<open>kv_store\<close>, \<open>redis_data\<close>; each is interpreted by the components that provide it.

  \<^bold>\<open>Bounds and fuel.\<close> Lengths that the formats store in 16, 32 or 64 bits must fit, which is a hypothesis where it
  matters. Loops along pointers end with \<open>No_return\<close> when they visit more nodes than exist, and the invariants exclude
  it. Loops over iterators whose number of steps depends on the data take \<open>env_steps\<close> or \<open>rd_steps\<close> as fuel, and the
  theorems ask for more fuel than there are versions. \<open>tables_ok h disk T n w\<close> counts by \<open>n\<close> the requests the block
  cache has served; its counters have 64 bits, so the theorems ask for room. Table numbers stay below \<open>2 ^ 31\<close>
  where the code converts them. \<open>engine_holds\<close> has a budget: the bytes that still fit below the limit of the memtable,
  the ids and the cache counters; a sequence of calls whose cost is within it starts no flush. The theorems on
  flush and compaction are about the plain storage mode, those on tables cover the WiscKey mode as well.
  Keys are not empty: the engine uses the empty key to mark commits.

  \<^bold>\<open>Not modelled.\<close> Concurrency inside an operation: every operation is one step, as the locks make it, and the cleaner
  thread of the log is a call at an arbitrary point. Two copies of an iterator that share one block
  iterator. The Windows branch of \<^verbatim>\<open>std_file.cpp\<close>. A file that cannot be created: opening one with creation
  succeeds, so \<^verbatim>\<open>saveToFile\<close> never reports a failure. A Bloom filter for no elements, whose constructor divides by
  zero; the theorems on the filter exclude it (\<open>fine_bloom\<close>). The logger, the Python bindings and the example, which contain no logic of the store. The
  transport of the server: a session is a function of the content of its buffer. Range queries are
  modelled, in the Redis layer too, but \<open>map_ops\<close> gives them no meaning, so the sorted sets have no refinement
  theorem. The expiry times are modelled in every command;
  strings are shown to expire on time, and the theorems on the other data types are about keys without one.
\<close>

end
